(* ===== verification/RT_Prelude.thy ===== *)
theory RT_Prelude
  imports Main "HOL-Library.Word"
begin

text \<open>
  What every component of the model shares: the type of addresses and of memory,
  the errors the collector can stop with, sequencing of operations that can stop,
  and generic lemmas on lists and on 64 bit words.

  Memory is one function from the address of an aligned long to the long stored there.
  The code reads and writes its heap only through aligned longs (links, hole headers,
  object words), so object headers, hole headers, object bodies, saved stacks and static
  objects all live in this one function, and overlap exactly where they overlap in C.
\<close>

type_synonym addr = "64 word"
type_synonym mem = "64 word \<Rightarrow> 64 word"

named_theorems hdr_simps \<open>reading one header field after writing another\<close>
named_theorems align_simps \<open>alignment facts about addresses\<close>
named_theorems frame_intros \<open>memory an operation leaves unchanged\<close>

subsection \<open>Stopping\<close>

text \<open>
  An \<open>assert\<close> that fails, a call of \<open>Debugger\<close> (rtutil.c prints and raises SIGSTOP),
  \<open>out_of_memory\<close> (which ends in \<open>Debugger\<close>) and a null dereference end the run. Loops over
  linked lists carry fuel, and running out of it is a stop of its own. The messages are those
  of the code, without the newline at the end and with the empty string for NULL.
\<close>

datatype rt_error =
    Assert_failed
  | Debugger string
  | Out_of_memory string int
  | Null_deref
  | Wild_access
  | Divide_by_zero
  | Out_of_fuel

definition rbind :: "rt_error + 'a \<Rightarrow> ('a \<Rightarrow> rt_error + 'b) \<Rightarrow> rt_error + 'b" where
  "rbind r f = (case r of Inl e \<Rightarrow> Inl e | Inr x \<Rightarrow> f x)"

definition rassert :: "bool \<Rightarrow> rt_error + unit" where
  "rassert b = (if b then Inr () else Inl Assert_failed)"

lemma rbind_simps [simp]:
  "rbind (Inl e) f = Inl e"
  "rbind (Inr x) f = f x"
  by (simp_all add: rbind_def)

lemma rbind_Inr_iff: "rbind r f = Inr y \<longleftrightarrow> (\<exists>x. r = Inr x \<and> f x = Inr y)"
  by (cases r) simp_all

lemma rassert_simps [simp]:
  "rassert True = Inr ()"
  "rassert False = Inl Assert_failed"
  by (simp_all add: rassert_def)

lemma rassert_Inr_iff [simp]: "rassert b = Inr u \<longleftrightarrow> b"
  by (simp add: rassert_def)

lemma rbind_cong [fundef_cong]:
  "r = r' \<Longrightarrow> (\<And>x. r' = Inr x \<Longrightarrow> f x = f' x) \<Longrightarrow> rbind r f = rbind r' f'"
  by (cases r') simp_all

text \<open>A loop over a list of indices or addresses, stopping at the first error.\<close>

fun rfold :: "('w \<Rightarrow> 's \<Rightarrow> rt_error + 's) \<Rightarrow> 'w list \<Rightarrow> 's \<Rightarrow> rt_error + 's" where
  "rfold f [] s = Inr s"
| "rfold f (w # ws) s = rbind (f w s) (rfold f ws)"

lemma rfold_append: "rfold f (us @ vs) s = rbind (rfold f us s) (rfold f vs)"
  by (induction us arbitrary: s) (auto simp: rbind_def split: sum.splits)

lemma rfold_cong:
  "(\<And>w s. w \<in> set ws \<Longrightarrow> f w s = g w s) \<Longrightarrow> rfold f ws s = rfold g ws s"
  by (induction ws arbitrary: s) (auto simp: rbind_def split: sum.splits)

subsection \<open>Refinement of an operation that can stop\<close>

text \<open>
  The contract every operation of the collector is proved to keep: on a state that
  represents an abstract value, and where its precondition holds, the operation does not
  stop, its result represents the abstract result, and a frame relation holds between the
  two states. A loop of such operations then keeps the contract too.
\<close>

locale op_refinement =
  fixes rep :: "'s \<Rightarrow> 'a \<Rightarrow> bool"
    and cop :: "'w \<Rightarrow> 's \<Rightarrow> rt_error + 's"
    and aop :: "'w \<Rightarrow> 'a \<Rightarrow> 'a"
    and pre :: "'w \<Rightarrow> 'a \<Rightarrow> bool"
    and frame :: "'s \<Rightarrow> 's \<Rightarrow> bool"
  assumes refine: "rep s a \<Longrightarrow> pre w a \<Longrightarrow>
      \<exists>s'. cop w s = Inr s' \<and> rep s' (aop w a) \<and> frame s s'"
    and pre_stable: "pre w a \<Longrightarrow> pre v a \<Longrightarrow> v \<noteq> w \<Longrightarrow> pre v (aop w a)"
    and frame_refl: "frame s s"
    and frame_trans: "frame s s' \<Longrightarrow> frame s' s'' \<Longrightarrow> frame s s''"
begin

lemma rfold_refines:
  assumes "rep s a" and "\<And>w. w \<in> set ws \<Longrightarrow> pre w a" and "distinct ws"
  shows "\<exists>s'. rfold cop ws s = Inr s' \<and> rep s' (fold aop ws a) \<and> frame s s'"
  using assms
proof (induction ws arbitrary: s a)
  case Nil
  then show ?case by (auto intro: frame_refl)
next
  case (Cons w ws)
  then obtain s1 where 1: "cop w s = Inr s1" "rep s1 (aop w a)" "frame s s1"
    using refine [of s a w] by auto
  have "\<And>v. v \<in> set ws \<Longrightarrow> pre v (aop w a)"
    using Cons.prems by (intro pre_stable) auto
  from Cons.IH [OF 1(2) this] Cons.prems(3)
  obtain s2 where "rfold cop ws s1 = Inr s2" "rep s2 (fold aop ws (aop w a))" "frame s1 s2"
    by auto
  with 1 frame_trans show ?case by auto
qed

end

text \<open>
  Where the precondition never changes, repetitions in the list do no harm: tracing the
  same pointer twice is such an operation.
\<close>

locale op_refinement_total = op_refinement +
  assumes pre_fixed: "pre w a \<Longrightarrow> pre v a \<Longrightarrow> pre v (aop w a)"
begin

lemma rfold_refines_total:
  assumes "rep s a" and "\<And>w. w \<in> set ws \<Longrightarrow> pre w a"
  shows "\<exists>s'. rfold cop ws s = Inr s' \<and> rep s' (fold aop ws a) \<and> frame s s'"
  using assms
proof (induction ws arbitrary: s a)
  case Nil
  then show ?case by (auto intro: frame_refl)
next
  case (Cons w ws)
  then obtain s1 where 1: "cop w s = Inr s1" "rep s1 (aop w a)" "frame s s1"
    using refine [of s a w] by auto
  have "\<And>v. v \<in> set ws \<Longrightarrow> pre v (aop w a)"
    using Cons.prems by (intro pre_fixed) auto
  from Cons.IH [OF 1(2) this]
  obtain s2 where "rfold cop ws s1 = Inr s2" "rep s2 (fold aop ws (aop w a))" "frame s1 s2"
    by auto
  with 1 frame_trans show ?case by auto
qed

end

subsection \<open>Lists with a default end\<close>

definition hd_or :: "'a list \<Rightarrow> 'a \<Rightarrow> 'a" where
  "hd_or xs d = (case xs of [] \<Rightarrow> d | x # _ \<Rightarrow> x)"

definition last_or :: "'a \<Rightarrow> 'a list \<Rightarrow> 'a" where
  "last_or d xs = (if xs = [] then d else last xs)"

lemma hd_or_simps [simp]:
  "hd_or [] d = d"
  "hd_or (x # xs) d = x"
  by (simp_all add: hd_or_def)

lemma last_or_simps [simp]:
  "last_or d [] = d"
  "last_or d (x # xs) = last_or x xs"
  "last_or d (xs @ [x]) = x"
  by (simp_all add: last_or_def)

lemma hd_or_append [simp]: "hd_or (xs @ ys) d = hd_or xs (hd_or ys d)"
  by (cases xs) simp_all

lemma last_or_append [simp]: "last_or d (xs @ ys) = last_or (last_or d xs) ys"
  by (simp add: last_or_def)

lemma hd_or_cases: "xs = [] \<and> hd_or xs d = d \<or> hd_or xs d \<in> set xs"
  by (cases xs) simp_all

lemma last_or_cases: "xs = [] \<and> last_or d xs = d \<or> last_or d xs \<in> set xs"
  by (simp add: last_or_def)

lemma hd_or_eq_default: "d \<notin> set xs \<Longrightarrow> hd_or xs d = d \<longleftrightarrow> xs = []"
  by (cases xs) auto

lemma last_or_eq_default: "d \<notin> set xs \<Longrightarrow> last_or d xs = d \<longleftrightarrow> xs = []"
  by (auto simp: last_or_def split: if_splits)

lemma last_or_in_set: "xs \<noteq> [] \<Longrightarrow> last_or d xs \<in> set xs"
  by (simp add: last_or_def)

lemma hd_or_in_set: "xs \<noteq> [] \<Longrightarrow> hd_or xs d \<in> set xs"
  by (cases xs) simp_all

lemma last_not_in: "xs \<noteq> [] \<Longrightarrow> set xs \<inter> set ys = {} \<Longrightarrow> last xs \<notin> set ys"
  using last_in_set by blast

lemma hd_not_in: "xs \<noteq> [] \<Longrightarrow> set xs \<inter> set ys = {} \<Longrightarrow> hd xs \<notin> set ys"
  using hd_in_set by blast

lemma insert_set_remove1: "x \<in> set ws \<Longrightarrow> insert x (set (remove1 x ws)) = set ws"
proof (rule set_eqI)
  fix y assume "x \<in> set ws"
  then show "y \<in> insert x (set (remove1 x ws)) \<longleftrightarrow> y \<in> set ws"
    by (cases "y = x") simp_all
qed

end
