(* ===== verification/Info_Bits.thy ===== *)
theory Info_Bits
  imports RT_Prelude
begin

unbundle bit_operations_syntax

text \<open>
  The link words of an object header (info-bits.h): a link is a pointer with its four low
  bits reused, the colour in the low bits of \<open>prev\<close> and the storage class in those of
  \<open>next\<close>. The macros on links come first, then the header accessors over memory, where
  \<open>p->prev\<close> is the long at \<open>p\<close> and \<open>p->next\<close> the long at \<open>p + 8\<close>.
\<close>

subsection \<open>Link words\<close>

definition LINK_INFO_BITS :: nat where
  "LINK_INFO_BITS = 4"

definition LINK_INFO_MASK :: "64 word" where
  "LINK_INFO_MASK = push_bit LINK_INFO_BITS 1 - 1"

definition LINK_POINTER_MASK :: "64 word" where
  "LINK_POINTER_MASK = NOT LINK_INFO_MASK"

definition GET_LINK_POINTER :: "64 word \<Rightarrow> addr" where
  "GET_LINK_POINTER l = l AND LINK_POINTER_MASK"

definition SET_LINK_POINTER :: "64 word \<Rightarrow> addr \<Rightarrow> 64 word" where
  "SET_LINK_POINTER l value = (l AND LINK_INFO_MASK) OR value"

definition GET_LINK_INFO :: "64 word \<Rightarrow> 64 word \<Rightarrow> 64 word" where
  "GET_LINK_INFO l msk = l AND msk"

definition SET_LINK_INFO :: "64 word \<Rightarrow> 64 word \<Rightarrow> 64 word \<Rightarrow> 64 word" where
  "SET_LINK_INFO l msk bits = (l AND NOT msk) OR bits"

definition GC_STORAGE_INFO_MASK :: "64 word" where
  "GC_STORAGE_INFO_MASK = 0x3"

definition GC_COLOR_INFO_MASK :: "64 word" where
  "GC_COLOR_INFO_MASK = 0x3"

definition SC_NOPOINTERS :: "64 word" where "SC_NOPOINTERS = 0"
definition SC_POINTERS :: "64 word" where "SC_POINTERS = 1"
definition SC_CUSTOM1 :: "64 word" where "SC_CUSTOM1 = 2"
definition SC_METADATA :: "64 word" where "SC_METADATA = 3"

definition GENERATION0 :: "64 word" where "GENERATION0 = 0"
definition GENERATION1 :: "64 word" where "GENERATION1 = 1"
definition GRAY :: "64 word" where "GRAY = 2"
definition GREEN :: "64 word" where "GREEN = 3"

lemmas color_defs = GENERATION0_def GENERATION1_def GRAY_def GREEN_def
lemmas sc_defs = SC_NOPOINTERS_def SC_POINTERS_def SC_CUSTOM1_def SC_METADATA_def

text \<open>A pointer a link can hold has its four low bits clear; a colour or class fits two bits.\<close>

definition aligned :: "addr \<Rightarrow> bool" where
  "aligned p \<longleftrightarrow> p AND LINK_INFO_MASK = 0"

definition two_bits :: "64 word \<Rightarrow> bool" where
  "two_bits c \<longleftrightarrow> c AND 0x3 = c"

lemma LINK_INFO_MASK_eq: "LINK_INFO_MASK = mask 4"
  by (simp add: LINK_INFO_MASK_def LINK_INFO_BITS_def mask_eq_exp_minus_1)

lemma three_eq_mask: "(0x3 :: 64 word) = mask 2"
  by (simp add: mask_eq_exp_minus_1)

lemmas link_defs =
  GET_LINK_POINTER_def SET_LINK_POINTER_def GET_LINK_INFO_def SET_LINK_INFO_def
  LINK_POINTER_MASK_def LINK_INFO_MASK_eq GC_STORAGE_INFO_MASK_def GC_COLOR_INFO_MASK_def
  three_eq_mask

lemma bit_64_bound: "bit (w :: 64 word) n \<Longrightarrow> n < 64"
  using bit_imp_le_length [of w n] by simp

lemma aligned_iff_bits: "aligned p \<longleftrightarrow> (\<forall>n<4. \<not> bit p n)"
proof -
  have "aligned p \<longleftrightarrow> (\<forall>n<64. \<not> (bit p n \<and> n < 4))"
    unfolding aligned_def LINK_INFO_MASK_eq by (auto simp: bit_eq_iff bit_simps)
  also have "\<dots> \<longleftrightarrow> (\<forall>n<4. \<not> bit p n)" by (auto dest: bit_64_bound)
  finally show ?thesis .
qed

lemma two_bits_iff_bits: "two_bits c \<longleftrightarrow> (\<forall>n. bit c n \<longrightarrow> n < 2)"
proof -
  have "two_bits c \<longleftrightarrow> (\<forall>n<64. bit c n \<longrightarrow> n < 2)"
    unfolding two_bits_def three_eq_mask by (auto simp: bit_eq_iff bit_simps)
  also have "\<dots> \<longleftrightarrow> (\<forall>n. bit c n \<longrightarrow> n < 2)"
    by (auto dest: bit_64_bound)
  finally show ?thesis .
qed

lemma aligned_0 [align_simps]: "aligned 0"
  by (simp add: aligned_def)

lemma two_bits_consts [simp]:
  "two_bits 0" "two_bits 1" "two_bits 2" "two_bits 3"
  by (simp_all add: two_bits_def)

text \<open>
  The four laws of the packed representation: writing one half of a link leaves the
  other half as it was. They need the stored pointer to be 16 byte aligned and the stored
  colour or class to fit in two bits, which the callers guarantee.
\<close>

lemma GET_SET_LINK_POINTER [hdr_simps]:
  "aligned v \<Longrightarrow> GET_LINK_POINTER (SET_LINK_POINTER l v) = v"
  by (rule bit_word_eqI) (auto simp: link_defs aligned_iff_bits bit_simps)

lemma GET_INFO_SET_POINTER [hdr_simps]:
  "aligned v \<Longrightarrow> GET_LINK_INFO (SET_LINK_POINTER l v) 0x3 = GET_LINK_INFO l 0x3"
  by (rule bit_word_eqI) (auto simp: link_defs aligned_iff_bits bit_simps)

lemma GET_POINTER_SET_INFO [hdr_simps]:
  "two_bits c \<Longrightarrow> GET_LINK_POINTER (SET_LINK_INFO l 0x3 c) = GET_LINK_POINTER l"
  by (rule bit_word_eqI) (auto simp: link_defs two_bits_iff_bits bit_simps)

lemma GET_SET_LINK_INFO [hdr_simps]:
  "two_bits c \<Longrightarrow> GET_LINK_INFO (SET_LINK_INFO l 0x3 c) 0x3 = c"
  by (rule bit_word_eqI) (auto simp: link_defs two_bits_iff_bits bit_simps)

lemma GET_LINK_POINTER_aligned_id [hdr_simps]: "aligned v \<Longrightarrow> GET_LINK_POINTER v = v"
  by (rule bit_word_eqI) (auto simp: link_defs aligned_iff_bits bit_simps)

lemma aligned_GET_LINK_POINTER [align_simps]: "aligned (GET_LINK_POINTER l)"
  by (auto simp: link_defs aligned_iff_bits bit_simps)

lemma two_bits_GET_LINK_INFO [align_simps]: "two_bits (GET_LINK_INFO l 0x3)"
  by (auto simp: link_defs two_bits_iff_bits bit_simps)

text \<open>Alignment in arithmetic: two aligned headers overlap only where they are the same header.\<close>

lemma aligned_iff_uint: "aligned p \<longleftrightarrow> uint p mod 16 = 0"
proof -
  have "aligned p \<longleftrightarrow> take_bit 4 p = 0"
    by (simp add: aligned_def LINK_INFO_MASK_eq take_bit_eq_mask)
  also have "\<dots> \<longleftrightarrow> uint (take_bit 4 p) = 0"
    by (simp add: uint_0_iff)
  also have "uint (take_bit 4 p) = uint p mod 16"
    by (simp only: unsigned_take_bit_eq) (simp add: take_bit_eq_mod)
  finally show ?thesis .
qed

lemma uint_plus_8_mod: "uint (p + 8 :: addr) mod 16 = (uint p + 8) mod 16"
proof -
  have "uint (p + 8 :: addr) mod 16 = ((uint p + 8) mod 2 ^ 64) mod 2 ^ 4"
    by (simp add: uint_word_ariths)
  also have "\<dots> = (uint p + 8) mod 2 ^ 4"
    by (subst mod_mod_cancel) simp_all
  finally show ?thesis by simp
qed

lemma aligned_neq_plus_8 [align_simps]:
  assumes "aligned p" and "aligned q"
  shows "p \<noteq> q + 8" and "q + 8 \<noteq> p"
proof -
  have "uint (q + 8) mod 16 = 8"
    using assms(2) unfolding aligned_iff_uint uint_plus_8_mod by presburger
  then have "uint p \<noteq> uint (q + 8)"
    using assms(1) unfolding aligned_iff_uint by (metis zero_neq_numeral)
  then show "p \<noteq> q + 8" and "q + 8 \<noteq> p" by auto
qed

lemma aligned_add [align_simps]:
  assumes "aligned p" and "aligned q"
  shows "aligned (p + q)"
proof -
  have "uint (p + q) mod 16 = ((uint p + uint q) mod 2 ^ 64) mod 2 ^ 4"
    by (simp add: uint_word_ariths)
  also have "\<dots> = (uint p + uint q) mod 2 ^ 4"
    by (subst mod_mod_cancel) simp_all
  also have "\<dots> = (uint p mod 16 + uint q mod 16) mod 16"
    by (simp add: mod_add_eq)
  finally show ?thesis using assms by (simp add: aligned_iff_uint)
qed

subsection \<open>Header fields in memory\<close>

definition get_prev :: "mem \<Rightarrow> addr \<Rightarrow> addr" where
  "get_prev m p = GET_LINK_POINTER (m p)"

definition get_next :: "mem \<Rightarrow> addr \<Rightarrow> addr" where
  "get_next m p = GET_LINK_POINTER (m (p + 8))"

definition set_prev :: "mem \<Rightarrow> addr \<Rightarrow> addr \<Rightarrow> mem" where
  "set_prev m p v = m(p := SET_LINK_POINTER (m p) v)"

definition set_next :: "mem \<Rightarrow> addr \<Rightarrow> addr \<Rightarrow> mem" where
  "set_next m p v = m(p + 8 := SET_LINK_POINTER (m (p + 8)) v)"

definition GET_COLOR :: "mem \<Rightarrow> addr \<Rightarrow> 64 word" where
  "GET_COLOR m p = GET_LINK_INFO (m p) GC_COLOR_INFO_MASK"

definition SET_COLOR :: "mem \<Rightarrow> addr \<Rightarrow> 64 word \<Rightarrow> mem" where
  "SET_COLOR m p color = m(p := SET_LINK_INFO (m p) GC_COLOR_INFO_MASK color)"

definition GET_STORAGE_CLASS :: "mem \<Rightarrow> addr \<Rightarrow> 64 word" where
  "GET_STORAGE_CLASS m p = GET_LINK_INFO (m (p + 8)) GC_STORAGE_INFO_MASK"

definition SET_STORAGE_CLASS :: "mem \<Rightarrow> addr \<Rightarrow> 64 word \<Rightarrow> mem" where
  "SET_STORAGE_CLASS m p c = m(p + 8 := SET_LINK_INFO (m (p + 8)) GC_STORAGE_INFO_MASK c)"

definition WHITEP :: "64 word \<Rightarrow> mem \<Rightarrow> addr \<Rightarrow> bool" where
  "WHITEP unmarked m p \<longleftrightarrow> GET_COLOR m p = unmarked"

definition BLACKP :: "64 word \<Rightarrow> mem \<Rightarrow> addr \<Rightarrow> bool" where
  "BLACKP marked m p \<longleftrightarrow> GET_COLOR m p = marked"

definition GRAYP :: "mem \<Rightarrow> addr \<Rightarrow> bool" where
  "GRAYP m p \<longleftrightarrow> GET_COLOR m p = GRAY"

definition GREENP :: "mem \<Rightarrow> addr \<Rightarrow> bool" where
  "GREENP m p \<longleftrightarrow> GET_COLOR m p = GREEN"

lemmas hdr_defs =
  get_prev_def get_next_def set_prev_def set_next_def GET_COLOR_def SET_COLOR_def
  GET_STORAGE_CLASS_def SET_STORAGE_CLASS_def GC_COLOR_INFO_MASK_def GC_STORAGE_INFO_MASK_def

lemma aligned_get_prev [align_simps]: "aligned (get_prev m p)"
  and aligned_get_next [align_simps]: "aligned (get_next m p)"
  by (simp_all add: hdr_defs align_simps)

lemma two_bits_GET_COLOR [align_simps]: "two_bits (GET_COLOR m p)"
  by (simp add: hdr_defs align_simps)

text \<open>Each reader after each writer: sixteen rules, used as one simp set.\<close>

lemma after_set_prev [hdr_simps]:
  assumes "aligned p" and "aligned q" and "aligned v"
  shows "get_prev (set_prev m p v) q = (if q = p then v else get_prev m q)"
    and "get_next (set_prev m p v) q = get_next m q"
    and "GET_COLOR (set_prev m p v) q = GET_COLOR m q"
    and "GET_STORAGE_CLASS (set_prev m p v) q = GET_STORAGE_CLASS m q"
  using assms by (simp_all add: hdr_defs hdr_simps align_simps)

lemma after_set_next [hdr_simps]:
  assumes "aligned p" and "aligned q" and "aligned v"
  shows "get_prev (set_next m p v) q = get_prev m q"
    and "get_next (set_next m p v) q = (if q = p then v else get_next m q)"
    and "GET_COLOR (set_next m p v) q = GET_COLOR m q"
    and "GET_STORAGE_CLASS (set_next m p v) q = GET_STORAGE_CLASS m q"
  using assms by (simp_all add: hdr_defs hdr_simps align_simps)

lemma after_SET_COLOR [hdr_simps]:
  assumes "aligned p" and "aligned q" and "two_bits c"
  shows "get_prev (SET_COLOR m p c) q = get_prev m q"
    and "get_next (SET_COLOR m p c) q = get_next m q"
    and "GET_COLOR (SET_COLOR m p c) q = (if q = p then c else GET_COLOR m q)"
    and "GET_STORAGE_CLASS (SET_COLOR m p c) q = GET_STORAGE_CLASS m q"
  using assms by (simp_all add: hdr_defs hdr_simps align_simps)

lemma after_SET_STORAGE_CLASS [hdr_simps]:
  assumes "aligned p" and "aligned q" and "two_bits c"
  shows "get_prev (SET_STORAGE_CLASS m p c) q = get_prev m q"
    and "get_next (SET_STORAGE_CLASS m p c) q = get_next m q"
    and "GET_COLOR (SET_STORAGE_CLASS m p c) q = GET_COLOR m q"
    and "GET_STORAGE_CLASS (SET_STORAGE_CLASS m p c) q = (if q = p then c else GET_STORAGE_CLASS m q)"
  using assms by (simp_all add: hdr_defs hdr_simps align_simps)

text \<open>Each writer changes one long, in the header it is given.\<close>

lemma header_write_frame [hdr_simps]:
  assumes "a \<noteq> p" and "a \<noteq> p + 8"
  shows "set_prev m p v a = m a" and "set_next m p v a = m a"
    and "SET_COLOR m p c a = m a" and "SET_STORAGE_CLASS m p c a = m a"
  using assms by (simp_all add: hdr_defs)

end
