(* ===== verification/Layout.thy ===== *)
theory Layout
  imports Info_Bits
begin

text \<open>
  The configuration constants (mem-config.h), the structures (mem-internals.h) and the
  globals (rtglobals.c) of the collector, with the page macros. A page's group is the C
  pointer \<open>GPTR\<close>, whose values 0 to 3 are the markers EMPTY, FREE, SYSTEM and EXTERNAL:
  here a datatype, linearly ordered so that \<open>EXTERNAL_PAGE < g\<close> reads as in the source.
\<close>

subsection \<open>Constants\<close>

definition PAGE_POWER :: nat where "PAGE_POWER = 12"
definition BYTES_PER_PAGE :: int where "BYTES_PER_PAGE = 2 ^ PAGE_POWER"
definition MIN_GROUP_INDEX :: nat where "MIN_GROUP_INDEX = 5"
definition MAX_GROUP_INDEX :: nat where "MAX_GROUP_INDEX = 24"
definition MIN_GROUP_SIZE :: int where "MIN_GROUP_SIZE = 2 ^ MIN_GROUP_INDEX"
definition MAX_GROUP_SIZE :: int where "MAX_GROUP_SIZE = 2 ^ MAX_GROUP_INDEX"
definition BITS_PER_LONG :: int where "BITS_PER_LONG = 8 * 8"
definition GC_POINTER_ALIGNMENT :: addr where "GC_POINTER_ALIGNMENT = 8"
definition SIZEOF_GC_HEADER :: int where "SIZEOF_GC_HEADER = 16"
definition INTERIOR_PTR_RETENTION_LIMIT :: int where "INTERIOR_PTR_RETENTION_LIMIT = 512"
definition MAX_THREADS :: nat where "MAX_THREADS = 20"
definition MAX_GLOBAL_ROOTS :: nat where "MAX_GLOBAL_ROOTS = 1000"

lemmas config_defs =
  PAGE_POWER_def BYTES_PER_PAGE_def MIN_GROUP_INDEX_def MAX_GROUP_INDEX_def MIN_GROUP_SIZE_def
  MAX_GROUP_SIZE_def BITS_PER_LONG_def GC_POINTER_ALIGNMENT_def SIZEOF_GC_HEADER_def
  INTERIOR_PTR_RETENTION_LIMIT_def

text \<open>A value assigned to a C \<open>int\<close> or \<open>long\<close>.\<close>

definition c_int :: "int \<Rightarrow> int" where "c_int n = signed_take_bit 31 n"
definition c_long :: "int \<Rightarrow> int" where "c_long n = signed_take_bit 63 n"

lemma c_int_id: "- (2 ^ 31) \<le> n \<Longrightarrow> n < 2 ^ 31 \<Longrightarrow> c_int n = n"
  unfolding c_int_def by (rule signed_take_bit_int_eq_self) simp_all

lemma c_long_id: "- (2 ^ 63) \<le> n \<Longrightarrow> n < 2 ^ 63 \<Longrightarrow> c_long n = n"
  unfolding c_long_def by (rule signed_take_bit_int_eq_self) simp_all

subsection \<open>Group pointers\<close>

datatype gptr = EMPTY_PAGE | FREE_PAGE | SYSTEM_PAGE | EXTERNAL_PAGE | Group nat

fun gptr_rank :: "gptr \<Rightarrow> nat" where
  "gptr_rank EMPTY_PAGE = 0"
| "gptr_rank FREE_PAGE = 1"
| "gptr_rank SYSTEM_PAGE = 2"
| "gptr_rank EXTERNAL_PAGE = 3"
| "gptr_rank (Group i) = 4 + i"

lemma gptr_rank_inject [simp]: "gptr_rank g = gptr_rank h \<longleftrightarrow> g = h"
  by (cases g; cases h) auto

instantiation gptr :: linorder
begin

definition less_eq_gptr :: "gptr \<Rightarrow> gptr \<Rightarrow> bool" where
  "less_eq_gptr g h \<longleftrightarrow> gptr_rank g \<le> gptr_rank h"

definition less_gptr :: "gptr \<Rightarrow> gptr \<Rightarrow> bool" where
  "less_gptr g h \<longleftrightarrow> gptr_rank g < gptr_rank h"

instance
  by standard (auto simp: less_eq_gptr_def less_gptr_def)

end

lemma external_less_iff: "EXTERNAL_PAGE < g \<longleftrightarrow> (\<exists>i. g = Group i)"
  by (cases g) (auto simp: less_gptr_def)

lemma external_less_simps [simp]:
  "EXTERNAL_PAGE < Group i"
  "\<not> EXTERNAL_PAGE < EMPTY_PAGE"
  "\<not> EXTERNAL_PAGE < FREE_PAGE"
  "\<not> EXTERNAL_PAGE < SYSTEM_PAGE"
  "\<not> EXTERNAL_PAGE < EXTERNAL_PAGE"
  by (simp_all add: less_gptr_def)

subsection \<open>Structures\<close>

text \<open>GROUP_INFO. Its two mutexes guard the fields; each critical section is one step here.\<close>

record group_info =
  gsize :: int
  gindex :: nat
  glast :: addr
  gfree :: addr
  ggray :: addr
  gblack :: addr
  gwhite :: addr
  white_count :: int
  black_scanned_count :: int
  black_alloc_count :: int

record page_info =
  pbase :: addr
  pgroup :: gptr

datatype segment_type = HEAP_SEGMENT | STATIC_SEGMENT

record segment =
  first_segment_ptr :: addr
  last_segment_ptr :: addr
  segment_page_count :: int
  seg_type :: segment_type

record thread_state =
  registers :: addr
  saved_stack_base :: addr
  saved_stack_size :: int

record rt_state =
  memory :: mem
  first_partition_ptr :: addr
  last_partition_ptr :: addr
  total_partition_pages :: int
  pages :: "int \<Rightarrow> page_info"
  groups :: "nat \<Rightarrow> group_info"
  empty_pages :: addr
  segments :: "segment list"
  marked_color :: "64 word"
  unmarked_color :: "64 word"
  enable_write_barrier :: bool
  gc_count :: int
  RTwrite_vector :: "int \<Rightarrow> 64 word"
  RTwrite_vector_length :: int
  first_static_ptr :: addr
  last_static_ptr :: addr
  static_frontier_ptr :: addr
  global_roots :: "addr list"
  saved_threads :: "thread_state list"
  total_saved_threads :: nat
  saved_no_write_barrier_state :: addr
  RTno_write_barrier_state_ptr :: addr
  RTatomic_gc :: bool
  run_gc :: bool

subsection \<open>Page macros\<close>

definition IN_PARTITION :: "rt_state \<Rightarrow> addr \<Rightarrow> bool" where
  "IN_PARTITION s ptr \<longleftrightarrow> first_partition_ptr s \<le> ptr \<and> ptr < last_partition_ptr s"

definition PTR_TO_PAGE_INDEX :: "rt_state \<Rightarrow> addr \<Rightarrow> int" where
  "PTR_TO_PAGE_INDEX s ptr = sint (signed_drop_bit PAGE_POWER (ptr - first_partition_ptr s))"

text \<open>
  Every use of PAGE_INDEX_TO_PTR passes an \<open>int\<close>, so the shift is done in 32 bits: the byte
  offset is the signed 32 bit value of the product.
\<close>

definition PAGE_INDEX_TO_PTR :: "rt_state \<Rightarrow> int \<Rightarrow> addr" where
  "PAGE_INDEX_TO_PTR s page_index =
     first_partition_ptr s + word_of_int (signed_take_bit 31 (page_index * BYTES_PER_PAGE))"

definition PTR_TO_GROUP :: "rt_state \<Rightarrow> addr \<Rightarrow> gptr" where
  "PTR_TO_GROUP s ptr = pgroup (pages s (PTR_TO_PAGE_INDEX s ptr))"

definition PAGE_GROUP :: "rt_state \<Rightarrow> addr \<Rightarrow> gptr" where
  "PAGE_GROUP s ptr = (if IN_PARTITION s ptr then PTR_TO_GROUP s ptr else EXTERNAL_PAGE)"

definition IN_HEAP :: "rt_state \<Rightarrow> addr \<Rightarrow> bool" where
  "IN_HEAP s ptr \<longleftrightarrow> EXTERNAL_PAGE < PAGE_GROUP s ptr"

text \<open>
  What the page macros rely on: the partition starts on a page, as memory from mmap does,
  ends below the top of the user address space, and holds fewer than \<open>2 ^ 19\<close> pages, so
  that byte offsets fit the 32 bit arithmetic of PAGE_INDEX_TO_PTR.
\<close>

definition layout_ok :: "rt_state \<Rightarrow> bool" where
  "layout_ok s \<longleftrightarrow>
     uint (first_partition_ptr s) mod BYTES_PER_PAGE = 0 \<and>
     0 < uint (first_partition_ptr s) \<and>
     0 \<le> total_partition_pages s \<and> total_partition_pages s < 2 ^ 19 \<and>
     uint (first_partition_ptr s) + total_partition_pages s * BYTES_PER_PAGE \<le> 2 ^ 47 \<and>
     uint (last_partition_ptr s) =
       uint (first_partition_ptr s) + total_partition_pages s * BYTES_PER_PAGE"

lemma uint_add_64: "uint (x + y :: addr) = (uint x + uint y) mod 2 ^ 64"
  by (simp add: uint_word_ariths)

lemma sint_eq_uint_small:
  assumes "uint (w :: addr) < 2 ^ 63"
  shows "sint w = uint w"
proof -
  have "- (2 ^ 63) \<le> (0 :: int)" by simp
  also have "0 \<le> uint w" by simp
  finally have "signed_take_bit 63 (uint w) = uint w"
    using assms by (rule signed_take_bit_int_eq_self)
  then show ?thesis by (simp add: sint_uint)
qed

lemma IN_PARTITION_uint:
  "IN_PARTITION s p \<longleftrightarrow>
     uint (first_partition_ptr s) \<le> uint p \<and> uint p < uint (last_partition_ptr s)"
  by (simp add: IN_PARTITION_def word_le_def word_less_def)

lemma PTR_TO_PAGE_INDEX_uint:
  assumes "layout_ok s" and "IN_PARTITION s p"
  shows "PTR_TO_PAGE_INDEX s p = (uint p - uint (first_partition_ptr s)) div BYTES_PER_PAGE"
proof -
  let ?f = "first_partition_ptr s"
  have le: "?f \<le> p" using assms(2) by (simp add: IN_PARTITION_def)
  then have u: "uint (p - ?f) = uint p - uint ?f"
    by (simp add: uint_sub_lem [THEN iffD1] word_le_def)
  have "uint (p - ?f) < 2 ^ 63"
    using assms unfolding u IN_PARTITION_uint layout_ok_def by simp
  then have "sint (p - ?f) = uint (p - ?f)"
    by (rule sint_eq_uint_small)
  then show ?thesis
    by (simp add: PTR_TO_PAGE_INDEX_def sint_signed_drop_bit_eq u config_defs drop_bit_eq_div)
qed

lemma PTR_TO_PAGE_INDEX_bounds:
  assumes "layout_ok s" and "IN_PARTITION s p"
  shows "0 \<le> PTR_TO_PAGE_INDEX s p" and "PTR_TO_PAGE_INDEX s p < total_partition_pages s"
proof -
  have "0 \<le> uint p - uint (first_partition_ptr s)"
    and "uint p - uint (first_partition_ptr s) < total_partition_pages s * BYTES_PER_PAGE"
    using assms unfolding IN_PARTITION_uint layout_ok_def by linarith+
  then show "0 \<le> PTR_TO_PAGE_INDEX s p" and "PTR_TO_PAGE_INDEX s p < total_partition_pages s"
    unfolding PTR_TO_PAGE_INDEX_uint [OF assms] by (simp_all add: config_defs)
qed

lemma uint_PAGE_INDEX_TO_PTR:
  assumes "layout_ok s" and "0 \<le> i" and "i \<le> total_partition_pages s"
  shows "uint (PAGE_INDEX_TO_PTR s i) = uint (first_partition_ptr s) + i * BYTES_PER_PAGE"
proof -
  have b: "0 \<le> i * BYTES_PER_PAGE" "i * BYTES_PER_PAGE < 2 ^ 31"
      "uint (first_partition_ptr s) + i * BYTES_PER_PAGE \<le> 2 ^ 47"
    using assms by (simp_all add: layout_ok_def config_defs)
  then have t: "signed_take_bit 31 (i * BYTES_PER_PAGE) = i * BYTES_PER_PAGE"
    by (intro signed_take_bit_int_eq_self) linarith+
  have u: "uint (word_of_int (i * BYTES_PER_PAGE) :: addr) = i * BYTES_PER_PAGE"
    using b by (subst uint_word_of_int) simp
  show ?thesis
    unfolding PAGE_INDEX_TO_PTR_def t uint_add_64 u using b by simp
qed

lemma PAGE_INDEX_TO_PTR_IN_PARTITION:
  assumes "layout_ok s" and "0 \<le> i" and "i < total_partition_pages s"
  shows "IN_PARTITION s (PAGE_INDEX_TO_PTR s i)"
  using assms uint_PAGE_INDEX_TO_PTR [of s i]
  unfolding IN_PARTITION_uint layout_ok_def by (simp add: config_defs)

lemma page_index_roundtrip:
  assumes "layout_ok s" and "0 \<le> i" and "i < total_partition_pages s"
  shows "PTR_TO_PAGE_INDEX s (PAGE_INDEX_TO_PTR s i) = i"
  using assms uint_PAGE_INDEX_TO_PTR [of s i]
  by (simp add: PTR_TO_PAGE_INDEX_uint PAGE_INDEX_TO_PTR_IN_PARTITION config_defs)

lemma page_multiple_aligned:
  assumes "uint p mod BYTES_PER_PAGE = 0"
  shows "aligned p"
proof -
  have "16 dvd uint p"
    using assms by (auto simp: config_defs mod_eq_0_iff_dvd intro: dvd_trans [rotated])
  then show ?thesis by (simp add: aligned_iff_uint)
qed

lemma uint_PAGE_INDEX_TO_PTR_mod:
  assumes "layout_ok s" and "0 \<le> i" and "i \<le> total_partition_pages s"
  shows "uint (PAGE_INDEX_TO_PTR s i) mod BYTES_PER_PAGE = 0"
  unfolding uint_PAGE_INDEX_TO_PTR [OF assms] using assms(1) by (simp add: layout_ok_def)

lemma aligned_PAGE_INDEX_TO_PTR:
  assumes "layout_ok s" and "0 \<le> i" and "i \<le> total_partition_pages s"
  shows "aligned (PAGE_INDEX_TO_PTR s i)"
  by (rule page_multiple_aligned) (rule uint_PAGE_INDEX_TO_PTR_mod [OF assms])

end
