(* ===== verification/Link_List.thy ===== *)
theory Link_List
  imports Info_Bits
begin

text \<open>
  Doubly linked lists of object headers in memory. \<open>dseg m a xs b\<close> says that the headers
  \<open>xs\<close> are linked in this order by \<open>prev\<close> and \<open>next\<close>, that the first has \<open>prev = a\<close> and
  the last \<open>next = b\<close>; \<open>dlist\<close> is a whole list, ended by null on both sides. The object
  colours play no role here. The lemmas say what relinking a list, walking it and cutting
  an element out do to it; the collector's and the allocator's list surgery is proved over
  them.
\<close>

primrec dseg :: "mem \<Rightarrow> addr \<Rightarrow> addr list \<Rightarrow> addr \<Rightarrow> bool" where
  "dseg m a [] b \<longleftrightarrow> True"
| "dseg m a (x # xs) b \<longleftrightarrow> get_prev m x = a \<and> get_next m x = hd_or xs b \<and> dseg m x xs b"

definition headers_ok :: "addr set \<Rightarrow> bool" where
  "headers_ok S \<longleftrightarrow> (\<forall>x\<in>S. x \<noteq> 0 \<and> aligned x)"

definition dlist :: "mem \<Rightarrow> addr list \<Rightarrow> bool" where
  "dlist m xs \<longleftrightarrow> dseg m 0 xs 0"

lemma headers_ok_simps [simp]:
  "headers_ok {}"
  "headers_ok (insert x S) \<longleftrightarrow> x \<noteq> 0 \<and> aligned x \<and> headers_ok S"
  "headers_ok (S \<union> T) \<longleftrightarrow> headers_ok S \<and> headers_ok T"
  by (auto simp: headers_ok_def)

lemma headers_okD: "headers_ok S \<Longrightarrow> x \<in> S \<Longrightarrow> x \<noteq> 0" "headers_ok S \<Longrightarrow> x \<in> S \<Longrightarrow> aligned x"
  by (auto simp: headers_ok_def)

lemma headers_ok_not_0: "headers_ok S \<Longrightarrow> 0 \<notin> S"
  by (auto simp: headers_ok_def)

lemma headers_ok_mono: "headers_ok S \<Longrightarrow> T \<subseteq> S \<Longrightarrow> headers_ok T"
  by (auto simp: headers_ok_def)

lemma headers_ok_hd_or: "headers_ok (set xs) \<Longrightarrow> aligned d \<Longrightarrow> aligned (hd_or xs d)"
  by (cases xs) auto

lemma headers_ok_last_or: "headers_ok (set xs) \<Longrightarrow> aligned d \<Longrightarrow> aligned (last_or d xs)"
  using last_or_cases [of xs d] by (auto simp: headers_ok_def)

lemma headers_ok_hd:
  "headers_ok (set xs) \<Longrightarrow> xs \<noteq> [] \<Longrightarrow> hd xs \<in> set xs \<and> hd xs \<noteq> 0 \<and> aligned (hd xs)"
  by (cases xs) auto

lemma headers_ok_last:
  "headers_ok (set xs) \<Longrightarrow> xs \<noteq> [] \<Longrightarrow> last xs \<in> set xs \<and> last xs \<noteq> 0 \<and> aligned (last xs)"
  by (cases xs rule: rev_cases) auto

subsection \<open>Segments\<close>

lemma dseg_append [simp]:
  "dseg m a (xs @ ys) b \<longleftrightarrow> dseg m a xs (hd_or ys b) \<and> dseg m (last_or a xs) ys b"
  by (induction xs arbitrary: a) auto

lemma dseg_cong:
  assumes "\<And>x. x \<in> set xs \<Longrightarrow> get_prev m' x = get_prev m x"
    and "\<And>x. x \<in> set xs \<Longrightarrow> get_next m' x = get_next m x"
  shows "dseg m' a xs b = dseg m a xs b"
  using assms by (induction xs arbitrary: a) auto

lemma dseg_get_next:
  "dseg m a (xs @ x # ys) b \<Longrightarrow> get_next m x = hd_or ys b"
  by simp

lemma dseg_get_prev:
  "dseg m a (xs @ x # ys) b \<Longrightarrow> get_prev m x = last_or a xs"
  by simp

lemma dseg_SET_COLOR [hdr_simps]:
  assumes "headers_ok (set xs)" and "aligned p" and "two_bits c"
  shows "dseg (SET_COLOR m p c) a xs b = dseg m a xs b"
  using assms by (intro dseg_cong) (auto simp: hdr_simps dest: headers_okD)

lemma dseg_SET_STORAGE_CLASS [hdr_simps]:
  assumes "headers_ok (set xs)" and "aligned p" and "two_bits c"
  shows "dseg (SET_STORAGE_CLASS m p c) a xs b = dseg m a xs b"
  using assms by (intro dseg_cong) (auto simp: hdr_simps dest: headers_okD)

lemma dseg_set_prev_other [hdr_simps]:
  assumes "headers_ok (set xs)" and "aligned p" and "aligned v" and "p \<notin> set xs"
  shows "dseg (set_prev m p v) a xs b = dseg m a xs b"
  using assms by (intro dseg_cong) (auto simp: hdr_simps dest: headers_okD)

lemma dseg_set_next_other [hdr_simps]:
  assumes "headers_ok (set xs)" and "aligned p" and "aligned v" and "p \<notin> set xs"
  shows "dseg (set_next m p v) a xs b = dseg m a xs b"
  using assms by (intro dseg_cong) (auto simp: hdr_simps dest: headers_okD)

text \<open>Changing what a segment is attached to at either end.\<close>

lemma dseg_set_prev_first:
  assumes "dseg m a (x # xs) b" and "headers_ok (set (x # xs))" and "x \<notin> set xs" and "aligned a'"
  shows "dseg (set_prev m x a') a' (x # xs) b"
  using assms by (simp add: hdr_simps)

lemma dseg_set_next_last:
  assumes "dseg m a (xs @ [x]) b" and "headers_ok (set (xs @ [x]))" and "x \<notin> set xs" and "aligned b'"
  shows "dseg (set_next m x b') a (xs @ [x]) b'"
  using assms by (simp add: hdr_simps)

lemma dseg_reattach_first:
  assumes "dseg m a xs b" and "headers_ok (set xs)" and "distinct xs" and "aligned a'"
  shows "dseg (if xs \<noteq> [] then set_prev m (hd xs) a' else m) a' xs b"
  using assms by (cases xs) (simp_all add: hdr_simps)

lemma dseg_reattach_last:
  assumes "dseg m a xs b" and "headers_ok (set xs)" and "distinct xs" and "aligned b'"
  shows "dseg (if xs \<noteq> [] then set_next m (last xs) b' else m) a xs b'"
proof (cases xs rule: rev_cases)
  case Nil
  then show ?thesis by simp
next
  case (snoc ys y)
  with assms dseg_set_next_last [of m a ys y b b'] show ?thesis by simp
qed

subsection \<open>Cutting an element out\<close>

text \<open>
  The surgery that RTmake_object_gray and remove_object_from_free_list share: the two
  neighbours of an object, where there are any, are linked to each other.
\<close>

definition unlink :: "mem \<Rightarrow> addr \<Rightarrow> addr \<Rightarrow> mem" where
  "unlink m prev nxt =
     (let m1 = (if prev \<noteq> 0 then set_next m prev nxt else m)
      in if nxt \<noteq> 0 then set_prev m1 nxt prev else m1)"

lemma after_unlink [hdr_simps]:
  assumes "aligned prev" and "aligned nxt" and "aligned q"
  shows "GET_COLOR (unlink m prev nxt) q = GET_COLOR m q"
    and "GET_STORAGE_CLASS (unlink m prev nxt) q = GET_STORAGE_CLASS m q"
    and "q \<noteq> nxt \<Longrightarrow> get_prev (unlink m prev nxt) q = get_prev m q"
    and "q \<noteq> prev \<Longrightarrow> get_next (unlink m prev nxt) q = get_next m q"
  using assms by (simp_all add: unlink_def hdr_simps align_simps Let_def)

lemma dlist_unlink:
  assumes l: "dlist m (xs @ x # ys)" and d: "distinct (xs @ x # ys)"
    and ok: "headers_ok (set (xs @ x # ys))"
  shows "dlist (unlink m (get_prev m x) (get_next m x)) (xs @ ys)"
proof -
  have p: "get_prev m x = last_or 0 xs" and n: "get_next m x = hd_or ys 0"
    using l by (simp_all add: dlist_def)
  have xs: "dseg m 0 xs x" and ys: "dseg m x ys 0"
    using l by (simp_all add: dlist_def)
  have al: "aligned (last_or 0 xs)" "aligned (hd_or ys 0)"
    using ok by (simp_all add: headers_ok_last_or headers_ok_hd_or align_simps)
  have z: "0 \<notin> set xs" "0 \<notin> set ys" using ok headers_ok_not_0 by auto
  have lz: "xs \<noteq> [] \<Longrightarrow> last xs \<noteq> 0" using z(1) last_in_set [of xs] by metis
  define m1 where "m1 = (if xs \<noteq> [] then set_next m (last xs) (hd_or ys 0) else m)"
  define m2 where "m2 = (if ys \<noteq> [] then set_prev m1 (hd ys) (last_or 0 xs) else m1)"
  have u: "unlink m (get_prev m x) (get_next m x) = m2"
    unfolding p n unlink_def m2_def m1_def using z lz
    by (cases ys) (auto simp: last_or_def Let_def)
  have "dseg m1 0 xs (hd_or ys 0)"
    unfolding m1_def using xs ok d al by (intro dseg_reattach_last) auto
  then have a: "dseg m2 0 xs (hd_or ys 0)"
    unfolding m2_def using ok d al by (cases ys) (auto simp: hdr_simps)
  have "xs \<noteq> [] \<Longrightarrow> aligned (last xs) \<and> last xs \<notin> set ys"
    using ok d headers_ok_last [of xs] last_not_in [of xs ys] by simp
  then have "dseg m1 x ys 0"
    unfolding m1_def using ys ok al by (simp add: hdr_simps)
  then have b: "dseg m2 (last_or 0 xs) ys 0"
    unfolding m2_def using ok d al by (intro dseg_reattach_first) auto
  show ?thesis unfolding u dlist_def using a b by simp
qed

subsection \<open>Memory outside a set of headers\<close>

definition header_cells :: "addr set \<Rightarrow> addr set" where
  "header_cells S = S \<union> (\<lambda>x. x + 8) ` S"

definition only_headers :: "addr set \<Rightarrow> mem \<Rightarrow> mem \<Rightarrow> bool" where
  "only_headers S m m' \<longleftrightarrow> (\<forall>a. a \<notin> header_cells S \<longrightarrow> m' a = m a)"

lemma only_headers_refl [simp, frame_intros]: "only_headers S m m"
  by (simp add: only_headers_def)

lemma only_headers_trans:
  "only_headers S m m' \<Longrightarrow> only_headers S m' m'' \<Longrightarrow> only_headers S m m''"
  by (simp add: only_headers_def)

lemma only_headers_mono:
  "only_headers S m m' \<Longrightarrow> S \<subseteq> T \<Longrightarrow> only_headers T m m'"
  by (auto simp: only_headers_def header_cells_def)

lemma only_headers_writes [frame_intros]:
  assumes "only_headers S m m'" and "p \<in> S"
  shows "only_headers S m (set_prev m' p v)" and "only_headers S m (set_next m' p v)"
    and "only_headers S m (SET_COLOR m' p c)" and "only_headers S m (SET_STORAGE_CLASS m' p c)"
  using assms by (auto simp: only_headers_def header_cells_def hdr_defs)

lemma only_headers_unlink [frame_intros]:
  assumes "only_headers S m m'" and "prev = 0 \<or> prev \<in> S" and "nxt = 0 \<or> nxt \<in> S"
  shows "only_headers S m (unlink m' prev nxt)"
  using assms by (auto simp: unlink_def Let_def intro!: frame_intros)

lemma only_headers_other:
  assumes "only_headers S m m'" and "headers_ok S" and "aligned q" and "q \<notin> S"
  shows "m' q = m q" and "m' (q + 8) = m (q + 8)"
proof -
  have "\<And>x. x \<in> S \<Longrightarrow> q \<noteq> x + 8 \<and> q + 8 \<noteq> x"
    using assms(2,3) aligned_neq_plus_8 by (auto dest!: headers_okD(2))
  then have "q \<notin> header_cells S" and "q + 8 \<notin> header_cells S"
    using assms(4) by (auto simp: header_cells_def)
  then show "m' q = m q" and "m' (q + 8) = m (q + 8)"
    using assms(1) by (simp_all add: only_headers_def)
qed

lemma only_headers_hdr:
  assumes "only_headers S m m'" and "headers_ok S" and "aligned q" and "q \<notin> S"
  shows "get_prev m' q = get_prev m q" and "get_next m' q = get_next m q"
    and "GET_COLOR m' q = GET_COLOR m q" and "GET_STORAGE_CLASS m' q = GET_STORAGE_CLASS m q"
  using only_headers_other [OF assms] by (simp_all add: hdr_defs)

lemma only_headers_dseg:
  assumes "only_headers S m m'" and "headers_ok S" and "headers_ok (set xs)" and "set xs \<inter> S = {}"
  shows "dseg m' a xs b = dseg m a xs b"
proof (rule dseg_cong)
  fix x assume "x \<in> set xs"
  then have "aligned x" and "x \<notin> S" using assms(3,4) by (auto dest: headers_okD)
  then show "get_prev m' x = get_prev m x" and "get_next m' x = get_next m x"
    by (simp_all add: only_headers_hdr [OF assms(1,2)])
qed

end
