(* ===== verification/Group_Lists.thy ===== *)
theory Group_Lists
  imports Layout Link_List
begin

text \<open>
  The object lists of one size class. GROUP_INFO threads all objects of a group on two
  doubly linked lists: the white list, and the active list, on which gray, black and free
  (green) objects follow each other, with pointers to the first gray, to the black end the
  scan has reached, to the first free and to the last object. The first part translates
  the operations on one group: RTmake_object_gray, the end of scan_object_with_group, the
  loop body of flip, recycle_group_garbage (rtgc.c), remove_object_from_free_list
  (rtcoalesce.c), and the list parts of RTallocate and init_pages_for_group (rtalloc.c).
  The second part states what a group means, four lists, and shows that every operation
  acts on them as its name says.
\<close>

subsection \<open>Operations on one group\<close>

text \<open>RTmake_object_gray, for the group of \<open>current\<close>; WHITEP compares with unmarked_color.\<close>

definition make_object_gray ::
    "64 word \<Rightarrow> mem \<Rightarrow> group_info \<Rightarrow> addr \<Rightarrow> rt_error + mem \<times> group_info" where
  "make_object_gray unmarked m g current =
     (let prev = get_prev m current;
          nxt = get_next m current;
          group1 = (if current = gwhite g then g\<lparr>gwhite := nxt\<rparr> else g);
          m1 = unlink m prev nxt;
          m2 = set_prev m1 current 0;
          gray = ggray group1
      in rbind
           (if gray = 0 then
              (let m3 = set_next m2 current (gblack group1) in
               if gblack group1 = 0 then
                 rbind (rassert (gfree group1 = 0)) (\<lambda>_.
                   Inr (m3, group1\<lparr>gblack := current, glast := current\<rparr>))
               else Inr (set_prev m3 (gblack group1) current, group1))
            else Inr (set_prev (set_next m2 current gray) gray current, group1))
           (\<lambda>(m4, group2).
              rbind (rassert (WHITEP unmarked m4 current)) (\<lambda>_.
                let m5 = SET_COLOR m4 current GRAY; group3 = group2\<lparr>ggray := current\<rparr> in
                rbind (rassert (0 < white_count group3)) (\<lambda>_.
                  Inr (m5, group3\<lparr>white_count := white_count group3 - 1\<rparr>)))))"

text \<open>The end of scan_object_with_group, after scan_object has traced the body.\<close>

definition blacken_object ::
    "64 word \<Rightarrow> mem \<Rightarrow> group_info \<Rightarrow> addr \<Rightarrow> mem \<times> group_info" where
  "blacken_object marked m g ptr =
     (SET_COLOR m ptr marked,
      g\<lparr>gblack := ptr, black_scanned_count := black_scanned_count g + 1\<rparr>)"

text \<open>The body of the loop of flip.\<close>

definition flip_group :: "mem \<Rightarrow> group_info \<Rightarrow> rt_error + mem \<times> group_info" where
  "flip_group m g =
     (let free = gfree g;
          (m1, group1) =
            (if free \<noteq> 0 then
               (let prev = get_prev m free;
                    m' = (if prev \<noteq> 0 then set_next m prev 0 else m)
                in (set_prev m' free 0, g))
             else
               (let last = glast g
                in (if last \<noteq> 0 then set_next m last 0 else m, g\<lparr>glast := 0\<rparr>)));
          group2 =
            (if gblack group1 = gfree group1 then group1\<lparr>gwhite := 0\<rparr>
             else group1\<lparr>gwhite := gblack group1\<rparr>);
          group3 = group2\<lparr>gblack := gfree group2, ggray := 0\<rparr>;
          group4 = group3\<lparr>white_count := black_scanned_count group3 + black_alloc_count group3\<rparr>
      in rbind (rassert (0 \<le> white_count group4)) (\<lambda>_.
           Inr (m1, group4\<lparr>black_scanned_count := 0, black_alloc_count := 0\<rparr>)))"

text \<open>
  recycle_group_garbage: the walk over the white list, then the splice onto the free list.
  The walk stops only at a null link, so it carries fuel. DETECT_INVALID_REFS is 0, so the
  body of a dead object is left as it is.
\<close>

fun recycle_loop :: "nat \<Rightarrow> mem \<Rightarrow> addr \<Rightarrow> addr \<Rightarrow> int \<Rightarrow> rt_error + mem \<times> addr \<times> int" where
  "recycle_loop 0 m nxt lst count = Inl Out_of_fuel"
| "recycle_loop (Suc fuel) m nxt lst count =
     (if nxt \<noteq> 0 then
        (let m1 = SET_COLOR m nxt GREEN
         in recycle_loop fuel m1 (get_next m1 nxt) nxt (count + 1))
      else Inr (m, lst, count))"

definition recycle_group_garbage ::
    "nat \<Rightarrow> mem \<Rightarrow> group_info \<Rightarrow> rt_error + mem \<times> group_info" where
  "recycle_group_garbage fuel m g =
     rbind (recycle_loop fuel m (gwhite g) 0 0) (\<lambda>(m1, last, count).
       if count \<noteq> white_count g then
         Inl (Debugger ''group->white_count doesn't equal actual count'')
       else
         (let (m2, group1) =
            (if last \<noteq> 0 then
               (let m2 = set_next m1 last 0;
                    ga = (if gfree g = 0 then g\<lparr>gfree := gwhite g\<rparr> else g);
                    gb = (if gblack ga = 0 then ga\<lparr>gblack := gwhite ga\<rparr> else ga);
                    m3 = (if glast gb \<noteq> 0 then set_next m2 (glast gb) (gwhite gb) else m2);
                    m4 = set_prev m3 (gwhite gb) (glast gb)
                in (m4, gb\<lparr>glast := last\<rparr>))
             else (m1, g))
          in Inr (m2, group1\<lparr>gwhite := 0, white_count := 0\<rparr>)))"

text \<open>remove_object_from_free_list of rtcoalesce.c.\<close>

definition remove_object_from_free_list ::
    "mem \<Rightarrow> group_info \<Rightarrow> addr \<Rightarrow> mem \<times> group_info" where
  "remove_object_from_free_list m g object =
     (let prev = get_prev m object;
          nxt = get_next m object;
          g1 = (if object = gfree g then g\<lparr>gfree := nxt\<rparr> else g);
          g2 = (if object = gblack g1 then g1\<lparr>gblack := nxt\<rparr> else g1);
          g3 = (if object = glast g2 then g2\<lparr>glast := (if nxt = 0 then prev else nxt)\<rparr> else g2)
      in (unlink m prev nxt, g3))"

text \<open>The part of RTallocate that takes the first free object and colours it black.\<close>

definition allocate_from_free_list ::
    "64 word \<Rightarrow> mem \<Rightarrow> group_info \<Rightarrow> mem \<times> group_info \<times> addr" where
  "allocate_from_free_list marked m g =
     (let new = gfree g;
          group1 = g\<lparr>gfree := get_next m new\<rparr>;
          m1 = SET_COLOR m new marked
      in (m1, group1\<lparr>black_alloc_count := black_alloc_count group1 + 1\<rparr>, new))"

text \<open>
  The part of init_pages_for_group that writes the headers of the objects of new pages and
  links them behind the last object of the group. The two stores to \<open>current->prev\<close> and
  \<open>current->next\<close> overwrite whatever the page held.
\<close>

fun init_objects :: "nat \<Rightarrow> mem \<Rightarrow> int \<Rightarrow> addr \<Rightarrow> addr \<Rightarrow> mem \<times> addr" where
  "init_objects 0 m sz current nxt = (m, current)"
| "init_objects (Suc n) m sz current nxt =
     (let prev = current;
          current' = nxt;
          next' = current' + word_of_int sz;
          m1 = m(current' := prev);
          m2 = m1(current' + 8 := next');
          m3 = SET_COLOR m2 current' GREEN
      in init_objects n m3 sz current' next')"

definition link_new_objects ::
    "mem \<Rightarrow> group_info \<Rightarrow> addr \<Rightarrow> nat \<Rightarrow> rt_error + mem \<times> group_info" where
  "link_new_objects m g base num_objects =
     (let (m1, current) = init_objects num_objects m (gsize g) 0 base;
          m2 = set_next m1 current 0
      in rbind (rassert (gfree g = 0)) (\<lambda>_.
           let last = glast g;
               group1 = g\<lparr>gfree := base\<rparr>;
               (m3, group2) =
                 (if last = 0 then (m2, group1\<lparr>gblack := base\<rparr>)
                  else (set_next (set_prev m2 base last) last base, group1))
           in Inr (m3, group2\<lparr>glast := current\<rparr>)))"

subsection \<open>What a group means\<close>

text \<open>
  The contract of a group: four lists of objects. Black and free objects share one list in
  memory, and gray objects are put before them. The operations below are the contract the
  pointer surgery is measured against.
\<close>

record agroup =
  whites :: "addr list"
  grays :: "addr list"
  blacks :: "addr list"
  greens :: "addr list"

definition active :: "agroup \<Rightarrow> addr list" where
  "active A = grays A @ blacks A @ greens A"

definition objects :: "agroup \<Rightarrow> addr list" where
  "objects A = whites A @ active A"

definition a_make_gray :: "addr \<Rightarrow> agroup \<Rightarrow> agroup" where
  "a_make_gray x A = A\<lparr>whites := remove1 x (whites A), grays := x # grays A\<rparr>"

definition a_blacken :: "agroup \<Rightarrow> agroup" where
  "a_blacken A = A\<lparr>grays := butlast (grays A), blacks := last (grays A) # blacks A\<rparr>"

definition a_flip :: "agroup \<Rightarrow> agroup" where
  "a_flip A = A\<lparr>whites := blacks A, blacks := []\<rparr>"

definition a_recycle :: "agroup \<Rightarrow> agroup" where
  "a_recycle A = A\<lparr>whites := [], greens := greens A @ whites A\<rparr>"

definition a_allocate :: "agroup \<Rightarrow> agroup" where
  "a_allocate A = A\<lparr>blacks := blacks A @ [hd (greens A)], greens := tl (greens A)\<rparr>"

definition a_remove_free :: "addr \<Rightarrow> agroup \<Rightarrow> agroup" where
  "a_remove_free x A = A\<lparr>greens := remove1 x (greens A)\<rparr>"

definition a_add_free :: "addr list \<Rightarrow> agroup \<Rightarrow> agroup" where
  "a_add_free xs A = A\<lparr>greens := greens A @ xs\<rparr>"

lemmas a_defs =
  a_make_gray_def a_blacken_def a_flip_def a_recycle_def a_allocate_def a_remove_free_def
  a_add_free_def

definition colored :: "mem \<Rightarrow> 64 word \<Rightarrow> addr list \<Rightarrow> bool" where
  "colored m c xs \<longleftrightarrow> (\<forall>x\<in>set xs. GET_COLOR m x = c)"

definition colors_ok :: "64 word \<Rightarrow> 64 word \<Rightarrow> bool" where
  "colors_ok marked unmarked \<longleftrightarrow>
     (marked = GENERATION0 \<and> unmarked = GENERATION1) \<or>
     (marked = GENERATION1 \<and> unmarked = GENERATION0)"

text \<open>
  The black pointer stands at the first object that is not gray, or still at the last gray
  object: RTmake_object_gray leaves it there when the list was empty, and scan_gray_set
  starts from it either way.
\<close>

definition black_pointer_ok :: "group_info \<Rightarrow> agroup \<Rightarrow> bool" where
  "black_pointer_ok g A \<longleftrightarrow>
     gblack g = hd_or (blacks A @ greens A) (last_or 0 (grays A)) \<or>
     (grays A \<noteq> [] \<and> gblack g = last (grays A))"

definition group_rep :: "64 word \<Rightarrow> 64 word \<Rightarrow> mem \<Rightarrow> group_info \<Rightarrow> agroup \<Rightarrow> bool" where
  "group_rep marked unmarked m g A \<longleftrightarrow>
     headers_ok (set (objects A)) \<and> distinct (objects A) \<and>
     dlist m (whites A) \<and> dlist m (active A) \<and>
     colored m unmarked (whites A) \<and> colored m GRAY (grays A) \<and>
     colored m marked (blacks A) \<and> colored m GREEN (greens A) \<and>
     gwhite g = hd_or (whites A) 0 \<and> gfree g = hd_or (greens A) 0 \<and>
     glast g = last_or 0 (active A) \<and> black_pointer_ok g A \<and>
     white_count g = int (length (whites A)) \<and>
     black_scanned_count g + black_alloc_count g = int (length (blacks A))"

text \<open>During a collection, and between collections.\<close>

definition marking_rep :: "64 word \<Rightarrow> 64 word \<Rightarrow> mem \<Rightarrow> group_info \<Rightarrow> agroup \<Rightarrow> bool" where
  "marking_rep marked unmarked m g A \<longleftrightarrow>
     group_rep marked unmarked m g A \<and>
     ((ggray g = 0 \<and> grays A = []) \<or> (active A \<noteq> [] \<and> ggray g = hd (active A)))"

definition idle_rep :: "64 word \<Rightarrow> 64 word \<Rightarrow> mem \<Rightarrow> group_info \<Rightarrow> agroup \<Rightarrow> bool" where
  "idle_rep marked unmarked m g A \<longleftrightarrow>
     group_rep marked unmarked m g A \<and> whites A = [] \<and> grays A = []"

text \<open>What an operation leaves alone: memory outside the group's headers, and storage classes.\<close>

definition links_only :: "addr set \<Rightarrow> mem \<Rightarrow> mem \<Rightarrow> bool" where
  "links_only S m m' \<longleftrightarrow>
     only_headers S m m' \<and>
     (\<forall>q. aligned q \<longrightarrow> GET_STORAGE_CLASS m' q = GET_STORAGE_CLASS m q)"

end
