(* ===== verification/Group_Refine.thy ===== *)
theory Group_Refine
  imports Group_Lists
begin

text \<open>
  The operations on one group refine their contracts on four lists: no assertion fails, the
  representation holds again, and only links and colours of the group's own objects change.
\<close>

lemma objects_simps [simp]:
  "set (objects A) = set (whites A) \<union> set (grays A) \<union> set (blacks A) \<union> set (greens A)"
  "set (active A) = set (grays A) \<union> set (blacks A) \<union> set (greens A)"
  by (auto simp: objects_def active_def)

lemma a_fields [simp]:
  "whites (a_make_gray x A) = remove1 x (whites A)" "grays (a_make_gray x A) = x # grays A"
  "blacks (a_make_gray x A) = blacks A" "greens (a_make_gray x A) = greens A"
  "whites (a_blacken A) = whites A" "grays (a_blacken A) = butlast (grays A)"
  "blacks (a_blacken A) = last (grays A) # blacks A" "greens (a_blacken A) = greens A"
  "whites (a_flip A) = blacks A" "grays (a_flip A) = grays A"
  "blacks (a_flip A) = []" "greens (a_flip A) = greens A"
  "whites (a_recycle A) = []" "grays (a_recycle A) = grays A"
  "blacks (a_recycle A) = blacks A" "greens (a_recycle A) = greens A @ whites A"
  "whites (a_allocate A) = whites A" "grays (a_allocate A) = grays A"
  "blacks (a_allocate A) = blacks A @ [hd (greens A)]" "greens (a_allocate A) = tl (greens A)"
  "whites (a_remove_free x A) = whites A" "grays (a_remove_free x A) = grays A"
  "blacks (a_remove_free x A) = blacks A" "greens (a_remove_free x A) = remove1 x (greens A)"
  "whites (a_add_free xs A) = whites A" "grays (a_add_free xs A) = grays A"
  "blacks (a_add_free xs A) = blacks A" "greens (a_add_free xs A) = greens A @ xs"
  by (simp_all add: a_defs)

lemma colored_simps [simp]:
  "colored m c []"
  "colored m c (x # xs) \<longleftrightarrow> GET_COLOR m x = c \<and> colored m c xs"
  "colored m c (xs @ ys) \<longleftrightarrow> colored m c xs \<and> colored m c ys"
  by (auto simp: colored_def)

lemma colored_cong:
  "(\<And>x. x \<in> set xs \<Longrightarrow> GET_COLOR m' x = GET_COLOR m x) \<Longrightarrow> colored m' c xs = colored m c xs"
  by (simp add: colored_def)

lemma colored_SET_COLOR_other [hdr_simps]:
  assumes "headers_ok (set xs)" and "aligned p" and "two_bits d" and "p \<notin> set xs"
  shows "colored (SET_COLOR m p d) c xs = colored m c xs"
  using assms by (intro colored_cong) (auto simp: hdr_simps dest: headers_okD)

lemma colored_set_prev [hdr_simps]:
  assumes "headers_ok (set xs)" and "aligned p" and "aligned v"
  shows "colored (set_prev m p v) c xs = colored m c xs"
  using assms by (intro colored_cong) (auto simp: hdr_simps dest: headers_okD)

lemma colored_set_next [hdr_simps]:
  assumes "headers_ok (set xs)" and "aligned p" and "aligned v"
  shows "colored (set_next m p v) c xs = colored m c xs"
  using assms by (intro colored_cong) (auto simp: hdr_simps dest: headers_okD)

lemma colored_unlink [hdr_simps]:
  assumes "headers_ok (set xs)" and "aligned p" and "aligned v"
  shows "colored (unlink m p v) c xs = colored m c xs"
  using assms by (intro colored_cong) (auto simp: hdr_simps dest: headers_okD)

lemma colors_okD:
  assumes "colors_ok marked unmarked"
  shows "two_bits marked" "two_bits unmarked" "marked \<noteq> unmarked" "marked \<noteq> GRAY" "marked \<noteq> GREEN"
    "unmarked \<noteq> GRAY" "unmarked \<noteq> GREEN"
  using assms by (auto simp: colors_ok_def color_defs)

lemma two_bits_colors [simp]: "two_bits GRAY" "two_bits GREEN"
  by (simp_all add: color_defs)

lemma group_repI:
  assumes "headers_ok (set (objects A))" and "distinct (objects A)"
    and "dlist m (whites A)" and "dlist m (active A)"
    and "colored m unmarked (whites A)" and "colored m GRAY (grays A)"
    and "colored m marked (blacks A)" and "colored m GREEN (greens A)"
    and "gwhite g = hd_or (whites A) 0" and "gfree g = hd_or (greens A) 0"
    and "glast g = last_or 0 (active A)" and "black_pointer_ok g A"
    and "white_count g = int (length (whites A))"
    and "black_scanned_count g + black_alloc_count g = int (length (blacks A))"
  shows "group_rep marked unmarked m g A"
  using assms by (simp add: group_rep_def)

lemma group_repD:
  assumes "group_rep marked unmarked m g A"
  shows "headers_ok (set (objects A))" and "distinct (objects A)"
    and "dlist m (whites A)" and "dlist m (active A)"
    and "colored m unmarked (whites A)" and "colored m GRAY (grays A)"
    and "colored m marked (blacks A)" and "colored m GREEN (greens A)"
    and "gwhite g = hd_or (whites A) 0" and "gfree g = hd_or (greens A) 0"
    and "glast g = last_or 0 (active A)" and "black_pointer_ok g A"
    and "white_count g = int (length (whites A))"
    and "black_scanned_count g + black_alloc_count g = int (length (blacks A))"
  using assms by (simp_all add: group_rep_def)

subsection \<open>The frame relation\<close>

lemma links_only_refl [simp, frame_intros]: "links_only S m m"
  by (simp add: links_only_def)

lemma links_only_trans: "links_only S m m' \<Longrightarrow> links_only S m' m'' \<Longrightarrow> links_only S m m''"
  by (auto simp: links_only_def intro: only_headers_trans)

lemma links_only_mono: "links_only S m m' \<Longrightarrow> S \<subseteq> T \<Longrightarrow> links_only T m m'"
  by (auto simp: links_only_def intro: only_headers_mono)

lemma links_only_writes [frame_intros]:
  assumes "links_only S m m'" and "p \<in> S" and "aligned p"
  shows "aligned v \<Longrightarrow> links_only S m (set_prev m' p v)"
    and "aligned v \<Longrightarrow> links_only S m (set_next m' p v)"
    and "two_bits c \<Longrightarrow> links_only S m (SET_COLOR m' p c)"
  using assms by (auto simp: links_only_def hdr_simps intro!: only_headers_writes)

lemma links_only_unlink [frame_intros]:
  assumes "links_only S m m'" and "prev = 0 \<or> prev \<in> S" and "nxt = 0 \<or> nxt \<in> S"
    and "headers_ok S"
  shows "links_only S m (unlink m' prev nxt)"
proof -
  have "aligned prev" and "aligned nxt"
    using assms(2-4) by (auto simp: align_simps dest: headers_okD)
  then show ?thesis
    using assms by (auto simp: links_only_def hdr_simps intro!: only_headers_unlink)
qed

lemma links_only_hdr:
  assumes "links_only S m m'" and "headers_ok S" and "aligned q" and "q \<notin> S"
  shows "get_prev m' q = get_prev m q" and "get_next m' q = get_next m q"
    and "GET_COLOR m' q = GET_COLOR m q"
  using assms only_headers_hdr unfolding links_only_def by blast+

lemma links_only_storage_class:
  "links_only S m m' \<Longrightarrow> aligned q \<Longrightarrow> GET_STORAGE_CLASS m' q = GET_STORAGE_CLASS m q"
  by (simp add: links_only_def)

lemma links_only_cell: "links_only S m m' \<Longrightarrow> a \<notin> header_cells S \<Longrightarrow> m' a = m a"
  by (simp add: links_only_def only_headers_def)

lemma links_only_dlist:
  assumes "links_only S m m'" and "headers_ok S" and "headers_ok (set xs)" and "set xs \<inter> S = {}"
  shows "dlist m' xs = dlist m xs"
  using assms only_headers_dseg unfolding links_only_def dlist_def by blast

lemma links_only_colored:
  assumes "links_only S m m'" and "headers_ok S" and "headers_ok (set xs)" and "set xs \<inter> S = {}"
  shows "colored m' c xs = colored m c xs"
proof (rule colored_cong)
  fix x assume "x \<in> set xs"
  then have "aligned x" and "x \<notin> S" using assms(3,4) by (auto dest: headers_okD)
  then show "GET_COLOR m' x = GET_COLOR m x"
    by (simp add: links_only_hdr [OF assms(1,2)])
qed

text \<open>A group does not notice changes to the headers of others.\<close>

text \<open>Only the headers of the objects matter.\<close>

lemma group_rep_cong:
  assumes "group_rep mk um m g a" and "\<And>x. x \<in> set (objects a) \<Longrightarrow> m' x = m x \<and> m' (x + 8) = m (x + 8)"
  shows "group_rep mk um m' g a"
proof -
  have h: "get_prev m' x = get_prev m x \<and> get_next m' x = get_next m x \<and> GET_COLOR m' x = GET_COLOR m x"
    if "x \<in> set (objects a)" for x
    using assms(2) [OF that] by (simp add: hdr_defs)
  have *: "dlist m' xs = dlist m xs" "colored m' c xs = colored m c xs"
    if "set xs \<subseteq> set (objects a)" for xs c
    using that h unfolding dlist_def by (intro dseg_cong colored_cong; blast)+
  have "set (whites a) \<subseteq> set (objects a)" "set (active a) \<subseteq> set (objects a)"
    "set (grays a) \<subseteq> set (objects a)" "set (blacks a) \<subseteq> set (objects a)"
    "set (greens a) \<subseteq> set (objects a)"
    by (auto simp: objects_def active_def)
  note e = this [THEN *(1)] this [THEN *(2)]
  show ?thesis
    using assms(1) unfolding group_rep_def e .
qed

lemma marking_rep_cong:
  assumes "marking_rep mk um m g a" and "\<And>x. x \<in> set (objects a) \<Longrightarrow> m' x = m x \<and> m' (x + 8) = m (x + 8)"
  shows "marking_rep mk um m' g a"
  using assms group_rep_cong unfolding marking_rep_def by blast

lemma idle_rep_cong:
  assumes "idle_rep mk um m g a" and "\<And>x. x \<in> set (objects a) \<Longrightarrow> m' x = m x \<and> m' (x + 8) = m (x + 8)"
  shows "idle_rep mk um m' g a"
  using assms group_rep_cong unfolding idle_rep_def by blast

lemma group_rep_frame:
  assumes "links_only S m m'" and "headers_ok S" and "set (objects A) \<inter> S = {}"
    and "group_rep marked unmarked m g A"
  shows "group_rep marked unmarked m' g A"
proof -
  have ok: "headers_ok (set (whites A))" "headers_ok (set (active A))" "headers_ok (set (grays A))"
      "headers_ok (set (blacks A))" "headers_ok (set (greens A))"
    using assms(4) by (auto simp: group_rep_def)
  have "set (whites A) \<inter> S = {}" "set (active A) \<inter> S = {}" "set (grays A) \<inter> S = {}"
      "set (blacks A) \<inter> S = {}" "set (greens A) \<inter> S = {}"
    using assms(3) by auto
  then show ?thesis
    using assms(4) links_only_dlist [OF assms(1,2)] links_only_colored [OF assms(1,2)] ok
    by (simp only: group_rep_def)
qed

lemma marking_rep_frame:
  assumes "links_only S m m'" and "headers_ok S" and "set (objects A) \<inter> S = {}"
    and "marking_rep marked unmarked m g A"
  shows "marking_rep marked unmarked m' g A"
  using group_rep_frame [OF assms(1-3)] assms(4) by (simp add: marking_rep_def)

lemma idle_rep_frame:
  assumes "links_only S m m'" and "headers_ok S" and "set (objects A) \<inter> S = {}"
    and "idle_rep marked unmarked m g A"
  shows "idle_rep marked unmarked m' g A"
  using group_rep_frame [OF assms(1-3)] assms(4) by (simp add: idle_rep_def)

subsection \<open>Making an object gray\<close>

lemma dlist_push_front:
  assumes "dlist m L" and "headers_ok (set (x # L))" and "distinct (x # L)"
  shows "dlist (let m' = set_next (set_prev m x 0) x (hd_or L 0)
                in if L \<noteq> [] then set_prev m' (hd L) x else m') (x # L)"
  using assms by (cases L) (auto simp: dlist_def Let_def hdr_simps align_simps)

lemma group_rep_gray_zero:
  assumes "marking_rep marked unmarked m g A"
  shows "ggray g = 0 \<Longrightarrow> gblack g = hd_or (active A) 0"
    and "ggray g \<noteq> 0 \<Longrightarrow> active A \<noteq> [] \<and> ggray g = hd (active A)"
    and "ggray g = 0 \<longleftrightarrow> ggray g = 0 \<and> grays A = []"
proof -
  have z: "0 \<notin> set (active A)"
    using assms headers_ok_not_0 by (auto simp: marking_rep_def group_rep_def)
  then have n: "active A \<noteq> [] \<Longrightarrow> hd (active A) \<noteq> 0" using hd_in_set by metis
  then have g: "ggray g = 0 \<Longrightarrow> grays A = []"
    using assms by (auto simp: marking_rep_def)
  then show "ggray g = 0 \<Longrightarrow> gblack g = hd_or (active A) 0"
    using assms by (auto simp: marking_rep_def group_rep_def black_pointer_ok_def active_def)
  show "ggray g \<noteq> 0 \<Longrightarrow> active A \<noteq> [] \<and> ggray g = hd (active A)"
    using assms by (auto simp: marking_rep_def)
  show "ggray g = 0 \<longleftrightarrow> ggray g = 0 \<and> grays A = []" using g by blast
qed

text \<open>What the pointer surgery computes, with both branches of the code brought together.\<close>

lemma make_object_gray_eq:
  assumes rep: "marking_rep marked unmarked m g A" and x: "x \<in> set (whites A)"
    and c: "colors_ok marked unmarked"
  defines "m1 \<equiv> unlink m (get_prev m x) (get_next m x)"
    and "L \<equiv> active A"
  defines "m4 \<equiv> (let m' = set_next (set_prev m1 x 0) x (hd_or L 0)
                  in if L \<noteq> [] then set_prev m' (hd L) x else m')"
  shows "make_object_gray unmarked m g x =
    Inr (SET_COLOR m4 x GRAY,
         g\<lparr>gwhite := (if x = gwhite g then get_next m x else gwhite g),
           gblack := (if L = [] then x else gblack g),
           glast := (if L = [] then x else glast g),
           ggray := x, white_count := white_count g - 1\<rparr>)"
proof -
  have r: "group_rep marked unmarked m g A" using rep by (simp add: marking_rep_def)
  have ok: "headers_ok (set (whites A))" "headers_ok (set L)"
    and gf: "gfree g = hd_or (greens A) 0" and wc: "0 < white_count g"
    and col: "GET_COLOR m x = unmarked"
    using r x by (auto simp: group_rep_def L_def colored_def)
  have ax: "aligned x" using ok x by (auto dest: headers_okD)
  have ahd: "aligned (hd_or L 0)" and hd0: "L \<noteq> [] \<Longrightarrow> hd L \<noteq> 0 \<and> aligned (hd L)"
    using ok(2) by (cases L; simp add: align_simps)+
  have gb: "ggray g = 0 \<Longrightarrow> gblack g = hd_or L 0"
    and gg: "ggray g \<noteq> 0 \<Longrightarrow> L \<noteq> [] \<and> ggray g = hd L"
    using group_rep_gray_zero [OF rep] by (auto simp: L_def)
  have gf0: "L = [] \<Longrightarrow> gfree g = 0" using gf by (simp add: L_def active_def)
  have white: "WHITEP unmarked m4 x"
    using ax ahd hd0 col
    by (auto simp: m4_def m1_def WHITEP_def Let_def hdr_simps align_simps)
  define g1 where "g1 = (if x = gwhite g then g\<lparr>gwhite := get_next m x\<rparr> else g)"
  have g1: "ggray g1 = ggray g" "gblack g1 = gblack g" "gfree g1 = gfree g"
      "white_count g1 = white_count g"
    by (simp_all add: g1_def)
  have step: "make_object_gray unmarked m g x =
      rbind (rassert (WHITEP unmarked m4 x)) (\<lambda>_.
        rbind (rassert (0 < white_count g)) (\<lambda>_.
          Inr (SET_COLOR m4 x GRAY,
            (if L = [] then g1\<lparr>gblack := x, glast := x\<rparr> else g1)
              \<lparr>ggray := x, white_count := white_count g - 1\<rparr>)))"
  proof (cases "ggray g = 0")
    case True
    with gb [OF True] gf0 hd0 show ?thesis
      by (cases L)
        (simp_all add: make_object_gray_def g1_def [symmetric] g1 m4_def m1_def Let_def)
  next
    case False
    with gg [OF False] hd0 show ?thesis
      by (cases L)
        (simp_all add: make_object_gray_def g1_def [symmetric] g1 m4_def m1_def Let_def)
  qed
  show ?thesis
    unfolding step using white wc by (simp add: g1_def)
qed

lemma make_object_gray_memory:
  assumes rep: "group_rep marked unmarked m g A" and x: "x \<in> set (whites A)"
  defines "m1 \<equiv> unlink m (get_prev m x) (get_next m x)"
    and "L \<equiv> active A"
  defines "m4 \<equiv> (let m' = set_next (set_prev m1 x 0) x (hd_or L 0)
                  in if L \<noteq> [] then set_prev m' (hd L) x else m')"
  shows "dlist m4 (remove1 x (whites A))" and "dlist m4 (x # L)"
    and "links_only (set (objects A)) m m4"
    and "aligned q \<Longrightarrow> GET_COLOR m4 q = GET_COLOR m q"
proof -
  obtain us vs where w: "whites A = us @ x # vs" using x by (meson split_list)
  have ok: "headers_ok (set (us @ x # vs))" "headers_ok (set (x # L))"
    and d: "distinct (us @ x # vs)" "distinct (x # L)" and xu: "x \<notin> set us"
    and sep: "set (us @ vs) \<inter> set (x # L) = {}"
    and dw: "dlist m (us @ x # vs)" and dL: "dlist m L"
    using rep w by (auto simp: group_rep_def L_def objects_def)
  have p: "get_prev m x = last_or 0 us" and n: "get_next m x = hd_or vs 0"
    using dw by (simp_all add: dlist_def)
  have inS: "get_prev m x = 0 \<or> get_prev m x \<in> set (us @ vs)"
      "get_next m x = 0 \<or> get_next m x \<in> set (us @ vs)"
    using last_or_cases [of us 0] hd_or_cases [of vs 0] unfolding p n by auto
  have f1: "links_only (set (us @ vs)) m m1"
    unfolding m1_def using ok(1) inS by (auto intro!: links_only_unlink)
  have d1: "dlist m1 (us @ vs)" unfolding m1_def using dlist_unlink [OF dw d(1) ok(1)] .
  have L1: "dlist m1 L"
    using links_only_dlist [OF f1, of L] dL ok sep by auto
  show "dlist m4 (x # L)"
    unfolding m4_def by (rule dlist_push_front [OF L1 ok(2) d(2)])
  have ax: "aligned x" and ahd: "aligned (hd_or L 0)"
    and hdL: "L \<noteq> [] \<Longrightarrow> hd L \<in> set L \<and> aligned (hd L)"
    using ok(2) by (cases L; auto simp: align_simps)+
  have f2: "links_only (set (x # L)) m1 m4"
    unfolding m4_def Let_def using ax ahd hdL
    by (auto intro!: links_only_writes aligned_0)
  show "dlist m4 (remove1 x (whites A))"
    using links_only_dlist [OF f2, of "us @ vs"] d1 ok sep xu by (simp add: w remove1_append)
  show "links_only (set (objects A)) m m4"
    by (rule links_only_trans [OF links_only_mono [OF f1] links_only_mono [OF f2]])
      (use x w in \<open>auto simp: L_def\<close>)
  have a: "aligned (get_prev m x)" "aligned (get_next m x)" by (simp_all add: align_simps)
  show "aligned q \<Longrightarrow> GET_COLOR m4 q = GET_COLOR m q"
    using ax ahd hdL a by (simp add: m4_def m1_def Let_def hdr_simps align_simps)
qed

lemma make_object_gray_refines:
  assumes rep: "marking_rep marked unmarked m g A" and x: "x \<in> set (whites A)"
    and c: "colors_ok marked unmarked"
  obtains m' g' where "make_object_gray unmarked m g x = Inr (m', g')"
    and "marking_rep marked unmarked m' g' (a_make_gray x A)"
    and "links_only (set (objects A)) m m'"
    and "gsize g' = gsize g" and "gindex g' = gindex g"
proof -
  define L where "L = active A"
  define m1 where "m1 = unlink m (get_prev m x) (get_next m x)"
  define m4 where "m4 = (let m' = set_next (set_prev m1 x 0) x (hd_or L 0)
                  in if L \<noteq> [] then set_prev m' (hd L) x else m')"
  define g' where "g' = g\<lparr>gwhite := (if x = gwhite g then get_next m x else gwhite g),
           gblack := (if L = [] then x else gblack g),
           glast := (if L = [] then x else glast g),
           ggray := x, white_count := white_count g - 1\<rparr>"
  let ?m' = "SET_COLOR m4 x GRAY"
  have r: "group_rep marked unmarked m g A" using rep by (simp add: marking_rep_def)
  note mem = make_object_gray_memory [OF r x, folded L_def, folded m1_def, folded m4_def]
  have eq: "make_object_gray unmarked m g x = Inr (?m', g')"
    using make_object_gray_eq [OF rep x c] unfolding g'_def m4_def m1_def L_def .
  obtain us vs where w: "whites A = us @ x # vs" and xu: "x \<notin> set us"
    using x split_list_first by metis
  then have rm: "remove1 x (whites A) = us @ vs" by (simp add: remove1_append)
  have ok: "headers_ok (set us)" "headers_ok (set vs)" "headers_ok (set (grays A))"
      "headers_ok (set (blacks A))" "headers_ok (set (greens A))" "aligned x"
    and d: "distinct (x # us @ vs @ active A)" and dw: "dlist m (us @ x # vs)"
    using r w by (auto simp: group_rep_def objects_def)
  have n: "get_next m x = hd_or vs 0" using dw by (simp add: dlist_def)
  have same: "colored ?m' k xs = colored m k xs" if "headers_ok (set xs)" "x \<notin> set xs" for k xs
    using that ok(6) mem(4)
    by (intro colored_cong) (auto simp: hdr_simps dest: headers_okD)
  have gx: "GET_COLOR ?m' x = GRAY" using ok(6) by (simp add: hdr_simps)
  have links: "dlist ?m' (us @ vs)" "dlist ?m' (x # L)"
    using mem(1,2) ok r unfolding rm dlist_def L_def
    by (simp_all add: hdr_simps group_rep_def)
  have white: "gwhite g = (if us = [] then x else hd us)"
    using r w by (cases us) (simp_all add: group_rep_def)
  have bl: "black_pointer_ok g' (a_make_gray x A)"
    using r by (cases "blacks A"; cases "greens A"; cases "grays A")
      (auto simp: group_rep_def black_pointer_ok_def a_make_gray_def g'_def L_def active_def)
  define A' where "A' = a_make_gray x A"
  have A': "whites A' = us @ vs" "grays A' = x # grays A" "blacks A' = blacks A"
      "greens A' = greens A" "active A' = x # L"
    by (simp_all add: A'_def a_make_gray_def rm active_def L_def)
  have xs: "x \<notin> set us" "x \<notin> set vs" "x \<notin> set (grays A)" "x \<notin> set (blacks A)" "x \<notin> set (greens A)"
    using d xu by auto
  have "group_rep marked unmarked ?m' g' A'"
  proof (rule group_repI)
    show "headers_ok (set (objects A'))" using ok r w by (auto simp: A' group_rep_def)
    show "distinct (objects A')" using d by (auto simp: objects_def A' L_def)
    show "dlist ?m' (whites A')" and "dlist ?m' (active A')" using links by (simp_all add: A')
    show "colored ?m' unmarked (whites A')" "colored ?m' marked (blacks A')"
        "colored ?m' GREEN (greens A')" "colored ?m' GRAY (grays A')"
      using group_repD(5-8) [OF r] w xs ok gx by (simp_all add: A' same)
    show "gwhite g' = hd_or (whites A') 0" using white n xs(1)
      by (cases us) (simp_all add: A' g'_def)
    show "gfree g' = hd_or (greens A') 0" using r by (simp add: A' g'_def group_rep_def)
    show "glast g' = last_or 0 (active A')"
      using r by (cases L) (simp_all add: A' g'_def group_rep_def L_def)
    show "black_pointer_ok g' A'" using bl by (simp add: A'_def)
    show "white_count g' = int (length (whites A'))"
        "black_scanned_count g' + black_alloc_count g' = int (length (blacks A'))"
      using r w by (simp_all add: A' g'_def group_rep_def)
  qed
  then have "group_rep marked unmarked ?m' g' (a_make_gray x A)" by (simp add: A'_def)
  then have "marking_rep marked unmarked ?m' g' (a_make_gray x A)"
    by (simp add: marking_rep_def a_make_gray_def active_def g'_def)
  moreover have "links_only (set (objects A)) m ?m'"
    using mem(3) x ok(6) by (auto intro!: links_only_writes)
  ultimately show thesis using eq that by (simp add: g'_def)
qed

subsection \<open>Blackening the last gray object\<close>

lemma blacken_object_refines:
  assumes rep: "marking_rep marked unmarked m g A" and ne: "grays A \<noteq> []"
    and c: "colors_ok marked unmarked"
    and r: "blacken_object marked m g (last (grays A)) = (m', g')"
  shows "marking_rep marked unmarked m' g' (a_blacken A)"
    and "links_only (set (objects A)) m m'"
    and "gsize g' = gsize g" and "gindex g' = gindex g"
proof -
  obtain ys x where g: "grays A = ys @ [x]" using ne by (cases "grays A" rule: rev_cases) auto
  have m': "m' = SET_COLOR m x marked"
    and g': "g' = g\<lparr>gblack := x, black_scanned_count := black_scanned_count g + 1\<rparr>"
    using r by (simp_all add: blacken_object_def g)
  have gr: "group_rep marked unmarked m g A" using rep by (simp add: marking_rep_def)
  have tb: "two_bits marked" using colors_okD [OF c] by simp
  have ok: "headers_ok (set (whites A))" "headers_ok (set (active A))" "headers_ok (set ys)"
      "headers_ok (set (blacks A))" "headers_ok (set (greens A))" "aligned x"
    using group_repD(1) [OF gr] by (simp_all add: g)
  have xs: "x \<notin> set ys" "x \<notin> set (whites A)" "x \<notin> set (blacks A)" "x \<notin> set (greens A)"
    using group_repD(2) [OF gr] by (auto simp: objects_def active_def g)
  define A' where "A' = a_blacken A"
  have A': "whites A' = whites A" "grays A' = ys" "blacks A' = x # blacks A"
      "greens A' = greens A" "active A' = active A" "objects A' = objects A"
    by (simp_all add: A'_def a_blacken_def active_def objects_def g)
  have col: "colored m' k zs = colored m k zs" if "headers_ok (set zs)" "x \<notin> set zs" for k zs
    unfolding m' using that ok(6) tb by (simp add: hdr_simps)
  have gx: "GET_COLOR m' x = marked" using ok(6) tb by (simp add: m' hdr_simps)
  have "group_rep marked unmarked m' g' A'"
  proof (rule group_repI)
    show "headers_ok (set (objects A'))" "distinct (objects A')"
      using group_repD(1,2) [OF gr] by (simp_all only: A')
    show "dlist m' (whites A')" "dlist m' (active A')"
      using group_repD(3,4) [OF gr] ok tb by (simp_all add: A' m' dlist_def hdr_simps)
    show "colored m' unmarked (whites A')" "colored m' GRAY (grays A')"
        "colored m' GREEN (greens A')" "colored m' marked (blacks A')"
      using group_repD(5-8) [OF gr] ok xs gx by (simp_all add: A' col g)
  qed (use group_repD(9-14) [OF gr] in \<open>simp_all add: A' g' black_pointer_ok_def\<close>)
  then show "marking_rep marked unmarked m' g' (a_blacken A)"
    using rep by (simp add: marking_rep_def A'_def [symmetric] A' g' g)
  show "links_only (set (objects A)) m m'"
    unfolding m' using ok tb by (intro links_only_writes) (auto simp: g)
  show "gsize g' = gsize g" "gindex g' = gindex g" by (simp_all add: g')
qed

subsection \<open>Flipping\<close>

text \<open>
  At the start of a cycle the black objects become the white list. The colours change their
  meaning afterwards, when stop_all_mutators_and_save_state swaps the two colour variables:
  the result is a representation for the swapped colours.
\<close>

lemma dlist_split:
  assumes "dlist m (xs @ ys)" and "headers_ok (set (xs @ ys))" and "distinct (xs @ ys)" and "ys \<noteq> []"
  defines "m' \<equiv> (if xs \<noteq> [] then set_next m (last xs) 0 else m)"
  shows "get_prev m (hd ys) = last_or 0 xs"
    and "dlist (set_prev m' (hd ys) 0) xs" and "dlist (set_prev m' (hd ys) 0) ys"
proof -
  obtain y zs where ys: "ys = y # zs" using assms(4) by (cases ys) auto
  show "get_prev m (hd ys) = last_or 0 xs" using assms(1) by (simp add: dlist_def ys)
  have "dseg m' 0 xs 0"
    unfolding m'_def using assms(1-3)
    by (intro dseg_reattach_last [where b = "hd ys"]) (auto simp: dlist_def ys align_simps)
  then show "dlist (set_prev m' (hd ys) 0) xs"
    using assms(2,3) by (simp add: dlist_def ys hdr_simps align_simps)
  have "aligned (last xs) \<and> last xs \<notin> set ys" if "xs \<noteq> []"
    using assms(2,3) headers_ok_last [OF _ that] last_not_in [OF that] by simp
  then have "dseg m' (last_or 0 xs) ys 0"
    using assms(1-3) unfolding m'_def by (auto simp: dlist_def ys hdr_simps align_simps)
  then show "dlist (set_prev m' (hd ys) 0) ys"
    using assms(2,3) by (simp add: dlist_def ys hdr_simps align_simps)
qed

lemma idle_rep_lists:
  assumes "idle_rep marked unmarked m g A"
  shows "group_rep marked unmarked m g A" and "whites A = []" and "grays A = []"
    and "active A = blacks A @ greens A" and "objects A = blacks A @ greens A"
    and "gblack g = hd_or (blacks A @ greens A) 0"
  using assms
  by (auto simp: idle_rep_def active_def objects_def group_rep_def black_pointer_ok_def)

lemma flip_group_refines:
  assumes rep: "idle_rep marked unmarked m g A" and c: "colors_ok marked unmarked"
  obtains m' g' where "flip_group m g = Inr (m', g')"
    and "marking_rep unmarked marked m' g' (a_flip A)"
    and "links_only (set (objects A)) m m'"
    and "gsize g' = gsize g" and "gindex g' = gindex g"
proof -
  let ?B = "blacks A" and ?F = "greens A"
  define m1 where "m1 = (if ?B \<noteq> [] then set_next m (last ?B) 0 else m)"
  define m' where "m' = (if ?F \<noteq> [] then set_prev m1 (hd ?F) 0 else m1)"
  define g' where "g' = g\<lparr>gwhite := hd_or ?B 0, gblack := hd_or ?F 0, ggray := 0,
      glast := last_or 0 ?F, white_count := int (length ?B),
      black_scanned_count := 0, black_alloc_count := 0\<rparr>"
  note l = idle_rep_lists [OF rep]
  note r = group_repD [OF l(1)]
  have ok: "headers_ok (set ?B)" "headers_ok (set ?F)" and d: "distinct (?B @ ?F)"
    and dl: "dlist m (?B @ ?F)"
    using r(1-4) by (simp_all add: l)
  have z: "0 \<notin> set ?B" "0 \<notin> set ?F" using ok headers_ok_not_0 by auto
  have aB: "?B \<noteq> [] \<Longrightarrow> last ?B \<in> set ?B \<and> last ?B \<noteq> 0 \<and> aligned (last ?B)"
    and aF: "?F \<noteq> [] \<Longrightarrow> hd ?F \<in> set ?F \<and> hd ?F \<noteq> 0 \<and> aligned (hd ?F)"
    using headers_ok_last [OF ok(1)] headers_ok_hd [OF ok(2)] by simp_all
  have lists: "dlist m' ?B \<and> dlist m' ?F"
  proof (cases "?F = []")
    case True
    have "dlist m1 ?B"
      using dl ok d unfolding m1_def dlist_def
      by (intro dseg_reattach_last [where b = 0]) (auto simp: True align_simps)
    then show ?thesis by (simp add: m'_def True dlist_def)
  next
    case False
    then show ?thesis
      using dlist_split [OF dl _ d False] ok by (simp add: m'_def m1_def)
  qed
  have gF: "gfree g = hd_or ?F 0" and gB: "gblack g = hd_or ?B (hd_or ?F 0)"
    and cnt: "black_scanned_count g + black_alloc_count g = int (length ?B)"
    using r(10,14) l(6) by simp_all
  have eq: "flip_group m g = Inr (m', g')"
  proof (cases "?F = []")
    case True
    have "glast g = last_or 0 ?B" using r(11) by (simp add: l True)
    then show ?thesis
      using True gF gB cnt z aB
      by (cases "?B") (auto simp: flip_group_def g'_def m'_def m1_def Let_def last_or_def)
  next
    case False
    have "glast g = last_or 0 ?F" using r(11) False by (simp add: l last_or_def)
    moreover have "get_prev m (hd ?F) = last_or 0 ?B"
      using dlist_split [OF dl _ d False] ok by simp
    moreover have "?B \<noteq> [] \<Longrightarrow> hd ?B \<noteq> hd ?F" using d False by (cases ?B; cases ?F) auto
    ultimately show ?thesis
      using False gF gB cnt z aB aF
      by (cases "?B"; cases "?F")
        (auto simp: flip_group_def g'_def m'_def m1_def Let_def last_or_def)
  qed
  have lo: "links_only (set (objects A)) m m'"
    using aB aF by (auto simp: m'_def m1_def l intro!: links_only_writes aligned_0)
  have col: "GET_COLOR m' q = GET_COLOR m q" if "aligned q" for q
    using that aB aF by (simp add: m'_def m1_def hdr_simps align_simps)
  define A' where "A' = a_flip A"
  have A': "whites A' = ?B" "grays A' = []" "blacks A' = []" "greens A' = ?F" "active A' = ?F"
    by (simp_all add: A'_def a_flip_def active_def l)
  have cB: "colored m' marked ?B" "colored m' GREEN ?F"
    using r(7,8) ok col by (auto simp: colored_def dest: headers_okD)
  have "group_rep unmarked marked m' g' A'"
    by (rule group_repI)
      (use ok d lists cB gF in \<open>simp_all add: A' objects_def g'_def black_pointer_ok_def\<close>)
  then have "marking_rep unmarked marked m' g' (a_flip A)"
    by (simp add: marking_rep_def A'_def [symmetric] A' g'_def)
  with eq lo show thesis using that by (simp add: g'_def)
qed

subsection \<open>Recycling the white list\<close>

lemma dlist_join:
  assumes "dlist m xs" and "dlist m ys" and "headers_ok (set (xs @ ys))" and "distinct (xs @ ys)"
    and "ys \<noteq> []"
  shows "dlist (set_prev (if xs \<noteq> [] then set_next m (last xs) (hd ys) else m)
                 (hd ys) (last_or 0 xs)) (xs @ ys)"
proof -
  let ?m1 = "if xs \<noteq> [] then set_next m (last xs) (hd ys) else m"
  have ok: "headers_ok (set xs)" "headers_ok (set ys)" using assms(3) by simp_all
  have y: "hd ys \<in> set ys" "aligned (hd ys)" using headers_ok_hd [OF ok(2) assms(5)] by simp_all
  have la: "aligned (last_or 0 xs)" using headers_ok_last_or [OF ok(1)] by (simp add: align_simps)
  have hx: "hd ys \<notin> set xs" using y assms(4) by auto
  have "dseg ?m1 0 xs (hd ys)"
    using assms(1,4) ok y by (intro dseg_reattach_last [where b = 0]) (auto simp: dlist_def)
  then have 1: "dseg (set_prev ?m1 (hd ys) (last_or 0 xs)) 0 xs (hd ys)"
    using ok y la hx by (simp add: hdr_simps)
  have "aligned (last xs) \<and> last xs \<notin> set ys" if "xs \<noteq> []"
    using headers_ok_last [OF ok(1) that] last_not_in [OF that, of ys] assms(4) by simp
  then have "dseg ?m1 0 ys 0"
    using assms(2) ok y by (auto simp: dlist_def hdr_simps)
  then have 2: "dseg (set_prev ?m1 (hd ys) (last_or 0 xs)) (last_or 0 xs) ys 0"
    using dseg_reattach_first [of ?m1 0 ys 0 "last_or 0 xs"] ok assms(4,5) la by simp
  show ?thesis using 1 2 assms(5) by (cases ys) (simp_all add: dlist_def)
qed

definition color_all :: "64 word \<Rightarrow> addr list \<Rightarrow> mem \<Rightarrow> mem" where
  "color_all c xs m = fold (\<lambda>x m. SET_COLOR m x c) xs m"

lemma color_all_simps [simp]:
  "color_all c [] m = m"
  "color_all c (x # xs) m = color_all c xs (SET_COLOR m x c)"
  by (simp_all add: color_all_def)

lemma after_color_all:
  assumes "headers_ok (set xs)" and "aligned q" and "two_bits c"
  shows "get_prev (color_all c xs m) q = get_prev m q"
    and "get_next (color_all c xs m) q = get_next m q"
    and "GET_STORAGE_CLASS (color_all c xs m) q = GET_STORAGE_CLASS m q"
    and "GET_COLOR (color_all c xs m) q = (if q \<in> set xs then c else GET_COLOR m q)"
  using assms by (induction xs arbitrary: m) (auto simp: hdr_simps)

lemma links_only_color_all:
  assumes "headers_ok S" and "set xs \<subseteq> S" and "two_bits c" and "links_only S m m'"
  shows "links_only S m (color_all c xs m')"
  using assms(2,4)
proof (induction xs arbitrary: m')
  case (Cons x xs)
  have "links_only S m (SET_COLOR m' x c)"
    using Cons.prems assms(1,3) by (auto intro!: links_only_writes dest: headers_okD)
  with Cons show ?case by simp
qed simp

lemma dseg_color_all:
  assumes "headers_ok (set xs)" and "headers_ok (set zs)" and "two_bits c"
  shows "dseg (color_all c zs m) a xs b = dseg m a xs b"
  using assms by (intro dseg_cong) (auto simp: after_color_all dest: headers_okD)

lemma recycle_loop_eq:
  assumes "dseg m a xs 0" and "headers_ok (set xs)" and "length xs < fuel"
  shows "recycle_loop fuel m (hd_or xs 0) l k =
    Inr (color_all GREEN xs m, last_or l xs, k + int (length xs))"
  using assms
proof (induction xs arbitrary: m a fuel l k)
  case Nil
  then show ?case by (cases fuel) simp_all
next
  case (Cons x xs)
  then obtain f where f: "fuel = Suc f" "length xs < f" by (cases fuel) auto
  have "dseg (SET_COLOR m x GREEN) x xs 0"
    using Cons.prems by (simp add: hdr_simps)
  from Cons.IH [OF this _ f(2)] Cons.prems show ?case
    by (simp add: f hdr_simps)
qed

text \<open>Once the whites are green they are appended to the list: the stores and the new group.\<close>

definition white_joined :: "agroup \<Rightarrow> mem \<Rightarrow> mem" where
  "white_joined A m = (if whites A = [] then m else
     (let m2 = set_next m (last (whites A)) 0;
          m3 = (if active A \<noteq> [] then set_next m2 (last (active A)) (hd (whites A)) else m2)
      in set_prev m3 (hd (whites A)) (last_or 0 (active A))))"

definition recycled_group :: "agroup \<Rightarrow> group_info \<Rightarrow> group_info" where
  "recycled_group A g = g\<lparr>gfree := hd_or (greens A @ whites A) 0, gblack := hd_or (active A @ whites A) 0,
     glast := last_or 0 (active A @ whites A), gwhite := 0, white_count := 0\<rparr>"

lemma recycle_result:
  assumes gr: "group_rep marked unmarked m g A" and ng: "grays A = []" and fuel: "length (whites A) < fuel"
  shows "recycle_group_garbage fuel m g =
    Inr (white_joined A (color_all GREEN (whites A) m), recycled_group A g)"
proof -
  let ?W = "whites A" and ?F = "greens A" and ?L = "active A"
  let ?m1 = "color_all GREEN ?W m"
  note r = group_repD [OF gr]
  have act: "?L = blacks A @ ?F" by (simp add: active_def ng)
  have ok: "headers_ok (set ?W)" "headers_ok (set ?F)" "headers_ok (set ?L)" and dW: "dlist m ?W"
    using r(1-4) by (auto simp: objects_def act)
  have loop: "recycle_loop fuel m (gwhite g) 0 0 = Inr (?m1, last_or 0 ?W, int (length ?W))"
    using recycle_loop_eq [of m 0 ?W fuel 0 0] dW ok(1) fuel r(9) by (simp add: dlist_def)
  have gp: "gfree g = hd_or ?F 0" "gblack g = hd_or ?L 0" "glast g = last_or 0 ?L"
      "gwhite g = hd_or ?W 0" "white_count g = int (length ?W)"
    using r(9-13) by (simp_all add: act ng black_pointer_ok_def)
  show ?thesis
  proof (cases "?W = []")
    case True
    then show ?thesis
      using gp loop by (simp add: recycle_group_garbage_def white_joined_def recycled_group_def)
  next
    case False
    define lW where "lW = last ?W"
    have "last ?W \<noteq> 0" using headers_ok_last [OF ok(1) False] by simp
    then have lW: "last_or 0 ?W = lW" "lW \<noteq> 0" "last ?W = lW" "hd ?W = gwhite g"
      using False gp by (simp_all add: lW_def last_or_def hd_or_def split: list.splits)
    have z: "gfree g = 0 \<longleftrightarrow> ?F = []" "gblack g = 0 \<longleftrightarrow> ?L = []" "glast g = 0 \<longleftrightarrow> ?L = []"
      unfolding gp
      by (rule hd_or_eq_default [OF headers_ok_not_0 [OF ok(2)]]
          hd_or_eq_default [OF headers_ok_not_0 [OF ok(3)]]
          last_or_eq_default [OF headers_ok_not_0 [OF ok(3)]])+
    have m4: "white_joined A ?m1 = set_prev (if ?L \<noteq> [] then set_next (set_next ?m1 lW 0) (glast g) (gwhite g)
        else set_next ?m1 lW 0) (gwhite g) (glast g)"
      using False by (simp add: white_joined_def lW gp(3) last_or_def Let_def)
    have g': "recycled_group A g = g\<lparr>gfree := (if ?F = [] then gwhite g else gfree g),
        gblack := (if ?L = [] then gwhite g else gblack g),
        glast := lW, gwhite := 0, white_count := 0\<rparr>"
      using False lW(1) gp by (cases "?F"; cases "?L")
        (simp_all add: recycled_group_def lW last_or_def hd_or_def split: list.splits)
    show ?thesis
      unfolding m4 g' recycle_group_garbage_def loop
      using z lW(2) by (cases "?L = []"; cases "?F = []") (simp_all add: lW(1) gp(5) Let_def)
  qed
qed

lemma white_joined_dlist:
  assumes "dlist m (whites A)" and "dlist m (active A)" and "distinct (active A @ whites A)"
    and "headers_ok (set (whites A))" and "headers_ok (set (active A))"
  shows "dlist (white_joined A m) (active A @ whites A)"
proof (cases "whites A = []")
  case True
  then show ?thesis using assms(2) by (simp add: white_joined_def)
next
  case False
  let ?W = "whites A" and ?L = "active A"
  have "dlist (set_next m (last ?W) 0) ?W"
    using dseg_reattach_last [of m 0 ?W 0 0] assms(1,3,4) False
    by (simp add: dlist_def align_simps)
  moreover have "dlist (set_next m (last ?W) 0) ?L"
  proof -
    have "last ?W \<notin> set ?L" using assms(3) last_not_in [OF False, of ?L] by auto
    then show ?thesis
      using assms(2,5) headers_ok_last [OF assms(4) False]
      unfolding dlist_def by (subst dseg_set_next_other) (auto simp: align_simps)
  qed
  ultimately show ?thesis
    using dlist_join [OF _ _ _ assms(3) False] assms(4,5) False by (simp add: white_joined_def Let_def)
qed

lemma white_joined_frame:
  assumes "headers_ok (set (whites A))" and "headers_ok (set (active A))"
  shows "links_only S m0 m \<Longrightarrow> set (whites A) \<union> set (active A) \<subseteq> S \<Longrightarrow> links_only S m0 (white_joined A m)"
    and "aligned q \<Longrightarrow> GET_COLOR (white_joined A m) q = GET_COLOR m q"
proof -
  let ?W = "whites A" and ?L = "active A"
  have W: "?W \<noteq> [] \<Longrightarrow> hd ?W \<in> set ?W \<and> hd ?W \<noteq> 0 \<and> aligned (hd ?W)"
      "?W \<noteq> [] \<Longrightarrow> last ?W \<in> set ?W \<and> last ?W \<noteq> 0 \<and> aligned (last ?W)"
    and L: "?L \<noteq> [] \<Longrightarrow> last ?L \<in> set ?L \<and> last ?L \<noteq> 0 \<and> aligned (last ?L)"
    using headers_ok_hd [OF assms(1)] headers_ok_last [OF assms(1)] headers_ok_last [OF assms(2)] by auto
  have alL: "aligned (last_or 0 ?L)" using headers_ok_last_or [OF assms(2)] by (simp add: align_simps)
  show "links_only S m0 m \<Longrightarrow> set ?W \<union> set ?L \<subseteq> S \<Longrightarrow> links_only S m0 (white_joined A m)"
    using W L alL by (auto simp: white_joined_def Let_def intro!: links_only_writes aligned_0)
  show "GET_COLOR (white_joined A m) q = GET_COLOR m q" if "aligned q"
    using that W L alL by (simp add: white_joined_def Let_def hdr_simps align_simps)
qed

lemma recycle_group_garbage_refines:
  assumes rep: "marking_rep marked unmarked m g A" and ng: "grays A = []"
    and c: "colors_ok marked unmarked" and fuel: "length (whites A) < fuel"
  obtains m' g' where "recycle_group_garbage fuel m g = Inr (m', g')"
    and "idle_rep marked unmarked m' g' (a_recycle A)"
    and "links_only (set (objects A)) m m'"
    and "gsize g' = gsize g" and "gindex g' = gindex g"
proof -
  let ?W = "whites A" and ?B = "blacks A" and ?F = "greens A" and ?L = "active A"
  let ?m1 = "color_all GREEN ?W m" and ?g' = "recycled_group A g"
  let ?m' = "white_joined A ?m1"
  have gr: "group_rep marked unmarked m g A" using rep by (simp add: marking_rep_def)
  note r = group_repD [OF gr]
  have act: "?L = ?B @ ?F" by (simp add: active_def ng)
  have ok: "headers_ok (set ?W)" "headers_ok (set ?B)" "headers_ok (set ?F)" "headers_ok (set ?L)"
    and d: "distinct (?L @ ?W)" and dW: "dlist m ?W" and dL: "dlist m ?L"
    using r(1-4) by (auto simp: objects_def act)
  have d1: "dlist ?m1 ?W" "dlist ?m1 ?L"
    using dW dL ok by (simp_all add: dlist_def dseg_color_all after_color_all)
  note join = white_joined_dlist [OF d1 d ok(1,4)]
  have "links_only (set (objects A)) m ?m1"
    using r(1) by (intro links_only_color_all) auto
  then have lo: "links_only (set (objects A)) m ?m'"
    by (rule white_joined_frame(1) [OF ok(1,4)]) (auto simp: objects_def)
  have col: "GET_COLOR ?m' q = (if q \<in> set ?W then GREEN else GET_COLOR m q)" if "aligned q" for q
    using that ok(1) by (simp add: white_joined_frame(2) [OF ok(1,4)] hdr_simps after_color_all)
  have A': "whites (a_recycle A) = []" "grays (a_recycle A) = []" "blacks (a_recycle A) = ?B"
      "greens (a_recycle A) = ?F @ ?W" "active (a_recycle A) = ?L @ ?W" "objects (a_recycle A) = ?L @ ?W"
    by (simp_all add: a_recycle_def active_def objects_def ng)
  have "x \<notin> set ?W" "aligned x" if "x \<in> set ?B" for x
    using that d ok(2) by (auto simp: act dest: headers_okD)
  then have cB: "colored ?m' marked ?B"
    using r(7) by (simp add: colored_def col)
  have "aligned x" if "x \<in> set (?F @ ?W)" for x
    using that ok(1,3) by (auto dest: headers_okD)
  then have cF: "colored ?m' GREEN (?F @ ?W)"
    using r(8) by (auto simp: colored_def col)
  have "group_rep marked unmarked ?m' ?g' (a_recycle A)"
    by (rule group_repI)
      (use ok d join cB cF r(14) act ng in \<open>simp_all add: A' recycled_group_def black_pointer_ok_def dlist_def\<close>)
  then have "idle_rep marked unmarked ?m' ?g' (a_recycle A)" by (simp add: idle_rep_def ng)
  with recycle_result [OF gr ng fuel] lo show thesis using that by (simp add: recycled_group_def)
qed

subsection \<open>Taking an object from the free list\<close>

lemma allocate_rep:
  assumes gr: "group_rep marked unmarked m g A" and ne: "greens A \<noteq> []"
    and c: "colors_ok marked unmarked"
    and r: "allocate_from_free_list marked m g = (m', g', x)"
  shows "x = hd (greens A)" and "group_rep marked unmarked m' g' (a_allocate A)"
    and "links_only (set (objects A)) m m'"
    and "active (a_allocate A) = active A" and "ggray g' = ggray g"
    and "gsize g' = gsize g" and "gindex g' = gindex g"
proof -
  obtain y F where F: "greens A = y # F" using ne by (cases "greens A") auto
  note R = group_repD [OF gr]
  have ok: "headers_ok (set (whites A))" "headers_ok (set (active A))" "headers_ok (set (grays A))"
      "headers_ok (set (blacks A))" "headers_ok (set F)" "aligned y"
    using R(1) by (simp_all add: F)
  have ys: "y \<notin> set (whites A)" "y \<notin> set (grays A)" "y \<notin> set (blacks A)" "y \<notin> set F"
    using R(2) by (auto simp: objects_def active_def F)
  have n: "get_next m y = hd_or F 0" using R(4) by (simp add: dlist_def active_def F)
  have gf: "gfree g = y" using R(10) by (simp add: F)
  show x: "x = hd (greens A)" using r by (simp add: allocate_from_free_list_def Let_def gf F)
  have m': "m' = SET_COLOR m y marked"
    and g': "g' = g\<lparr>gfree := hd_or F 0, black_alloc_count := black_alloc_count g + 1\<rparr>"
    using r by (auto simp: allocate_from_free_list_def Let_def gf n)
  have tb: "two_bits marked" using colors_okD [OF c] by simp
  define A' where "A' = a_allocate A"
  have A': "whites A' = whites A" "grays A' = grays A" "blacks A' = blacks A @ [y]"
      "greens A' = F" "active A' = active A" "objects A' = objects A"
    by (simp_all add: A'_def a_allocate_def active_def objects_def F)
  have col: "colored m' k zs = colored m k zs" if "headers_ok (set zs)" "y \<notin> set zs" for k zs
    unfolding m' using that ok(6) tb by (simp add: hdr_simps)
  have gy: "GET_COLOR m' y = marked" using ok(6) tb by (simp add: m' hdr_simps)
  show "group_rep marked unmarked m' g' (a_allocate A)"
    unfolding A'_def [symmetric]
  proof (rule group_repI)
    show "headers_ok (set (objects A'))" "distinct (objects A')"
      using R(1,2) by (simp_all only: A')
    show "dlist m' (whites A')" "dlist m' (active A')"
      using R(3,4) ok tb by (simp_all add: A' m' dlist_def hdr_simps)
    show "colored m' unmarked (whites A')" "colored m' GRAY (grays A')"
        "colored m' GREEN (greens A')" "colored m' marked (blacks A')"
      using R(5-8) ok ys gy by (simp_all add: A' col F)
  qed (use R(9-14) in \<open>simp_all add: A' g' black_pointer_ok_def F\<close>)
  show "links_only (set (objects A)) m m'"
    unfolding m' using ok(6) tb by (intro links_only_writes) (auto simp: F)
  show "active (a_allocate A) = active A" by (simp add: A'_def [symmetric] A')
  show "ggray g' = ggray g" "gsize g' = gsize g" "gindex g' = gindex g" by (simp_all add: g')
qed

lemma allocate_refines:
  assumes c: "colors_ok marked unmarked" and ne: "greens A \<noteq> []"
    and r: "allocate_from_free_list marked m g = (m', g', x)"
  shows "marking_rep marked unmarked m g A \<Longrightarrow> marking_rep marked unmarked m' g' (a_allocate A)"
    and "idle_rep marked unmarked m g A \<Longrightarrow> idle_rep marked unmarked m' g' (a_allocate A)"
proof -
  assume rep: "marking_rep marked unmarked m g A"
  then have gr: "group_rep marked unmarked m g A" by (simp add: marking_rep_def)
  from allocate_rep [OF gr ne c r] rep show "marking_rep marked unmarked m' g' (a_allocate A)"
    by (simp add: marking_rep_def)
next
  assume rep: "idle_rep marked unmarked m g A"
  then have gr: "group_rep marked unmarked m g A" by (simp add: idle_rep_def)
  from allocate_rep [OF gr ne c r] rep show "idle_rep marked unmarked m' g' (a_allocate A)"
    by (simp add: idle_rep_def)
qed

subsection \<open>Taking a free object out, for its page\<close>

lemma remove_object_refines:
  assumes rep: "idle_rep marked unmarked m g A" and x: "x \<in> set (greens A)"
    and r: "remove_object_from_free_list m g x = (m', g')"
  shows "idle_rep marked unmarked m' g' (a_remove_free x A)"
    and "links_only (set (objects A)) m m'"
    and "gsize g' = gsize g" and "gindex g' = gindex g"
proof -
  note l = idle_rep_lists [OF rep]
  note R = group_repD [OF l(1)]
  obtain us vs where F: "greens A = us @ x # vs" and xu: "x \<notin> set us"
    using x split_list_first by metis
  let ?B = "blacks A"
  have dl: "dlist m ((?B @ us) @ x # vs)" and d: "distinct ((?B @ us) @ x # vs)"
    and ok: "headers_ok (set ((?B @ us) @ x # vs))"
    using R(1,2,4) by (auto simp: l F)
  have p: "get_prev m x = last_or 0 (?B @ us)" and n: "get_next m x = hd_or vs 0"
    using dl by (simp_all add: dlist_def)
  have al: "aligned (get_prev m x)" "aligned (get_next m x)" by (simp_all add: align_simps)
  have m': "m' = unlink m (get_prev m x) (get_next m x)"
    using r by (simp add: remove_object_from_free_list_def Let_def)
  have dl': "dlist m' (?B @ us @ vs)"
    unfolding m' using dlist_unlink [OF dl d ok] by simp
  show lo: "links_only (set (objects A)) m m'"
    unfolding m' using R(1) last_or_cases [of "?B @ us" 0] hd_or_cases [of vs 0]
    by (intro links_only_unlink) (auto simp: p n F l)
  define A' where "A' = a_remove_free x A"
  have A': "whites A' = []" "grays A' = []" "blacks A' = ?B" "greens A' = us @ vs"
      "active A' = ?B @ us @ vs" "objects A' = ?B @ us @ vs"
    using xu by (simp_all add: A'_def a_remove_free_def active_def objects_def l F remove1_append)
  have n0: "hd_or vs 0 = 0 \<longleftrightarrow> vs = []"
    using ok headers_ok_not_0 by (intro hd_or_eq_default) auto
  have gp: "gfree g = hd_or us x" "gblack g = hd_or (?B @ us) x" "glast g = last_or x vs"
    using R(10,11) l(6) by (simp_all add: l F)
  have xs: "x \<notin> set (?B @ us)" "x \<notin> set vs" using d by auto
  have g': "g' = g\<lparr>gfree := hd_or (us @ vs) 0, gblack := hd_or (?B @ us @ vs) 0,
      glast := last_or 0 (?B @ us @ vs)\<rparr>"
  proof -
    have 1: "gfree g = x \<longleftrightarrow> us = []" using gp xs by (cases us) auto
    have 2: "gblack g = x \<longleftrightarrow> ?B @ us = []" using gp xs by (cases "?B @ us") auto
    have 3: "glast g = x \<longleftrightarrow> vs = []" using gp xs last_or_in_set [of vs x] by (cases vs) auto
    have f: "hd_or (us @ vs) 0 = (if x = gfree g then hd_or vs 0 else gfree g)"
      using 1 gp by (cases us) auto
    have b: "hd_or (?B @ us @ vs) 0 = (if x = gblack g then hd_or vs 0 else gblack g)"
      using 2 gp by (cases "?B"; cases us) auto
    have t: "last_or 0 (?B @ us @ vs) =
        (if x = glast g then (if hd_or vs 0 = 0 then last_or 0 (?B @ us) else hd_or vs 0) else glast g)"
      using 3 gp n0 by (cases vs) auto
    show ?thesis
      using r unfolding remove_object_from_free_list_def Let_def p n f b t
      by (cases g) auto
  qed
  have "group_rep marked unmarked m' g' A'"
  proof (rule group_repI)
    show "headers_ok (set (objects A'))" "distinct (objects A')" using ok d by (auto simp: A')
    show "dlist m' (whites A')" "dlist m' (active A')" using dl' by (simp_all add: A' dlist_def)
    have col: "colored m' k zs = colored m k zs" if "headers_ok (set zs)" for k zs
      unfolding m' using that al by (simp add: colored_unlink)
    show "colored m' marked (blacks A')" "colored m' GREEN (greens A')"
      using R(7,8) ok by (simp_all add: A' F col)
  qed (use R(9,13,14) in \<open>simp_all add: A' g' l black_pointer_ok_def\<close>)
  then show "idle_rep marked unmarked m' g' (a_remove_free x A)"
    by (simp add: idle_rep_def A'_def [symmetric] A')
  show "gsize g' = gsize g" "gindex g' = gindex g" by (simp_all add: g')
qed

subsection \<open>Linking the objects of new pages\<close>

declare init_objects.simps(2) [simp del]

primrec new_objects :: "nat \<Rightarrow> int \<Rightarrow> addr \<Rightarrow> addr list" where
  "new_objects 0 sz b = []"
| "new_objects (Suc n) sz b = b # new_objects n sz (b + word_of_int sz)"

lemma new_objects_eq_Nil [simp]: "new_objects n sz b = [] \<longleftrightarrow> n = 0"
  by (cases n) simp_all

lemma length_new_objects [simp]: "length (new_objects n sz b) = n"
  by (induction n arbitrary: b) simp_all

lemma new_objects_nth:
  "i < n \<Longrightarrow> new_objects n sz b ! i = b + of_nat i * word_of_int sz"
proof (induction n arbitrary: b i)
  case (Suc n)
  then show ?case by (cases i) (simp_all add: algebra_simps)
qed simp

text \<open>One step of the initialisation: the three stores to a header at once.\<close>

definition init_header :: "mem \<Rightarrow> addr \<Rightarrow> addr \<Rightarrow> addr \<Rightarrow> mem" where
  "init_header m x prev nxt = SET_COLOR (m(x := prev, x + 8 := nxt)) x GREEN"

lemma after_init_header:
  assumes "aligned x" and "aligned q" and "aligned prev" and "aligned nxt"
  shows "get_prev (init_header m x prev nxt) q = (if q = x then prev else get_prev m q)"
    and "get_next (init_header m x prev nxt) q = (if q = x then nxt else get_next m q)"
    and "GET_COLOR (init_header m x prev nxt) q = (if q = x then GREEN else GET_COLOR m q)"
    and "q \<noteq> x \<Longrightarrow> GET_STORAGE_CLASS (init_header m x prev nxt) q = GET_STORAGE_CLASS m q"
  using assms
  by (simp_all add: init_header_def hdr_simps align_simps)
    (simp_all add: hdr_defs hdr_simps align_simps)

lemma only_headers_init_header:
  "only_headers S m m' \<Longrightarrow> x \<in> S \<Longrightarrow> only_headers S m (init_header m' x prev nxt)"
  unfolding init_header_def
  by (intro only_headers_writes) (auto simp: only_headers_def header_cells_def)

lemma init_objects_Suc:
  "init_objects (Suc n) m sz cur x =
     init_objects n (init_header m x cur (x + word_of_int sz)) sz x (x + word_of_int sz)"
  by (simp add: init_objects.simps(2) init_header_def Let_def)

definition inits_to :: "mem \<Rightarrow> addr \<Rightarrow> addr list \<Rightarrow> mem \<Rightarrow> bool" where
  "inits_to m cur xs m' \<longleftrightarrow>
     (\<exists>e. aligned e \<and> dseg m' cur xs e) \<and> colored m' GREEN xs \<and> only_headers (set xs) m m' \<and>
     (\<forall>q. aligned q \<longrightarrow> q \<notin> set xs \<longrightarrow> GET_STORAGE_CLASS m' q = GET_STORAGE_CLASS m q)"

lemma inits_to_Nil [simp]: "inits_to m cur [] m"
  by (auto simp: inits_to_def intro: aligned_0)

lemma inits_to_Cons:
  assumes h: "headers_ok (set (x # xs))" "distinct (x # xs)" and cur: "aligned cur"
    and i: "inits_to (init_header m x cur nx) x xs m'" and nx: "hd_or xs nx = nx" "aligned nx"
  shows "inits_to m cur (x # xs) m'"
proof -
  let ?m = "init_header m x cur nx"
  from i obtain e where e: "aligned e" "dseg m' x xs e" and c: "colored m' GREEN xs"
    and oh: "only_headers (set xs) ?m m'"
    and sc: "\<And>q. aligned q \<Longrightarrow> q \<notin> set xs \<Longrightarrow> GET_STORAGE_CLASS m' q = GET_STORAGE_CLASS ?m q"
    by (auto simp: inits_to_def)
  have ok: "headers_ok (set xs)" "aligned x" "x \<notin> set xs" using h by auto
  note hx = only_headers_hdr [OF oh ok] after_init_header [OF ok(2) ok(2) cur nx(2)]
  let ?e = "if xs = [] then nx else e"
  have "dseg m' cur (x # xs) ?e" and "aligned ?e"
    using e hx nx by (cases xs; simp)+
  moreover have "colored m' GREEN (x # xs)" using c hx by simp
  moreover have "only_headers (set (x # xs)) m m'"
    by (rule only_headers_trans [of _ _ ?m])
      (auto intro: only_headers_init_header only_headers_mono [OF oh])
  moreover have "GET_STORAGE_CLASS m' q = GET_STORAGE_CLASS m q"
    if "aligned q" "q \<notin> set (x # xs)" for q
    using sc [of q] after_init_header(4) [OF ok(2) that(1) cur nx(2), of m] that by simp
  ultimately show ?thesis unfolding inits_to_def by blast
qed

lemma init_objects_inits:
  assumes "headers_ok (set (new_objects n sz b))" and "distinct (new_objects n sz b)"
    and "aligned cur" and "aligned b" and "aligned (word_of_int sz)"
    and "init_objects n m sz cur b = (m', l)"
  shows "l = last_or cur (new_objects n sz b) \<and> inits_to m cur (new_objects n sz b) m'"
  using assms
proof (induction n arbitrary: m cur b)
  case 0
  then show ?case by simp
next
  case (Suc n)
  let ?b = "b + word_of_int sz" and ?xs = "new_objects n sz (b + word_of_int sz)"
  have r: "init_objects n (init_header m b cur ?b) sz b ?b = (m', l)"
    using Suc.prems(6) by (simp only: init_objects_Suc)
  have b: "aligned ?b" using Suc.prems(4,5) by (rule aligned_add)
  have ih: "l = last_or b ?xs \<and> inits_to (init_header m b cur ?b) b ?xs m'"
    using Suc.prems(1,2) by (intro Suc.IH [OF _ _ Suc.prems(4) b Suc.prems(5) r]) simp_all
  have n: "hd_or ?xs ?b = ?b" by (cases n) simp_all
  show ?case
    using ih inits_to_Cons [OF _ _ Suc.prems(3) _ n b] Suc.prems(1,2) by simp
qed

lemma set_next_set_prev_commute:
  "aligned p \<Longrightarrow> aligned q \<Longrightarrow>
   set_next (set_prev m p v) q w = set_prev (set_next m q w) p v"
  using aligned_neq_plus_8 [of p q] by (auto simp: hdr_defs fun_upd_twist)

text \<open>
  The chain of new objects, detached at its end, is appended to the list of the group: the
  memory after it and what it leaves alone.
\<close>

definition chain_joined :: "addr list \<Rightarrow> addr list \<Rightarrow> mem \<Rightarrow> mem" where
  "chain_joined L xs m =
    (if L = [] then set_next m (last xs) 0
     else set_prev (set_next (set_next m (last xs) 0) (last L) (hd xs)) (hd xs) (last L))"

lemma link_new_objects_eq:
  assumes gr: "group_rep marked unmarked m g A" and F: "greens A = []" and n: "0 < n"
    and xs: "xs = new_objects n (gsize g) base" and b: "aligned base"
    and r: "init_objects n m (gsize g) 0 base = (m1, last xs)"
  shows "link_new_objects m g base n = Inr (chain_joined (active A) xs m1,
    g\<lparr>gfree := base, gblack := (if active A = [] then base else gblack g), glast := last xs\<rparr>)"
proof -
  let ?L = "active A"
  note R = group_repD [OF gr]
  have hd: "hd xs = base" using n by (auto simp: xs gr0_conv_Suc)
  have ok: "headers_ok (set ?L)" using R(1) by simp
  have g0: "gfree g = 0" and gl: "glast g = last_or 0 ?L" using R(10,11) F by simp_all
  have l0: "glast g = 0 \<longleftrightarrow> ?L = []"
    unfolding gl by (rule last_or_eq_default [OF headers_ok_not_0 [OF ok]])
  have "set_next (set_prev m2 base (last ?L)) (last ?L) base = set_prev (set_next m2 (last ?L) base) base (last ?L)"
    if "?L \<noteq> []" for m2
    using headers_ok_last [OF ok that] b by (intro set_next_set_prev_commute) simp_all
  then show ?thesis
    using r g0 l0 gl by (cases "?L = []") (simp_all add: link_new_objects_def chain_joined_def hd last_or_def Let_def)
qed

lemma chain_joined_dlist:
  assumes e: "dseg m 0 xs e" and L: "dlist m L" and ne: "xs \<noteq> []"
    and ok: "headers_ok (set xs)" "headers_ok (set L)" and d: "distinct (L @ xs)"
  shows "dlist (chain_joined L xs m) (L @ xs)"
proof -
  let ?m2 = "set_next m (last xs) 0"
  have lx: "last xs \<in> set xs" "aligned (last xs)" using headers_ok_last [OF ok(1) ne] by simp_all
  have d2: "dlist ?m2 xs"
    using dseg_reattach_last [OF e ok(1) _ aligned_0] d ne by (simp add: dlist_def)
  have "last xs \<notin> set L" using d lx(1) by auto
  then have "dlist ?m2 L"
    using L ok(2) lx unfolding dlist_def by (subst dseg_set_next_other) (auto simp: align_simps)
  then have "L \<noteq> [] \<Longrightarrow> dlist (set_prev (if L \<noteq> [] then set_next ?m2 (last L) (hd xs) else ?m2) (hd xs) (last_or 0 L)) (L @ xs)"
    using dlist_join [OF _ d2 _ d ne] ok d by simp
  then show ?thesis using d2 by (cases "L = []") (simp_all add: chain_joined_def last_or_def)
qed

lemma chain_joined_frame:
  assumes ok: "headers_ok (set xs)" "headers_ok (set L)" and ne: "xs \<noteq> []"
  shows "only_headers (set L \<union> set xs) m (chain_joined L xs m)"
    and "aligned q \<Longrightarrow> GET_COLOR (chain_joined L xs m) q = GET_COLOR m q"
    and "aligned q \<Longrightarrow> GET_STORAGE_CLASS (chain_joined L xs m) q = GET_STORAGE_CLASS m q"
proof -
  have x: "last xs \<in> set xs" "last xs \<noteq> 0" "aligned (last xs)" "hd xs \<in> set xs" "hd xs \<noteq> 0" "aligned (hd xs)"
    using headers_ok_last [OF ok(1) ne] headers_ok_hd [OF ok(1) ne] ne by simp_all
  have L: "L \<noteq> [] \<Longrightarrow> last L \<in> set L \<and> last L \<noteq> 0 \<and> aligned (last L)" using headers_ok_last [OF ok(2)] by simp
  show "only_headers (set L \<union> set xs) m (chain_joined L xs m)"
    using x L by (auto simp: chain_joined_def intro!: only_headers_writes)
  show "GET_COLOR (chain_joined L xs m) q = GET_COLOR m q"
    "GET_STORAGE_CLASS (chain_joined L xs m) q = GET_STORAGE_CLASS m q" if "aligned q"
    using that x L by (auto simp: chain_joined_def hdr_simps align_simps)
qed

lemma link_new_objects_rep:
  assumes gr: "group_rep marked unmarked m g A" and F: "greens A = []" and n: "0 < n"
    and new: "headers_ok (set xs)" "distinct xs" "set xs \<inter> set (objects A) = {}"
    and sz: "aligned (word_of_int (gsize g))"
    and xs: "xs = new_objects n (gsize g) base"
  obtains m' g' where "link_new_objects m g base n = Inr (m', g')"
    and "group_rep marked unmarked m' g' (a_add_free xs A)"
    and "only_headers (set (objects A) \<union> set xs) m m'"
    and "\<And>q. aligned q \<Longrightarrow> q \<notin> set xs \<Longrightarrow> GET_STORAGE_CLASS m' q = GET_STORAGE_CLASS m q"
    and "ggray g' = ggray g" and "gsize g' = gsize g" and "gindex g' = gindex g"
proof -
  let ?L = "active A"
  note R = group_repD [OF gr]
  have ne: "xs \<noteq> []" and hd: "hd xs = base" using n by (auto simp: xs gr0_conv_Suc)
  have b: "aligned base" using headers_ok_hd [OF new(1) ne] by (simp add: hd)
  obtain m1 l where r: "init_objects n m (gsize g) 0 base = (m1, l)" by fastforce
  have i: "l = last xs" "inits_to m 0 xs m1"
    using init_objects_inits [OF _ _ aligned_0 b sz r] new(1,2) ne
    by (simp_all add: xs last_or_def)
  from i(2) obtain e where e: "dseg m1 0 xs e" and c1: "colored m1 GREEN xs"
    and oh1: "only_headers (set xs) m m1"
    and sc1: "\<And>q. aligned q \<Longrightarrow> q \<notin> set xs \<Longrightarrow> GET_STORAGE_CLASS m1 q = GET_STORAGE_CLASS m q"
    by (auto simp: inits_to_def)
  let ?m' = "chain_joined ?L xs m1"
  let ?g' = "g\<lparr>gfree := base, gblack := (if ?L = [] then base else gblack g), glast := last xs\<rparr>"
  note eq = link_new_objects_eq [OF gr F n xs b r [unfolded i(1)]]
  have okA: "headers_ok (set ?L)" "headers_ok (set (whites A))" "headers_ok (set (grays A))"
      "headers_ok (set (blacks A))" "headers_ok (set (objects A))"
    using R(1) by simp_all
  have sep: "set ?L \<inter> set xs = {}" "set (whites A) \<inter> set xs = {}" using new(3) by auto
  have d1: "dlist m1 ?L" "dlist m1 (whites A)"
    using R(3,4) only_headers_dseg [OF oh1 new(1)] okA sep by (simp_all add: dlist_def)
  have join: "dlist ?m' (?L @ xs)"
    by (rule chain_joined_dlist [OF e d1(1) ne new(1) okA(1)]) (use R(2) new sep in \<open>auto simp: objects_def\<close>)
  note fr = chain_joined_frame [OF new(1) okA(1) ne, where m = m1]
  have oh: "only_headers (set (objects A) \<union> set xs) m ?m'"
    by (rule only_headers_trans [OF only_headers_mono [OF oh1] only_headers_mono [OF fr(1)]]) auto
  have cold: "colored ?m' k zs = colored m k zs" if "headers_ok (set zs)" "set xs \<inter> set zs = {}" for k zs
  proof (rule colored_cong)
    fix x assume "x \<in> set zs"
    then have "aligned x" "x \<notin> set xs" using that by (auto dest: headers_okD)
    then show "GET_COLOR ?m' x = GET_COLOR m x"
      using fr(2) only_headers_hdr(3) [OF oh1 new(1)] by simp
  qed
  have cnew: "colored ?m' GREEN xs"
    using c1 new(1) fr(2) by (auto simp: colored_def dest: headers_okD)
  have dW: "dlist ?m' (whites A)"
    using only_headers_dseg [OF fr(1), of "whites A" 0 0] d1(2) okA new R(2)
    by (auto simp: dlist_def objects_def)
  have A': "whites (a_add_free xs A) = whites A" "grays (a_add_free xs A) = grays A"
      "blacks (a_add_free xs A) = blacks A" "greens (a_add_free xs A) = xs" "active (a_add_free xs A) = ?L @ xs"
    by (simp_all add: a_add_free_def active_def F)
  have rep': "group_rep marked unmarked ?m' ?g' (a_add_free xs A)"
  proof (rule group_repI)
    show "headers_ok (set (objects (a_add_free xs A)))" using okA new by (simp add: F)
    show "distinct (objects (a_add_free xs A))" using R(2) new by (auto simp: objects_def A' active_def F)
    show "dlist ?m' (whites (a_add_free xs A))" "dlist ?m' (active (a_add_free xs A))"
      unfolding A' by (rule dW join)+
    show "colored ?m' unmarked (whites (a_add_free xs A))" "colored ?m' GRAY (grays (a_add_free xs A))"
        "colored ?m' marked (blacks (a_add_free xs A))" "colored ?m' GREEN (greens (a_add_free xs A))"
      unfolding A' using R(5-7) okA new(3) cnew
      by (simp_all add: cold Int_Un_distrib Int_Un_distrib2 Int_commute)
    show "glast ?g' = last_or 0 (active (a_add_free xs A))" unfolding A' using ne by (simp add: last_or_def)
    show "gfree ?g' = hd_or (greens (a_add_free xs A)) 0" unfolding A' using ne hd by (cases xs) simp_all
    show "black_pointer_ok ?g' (a_add_free xs A)"
      using R(12) ne hd by (cases xs; cases "blacks A"; cases "grays A")
        (auto simp: black_pointer_ok_def active_def F last_or_def)
  qed (use R(9,13,14) in simp_all)
  have sc: "GET_STORAGE_CLASS ?m' q = GET_STORAGE_CLASS m q" if "aligned q" "q \<notin> set xs" for q
    using fr(3) sc1 that by simp
  show thesis by (rule that [OF eq rep' oh sc]) simp_all
qed

end
