(* ===== verification/Heap_Shape.thy ===== *)
theory Heap_Shape
  imports Group_Refine
begin

text \<open>
  Objects on pages. The first part is how the collector gets from a possibly interior
  pointer to the header of an object (interior_to_gcptr, interior_to_gcptr_3 and
  valid_interior_ptr of rtgc.c). The second part is the invariant of the whole heap: every
  group represents its four lists, the objects of all groups are disjoint blocks of the
  partition, and the page table leads from any address on a page of a group to an object
  that is on that group's lists.
\<close>

subsection \<open>From a pointer to an object\<close>

text \<open>
  \<open>delta\<close> is a long, but the bound is a sum with a \<open>sizeof\<close>, so the comparison is made in
  unsigned longs: a negative distance is not valid.
\<close>

definition valid_interior_ptr :: "addr \<Rightarrow> addr \<Rightarrow> bool" where
  "valid_interior_ptr gcptr interior_ptr \<longleftrightarrow>
     interior_ptr - gcptr < word_of_int (INTERIOR_PTR_RETENTION_LIMIT + SIZEOF_GC_HEADER)"

definition interior_to_gcptr_3 :: "addr \<Rightarrow> page_info \<Rightarrow> group_info \<Rightarrow> addr" where
  "interior_to_gcptr_3 ptr page g =
     (if BYTES_PER_PAGE \<le> gsize g then pbase page
      else ptr AND push_bit (gindex g) (- 1))"

definition interior_to_gcptr :: "rt_state \<Rightarrow> addr \<Rightarrow> rt_error + addr" where
  "interior_to_gcptr s ptr =
     (let page = pages s (PTR_TO_PAGE_INDEX s ptr)
      in case pgroup page of
           Group i \<Rightarrow>
             Inr (if BYTES_PER_PAGE \<le> gsize (groups s i) then pbase page
                  else ptr AND push_bit (gindex (groups s i)) (- 1))
         | _ \<Rightarrow> Inl (Debugger ''ERROR! Found IN_HEAP pointer with NULL group!''))"

text \<open>The object a word may refer to: the test every conservative scan makes of a word.\<close>

definition ptr_object :: "rt_state \<Rightarrow> addr \<Rightarrow> addr option" where
  "ptr_object s ptr =
     (if IN_PARTITION s ptr then
        (let page = pages s (PTR_TO_PAGE_INDEX s ptr)
         in case pgroup page of
              Group i \<Rightarrow>
                (let gcptr = interior_to_gcptr_3 ptr page (groups s i)
                 in if valid_interior_ptr gcptr ptr then Some gcptr else None)
            | _ \<Rightarrow> None)
      else None)"

lemma interior_to_gcptr_eq:
  "pgroup (pages s (PTR_TO_PAGE_INDEX s ptr)) = Group i \<Longrightarrow>
   interior_to_gcptr s ptr =
     Inr (interior_to_gcptr_3 ptr (pages s (PTR_TO_PAGE_INDEX s ptr)) (groups s i))"
  by (simp add: interior_to_gcptr_def interior_to_gcptr_3_def Let_def)

subsection \<open>The heap invariant\<close>

definition group_indices :: "nat set" where
  "group_indices = {MIN_GROUP_INDEX..MAX_GROUP_INDEX}"

definition geometry :: "rt_state \<Rightarrow> (nat \<Rightarrow> addr set) \<Rightarrow> bool" where
  "geometry s Ob \<longleftrightarrow>
     (\<forall>i\<in>group_indices. \<forall>x\<in>Ob i. IN_PARTITION s x \<and> PTR_TO_GROUP s x = Group i \<and>
        uint x + 2 ^ i \<le> uint (last_partition_ptr s)) \<and>
     (\<forall>p i. IN_PARTITION s p \<longrightarrow> PTR_TO_GROUP s p = Group i \<longrightarrow>
        i \<in> group_indices \<and>
        interior_to_gcptr_3 p (pages s (PTR_TO_PAGE_INDEX s p)) (groups s i) \<in> Ob i) \<and>
     (\<forall>i\<in>group_indices. \<forall>j\<in>group_indices. \<forall>x\<in>Ob i. \<forall>y\<in>Ob j.
        x \<noteq> y \<longrightarrow> uint x + 2 ^ i \<le> uint y \<or> uint y + 2 ^ j \<le> uint x)"

definition groups_ok :: "rt_state \<Rightarrow> bool" where
  "groups_ok s \<longleftrightarrow>
     (\<forall>i\<in>group_indices. gsize (groups s i) = 2 ^ i \<and> gindex (groups s i) = i)"

type_synonym group_pred = "64 word \<Rightarrow> 64 word \<Rightarrow> mem \<Rightarrow> group_info \<Rightarrow> agroup \<Rightarrow> bool"

definition object_set :: "(nat \<Rightarrow> agroup) \<Rightarrow> nat \<Rightarrow> addr set" where
  "object_set A i = set (objects (A i))"

definition all_objects :: "(nat \<Rightarrow> agroup) \<Rightarrow> addr set" where
  "all_objects A = (\<Union>i\<in>group_indices. object_set A i)"

definition heap_rep :: "(nat \<Rightarrow> group_pred) \<Rightarrow> rt_state \<Rightarrow> (nat \<Rightarrow> agroup) \<Rightarrow> bool" where
  "heap_rep P s A \<longleftrightarrow>
     layout_ok s \<and> colors_ok (marked_color s) (unmarked_color s) \<and> groups_ok s \<and>
     geometry s (object_set A) \<and>
     (\<forall>i\<in>group_indices.
        P i (marked_color s) (unmarked_color s) (memory s) (groups s i) (A i))"

text \<open>
  What a step of the collector leaves alone: everything but memory and the groups, and in
  memory everything but the links of objects.
\<close>

definition gc_frame :: "addr set \<Rightarrow> rt_state \<Rightarrow> rt_state \<Rightarrow> bool" where
  "gc_frame S s s' \<longleftrightarrow>
     links_only S (memory s) (memory s') \<and>
     (\<forall>i. gsize (groups s' i) = gsize (groups s i) \<and> gindex (groups s' i) = gindex (groups s i)) \<and>
     s' = s\<lparr>memory := memory s', groups := groups s'\<rparr>"

lemma gc_frame_refl [simp]: "gc_frame S s s"
  by (simp add: gc_frame_def)

lemma gc_frame_trans:
  assumes "gc_frame S s s'" and "gc_frame S s' s''"
  shows "gc_frame S s s''"
proof -
  have e: "s' = s\<lparr>memory := memory s', groups := groups s'\<rparr>"
      "s'' = s'\<lparr>memory := memory s'', groups := groups s''\<rparr>"
    using assms by (simp_all add: gc_frame_def)
  have "s'' = s\<lparr>memory := memory s'', groups := groups s''\<rparr>"
    by (subst e(2), subst e(1)) simp
  then show ?thesis
    using assms links_only_trans unfolding gc_frame_def by (metis (no_types))
qed

lemma gc_frame_mono: "gc_frame S s s' \<Longrightarrow> S \<subseteq> T \<Longrightarrow> gc_frame T s s'"
  by (auto simp: gc_frame_def intro: links_only_mono)

lemma gc_frame_fields:
  assumes "gc_frame S s s'"
  shows "first_partition_ptr s' = first_partition_ptr s" "last_partition_ptr s' = last_partition_ptr s"
    "total_partition_pages s' = total_partition_pages s" "pages s' = pages s"
    "marked_color s' = marked_color s" "unmarked_color s' = unmarked_color s"
    "gsize (groups s' i) = gsize (groups s i)" "gindex (groups s' i) = gindex (groups s i)"
    "enable_write_barrier s' = enable_write_barrier s" "gc_count s' = gc_count s"
    "global_roots s' = global_roots s" "saved_threads s' = saved_threads s"
    "total_saved_threads s' = total_saved_threads s"
    "saved_no_write_barrier_state s' = saved_no_write_barrier_state s"
    "first_static_ptr s' = first_static_ptr s" "static_frontier_ptr s' = static_frontier_ptr s"
    "RTwrite_vector s' = RTwrite_vector s" "RTwrite_vector_length s' = RTwrite_vector_length s"
proof -
  have e: "s' = s\<lparr>memory := memory s', groups := groups s'\<rparr>"
    using assms by (simp add: gc_frame_def)
  show "first_partition_ptr s' = first_partition_ptr s" "last_partition_ptr s' = last_partition_ptr s"
    "total_partition_pages s' = total_partition_pages s" "pages s' = pages s"
    "marked_color s' = marked_color s" "unmarked_color s' = unmarked_color s"
    "enable_write_barrier s' = enable_write_barrier s" "gc_count s' = gc_count s"
    "global_roots s' = global_roots s" "saved_threads s' = saved_threads s"
    "total_saved_threads s' = total_saved_threads s"
    "saved_no_write_barrier_state s' = saved_no_write_barrier_state s"
    "first_static_ptr s' = first_static_ptr s" "static_frontier_ptr s' = static_frontier_ptr s"
    "RTwrite_vector s' = RTwrite_vector s" "RTwrite_vector_length s' = RTwrite_vector_length s"
    by (subst e, simp)+
  show "gsize (groups s' i) = gsize (groups s i)" "gindex (groups s' i) = gindex (groups s i)"
    using assms by (simp_all add: gc_frame_def)
qed

lemma page_macros_frame:
  assumes "gc_frame S s s'"
  shows "IN_PARTITION s' p = IN_PARTITION s p" "PTR_TO_PAGE_INDEX s' p = PTR_TO_PAGE_INDEX s p"
    "PTR_TO_GROUP s' p = PTR_TO_GROUP s p" "IN_HEAP s' p = IN_HEAP s p"
    "layout_ok s' = layout_ok s" "groups_ok s' = groups_ok s"
    "interior_to_gcptr_3 p page (groups s' i) = interior_to_gcptr_3 p page (groups s i)"
  using gc_frame_fields [OF assms]
  by (simp_all add: IN_PARTITION_def PTR_TO_PAGE_INDEX_def PTR_TO_GROUP_def IN_HEAP_def
      PAGE_GROUP_def layout_ok_def groups_ok_def interior_to_gcptr_3_def)

lemma ptr_object_frame: "gc_frame S s s' \<Longrightarrow> ptr_object s' p = ptr_object s p"
  using gc_frame_fields [of S s s'] page_macros_frame [of S s s']
  by (simp add: ptr_object_def Let_def cong: gptr.case_cong)

lemma geometry_frame: "gc_frame S s s' \<Longrightarrow> geometry s' Ob = geometry s Ob"
  using gc_frame_fields [of S s s'] page_macros_frame [of S s s']
  by (simp add: geometry_def)

subsection \<open>Changing one group of the heap\<close>

definition on_group ::
    "nat \<Rightarrow> (mem \<Rightarrow> group_info \<Rightarrow> rt_error + mem \<times> group_info) \<Rightarrow> rt_state \<Rightarrow> rt_error + rt_state" where
  "on_group i f s =
     rbind (f (memory s) (groups s i)) (\<lambda>(m, g).
       Inr (s\<lparr>memory := m, groups := (groups s)(i := g)\<rparr>))"

text \<open>The two representations, and what the lifting below needs of them.\<close>

definition framed_pred :: "group_pred \<Rightarrow> bool" where
  "framed_pred P \<longleftrightarrow>
     (\<forall>mk um m g a. P mk um m g a \<longrightarrow> headers_ok (set (objects a)) \<and> distinct (objects a)) \<and>
     (\<forall>mk um m m' g a S. links_only S m m' \<longrightarrow> headers_ok S \<longrightarrow> set (objects a) \<inter> S = {} \<longrightarrow>
        P mk um m g a \<longrightarrow> P mk um m' g a)"

lemma framed_marking_rep: "framed_pred marking_rep"
  unfolding framed_pred_def
proof (intro conjI allI impI)
  fix mk um m g a assume "marking_rep mk um m g a"
  then show "headers_ok (set (objects a))" "distinct (objects a)"
    using group_repD(1,2) unfolding marking_rep_def by blast+
qed (rule marking_rep_frame)

lemma framed_idle_rep: "framed_pred idle_rep"
  unfolding framed_pred_def
proof (intro conjI allI impI)
  fix mk um m g a assume "idle_rep mk um m g a"
  then show "headers_ok (set (objects a))" "distinct (objects a)"
    using group_repD(1,2) unfolding idle_rep_def by blast+
qed (rule idle_rep_frame)

lemma heap_repD:
  assumes "heap_rep P s A"
  shows "layout_ok s" "colors_ok (marked_color s) (unmarked_color s)" "groups_ok s"
    "geometry s (object_set A)"
    "i \<in> group_indices \<Longrightarrow> P i (marked_color s) (unmarked_color s) (memory s) (groups s i) (A i)"
  using assms by (auto simp: heap_rep_def)

lemma geometryD:
  assumes "geometry s Ob"
  shows "i \<in> group_indices \<Longrightarrow> x \<in> Ob i \<Longrightarrow> IN_PARTITION s x"
    and "i \<in> group_indices \<Longrightarrow> x \<in> Ob i \<Longrightarrow> PTR_TO_GROUP s x = Group i"
    and "i \<in> group_indices \<Longrightarrow> x \<in> Ob i \<Longrightarrow> uint x + 2 ^ i \<le> uint (last_partition_ptr s)"
    and "IN_PARTITION s p \<Longrightarrow> PTR_TO_GROUP s p = Group i \<Longrightarrow> i \<in> group_indices"
    and "IN_PARTITION s p \<Longrightarrow> PTR_TO_GROUP s p = Group i \<Longrightarrow>
      interior_to_gcptr_3 p (pages s (PTR_TO_PAGE_INDEX s p)) (groups s i) \<in> Ob i"
    and "i \<in> group_indices \<Longrightarrow> j \<in> group_indices \<Longrightarrow> x \<in> Ob i \<Longrightarrow> y \<in> Ob j \<Longrightarrow> x \<noteq> y \<Longrightarrow>
      uint x + 2 ^ i \<le> uint y \<or> uint y + 2 ^ j \<le> uint x"
  using assms unfolding geometry_def by blast+

lemma geometry_group_unique:
  assumes "geometry s Ob" and "i \<in> group_indices" and "j \<in> group_indices"
    and "x \<in> Ob i" and "x \<in> Ob j"
  shows "i = j"
  using geometryD(2) [OF assms(1,2,4)] geometryD(2) [OF assms(1,3,5)] by simp

lemma heap_rep_headers_ok:
  assumes "heap_rep P s A" and "\<And>i. framed_pred (P i)"
  shows "i \<in> group_indices \<Longrightarrow> headers_ok (object_set A i)" and "headers_ok (all_objects A)"
proof -
  have *: "headers_ok (object_set A i)" if "i \<in> group_indices" for i
    using heap_repD(5) [OF assms(1) that] assms(2) [of i]
    unfolding framed_pred_def object_set_def by blast
  then show "i \<in> group_indices \<Longrightarrow> headers_ok (object_set A i)" .
  show "headers_ok (all_objects A)"
    using * by (auto simp: headers_ok_def all_objects_def)
qed

lemma on_group_refines:
  assumes rep: "heap_rep P s A" and fr: "\<And>i. framed_pred (P i)" and i: "i \<in> group_indices"
    and f: "f (memory s) (groups s i) = Inr (m', g')"
    and a': "Q (marked_color s) (unmarked_color s) m' g' a'"
    and ob: "set (objects a') = set (objects (A i))"
    and lo: "links_only (set (objects (A i))) (memory s) m'"
    and sz: "gsize g' = gsize (groups s i)" "gindex g' = gindex (groups s i)"
  obtains s' where "on_group i f s = Inr s'" and "heap_rep (P(i := Q)) s' (A(i := a'))"
    and "gc_frame (object_set A i) s s'"
    and "memory s' = m'" and "groups s' = (groups s)(i := g')"
proof -
  define s' where "s' = s\<lparr>memory := m', groups := (groups s)(i := g')\<rparr>"
  have eq: "on_group i f s = Inr s'" by (simp add: on_group_def f s'_def)
  have gf: "gc_frame (object_set A i) s s'"
    using lo sz by (simp add: gc_frame_def s'_def object_set_def)
  have os: "object_set (A(i := a')) = object_set A"
    using ob by (auto simp: object_set_def fun_eq_iff)
  note h = heap_repD [OF rep]
  have oki: "headers_ok (object_set A i)" by (rule heap_rep_headers_ok(1) [OF rep fr i])
  have "(P(i := Q)) j (marked_color s') (unmarked_color s') (memory s') (groups s' j) ((A(i := a')) j)"
    if j: "j \<in> group_indices" for j
  proof (cases "j = i")
    case True
    then show ?thesis using a' by (simp add: s'_def)
  next
    case False
    have "object_set A j \<inter> object_set A i = {}"
      using geometry_group_unique [OF h(4) j i] False by blast
    then have "P j (marked_color s) (unmarked_color s) m' (groups s j) (A j)"
      using fr [of j] h(5) [OF j] lo oki unfolding framed_pred_def object_set_def by blast
    then show ?thesis using False by (simp add: s'_def)
  qed
  moreover have "layout_ok s'" "groups_ok s'" "geometry s' (object_set (A(i := a')))"
    using h(1,3,4) page_macros_frame [OF gf] geometry_frame [OF gf] by (simp_all add: os)
  moreover have "colors_ok (marked_color s') (unmarked_color s')"
    using h(2) by (simp add: s'_def)
  ultimately have "heap_rep (P(i := Q)) s' (A(i := a'))" by (simp add: heap_rep_def)
  then show thesis using that eq gf by (simp add: s'_def)
qed

end
