(* ===== verification/Trace.thy ===== *)
theory Trace
  imports Heap_Shape "HOL-Library.Signed_Division"
begin

text \<open>
  Tracing possible pointers (rtgc.c): a word that may point into an object makes that
  object gray if it is white. The scanners read words and trace them; an object is scanned
  by its storage class. Every loop reads its words from the memory of the moment, while
  tracing rewrites headers; the lemmas show that under the heap invariant nothing stops,
  and that a scan acts on the groups' lists as tracing one after the other the words that
  were in memory before it.

  A custom scanner is a C function registered by the client. It is represented by the
  words it passes to RTtrace_pointer, a function of memory and of the bounds it is given.
\<close>

subsection \<open>Tracing one pointer\<close>

definition RTmake_object_gray :: "addr \<Rightarrow> rt_state \<Rightarrow> rt_error + rt_state" where
  "RTmake_object_gray current s =
     (case PTR_TO_GROUP s current of
        Group i \<Rightarrow> on_group i (\<lambda>m g. make_object_gray (unmarked_color s) m g current) s
      | _ \<Rightarrow> Inl Wild_access)"

definition RTtrace_pointer :: "addr \<Rightarrow> rt_state \<Rightarrow> rt_error + rt_state" where
  "RTtrace_pointer ptr s =
     (if IN_PARTITION s ptr then
        (let page = pages s (PTR_TO_PAGE_INDEX s ptr)
         in case pgroup page of
              Group i \<Rightarrow>
                (let gcptr = interior_to_gcptr_3 ptr page (groups s i)
                 in if WHITEP (unmarked_color s) (memory s) gcptr \<and> valid_interior_ptr gcptr ptr
                    then RTmake_object_gray gcptr s
                    else Inr s)
            | _ \<Rightarrow> Inr s)
      else Inr s)"

definition RTtrace_heap_pointer :: "addr \<Rightarrow> rt_state \<Rightarrow> rt_error + rt_state" where
  "RTtrace_heap_pointer ptr s =
     rbind (interior_to_gcptr s ptr) (\<lambda>gcptr.
       if WHITEP (unmarked_color s) (memory s) gcptr then RTmake_object_gray gcptr s else Inr s)"

subsection \<open>Scanning memory\<close>

fun scan_segment_loop :: "nat \<Rightarrow> addr \<Rightarrow> addr \<Rightarrow> rt_state \<Rightarrow> rt_error + rt_state" where
  "scan_segment_loop 0 nxt high s = Inl Out_of_fuel"
| "scan_segment_loop (Suc fuel) nxt high s =
     (if nxt < high then
        rbind (RTtrace_pointer (memory s nxt) s)
          (scan_segment_loop fuel (nxt + GC_POINTER_ALIGNMENT) high)
      else Inr s)"

definition scan_memory_segment :: "addr \<Rightarrow> addr \<Rightarrow> rt_state \<Rightarrow> rt_error + rt_state" where
  "scan_memory_segment low high s = scan_segment_loop (unat (high - low) + 1) low high s"

definition RTscan_memory_segment :: "addr \<Rightarrow> addr \<Rightarrow> rt_state \<Rightarrow> rt_error + rt_state" where
  "RTscan_memory_segment low high s = scan_memory_segment low high s"

text \<open>
  The inner loop runs over the offsets of a metadata vector up to the \<open>-1\<close> that ends it;
  it has the fuel of the longest vector a caller expects.
\<close>

fun scan_offsets_loop :: "nat \<Rightarrow> addr \<Rightarrow> addr \<Rightarrow> nat \<Rightarrow> rt_state \<Rightarrow> rt_error + rt_state" where
  "scan_offsets_loop 0 md offset j s = Inl Out_of_fuel"
| "scan_offsets_loop (Suc fuel) md offset j s =
     (let d = memory s (md + of_nat (8 * j))
      in if d \<noteq> - 1 then
           rbind (RTtrace_pointer (memory s (offset + d)) s)
             (scan_offsets_loop fuel md offset (j + 1))
         else Inr s)"

definition scan_memory_segment_with_metadata ::
    "nat \<Rightarrow> addr \<Rightarrow> addr \<Rightarrow> rt_state \<Rightarrow> rt_error + rt_state" where
  "scan_memory_segment_with_metadata fuel low high s =
     (let md = memory s (high - 8);
          size = memory s md;
          length = sint (high - low - 8)
      in if size = 0 then Inl Divide_by_zero
         else
           (let count = length sdiv sint size
            in rfold (\<lambda>i. scan_offsets_loop fuel md (low + of_nat i * size) 1) [0..<nat count] s))"

subsection \<open>Scanning an object\<close>

text \<open>
  The scanners the client has registered, with the two counters: custom_scanner is
  \<open>custom_scanners[0]\<close>, the only one the code calls, and root_scanners is the array of ten,
  in which None is a null pointer. metadata_fuel bounds the length of metadata vectors.
\<close>

record hooks =
  custom_scanner :: "(mem \<Rightarrow> addr \<Rightarrow> addr \<Rightarrow> addr list) option"
  total_custom_scanners :: nat
  root_scanners :: "(mem \<Rightarrow> addr list) option list"
  total_root_scanners :: nat
  metadata_fuel :: nat

definition run_custom_scanner :: "hooks \<Rightarrow> addr \<Rightarrow> addr \<Rightarrow> rt_state \<Rightarrow> rt_error + rt_state" where
  "run_custom_scanner h low high s =
     (case custom_scanner h of
        None \<Rightarrow> Inl Null_deref
      | Some words \<Rightarrow> rfold RTtrace_pointer (words (memory s) low high) s)"

definition scan_object :: "hooks \<Rightarrow> addr \<Rightarrow> int \<Rightarrow> rt_state \<Rightarrow> rt_error + rt_state" where
  "scan_object h ptr total_size s =
     (let low = ptr + word_of_int SIZEOF_GC_HEADER;
          high = ptr + word_of_int total_size;
          c = GET_STORAGE_CLASS (memory s) ptr
      in if c = SC_NOPOINTERS then Inr s
         else if c = SC_POINTERS then scan_memory_segment low high s
         else if c = SC_CUSTOM1 then run_custom_scanner h low high s
         else if c = SC_METADATA then scan_memory_segment_with_metadata (metadata_fuel h) low high s
         else Inl (Debugger []))"

subsection \<open>Tracing on the lists of the groups\<close>

text \<open>Making an object gray, on the lists: nothing happens where it is not white.\<close>

definition a_gray :: "addr \<Rightarrow> (nat \<Rightarrow> agroup) \<Rightarrow> nat \<Rightarrow> agroup" where
  "a_gray x A = (\<lambda>i. if i \<in> group_indices \<and> x \<in> set (whites (A i)) then a_make_gray x (A i) else A i)"

definition a_trace :: "addr option \<Rightarrow> (nat \<Rightarrow> agroup) \<Rightarrow> nat \<Rightarrow> agroup" where
  "a_trace t A = (case t of None \<Rightarrow> A | Some x \<Rightarrow> a_gray x A)"

abbreviation heap_marking :: "rt_state \<Rightarrow> (nat \<Rightarrow> agroup) \<Rightarrow> bool" where
  "heap_marking \<equiv> heap_rep (\<lambda>_. marking_rep)"

lemma objects_a_make_gray:
  "x \<in> set (whites a) \<Longrightarrow> set (objects (a_make_gray x a)) = set (objects a)"
proof -
  assume "x \<in> set (whites a)"
  then have x: "insert x (set (remove1 x (whites a))) = set (whites a)"
    by (rule insert_set_remove1)
  have "set (objects (a_make_gray x a)) =
      insert x (set (remove1 x (whites a))) \<union> (set (grays a) \<union> set (blacks a) \<union> set (greens a))"
    by (simp add: Un_assoc)
  also have "\<dots> = set (objects a)"
    unfolding x by (simp only: objects_simps Un_assoc)
  finally show ?thesis .
qed

lemma group_rep_white_iff:
  assumes "group_rep mk um m g a" and "colors_ok mk um" and "x \<in> set (objects a)"
  shows "WHITEP um m x \<longleftrightarrow> x \<in> set (whites a)"
  using group_repD(5-8) [OF assms(1)] colors_okD [OF assms(2)] assms(3)
  by (auto simp: WHITEP_def colored_def)

lemma heap_marking_white_iff:
  assumes "heap_marking s A" and "i \<in> group_indices" and "x \<in> object_set A i"
  shows "WHITEP (unmarked_color s) (memory s) x \<longleftrightarrow> x \<in> set (whites (A i))"
  using group_rep_white_iff heap_repD(2,5) [OF assms(1)] assms(2,3)
  unfolding marking_rep_def object_set_def by blast

lemma a_gray_at:
  assumes "geometry s (object_set A)" and "i \<in> group_indices" and "x \<in> set (whites (A i))"
  shows "a_gray x A = A(i := a_make_gray x (A i))"
proof
  fix j
  have "x \<in> object_set A i" using assms(3) by (simp add: object_set_def)
  then have "j = i" if "j \<in> group_indices" "x \<in> set (whites (A j))"
    using geometry_group_unique [OF assms(1) that(1) assms(2), of x] that(2)
    by (simp add: object_set_def)
  then show "a_gray x A j = (A(i := a_make_gray x (A i))) j"
    using assms(2,3) by (cases "j = i") (auto simp: a_gray_def)
qed

lemma a_gray_not_white:
  "(\<And>i. i \<in> group_indices \<Longrightarrow> x \<notin> set (whites (A i))) \<Longrightarrow> a_gray x A = A"
  by (auto simp: a_gray_def fun_eq_iff)

lemma object_set_a_gray [simp]: "object_set (a_gray x A) = object_set A"
  by (auto simp: fun_eq_iff object_set_def a_gray_def objects_a_make_gray simp del: objects_simps)

lemma object_set_a_trace [simp]: "object_set (a_trace t A) = object_set A"
  by (cases t) (simp_all add: a_trace_def)

lemma all_objects_a_trace [simp]: "all_objects (a_trace t A) = all_objects A"
  by (simp add: all_objects_def)

lemma heap_marking_update:
  "heap_rep ((\<lambda>_. P)(i := P)) s A = heap_rep (\<lambda>_. P) s A"
  by (simp add: fun_upd_idem)

text \<open>RTmake_object_gray on a white object: no assertion fails and the object turns gray.\<close>

lemma RTmake_object_gray_refines:
  assumes rep: "heap_marking s A" and i: "i \<in> group_indices" and x: "x \<in> set (whites (A i))"
  obtains s' where "RTmake_object_gray x s = Inr s'" and "heap_marking s' (a_gray x A)"
    and "gc_frame (all_objects A) s s'"
proof -
  note h = heap_repD [OF rep]
  have xo: "x \<in> object_set A i" using x by (simp add: object_set_def)
  have g: "PTR_TO_GROUP s x = Group i" by (rule geometryD(2) [OF h(4) i xo])
  obtain m' g' where f: "make_object_gray (unmarked_color s) (memory s) (groups s i) x = Inr (m', g')"
    and r: "marking_rep (marked_color s) (unmarked_color s) m' g' (a_make_gray x (A i))"
    and lo: "links_only (set (objects (A i))) (memory s) m'"
    and sz: "gsize g' = gsize (groups s i)" "gindex g' = gindex (groups s i)"
    using make_object_gray_refines [OF h(5) [OF i] x h(2)] by metis
  obtain s' where s': "on_group i (\<lambda>m g. make_object_gray (unmarked_color s) m g x) s = Inr s'"
      "heap_rep ((\<lambda>_. marking_rep)(i := marking_rep)) s' (A(i := a_make_gray x (A i)))"
      "gc_frame (object_set A i) s s'"
    using on_group_refines [where P = "\<lambda>_. marking_rep" and Q = marking_rep
        and f = "\<lambda>m g. make_object_gray (unmarked_color s) m g x",
        OF rep framed_marking_rep i f r objects_a_make_gray [OF x] lo sz] by metis
  show thesis
  proof (rule that)
    show "RTmake_object_gray x s = Inr s'" using s'(1) by (simp add: RTmake_object_gray_def g)
    show "heap_marking s' (a_gray x A)"
      using s'(2) a_gray_at [OF h(4) i x] by (simp add: heap_marking_update)
    show "gc_frame (all_objects A) s s'"
      using gc_frame_mono [OF s'(3)] i by (auto simp: all_objects_def)
  qed
qed

text \<open>What a word refers to is an object of the heap.\<close>

lemma ptr_object_in_heap:
  assumes "geometry s Ob" and "ptr_object s p = Some x"
  obtains i where "i \<in> group_indices" and "x \<in> Ob i"
    and "pgroup (pages s (PTR_TO_PAGE_INDEX s p)) = Group i"
    and "x = interior_to_gcptr_3 p (pages s (PTR_TO_PAGE_INDEX s p)) (groups s i)"
    and "IN_PARTITION s p" and "valid_interior_ptr x p"
  using assms geometryD(4,5) [OF assms(1), of p]
  by (auto simp: ptr_object_def PTR_TO_GROUP_def Let_def split: if_splits gptr.splits)

lemma RTtrace_pointer_refines:
  assumes rep: "heap_marking s A"
  shows "\<exists>s'. RTtrace_pointer p s = Inr s' \<and> heap_marking s' (a_trace (ptr_object s p) A) \<and>
    gc_frame (all_objects A) s s'"
proof (cases "ptr_object s p")
  case None
  then have "RTtrace_pointer p s = Inr s"
    by (auto simp: ptr_object_def RTtrace_pointer_def Let_def split: if_splits gptr.splits)
  then show ?thesis using rep by (simp add: a_trace_def None)
next
  case (Some x)
  note geo = heap_repD(4) [OF rep]
  from ptr_object_in_heap [OF geo Some] obtain i where i: "i \<in> group_indices" "x \<in> object_set A i"
    and pg: "pgroup (pages s (PTR_TO_PAGE_INDEX s p)) = Group i"
    and x: "x = interior_to_gcptr_3 p (pages s (PTR_TO_PAGE_INDEX s p)) (groups s i)"
    and ip: "IN_PARTITION s p" and v: "valid_interior_ptr x p" .
  have eq: "RTtrace_pointer p s =
      (if x \<in> set (whites (A i)) then RTmake_object_gray x s else Inr s)"
    using ip pg x v heap_marking_white_iff [OF rep i] by (simp add: RTtrace_pointer_def Let_def)
  show ?thesis
  proof (cases "x \<in> set (whites (A i))")
    case True
    from RTmake_object_gray_refines [OF rep i(1) True] show ?thesis
      by (metis eq True a_trace_def Some option.simps(5))
  next
    case False
    have "a_gray x A = A"
    proof (rule a_gray_not_white)
      fix j assume "j \<in> group_indices"
      then show "x \<notin> set (whites (A j))"
        using geometry_group_unique [OF geo _ i(1) _ i(2), of j] False
        by (auto simp: object_set_def)
    qed
    then show ?thesis using rep by (simp add: eq False a_trace_def Some)
  qed
qed

subsection \<open>Tracing many pointers\<close>

text \<open>
  A state reached from \<open>s0\<close> by marking only: the heap still represents lists over the same
  objects, and nothing but links and the groups' pointers has changed since.
\<close>

definition marked_from :: "rt_state \<Rightarrow> addr set \<Rightarrow> rt_state \<Rightarrow> (nat \<Rightarrow> agroup) \<Rightarrow> bool" where
  "marked_from s0 Ob s A \<longleftrightarrow> heap_marking s A \<and> gc_frame Ob s0 s \<and> all_objects A = Ob"

definition a_trace_all :: "rt_state \<Rightarrow> addr list \<Rightarrow> (nat \<Rightarrow> agroup) \<Rightarrow> nat \<Rightarrow> agroup" where
  "a_trace_all s0 ws A = fold (\<lambda>p. a_trace (ptr_object s0 p)) ws A"

lemma a_trace_all_simps [simp]:
  "a_trace_all s0 [] A = A"
  "a_trace_all s0 (w # ws) A = a_trace_all s0 ws (a_trace (ptr_object s0 w) A)"
  "a_trace_all s0 (us @ vs) A = a_trace_all s0 vs (a_trace_all s0 us A)"
  by (simp_all add: a_trace_all_def)

lemma object_set_a_trace_all [simp]: "object_set (a_trace_all s0 ws A) = object_set A"
  by (induction ws arbitrary: A) simp_all

lemma all_objects_a_trace_all [simp]: "all_objects (a_trace_all s0 ws A) = all_objects A"
  by (simp add: all_objects_def)

lemma fold_a_trace_all: "fold (\<lambda>i. a_trace_all s0 (f i)) is A = a_trace_all s0 (concat (map f is)) A"
  by (induction "is" arbitrary: A) simp_all

lemma marked_from_refl: "heap_marking s A \<Longrightarrow> marked_from s (all_objects A) s A"
  by (simp add: marked_from_def)

lemma marked_from_memory:
  "marked_from s0 Ob s A \<Longrightarrow> a \<notin> header_cells Ob \<Longrightarrow> memory s a = memory s0 a"
  by (auto simp: marked_from_def gc_frame_def intro: links_only_cell)

lemma marked_from_step:
  assumes "marked_from s0 Ob s A"
  shows "\<exists>s'. RTtrace_pointer p s = Inr s' \<and> marked_from s0 Ob s' (a_trace (ptr_object s0 p) A) \<and>
    gc_frame Ob s s'"
proof -
  have m: "heap_marking s A" "gc_frame Ob s0 s" "all_objects A = Ob"
    using assms by (simp_all add: marked_from_def)
  from RTtrace_pointer_refines [OF m(1), of p] obtain s'
    where s': "RTtrace_pointer p s = Inr s'" "heap_marking s' (a_trace (ptr_object s p) A)"
      "gc_frame Ob s s'"
    using m(3) by auto
  with m ptr_object_frame [OF m(2), of p] gc_frame_trans [OF m(2)] show ?thesis
    by (auto simp: marked_from_def)
qed

interpretation trace: op_refinement_total
  "marked_from s0 Ob" RTtrace_pointer "\<lambda>p. a_trace (ptr_object s0 p)" "\<lambda>_ _. True" "gc_frame Ob"
  for s0 :: rt_state and Ob :: "addr set"
  by unfold_locales (auto simp: marked_from_step intro: gc_frame_trans)

lemma trace_all_refines:
  assumes "marked_from s0 Ob s A"
  shows "\<exists>s'. rfold RTtrace_pointer ws s = Inr s' \<and> marked_from s0 Ob s' (a_trace_all s0 ws A) \<and>
    gc_frame Ob s s'"
  using trace.rfold_refines_total [OF assms, of ws] by (simp add: a_trace_all_def)

subsection \<open>Segments\<close>

primrec cells :: "nat \<Rightarrow> addr \<Rightarrow> addr list" where
  "cells 0 a = []"
| "cells (Suc n) a = a # cells n (a + GC_POINTER_ALIGNMENT)"

definition segment_length :: "addr \<Rightarrow> addr \<Rightarrow> nat" where
  "segment_length low high = nat ((uint high - uint low + 7) div 8)"

text \<open>A segment that ends in the last long of the address space would wrap around.\<close>

definition segment_ok :: "addr set \<Rightarrow> addr \<Rightarrow> addr \<Rightarrow> bool" where
  "segment_ok Ob low high \<longleftrightarrow>
     uint high + 8 \<le> 2 ^ 64 \<and> set (cells (segment_length low high) low) \<inter> header_cells Ob = {}"

definition segment_words :: "mem \<Rightarrow> addr \<Rightarrow> addr \<Rightarrow> addr list" where
  "segment_words m low high = map m (cells (segment_length low high) low)"

lemma uint_plus_8: "uint (a :: addr) + 8 < 2 ^ 64 \<Longrightarrow> uint (a + 8) = uint a + 8"
  by (simp add: uint_word_ariths)

lemma scan_segment_loop_refines:
  assumes "segment_length low high = n" and "uint high + 8 \<le> 2 ^ 64" and "n < fuel"
    and "set (cells n low) \<inter> header_cells Ob = {}" and "marked_from s0 Ob s A"
  shows "\<exists>s'. scan_segment_loop fuel low high s = Inr s' \<and>
    marked_from s0 Ob s' (a_trace_all s0 (map (memory s0) (cells n low)) A) \<and> gc_frame Ob s s'"
  using assms
proof (induction n arbitrary: low fuel s A)
  case 0
  then have "\<not> low < high" by (simp add: segment_length_def word_less_def)
  moreover obtain f where "fuel = Suc f" using 0 by (cases fuel) auto
  ultimately show ?case using 0 by simp
next
  case (Suc n)
  obtain f where f: "fuel = Suc f" "n < f" using Suc.prems(3) by (cases fuel) auto
  have lt: "uint low < uint high"
    using Suc.prems(1) by (simp add: segment_length_def)
  then have l8: "uint (low + 8) = uint low + 8"
    using Suc.prems(2) by (intro uint_plus_8) linarith
  have n: "segment_length (low + GC_POINTER_ALIGNMENT) high = n"
    using Suc.prems(1) lt by (simp add: segment_length_def config_defs l8)
  have "memory s low = memory s0 low"
    using Suc.prems(4,5) by (intro marked_from_memory) auto
  moreover obtain s1 where s1: "RTtrace_pointer (memory s0 low) s = Inr s1"
      "marked_from s0 Ob s1 (a_trace (ptr_object s0 (memory s0 low)) A)" "gc_frame Ob s s1"
    using marked_from_step [OF Suc.prems(5)] by blast
  moreover obtain s2 where "scan_segment_loop f (low + GC_POINTER_ALIGNMENT) high s1 = Inr s2"
      "marked_from s0 Ob s2 (a_trace_all s0 (map (memory s0) (cells n (low + GC_POINTER_ALIGNMENT)))
        (a_trace (ptr_object s0 (memory s0 low)) A))" "gc_frame Ob s1 s2"
    using Suc.IH [OF n Suc.prems(2) f(2) _ s1(2)] Suc.prems(4) by auto
  ultimately show ?case
    using lt gc_frame_trans [OF s1(3)] by (auto simp: f word_less_def)
qed

lemma segment_length_fuel: "segment_length low high < unat (high - low) + 1"
proof (cases "low \<le> high")
  case True
  then have d: "uint (high - low) = uint high - uint low" and le: "uint low \<le> uint high"
    by (simp_all add: uint_sub_lem [THEN iffD1] word_le_def)
  have "(k + 7) div 8 < k + 1" if "0 \<le> k" for k :: int
    using that by linarith
  from this [of "uint high - uint low"] le show ?thesis
    by (simp add: segment_length_def unat_eq_nat_uint d flip: nat_add_distrib Suc_nat_eq_nat_zadd1)
next
  case False
  then show ?thesis by (simp add: segment_length_def word_le_def)
qed

lemma scan_memory_segment_refines:
  assumes ok: "segment_ok Ob low high" and m: "marked_from s0 Ob s A"
  shows "\<exists>s'. scan_memory_segment low high s = Inr s' \<and>
    marked_from s0 Ob s' (a_trace_all s0 (segment_words (memory s0) low high) A) \<and> gc_frame Ob s s'"
proof -
  from scan_segment_loop_refines [OF refl _ segment_length_fuel _ m] ok show ?thesis
    unfolding scan_memory_segment_def segment_words_def segment_ok_def by blast
qed

subsection \<open>Objects\<close>

text \<open>The offsets of a metadata vector from index \<open>j\<close> to the \<open>-1\<close> that ends it.\<close>

fun metadata_offsets :: "nat \<Rightarrow> mem \<Rightarrow> addr \<Rightarrow> nat \<Rightarrow> addr list option" where
  "metadata_offsets 0 m md j = None"
| "metadata_offsets (Suc fuel) m md j =
     (let d = m (md + of_nat (8 * j))
      in if d \<noteq> - 1 then map_option (Cons d) (metadata_offsets fuel m md (j + 1)) else Some [])"

text \<open>
  The words the scan of an object passes to the tracer, and what it needs of the object: the
  cells it reads are no headers of collected objects, an object with metadata points to a
  vector that ends, with a size that is not null, and a custom scanner is registered and
  depends on no header.
\<close>

definition metadata_words :: "nat \<Rightarrow> mem \<Rightarrow> addr \<Rightarrow> addr \<Rightarrow> addr list" where
  "metadata_words fuel m low high =
     (let md = m (high - 8); size = m md
      in concat (map (\<lambda>i. map (\<lambda>d. m (low + of_nat i * size + d))
           (case metadata_offsets fuel m md 1 of None \<Rightarrow> [] | Some ds \<Rightarrow> ds))
           [0..<nat (sint (high - low - 8) sdiv sint size)]))"

definition metadata_ok :: "nat \<Rightarrow> mem \<Rightarrow> addr set \<Rightarrow> addr \<Rightarrow> addr \<Rightarrow> bool" where
  "metadata_ok fuel m Ob low high \<longleftrightarrow>
     (let md = m (high - 8); size = m md
      in high - 8 \<notin> header_cells Ob \<and> size \<noteq> 0 \<and>
         (case metadata_offsets fuel m md 1 of None \<Rightarrow> False
          | Some ds \<Rightarrow>
              (\<forall>k \<le> length ds + 1. md + of_nat (8 * k) \<notin> header_cells Ob) \<and>
              (\<forall>i < nat (sint (high - low - 8) sdiv sint size). \<forall>d \<in> set ds.
                 low + of_nat i * size + d \<notin> header_cells Ob)))"

definition custom_ok :: "hooks \<Rightarrow> addr set \<Rightarrow> addr \<Rightarrow> addr \<Rightarrow> bool" where
  "custom_ok h Ob low high \<longleftrightarrow>
     (case custom_scanner h of None \<Rightarrow> False
      | Some ws \<Rightarrow>
          \<forall>m m'. (\<forall>a. a \<notin> header_cells Ob \<longrightarrow> m' a = m a) \<longrightarrow> ws m' low high = ws m low high)"

definition object_words :: "hooks \<Rightarrow> mem \<Rightarrow> addr \<Rightarrow> int \<Rightarrow> addr list" where
  "object_words h m ptr total_size =
     (let low = ptr + word_of_int SIZEOF_GC_HEADER;
          high = ptr + word_of_int total_size;
          c = GET_STORAGE_CLASS m ptr
      in if c = SC_NOPOINTERS then []
         else if c = SC_POINTERS then segment_words m low high
         else if c = SC_CUSTOM1 then
           (case custom_scanner h of None \<Rightarrow> [] | Some ws \<Rightarrow> ws m low high)
         else metadata_words (metadata_fuel h) m low high)"

definition object_ok :: "hooks \<Rightarrow> mem \<Rightarrow> addr set \<Rightarrow> addr \<Rightarrow> int \<Rightarrow> bool" where
  "object_ok h m Ob ptr total_size \<longleftrightarrow>
     (let low = ptr + word_of_int SIZEOF_GC_HEADER;
          high = ptr + word_of_int total_size;
          c = GET_STORAGE_CLASS m ptr
      in if c = SC_NOPOINTERS then True
         else if c = SC_POINTERS then segment_ok Ob low high
         else if c = SC_CUSTOM1 then custom_ok h Ob low high
         else metadata_ok (metadata_fuel h) m Ob low high)"

lemma scan_offsets_loop_refines:
  assumes "metadata_offsets fuel (memory s0) md j = Some ds"
    and "\<And>k. j \<le> k \<Longrightarrow> k \<le> j + length ds \<Longrightarrow> md + of_nat (8 * k) \<notin> header_cells Ob"
    and "\<And>d. d \<in> set ds \<Longrightarrow> offset + d \<notin> header_cells Ob"
    and "marked_from s0 Ob s A"
  shows "\<exists>s'. scan_offsets_loop fuel md offset j s = Inr s' \<and>
    marked_from s0 Ob s' (a_trace_all s0 (map (\<lambda>d. memory s0 (offset + d)) ds) A) \<and> gc_frame Ob s s'"
  using assms
proof (induction fuel arbitrary: j ds s A)
  case 0
  then show ?case by simp
next
  case (Suc fuel)
  let ?d = "memory s0 (md + of_nat (8 * j))"
  have d: "memory s (md + of_nat (8 * j)) = ?d"
    using Suc.prems(2) [of j] by (intro marked_from_memory [OF Suc.prems(4)]) simp
  show ?case
  proof (cases "?d = - 1")
    case True
    then show ?thesis using Suc.prems(1,4) d by (simp add: Let_def)
  next
    case False
    then obtain es where es: "ds = ?d # es" "metadata_offsets fuel (memory s0) md (j + 1) = Some es"
      using Suc.prems(1) by (auto simp: Let_def)
    have o: "memory s (offset + ?d) = memory s0 (offset + ?d)"
      using Suc.prems(3) es(1) by (intro marked_from_memory [OF Suc.prems(4)]) simp
    obtain s1 where s1: "RTtrace_pointer (memory s0 (offset + ?d)) s = Inr s1"
        "marked_from s0 Ob s1 (a_trace (ptr_object s0 (memory s0 (offset + ?d))) A)" "gc_frame Ob s s1"
      using marked_from_step [OF Suc.prems(4)] by blast
    have "\<exists>s'. scan_offsets_loop fuel md offset (j + 1) s1 = Inr s' \<and>
      marked_from s0 Ob s' (a_trace_all s0 (map (\<lambda>d. memory s0 (offset + d)) es)
        (a_trace (ptr_object s0 (memory s0 (offset + ?d))) A)) \<and> gc_frame Ob s1 s'"
    proof (rule Suc.IH [OF es(2) _ _ s1(2)])
      fix k assume "j + 1 \<le> k" "k \<le> j + 1 + length es"
      then show "md + of_nat (8 * k) \<notin> header_cells Ob"
        using es(1) by (intro Suc.prems(2)) simp_all
    next
      fix d assume "d \<in> set es"
      then show "offset + d \<notin> header_cells Ob" using es(1) by (intro Suc.prems(3)) simp
    qed
    then show ?thesis
      using False d o s1 gc_frame_trans [OF s1(3)] by (auto simp: Let_def es(1))
  qed
qed

lemma scan_metadata_refines:
  assumes ok: "metadata_ok fuel (memory s0) Ob low high" and m: "marked_from s0 Ob s A"
  shows "\<exists>s'. scan_memory_segment_with_metadata fuel low high s = Inr s' \<and>
    marked_from s0 Ob s' (a_trace_all s0 (metadata_words fuel (memory s0) low high) A) \<and>
    gc_frame Ob s s'"
proof -
  define md where "md = memory s0 (high - 8)"
  define size where "size = memory s0 md"
  define n where "n = nat (sint (high - low - 8) sdiv sint size)"
  obtain ds where ds: "metadata_offsets fuel (memory s0) md 1 = Some ds"
    and k: "\<And>k. k \<le> length ds + 1 \<Longrightarrow> md + of_nat (8 * k) \<notin> header_cells Ob"
    and c: "\<And>i d. i < n \<Longrightarrow> d \<in> set ds \<Longrightarrow> low + of_nat i * size + d \<notin> header_cells Ob"
    and h: "high - 8 \<notin> header_cells Ob" "size \<noteq> 0"
    using ok by (auto simp: metadata_ok_def Let_def md_def size_def n_def split: option.splits)
  have mds: "memory s (high - 8) = md" "memory s md = size"
    using marked_from_memory [OF m h(1)] marked_from_memory [OF m k [of 0]]
    by (simp_all add: md_def size_def)
  let ?w = "\<lambda>i. map (\<lambda>d. memory s0 (low + of_nat i * size + d)) ds"
  have "\<exists>s'. rfold (\<lambda>i. scan_offsets_loop fuel md (low + of_nat i * size) 1) is s = Inr s' \<and>
      marked_from s0 Ob s' (a_trace_all s0 (concat (map ?w is)) A) \<and> gc_frame Ob s s'"
    if "\<forall>i\<in>set is. i < n" for "is" :: "nat list"
    using that m
  proof (induction "is" arbitrary: s A)
    case Nil
    then show ?case by simp
  next
    case (Cons i "is")
    have "\<exists>s1. scan_offsets_loop fuel md (low + of_nat i * size) 1 s = Inr s1 \<and>
      marked_from s0 Ob s1 (a_trace_all s0 (?w i) A) \<and> gc_frame Ob s s1"
      using Cons.prems by (intro scan_offsets_loop_refines [OF ds] k c) auto
    then obtain s1 where 1: "scan_offsets_loop fuel md (low + of_nat i * size) 1 s = Inr s1"
      "marked_from s0 Ob s1 (a_trace_all s0 (?w i) A)" "gc_frame Ob s s1" by blast
    with Cons.IH [OF _ 1(2)] Cons.prems(1) gc_frame_trans [OF 1(3)] show ?case by auto
  qed
  from this [of "[0..<n]"] show ?thesis
    by (simp add: scan_memory_segment_with_metadata_def metadata_words_def Let_def mds h(2) n_def
        ds [unfolded One_nat_def] flip: md_def size_def)
qed

lemma run_custom_scanner_refines:
  assumes "custom_scanner h = Some ws" and "custom_ok h Ob low high" and m: "marked_from s0 Ob s A"
  shows "\<exists>s'. run_custom_scanner h low high s = Inr s' \<and>
    marked_from s0 Ob s' (a_trace_all s0 (ws (memory s0) low high) A) \<and> gc_frame Ob s s'"
proof -
  have "ws (memory s) low high = ws (memory s0) low high"
    using assms(1,2) marked_from_memory [OF m] by (simp add: custom_ok_def)
  then show ?thesis
    using trace_all_refines [OF m] by (simp add: run_custom_scanner_def assms(1))
qed

lemma storage_class_cases:
  "GET_STORAGE_CLASS m p \<in> {SC_NOPOINTERS, SC_POINTERS, SC_CUSTOM1, SC_METADATA}"
proof -
  have "two_bits c \<Longrightarrow> c \<in> {0, 1, 2, 3}" for c :: "64 word"
  proof -
    assume "two_bits c"
    then have "take_bit 2 c = c" by (simp add: two_bits_def three_eq_mask take_bit_eq_mask)
    then have "unat c = take_bit 2 (unat c)" by (metis unsigned_take_bit_eq)
    then have "unat c < 4" by (metis take_bit_nat_less_exp power2_eq_square numeral_times_numeral semiring_norm(12,13))
    then have "unat c \<in> {0, 1, 2, 3}" by auto
    then show ?thesis by (auto simp: word_unat_eq_iff)
  qed
  then show ?thesis
    by (simp add: hdr_defs sc_defs align_simps)
qed

lemma marked_from_storage_class:
  assumes "marked_from s0 Ob s A" and "aligned p"
  shows "GET_STORAGE_CLASS (memory s) p = GET_STORAGE_CLASS (memory s0) p"
  using assms by (auto simp: marked_from_def gc_frame_def links_only_def)

text \<open>Scanning an object traces its words, whatever its storage class.\<close>

lemma scan_object_refines:
  assumes ok: "object_ok h (memory s0) Ob ptr total_size" and m: "marked_from s0 Ob s A"
    and c: "GET_STORAGE_CLASS (memory s) ptr = GET_STORAGE_CLASS (memory s0) ptr"
  shows "\<exists>s'. scan_object h ptr total_size s = Inr s' \<and>
    marked_from s0 Ob s' (a_trace_all s0 (object_words h (memory s0) ptr total_size) A) \<and>
    gc_frame Ob s s'"
proof -
  let ?c = "GET_STORAGE_CLASS (memory s0) ptr"
  consider "?c = SC_NOPOINTERS" | "?c = SC_POINTERS" | "?c = SC_CUSTOM1" | "?c = SC_METADATA"
    using storage_class_cases [of "memory s0" ptr] by auto
  then show ?thesis
  proof cases
    case 1
    then show ?thesis using m by (simp add: scan_object_def object_words_def c Let_def)
  next
    case 2
    then show ?thesis using ok scan_memory_segment_refines [OF _ m]
      by (simp add: scan_object_def object_words_def object_ok_def c Let_def sc_defs)
  next
    case 3
    then have co: "custom_ok h Ob (ptr + word_of_int SIZEOF_GC_HEADER) (ptr + word_of_int total_size)"
      using ok by (simp add: object_ok_def Let_def sc_defs)
    then obtain ws where ws: "custom_scanner h = Some ws"
      by (auto simp: custom_ok_def split: option.splits)
    show ?thesis using 3 run_custom_scanner_refines [OF ws co m]
      by (simp add: scan_object_def object_words_def c Let_def sc_defs ws)
  next
    case 4
    then show ?thesis using ok scan_metadata_refines [OF _ m]
      by (simp add: scan_object_def object_words_def object_ok_def c Let_def sc_defs)
  qed
qed

subsection \<open>The bodies of objects\<close>

text \<open>
  The body of an object, from its header to the end of its block, holds no header of an
  object: blocks are disjoint. So the scan of an object of class POINTERS reads no link.
\<close>

lemma cells_uint:
  assumes "a \<in> set (cells n low)" and "uint low + 8 * int n < 2 ^ 64"
  shows "uint low \<le> uint a" and "uint a + 8 \<le> uint low + 8 * int n"
proof -
  have "uint low \<le> uint a \<and> uint a + 8 \<le> uint low + 8 * int n"
    using assms
  proof (induction n arbitrary: low)
    case 0
    then show ?case by simp
  next
    case (Suc n)
    have l8: "uint (low + 8) = uint low + 8"
      using Suc.prems(2) by (intro uint_plus_8) simp
    show ?case
    proof (cases "a = low")
      case False
      then have "a \<in> set (cells n (low + 8))"
        using Suc.prems(1) by (simp add: config_defs)
      from Suc.IH [OF this] Suc.prems(2) show ?thesis by (simp add: l8)
    qed simp
  qed
  then show "uint low \<le> uint a" and "uint a + 8 \<le> uint low + 8 * int n" by simp_all
qed

lemma group_indices_bounds:
  assumes "i \<in> group_indices"
  shows "32 \<le> (2 :: int) ^ i" and "(2 :: int) ^ i \<le> 2 ^ 24" and "(2 :: int) ^ i mod 32 = 0"
proof -
  have "5 \<le> i" "i \<le> 24" using assms by (simp_all add: group_indices_def config_defs)
  then show "32 \<le> (2 :: int) ^ i" and "(2 :: int) ^ i \<le> 2 ^ 24"
    using power_increasing [of 5 i "2 :: int"] power_increasing [of i 24 "2 :: int"] by simp_all
  have "(2 :: int) ^ 5 dvd 2 ^ i" using \<open>5 \<le> i\<close> by (rule le_imp_power_dvd)
  then show "(2 :: int) ^ i mod 32 = 0" by simp
qed

lemma uint_add_size:
  assumes "layout_ok s" and "uint (x :: addr) + n \<le> uint (last_partition_ptr s)" and "0 \<le> n"
  shows "uint (x + word_of_int n) = uint x + n"
proof -
  have "uint x + n < 2 ^ 64"
    using assms(1,2) by (simp add: layout_ok_def)
  then show ?thesis using assms(3)
    by (simp add: uint_word_ariths take_bit_eq_mod mod_simps uint_word_of_int)
qed

lemma body_not_header:
  assumes lay: "layout_ok s" and geo: "geometry s Ob" and i: "i \<in> group_indices" and x: "x \<in> Ob i"
    and a: "uint x + 16 \<le> uint a" "uint a < uint x + 2 ^ i"
  shows "a \<notin> header_cells (\<Union>j\<in>group_indices. Ob j)"
proof -
  have "a \<noteq> y \<and> a \<noteq> y + 8" if j: "j \<in> group_indices" and y: "y \<in> Ob j" for j y
  proof -
    have "uint y + 2 ^ j \<le> 2 ^ 47" using geometryD(3) [OF geo j y] lay by (simp add: layout_ok_def)
    then have y8: "uint (y + 8) = uint y + 8"
      using group_indices_bounds(1) [OF j] by (intro uint_plus_8) simp
    have "y = x \<or> uint x + 2 ^ i \<le> uint y \<or> uint y + 2 ^ j \<le> uint x"
      using geometryD(6) [OF geo i j x y] by blast
    then show ?thesis using a y8 group_indices_bounds(1) [OF j] by auto
  qed
  then show ?thesis by (auto simp: header_cells_def)
qed

lemma body_cells_uint:
  assumes lay: "layout_ok s" and geo: "geometry s Ob" and i: "i \<in> group_indices" and x: "x \<in> Ob i"
  defines "low \<equiv> x + word_of_int SIZEOF_GC_HEADER" and "high \<equiv> x + word_of_int (2 ^ i)"
  shows "uint high + 8 \<le> 2 ^ 64"
    and "a \<in> set (cells (segment_length low high) low) \<Longrightarrow> uint x + 16 \<le> uint a \<and> uint a + 8 \<le> uint x + 2 ^ i"
proof -
  note sz = group_indices_bounds [OF i]
  have top: "uint x + 2 ^ i \<le> uint (last_partition_ptr s)" "uint (last_partition_ptr s) \<le> 2 ^ 47"
    using geometryD(3) [OF geo i x] lay by (simp_all add: layout_ok_def)
  have u: "uint high = uint x + 2 ^ i" "uint low = uint x + 16"
    unfolding low_def high_def SIZEOF_GC_HEADER_def using sz top
    by (subst uint_add_size [OF lay]; simp)+
  show "uint high + 8 \<le> 2 ^ 64" using top u by simp
  let ?n = "segment_length low high"
  obtain k :: int where k: "2 ^ i = 32 * k" using sz(3) by (auto simp: mod_eq_0_iff_dvd dvd_def)
  have "(32 * k - 9) div 8 = 4 * k - 2" by linarith
  then have n: "8 * int ?n = 2 ^ i - 16"
    using sz(1) unfolding segment_length_def u unfolding k by simp
  assume "a \<in> set (cells ?n low)"
  from cells_uint [OF this] top show "uint x + 16 \<le> uint a \<and> uint a + 8 \<le> uint x + 2 ^ i"
    unfolding n u by simp
qed

lemma body_segment_ok:
  assumes lay: "layout_ok s" and geo: "geometry s Ob" and i: "i \<in> group_indices" and x: "x \<in> Ob i"
  shows "segment_ok (\<Union>j\<in>group_indices. Ob j) (x + word_of_int SIZEOF_GC_HEADER) (x + word_of_int (2 ^ i))"
proof -
  note c = body_cells_uint [OF assms]
  have "a \<notin> header_cells (\<Union>j\<in>group_indices. Ob j)"
    if "a \<in> set (cells (segment_length (x + word_of_int SIZEOF_GC_HEADER) (x + word_of_int (2 ^ i)))
      (x + word_of_int SIZEOF_GC_HEADER))" for a
    using c(2) [OF that] by (intro body_not_header [OF assms]) simp_all
  then show ?thesis using c(1) by (auto simp: segment_ok_def)
qed

end
