(* ===== verification/Tricolour.thy ===== *)
theory Tricolour
  imports Trace
begin

text \<open>
  What marking is for. From the words of the roots, the objects that were white when
  marking started are live if a chain of words leads to them. The tricolour invariant says
  that only live objects have been reached, and that the words of a black object have been
  traced: none of them refers to a white object. When no object is gray and the words of the
  roots have been traced, the black objects are exactly the live ones.
\<close>

subsection \<open>Live objects\<close>

definition words_of :: "hooks \<Rightarrow> rt_state \<Rightarrow> addr \<Rightarrow> addr list" where
  "words_of h s x =
     (case PTR_TO_GROUP s x of
        Group i \<Rightarrow> object_words h (memory s) x (gsize (groups s i)) | _ \<Rightarrow> [])"

inductive_set live :: "hooks \<Rightarrow> rt_state \<Rightarrow> addr set \<Rightarrow> addr set \<Rightarrow> addr set"
  for h :: hooks and s :: rt_state and roots :: "addr set" and W :: "addr set" where
  live_root: "w \<in> roots \<Longrightarrow> ptr_object s w = Some x \<Longrightarrow> x \<in> W \<Longrightarrow> x \<in> live h s roots W"
| live_step: "x \<in> live h s roots W \<Longrightarrow> w \<in> set (words_of h s x) \<Longrightarrow> ptr_object s w = Some y \<Longrightarrow>
    y \<in> W \<Longrightarrow> y \<in> live h s roots W"

lemma live_mono: "x \<in> live h s R W \<Longrightarrow> R \<subseteq> R' \<Longrightarrow> x \<in> live h s R' W"
  by (induction rule: live.induct) (auto intro: live.intros)

lemma live_subset: "live h s R W \<subseteq> W"
  by (auto elim: live.cases)

definition white_set :: "(nat \<Rightarrow> agroup) \<Rightarrow> addr set" where
  "white_set A = (\<Union>i\<in>group_indices. set (whites (A i)))"

definition gray_set :: "(nat \<Rightarrow> agroup) \<Rightarrow> addr set" where
  "gray_set A = (\<Union>i\<in>group_indices. set (grays (A i)))"

definition black_set :: "(nat \<Rightarrow> agroup) \<Rightarrow> addr set" where
  "black_set A = (\<Union>i\<in>group_indices. set (blacks (A i)))"

lemmas color_sets = white_set_def gray_set_def black_set_def

text \<open>None of the words refers to a white object.\<close>

definition traced :: "rt_state \<Rightarrow> addr set \<Rightarrow> (nat \<Rightarrow> agroup) \<Rightarrow> bool" where
  "traced s ws A \<longleftrightarrow> (\<forall>w\<in>ws. \<forall>y. ptr_object s w = Some y \<longrightarrow> y \<notin> white_set A)"

lemma traced_simps [simp]:
  "traced s {} A"
  "traced s (insert w ws) A \<longleftrightarrow>
     (\<forall>y. ptr_object s w = Some y \<longrightarrow> y \<notin> white_set A) \<and> traced s ws A"
  "traced s (ws \<union> vs) A \<longleftrightarrow> traced s ws A \<and> traced s vs A"
  by (auto simp: traced_def)

lemma traced_antimono: "traced s ws A \<Longrightarrow> white_set A' \<subseteq> white_set A \<Longrightarrow> traced s ws A'"
  by (auto simp: traced_def)

subsection \<open>The tricolour invariant\<close>

definition tricolour ::
    "hooks \<Rightarrow> rt_state \<Rightarrow> addr set \<Rightarrow> (nat \<Rightarrow> agroup) \<Rightarrow> (nat \<Rightarrow> agroup) \<Rightarrow> bool" where
  "tricolour h s0 roots A0 A \<longleftrightarrow>
     (\<forall>i\<in>group_indices.
        set (whites (A i)) \<union> set (grays (A i)) \<union> set (blacks (A i)) = set (whites (A0 i)) \<and>
        greens (A i) = greens (A0 i) \<and> distinct (whites (A i))) \<and>
     gray_set A \<union> black_set A \<subseteq> live h s0 roots (white_set A0) \<and>
     (\<forall>x\<in>black_set A. traced s0 (set (words_of h s0 x)) A)"

lemma tricolourD:
  assumes "tricolour h s0 roots A0 A"
  shows "i \<in> group_indices \<Longrightarrow>
      set (whites (A i)) \<union> set (grays (A i)) \<union> set (blacks (A i)) = set (whites (A0 i))"
    and "i \<in> group_indices \<Longrightarrow> greens (A i) = greens (A0 i)"
    and "i \<in> group_indices \<Longrightarrow> distinct (whites (A i))"
    and "gray_set A \<subseteq> live h s0 roots (white_set A0)"
    and "black_set A \<subseteq> live h s0 roots (white_set A0)"
    and "x \<in> black_set A \<Longrightarrow> traced s0 (set (words_of h s0 x)) A"
  using assms by (auto simp: tricolour_def)

lemma tricolour_white_subset: "tricolour h s0 roots A0 A \<Longrightarrow> white_set A \<subseteq> white_set A0"
  by (auto simp: tricolour_def white_set_def)

lemma a_gray_sets:
  assumes "\<And>i. i \<in> group_indices \<Longrightarrow> distinct (whites (A i))"
  shows "white_set (a_gray x A) = white_set A - {x}"
    and "gray_set (a_gray x A) = gray_set A \<union> (white_set A \<inter> {x})"
    and "black_set (a_gray x A) = black_set A"
  using assms by (auto simp: color_sets a_gray_def split: if_splits)

lemma a_gray_whites:
  assumes "distinct (whites (A i))" and "i \<in> group_indices"
  shows "set (whites (a_gray x A i)) \<union> set (grays (a_gray x A i)) \<union> set (blacks (a_gray x A i)) =
      set (whites (A i)) \<union> set (grays (A i)) \<union> set (blacks (A i))"
    and "greens (a_gray x A i) = greens (A i)" and "distinct (whites (a_gray x A i))"
  using assms by (auto simp: a_gray_def)

lemma tricolour_gray:
  assumes t: "tricolour h s0 roots A0 A"
    and x: "x \<in> white_set A \<Longrightarrow> x \<in> live h s0 roots (white_set A0)"
  shows "tricolour h s0 roots A0 (a_gray x A)"
proof -
  note d = tricolourD(3) [OF t]
  have "traced s0 (set (words_of h s0 y)) (a_gray x A)" if "y \<in> black_set A" for y
    using tricolourD(6) [OF t that] by (rule traced_antimono) (auto simp: a_gray_sets d)
  then show ?thesis
    unfolding tricolour_def
    using x tricolourD(4,5) [OF t] tricolourD(1,2) [OF t]
    by (auto simp: a_gray_sets a_gray_whites d)
qed

lemma tricolour_trace_all:
  assumes "tricolour h s0 roots A0 A"
    and "\<And>w x. w \<in> set ws \<Longrightarrow> ptr_object s0 w = Some x \<Longrightarrow> x \<in> white_set A0 \<Longrightarrow>
        x \<in> live h s0 roots (white_set A0)"
  shows "tricolour h s0 roots A0 (a_trace_all s0 ws A)"
    and "traced s0 (set ws) (a_trace_all s0 ws A)"
    and "white_set (a_trace_all s0 ws A) \<subseteq> white_set A"
proof -
  have "tricolour h s0 roots A0 (a_trace_all s0 ws A) \<and> traced s0 (set ws) (a_trace_all s0 ws A) \<and>
      white_set (a_trace_all s0 ws A) \<subseteq> white_set A"
    using assms
  proof (induction ws arbitrary: A)
    case Nil
    then show ?case by simp
  next
    case (Cons w ws)
    let ?A = "a_trace (ptr_object s0 w) A"
    have d: "\<And>i. i \<in> group_indices \<Longrightarrow> distinct (whites (A i))"
      by (rule tricolourD(3) [OF Cons.prems(1)])
    have t: "tricolour h s0 roots A0 ?A"
      using Cons.prems tricolour_white_subset [OF Cons.prems(1)]
      by (cases "ptr_object s0 w") (auto simp: a_trace_def intro!: tricolour_gray)
    have w: "white_set ?A \<subseteq> white_set A" "\<forall>y. ptr_object s0 w = Some y \<longrightarrow> y \<notin> white_set ?A"
      by (cases "ptr_object s0 w"; simp add: a_trace_def a_gray_sets d)+
    have "tricolour h s0 roots A0 (a_trace_all s0 ws ?A) \<and> traced s0 (set ws) (a_trace_all s0 ws ?A) \<and>
        white_set (a_trace_all s0 ws ?A) \<subseteq> white_set ?A"
      using Cons.prems(2) by (intro Cons.IH [OF t]) auto
    then show ?case using w by (simp only: a_trace_all_simps set_simps traced_simps) blast
  qed
  then show "tricolour h s0 roots A0 (a_trace_all s0 ws A)"
    and "traced s0 (set ws) (a_trace_all s0 ws A)"
    and "white_set (a_trace_all s0 ws A) \<subseteq> white_set A" by simp_all
qed

lemma tricolour_blacken:
  assumes t: "tricolour h s0 roots A0 A" and i: "i \<in> group_indices" and ne: "grays (A i) \<noteq> []"
    and tr: "traced s0 (set (words_of h s0 (last (grays (A i))))) A"
  shows "tricolour h s0 roots A0 (A(i := a_blacken (A i)))"
proof -
  let ?A = "A(i := a_blacken (A i))" and ?x = "last (grays (A i))"
  have g: "set (grays (A i)) = insert ?x (set (butlast (grays (A i))))"
    using ne by (metis append_butlast_last_id set_append list.set Un_insert_right sup_bot_right)
  have w: "white_set ?A = white_set A" by (auto simp: white_set_def split: if_splits)
  have b: "black_set ?A = insert ?x (black_set A)" using i by (auto simp: black_set_def split: if_splits)
  have gs: "gray_set ?A \<subseteq> gray_set A" by (auto simp: gray_set_def g split: if_splits dest: in_set_butlastD)
  have x: "?x \<in> gray_set A" using i ne unfolding gray_set_def by (intro UN_I [OF i] last_in_set)
  have "set (whites (?A j)) \<union> set (grays (?A j)) \<union> set (blacks (?A j)) =
      set (whites (A j)) \<union> set (grays (A j)) \<union> set (blacks (A j))" for j
    by (cases "j = i") (auto simp: g)
  then have "\<forall>j\<in>group_indices.
        set (whites (?A j)) \<union> set (grays (?A j)) \<union> set (blacks (?A j)) = set (whites (A0 j)) \<and>
        greens (?A j) = greens (A0 j) \<and> distinct (whites (?A j))"
    using tricolourD(1-3) [OF t] by simp
  moreover have "gray_set ?A \<union> black_set ?A \<subseteq> live h s0 roots (white_set A0)"
    using tricolourD(4,5) [OF t] gs x unfolding b by blast
  moreover have "\<forall>x\<in>black_set ?A. traced s0 (set (words_of h s0 x)) ?A"
    using tricolourD(6) [OF t] tr unfolding b traced_def w by auto
  ultimately show ?thesis by (simp add: tricolour_def)
qed

lemma tricolour_start:
  assumes "\<And>i. i \<in> group_indices \<Longrightarrow> grays (A i) = [] \<and> blacks (A i) = [] \<and> distinct (whites (A i))"
  shows "tricolour h s0 roots A A"
  using assms by (auto simp: tricolour_def color_sets)

text \<open>At the end of marking, black is live.\<close>

lemma tricolour_finish:
  assumes t: "tricolour h s0 roots A0 A" and "gray_set A = {}" and "traced s0 roots A"
  shows "live h s0 roots (white_set A0) \<inter> white_set A = {}"
    and "black_set A = live h s0 roots (white_set A0)"
proof -
  have "grays (A i) = []" if "i \<in> group_indices" for i
    using assms(2) that by (simp add: gray_set_def)
  then have "set (whites (A0 i)) = set (whites (A i)) \<union> set (blacks (A i))" if "i \<in> group_indices" for i
    using tricolourD(1) [OF t that] that by simp
  then have cover: "white_set A0 = white_set A \<union> black_set A"
    by (simp add: color_sets UN_Un_distrib)
  have "x \<notin> white_set A" if "x \<in> live h s0 roots (white_set A0)" for x
    using that
  proof (induction rule: live.induct)
    case (live_root w x)
    then show ?case using assms(3) by (auto simp: traced_def)
  next
    case (live_step x w y)
    then have "x \<in> black_set A" using cover live_subset by blast
    from tricolourD(6) [OF t this] live_step show ?case by (auto simp: traced_def)
  qed
  then show "live h s0 roots (white_set A0) \<inter> white_set A = {}" by blast
  then show "black_set A = live h s0 roots (white_set A0)"
    using cover tricolourD(5) [OF t] live_subset [of h s0 roots "white_set A0"] by blast
qed

end
