(* ===== verification/Mark.thy ===== *)
theory Mark
  imports Tricolour
begin

text \<open>
  The marking loop (rtgc.c): scan_object_with_group scans a gray object and turns it black,
  scan_gray_set goes over the groups, in each from the black pointer towards the first gray
  object, until a pass over all groups finds nothing to scan. The lemmas show that no pass
  stops with an error, that every scan uses up one object that was white or gray, so that
  the loops end within fuel given by the number of these objects, and that the tricolour
  invariant holds throughout.
\<close>

subsection \<open>The code\<close>

definition scan_object_with_group ::
    "hooks \<Rightarrow> nat \<Rightarrow> addr \<Rightarrow> rt_state \<Rightarrow> rt_error + rt_state" where
  "scan_object_with_group h i ptr s =
     rbind (scan_object h ptr (gsize (groups s i)) s) (\<lambda>s1.
       on_group i (\<lambda>m g. Inr (blacken_object (marked_color s1) m g ptr)) s1)"

text \<open>The inner loop of scan_gray_set, and what it does with one group.\<close>

fun scan_group_loop ::
    "nat \<Rightarrow> hooks \<Rightarrow> nat \<Rightarrow> addr \<Rightarrow> rt_state \<Rightarrow> int \<Rightarrow> rt_error + rt_state \<times> int" where
  "scan_group_loop 0 h i current s scan_count = Inl Out_of_fuel"
| "scan_group_loop (Suc fuel) h i current s scan_count =
     (if current \<noteq> 0 then
        rbind (scan_object_with_group h i current s) (\<lambda>s1.
          scan_group_loop fuel h i (get_prev (memory s1) current) s1 (scan_count + 1))
      else Inr (s, scan_count))"

definition scan_gray_group ::
    "nat \<Rightarrow> hooks \<Rightarrow> nat \<Rightarrow> rt_state \<times> int \<Rightarrow> rt_error + rt_state \<times> int" where
  "scan_gray_group fuel h i = (\<lambda>(s, scan_count).
     let black = gblack (groups s i);
         current = (if black \<noteq> 0 \<and> \<not> GRAYP (memory s) black then get_prev (memory s) black else black)
     in scan_group_loop fuel h i current s scan_count)"

definition group_list :: "nat list" where
  "group_list = [MIN_GROUP_INDEX..<Suc MAX_GROUP_INDEX]"

fun scan_gray_set :: "nat \<Rightarrow> nat \<Rightarrow> hooks \<Rightarrow> rt_state \<Rightarrow> rt_error + rt_state" where
  "scan_gray_set 0 fuel h s = Inl Out_of_fuel"
| "scan_gray_set (Suc rounds) fuel h s =
     rbind (rfold (scan_gray_group fuel h) group_list (s, 0)) (\<lambda>(s1, scan_count).
       if 0 < scan_count then scan_gray_set rounds fuel h s1 else Inr s1)"

lemma set_group_list [simp]: "set group_list = group_indices"
  by (auto simp: group_list_def group_indices_def)

lemma distinct_group_list [simp]: "distinct group_list"
  by (simp add: group_list_def)

lemma finite_group_indices [simp]: "finite group_indices"
  by (simp add: group_indices_def)

subsection \<open>The measure of marking\<close>

definition unscanned :: "(nat \<Rightarrow> agroup) \<Rightarrow> nat" where
  "unscanned A = (\<Sum>i\<in>group_indices. length (whites (A i)) + length (grays (A i)))"

lemma unscanned_a_gray [simp]: "unscanned (a_gray x A) = unscanned A"
proof -
  have "length (whites (a_gray x A i)) + length (grays (a_gray x A i)) =
      length (whites (A i)) + length (grays (A i))" for i
  proof (cases "i \<in> group_indices \<and> x \<in> set (whites (A i))")
    case True
    then have "0 < length (whites (A i))" by (auto intro: length_pos_if_in_set)
    then show ?thesis using True by (simp add: a_gray_def length_remove1)
  qed (auto simp: a_gray_def)
  then show ?thesis by (simp add: unscanned_def)
qed

lemma unscanned_a_trace_all [simp]: "unscanned (a_trace_all s ws A) = unscanned A"
proof (induction ws arbitrary: A)
  case (Cons w ws)
  then show ?case by (cases "ptr_object s w") (simp_all add: a_trace_def)
qed simp

lemma unscanned_blacken:
  assumes "i \<in> group_indices" and "grays (A i) \<noteq> []"
  shows "unscanned A = Suc (unscanned (A(i := a_blacken (A i))))"
proof -
  let ?f = "\<lambda>A j. length (whites (A j)) + length (grays (A j))"
  have "unscanned A = ?f A i + (\<Sum>j\<in>group_indices - {i}. ?f A j)"
    unfolding unscanned_def by (rule sum.remove) (simp_all add: assms)
  moreover have "unscanned (A(i := a_blacken (A i))) =
      ?f (A(i := a_blacken (A i))) i + (\<Sum>j\<in>group_indices - {i}. ?f (A(i := a_blacken (A i))) j)"
    unfolding unscanned_def by (rule sum.remove) (simp_all add: assms)
  moreover have "0 < length (grays (A i))" using assms(2) by simp
  ultimately show ?thesis by simp
qed

lemma unscanned_0: "unscanned A = 0 \<Longrightarrow> gray_set A = {}"
  by (simp add: unscanned_def gray_set_def)

text \<open>Tracing puts new gray objects before the old ones.\<close>

lemma a_trace_all_grays: "\<exists>pre. grays (a_trace_all s ws A i) = pre @ grays (A i)"
proof (induction ws arbitrary: A)
  case Nil
  then show ?case by simp
next
  case (Cons w ws)
  have "\<exists>pre. grays (a_trace (ptr_object s w) A i) = pre @ grays (A i)"
    by (cases "ptr_object s w") (auto simp: a_trace_def a_gray_def)
  with Cons.IH [of "a_trace (ptr_object s w) A"] show ?case by auto
qed

lemma last_grays_a_trace_all:
  assumes "grays (A i) \<noteq> []"
  shows "grays (a_trace_all s ws A i) \<noteq> []" and "last (grays (a_trace_all s ws A i)) = last (grays (A i))"
  using a_trace_all_grays [of s ws A i] assms by auto

subsection \<open>One object\<close>

text \<open>What a collection needs of the objects it may scan, at its start.\<close>

definition scannable :: "hooks \<Rightarrow> rt_state \<Rightarrow> (nat \<Rightarrow> agroup) \<Rightarrow> bool" where
  "scannable h s0 A0 \<longleftrightarrow>
     (\<forall>i\<in>group_indices. \<forall>x\<in>set (whites (A0 i)). object_ok h (memory s0) (all_objects A0) x (2 ^ i))"

definition marking ::
    "hooks \<Rightarrow> rt_state \<Rightarrow> addr set \<Rightarrow> (nat \<Rightarrow> agroup) \<Rightarrow> rt_state \<Rightarrow> (nat \<Rightarrow> agroup) \<Rightarrow> bool" where
  "marking h s0 roots A0 s A \<longleftrightarrow>
     marked_from s0 (all_objects A0) s A \<and> tricolour h s0 roots A0 A \<and> geometry s0 (object_set A0) \<and>
     groups_ok s0"

lemma gray_live:
  assumes "tricolour h s0 roots A0 A" and "i \<in> group_indices" and "x \<in> set (grays (A i))"
  shows "x \<in> live h s0 roots (white_set A0)" and "x \<in> set (whites (A0 i))"
  using tricolourD(4) [OF assms(1)] tricolourD(1) [OF assms(1,2)] assms(2,3)
  by (auto simp: gray_set_def)

lemma words_of_eq:
  assumes "geometry s0 Ob" and "groups_ok s0" and "i \<in> group_indices" and "x \<in> Ob i"
  shows "words_of h s0 x = object_words h (memory s0) x (2 ^ i)"
  using geometryD(2) [OF assms(1,3,4)] assms(2,3) by (simp add: words_of_def groups_ok_def)

lemma objects_a_blacken:
  assumes "grays a \<noteq> []"
  shows "set (objects (a_blacken a)) = set (objects a)"
proof -
  obtain ys x where "grays a = ys @ [x]" using assms by (cases "grays a" rule: rev_cases) auto
  then show ?thesis by (auto simp: objects_def active_def)
qed

lemma scan_object_with_group_refines:
  assumes M: "marking h s0 roots A0 s A" and ok: "scannable h s0 A0"
    and i: "i \<in> group_indices" and ne: "grays (A i) \<noteq> []"
  obtains s' A' where "scan_object_with_group h i (last (grays (A i))) s = Inr s'"
    and "marking h s0 roots A0 s' A'" and "unscanned A = Suc (unscanned A')"
    and "get_prev (memory s') (last (grays (A i))) = last_or 0 (grays (A' i))"
    and "white_set A' \<subseteq> white_set A"
proof -
  let ?x = "last (grays (A i))" and ?Ob = "all_objects A0"
  have mf: "marked_from s0 ?Ob s A" and t: "tricolour h s0 roots A0 A"
    and geo: "geometry s0 (object_set A0)" and go: "groups_ok s0"
    using M by (simp_all add: marking_def)
  have rep: "heap_marking s A" and all: "all_objects A = ?Ob" and gf: "gc_frame ?Ob s0 s"
    using mf by (simp_all add: marked_from_def)
  have hok: "headers_ok (object_set A i)"
    by (rule heap_rep_headers_ok(1) [OF rep framed_marking_rep i])
  have xg: "?x \<in> set (grays (A i))" using ne by simp
  have "?x \<in> object_set A i" using xg by (simp add: object_set_def active_def del: last_in_set)
  then have x: "?x \<noteq> 0" "aligned ?x" using hok by (auto dest: headers_okD)
  note xl = gray_live [OF t i xg]
  have oo: "object_ok h (memory s0) ?Ob ?x (2 ^ i)" using ok i xl(2) by (simp add: scannable_def)
  have sz: "gsize (groups s i) = 2 ^ i"
    using gc_frame_fields(7) [OF gf] go i by (simp add: groups_ok_def)
  have wo: "words_of h s0 ?x = object_words h (memory s0) ?x (2 ^ i)"
    using xl(2) by (intro words_of_eq [OF geo go i]) (simp add: object_set_def)
  let ?ws = "words_of h s0 ?x" let ?A1 = "a_trace_all s0 ?ws A"
  obtain s1 where s1: "scan_object h ?x (gsize (groups s i)) s = Inr s1" "marked_from s0 ?Ob s1 ?A1"
      "gc_frame ?Ob s s1"
    using scan_object_refines [OF oo mf marked_from_storage_class [OF mf x(2)]] unfolding sz wo by blast
  have t1: "tricolour h s0 roots A0 ?A1" "traced s0 (set ?ws) ?A1" "white_set ?A1 \<subseteq> white_set A"
    using tricolour_trace_all [OF t, of ?ws] xl(1) by (blast intro: live_step)+
  note last1 = last_grays_a_trace_all [where A = A and i = i and s = s0 and ws = ?ws, OF ne]
  have rep1: "heap_marking s1 ?A1" using s1(2) by (simp add: marked_from_def)
  let ?A' = "?A1(i := a_blacken (?A1 i))"
  obtain m' g' where b: "blacken_object (marked_color s1) (memory s1) (groups s1 i) ?x = (m', g')"
    by (cases "blacken_object (marked_color s1) (memory s1) (groups s1 i) ?x")
  note br = blacken_object_refines [OF heap_repD(5) [OF rep1 i] last1(1) heap_repD(2) [OF rep1],
      unfolded last1(2), OF b]
  have ob: "set (objects (a_blacken (?A1 i))) = set (objects (?A1 i))"
    by (rule objects_a_blacken [OF last1(1)])
  have f: "Inr (blacken_object (marked_color s1) (memory s1) (groups s1 i) ?x) = Inr (m', g')"
    by (simp add: b)
  obtain s2 where s2: "on_group i (\<lambda>m g. Inr (blacken_object (marked_color s1) m g ?x)) s1 = Inr s2"
      "heap_rep ((\<lambda>_. marking_rep)(i := marking_rep)) s2 ?A'" "gc_frame (object_set ?A1 i) s1 s2"
      "memory s2 = m'"
    by (rule on_group_refines [where P = "\<lambda>_. marking_rep" and Q = marking_rep
        and f = "\<lambda>m g. Inr (blacken_object (marked_color s1) m g ?x)",
        OF rep1 framed_marking_rep i f br(1) ob br(2-4)])
  have "object_set ?A' j = object_set ?A1 j" for j
    by (cases "j = i") (simp_all only: object_set_def fun_upd_apply refl if_True if_False ob)
  then have os: "object_set ?A' = object_set A" by (simp add: fun_eq_iff)
  have gf2: "gc_frame ?Ob s0 s2"
    using gc_frame_trans [OF _ gc_frame_mono [OF s2(3)], of ?Ob s0] s1(2) i all
    by (auto simp: marked_from_def all_objects_def)
  have mf2: "marked_from s0 ?Ob s2 ?A'"
    using s2(2) gf2 all by (simp add: marked_from_def heap_marking_update all_objects_def os)
  have t2: "tricolour h s0 roots A0 ?A'"
    using t1(2) by (intro tricolour_blacken [OF t1(1) i last1(1)]) (simp add: last1(2))
  have "dlist m' (active (a_blacken (?A1 i)))"
    using br(1) unfolding marking_rep_def by (elim conjE) (erule group_repD(4))
  then have gp: "get_prev (memory s2) ?x = last_or 0 (grays (?A' i))"
    by (simp add: dlist_def active_def s2(4) last1(2))
  have "white_set ?A' = white_set ?A1" by (auto simp: white_set_def split: if_splits)
  then have w2: "white_set ?A' \<subseteq> white_set A" using t1(3) by simp
  show thesis
    using that [of s2 ?A'] s1(1) s2(1) mf2 t2 geo go gp w2 unscanned_blacken [of i ?A1] i last1(1)
    by (simp add: scan_object_with_group_def marking_def)
qed

subsection \<open>The loops\<close>

text \<open>Where the scan of a group starts: at its last gray object.\<close>

lemma scan_start:
  assumes rep: "marking_rep mk um m g a" and c: "colors_ok mk um"
  shows "(if gblack g \<noteq> 0 \<and> \<not> GRAYP m (gblack g) then get_prev m (gblack g) else gblack g) =
    last_or 0 (grays a)"
proof -
  have gr: "group_rep mk um m g a" using rep by (simp add: marking_rep_def)
  note r = group_repD [OF gr]
  have ok: "headers_ok (set (grays a))" "headers_ok (set (blacks a @ greens a))"
    using r(1) by (simp_all add: active_def)
  have seg: "dseg m 0 (grays a @ blacks a @ greens a) 0"
    using r(4) by (simp add: dlist_def active_def)
  have col: "colored m GRAY (grays a)" "colored m mk (blacks a)" "colored m GREEN (greens a)"
    using gr by (simp_all add: group_rep_def)
  have ne: "mk \<noteq> GRAY" "GREEN \<noteq> GRAY" using c by (auto simp: colors_ok_def color_defs)
  have bp: "black_pointer_ok g a" using gr by (simp add: group_rep_def)
  show ?thesis
  proof (cases "grays a \<noteq> [] \<and> gblack g = last (grays a)")
    case True
    then have "last (grays a) \<in> set (grays a)" by (intro last_in_set) simp
    then have "GRAYP m (last (grays a))" using col(1) unfolding colored_def GRAYP_def by blast
    then show ?thesis using True by (simp add: last_or_def)
  next
    case False
    then have b: "gblack g = hd_or (blacks a @ greens a) (last_or 0 (grays a))"
      using bp by (auto simp: black_pointer_ok_def)
    show ?thesis
    proof (cases "blacks a @ greens a")
      case Nil
      then have "gblack g = last_or 0 (grays a)" using b by simp
      then show ?thesis using False by (auto simp: last_or_def)
    next
      case (Cons y ys)
      then have y: "gblack g = y" using b by simp
      have "y \<noteq> 0" using ok(2) by (simp add: Cons)
      moreover have "get_prev m y = last_or 0 (grays a)"
        using seg by (simp add: Cons)
      moreover have "y \<in> set (blacks a) \<or> y \<in> set (greens a)"
        using Cons by (metis Un_iff list.set_intros(1) set_append)
      then have "\<not> GRAYP m y" using col(2,3) ne by (auto simp: colored_def GRAYP_def)
      ultimately show ?thesis by (simp add: y)
    qed
  qed
qed

text \<open>
  What one run of a loop does: it keeps an invariant \<open>kept\<close>, what it counts is what it scanned,
  and where it scanned nothing the lists are as they were.
\<close>

definition scan_run :: "(rt_state \<Rightarrow> (nat \<Rightarrow> agroup) \<Rightarrow> bool) \<Rightarrow>
    (nat \<Rightarrow> agroup) \<Rightarrow> rt_state \<Rightarrow> (nat \<Rightarrow> agroup) \<Rightarrow> nat \<Rightarrow> bool" where
  "scan_run kept A s' A' k \<longleftrightarrow>
     kept s' A' \<and> unscanned A = unscanned A' + k \<and> white_set A' \<subseteq> white_set A \<and> (k = 0 \<longrightarrow> A' = A)"

lemma scan_run_trans: "scan_run kept A s1 A1 k \<Longrightarrow> scan_run kept A1 s2 A2 l \<Longrightarrow> scan_run kept A s2 A2 (k + l)"
  unfolding scan_run_def by auto

text \<open>
  What the loops need of the scan of one object, whatever the invariant \<open>kept\<close> says: it
  succeeds, keeps the invariant, uses up one object, and the list leads on to the object
  before it. Marking in the stopped world is one instance, marking while the threads have
  filled the write vector another.
\<close>

locale gray_scanning =
  fixes kept :: "rt_state \<Rightarrow> (nat \<Rightarrow> agroup) \<Rightarrow> bool" and h :: hooks
  assumes kept_heap: "kept s A \<Longrightarrow> heap_marking s A"
    and kept_scan: "kept s A \<Longrightarrow> i \<in> group_indices \<Longrightarrow> grays (A i) \<noteq> [] \<Longrightarrow>
      \<exists>s' A'. scan_object_with_group h i (last (grays (A i))) s = Inr s' \<and> kept s' A' \<and>
        unscanned A = Suc (unscanned A') \<and>
        get_prev (memory s') (last (grays (A i))) = last_or 0 (grays (A' i)) \<and> white_set A' \<subseteq> white_set A"
begin

lemma group_loop_total:
  assumes "kept s A" and "i \<in> group_indices" and "current = last_or 0 (grays (A i))" and "unscanned A < fuel"
  shows "\<exists>s' A' k. scan_group_loop fuel h i current s n = Inr (s', n + int k) \<and>
    scan_run kept A s' A' k \<and> grays (A' i) = []"
  using assms
proof (induction fuel arbitrary: s A current n)
  case 0
  then show ?case by simp
next
  case (Suc fuel)
  show ?case
  proof (cases "grays (A i) = []")
    case True
    then show ?thesis using Suc.prems
      by (intro exI [of _ s] exI [of _ A] exI [of _ 0]) (simp add: scan_run_def)
  next
    case False
    then have cur: "current = last (grays (A i))" using Suc.prems(3) by (simp add: last_or_def)
    from heap_rep_headers_ok(1) [OF kept_heap [OF Suc.prems(1)] framed_marking_rep Suc.prems(2)]
    have "headers_ok (set (grays (A i)))" by (simp add: object_set_def active_def)
    then have nz: "current \<noteq> 0" using headers_ok_last [OF _ False] cur by simp
    obtain s1 A1 where 1: "scan_object_with_group h i current s = Inr s1" "kept s1 A1"
      "unscanned A = Suc (unscanned A1)" "get_prev (memory s1) current = last_or 0 (grays (A1 i))"
      "white_set A1 \<subseteq> white_set A"
      using kept_scan [OF Suc.prems(1,2) False] unfolding cur by blast
    from Suc.IH [OF 1(2) Suc.prems(2) 1(4), of "n + 1"] 1(3) Suc.prems(4)
    obtain s' A' k where 2: "scan_group_loop fuel h i (get_prev (memory s1) current) s1 (n + 1) =
        Inr (s', n + 1 + int k)" "scan_run kept A1 s' A' k" "grays (A' i) = []" by auto
    have "scan_run kept A s' A' (Suc k)" using 2(2) 1(3,5) by (auto simp: scan_run_def)
    then show ?thesis using nz 1(1) 2(1,3)
      by (intro exI [of _ s'] exI [of _ A'] exI [of _ "Suc k"]) (simp add: ac_simps)
  qed
qed

lemma gray_group_total:
  assumes I: "kept s A" and i: "i \<in> group_indices" and f: "unscanned A < fuel"
  shows "\<exists>s' A' k. scan_gray_group fuel h i (s, n) = Inr (s', n + int k) \<and>
    scan_run kept A s' A' k \<and> grays (A' i) = []"
proof -
  note rep = kept_heap [OF I]
  note c = scan_start [OF heap_repD(5) [OF rep i] heap_repD(2) [OF rep]]
  show ?thesis using group_loop_total [OF I i c f] by (simp add: scan_gray_group_def Let_def)
qed

lemma pass_total:
  assumes "kept s A" and "set is \<subseteq> group_indices" and "unscanned A < fuel"
  shows "\<exists>s' A' k. rfold (scan_gray_group fuel h) is (s, n) = Inr (s', n + int k) \<and>
    scan_run kept A s' A' k \<and> (k = 0 \<longrightarrow> (\<forall>i\<in>set is. grays (A' i) = []))"
  using assms
proof (induction "is" arbitrary: s A n)
  case Nil
  then show ?case by (intro exI [of _ s] exI [of _ A] exI [of _ 0]) (simp add: scan_run_def)
next
  case (Cons i "is")
  obtain s1 A1 k1 where 1: "scan_gray_group fuel h i (s, n) = Inr (s1, n + int k1)"
      "scan_run kept A s1 A1 k1" "grays (A1 i) = []"
    using gray_group_total [OF Cons.prems(1) _ Cons.prems(3), of i n] Cons.prems(2) by auto
  then have "kept s1 A1" "unscanned A1 < fuel"
    using Cons.prems(3) by (simp_all add: scan_run_def)
  from Cons.IH [OF this(1) _ this(2), of "n + int k1"] Cons.prems(2)
  obtain s' A' k where 2: "rfold (scan_gray_group fuel h) is (s1, n + int k1) = Inr (s', n + int k1 + int k)"
      "scan_run kept A1 s' A' k" "k = 0 \<longrightarrow> (\<forall>i\<in>set is. grays (A' i) = [])" by auto
  have "k = 0 \<longrightarrow> A' = A1" using 2(2) by (simp add: scan_run_def)
  then show ?case
    using 1 2 scan_run_trans [OF 1(2) 2(2)]
    by (intro exI [of _ s'] exI [of _ A'] exI [of _ "k1 + k"]) (auto simp: ac_simps)
qed

text \<open>
  scan_gray_set ends, with fuel for one scan per object and one pass more, without an
  error, and leaves nothing gray.
\<close>

lemma gray_set_total:
  assumes "kept s A" and "unscanned A < rounds" and "unscanned A < fuel"
  shows "\<exists>s' A'. scan_gray_set rounds fuel h s = Inr s' \<and> kept s' A' \<and>
    gray_set A' = {} \<and> white_set A' \<subseteq> white_set A \<and> unscanned A' \<le> unscanned A"
  using assms
proof (induction rounds arbitrary: s A)
  case 0
  then show ?case by simp
next
  case (Suc rounds)
  obtain s1 A1 k where 1: "rfold (scan_gray_group fuel h) group_list (s, 0) = Inr (s1, int k)"
      "scan_run kept A s1 A1 k" "k = 0 \<longrightarrow> (\<forall>i\<in>group_indices. grays (A1 i) = [])"
    using pass_total [OF Suc.prems(1) _ Suc.prems(3), of group_list 0] by auto
  have M1: "kept s1 A1" "white_set A1 \<subseteq> white_set A" "unscanned A = unscanned A1 + k"
    using 1(2) by (simp_all add: scan_run_def)
  show ?case
  proof (cases "k = 0")
    case True
    then show ?thesis using 1 M1 by (auto simp: gray_set_def)
  next
    case False
    then have "unscanned A1 < rounds" "unscanned A1 < fuel" using Suc.prems(2,3) M1(3) by auto
    from Suc.IH [OF M1(1) this] obtain s' A' where
      "scan_gray_set rounds fuel h s1 = Inr s'" "kept s' A'" "gray_set A' = {}"
      "white_set A' \<subseteq> white_set A1" "unscanned A' \<le> unscanned A1" by blast
    then show ?thesis using M1(2,3) 1(1) False by (intro exI [of _ s'] exI [of _ A']) auto
  qed
qed

end

text \<open>In the stopped world the invariant is the tricolour invariant of \<open>marking\<close>.\<close>

interpretation stopped_scan: gray_scanning "\<lambda>s A. marking h s0 roots A0 s A \<and> scannable h s0 A0" h for h s0 roots A0
proof
  show "marking h s0 roots A0 s A \<and> scannable h s0 A0 \<Longrightarrow> heap_marking s A" for s A
    by (simp add: marking_def marked_from_def)
  show "\<exists>s' A'. scan_object_with_group h i (last (grays (A i))) s = Inr s' \<and>
      (marking h s0 roots A0 s' A' \<and> scannable h s0 A0) \<and> unscanned A = Suc (unscanned A') \<and>
      get_prev (memory s') (last (grays (A i))) = last_or 0 (grays (A' i)) \<and> white_set A' \<subseteq> white_set A"
    if "marking h s0 roots A0 s A \<and> scannable h s0 A0" "i \<in> group_indices" "grays (A i) \<noteq> []" for s A i
    using that by (meson scan_object_with_group_refines)
qed

lemma scan_gray_set_refines:
  assumes "marking h s0 roots A0 s A" and "scannable h s0 A0"
    and "unscanned A < rounds" and "unscanned A < fuel"
  shows "\<exists>s' A'. scan_gray_set rounds fuel h s = Inr s' \<and> marking h s0 roots A0 s' A' \<and>
    gray_set A' = {} \<and> white_set A' \<subseteq> white_set A"
  using stopped_scan.gray_set_total [OF conjI [OF assms(1,2)] assms(3,4)] by blast

end
