(* ===== verification/Write_Barrier.thy ===== *)
theory Write_Barrier
  imports Mark
begin

text \<open>
  The snapshot write barrier (rtgc.c). A store records the object the overwritten word
  referred to, if it is still white, as one bit of RTwrite_vector: one bit per 32 bytes of
  the partition. The collector reads the vector, makes the recorded objects gray, and
  clears the bits it has seen one by one. locked_long_or and locked_long_and are the atomic
  instructions of atomic-booleans.s: each is one update of a long here.
\<close>

subsection \<open>The code\<close>

text \<open>
  MIN_GROUP_SIZE * BITS_PER_LONG has the type of a sizeof, so the quotient and the
  remainder are taken of the unsigned offset.
\<close>

definition mark_write_vector :: "addr \<Rightarrow> rt_state \<Rightarrow> rt_error + rt_state" where
  "mark_write_vector gcptr s =
     (let ptr_offset = uint (gcptr - first_partition_ptr s);
          long_index = ptr_offset div (MIN_GROUP_SIZE * BITS_PER_LONG);
          bit = (ptr_offset mod (MIN_GROUP_SIZE * BITS_PER_LONG)) div MIN_GROUP_SIZE;
          bit_mask = push_bit (nat bit) 1
      in rbind (rassert (bit_mask \<noteq> 0)) (\<lambda>_.
           Inr (s\<lparr>RTwrite_vector := (RTwrite_vector s)
                  (long_index := RTwrite_vector s long_index OR bit_mask)\<rparr>)))"

text \<open>The address a bit of the vector stands for: \<open>base_ptr + (bit * MIN_GROUP_SIZE)\<close>.\<close>

definition slot_ptr :: "rt_state \<Rightarrow> int \<Rightarrow> nat \<Rightarrow> addr" where
  "slot_ptr s index b =
     first_partition_ptr s + word_of_int (index * MIN_GROUP_SIZE * BITS_PER_LONG) +
     word_of_int (int b * MIN_GROUP_SIZE)"

text \<open>The body of the inner loop of scan_write_vector, for one bit.\<close>

definition scan_write_bit :: "int \<Rightarrow> nat \<Rightarrow> rt_state \<times> int \<Rightarrow> rt_error + rt_state \<times> int" where
  "scan_write_bit index b = (\<lambda>(s, mark_count).
     let msk = push_bit b 1 in
     if RTwrite_vector s index AND msk \<noteq> 0 then
       (let gcptr = slot_ptr s index b in
        rbind (if WHITEP (unmarked_color s) (memory s) gcptr then RTmake_object_gray gcptr s else Inr s)
          (\<lambda>s1. Inr (s1\<lparr>RTwrite_vector := (RTwrite_vector s1)
                          (index := RTwrite_vector s1 index AND NOT msk)\<rparr>, mark_count + 1)))
     else Inr (s, mark_count))"

definition scan_write_long :: "int \<Rightarrow> rt_state \<times> int \<Rightarrow> rt_error + rt_state \<times> int" where
  "scan_write_long index = (\<lambda>(s, mark_count).
     if RTwrite_vector s index \<noteq> 0 then
       rfold (scan_write_bit index) [0..<nat BITS_PER_LONG] (s, mark_count)
     else Inr (s, mark_count))"

definition scan_write_vector :: "rt_state \<Rightarrow> rt_error + rt_state \<times> int" where
  "scan_write_vector s =
     rfold scan_write_long (map int [0..<nat (RTwrite_vector_length s)]) (s, 0)"

definition RTwrite_barrier :: "addr \<Rightarrow> 64 word \<Rightarrow> rt_state \<Rightarrow> rt_error + rt_state" where
  "RTwrite_barrier lhs_address rhs s =
     rbind
       (if enable_write_barrier s then
          (let object = memory s lhs_address in
           if IN_HEAP s object then
             rbind (interior_to_gcptr s object) (\<lambda>gcptr.
               if WHITEP (unmarked_color s) (memory s) gcptr \<and> valid_interior_ptr gcptr object
               then mark_write_vector gcptr s else Inr s)
           else Inr s)
        else Inr s)
       (\<lambda>s1. Inr (s1\<lparr>memory := (memory s1)(lhs_address := rhs)\<rparr>))"

text \<open>CHECK_BASH is 0 and CHECK_SETFINIT is 1 in mem-config.h.\<close>

definition RTsafe_bash :: "addr \<Rightarrow> 64 word \<Rightarrow> rt_state \<Rightarrow> rt_error + rt_state" where
  "RTsafe_bash lhs_address rhs s = Inr (s\<lparr>memory := (memory s)(lhs_address := rhs)\<rparr>)"

definition RTsafe_setfInit :: "addr \<Rightarrow> 64 word \<Rightarrow> rt_state \<Rightarrow> rt_error + rt_state" where
  "RTsafe_setfInit lhs_address rhs s =
     rbind (if memory s lhs_address \<noteq> 0 then Inl (Debugger ''RTsafe_setfInit problem'') else Inr s)
       (\<lambda>s1. Inr (s1\<lparr>memory := (memory s1)(lhs_address := rhs)\<rparr>))"

text \<open>
  memory_segment_write_barrier calls Debugger before anything else, so its loop, RTmemcpy
  and RTmemset do not get past it. The loop is kept as the code has it.
\<close>

fun segment_barrier_loop :: "nat \<Rightarrow> addr \<Rightarrow> addr \<Rightarrow> rt_state \<Rightarrow> rt_error + rt_state" where
  "segment_barrier_loop 0 nxt high s = Inl Out_of_fuel"
| "segment_barrier_loop (Suc fuel) nxt high s =
     (if nxt < high then
        rbind
          (let object = memory s nxt in
           if IN_HEAP s object then
             rbind (interior_to_gcptr s object) (\<lambda>gcptr.
               if WHITEP (unmarked_color s) (memory s) gcptr \<and> valid_interior_ptr gcptr object
               then mark_write_vector gcptr s else Inr s)
           else Inr s)
          (segment_barrier_loop fuel (nxt + GC_POINTER_ALIGNMENT) high)
      else Inr s)"

definition memory_segment_write_barrier :: "addr \<Rightarrow> addr \<Rightarrow> rt_state \<Rightarrow> rt_error + rt_state" where
  "memory_segment_write_barrier low high s =
     rbind (Inl (Debugger ''HEY! I haven't been tested!'')) (\<lambda>_ :: unit.
       if enable_write_barrier s then segment_barrier_loop (unat (high - low) + 1) low high s
       else Inr s)"

definition copy_longs :: "addr \<Rightarrow> addr \<Rightarrow> nat \<Rightarrow> mem \<Rightarrow> mem" where
  "copy_longs dst src n m =
     fold (\<lambda>k m'. m'(dst + of_nat (8 * k) := m (src + of_nat (8 * k)))) [0..<n] m"

definition RTmemcpy :: "addr \<Rightarrow> addr \<Rightarrow> int \<Rightarrow> rt_state \<Rightarrow> rt_error + rt_state" where
  "RTmemcpy p1 p2 num_bytes s =
     rbind (memory_segment_write_barrier p1 (p1 + word_of_int num_bytes) s) (\<lambda>s1.
       Inr (s1\<lparr>memory := copy_longs p1 p2 (nat (num_bytes div 8)) (memory s1)\<rparr>))"

definition RTrecordcpy :: "addr \<Rightarrow> addr \<Rightarrow> int \<Rightarrow> rt_state \<Rightarrow> rt_error + rt_state" where
  "RTrecordcpy p1 p2 num_bytes s = RTmemcpy p1 p2 num_bytes s"

text \<open>memset of whole longs, each eight times the byte.\<close>

definition fill_longs :: "addr \<Rightarrow> 64 word \<Rightarrow> nat \<Rightarrow> mem \<Rightarrow> mem" where
  "fill_longs dst w n m = fold (\<lambda>k m'. m'(dst + of_nat (8 * k) := w)) [0..<n] m"

definition RTmemset :: "addr \<Rightarrow> int \<Rightarrow> int \<Rightarrow> rt_state \<Rightarrow> rt_error + rt_state" where
  "RTmemset p1 data num_bytes s =
     rbind (memory_segment_write_barrier p1 (p1 + word_of_int num_bytes) s) (\<lambda>s1.
       Inr (s1\<lparr>memory := fill_longs p1 (word_of_int (data mod 256) * 0x0101010101010101)
                           (nat (num_bytes div 8)) (memory s1)\<rparr>))"

subsection \<open>Bits and addresses\<close>

definition slot_index :: "rt_state \<Rightarrow> addr \<Rightarrow> int" where
  "slot_index s x = uint (x - first_partition_ptr s) div 2048"

definition slot_bit :: "rt_state \<Rightarrow> addr \<Rightarrow> nat" where
  "slot_bit s x = nat ((uint (x - first_partition_ptr s) mod 2048) div 32)"

lemma slot_bit_less: "slot_bit s x < 64"
  by (simp add: slot_bit_def nat_less_iff) 

lemma mark_write_vector_eq:
  "mark_write_vector x s = Inr (s\<lparr>RTwrite_vector := (RTwrite_vector s)
     (slot_index s x := RTwrite_vector s (slot_index s x) OR push_bit (slot_bit s x) 1)\<rparr>)"
proof -
  have "bit (push_bit (slot_bit s x) (1 :: 64 word)) (slot_bit s x)"
    using slot_bit_less [of s x] by (simp add: bit_push_bit_iff del: push_bit_of_1)
  then have "push_bit (slot_bit s x) (1 :: 64 word) \<noteq> 0" by (metis bit_0_eq bot_apply bot_bool_def)
  then show ?thesis
    by (simp add: mark_write_vector_def Let_def config_defs slot_index_def slot_bit_def)
qed

text \<open>
  The round trip: an object on a 32 byte boundary of the partition has a bit of its own
  inside the vector, and the bit leads back to it.
\<close>

definition slot_aligned :: "rt_state \<Rightarrow> addr \<Rightarrow> bool" where
  "slot_aligned s x \<longleftrightarrow> uint (x - first_partition_ptr s) mod 32 = 0"

lemma slot_ptr_roundtrip:
  assumes "slot_aligned s x"
  shows "slot_ptr s (slot_index s x) (slot_bit s x) = x"
proof -
  let ?o = "uint (x - first_partition_ptr s)"
  have r: "slot_index s x * 2048 + int (slot_bit s x) * 32 = ?o"
  proof -
    have "(?o mod 2048) mod 32 = 0" using assms by (simp add: slot_aligned_def mod_mod_cancel)
    then have "(?o mod 2048) div 32 * 32 = ?o mod 2048" by (metis add.right_neutral div_mult_mod_eq)
    moreover have "0 \<le> (?o mod 2048) div 32" by (simp add: pos_imp_zdiv_nonneg_iff)
    ultimately show ?thesis by (simp add: slot_index_def slot_bit_def)
  qed
  have "slot_ptr s (slot_index s x) (slot_bit s x) =
      first_partition_ptr s + word_of_int (slot_index s x * 2048 + int (slot_bit s x) * 32)"
    by (simp add: slot_ptr_def config_defs)
  also have "\<dots> = x" unfolding r by simp
  finally show ?thesis .
qed

lemma slot_index_bounds:
  assumes "layout_ok s" and "IN_PARTITION s x"
    and "RTwrite_vector_length s = total_partition_pages s * BYTES_PER_PAGE div 2048"
  shows "0 \<le> slot_index s x" and "slot_index s x < RTwrite_vector_length s"
proof -
  have "uint (x - first_partition_ptr s) = uint x - uint (first_partition_ptr s)"
    using assms(2) by (simp add: IN_PARTITION_def uint_sub_lem [THEN iffD1] word_le_def)
  then have "uint (x - first_partition_ptr s) < total_partition_pages s * BYTES_PER_PAGE"
    using assms(1,2) unfolding IN_PARTITION_uint layout_ok_def by simp
  then show "0 \<le> slot_index s x" and "slot_index s x < RTwrite_vector_length s"
    unfolding assms(3) slot_index_def by (simp_all add: config_defs pos_imp_zdiv_nonneg_iff)
qed

lemma slot_inject:
  assumes "slot_aligned s x" and "slot_aligned s y"
    and "slot_index s x = slot_index s y" and "slot_bit s x = slot_bit s y"
  shows "x = y"
  using slot_ptr_roundtrip [OF assms(1)] slot_ptr_roundtrip [OF assms(2)] assms(3,4) by metis

text \<open>Which objects a vector records.\<close>

definition recorded :: "rt_state \<Rightarrow> addr \<Rightarrow> bool" where
  "recorded s x \<longleftrightarrow> bit (RTwrite_vector s (slot_index s x)) (slot_bit s x)"

lemma recorded_mark:
  assumes "mark_write_vector x s = Inr s'" and "slot_aligned s x" and "slot_aligned s y"
  shows "recorded s' y \<longleftrightarrow> y = x \<or> recorded s y"
proof -
  have s': "s' = s\<lparr>RTwrite_vector := (RTwrite_vector s)
      (slot_index s x := RTwrite_vector s (slot_index s x) OR push_bit (slot_bit s x) 1)\<rparr>"
    using assms(1) by (simp add: mark_write_vector_eq)
  have i: "slot_index s' y = slot_index s y" "slot_bit s' y = slot_bit s y"
    by (simp_all add: s' slot_index_def slot_bit_def)
  have v: "RTwrite_vector s' = (RTwrite_vector s)
      (slot_index s x := RTwrite_vector s (slot_index s x) OR push_bit (slot_bit s x) 1)"
    by (simp add: s')
  have "y = x" if "slot_index s y = slot_index s x" "slot_bit s y = slot_bit s x"
    using slot_inject [OF assms(3,2) that] .
  then show ?thesis
    using slot_bit_less [of s y] slot_bit_less [of s x]
    by (auto simp: recorded_def i v bit_or_iff bit_push_bit_iff bit_1_iff simp del: push_bit_of_1)
qed

subsection \<open>A store through the barrier\<close>

text \<open>The bit of an object set in the vector, as a function of the state.\<close>

definition record_slot :: "addr \<Rightarrow> rt_state \<Rightarrow> rt_state" where
  "record_slot x s = s\<lparr>RTwrite_vector := (RTwrite_vector s)
     (slot_index s x := RTwrite_vector s (slot_index s x) OR push_bit (slot_bit s x) 1)\<rparr>"

lemma mark_write_vector_record: "mark_write_vector x s = Inr (record_slot x s)"
  by (simp add: mark_write_vector_eq record_slot_def)

lemma record_slot_fields [simp]:
  "memory (record_slot x s) = memory s" "groups (record_slot x s) = groups s"
  "pages (record_slot x s) = pages s" "first_partition_ptr (record_slot x s) = first_partition_ptr s"
  "last_partition_ptr (record_slot x s) = last_partition_ptr s"
  "marked_color (record_slot x s) = marked_color s" "unmarked_color (record_slot x s) = unmarked_color s"
  "enable_write_barrier (record_slot x s) = enable_write_barrier s"
  by (simp_all add: record_slot_def)

text \<open>The object the barrier records for the word a store overwrites.\<close>

definition overwritten_white :: "rt_state \<Rightarrow> addr \<Rightarrow> addr option" where
  "overwritten_white s lhs =
     (case ptr_object s (memory s lhs) of
        None \<Rightarrow> None
      | Some x \<Rightarrow> if WHITEP (unmarked_color s) (memory s) x then Some x else None)"

definition barrier_state :: "rt_state \<Rightarrow> addr \<Rightarrow> rt_state" where
  "barrier_state s lhs =
     (case overwritten_white s lhs of None \<Rightarrow> s | Some x \<Rightarrow> record_slot x s)"

lemma barrier_word_eq:
  "(if IN_HEAP s object then
      rbind (interior_to_gcptr s object) (\<lambda>gcptr.
        if WHITEP (unmarked_color s) (memory s) gcptr \<and> valid_interior_ptr gcptr object
        then mark_write_vector gcptr s else Inr s)
    else Inr s) =
   Inr (case ptr_object s object of
          None \<Rightarrow> s
        | Some x \<Rightarrow> if WHITEP (unmarked_color s) (memory s) x then record_slot x s else s)"
proof (cases "IN_HEAP s object")
  case True
  then obtain i where "IN_PARTITION s object" "pgroup (pages s (PTR_TO_PAGE_INDEX s object)) = Group i"
    by (auto simp: IN_HEAP_def PAGE_GROUP_def PTR_TO_GROUP_def external_less_iff split: if_splits)
  then show ?thesis using True
    by (simp add: interior_to_gcptr_eq ptr_object_def Let_def mark_write_vector_record)
next
  case False
  then have "ptr_object s object = None"
    by (auto simp: IN_HEAP_def PAGE_GROUP_def PTR_TO_GROUP_def ptr_object_def Let_def
        split: gptr.splits if_splits)
  then show ?thesis using False by simp
qed

lemma RTwrite_barrier_eq:
  "RTwrite_barrier lhs rhs s =
     (let s1 = (if enable_write_barrier s then barrier_state s lhs else s)
      in Inr (s1\<lparr>memory := (memory s1)(lhs := rhs)\<rparr>))"
proof (cases "enable_write_barrier s")
  case True
  then show ?thesis
    unfolding RTwrite_barrier_def Let_def barrier_word_eq if_P [OF True]
    by (simp add: barrier_state_def overwritten_white_def split: option.splits)
next
  case False
  then show ?thesis by (simp add: RTwrite_barrier_def Let_def)
qed

lemma recorded_record_slot:
  assumes "slot_aligned s x" and "slot_aligned s y"
  shows "recorded (record_slot x s) y \<longleftrightarrow> y = x \<or> recorded s y"
  using recorded_mark [OF mark_write_vector_record assms] .

lemma slot_frame:
  assumes "first_partition_ptr s' = first_partition_ptr s"
  shows "slot_index s' x = slot_index s x" and "slot_bit s' x = slot_bit s x"
    and "slot_ptr s' i b = slot_ptr s i b" and "slot_aligned s' x = slot_aligned s x"
  by (simp_all add: slot_index_def slot_bit_def slot_ptr_def slot_aligned_def assms)

subsection \<open>Reading the vector\<close>

text \<open>The objects recorded, in the order in which the collector finds them.\<close>

definition long_slots :: "rt_state \<Rightarrow> int \<Rightarrow> addr list" where
  "long_slots s index = map (slot_ptr s index) (filter (bit (RTwrite_vector s index)) [0..<64])"

definition vector_slots :: "rt_state \<Rightarrow> addr list" where
  "vector_slots s = concat (map (long_slots s) (map int [0..<nat (RTwrite_vector_length s)]))"

text \<open>A state that differs from \<open>s0\<close> by marking and by the write vector.\<close>

definition vector_frame :: "addr set \<Rightarrow> rt_state \<Rightarrow> rt_state \<Rightarrow> bool" where
  "vector_frame Ob s s' \<longleftrightarrow> gc_frame Ob (s\<lparr>RTwrite_vector := RTwrite_vector s'\<rparr>) s'"

lemma gc_frame_vector:
  "gc_frame Ob s s' \<Longrightarrow> gc_frame Ob (s\<lparr>RTwrite_vector := v\<rparr>) (s'\<lparr>RTwrite_vector := v\<rparr>)"
  unfolding gc_frame_def
  by (auto intro: rt_state.equality dest: arg_cong [where f = "RTwrite_vector_update (\<lambda>_. v)"])

lemma vector_frame_refl [simp]: "vector_frame Ob s s"
  by (simp add: vector_frame_def)

lemma vector_frame_trans:
  assumes "vector_frame Ob s s'" and "vector_frame Ob s' s''"
  shows "vector_frame Ob s s''"
proof -
  have "gc_frame Ob (s\<lparr>RTwrite_vector := RTwrite_vector s''\<rparr>) (s'\<lparr>RTwrite_vector := RTwrite_vector s''\<rparr>)"
    using gc_frame_vector [OF assms(1) [unfolded vector_frame_def], of "RTwrite_vector s''"] by simp
  then show ?thesis using assms(2) gc_frame_trans unfolding vector_frame_def by blast
qed

lemma gc_frame_vector_frame: "gc_frame Ob s s' \<Longrightarrow> vector_frame Ob s s'"
  using gc_frame_vector [of Ob s s' "RTwrite_vector s'"] by (simp add: vector_frame_def)

lemma vector_frame_first: "vector_frame Ob s s' \<Longrightarrow> first_partition_ptr s' = first_partition_ptr s"
  unfolding vector_frame_def by (drule gc_frame_fields(1)) simp

lemma heap_rep_vector [simp]: "heap_rep P (s\<lparr>RTwrite_vector := v\<rparr>) A = heap_rep P s A"
  by (simp add: heap_rep_def layout_ok_def groups_ok_def geometry_def IN_PARTITION_def
      PTR_TO_GROUP_def PTR_TO_PAGE_INDEX_def)

lemma heap_marking_object_white:
  assumes rep: "heap_marking s A" and x: "x \<in> all_objects A"
  shows "WHITEP (unmarked_color s) (memory s) x \<longleftrightarrow> x \<in> white_set A"
proof -
  obtain i where i: "i \<in> group_indices" "x \<in> object_set A i" using x by (auto simp: all_objects_def)
  have "j = i" if "j \<in> group_indices" "x \<in> set (whites (A j))" for j
    using geometry_group_unique [OF heap_repD(4) [OF rep] that(1) i(1) _ i(2)] that(2)
    by (simp add: object_set_def)
  then show ?thesis
    using heap_marking_white_iff [OF rep i] i(1) by (auto simp: white_set_def)
qed

lemma scan_write_bit_refines:
  assumes rep: "heap_marking s A" and b: "b < 64"
    and x: "bit (RTwrite_vector s index) b \<Longrightarrow> slot_ptr s index b \<in> all_objects A"
  shows "\<exists>s'. scan_write_bit index b (s, n) =
      Inr (s', n + (if bit (RTwrite_vector s index) b then 1 else 0)) \<and>
    heap_marking s' (if bit (RTwrite_vector s index) b then a_gray (slot_ptr s index b) A else A) \<and>
    vector_frame (all_objects A) s s' \<and> (\<forall>j. j \<noteq> index \<longrightarrow> RTwrite_vector s' j = RTwrite_vector s j) \<and>
    (\<forall>c. bit (RTwrite_vector s' index) c \<longleftrightarrow> bit (RTwrite_vector s index) c \<and> c \<noteq> b)"
proof -
  let ?v = "RTwrite_vector s index" and ?x = "slot_ptr s index b"
  have t: "?v AND push_bit b 1 \<noteq> 0 \<longleftrightarrow> bit ?v b"
    by (simp add: bit_iff_and_push_bit_not_eq_0 del: push_bit_of_1)
  show ?thesis
  proof (cases "bit ?v b")
    case False
    then show ?thesis using t rep
      by (intro exI [of _ s]) (auto simp: scan_write_bit_def Let_def)
  next
    case True
    have "\<exists>s1. (if WHITEP (unmarked_color s) (memory s) ?x then RTmake_object_gray ?x s else Inr s) = Inr s1 \<and>
        heap_marking s1 (a_gray ?x A) \<and> gc_frame (all_objects A) s s1"
    proof (cases "?x \<in> white_set A")
      case True
      then obtain i where "i \<in> group_indices" "?x \<in> set (whites (A i))" by (auto simp: white_set_def)
      from RTmake_object_gray_refines [OF rep this] show ?thesis
        using True heap_marking_object_white [OF rep x [OF \<open>bit ?v b\<close>]] by auto
    next
      case False
      then have "a_gray ?x A = A" by (intro a_gray_not_white) (auto simp: white_set_def)
      then show ?thesis using False heap_marking_object_white [OF rep x [OF \<open>bit ?v b\<close>]] rep by simp
    qed
    then obtain s1 where s1: "(if WHITEP (unmarked_color s) (memory s) ?x then RTmake_object_gray ?x s else Inr s) = Inr s1"
        "heap_marking s1 (a_gray ?x A)" "gc_frame (all_objects A) s s1" by blast
    have v: "RTwrite_vector s1 = RTwrite_vector s" by (rule gc_frame_fields(17) [OF s1(3)])
    define s2 where "s2 = s1\<lparr>RTwrite_vector := (RTwrite_vector s1)(index := RTwrite_vector s1 index AND NOT (push_bit b 1))\<rparr>"
    have "scan_write_bit index b (s, n) = Inr (s2, n + 1)"
      using True t s1(1) by (simp add: scan_write_bit_def Let_def s2_def del: push_bit_of_1)
    moreover have "heap_marking s2 (a_gray ?x A)" using s1(2) by (simp add: s2_def)
    moreover have "vector_frame (all_objects A) s s2"
      using gc_frame_vector [OF s1(3), of "RTwrite_vector s2"] by (simp add: vector_frame_def s2_def)
    moreover have "bit (RTwrite_vector s2 index) c \<longleftrightarrow> bit ?v c \<and> c \<noteq> b" for c
      using b bit_64_bound by (auto simp: s2_def v bit_and_iff bit_not_iff bit_push_bit_iff bit_1_iff
          simp del: push_bit_of_1)
    moreover have "\<forall>j. j \<noteq> index \<longrightarrow> RTwrite_vector s2 j = RTwrite_vector s j"
      by (simp add: s2_def v)
    ultimately show ?thesis using True by (intro exI [of _ s2]) simp
  qed
qed

lemma scan_bits_refine:
  assumes "heap_marking s A" and "\<forall>b\<in>set bs. b < 64" and "distinct bs"
    and "\<And>b. b \<in> set bs \<Longrightarrow> bit (RTwrite_vector s index) b \<Longrightarrow> slot_ptr s index b \<in> all_objects A"
  shows "\<exists>s'. rfold (scan_write_bit index) bs (s, n) =
      Inr (s', n + int (length (filter (bit (RTwrite_vector s index)) bs))) \<and>
    heap_marking s' (fold a_gray (map (slot_ptr s index) (filter (bit (RTwrite_vector s index)) bs)) A) \<and>
    vector_frame (all_objects A) s s' \<and> (\<forall>j. j \<noteq> index \<longrightarrow> RTwrite_vector s' j = RTwrite_vector s j) \<and>
    (\<forall>c. bit (RTwrite_vector s' index) c \<longleftrightarrow> bit (RTwrite_vector s index) c \<and> c \<notin> set bs)"
  using assms
proof (induction bs arbitrary: s A n)
  case Nil
  then show ?case by simp
next
  case (Cons b bs)
  let ?v = "RTwrite_vector s index"
  let ?A1 = "if bit ?v b then a_gray (slot_ptr s index b) A else A"
  let ?n1 = "n + (if bit ?v b then 1 else 0)"
  obtain s1 where 1: "scan_write_bit index b (s, n) = Inr (s1, ?n1)" "heap_marking s1 ?A1"
      "vector_frame (all_objects A) s s1" "\<forall>j. j \<noteq> index \<longrightarrow> RTwrite_vector s1 j = RTwrite_vector s j"
      "\<forall>c. bit (RTwrite_vector s1 index) c \<longleftrightarrow> bit ?v c \<and> c \<noteq> b"
    using scan_write_bit_refines [OF Cons.prems(1), of b index n] Cons.prems(2,4) by auto
  have all: "all_objects ?A1 = all_objects A" by (simp add: all_objects_def)
  have sp: "slot_ptr s1 index = slot_ptr s index"
    by (rule ext) (rule slot_frame(3) [OF vector_frame_first [OF 1(3)]])
  have fl: "filter (bit (RTwrite_vector s1 index)) bs = filter (bit ?v) bs"
    using 1(5) Cons.prems(3) by (intro filter_cong) auto
  have "\<exists>s'. rfold (scan_write_bit index) bs (s1, ?n1) =
      Inr (s', ?n1 + int (length (filter (bit (RTwrite_vector s1 index)) bs))) \<and>
    heap_marking s' (fold a_gray (map (slot_ptr s1 index) (filter (bit (RTwrite_vector s1 index)) bs)) ?A1) \<and>
    vector_frame (all_objects ?A1) s1 s' \<and> (\<forall>j. j \<noteq> index \<longrightarrow> RTwrite_vector s' j = RTwrite_vector s1 j) \<and>
    (\<forall>c. bit (RTwrite_vector s' index) c \<longleftrightarrow> bit (RTwrite_vector s1 index) c \<and> c \<notin> set bs)"
    using Cons.prems 1(5) by (intro Cons.IH [OF 1(2)]) (simp_all add: all sp)
  then obtain s2 where 2: "rfold (scan_write_bit index) bs (s1, ?n1) =
      Inr (s2, ?n1 + int (length (filter (bit ?v) bs)))"
    "heap_marking s2 (fold a_gray (map (slot_ptr s index) (filter (bit ?v) bs)) ?A1)"
    "vector_frame (all_objects A) s1 s2" "\<forall>j. j \<noteq> index \<longrightarrow> RTwrite_vector s2 j = RTwrite_vector s1 j"
    "\<forall>c. bit (RTwrite_vector s2 index) c \<longleftrightarrow> bit (RTwrite_vector s1 index) c \<and> c \<notin> set bs"
    unfolding fl sp all by blast
  have "rfold (scan_write_bit index) (b # bs) (s, n) =
      Inr (s2, n + int (length (filter (bit ?v) (b # bs))))"
    using 1(1) 2(1) by simp
  moreover have "heap_marking s2 (fold a_gray (map (slot_ptr s index) (filter (bit ?v) (b # bs))) A)"
    using 2(2) by (cases "bit ?v b") simp_all
  moreover have "vector_frame (all_objects A) s s2" by (rule vector_frame_trans [OF 1(3) 2(3)])
  moreover have "\<forall>j. j \<noteq> index \<longrightarrow> RTwrite_vector s2 j = RTwrite_vector s j" using 1(4) 2(4) by simp
  moreover have "\<forall>c. bit (RTwrite_vector s2 index) c \<longleftrightarrow> bit ?v c \<and> c \<notin> set (b # bs)"
    using 1(5) 2(5) by auto
  ultimately show ?case by blast
qed

lemma object_set_fold_a_gray [simp]: "object_set (fold a_gray xs A) = object_set A"
  by (induction xs arbitrary: A) simp_all

lemma all_objects_fold_a_gray [simp]: "all_objects (fold a_gray xs A) = all_objects A"
  by (simp add: all_objects_def)

lemma scan_write_long_refines:
  assumes "heap_marking s A" and "set (long_slots s index) \<subseteq> all_objects A"
  shows "\<exists>s'. scan_write_long index (s, n) = Inr (s', n + int (length (long_slots s index))) \<and>
    heap_marking s' (fold a_gray (long_slots s index) A) \<and> vector_frame (all_objects A) s s' \<and>
    RTwrite_vector s' = (RTwrite_vector s)(index := 0)"
proof (cases "RTwrite_vector s index = 0")
  case True
  then show ?thesis using assms(1)
    by (intro exI [of _ s]) (auto simp: scan_write_long_def long_slots_def fun_eq_iff)
next
  case False
  have "\<exists>s'. rfold (scan_write_bit index) [0..<64] (s, n) =
      Inr (s', n + int (length (filter (bit (RTwrite_vector s index)) [0..<64]))) \<and>
    heap_marking s' (fold a_gray (map (slot_ptr s index) (filter (bit (RTwrite_vector s index)) [0..<64])) A) \<and>
    vector_frame (all_objects A) s s' \<and> (\<forall>j. j \<noteq> index \<longrightarrow> RTwrite_vector s' j = RTwrite_vector s j) \<and>
    (\<forall>c. bit (RTwrite_vector s' index) c \<longleftrightarrow> bit (RTwrite_vector s index) c \<and> c \<notin> set [0..<64])"
    using assms(2) by (intro scan_bits_refine [OF assms(1)]) (auto simp: long_slots_def)
  then obtain s' where s': "rfold (scan_write_bit index) [0..<64] (s, n) =
      Inr (s', n + int (length (long_slots s index)))"
    "heap_marking s' (fold a_gray (long_slots s index) A)" "vector_frame (all_objects A) s s'"
    "\<forall>j. j \<noteq> index \<longrightarrow> RTwrite_vector s' j = RTwrite_vector s j"
    "\<forall>c. bit (RTwrite_vector s' index) c \<longleftrightarrow> bit (RTwrite_vector s index) c \<and> c \<notin> set [0..<64]"
    unfolding long_slots_def by auto
  have "RTwrite_vector s' index = 0"
    using s'(5) bit_64_bound by (intro bit_word_eqI) auto
  then have "RTwrite_vector s' = (RTwrite_vector s)(index := 0)" using s'(4) by (auto simp: fun_eq_iff)
  moreover have "scan_write_long index (s, n) = Inr (s', n + int (length (long_slots s index)))"
    using False s'(1) by (simp add: scan_write_long_def config_defs)
  ultimately show ?thesis using s'(2,3) by blast
qed

lemma scan_longs_refine:
  assumes "heap_marking s A" and "distinct is"
    and "\<And>i. i \<in> set is \<Longrightarrow> set (long_slots s i) \<subseteq> all_objects A"
  shows "\<exists>s'. rfold scan_write_long is (s, n) = Inr (s', n + int (length (concat (map (long_slots s) is)))) \<and>
    heap_marking s' (fold a_gray (concat (map (long_slots s) is)) A) \<and> vector_frame (all_objects A) s s' \<and>
    (\<forall>i. RTwrite_vector s' i = (if i \<in> set is then 0 else RTwrite_vector s i))"
  using assms
proof (induction "is" arbitrary: s A n)
  case Nil
  then show ?case by simp
next
  case (Cons i "is")
  let ?A1 = "fold a_gray (long_slots s i) A" and ?n1 = "n + int (length (long_slots s i))"
  obtain s1 where 1: "scan_write_long i (s, n) = Inr (s1, ?n1)" "heap_marking s1 ?A1"
      "vector_frame (all_objects A) s s1" "RTwrite_vector s1 = (RTwrite_vector s)(i := 0)"
    using scan_write_long_refines [OF Cons.prems(1) Cons.prems(3) [of i], of n] by auto
  have ls: "long_slots s1 j = long_slots s j" if "j \<noteq> i" for j
    unfolding long_slots_def slot_frame(3) [OF vector_frame_first [OF 1(3)]]
    by (simp add: 1(4) that)
  have cm: "map (long_slots s1) is = map (long_slots s) is"
    using Cons.prems(2) by (intro map_cong refl ls) auto
  have "\<exists>s'. rfold scan_write_long is (s1, ?n1) = Inr (s', ?n1 + int (length (concat (map (long_slots s1) is)))) \<and>
    heap_marking s' (fold a_gray (concat (map (long_slots s1) is)) ?A1) \<and>
    vector_frame (all_objects ?A1) s1 s' \<and>
    (\<forall>j. RTwrite_vector s' j = (if j \<in> set is then 0 else RTwrite_vector s1 j))"
  proof (rule Cons.IH [OF 1(2)])
    show "distinct is" using Cons.prems(2) by simp
    fix j assume j: "j \<in> set is"
    then have "j \<noteq> i" using Cons.prems(2) by auto
    with j Cons.prems(3) [of j] show "set (long_slots s1 j) \<subseteq> all_objects ?A1" by (simp add: ls)
  qed
  then obtain s2 where 2: "rfold scan_write_long is (s1, ?n1) = Inr (s2, ?n1 + int (length (concat (map (long_slots s) is))))"
    "heap_marking s2 (fold a_gray (concat (map (long_slots s) is)) ?A1)" "vector_frame (all_objects A) s1 s2"
    "\<forall>j. RTwrite_vector s2 j = (if j \<in> set is then 0 else RTwrite_vector s1 j)"
    unfolding cm by auto
  show ?case
    using 1(1) 2 vector_frame_trans [OF 1(3) 2(3)] by (intro exI [of _ s2]) (auto simp: 1(4))
qed

text \<open>
  scan_write_vector makes every recorded object gray that is still white, clears the vector
  and returns the number of bits it found set.
\<close>

lemma scan_write_vector_refines:
  assumes "heap_marking s A" and "set (vector_slots s) \<subseteq> all_objects A"
  shows "\<exists>s'. scan_write_vector s = Inr (s', int (length (vector_slots s))) \<and>
    heap_marking s' (fold a_gray (vector_slots s) A) \<and> vector_frame (all_objects A) s s' \<and>
    (\<forall>i. 0 \<le> i \<longrightarrow> i < RTwrite_vector_length s \<longrightarrow> RTwrite_vector s' i = 0)"
proof -
  let ?is = "map int [0..<nat (RTwrite_vector_length s)]"
  have "\<exists>s'. rfold scan_write_long ?is (s, 0) = Inr (s', 0 + int (length (concat (map (long_slots s) ?is)))) \<and>
    heap_marking s' (fold a_gray (concat (map (long_slots s) ?is)) A) \<and> vector_frame (all_objects A) s s' \<and>
    (\<forall>i. RTwrite_vector s' i = (if i \<in> set ?is then 0 else RTwrite_vector s i))"
    using assms(2) by (intro scan_longs_refine [OF assms(1)]) (auto simp: vector_slots_def distinct_map)
  moreover have "i \<in> set ?is \<longleftrightarrow> 0 \<le> i \<and> i < RTwrite_vector_length s" for i
    by (auto simp: image_iff) (metis atLeastLessThan_iff int_nat_eq le0 zless_nat_conj less_nat_zero_code nat_int order_le_less_trans zero_less_nat_eq)
  ultimately show ?thesis unfolding scan_write_vector_def vector_slots_def by auto
qed

end
