(* ===== verification/Roots.thy ===== *)
theory Roots
  imports Write_Barrier
begin

text \<open>
  The root set (rtgc.c, register_global_root of rtalloc.c): the registers and stacks the
  flip saved, the registered global variables, the static space and the root scanners of
  the client. All of it lies in memory. The lemmas show that scanning the root set traces
  the words of these areas, one after the other.
\<close>

subsection \<open>Registration\<close>

text \<open>
  RTregister_root_scanner and RTregister_custom_scanner store into slot 0 and count up.
  register_global_root returns the state unlocked; the array is full at MAX_GLOBAL_ROOTS.
\<close>

definition RTregister_root_scanner :: "(mem \<Rightarrow> addr list) \<Rightarrow> hooks \<Rightarrow> hooks" where
  "RTregister_root_scanner root_scanner h =
     h\<lparr>root_scanners := (root_scanners h)[0 := Some root_scanner],
       total_root_scanners := total_root_scanners h + 1\<rparr>"

definition RTregister_custom_scanner ::
    "(mem \<Rightarrow> addr \<Rightarrow> addr \<Rightarrow> addr list) \<Rightarrow> hooks \<Rightarrow> hooks \<times> 64 word" where
  "RTregister_custom_scanner scanner h =
     (h\<lparr>custom_scanner := Some scanner, total_custom_scanners := total_custom_scanners h + 1\<rparr>,
      SC_CUSTOM1)"

definition register_global_root :: "addr \<Rightarrow> rt_state \<Rightarrow> rt_error + rt_state" where
  "register_global_root root s =
     (if length (global_roots s) = MAX_GLOBAL_ROOTS then Inl (Debugger ''global roots full!'')
      else Inr (s\<lparr>global_roots := global_roots s @ [root]\<rparr>))"

text \<open>The length is not used.\<close>

definition RTregister_no_write_barrier_state :: "addr \<Rightarrow> int \<Rightarrow> rt_state \<Rightarrow> rt_state" where
  "RTregister_no_write_barrier_state start len s = s\<lparr>RTno_write_barrier_state_ptr := start\<rparr>"

definition no_hooks :: hooks where
  "no_hooks = \<lparr>custom_scanner = None, total_custom_scanners = 0,
     root_scanners = replicate 10 None, total_root_scanners = 0, metadata_fuel = 0\<rparr>"

subsection \<open>Scanning the roots\<close>

definition scan_saved_registers :: "nat \<Rightarrow> rt_state \<Rightarrow> rt_error + rt_state" where
  "scan_saved_registers i s =
     (let regs = registers (saved_threads s ! i) in scan_memory_segment regs (regs + 23 * 8) s)"

definition scan_saved_stack :: "nat \<Rightarrow> rt_state \<Rightarrow> rt_error + rt_state" where
  "scan_saved_stack i s =
     (let top = saved_stack_base (saved_threads s ! i);
          bottom = top + word_of_int (saved_stack_size (saved_threads s ! i));
          ptr_aligned_top = top AND NOT (GC_POINTER_ALIGNMENT - 1)
      in scan_memory_segment ptr_aligned_top bottom s)"

definition scan_saved_thread_state :: "nat \<Rightarrow> rt_state \<Rightarrow> rt_error + rt_state" where
  "scan_saved_thread_state i s = rbind (scan_saved_registers i s) (scan_saved_stack i)"

text \<open>
  saved_no_write_barrier_state is a global of its own outside memory: the segment from its
  address to its end is that one word.
\<close>

definition scan_threads :: "rt_state \<Rightarrow> rt_error + rt_state" where
  "scan_threads s =
     rbind (rfold scan_saved_thread_state [0..<total_saved_threads s] s) (\<lambda>s1.
       if saved_no_write_barrier_state s1 \<noteq> 0
       then RTtrace_pointer (saved_no_write_barrier_state s1) s1 else Inr s1)"

definition scan_global_root :: "nat \<Rightarrow> rt_state \<Rightarrow> rt_error + rt_state" where
  "scan_global_root i s = RTtrace_pointer (memory s (global_roots s ! i)) s"

definition scan_global_roots :: "rt_state \<Rightarrow> rt_error + rt_state" where
  "scan_global_roots s = rfold scan_global_root [0..<length (global_roots s)] s"

text \<open>The size of a static object: the header long, cut to an int and shifted.\<close>

definition static_object_size :: "mem \<Rightarrow> addr \<Rightarrow> int" where
  "static_object_size m nxt = signed_take_bit 31 (uint (m nxt)) div 2 ^ LINK_INFO_BITS"

fun scan_static_loop :: "nat \<Rightarrow> hooks \<Rightarrow> addr \<Rightarrow> addr \<Rightarrow> rt_state \<Rightarrow> rt_error + rt_state" where
  "scan_static_loop 0 h nxt end_ptr s = Inl Out_of_fuel"
| "scan_static_loop (Suc fuel) h nxt end_ptr s =
     (if nxt < end_ptr then
        (let low = nxt + 8;
             size = static_object_size (memory s) nxt;
             nxt' = low + word_of_int size;
             gcptr = low - word_of_int SIZEOF_GC_HEADER
         in rbind (scan_object h gcptr (size + SIZEOF_GC_HEADER) s)
              (scan_static_loop fuel h nxt' end_ptr))
      else Inr s)"

definition scan_static_space :: "nat \<Rightarrow> hooks \<Rightarrow> rt_state \<Rightarrow> rt_error + rt_state" where
  "scan_static_space fuel h s = scan_static_loop fuel h (first_static_ptr s) (static_frontier_ptr s) s"

definition run_root_scanner :: "hooks \<Rightarrow> nat \<Rightarrow> rt_state \<Rightarrow> rt_error + rt_state" where
  "run_root_scanner h i s =
     (if i < length (root_scanners h) then
        (case root_scanners h ! i of
           None \<Rightarrow> Inl Null_deref | Some words \<Rightarrow> rfold RTtrace_pointer (words (memory s)) s)
      else Inl Wild_access)"

definition scan_root_set :: "nat \<Rightarrow> hooks \<Rightarrow> rt_state \<Rightarrow> rt_error + rt_state" where
  "scan_root_set fuel h s =
     rbind (scan_threads s) (\<lambda>s1.
     rbind (scan_global_roots s1) (\<lambda>s2.
     rbind (scan_static_space fuel h s2) (\<lambda>s3.
       rfold (run_root_scanner h) [0..<total_root_scanners h] s3)))"

subsection \<open>Scans that trace a list of words\<close>

text \<open>
  The contract of every scan: from any state marked since \<open>s0\<close>, it does not stop and has the
  effect of tracing the given words. Scans one after the other trace the words of all.
\<close>

definition traces ::
    "rt_state \<Rightarrow> addr set \<Rightarrow> (rt_state \<Rightarrow> rt_error + rt_state) \<Rightarrow> addr list \<Rightarrow> bool" where
  "traces s0 Ob f ws \<longleftrightarrow>
     (\<forall>s A. marked_from s0 Ob s A \<longrightarrow>
        (\<exists>s'. f s = Inr s' \<and> marked_from s0 Ob s' (a_trace_all s0 ws A) \<and> gc_frame Ob s s'))"

lemma tracesI:
  assumes "\<And>s A. marked_from s0 Ob s A \<Longrightarrow>
    \<exists>s'. f s = Inr s' \<and> marked_from s0 Ob s' (a_trace_all s0 ws A) \<and> gc_frame Ob s s'"
  shows "traces s0 Ob f ws"
  using assms by (simp add: traces_def)

lemma traces_skip: "traces s0 Ob Inr []"
  by (simp add: traces_def)

lemma traces_cong:
  assumes "\<And>s A. marked_from s0 Ob s A \<Longrightarrow> f s = g s" and "traces s0 Ob g ws"
  shows "traces s0 Ob f ws"
  using assms by (simp add: traces_def)

lemma traces_seq:
  assumes "traces s0 Ob f us" and "traces s0 Ob g vs"
  shows "traces s0 Ob (\<lambda>s. rbind (f s) g) (us @ vs)"
proof (rule tracesI)
  fix s A assume "marked_from s0 Ob s A"
  then obtain s1 where 1: "f s = Inr s1" "marked_from s0 Ob s1 (a_trace_all s0 us A)" "gc_frame Ob s s1"
    using assms(1) unfolding traces_def by blast
  then obtain s2 where "g s1 = Inr s2" "marked_from s0 Ob s2 (a_trace_all s0 vs (a_trace_all s0 us A))"
      "gc_frame Ob s1 s2"
    using assms(2) unfolding traces_def by blast
  then show "\<exists>s'. rbind (f s) g = Inr s' \<and> marked_from s0 Ob s' (a_trace_all s0 (us @ vs) A) \<and>
      gc_frame Ob s s'"
    using 1 gc_frame_trans by auto
qed

lemma traces_rfold:
  assumes "\<And>i. i \<in> set is \<Longrightarrow> traces s0 Ob (f i) (ws i)"
  shows "traces s0 Ob (rfold f is) (concat (map ws is))"
  using assms
proof (induction "is")
  case Nil
  then show ?case by (auto intro: traces_cong [OF _ traces_skip])
next
  case (Cons i "is")
  then have "traces s0 Ob (\<lambda>s. rbind (f i s) (rfold f is)) (ws i @ concat (map ws is))"
    by (intro traces_seq) simp_all
  moreover have "rfold f (i # is) = (\<lambda>s. rbind (f i s) (rfold f is))" by (simp add: fun_eq_iff)
  ultimately show ?case by simp
qed

lemma traces_pointer: "traces s0 Ob (RTtrace_pointer w) [w]"
  by (rule tracesI) (use marked_from_step in fastforce)

lemma traces_segment:
  "segment_ok Ob low high \<Longrightarrow>
   traces s0 Ob (scan_memory_segment low high) (segment_words (memory s0) low high)"
  by (rule tracesI) (rule scan_memory_segment_refines)

subsection \<open>The words of the root set\<close>

definition stack_top :: "thread_state \<Rightarrow> addr" where
  "stack_top t = saved_stack_base t AND NOT (GC_POINTER_ALIGNMENT - 1)"

definition stack_bottom_of :: "thread_state \<Rightarrow> addr" where
  "stack_bottom_of t = saved_stack_base t + word_of_int (saved_stack_size t)"

definition thread_words :: "mem \<Rightarrow> thread_state \<Rightarrow> addr list" where
  "thread_words m t =
     segment_words m (registers t) (registers t + 23 * 8) @ segment_words m (stack_top t) (stack_bottom_of t)"

definition thread_ok :: "addr set \<Rightarrow> thread_state \<Rightarrow> bool" where
  "thread_ok Ob t \<longleftrightarrow>
     segment_ok Ob (registers t) (registers t + 23 * 8) \<and> segment_ok Ob (stack_top t) (stack_bottom_of t)"

text \<open>The objects of the static space, as header and size, when the walk ends within the fuel.\<close>

fun static_objects :: "nat \<Rightarrow> mem \<Rightarrow> addr \<Rightarrow> addr \<Rightarrow> (addr \<times> int) list option" where
  "static_objects 0 m nxt end_ptr = None"
| "static_objects (Suc fuel) m nxt end_ptr =
     (if nxt < end_ptr then
        map_option (Cons (nxt - 8, static_object_size m nxt + SIZEOF_GC_HEADER))
          (static_objects fuel m (nxt + 8 + word_of_int (static_object_size m nxt)) end_ptr)
      else Some [])"

definition static_list :: "nat \<Rightarrow> rt_state \<Rightarrow> (addr \<times> int) list" where
  "static_list fuel s =
     (case static_objects fuel (memory s) (first_static_ptr s) (static_frontier_ptr s) of
        None \<Rightarrow> [] | Some os \<Rightarrow> os)"

definition static_words :: "nat \<Rightarrow> hooks \<Rightarrow> rt_state \<Rightarrow> addr list" where
  "static_words fuel h s = concat (map (\<lambda>(p, n). object_words h (memory s) p n) (static_list fuel s))"

definition scanner_words :: "hooks \<Rightarrow> mem \<Rightarrow> nat \<Rightarrow> addr list" where
  "scanner_words h m i = (case root_scanners h ! i of None \<Rightarrow> [] | Some ws \<Rightarrow> ws m)"

definition saved_state_words :: "rt_state \<Rightarrow> addr list" where
  "saved_state_words s =
     (if saved_no_write_barrier_state s \<noteq> 0 then [saved_no_write_barrier_state s] else [])"

definition root_words :: "nat \<Rightarrow> hooks \<Rightarrow> rt_state \<Rightarrow> addr list" where
  "root_words fuel h s =
     (concat (map (\<lambda>i. thread_words (memory s) (saved_threads s ! i)) [0..<total_saved_threads s]) @
      saved_state_words s) @
     map (\<lambda>i. memory s (global_roots s ! i)) [0..<length (global_roots s)] @
     static_words fuel h s @
     concat (map (scanner_words h (memory s)) [0..<total_root_scanners h])"

text \<open>
  What the scan of the root set needs: the saved areas, the global variables and the static
  space hold no header of a heap object, the static space is a sequence of objects, and every
  root scanner counted is registered and reads no header.
\<close>

definition static_ok :: "nat \<Rightarrow> hooks \<Rightarrow> addr set \<Rightarrow> rt_state \<Rightarrow> bool" where
  "static_ok fuel h Ob s \<longleftrightarrow>
     static_objects fuel (memory s) (first_static_ptr s) (static_frontier_ptr s) \<noteq> None \<and>
     (\<forall>(p, n) \<in> set (static_list fuel s).
        p + 8 \<notin> header_cells Ob \<and> object_ok h (memory s) Ob p n)"

definition scanner_ok :: "hooks \<Rightarrow> addr set \<Rightarrow> nat \<Rightarrow> bool" where
  "scanner_ok h Ob i \<longleftrightarrow>
     i < length (root_scanners h) \<and>
     (case root_scanners h ! i of None \<Rightarrow> False
      | Some ws \<Rightarrow> \<forall>m m'. (\<forall>a. a \<notin> header_cells Ob \<longrightarrow> m' a = m a) \<longrightarrow> ws m' = ws m)"

definition roots_ok :: "nat \<Rightarrow> hooks \<Rightarrow> addr set \<Rightarrow> rt_state \<Rightarrow> bool" where
  "roots_ok fuel h Ob s \<longleftrightarrow>
     (\<forall>i<total_saved_threads s. thread_ok Ob (saved_threads s ! i)) \<and>
     (\<forall>a\<in>set (global_roots s). a \<notin> header_cells Ob) \<and>
     static_ok fuel h Ob s \<and> (\<forall>i<total_root_scanners h. scanner_ok h Ob i)"

lemma marked_from_fields:
  assumes "marked_from s0 Ob s A"
  shows "saved_threads s = saved_threads s0" "total_saved_threads s = total_saved_threads s0"
    "saved_no_write_barrier_state s = saved_no_write_barrier_state s0"
    "global_roots s = global_roots s0" "first_static_ptr s = first_static_ptr s0"
    "static_frontier_ptr s = static_frontier_ptr s0"
  using gc_frame_fields [of Ob s0 s] assms by (simp_all add: marked_from_def)

lemma traces_thread:
  assumes "thread_ok Ob (saved_threads s0 ! i)"
  shows "traces s0 Ob (scan_saved_thread_state i) (thread_words (memory s0) (saved_threads s0 ! i))"
proof -
  let ?t = "saved_threads s0 ! i"
  have "traces s0 Ob (scan_saved_registers i) (segment_words (memory s0) (registers ?t) (registers ?t + 23 * 8))"
    by (rule traces_cong [OF _ traces_segment])
      (use assms in \<open>simp_all add: scan_saved_registers_def marked_from_fields thread_ok_def Let_def\<close>)
  moreover have "traces s0 Ob (scan_saved_stack i) (segment_words (memory s0) (stack_top ?t) (stack_bottom_of ?t))"
    by (rule traces_cong [OF _ traces_segment])
      (use assms in \<open>simp_all add: scan_saved_stack_def marked_from_fields thread_ok_def Let_def
        stack_top_def stack_bottom_of_def\<close>)
  ultimately show ?thesis
    unfolding scan_saved_thread_state_def [abs_def] thread_words_def by (rule traces_seq)
qed

lemma traces_threads:
  assumes "\<And>i. i < total_saved_threads s0 \<Longrightarrow> thread_ok Ob (saved_threads s0 ! i)"
  shows "traces s0 Ob scan_threads
    (concat (map (\<lambda>i. thread_words (memory s0) (saved_threads s0 ! i)) [0..<total_saved_threads s0]) @
     saved_state_words s0)"
proof -
  let ?v = "saved_no_write_barrier_state s0"
  have "traces s0 Ob (\<lambda>s. if ?v \<noteq> 0 then RTtrace_pointer ?v s else Inr s) (saved_state_words s0)"
    by (simp add: saved_state_words_def traces_pointer traces_skip)
  then have b: "traces s0 Ob (\<lambda>s. if saved_no_write_barrier_state s \<noteq> 0
      then RTtrace_pointer (saved_no_write_barrier_state s) s else Inr s) (saved_state_words s0)"
    by (rule traces_cong [rotated]) (simp add: marked_from_fields)
  have "traces s0 Ob (rfold scan_saved_thread_state [0..<total_saved_threads s0])
      (concat (map (\<lambda>i. thread_words (memory s0) (saved_threads s0 ! i)) [0..<total_saved_threads s0]))"
    using assms by (intro traces_rfold traces_thread) simp
  from traces_seq [OF this b] show ?thesis
    by (rule traces_cong [rotated]) (simp add: scan_threads_def marked_from_fields)
qed

lemma traces_global_roots:
  assumes "\<forall>a\<in>set (global_roots s0). a \<notin> header_cells Ob"
  shows "traces s0 Ob scan_global_roots (map (\<lambda>i. memory s0 (global_roots s0 ! i)) [0..<length (global_roots s0)])"
proof -
  have "traces s0 Ob (scan_global_root i) [memory s0 (global_roots s0 ! i)]"
    if "i < length (global_roots s0)" for i
    by (rule traces_cong [OF _ traces_pointer])
      (use assms that in \<open>simp add: scan_global_root_def marked_from_fields marked_from_memory\<close>)
  then have "traces s0 Ob (rfold scan_global_root [0..<length (global_roots s0)])
      (concat (map (\<lambda>i. [memory s0 (global_roots s0 ! i)]) [0..<length (global_roots s0)]))"
    by (intro traces_rfold) simp
  then show ?thesis
    by (intro traces_cong [where f = scan_global_roots])
      (simp_all add: scan_global_roots_def marked_from_fields flip: map_concat)
qed

lemma scan_static_loop_traces:
  assumes "static_objects fuel (memory s0) nxt end_ptr = Some os"
    and "\<forall>(p, n)\<in>set os. p + 8 \<notin> header_cells Ob \<and> object_ok h (memory s0) Ob p n"
  shows "traces s0 Ob (scan_static_loop fuel h nxt end_ptr)
    (concat (map (\<lambda>(p, n). object_words h (memory s0) p n) os))"
  using assms
proof (induction fuel arbitrary: nxt os)
  case 0
  then show ?case by simp
next
  case (Suc fuel)
  show ?case
  proof (cases "nxt < end_ptr")
    case False
    then show ?thesis using Suc.prems(1) by (auto intro: traces_cong [OF _ traces_skip])
  next
    case True
    let ?n = "static_object_size (memory s0) nxt"
    obtain es where es: "os = (nxt - 8, ?n + SIZEOF_GC_HEADER) # es"
        "static_objects fuel (memory s0) (nxt + 8 + word_of_int ?n) end_ptr = Some es"
      using Suc.prems(1) True by auto
    have c: "nxt \<notin> header_cells Ob" "object_ok h (memory s0) Ob (nxt - 8) (?n + SIZEOF_GC_HEADER)"
      using Suc.prems(2) es(1) by auto
    have "traces s0 Ob (scan_object h (nxt - 8) (?n + SIZEOF_GC_HEADER))
        (object_words h (memory s0) (nxt - 8) (?n + SIZEOF_GC_HEADER))"
    proof (rule tracesI)
      fix s A assume m: "marked_from s0 Ob s A"
      show "\<exists>s'. scan_object h (nxt - 8) (?n + SIZEOF_GC_HEADER) s = Inr s' \<and>
          marked_from s0 Ob s' (a_trace_all s0 (object_words h (memory s0) (nxt - 8) (?n + SIZEOF_GC_HEADER)) A) \<and>
          gc_frame Ob s s'"
        using marked_from_memory [OF m c(1)]
        by (intro scan_object_refines [OF c(2) m]) (simp add: hdr_defs)
    qed
    moreover have "traces s0 Ob (scan_static_loop fuel h (nxt + 8 + word_of_int ?n) end_ptr)
        (concat (map (\<lambda>(p, n). object_words h (memory s0) p n) es))"
      using Suc.prems(2) es(1) by (intro Suc.IH [OF es(2)]) auto
    ultimately have "traces s0 Ob (\<lambda>s. rbind (scan_object h (nxt - 8) (?n + SIZEOF_GC_HEADER) s)
        (scan_static_loop fuel h (nxt + 8 + word_of_int ?n) end_ptr))
        (concat (map (\<lambda>(p, n). object_words h (memory s0) p n) os))"
      unfolding es(1) by (simp add: traces_seq)
    then show ?thesis
    proof (rule traces_cong [rotated])
      fix s A assume "marked_from s0 Ob s A"
      then have "static_object_size (memory s) nxt = ?n"
        using marked_from_memory c(1) by (simp add: static_object_size_def)
      then show "scan_static_loop (Suc fuel) h nxt end_ptr s =
          rbind (scan_object h (nxt - 8) (?n + SIZEOF_GC_HEADER) s)
            (scan_static_loop fuel h (nxt + 8 + word_of_int ?n) end_ptr)"
        using True by (simp add: Let_def SIZEOF_GC_HEADER_def)
    qed
  qed
qed

lemma traces_static_space:
  assumes "static_ok fuel h Ob s0"
  shows "traces s0 Ob (scan_static_space fuel h) (static_words fuel h s0)"
proof -
  obtain os where os: "static_objects fuel (memory s0) (first_static_ptr s0) (static_frontier_ptr s0) = Some os"
    using assms by (auto simp: static_ok_def)
  have "traces s0 Ob (scan_static_loop fuel h (first_static_ptr s0) (static_frontier_ptr s0))
      (static_words fuel h s0)"
    unfolding static_words_def static_list_def os option.case
    by (rule scan_static_loop_traces [OF os]) (use assms in \<open>simp add: static_ok_def static_list_def os\<close>)
  then show ?thesis
    by (rule traces_cong [rotated]) (simp add: scan_static_space_def marked_from_fields)
qed

lemma traces_root_scanner:
  assumes "scanner_ok h Ob i"
  shows "traces s0 Ob (run_root_scanner h i) (scanner_words h (memory s0) i)"
proof -
  obtain ws where ws: "i < length (root_scanners h)" "root_scanners h ! i = Some ws"
      "\<forall>m m'. (\<forall>a. a \<notin> header_cells Ob \<longrightarrow> m' a = m a) \<longrightarrow> ws m' = ws m"
    using assms by (auto simp: scanner_ok_def split: option.splits)
  have "traces s0 Ob (rfold RTtrace_pointer (ws (memory s0))) (ws (memory s0))"
    by (rule tracesI) (rule trace_all_refines)
  then have "traces s0 Ob (run_root_scanner h i) (ws (memory s0))"
  proof (rule traces_cong [rotated])
    fix s A assume "marked_from s0 Ob s A"
    then have "ws (memory s) = ws (memory s0)" using ws(3) marked_from_memory by blast
    then show "run_root_scanner h i s = rfold RTtrace_pointer (ws (memory s0)) s"
      by (simp add: run_root_scanner_def ws)
  qed
  then show ?thesis by (simp add: scanner_words_def ws)
qed

text \<open>The scan of the root set traces the words of the root set.\<close>

lemma traces_root_set:
  assumes "roots_ok fuel h Ob s0"
  shows "traces s0 Ob (scan_root_set fuel h) (root_words fuel h s0)"
proof -
  have "traces s0 Ob (rfold (run_root_scanner h) [0..<total_root_scanners h])
      (concat (map (scanner_words h (memory s0)) [0..<total_root_scanners h]))"
    using assms by (intro traces_rfold traces_root_scanner) (simp add: roots_ok_def)
  moreover have "traces s0 Ob (scan_static_space fuel h) (static_words fuel h s0)"
    using assms by (intro traces_static_space) (simp add: roots_ok_def)
  moreover note traces_global_roots [of s0 Ob] traces_threads [of s0 Ob]
  ultimately show ?thesis
    unfolding scan_root_set_def [abs_def] root_words_def
    using assms by (intro traces_seq) (simp_all add: roots_ok_def)
qed

end
