(* ===== verification/Stop_World.thy ===== *)
theory Stop_World
  imports Roots
begin

text \<open>
  Stopping the mutators (rtstop.c). A flip signals every live thread; the handler of each
  copies its registers and the live part of its stack into the save area of its index, and
  the collector goes on when all have copied. The model runs the handlers one after the
  other; since each writes to its own area, the lemmas show that the order does not matter,
  and what the areas hold afterwards.
\<close>

subsection \<open>The code\<close>

text \<open>
  What the flip sees of a live thread: the 23 registers of its signal context, its
  \<open>stack_bottom\<close>, what pthread_kill returns for it, and whether its thread key is set. The
  index of the stack pointer in gregset_t is that of sys/ucontext.h.
\<close>

record mutator =
  gregs :: "addr list"
  stack_bottom :: addr
  kill_result :: int
  key_set :: bool

definition NREG :: nat where "NREG = 23"
definition REG_RSP :: nat where "REG_RSP = 15"
definition ESRCH :: int where "ESRCH = 3"

fun store_words :: "addr \<Rightarrow> addr list \<Rightarrow> mem \<Rightarrow> mem" where
  "store_words dst [] m = m"
| "store_words dst (w # ws) m = store_words (dst + 8) ws (m(dst := w))"

text \<open>
  The two counters come with the state. memcpy takes its length as a size_t, so that a
  negative one writes past the end of memory; stack pointers are multiples of eight.
\<close>

definition live_stack_size :: "mutator \<Rightarrow> int" where
  "live_stack_size th = sint (stack_bottom th - gregs th ! REG_RSP)"

definition gc_flip_action_func ::
    "nat \<Rightarrow> mutator \<Rightarrow> rt_state \<times> int \<times> int \<Rightarrow> rt_error + rt_state \<times> int \<times> int" where
  "gc_flip_action_func i th = (\<lambda>(s, entered, copied).
     if \<not> key_set th then Inr (s, entered + 1, copied)
     else if length (saved_threads s) \<le> i then Inl Wild_access
     else
       (let st = saved_threads s ! i;
            m1 = store_words (registers st) (gregs th) (memory s);
            stack_top = gregs th ! REG_RSP;
            live = live_stack_size th
        in if live < 0 then Inl Wild_access
           else Inr (s\<lparr>memory := copy_longs (saved_stack_base st) stack_top (nat (live div 8)) m1,
                       saved_threads := (saved_threads s)[i := st\<lparr>saved_stack_size := c_int live\<rparr>]\<rparr>,
                     entered + 1, copied + 1)))"

definition signal_thread :: "nat \<times> mutator \<Rightarrow> rt_state \<Rightarrow> rt_error + rt_state" where
  "signal_thread = (\<lambda>(i, th) s.
     if length (saved_threads s) \<le> i then Inl Wild_access
     else
       (let s1 = s\<lparr>saved_threads := (saved_threads s)[i := (saved_threads s ! i)\<lparr>saved_stack_size := 0\<rparr>]\<rparr>
        in if kill_result th \<noteq> 0 then
             (if kill_result th = ESRCH then Inl (Debugger ''Not a valid thread handle'')
              else Inl (Debugger ''pthread_kill failed!''))
           else Inr s1))"

text \<open>A wait for a counter that does not reach the number of threads never ends.\<close>

definition stop_all_mutators_and_save_state :: "mutator list \<Rightarrow> rt_state \<Rightarrow> rt_error + rt_state" where
  "stop_all_mutators_and_save_state ths s =
     (let total_threads_to_halt = length ths in
      rbind (rfold signal_thread (enumerate 0 ths) s) (\<lambda>s1.
        let s2 = (if RTno_write_barrier_state_ptr s1 \<noteq> 0
                  then s1\<lparr>saved_no_write_barrier_state := memory s1 (RTno_write_barrier_state_ptr s1)\<rparr> else s1)
        in rbind (rfold (\<lambda>(i, th). gc_flip_action_func i th) (enumerate 0 ths) (s2, 0, 0))
             (\<lambda>(s3, entered_handler_count, copied_stack_count).
                if entered_handler_count \<noteq> int total_threads_to_halt then Inl Out_of_fuel
                else
                  (let s4 = s3\<lparr>enable_write_barrier := True, marked_color := unmarked_color s3,
                               unmarked_color := marked_color s3\<rparr>
                   in if copied_stack_count \<noteq> int total_threads_to_halt then Inl Out_of_fuel
                      else Inr (s4\<lparr>total_saved_threads := total_threads_to_halt\<rparr>)))))"

subsection \<open>Stores to consecutive longs\<close>

lemma cells_nth: "k < n \<Longrightarrow> cells n a ! k = a + of_nat (8 * k)"
proof (induction n arbitrary: a k)
  case (Suc n)
  then show ?case by (cases k) (simp_all add: GC_POINTER_ALIGNMENT_def algebra_simps)
qed simp

lemma length_cells [simp]: "length (cells n a) = n"
  by (induction n arbitrary: a) simp_all

lemma set_cells: "set (cells n a) = (\<lambda>k. a + of_nat (8 * k)) ` {0..<n}"
proof -
  have "set (cells n a) = (!) (cells n a) ` {0..<n}" using nth_image [of n "cells n a"] by simp
  also have "\<dots> = (\<lambda>k. a + of_nat (8 * k)) ` {0..<n}" by (intro image_cong refl cells_nth) simp
  finally show ?thesis .
qed

lemma store_words_other:
  "a \<notin> set (cells (length ws) dst) \<Longrightarrow> store_words dst ws m a = m a"
  by (induction ws arbitrary: dst m) (simp_all add: GC_POINTER_ALIGNMENT_def)

lemma store_words_map:
  "distinct (cells (length ws) dst) \<Longrightarrow> map (store_words dst ws m) (cells (length ws) dst) = ws"
  by (induction ws arbitrary: dst m) (simp_all add: GC_POINTER_ALIGNMENT_def store_words_other)

lemma copy_longs_fold:
  "fold (\<lambda>k m'. m'(dst + of_nat (8 * k) := v k)) ks m a =
    (if a \<in> (\<lambda>k. dst + of_nat (8 * k)) ` set ks
     then v (last (filter (\<lambda>k. a = dst + of_nat (8 * k)) ks)) else m a)"
  by (induction ks arbitrary: m) (auto simp: filter_empty_conv)

lemma copy_longs_other:
  "a \<notin> set (cells n dst) \<Longrightarrow> copy_longs dst src n m a = m a"
  unfolding copy_longs_def copy_longs_fold set_cells by simp

lemma copy_longs_map:
  assumes "distinct (cells n dst)"
  shows "map (copy_longs dst src n m) (cells n dst) = map m (cells n src)"
proof (rule nth_equalityI)
  fix k assume "k < length (map (copy_longs dst src n m) (cells n dst))"
  then have k: "k < n" by simp
  have inj: "j = k" if "j < n" "dst + of_nat (8 * k) = dst + of_nat (8 * j)" for j
    using assms that k by (metis cells_nth length_cells nth_eq_iff_index_eq)
  have "filter (\<lambda>j. dst + of_nat (8 * k) = dst + of_nat (8 * j)) [0..<n] = filter (\<lambda>j. j = k) [0..<n]"
    using inj by (intro filter_cong refl) auto
  also have "\<dots> = [k]" using k by (induction n) (auto simp: less_Suc_eq)
  finally have "copy_longs dst src n m (dst + of_nat (8 * k)) = m (src + of_nat (8 * k))"
    unfolding copy_longs_def copy_longs_fold using k by auto
  then show "map (copy_longs dst src n m) (cells n dst) ! k = map m (cells n src) ! k"
    using k by (simp add: cells_nth)
qed simp

subsection \<open>Writers with areas of their own\<close>

text \<open>
  The contract of a handler: it writes inside its area only, and what it writes depends only
  on its source. Writers whose areas are disjoint, and whose sources no other writes, can
  run in any order.
\<close>

locale area_writers =
  fixes put :: "'i \<Rightarrow> mem \<Rightarrow> mem" and area :: "'i \<Rightarrow> addr set" and src :: "'i \<Rightarrow> addr set"
  assumes put_frame: "a \<notin> area i \<Longrightarrow> put i m a = m a"
    and put_local: "(\<And>b. b \<in> src i \<Longrightarrow> m' b = m b) \<Longrightarrow> a \<in> area i \<Longrightarrow> put i m' a = put i m a"
begin

lemma fold_frame: "(\<And>i. i \<in> set is \<Longrightarrow> a \<notin> area i) \<Longrightarrow> fold put is m a = m a"
  by (induction "is" arbitrary: m) (simp_all add: put_frame)

lemma put_commute:
  assumes "area i \<inter> area j = {}" and "src i \<inter> area j = {}" and "src j \<inter> area i = {}"
  shows "put i (put j m) = put j (put i m)"
proof
  fix a
  have 1: "put i (put j m) a = put i m a" if "a \<in> area i"
    using that assms(2) by (intro put_local put_frame) auto
  have 2: "put j (put i m) a = put j m a" if "a \<in> area j"
    using that assms(3) by (intro put_local put_frame) auto
  show "put i (put j m) a = put j (put i m) a"
  proof (cases "a \<in> area i")
    case True
    then have "a \<notin> area j" using assms(1) by auto
    then show ?thesis using 1 True by (simp add: put_frame)
  next
    case False
    then show ?thesis using 2 by (cases "a \<in> area j") (simp_all add: put_frame)
  qed
qed

lemma fold_area:
  assumes "distinct is" and "i \<in> set is" and "a \<in> area i"
    and "\<And>j. j \<in> set is \<Longrightarrow> j \<noteq> i \<Longrightarrow> area i \<inter> area j = {} \<and> src i \<inter> area j = {}"
  shows "fold put is m a = put i m a"
proof -
  obtain us vs where s: "is = us @ i # vs" using assms(2) by (meson split_list)
  have u: "j \<noteq> i \<and> j \<in> set is" if "j \<in> set us \<or> j \<in> set vs" for j
    using that assms(1) s by auto
  have "fold put is m a = put i (fold put us m) a"
    using u assms(3,4) by (simp add: s) (rule fold_frame, blast)
  also have "\<dots> = put i m a"
    using u assms(4) by (intro put_local [OF _ assms(3)] fold_frame) blast
  finally show ?thesis .
qed

text \<open>The order of the writers does not matter.\<close>

lemma fold_any_order:
  assumes "distinct is" and "distinct js" and "set js = set is"
    and "\<And>i j. i \<in> set is \<Longrightarrow> j \<in> set is \<Longrightarrow> i \<noteq> j \<Longrightarrow> area i \<inter> area j = {} \<and> src i \<inter> area j = {}"
  shows "fold put is m = fold put js m"
proof
  fix a
  show "fold put is m a = fold put js m a"
  proof (cases "\<exists>i\<in>set is. a \<in> area i")
    case True
    then obtain i where i: "i \<in> set is" "a \<in> area i" by blast
    have "fold put is m a = put i m a"
      by (rule fold_area [OF assms(1) i]) (use assms(4) i(1) in blast)
    moreover have "fold put js m a = put i m a"
      by (rule fold_area [OF assms(2) _ i(2)]) (use assms(3,4) i(1) in blast)+
    ultimately show ?thesis by simp
  next
    case False
    then have "fold put is m a = m a" "fold put js m a = m a"
      using assms(3) by (blast intro: fold_frame)+
    then show ?thesis by simp
  qed
qed

end

text \<open>A handler, as a writer: it fills the registers and the stack of its save area.\<close>

definition stack_longs :: "mutator \<Rightarrow> nat" where
  "stack_longs th = nat (live_stack_size th div 8)"

definition handler_write :: "thread_state \<times> mutator \<Rightarrow> mem \<Rightarrow> mem" where
  "handler_write = (\<lambda>(st, th) m.
     copy_longs (saved_stack_base st) (gregs th ! REG_RSP) (stack_longs th)
       (store_words (registers st) (gregs th) m))"

definition handler_area :: "thread_state \<times> mutator \<Rightarrow> addr set" where
  "handler_area = (\<lambda>(st, th).
     set (cells (length (gregs th)) (registers st)) \<union> set (cells (stack_longs th) (saved_stack_base st)))"

definition handler_source :: "thread_state \<times> mutator \<Rightarrow> addr set" where
  "handler_source = (\<lambda>(st, th). set (cells (stack_longs th) (gregs th ! REG_RSP)))"

lemma store_words_local:
  "a \<in> set (cells (length ws) dst) \<Longrightarrow> store_words dst ws m' a = store_words dst ws m a"
proof (induction ws arbitrary: dst m m')
  case (Cons w ws)
  show ?case
  proof (cases "a \<in> set (cells (length ws) (dst + 8))")
    case True
    then show ?thesis using Cons.IH by simp
  next
    case False
    then show ?thesis using Cons.prems by (simp add: store_words_other GC_POINTER_ALIGNMENT_def)
  qed
qed simp

lemma copy_longs_in:
  assumes "a \<in> set (cells n dst)"
  obtains k where "k < n" and "\<And>m. copy_longs dst src n m a = m (src + of_nat (8 * k))"
proof -
  let ?ks = "filter (\<lambda>k. a = dst + of_nat (8 * k)) [0..<n]"
  have "?ks \<noteq> []" using assms unfolding set_cells filter_empty_conv by auto
  then have "last ?ks \<in> set ?ks" by (rule last_in_set)
  then have "last ?ks < n" by simp
  moreover have "copy_longs dst src n m a = m (src + of_nat (8 * last ?ks))" for m
    unfolding copy_longs_def copy_longs_fold using assms set_cells [of n dst] by simp
  ultimately show thesis by (rule that)
qed

interpretation savers: area_writers handler_write handler_area handler_source
proof unfold_locales
  fix a i m assume "a \<notin> handler_area i"
  then show "handler_write i m a = m a"
    by (cases i) (simp add: handler_area_def handler_write_def copy_longs_other store_words_other)
next
  fix i and m' m :: mem and a assume s: "\<And>b. b \<in> handler_source i \<Longrightarrow> m' b = m b" and a: "a \<in> handler_area i"
  obtain st th where i: "i = (st, th)" by (cases i)
  let ?w = "store_words (registers st) (gregs th)"
  have w: "?w m' b = ?w m b" if "b \<in> handler_source i \<or> b \<in> set (cells (length (gregs th)) (registers st))" for b
  proof (cases "b \<in> set (cells (length (gregs th)) (registers st))")
    case True
    then show ?thesis by (rule store_words_local)
  next
    case False
    then have "m' b = m b" using that s by blast
    then show ?thesis using False by (simp add: store_words_other)
  qed
  show "handler_write i m' a = handler_write i m a"
  proof (cases "a \<in> set (cells (stack_longs th) (saved_stack_base st))")
    case True
    obtain k where k: "k < stack_longs th"
      "\<And>m. copy_longs (saved_stack_base st) (gregs th ! REG_RSP) (stack_longs th) m a =
        m (gregs th ! REG_RSP + of_nat (8 * k))"
      using copy_longs_in [OF True, where src = "gregs th ! REG_RSP"] by metis
    have "gregs th ! REG_RSP + of_nat (8 * k) \<in> handler_source i"
      using k(1) unfolding i handler_source_def prod.case set_cells by (intro imageI) simp
    then show ?thesis using w unfolding i handler_write_def prod.case k(2) by blast
  next
    case False
    then have "a \<in> set (cells (length (gregs th)) (registers st))" using a by (simp add: i handler_area_def)
    then show ?thesis using False w by (simp add: i handler_write_def copy_longs_other)
  qed
qed

subsection \<open>What a stop does\<close>

definition mutator_ok :: "mutator \<Rightarrow> bool" where
  "mutator_ok th \<longleftrightarrow> key_set th \<and> kill_result th = 0 \<and> length (gregs th) = NREG \<and> 0 \<le> live_stack_size th"

text \<open>The save areas of the threads, each with the thread that is saved there.\<close>

definition save_pairs :: "rt_state \<Rightarrow> mutator list \<Rightarrow> (thread_state \<times> mutator) list" where
  "save_pairs s ths = zip (saved_threads s) ths"

definition save_area :: "rt_state \<Rightarrow> mutator list \<Rightarrow> addr set" where
  "save_area s ths = (\<Union>p\<in>set (save_pairs s ths). handler_area p)"

definition saved_thread :: "thread_state \<Rightarrow> mutator \<Rightarrow> thread_state" where
  "saved_thread st th = st\<lparr>saved_stack_size := c_int (live_stack_size th)\<rparr>"

lemma signal_threads:
  assumes "\<And>th. th \<in> set ths \<Longrightarrow> mutator_ok th" and "k + length ths \<le> length (saved_threads s)"
  shows "rfold signal_thread (enumerate k ths) s =
    Inr (s\<lparr>saved_threads := take k (saved_threads s) @
      map (\<lambda>st. st\<lparr>saved_stack_size := 0\<rparr>) (take (length ths) (drop k (saved_threads s))) @
      drop (k + length ths) (saved_threads s)\<rparr>)"
  using assms
proof (induction ths arbitrary: k s)
  case (Cons th ths)
  let ?L = "saved_threads s"
  let ?s1 = "s\<lparr>saved_threads := ?L[k := (?L ! k)\<lparr>saved_stack_size := 0\<rparr>]\<rparr>"
  have k: "k < length ?L" "kill_result th = 0" using Cons.prems by (auto simp: mutator_ok_def)
  then have "signal_thread (k, th) s = Inr ?s1" by (simp add: signal_thread_def Let_def)
  moreover have "rfold signal_thread (enumerate (Suc k) ths) ?s1 = Inr (?s1\<lparr>saved_threads :=
      take (Suc k) (saved_threads ?s1) @
      map (\<lambda>st. st\<lparr>saved_stack_size := 0\<rparr>) (take (length ths) (drop (Suc k) (saved_threads ?s1))) @
      drop (Suc k + length ths) (saved_threads ?s1)\<rparr>)"
    using Cons.prems by (intro Cons.IH) simp_all
  moreover have "take (Suc k) (saved_threads ?s1) = take k ?L @ [(?L ! k)\<lparr>saved_stack_size := 0\<rparr>]"
    using k by (simp add: take_Suc_conv_app_nth)
  moreover have "take (Suc (length ths)) (drop k ?L) = ?L ! k # take (length ths) (drop (Suc k) ?L)"
    using k by (simp add: Cons_nth_drop_Suc [symmetric])
  ultimately show ?case using k by simp
qed simp

text \<open>
  The handlers, run in the order of their indices from index \<open>k\<close> on: the thread states from
  \<open>k\<close> on are \<open>sts\<close> before.
\<close>

lemma handlers:
  assumes "\<And>th. th \<in> set ths \<Longrightarrow> mutator_ok th" and "saved_threads s = us @ sts"
    and "length us = k" and "length ths \<le> length sts"
  shows "rfold (\<lambda>(i, th). gc_flip_action_func i th) (enumerate k ths) (s, e, c) =
    Inr (s\<lparr>memory := fold handler_write (zip sts ths) (memory s),
           saved_threads := us @ map (\<lambda>(st, th). saved_thread st th) (zip sts ths) @ drop (length ths) sts\<rparr>,
         e + int (length ths), c + int (length ths))"
  using assms
proof (induction ths arbitrary: k s us sts e c)
  case Nil
  then show ?case by simp
next
  case (Cons th ths)
  then obtain st sts' where sts: "sts = st # sts'" by (cases sts) auto
  have ok: "key_set th" "\<not> live_stack_size th < 0" "length us = k" using Cons.prems(1) [of th] Cons.prems(3) by (auto simp: mutator_ok_def)
  have nth: "saved_threads s ! k = st" "\<not> length (saved_threads s) \<le> k"
    using Cons.prems(2,3) by (simp_all add: sts nth_append)
  have upd: "(saved_threads s)[k := v] = (us @ [v]) @ sts'" for v
    using Cons.prems(2,3) by (simp add: sts list_update_append)
  let ?s1 = "s\<lparr>memory := handler_write (st, th) (memory s),
    saved_threads := (us @ [saved_thread st th]) @ sts'\<rparr>"
  have "gc_flip_action_func k th (s, e, c) = Inr (?s1, e + 1, c + 1)"
    using ok nth by (simp add: gc_flip_action_func_def Let_def upd handler_write_def stack_longs_def saved_thread_def)
  moreover have "rfold (\<lambda>(i, th). gc_flip_action_func i th) (enumerate (Suc k) ths) (?s1, e + 1, c + 1) =
    Inr (?s1\<lparr>memory := fold handler_write (zip sts' ths) (memory ?s1),
           saved_threads := (us @ [saved_thread st th]) @ map (\<lambda>(st, th). saved_thread st th) (zip sts' ths) @ drop (length ths) sts'\<rparr>,
         e + 1 + int (length ths), c + 1 + int (length ths))"
    using Cons.prems ok(3) by (intro Cons.IH) (simp_all add: sts)
  ultimately show ?case by (simp add: sts)
qed

definition stopped :: "mutator list \<Rightarrow> rt_state \<Rightarrow> rt_state" where
  "stopped ths s = s\<lparr>memory := fold handler_write (save_pairs s ths) (memory s),
     saved_threads := map (\<lambda>(st, th). saved_thread st th) (save_pairs s ths) @ drop (length ths) (saved_threads s),
     saved_no_write_barrier_state := (if RTno_write_barrier_state_ptr s \<noteq> 0
       then memory s (RTno_write_barrier_state_ptr s) else saved_no_write_barrier_state s),
     enable_write_barrier := True, marked_color := unmarked_color s, unmarked_color := marked_color s,
     total_saved_threads := length ths\<rparr>"

lemma stack_size_irrelevant:
  "handler_write (st\<lparr>saved_stack_size := n\<rparr>, th) = handler_write (st, th)"
  "saved_thread (st\<lparr>saved_stack_size := n\<rparr>) th = saved_thread st th"
  by (simp_all add: handler_write_def saved_thread_def fun_eq_iff)

lemma stop_all_mutators_eq:
  assumes ok: "\<And>th. th \<in> set ths \<Longrightarrow> mutator_ok th" and len: "length ths \<le> length (saved_threads s)"
  shows "stop_all_mutators_and_save_state ths s = Inr (stopped ths s)"
proof -
  let ?L = "saved_threads s" and ?n = "length ths"
  let ?Z = "map (\<lambda>st. st\<lparr>saved_stack_size := 0\<rparr>) (take ?n ?L)"
  define s1 where "s1 = s\<lparr>saved_threads := ?Z @ drop ?n ?L\<rparr>"
  have 1: "rfold signal_thread (enumerate 0 ths) s = Inr s1"
    using signal_threads [OF ok, of ths 0 s] len by (simp add: s1_def)
  define s2 where "s2 = (if RTno_write_barrier_state_ptr s1 \<noteq> 0
      then s1\<lparr>saved_no_write_barrier_state := memory s1 (RTno_write_barrier_state_ptr s1)\<rparr> else s1)"
  have sv: "saved_threads s2 = ?Z @ drop ?n ?L" "memory s2 = memory s" by (simp_all add: s2_def s1_def)
  have z: "zip (?Z @ drop ?n ?L) ths = map (\<lambda>(st, th). (st\<lparr>saved_stack_size := 0\<rparr>, th)) (zip ?L ths)"
  proof -
    have "zip (?Z @ drop ?n ?L) ths = zip ?Z ths"
      using len by (simp add: zip_append1)
    also have "\<dots> = map (\<lambda>(st, th). (st\<lparr>saved_stack_size := 0\<rparr>, th)) (zip (take ?n ?L) ths)"
      by (simp add: zip_map1)
    also have "zip (take ?n ?L) ths = zip ?L ths"
      using take_zip [of ?n ?L ths] take_all [of "zip ?L ths" ?n] by simp
    finally show ?thesis .
  qed
  have w: "fold handler_write (map (\<lambda>(st, th). (st\<lparr>saved_stack_size := 0\<rparr>, th)) ps) m = fold handler_write ps m"
    for ps m by (induction ps arbitrary: m) (auto simp: stack_size_irrelevant)
  have v: "map (\<lambda>(st, th). saved_thread st th) (map (\<lambda>(st, th). (st\<lparr>saved_stack_size := 0\<rparr>, th)) ps) =
    map (\<lambda>(st, th). saved_thread st th) ps" for ps
    by (induction ps) (auto simp: stack_size_irrelevant)
  have "rfold (\<lambda>(i, th). gc_flip_action_func i th) (enumerate 0 ths) (s2, 0, 0) =
    Inr (s2\<lparr>memory := fold handler_write (save_pairs s ths) (memory s),
           saved_threads := map (\<lambda>(st, th). saved_thread st th) (save_pairs s ths) @ drop ?n ?L\<rparr>,
         int ?n, int ?n)"
    using handlers [where ths = ths and s = s2 and us = "[]" and sts = "?Z @ drop ?n ?L" and k = 0 and e = 0 and c = 0]
      ok len unfolding append_Nil z w v save_pairs_def sv by simp
  then show ?thesis
    unfolding stop_all_mutators_and_save_state_def Let_def 1 rbind_simps s2_def [symmetric]
    by (simp add: stopped_def s2_def s1_def)
qed

subsection \<open>Any order, and what is saved\<close>

lemma gc_flip_action_eq:
  assumes "mutator_ok th" and "i < length (saved_threads s)"
  shows "gc_flip_action_func i th (s, e, c) =
    Inr (s\<lparr>memory := handler_write (saved_threads s ! i, th) (memory s),
           saved_threads := (saved_threads s)[i := saved_thread (saved_threads s ! i) th]\<rparr>, e + 1, c + 1)"
  using assms by (simp add: gc_flip_action_func_def mutator_ok_def Let_def handler_write_def stack_longs_def
      saved_thread_def)

lemma handlers_commute:
  assumes "i \<noteq> j" and "i < length (saved_threads s)" and "j < length (saved_threads s)"
    and "mutator_ok th" and "mutator_ok th'"
    and "handler_area (saved_threads s ! i, th) \<inter> handler_area (saved_threads s ! j, th') = {}"
    and "handler_source (saved_threads s ! i, th) \<inter> handler_area (saved_threads s ! j, th') = {}"
    and "handler_source (saved_threads s ! j, th') \<inter> handler_area (saved_threads s ! i, th) = {}"
  shows "rbind (gc_flip_action_func i th (s, e, c)) (gc_flip_action_func j th') =
    rbind (gc_flip_action_func j th' (s, e, c)) (gc_flip_action_func i th)"
  using assms savers.put_commute [OF assms(6-8), of "memory s"]
  by (simp add: gc_flip_action_eq list_update_swap)

definition areas_ok :: "rt_state \<Rightarrow> mutator list \<Rightarrow> bool" where
  "areas_ok s ths \<longleftrightarrow>
     distinct (save_pairs s ths) \<and>
     (\<forall>p\<in>set (save_pairs s ths). \<forall>q\<in>set (save_pairs s ths).
        handler_source p \<inter> handler_area q = {} \<and> (p \<noteq> q \<longrightarrow> handler_area p \<inter> handler_area q = {})) \<and>
     (\<forall>(st, th)\<in>set (save_pairs s ths).
        distinct (cells (length (gregs th)) (registers st) @ cells (stack_longs th) (saved_stack_base st)))"

lemma handler_write_saves:
  assumes d: "distinct (cells (length (gregs th)) (registers st) @ cells (stack_longs th) (saved_stack_base st))"
    and s: "handler_source (st, th) \<inter> handler_area (st, th) = {}"
  shows "map (handler_write (st, th) m) (cells (length (gregs th)) (registers st)) = gregs th"
    and "map (handler_write (st, th) m) (cells (stack_longs th) (saved_stack_base st)) =
      map m (cells (stack_longs th) (gregs th ! REG_RSP))"
proof -
  let ?w = "store_words (registers st) (gregs th) m"
  have "map (handler_write (st, th) m) (cells (length (gregs th)) (registers st)) =
      map ?w (cells (length (gregs th)) (registers st))"
    using d by (intro map_cong refl) (auto simp: handler_write_def intro: copy_longs_other)
  then show "map (handler_write (st, th) m) (cells (length (gregs th)) (registers st)) = gregs th"
    using d store_words_map [of "gregs th" "registers st" m] by (simp only: distinct_append)
  have "map ?w (cells (stack_longs th) (gregs th ! REG_RSP)) = map m (cells (stack_longs th) (gregs th ! REG_RSP))"
  proof (rule map_cong [OF refl])
    fix a assume "a \<in> set (cells (stack_longs th) (gregs th ! REG_RSP))"
    then have "a \<notin> set (cells (length (gregs th)) (registers st))"
      using s by (auto simp: handler_source_def handler_area_def)
    then show "?w a = m a" by (rule store_words_other)
  qed
  then show "map (handler_write (st, th) m) (cells (stack_longs th) (saved_stack_base st)) =
      map m (cells (stack_longs th) (gregs th ! REG_RSP))"
    using d copy_longs_map [of "stack_longs th" "saved_stack_base st"] by (simp add: handler_write_def)
qed

lemma stopped_saves:
  assumes ok: "areas_ok s ths" and p: "(st, th) \<in> set (save_pairs s ths)"
  shows "map (memory (stopped ths s)) (cells (length (gregs th)) (registers st)) = gregs th"
    and "map (memory (stopped ths s)) (cells (stack_longs th) (saved_stack_base st)) =
      map (memory s) (cells (stack_longs th) (gregs th ! REG_RSP))"
proof -
  let ?ps = "save_pairs s ths"
  have "memory (stopped ths s) a = handler_write (st, th) (memory s) a" if "a \<in> handler_area (st, th)" for a
    unfolding stopped_def using ok that p
    by (simp, intro savers.fold_area) (auto simp: areas_ok_def)
  then have e: "map (memory (stopped ths s)) xs = map (handler_write (st, th) (memory s)) xs"
    if "set xs \<subseteq> handler_area (st, th)" for xs using that by (intro map_cong) auto
  have "distinct (cells (length (gregs th)) (registers st) @ cells (stack_longs th) (saved_stack_base st))"
    "handler_source (st, th) \<inter> handler_area (st, th) = {}"
    using ok p by (auto simp: areas_ok_def)
  note w = handler_write_saves [OF this, of "memory s"]
  show "map (memory (stopped ths s)) (cells (length (gregs th)) (registers st)) = gregs th"
    by (subst e) (simp_all add: handler_area_def w)
  show "map (memory (stopped ths s)) (cells (stack_longs th) (saved_stack_base st)) =
      map (memory s) (cells (stack_longs th) (gregs th ! REG_RSP))"
    by (subst e) (simp_all add: handler_area_def w)
qed

text \<open>
  So the words that scan_threads scans for a saved thread are its registers and its live
  stack at the flip, where the areas do not wrap around and the stack is made of longs.
\<close>

definition save_fits :: "thread_state \<Rightarrow> mutator \<Rightarrow> bool" where
  "save_fits st th \<longleftrightarrow>
     uint (registers st) + 23 * 8 < 2 ^ 64 \<and> uint (saved_stack_base st) mod 8 = 0 \<and>
     uint (saved_stack_base st) + live_stack_size th < 2 ^ 64 \<and> live_stack_size th < 2 ^ 31 \<and>
     live_stack_size th mod 8 = 0"

lemma mod_8_mask:
  assumes "uint (p :: addr) mod 8 = 0"
  shows "p AND NOT (GC_POINTER_ALIGNMENT - 1) = p"
proof -
  have "take_bit 3 p = 0"
  proof -
    have "uint (take_bit 3 p) = uint p mod 8" by (simp only: unsigned_take_bit_eq) (simp add: take_bit_eq_mod)
    then show ?thesis using assms by (simp add: uint_0_iff)
  qed
  then have "p AND mask 3 = 0" by (simp add: take_bit_eq_mask)
  moreover have "GC_POINTER_ALIGNMENT - 1 = mask 3" by (simp add: GC_POINTER_ALIGNMENT_def mask_eq_exp_minus_1)
  moreover have "p = (p AND mask 3) OR (p AND NOT (mask 3))"
    by (rule bit_word_eqI) (auto simp: bit_simps)
  ultimately show ?thesis by simp
qed

lemma uint_add_below:
  "uint (p :: addr) + n < 2 ^ 64 \<Longrightarrow> 0 \<le> n \<Longrightarrow> uint (p + word_of_int n) = uint p + n"
  by (simp add: uint_add_64 uint_word_of_int mod_simps)

lemma saved_thread_words:
  assumes "mutator_ok th" and f: "save_fits st th"
  shows "thread_words m (saved_thread st th) =
    map m (cells NREG (registers st)) @ map m (cells (stack_longs th) (saved_stack_base st))"
proof -
  have live: "0 \<le> live_stack_size th" using assms(1) by (simp add: mutator_ok_def)
  have c: "c_int (live_stack_size th) = live_stack_size th" using live f by (simp add: c_int_id save_fits_def)
  have "uint (registers st + word_of_int (23 * 8)) = uint (registers st) + 23 * 8"
    using f by (intro uint_add_below) (simp_all add: save_fits_def)
  then have "segment_length (registers st) (registers st + 23 * 8) = 23"
    by (simp add: segment_length_def)
  moreover have top: "uint (saved_stack_base st + word_of_int (live_stack_size th)) =
      uint (saved_stack_base st) + live_stack_size th"
    using f live by (intro uint_add_below) (simp_all add: save_fits_def)
  have "segment_length (saved_stack_base st) (saved_stack_base st + word_of_int (live_stack_size th)) = stack_longs th"
  proof -
    have "(n + 7) div 8 = n div 8" if "n mod 8 = 0" for n :: int using that by presburger
    then have "(live_stack_size th + 7) div 8 = live_stack_size th div 8"
      using f by (simp add: save_fits_def)
    then show ?thesis using top by (simp add: segment_length_def stack_longs_def)
  qed
  moreover have "saved_stack_base st AND NOT (GC_POINTER_ALIGNMENT - 1) = saved_stack_base st"
    using f by (intro mod_8_mask) (simp add: save_fits_def)
  ultimately show ?thesis
    by (simp add: thread_words_def segment_words_def saved_thread_def stack_top_def stack_bottom_of_def c NREG_def)
qed

end
