(* ===== verification/Empty_Pages.thy ===== *)
theory Empty_Pages
  imports Heap_Shape
begin

text \<open>
  The list of holes (rtalloc.c): runs of empty pages, each with a header in its first two
  longs, the page count and the next hole. RTinit_empty_pages puts a run in front of the
  list, allocate_empty_pages takes pages from the hole that fits best. The abstract value
  of the list is a list of pairs, first page and page count; the lemmas show what the two
  operations do to it.
\<close>

subsection \<open>The code\<close>

definition hole_page_count :: "mem \<Rightarrow> addr \<Rightarrow> int" where
  "hole_page_count m p = sint (m p)"

definition hole_next :: "mem \<Rightarrow> addr \<Rightarrow> addr" where
  "hole_next m p = m (p + 8)"

definition set_hole_count :: "mem \<Rightarrow> addr \<Rightarrow> int \<Rightarrow> mem" where
  "set_hole_count m p n = m(p := word_of_int n)"

definition set_hole_next :: "mem \<Rightarrow> addr \<Rightarrow> addr \<Rightarrow> mem" where
  "set_hole_next m p q = m(p + 8 := q)"

definition clear_pages :: "int \<Rightarrow> int \<Rightarrow> (int \<Rightarrow> page_info) \<Rightarrow> int \<Rightarrow> page_info" where
  "clear_pages first_page last_page pgs =
     fold (\<lambda>i pgs. pgs(i := \<lparr>pbase = 0, pgroup = EMPTY_PAGE\<rparr>)) [first_page..last_page - 1] pgs"

definition RTinit_empty_pages :: "int \<Rightarrow> int \<Rightarrow> segment_type \<Rightarrow> rt_state \<Rightarrow> rt_error + rt_state" where
  "RTinit_empty_pages first_page page_count type s =
     (let s1 = s\<lparr>pages := clear_pages first_page (first_page + page_count) (pages s)\<rparr>
      in if type = HEAP_SEGMENT then
           (let new_hole = PAGE_INDEX_TO_PTR s1 first_page;
                m1 = set_hole_count (memory s1) new_hole page_count;
                m2 = set_hole_next m1 new_hole (empty_pages s1)
            in Inr (s1\<lparr>memory := m2, empty_pages := new_hole\<rparr>))
         else Inl (Debugger ''Can only init heap pages''))"

text \<open>
  The search of allocate_empty_pages. The result is the best remaining count, the best hole
  and the hole before it. Every hole has a page of its own, so the number of pages of the
  partition bounds the length of the list.
\<close>

fun best_fit_loop ::
    "nat \<Rightarrow> mem \<Rightarrow> int \<Rightarrow> int \<Rightarrow> addr \<Rightarrow> addr \<Rightarrow> addr \<Rightarrow> addr \<Rightarrow> rt_error + int \<times> addr \<times> addr" where
  "best_fit_loop 0 m page_count best_remaining best best_prev prev nxt = Inl Out_of_fuel"
| "best_fit_loop (Suc fuel) m page_count best_remaining best best_prev prev nxt =
     (if 0 < best_remaining \<and> nxt \<noteq> 0 then
        (let (best_remaining', best', best_prev') =
           (if page_count \<le> hole_page_count m nxt then
              (let remaining = c_int (hole_page_count m nxt - page_count)
               in if remaining < best_remaining then (remaining, nxt, prev)
                  else (best_remaining, best, best_prev))
            else (best_remaining, best, best_prev))
         in best_fit_loop fuel m page_count best_remaining' best' best_prev' nxt (hole_next m nxt))
      else Inr (best_remaining, best, best_prev))"

definition allocate_empty_pages :: "int \<Rightarrow> rt_state \<Rightarrow> rt_error + rt_state \<times> addr" where
  "allocate_empty_pages page_count s =
     rbind (best_fit_loop (nat (total_partition_pages s) + 1) (memory s) page_count
              (c_int (total_partition_pages s + 1)) 0 0 0 (empty_pages s))
       (\<lambda>(best_remaining, best, best_prev).
          if best \<noteq> 0 then
            (let (m1, rest) =
               (if best_remaining = 0 then (memory s, hole_next (memory s) best)
                else
                  (let rest = best + word_of_int (c_int (page_count * BYTES_PER_PAGE));
                       m' = set_hole_count (memory s) rest best_remaining
                   in (set_hole_next m' rest (hole_next m' best), rest)));
                 s1 =
                   (if best_prev = 0 then s\<lparr>memory := m1, empty_pages := rest\<rparr>
                    else s\<lparr>memory := set_hole_next m1 best_prev rest\<rparr>)
             in Inr (s1, best))
          else Inr (s, 0))"

text \<open>
  allocate_segment. RTbig_malloc is mmap, a function of the byte count here; the structure
  of segments is updated as the code does, and the second component is the returned byte
  count. The stores of both segment types are the switch of the source.
\<close>

definition MAX_SEGMENTS :: nat where
  "MAX_SEGMENTS = 1 + 1"

definition allocate_segment ::
    "(int \<Rightarrow> addr) \<Rightarrow> int \<Rightarrow> segment_type \<Rightarrow> rt_state \<Rightarrow> rt_error + rt_state \<times> int" where
  "allocate_segment big_malloc desired_bytes type s =
     (if 0 < desired_bytes \<and> desired_bytes mod BYTES_PER_PAGE = 0 \<and> length (segments s) < MAX_SEGMENTS then
        (let first_ptr = big_malloc desired_bytes in
         if first_ptr \<noteq> 0 then
           (let page_count = c_int (desired_bytes div BYTES_PER_PAGE);
                last_ptr = first_ptr + word_of_int (c_int (page_count * BYTES_PER_PAGE));
                seg = \<lparr>first_segment_ptr = first_ptr, last_segment_ptr = last_ptr,
                       segment_page_count = page_count, seg_type = type\<rparr>;
                s1 = s\<lparr>segments := segments s @ [seg]\<rparr>
            in case type of
                 HEAP_SEGMENT \<Rightarrow>
                   (let s2 = s1\<lparr>first_partition_ptr := first_ptr, last_partition_ptr := last_ptr\<rparr>
                    in rbind (RTinit_empty_pages (c_int (PTR_TO_PAGE_INDEX s2 first_ptr)) page_count type s2)
                         (\<lambda>s3. Inr (s3, desired_bytes)))
               | STATIC_SEGMENT \<Rightarrow>
                   (let seg0 = segments s1 ! 0
                    in Inr (s1\<lparr>last_static_ptr := last_segment_ptr seg0,
                               first_static_ptr := first_segment_ptr seg0,
                               static_frontier_ptr := first_segment_ptr seg0\<rparr>, desired_bytes)))
         else Inl (Debugger ''Add support for more than 2 segments''))
      else Inr (s, 0))"

subsection \<open>What the list of holes means\<close>

text \<open>
  A hole is a run of pages. The list in memory from \<open>p\<close>: the header of each hole stands at
  its first page.
\<close>

type_synonym hole = "int \<times> int"

abbreviation hole_addr :: "rt_state \<Rightarrow> hole \<Rightarrow> addr" where
  "hole_addr s h \<equiv> PAGE_INDEX_TO_PTR s (fst h)"

primrec hole_seg :: "rt_state \<Rightarrow> mem \<Rightarrow> hole list \<Rightarrow> addr \<Rightarrow> bool" where
  "hole_seg s m [] e \<longleftrightarrow> True"
| "hole_seg s m (h # H) e \<longleftrightarrow>
     m (hole_addr s h) = word_of_int (snd h) \<and>
     hole_next m (hole_addr s h) = hd_or (map (hole_addr s) H) e \<and> hole_seg s m H e"

definition hole_pages :: "hole \<Rightarrow> int set" where
  "hole_pages h = {fst h..<fst h + snd h}"

definition holes_disjoint :: "hole list \<Rightarrow> bool" where
  "holes_disjoint H \<longleftrightarrow> distinct (map fst H) \<and>
     (\<forall>h\<in>set H. \<forall>k\<in>set H. h \<noteq> k \<longrightarrow> hole_pages h \<inter> hole_pages k = {})"

text \<open>
  The holes are not empty, lie in the partition, and do not overlap. The pages that are
  marked EMPTY are those of the holes and those in \<open>T\<close>, pages that were taken from a hole
  and are not yet entered for a group.
\<close>

definition empty_page_set :: "rt_state \<Rightarrow> int set" where
  "empty_page_set s = {q. 0 \<le> q \<and> q < total_partition_pages s \<and> pgroup (pages s q) = EMPTY_PAGE}"

definition holes_ok :: "rt_state \<Rightarrow> int set \<Rightarrow> hole list \<Rightarrow> bool" where
  "holes_ok s T H \<longleftrightarrow>
     (\<forall>h\<in>set H. 0 \<le> fst h \<and> 1 \<le> snd h \<and> fst h + snd h \<le> total_partition_pages s) \<and>
     holes_disjoint H \<and>
     (\<Union>h\<in>set H. hole_pages h) \<inter> T = {} \<and>
     empty_page_set s = (\<Union>h\<in>set H. hole_pages h) \<union> T \<and>
     empty_pages s = hd_or (map (hole_addr s) H) 0 \<and> hole_seg s (memory s) H 0"

lemma hole_seg_append [simp]:
  "hole_seg s m (H @ K) e \<longleftrightarrow> hole_seg s m H (hd_or (map (hole_addr s) K) e) \<and> hole_seg s m K e"
  by (induction H) auto

definition hole_cells :: "rt_state \<Rightarrow> int set \<Rightarrow> addr set" where
  "hole_cells s P = (\<Union>p\<in>P. {PAGE_INDEX_TO_PTR s p, PAGE_INDEX_TO_PTR s p + 8})"

lemma hole_seg_cong:
  assumes "\<And>a. a \<in> hole_cells s (fst ` set H) \<Longrightarrow> m' a = m a"
  shows "hole_seg s m' H e = hole_seg s m H e"
  using assms by (induction H) (auto simp: hole_cells_def hole_next_def)

text \<open>Addresses of pages.\<close>

lemma page_ptr_inj:
  assumes "layout_ok s" and "0 \<le> p" and "p < total_partition_pages s"
    and "0 \<le> q" and "q < total_partition_pages s"
  shows "PAGE_INDEX_TO_PTR s p = PAGE_INDEX_TO_PTR s q \<longleftrightarrow> p = q"
  using page_index_roundtrip [OF assms(1-3)] page_index_roundtrip [OF assms(1,4,5)] by metis

lemma page_ptr_not_0:
  assumes "layout_ok s" and "0 \<le> p" and "p \<le> total_partition_pages s"
  shows "PAGE_INDEX_TO_PTR s p \<noteq> 0"
proof -
  have "0 < uint (PAGE_INDEX_TO_PTR s p)"
    unfolding uint_PAGE_INDEX_TO_PTR [OF assms] using assms by (simp add: layout_ok_def config_defs)
  then show ?thesis by auto
qed

lemma page_ptr_neq_plus_8:
  assumes "layout_ok s" and "0 \<le> p" and "p \<le> total_partition_pages s"
    and "0 \<le> q" and "q \<le> total_partition_pages s"
  shows "PAGE_INDEX_TO_PTR s p \<noteq> PAGE_INDEX_TO_PTR s q + 8"
    and "PAGE_INDEX_TO_PTR s q + 8 \<noteq> PAGE_INDEX_TO_PTR s p"
  using aligned_neq_plus_8 [OF aligned_PAGE_INDEX_TO_PTR [OF assms(1-3)]
      aligned_PAGE_INDEX_TO_PTR [OF assms(1,4,5)]] by simp_all

lemma page_ptr_add:
  assumes "layout_ok s" and "0 \<le> p" and "0 \<le> n" and "p + n \<le> total_partition_pages s"
  shows "PAGE_INDEX_TO_PTR s p + word_of_int (n * BYTES_PER_PAGE) = PAGE_INDEX_TO_PTR s (p + n)"
proof -
  have b: "0 \<le> n * BYTES_PER_PAGE" "uint (PAGE_INDEX_TO_PTR s p) + n * BYTES_PER_PAGE \<le> 2 ^ 47"
    using assms uint_PAGE_INDEX_TO_PTR [of s p]
    by (simp_all add: layout_ok_def config_defs)
  have "uint (PAGE_INDEX_TO_PTR s p + word_of_int (n * BYTES_PER_PAGE)) =
      uint (PAGE_INDEX_TO_PTR s p) + n * BYTES_PER_PAGE"
    using b by (simp add: uint_word_ariths uint_word_of_int mod_simps)
  also have "\<dots> = uint (PAGE_INDEX_TO_PTR s (p + n))"
    using assms uint_PAGE_INDEX_TO_PTR [of s p] uint_PAGE_INDEX_TO_PTR [of s "p + n"]
    by (simp add: algebra_simps)
  finally show ?thesis by (simp only: word_uint_eq_iff)
qed

lemma page_macros_eq:
  assumes "first_partition_ptr s' = first_partition_ptr s"
  shows "PAGE_INDEX_TO_PTR s' = PAGE_INDEX_TO_PTR s" "PTR_TO_PAGE_INDEX s' = PTR_TO_PAGE_INDEX s"
  by (simp_all add: fun_eq_iff PAGE_INDEX_TO_PTR_def PTR_TO_PAGE_INDEX_def assms)

lemma hole_seg_eq:
  assumes "first_partition_ptr s' = first_partition_ptr s"
  shows "hole_seg s' m H e = hole_seg s m H e"
  by (induction H) (simp_all add: page_macros_eq(1) [OF assms])

lemma holes_okD:
  assumes "holes_ok s T H"
  shows "h \<in> set H \<Longrightarrow> 0 \<le> fst h" "h \<in> set H \<Longrightarrow> 1 \<le> snd h"
    "h \<in> set H \<Longrightarrow> fst h + snd h \<le> total_partition_pages s"
    "distinct (map fst H)" "(\<Union>h\<in>set H. hole_pages h) \<inter> T = {}"
    "empty_page_set s = (\<Union>h\<in>set H. hole_pages h) \<union> T"
    "empty_pages s = hd_or (map (hole_addr s) H) 0" "hole_seg s (memory s) H 0"
    "h \<in> set H \<Longrightarrow> k \<in> set H \<Longrightarrow> h \<noteq> k \<Longrightarrow> hole_pages h \<inter> hole_pages k = {}"
  using assms by (auto simp: holes_ok_def holes_disjoint_def)

lemma holes_ok_length:
  assumes "holes_ok s T H"
  shows "length H \<le> nat (total_partition_pages s)"
proof -
  have "length H = card (set (map fst H))"
    using holes_okD(4) [OF assms] by (metis distinct_card length_map)
  also have "\<dots> \<le> card {0..<total_partition_pages s}"
  proof (rule card_mono)
    have "0 \<le> fst h \<and> fst h < total_partition_pages s" if "h \<in> set H" for h
      using holes_okD(1-3) [OF assms that] by linarith
    then show "set (map fst H) \<subseteq> {0..<total_partition_pages s}" by auto
  qed simp
  finally show ?thesis by simp
qed

subsection \<open>Adding pages\<close>

lemma clear_pages_eq:
  "clear_pages a b pgs i = (if a \<le> i \<and> i < b then \<lparr>pbase = 0, pgroup = EMPTY_PAGE\<rparr> else pgs i)"
proof -
  have "fold (\<lambda>i pgs. pgs(i := c)) is pgs j = (if j \<in> set is then c else pgs j)"
    for "is" :: "int list" and c :: page_info and j pgs
    by (induction "is" arbitrary: pgs) auto
  then show ?thesis by (auto simp: clear_pages_def)
qed

lemma RTinit_empty_pages_holes:
  assumes lay: "layout_ok s" and H: "holes_ok s T H"
    and p: "0 \<le> p" "1 \<le> n" "p + n \<le> total_partition_pages s"
    and fresh: "hole_pages (p, n) \<inter> empty_page_set s = {}"
  obtains s' where "RTinit_empty_pages p n HEAP_SEGMENT s = Inr s'" and "holes_ok s' T ((p, n) # H)"
    and "s' = s\<lparr>memory := memory s', pages := clear_pages p (p + n) (pages s),
                empty_pages := PAGE_INDEX_TO_PTR s p\<rparr>"
    and "\<And>a. a \<notin> hole_cells s {p} \<Longrightarrow> memory s' a = memory s a"
proof -
  let ?a = "PAGE_INDEX_TO_PTR s p"
  define m' where "m' = set_hole_next (set_hole_count (memory s) ?a n) ?a (empty_pages s)"
  define s' where "s' = s\<lparr>memory := m', pages := clear_pages p (p + n) (pages s), empty_pages := ?a\<rparr>"
  have eq: "RTinit_empty_pages p n HEAP_SEGMENT s = Inr s'"
    by (simp add: RTinit_empty_pages_def Let_def s'_def m'_def page_macros_eq [of "s\<lparr>pages := x\<rparr>" s for x])
  have fr: "m' a = memory s a" if "a \<notin> hole_cells s {p}" for a
    using that by (simp add: m'_def set_hole_next_def set_hole_count_def hole_cells_def)
  have np: "fst h \<noteq> p" if "h \<in> set H" for h
  proof
    assume "fst h = p"
    then have "p \<in> hole_pages h" "p \<in> hole_pages (p, n)"
      using holes_okD(2) [OF H that] p(2) by (simp_all add: hole_pages_def)
    then show False using that fresh unfolding holes_okD(6) [OF H] by blast
  qed
  have cells: "a \<notin> hole_cells s {p}" if "a \<in> hole_cells s (fst ` set H)" for a
  proof -
    from that obtain h where h: "h \<in> set H" "a = hole_addr s h \<or> a = hole_addr s h + 8"
      by (auto simp: hole_cells_def)
    have b: "0 \<le> fst h" "fst h < total_partition_pages s" "p < total_partition_pages s"
      using holes_okD(1-3) [OF H h(1)] p by linarith+
    have "hole_addr s h \<noteq> ?a" using np [OF h(1)] page_ptr_inj [OF lay b(1,2) p(1) b(3)] by simp
    then show ?thesis
      using h(2) page_ptr_neq_plus_8 [OF lay, of "fst h" p] page_ptr_neq_plus_8 [OF lay, of p "fst h"] b p
      by (auto simp: hole_cells_def)
  qed
  have seg: "hole_seg s m' H 0"
    using holes_okD(8) [OF H] hole_seg_cong [of s H m' "memory s" 0] fr cells by blast
  have nx: "?a + 8 \<noteq> ?a" using page_ptr_neq_plus_8 [OF lay, of p p] p by simp
  have "m' ?a = word_of_int n" "hole_next m' ?a = empty_pages s"
    using nx by (simp_all add: m'_def set_hole_next_def set_hole_count_def hole_next_def)
  moreover have f: "first_partition_ptr s' = first_partition_ptr s" by (simp add: s'_def)
  ultimately have seg': "hole_seg s' m' ((p, n) # H) 0"
    using seg holes_okD(7) [OF H] by (simp add: hole_seg_eq [OF f] page_macros_eq(1) [OF f])
  have ep: "empty_page_set s' = hole_pages (p, n) \<union> empty_page_set s"
    using p by (auto simp: empty_page_set_def s'_def clear_pages_eq hole_pages_def)
  have "hole_pages (p, n) \<inter> hole_pages k = {}" if "k \<in> set H" for k
    using that fresh unfolding holes_okD(6) [OF H] by blast
  moreover have "p \<notin> fst ` set H" using np by blast
  ultimately have "holes_disjoint ((p, n) # H)"
    using H unfolding holes_ok_def holes_disjoint_def by (auto simp: Int_commute)
  then have "holes_ok s' T ((p, n) # H)"
    using H p seg' fresh ep page_macros_eq(1) [OF f] unfolding holes_ok_def by (auto simp: s'_def)
  then show thesis using that eq fr by (simp add: s'_def)
qed

subsection \<open>Taking pages: best fit\<close>

text \<open>
  The contract of the search: among the holes that are large enough, one with the fewest
  pages, if it leaves fewer pages than what was best before.
\<close>

definition best_fit_result ::
    "rt_state \<Rightarrow> int \<Rightarrow> hole list \<Rightarrow> int \<times> addr \<times> addr \<Rightarrow> addr \<Rightarrow> int \<times> addr \<times> addr \<Rightarrow> bool" where
  "best_fit_result s n Q old prev new \<longleftrightarrow>
     (new = old \<and> (\<forall>k\<in>set Q. n \<le> snd k \<longrightarrow> fst old \<le> snd k - n)) \<or>
     (\<exists>Q1 h Q2. Q = Q1 @ h # Q2 \<and> n \<le> snd h \<and> snd h - n < fst old \<and>
        new = (snd h - n, hole_addr s h, last_or prev (map (hole_addr s) Q1)) \<and>
        (\<forall>k\<in>set Q. n \<le> snd k \<longrightarrow> snd h \<le> snd k))"

lemma best_fit_resultE:
  assumes "best_fit_result s n Q old prev new"
  obtains (old) "new = old" "\<forall>k\<in>set Q. n \<le> snd k \<longrightarrow> fst old \<le> snd k - n"
    | (found) Q1 h Q2 where "Q = Q1 @ h # Q2" "n \<le> snd h" "snd h - n < fst old"
      "new = (snd h - n, hole_addr s h, last_or prev (map (hole_addr s) Q1))"
      "\<forall>k\<in>set Q. n \<le> snd k \<longrightarrow> snd h \<le> snd k"
  using assms unfolding best_fit_result_def by blast

lemma best_fit_result_found:
  assumes "Q = Q1 @ h # Q2" "n \<le> snd h" "snd h - n < fst old"
    "new = (snd h - n, hole_addr s h, last_or prev (map (hole_addr s) Q1))"
    "\<forall>k\<in>set Q. n \<le> snd k \<longrightarrow> snd h \<le> snd k"
  shows "best_fit_result s n Q old prev new"
  using assms unfolding best_fit_result_def by blast

lemma best_fit_result_skip:
  assumes "best_fit_result s n Q old (hole_addr s k) new" and "n \<le> snd k \<longrightarrow> fst old \<le> snd k - n"
  shows "best_fit_result s n (k # Q) old prev new"
  using assms(1)
proof (cases rule: best_fit_resultE)
  case old
  then show ?thesis using assms(2) by (simp add: best_fit_result_def)
next
  case (found Q1 h Q2)
  then show ?thesis using assms(2)
    by (intro best_fit_result_found [of _ "k # Q1" h Q2]) auto
qed

lemma best_fit_result_take:
  assumes "best_fit_result s n Q (snd k - n, hole_addr s k, prev) (hole_addr s k) new"
    and "n \<le> snd k" and "snd k - n < fst old"
  shows "best_fit_result s n (k # Q) old prev new"
  using assms(1)
proof (cases rule: best_fit_resultE)
  case old
  then show ?thesis using assms(2,3)
    by (intro best_fit_result_found [of _ "[]" k Q]) auto
next
  case (found Q1 h Q2)
  then show ?thesis using assms(2,3)
    by (intro best_fit_result_found [of _ "k # Q1" h Q2]) auto
qed

lemma hole_page_count_small:
  assumes "m (hole_addr s h) = word_of_int (snd h)" and "0 \<le> snd h" and "snd h < 2 ^ 31"
  shows "hole_page_count m (hole_addr s h) = snd h"
proof -
  have "sint (word_of_int (snd h) :: addr) = signed_take_bit 63 (snd h)"
    by (simp add: sint_sbintrunc')
  also have "\<dots> = snd h" using assms(2,3) by (intro signed_take_bit_int_eq_self) simp_all
  finally show ?thesis by (simp add: hole_page_count_def assms(1))
qed

lemma best_fit_loop_spec:
  assumes "hole_seg s m Q 0" and "nxt = hd_or (map (hole_addr s) Q) 0" and "length Q < fuel"
    and "\<forall>h\<in>set Q. hole_addr s h \<noteq> 0 \<and> 0 \<le> snd h \<and> snd h < 2 ^ 31" and "0 \<le> n" and "0 \<le> rem"
  shows "\<exists>new. best_fit_loop fuel m n rem best best_prev prev nxt = Inr new \<and>
    best_fit_result s n Q (rem, best, best_prev) prev new"
  using assms
proof (induction Q arbitrary: fuel rem best best_prev prev nxt)
  case Nil
  then show ?case by (cases fuel) (auto simp: best_fit_result_def)
next
  case (Cons k Q)
  obtain f where f: "fuel = Suc f" "length Q < f" using Cons.prems(3) by (cases fuel) auto
  have k: "hole_addr s k \<noteq> 0" "0 \<le> snd k" "snd k < 2 ^ 31" using Cons.prems(4) by auto
  have cnt: "hole_page_count m (hole_addr s k) = snd k"
    using Cons.prems(1) k by (intro hole_page_count_small) simp_all
  have nxt: "nxt = hole_addr s k" "hole_next m nxt = hd_or (map (hole_addr s) Q) 0"
    using Cons.prems(1,2) by simp_all
  have seg: "hole_seg s m Q 0" and ok: "\<forall>h\<in>set Q. hole_addr s h \<noteq> 0 \<and> 0 \<le> snd h \<and> snd h < 2 ^ 31"
    using Cons.prems(1,4) by simp_all
  have ci: "c_int (snd k - n) = snd k - n" if "n \<le> snd k"
    using that k Cons.prems(5) by (intro c_int_id) simp_all
  consider (zero) "rem = 0" | (take) "0 < rem" "n \<le> snd k" "snd k - n < rem"
    | (skip) "0 < rem" "n \<le> snd k \<longrightarrow> rem \<le> snd k - n"
    using Cons.prems(6) by linarith
  then show ?case
  proof cases
    case zero
    then show ?thesis
      using Cons.prems(5) by (intro exI [of _ "(rem, best, best_prev)"]) (auto simp: f best_fit_result_def)
  next
    case take
    have "best_fit_loop fuel m n rem best best_prev prev nxt =
        best_fit_loop f m n (snd k - n) nxt prev nxt (hole_next m nxt)"
      using take k(1) by (simp add: f nxt(1) cnt ci)
    moreover obtain new where "best_fit_loop f m n (snd k - n) nxt prev nxt (hole_next m nxt) = Inr new"
        "best_fit_result s n Q (snd k - n, nxt, prev) nxt new"
      using Cons.IH [OF seg nxt(2) f(2) ok Cons.prems(5), of "snd k - n" nxt prev nxt] take(2) by auto
    ultimately show ?thesis
      using best_fit_result_take [where old = "(rem, best, best_prev)" and prev = prev] take(2,3)
      unfolding nxt(1) by (intro exI [of _ new]) simp
  next
    case skip
    have "best_fit_loop fuel m n rem best best_prev prev nxt =
        best_fit_loop f m n rem best best_prev nxt (hole_next m nxt)"
      using skip k(1) by (auto simp: f nxt(1) cnt ci)
    moreover obtain new where "best_fit_loop f m n rem best best_prev nxt (hole_next m nxt) = Inr new"
        "best_fit_result s n Q (rem, best, best_prev) nxt new"
      using Cons.IH [OF seg nxt(2) f(2) ok Cons.prems(5,6), of best best_prev nxt] by auto
    ultimately show ?thesis
      using best_fit_result_skip [where old = "(rem, best, best_prev)" and prev = prev] skip(2)
      unfolding nxt(1) by (intro exI [of _ new]) simp
  qed
qed

text \<open>What is left of a hole when its first \<open>n\<close> pages are taken.\<close>

definition rest_of_hole :: "int \<Rightarrow> hole \<Rightarrow> hole list" where
  "rest_of_hole n h = (if snd h = n then [] else [(fst h + n, snd h - n)])"

lemma hole_seg_set_next_last:
  assumes "hole_seg s m (H @ [h]) e" and "hole_addr s h + 8 \<notin> hole_addr s ` set (H @ [h])"
    and "hole_addr s h + 8 \<notin> (\<lambda>k. hole_addr s k + 8) ` set H"
  shows "hole_seg s (set_hole_next m (hole_addr s h) e') (H @ [h]) e'"
proof -
  have "hole_seg s (set_hole_next m (hole_addr s h) e') H (hole_addr s h) = hole_seg s m H (hole_addr s h)"
    using assms(2,3) by (intro hole_seg_cong) (force simp: hole_cells_def set_hole_next_def)
  then show ?thesis using assms by (auto simp: set_hole_next_def hole_next_def)
qed

lemma holes_split:
  assumes lay: "layout_ok s" and H: "holes_ok s T (H1 @ h # H2)" and n: "1 \<le> n" "n \<le> snd h"
  shows "\<forall>k\<in>set (H1 @ rest_of_hole n h @ H2).
      0 \<le> fst k \<and> 1 \<le> snd k \<and> fst k + snd k \<le> total_partition_pages s"
    and "holes_disjoint (H1 @ rest_of_hole n h @ H2)"
    and "(\<Union>k\<in>set (H1 @ rest_of_hole n h @ H2). hole_pages k) = (\<Union>k\<in>set (H1 @ h # H2). hole_pages k) - hole_pages (fst h, n)"
    and "hole_pages (fst h, n) \<subseteq> hole_pages h"
proof -
  note d = holes_okD [OF H]
  have sub: "hole_pages k \<subseteq> hole_pages h" if "k \<in> set (rest_of_hole n h)" for k
    using that n by (auto simp: rest_of_hole_def hole_pages_def split: if_splits)
  have sub1: "hole_pages k \<inter> hole_pages (fst h, n) = {}" if "k \<in> set (rest_of_hole n h)" for k
    using that by (auto simp: rest_of_hole_def hole_pages_def split: if_splits)
  show in_h: "hole_pages (fst h, n) \<subseteq> hole_pages h" using n by (auto simp: hole_pages_def)
  have un: "hole_pages h = hole_pages (fst h, n) \<union> (\<Union>k\<in>set (rest_of_hole n h). hole_pages k)"
    using n by (auto simp: rest_of_hole_def hole_pages_def)
  have hH: "hole_pages h \<inter> hole_pages k = {}" if "k \<in> set H1 \<union> set H2" for k
  proof -
    have "fst h \<notin> fst ` (set H1 \<union> set H2)" using d(4) by auto
    then have "fst k \<noteq> fst h" using that by (metis imageI)
    then have "h \<noteq> k" by auto
    with d(9) that show ?thesis by auto
  qed
  show "\<forall>k\<in>set (H1 @ rest_of_hole n h @ H2).
      0 \<le> fst k \<and> 1 \<le> snd k \<and> fst k + snd k \<le> total_partition_pages s"
    using d(1-3) n by (auto simp: rest_of_hole_def)
  show "(\<Union>k\<in>set (H1 @ rest_of_hole n h @ H2). hole_pages k) =
      (\<Union>k\<in>set (H1 @ h # H2). hole_pages k) - hole_pages (fst h, n)"
    using un sub1 hH in_h by (simp only: set_append set_simps UN_Un UN_insert) blast
  have ne: "fst k \<noteq> fst l" if "k \<in> set H1 \<union> set H2" "l \<in> set (rest_of_hole n h)" for k l
  proof
    assume "fst k = fst l"
    moreover have "1 \<le> snd k" using d(2) that(1) by auto
    moreover have "1 \<le> snd l" using that(2) n by (auto simp: rest_of_hole_def split: if_splits)
    ultimately have "fst k \<in> hole_pages k" "fst k \<in> hole_pages l" by (simp_all add: hole_pages_def)
    then show False using hH [OF that(1)] sub [OF that(2)] by blast
  qed
  have dr: "distinct (map fst (rest_of_hole n h))" by (simp add: rest_of_hole_def)
  have "distinct (map fst (H1 @ rest_of_hole n h @ H2))"
    using d(4) dr ne by (auto simp: disjoint_iff image_iff) metis+
  moreover have "hole_pages k \<inter> hole_pages l = {}"
    if kl: "k \<in> set (H1 @ rest_of_hole n h @ H2)" "l \<in> set (H1 @ rest_of_hole n h @ H2)" "k \<noteq> l" for k l
  proof -
    have one: "k = l" if "k \<in> set (rest_of_hole n h)" "l \<in> set (rest_of_hole n h)" for k l
      using that by (auto simp: rest_of_hole_def split: if_splits)
    consider "k \<in> set H1 \<union> set H2" "l \<in> set H1 \<union> set H2" | "k \<in> set H1 \<union> set H2" "l \<in> set (rest_of_hole n h)"
      | "k \<in> set (rest_of_hole n h)" "l \<in> set H1 \<union> set H2"
      using kl one [of k l] unfolding set_append by blast
    then show ?thesis
    proof cases
      case 1
      then show ?thesis using d(9) kl(3) by auto
    next
      case 2
      then show ?thesis using hH sub by blast
    next
      case 3
      then show ?thesis using hH sub by blast
    qed
  qed
  ultimately show "holes_disjoint (H1 @ rest_of_hole n h @ H2)"
    unfolding holes_disjoint_def by blast
qed

text \<open>The list of holes depends on the headers of the holes only.\<close>

lemma hole_addr_cells:
  assumes lay: "layout_ok s" and "0 \<le> p" "p < total_partition_pages s"
    and "\<And>q. q \<in> P \<Longrightarrow> 0 \<le> q \<and> q < total_partition_pages s" and "p \<notin> P"
  shows "PAGE_INDEX_TO_PTR s p \<notin> hole_cells s P" and "PAGE_INDEX_TO_PTR s p + 8 \<notin> hole_cells s P"
proof -
  have "PAGE_INDEX_TO_PTR s p \<noteq> PAGE_INDEX_TO_PTR s q \<and> PAGE_INDEX_TO_PTR s p \<noteq> PAGE_INDEX_TO_PTR s q + 8 \<and>
      PAGE_INDEX_TO_PTR s p + 8 \<noteq> PAGE_INDEX_TO_PTR s q" if "q \<in> P" for q
  proof -
    have q: "0 \<le> q" "q < total_partition_pages s" "p \<noteq> q" using assms(4) [OF that] assms(5) that by auto
    show ?thesis
      using page_ptr_inj [OF lay assms(2,3) q(1,2)] q(3)
        page_ptr_neq_plus_8 [OF lay, of p q] page_ptr_neq_plus_8 [OF lay, of q p] assms(2,3) q by simp
  qed
  then show "PAGE_INDEX_TO_PTR s p \<notin> hole_cells s P" and "PAGE_INDEX_TO_PTR s p + 8 \<notin> hole_cells s P"
    by (auto simp: hole_cells_def)
qed

text \<open>
  allocate_empty_pages: null and nothing changed when no hole is large enough, otherwise
  the first \<open>n\<close> pages of a smallest hole that is.
\<close>

definition fits_best :: "int \<Rightarrow> hole \<Rightarrow> hole list \<Rightarrow> bool" where
  "fits_best n h H \<longleftrightarrow> h \<in> set H \<and> n \<le> snd h \<and> (\<forall>k\<in>set H. n \<le> snd k \<longrightarrow> snd h \<le> snd k)"

lemma hole_bounds:
  assumes "layout_ok s" and "holes_ok s T H" and "h \<in> set H"
  shows "0 \<le> fst h" "fst h < total_partition_pages s" "1 \<le> snd h" "snd h < 2 ^ 19"
    "hole_addr s h \<noteq> 0"
proof -
  show b: "0 \<le> fst h" "fst h < total_partition_pages s" "1 \<le> snd h" "snd h < 2 ^ 19"
    using holes_okD(1-3) [OF assms(2,3)] assms(1) by (simp_all add: layout_ok_def)
  show "hole_addr s h \<noteq> 0" using page_ptr_not_0 [OF assms(1), of "fst h"] b by simp
qed

lemma search_spec:
  assumes lay: "layout_ok s" and H: "holes_ok s T H" and n: "1 \<le> n"
  shows "\<exists>new. best_fit_loop (nat (total_partition_pages s) + 1) (memory s) n
      (c_int (total_partition_pages s + 1)) 0 0 0 (empty_pages s) = Inr new \<and>
    best_fit_result s n H (total_partition_pages s + 1, 0, 0) 0 new"
proof -
  have c: "c_int (total_partition_pages s + 1) = total_partition_pages s + 1"
    using lay by (intro c_int_id) (simp_all add: layout_ok_def)
  show ?thesis
    unfolding c
  proof (rule best_fit_loop_spec)
    show "hole_seg s (memory s) H 0" by (rule holes_okD(8) [OF H])
    show "empty_pages s = hd_or (map (hole_addr s) H) 0" by (rule holes_okD(7) [OF H])
    show "length H < nat (total_partition_pages s) + 1" using holes_ok_length [OF H] by simp
    show "\<forall>h\<in>set H. hole_addr s h \<noteq> 0 \<and> 0 \<le> snd h \<and> snd h < 2 ^ 31"
      using hole_bounds [OF lay H] by fastforce
    show "0 \<le> n" using n by simp
    show "0 \<le> total_partition_pages s + 1" using lay by (simp add: layout_ok_def)
  qed
qed

text \<open>
  Taking pages from a hole: the header of what is left of it is written, and the hole before
  it, or the head of the list, is made to point there.
\<close>

definition memory_split :: "rt_state \<Rightarrow> int \<Rightarrow> hole \<Rightarrow> hole list \<Rightarrow> mem" where
  "memory_split s n h H2 = (if snd h = n then memory s
    else set_hole_next (set_hole_count (memory s) (PAGE_INDEX_TO_PTR s (fst h + n)) (snd h - n))
      (PAGE_INDEX_TO_PTR s (fst h + n)) (hd_or (map (hole_addr s) H2) 0))"

definition after_hole :: "rt_state \<Rightarrow> int \<Rightarrow> hole \<Rightarrow> hole list \<Rightarrow> addr" where
  "after_hole s n h H2 = hd_or (map (hole_addr s) (rest_of_hole n h @ H2)) 0"

definition hole_taken :: "rt_state \<Rightarrow> int \<Rightarrow> hole list \<Rightarrow> hole \<Rightarrow> hole list \<Rightarrow> rt_state" where
  "hole_taken s n H1 h H2 =
    s\<lparr>memory := (if H1 = [] then memory_split s n h H2
        else set_hole_next (memory_split s n h H2) (hole_addr s (last H1)) (after_hole s n h H2)),
      empty_pages := (if H1 = [] then after_hole s n h H2 else empty_pages s)\<rparr>"

lemma hole_taken_more: "hole_taken s n H1 h H2 = s\<lparr>memory := memory (hole_taken s n H1 h H2), empty_pages := empty_pages (hole_taken s n H1 h H2)\<rparr>"
  by (simp add: hole_taken_def)

lemma memory_split_frame:
  "(snd h \<noteq> n \<Longrightarrow> a \<notin> hole_cells s {fst h + n}) \<Longrightarrow> memory_split s n h H2 a = memory s a"
  by (auto simp: memory_split_def set_hole_next_def set_hole_count_def hole_cells_def)

lemma split_page_new:
  assumes "layout_ok s" and "holes_ok s T (H1 @ h # H2)" and "1 \<le> n" "n \<le> snd h" and ne: "snd h \<noteq> n"
  shows "fst h + n \<notin> fst ` (set H1 \<union> set H2 \<union> {h})" and "0 \<le> fst h + n" "fst h + n < total_partition_pages s"
proof -
  have "distinct (map fst (H1 @ rest_of_hole n h @ H2))" "rest_of_hole n h = [(fst h + n, snd h - n)]"
    using holes_split(2) [OF assms(1-4)] ne by (simp_all add: holes_disjoint_def rest_of_hole_def)
  then show "fst h + n \<notin> fst ` (set H1 \<union> set H2 \<union> {h})" using assms(3) by auto
  show "0 \<le> fst h + n" "fst h + n < total_partition_pages s"
    using holes_okD(1,3) [OF assms(2), of h] assms(3,4) ne by simp_all
qed

lemma memory_split_segments:
  assumes lay: "layout_ok s" and H: "holes_ok s T (H1 @ h # H2)" and n: "1 \<le> n" "n \<le> snd h"
  shows "hole_seg s (memory_split s n h H2) H1 (hole_addr s h)"
    and "hole_seg s (memory_split s n h H2) (rest_of_hole n h @ H2) 0"
proof -
  let ?m1 = "memory_split s n h H2"
  note d = holes_okD [OF H] and b = hole_bounds [OF lay H]
  have seg: "hole_seg s (memory s) H1 (hole_addr s h)" "hole_seg s (memory s) H2 0" using d(8) by simp_all
  have cells: "?m1 a = memory s a" if "a \<in> hole_cells s (fst ` (set H1 \<union> set H2 \<union> {h}))" for a
  proof (rule memory_split_frame)
    assume ne: "snd h \<noteq> n"
    note new = split_page_new [OF lay H n ne]
    have qb: "0 \<le> q \<and> q < total_partition_pages s" if "q \<in> fst ` (set H1 \<union> set H2 \<union> {h})" for q
    proof -
      obtain k where k: "k \<in> set (H1 @ h # H2)" "q = fst k"
        using \<open>q \<in> _\<close> by (elim imageE) auto
      show ?thesis using b(1,2) [OF k(1)] k(2) by simp
    qed
    note hole_addr_cells [OF lay new(2,3) qb new(1)]
    then show "a \<notin> hole_cells s {fst h + n}" using that by (auto simp: hole_cells_def)
  qed
  show "hole_seg s ?m1 H1 (hole_addr s h)"
    using seg(1) hole_seg_cong [of s H1 ?m1 "memory s"] cells by (auto simp: hole_cells_def)
  have "hole_seg s ?m1 H2 0"
    using seg(2) hole_seg_cong [of s H2 ?m1 "memory s"] cells by (auto simp: hole_cells_def)
  moreover have "PAGE_INDEX_TO_PTR s (fst h + n) + 8 \<noteq> PAGE_INDEX_TO_PTR s (fst h + n)" by simp
  ultimately show "hole_seg s ?m1 (rest_of_hole n h @ H2) 0"
    by (cases "snd h = n") (simp_all add: rest_of_hole_def memory_split_def set_hole_next_def set_hole_count_def hole_next_def)
qed

lemma hole_taken_seg:
  assumes lay: "layout_ok s" and H: "holes_ok s T (H1 @ h # H2)" and n: "1 \<le> n" "n \<le> snd h"
  shows "hole_seg s (memory (hole_taken s n H1 h H2)) (H1 @ rest_of_hole n h @ H2) 0"
proof (cases "H1 = []")
  case True
  then show ?thesis using memory_split_segments(2) [OF assms] by (simp add: hole_taken_def)
next
  case False
  let ?R = "rest_of_hole n h" and ?m1 = "memory_split s n h H2" and ?m2 = "memory (hole_taken s n H1 h H2)"
  note b = hole_bounds [OF lay H] and seg1 = memory_split_segments [OF assms]
  obtain G k where H1: "H1 = G @ [k]" using False by (cases H1 rule: rev_cases) auto
  have m2: "?m2 = set_hole_next ?m1 (hole_addr s k) (after_hole s n h H2)" by (simp add: hole_taken_def H1)
  have kb: "0 \<le> fst k" "fst k < total_partition_pages s" using b [of k] by (simp_all add: H1)
  have nk: "fst k \<notin> fst ` (set G \<union> set (?R @ H2))"
    using holes_split(2) [OF lay H n] by (auto simp: H1 holes_disjoint_def)
  have "0 \<le> q \<and> q < total_partition_pages s" if q: "q \<in> fst ` (set G \<union> set (?R @ H2))" for q
  proof -
    obtain l where "l \<in> set (H1 @ ?R @ H2)" "q = fst l" using q by (auto simp: H1)
    then show ?thesis using holes_split(1) [OF lay H n] by fastforce
  qed
  note nc = hole_addr_cells [OF lay kb this nk]
  have "?m2 a = ?m1 a" if "a \<noteq> hole_addr s k + 8" for a
    using that by (simp add: m2 set_hole_next_def)
  moreover have "a \<noteq> hole_addr s k + 8" if "a \<in> hole_cells s (fst ` set (?R @ H2))" for a
    using nc(2) that by (auto simp: hole_cells_def)
  ultimately have "hole_seg s ?m2 (?R @ H2) 0"
    using seg1(2) hole_seg_cong [of s "?R @ H2" ?m2 ?m1] by metis
  moreover have "hole_addr s k + 8 \<noteq> hole_addr s k" by simp
  then have "hole_seg s ?m2 (G @ [k]) (after_hole s n h H2)"
    unfolding m2 using seg1(1) nc(2) unfolding H1
    by (intro hole_seg_set_next_last) (auto simp: hole_cells_def image_iff)
  ultimately show ?thesis by (simp add: H1 after_hole_def)
qed

lemma hole_taken_result:
  assumes lay: "layout_ok s" and H: "holes_ok s T (H1 @ h # H2)" and n: "1 \<le> n" "n \<le> snd h"
    and search: "best_fit_loop (nat (total_partition_pages s) + 1) (memory s) n
      (c_int (total_partition_pages s + 1)) 0 0 0 (empty_pages s) =
      Inr (snd h - n, hole_addr s h, last_or 0 (map (hole_addr s) H1))"
  shows "allocate_empty_pages n s = Inr (hole_taken s n H1 h H2, hole_addr s h)"
proof -
  let ?m = "memory s" and ?p = "hole_addr s h + word_of_int (c_int (n * BYTES_PER_PAGE))"
  note b = hole_bounds [OF lay H]
  have hb: "0 \<le> fst h" "fst h < total_partition_pages s" "hole_addr s h \<noteq> 0" "fst h + snd h \<le> total_partition_pages s"
    using b [of h] holes_okD(3) [OF H, of h] by simp_all
  have next': "hole_next ?m (hole_addr s h) = hd_or (map (hole_addr s) H2) 0" using holes_okD(8) [OF H] by simp
  have r: "(if snd h - n = 0 then (?m, hole_next ?m (hole_addr s h))
      else (set_hole_next (set_hole_count ?m ?p (snd h - n)) ?p
              (hole_next (set_hole_count ?m ?p (snd h - n)) (hole_addr s h)), ?p)) =
    (memory_split s n h H2, after_hole s n h H2)"
  proof (cases "snd h = n")
    case True
    then show ?thesis using next' by (simp add: memory_split_def after_hole_def rest_of_hole_def)
  next
    case False
    have "n < 2 ^ 19" using n hb lay by (simp add: layout_ok_def)
    then have "c_int (n * BYTES_PER_PAGE) = n * BYTES_PER_PAGE" using n(1) by (intro c_int_id) (simp_all add: config_defs)
    then have p: "?p = PAGE_INDEX_TO_PTR s (fst h + n)"
      using n hb page_ptr_add [OF lay, of "fst h" n] by simp
    have "PAGE_INDEX_TO_PTR s (fst h + n) \<noteq> hole_addr s h + 8"
      using page_ptr_neq_plus_8(1) [OF lay, of "fst h + n" "fst h"] split_page_new(3) [OF lay H n False] hb n by simp
    then show ?thesis
      using False next' unfolding p
      by (simp add: memory_split_def after_hole_def rest_of_hole_def hole_next_def set_hole_count_def)
  qed
  have lz: "last_or 0 (map (hole_addr s) H1) = 0 \<longleftrightarrow> H1 = []"
    using b(5) by (cases H1 rule: rev_cases) auto
  have ll: "last_or 0 (map (hole_addr s) H1) = hole_addr s (last H1)" if "H1 \<noteq> []"
    using that by (simp add: last_or_def last_map)
  show ?thesis
    unfolding allocate_empty_pages_def search rbind_simps prod.case if_P [OF hb(3)] r Let_def
    using lz ll by (simp add: hole_taken_def)
qed

lemma hole_taken_frame:
  assumes lay: "layout_ok s" and H: "holes_ok s T (H1 @ h # H2)" and n: "1 \<le> n" "n \<le> snd h"
    and a: "a \<notin> hole_cells s (empty_page_set s - T)"
  shows "memory (hole_taken s n H1 h H2) a = memory s a"
proof -
  note d = holes_okD [OF H]
  have e: "fst k \<in> empty_page_set s - T" if "k \<in> set (H1 @ rest_of_hole n h @ H2)" for k
  proof -
    have "1 \<le> snd k" using holes_split(1) [OF lay H n] that by blast
    then have "fst k \<in> hole_pages k" by (simp add: hole_pages_def)
    then have "fst k \<in> (\<Union>k\<in>set (H1 @ h # H2). hole_pages k)"
      using that holes_split(3) [OF lay H n] by blast
    then show ?thesis using d(5,6) by blast
  qed
  have "a \<notin> hole_cells s {fst h + n}" if "snd h \<noteq> n"
    using a e [of "(fst h + n, snd h - n)"] that by (auto simp: hole_cells_def rest_of_hole_def)
  then have m1: "memory_split s n h H2 a = memory s a" by (rule memory_split_frame)
  show ?thesis
  proof (cases "H1 = []")
    case False
    then have "fst (last H1) \<in> empty_page_set s - T" by (intro e) simp
    then show ?thesis using a m1 by (auto simp: hole_taken_def hole_cells_def set_hole_next_def)
  qed (simp add: hole_taken_def m1)
qed

lemma hole_taken_ok:
  assumes lay: "layout_ok s" and H: "holes_ok s T (H1 @ h # H2)" and n: "1 \<le> n" "n \<le> snd h"
  shows "holes_ok (hole_taken s n H1 h H2) (T \<union> hole_pages (fst h, n)) (H1 @ rest_of_hole n h @ H2)"
  unfolding holes_ok_def
proof (intro conjI)
  let ?R = "rest_of_hole n h" and ?s' = "hole_taken s n H1 h H2"
  note d = holes_okD [OF H] and split = holes_split [OF assms]
  have f: "first_partition_ptr ?s' = first_partition_ptr s" by (simp add: hole_taken_def)
  show "\<forall>k\<in>set (H1 @ ?R @ H2). 0 \<le> fst k \<and> 1 \<le> snd k \<and> fst k + snd k \<le> total_partition_pages ?s'"
    using split(1) by (simp add: hole_taken_def)
  show "holes_disjoint (H1 @ ?R @ H2)" by (rule split(2))
  show "(\<Union>k\<in>set (H1 @ ?R @ H2). hole_pages k) \<inter> (T \<union> hole_pages (fst h, n)) = {}"
    unfolding split(3) using d(5) by blast
  have "empty_page_set ?s' = empty_page_set s" by (simp add: empty_page_set_def hole_taken_def)
  then show "empty_page_set ?s' = (\<Union>k\<in>set (H1 @ ?R @ H2). hole_pages k) \<union> (T \<union> hole_pages (fst h, n))"
    unfolding split(3) d(6) using split(4) by auto
  show "empty_pages ?s' = hd_or (map (hole_addr ?s') (H1 @ ?R @ H2)) 0"
    unfolding page_macros_eq(1) [OF f] using d(7) by (cases H1) (simp_all add: hole_taken_def after_hole_def)
  show "hole_seg ?s' (memory ?s') (H1 @ ?R @ H2) 0"
    unfolding hole_seg_eq [OF f] by (rule hole_taken_seg [OF assms])
qed

lemma take_from_hole:
  assumes "layout_ok s" and "holes_ok s T (H1 @ h # H2)" and "1 \<le> n" "n \<le> snd h"
    and "best_fit_loop (nat (total_partition_pages s) + 1) (memory s) n
      (c_int (total_partition_pages s + 1)) 0 0 0 (empty_pages s) =
      Inr (snd h - n, hole_addr s h, last_or 0 (map (hole_addr s) H1))"
  obtains s' where "allocate_empty_pages n s = Inr (s', hole_addr s h)"
    and "holes_ok s' (T \<union> hole_pages (fst h, n)) (H1 @ rest_of_hole n h @ H2)"
    and "s' = s\<lparr>memory := memory s', empty_pages := empty_pages s'\<rparr>"
    and "\<And>a. a \<notin> hole_cells s (empty_page_set s - T) \<Longrightarrow> memory s' a = memory s a"
  using hole_taken_result [OF assms] hole_taken_ok [OF assms(1-4)] hole_taken_more
    hole_taken_frame [OF assms(1-4)] by (rule that)

lemma allocate_empty_pages_cases:
  assumes lay: "layout_ok s" and H: "holes_ok s T H" and n: "1 \<le> n"
  obtains (none) "allocate_empty_pages n s = Inr (s, 0)" "\<forall>h\<in>set H. snd h < n"
    | (some) h H1 H2 s' where "H = H1 @ h # H2" "fits_best n h H"
      "allocate_empty_pages n s = Inr (s', hole_addr s h)" "hole_addr s h \<noteq> 0"
      "holes_ok s' (T \<union> hole_pages (fst h, n)) (H1 @ rest_of_hole n h @ H2)"
      "s' = s\<lparr>memory := memory s', empty_pages := empty_pages s'\<rparr>"
      "\<forall>a. a \<notin> hole_cells s (empty_page_set s - T) \<longrightarrow> memory s' a = memory s a"
proof -
  obtain new where new: "best_fit_loop (nat (total_partition_pages s) + 1) (memory s) n
      (c_int (total_partition_pages s + 1)) 0 0 0 (empty_pages s) = Inr new"
    "best_fit_result s n H (total_partition_pages s + 1, 0, 0) 0 new"
    using search_spec [OF lay H n] by blast
  from new(2) show thesis
  proof (cases rule: best_fit_resultE)
    case old
    have "snd h < n" if h: "h \<in> set H" for h
    proof (rule ccontr)
      assume "\<not> snd h < n"
      then have "total_partition_pages s + 1 \<le> snd h - n" using old(2) h by simp
      then show False using holes_okD(1,3) [OF H h] n by linarith
    qed
    then show thesis using none new(1) by (simp add: old(1) allocate_empty_pages_def)
  next
    case (found Q1 h Q2)
    have "hole_addr s h \<noteq> 0" using hole_bounds(5) [OF lay H, of h] found(1) by simp
    moreover have "fits_best n h H" using found by (simp add: fits_best_def)
    ultimately show thesis
      using take_from_hole [OF lay H [unfolded found(1)] n found(2) new(1) [unfolded found(4)]]
        some [OF found(1)] by metis
  qed
qed

end
