(* ===== verification/Coalesce.thy ===== *)
theory Coalesce
  imports Empty_Pages
begin

text \<open>
  Giving pages back (rtcoalesce.c): after a collection, pages whose objects are all free are
  taken out of their group, runs of such pages become holes, and holes that touch are merged.
  The first part translates the code, RTroom's count and verify_heap included.
\<close>

subsection \<open>Free pages\<close>

text \<open>The walk over a page ends at the first object that is not green, or at the end of the page.\<close>

fun all_green_loop :: "nat \<Rightarrow> mem \<Rightarrow> int \<Rightarrow> addr \<Rightarrow> addr \<Rightarrow> rt_error + bool" where
  "all_green_loop 0 m sz next_object page_end = Inl Out_of_fuel"
| "all_green_loop (Suc fuel) m sz next_object page_end =
     (if next_object < page_end then
        (if GREENP m next_object then all_green_loop fuel m sz (next_object + word_of_int sz) page_end
         else Inr False)
      else Inr True)"

definition all_green_page :: "int \<Rightarrow> nat \<Rightarrow> rt_state \<Rightarrow> rt_error + bool" where
  "all_green_page page i s =
     (let page_base = PAGE_INDEX_TO_PTR s page
      in all_green_loop (nat BYTES_PER_PAGE + 1) (memory s) (gsize (groups s i)) page_base
           (page_base + word_of_int BYTES_PER_PAGE))"

text \<open>The loop that takes the objects of a page off the free list of their group.\<close>

fun remove_page_objects :: "nat \<Rightarrow> mem \<Rightarrow> group_info \<Rightarrow> addr \<Rightarrow> mem \<times> group_info" where
  "remove_page_objects 0 m g nxt = (m, g)"
| "remove_page_objects (Suc n) m g nxt =
     (let (m1, g1) = remove_object_from_free_list m g nxt
      in remove_page_objects n m1 g1 (nxt + word_of_int (gsize g1)))"

definition identify_single_free_page :: "int \<Rightarrow> nat \<Rightarrow> rt_state \<Rightarrow> rt_error + rt_state" where
  "identify_single_free_page page i s =
     rbind (all_green_page page i s) (\<lambda>green.
       if green then
         rbind (all_green_page page i s) (\<lambda>green2.
           if green2 then
             rbind (on_group i (\<lambda>m g. Inr (remove_page_objects (nat (BYTES_PER_PAGE div gsize g)) m g
                      (PAGE_INDEX_TO_PTR s page))) s)
               (\<lambda>s1. Inr (s1\<lparr>pages := (pages s1)(page := (pages s1 page)\<lparr>pgroup := FREE_PAGE\<rparr>)\<rparr>))
           else Inr s)
       else Inr s)"

definition free_pages :: "int \<Rightarrow> int \<Rightarrow> (int \<Rightarrow> page_info) \<Rightarrow> int \<Rightarrow> page_info" where
  "free_pages page num_pages pgs =
     fold (\<lambda>i pgs. pgs(page + i := \<lparr>pbase = 0, pgroup = FREE_PAGE\<rparr>)) [0..num_pages - 1] pgs"

definition identify_multiple_free_pages :: "int \<Rightarrow> nat \<Rightarrow> rt_state \<Rightarrow> rt_error + rt_state \<times> int" where
  "identify_multiple_free_pages page i s =
     (let gcptr = PAGE_INDEX_TO_PTR s page in
      if pbase (pages s page) = gcptr then
        (if GREENP (memory s) gcptr then
           (if GREENP (memory s) gcptr then
              (let num_pages = gsize (groups s i) div BYTES_PER_PAGE in
               rbind (on_group i (\<lambda>m g. Inr (remove_object_from_free_list m g gcptr)) s)
                 (\<lambda>s1. Inr (s1\<lparr>pages := free_pages page num_pages (pages s1)\<rparr>, page)))
            else Inr (s, page))
         else Inr (s, page))
      else
        rbind (rassert (pbase (pages s page) < gcptr)) (\<lambda>_.
          Inr (s, c_int (PTR_TO_PAGE_INDEX s (pbase (pages s page))))))"

fun identify_loop :: "nat \<Rightarrow> int \<Rightarrow> rt_state \<Rightarrow> rt_error + rt_state" where
  "identify_loop 0 page s = Inl Out_of_fuel"
| "identify_loop (Suc fuel) page s =
     (if page < total_partition_pages s then
        (case pgroup (pages s page) of
           Group i \<Rightarrow>
             (if gsize (groups s i) \<le> BYTES_PER_PAGE then
                rbind (identify_single_free_page page i s) (identify_loop fuel (page + 1))
              else
                rbind (identify_multiple_free_pages page i s) (\<lambda>(s1, page1).
                  identify_loop fuel (page1 + gsize (groups s1 i) div BYTES_PER_PAGE) s1))
         | _ \<Rightarrow> identify_loop fuel (page + 1) s)
      else Inr s)"

definition identify_free_pages :: "rt_state \<Rightarrow> rt_error + rt_state" where
  "identify_free_pages s = identify_loop (nat (total_partition_pages s) + 1) 0 s"

subsection \<open>New holes\<close>

text \<open>The state of the loop is the state, the first page of the run or \<open>-1\<close>, and its length.\<close>

definition coalesce_page :: "int \<Rightarrow> rt_state \<times> int \<times> int \<Rightarrow> rt_error + rt_state \<times> int \<times> int" where
  "coalesce_page next_page = (\<lambda>(s, hole, page_count).
     if pgroup (pages s next_page) = FREE_PAGE then
       (if hole = - 1 then Inr (s, next_page, 1) else Inr (s, hole, page_count + 1))
     else
       (if hole \<noteq> - 1 then
          rbind (RTinit_empty_pages (c_int hole) (c_int page_count) HEAP_SEGMENT s) (\<lambda>s1. Inr (s1, - 1, 0))
        else Inr (s, hole, page_count)))"

definition coalesce_free_pages :: "rt_state \<Rightarrow> rt_error + rt_state" where
  "coalesce_free_pages s =
     rbind (rfold coalesce_page [0..total_partition_pages s - 1] (s, - 1, 0))
       (\<lambda>(s1, hole, page_count).
          if hole \<noteq> - 1 then RTinit_empty_pages (c_int hole) (c_int page_count) HEAP_SEGMENT s1 else Inr s1)"

subsection \<open>Merging holes\<close>

fun merge_hole :: "nat \<Rightarrow> int \<Rightarrow> addr \<Rightarrow> int \<Rightarrow> rt_state \<Rightarrow> rt_error + rt_state \<times> int" where
  "merge_hole 0 start_page nxt merge_count s = Inl Out_of_fuel"
| "merge_hole (Suc fuel) start_page nxt merge_count s =
     (let end_page = c_int (start_page + hole_page_count (memory s) nxt) in
      if end_page < total_partition_pages s \<and> pgroup (pages s end_page) = EMPTY_PAGE then
        (let adjacent = PAGE_INDEX_TO_PTR s end_page;
             m1 = set_hole_count (memory s) nxt
                    (hole_page_count (memory s) nxt + hole_page_count (memory s) adjacent);
             m2 = set_hole_count m1 adjacent 0
         in merge_hole fuel start_page nxt (merge_count + 1) (s\<lparr>memory := m2\<rparr>))
      else Inr (s, merge_count))"

fun merge_loop :: "nat \<Rightarrow> addr \<Rightarrow> int \<Rightarrow> rt_state \<Rightarrow> rt_error + rt_state \<times> int" where
  "merge_loop 0 nxt merge_count s = Inl Out_of_fuel"
| "merge_loop (Suc fuel) nxt merge_count s =
     (if nxt \<noteq> 0 then
        rbind
          (if 0 < hole_page_count (memory s) nxt then
             merge_hole (nat (total_partition_pages s) + 1) (c_int (PTR_TO_PAGE_INDEX s nxt)) nxt merge_count s
           else Inr (s, merge_count))
          (\<lambda>(s1, merge_count1). merge_loop fuel (hole_next (memory s1) nxt) merge_count1 s1)
      else Inr (s, merge_count))"

fun delete_loop :: "nat \<Rightarrow> int \<Rightarrow> addr \<Rightarrow> addr \<Rightarrow> rt_state \<Rightarrow> rt_error + rt_state" where
  "delete_loop 0 delete_count prev nxt s = Inl Out_of_fuel"
| "delete_loop (Suc fuel) delete_count prev nxt s =
     (if 0 < delete_count \<and> nxt \<noteq> 0 then
        (if hole_page_count (memory s) nxt = 0 then
           (if prev = 0 then
              (let s1 = s\<lparr>empty_pages := hole_next (memory s) nxt\<rparr>
               in delete_loop fuel (delete_count - 1) prev (empty_pages s1) s1)
            else
              (let nxt' = hole_next (memory s) nxt
               in delete_loop fuel (delete_count - 1) prev nxt' (s\<lparr>memory := set_hole_next (memory s) prev nxt'\<rparr>)))
         else delete_loop fuel delete_count nxt (hole_next (memory s) nxt) s)
      else rbind (rassert (delete_count = 0)) (\<lambda>_. Inr s))"

definition delete_merged_holes :: "int \<Rightarrow> rt_state \<Rightarrow> rt_error + rt_state" where
  "delete_merged_holes delete_count s =
     delete_loop (nat (total_partition_pages s) + 1) delete_count 0 (empty_pages s) s"

definition merge_adjacent_holes :: "rt_state \<Rightarrow> rt_error + rt_state" where
  "merge_adjacent_holes s =
     rbind (merge_loop (nat (total_partition_pages s) + 1) (empty_pages s) 0 s)
       (\<lambda>(s1, merge_count). delete_merged_holes merge_count s1)"

definition coalesce_all_free_pages :: "rt_state \<Rightarrow> rt_error + rt_state" where
  "coalesce_all_free_pages s =
     rbind (identify_free_pages s) (\<lambda>s1. rbind (coalesce_free_pages s1) merge_adjacent_holes)"

subsection \<open>Checks and counts\<close>

text \<open>verify_heap looks at the raw links of every multi-page object.\<close>

fun verify_loop :: "nat \<Rightarrow> int \<Rightarrow> rt_state \<Rightarrow> rt_error + unit" where
  "verify_loop 0 page s = Inl Out_of_fuel"
| "verify_loop (Suc fuel) page s =
     (if page < total_partition_pages s then
        (case pgroup (pages s page) of
           Group i \<Rightarrow>
             (if gsize (groups s i) \<le> BYTES_PER_PAGE then verify_loop fuel (page + 1) s
              else
                (let gcptr = PAGE_INDEX_TO_PTR s page;
                     prev = memory s gcptr; nxt = memory s (gcptr + 8)
                 in rbind (rassert (16 < prev \<longrightarrow> first_partition_ptr s \<le> prev)) (\<lambda>_.
                    rbind (rassert (16 < nxt \<longrightarrow> first_partition_ptr s \<le> nxt)) (\<lambda>_.
                      verify_loop fuel (page + gsize (groups s i) div BYTES_PER_PAGE) s))))
         | _ \<Rightarrow> verify_loop fuel (page + 1) s)
      else Inr ())"

definition verify_heap :: "rt_state \<Rightarrow> rt_error + unit" where
  "verify_heap s = verify_loop (nat (total_partition_pages s) + 1) 0 s"

record room =
  green_count :: "nat \<Rightarrow> int"
  alloc_count :: "nat \<Rightarrow> int"
  hole_counts :: "int \<Rightarrow> int"

fun count_page_objects :: "nat \<Rightarrow> mem \<Rightarrow> int \<Rightarrow> addr \<Rightarrow> int \<times> int \<Rightarrow> int \<times> int" where
  "count_page_objects 0 m sz nxt (green, alloc) = (green, alloc)"
| "count_page_objects (Suc n) m sz nxt (green, alloc) =
     count_page_objects n m sz (nxt + word_of_int sz)
       (if GREENP m nxt then (green + 1, alloc) else (green, alloc + 1))"

definition count_hole :: "int \<Rightarrow> room \<Rightarrow> room" where
  "count_hole hole_len r =
     (if 0 < hole_len then r\<lparr>hole_counts := (hole_counts r)(hole_len := hole_counts r hole_len + 1)\<rparr> else r)"

fun room_loop :: "nat \<Rightarrow> int \<Rightarrow> int \<Rightarrow> room \<Rightarrow> rt_state \<Rightarrow> rt_error + room" where
  "room_loop 0 page hole_len r s = Inl Out_of_fuel"
| "room_loop (Suc fuel) page hole_len r s =
     (if page < total_partition_pages s then
        (case pgroup (pages s page) of
           Group i \<Rightarrow>
             (let r1 = count_hole hole_len r; g = groups s i; nxt = PAGE_INDEX_TO_PTR s page in
              if gsize g \<le> BYTES_PER_PAGE then
                (let (green, alloc) =
                   count_page_objects (nat (BYTES_PER_PAGE div gsize g)) (memory s) (gsize g) nxt (0, 0);
                     r2 = r1\<lparr>green_count := (green_count r1)(gindex g := green_count r1 (gindex g) + green),
                             alloc_count := (alloc_count r1)(gindex g := alloc_count r1 (gindex g) + alloc)\<rparr>
                 in room_loop fuel (page + 1) 0 r2 s)
              else
                (let r2 =
                   (if GREENP (memory s) nxt
                    then r1\<lparr>green_count := (green_count r1)(gindex g := green_count r1 (gindex g) + 1)\<rparr>
                    else r1\<lparr>alloc_count := (alloc_count r1)(gindex g := alloc_count r1 (gindex g) + 1)\<rparr>)
                 in room_loop fuel (page + gsize g div BYTES_PER_PAGE) 0 r2 s))
         | EMPTY_PAGE \<Rightarrow> room_loop fuel (page + 1) (hole_len + 1) r s
         | _ \<Rightarrow> Inl (Debugger ''Should have found an EMPTY_PAGE!''))
      else Inr (count_hole hole_len r))"

definition RTroom :: "rt_state \<Rightarrow> rt_error + room" where
  "RTroom s =
     room_loop (nat (total_partition_pages s) + 1) 0 0
       \<lparr>green_count = (\<lambda>_. 0), alloc_count = (\<lambda>_. 0), hole_counts = (\<lambda>_. 0)\<rparr> s"

end
