(* ===== verification/Page_Table.thy ===== *)
theory Page_Table
  imports Empty_Pages
begin

text \<open>
  The page table determines which addresses are objects: on a page of a small group every
  multiple of the size, on the pages of a large object its first page. A page table is well
  formed when the pages of a large object agree; then the conservative lookup of an address
  finds the object whose block holds the address, and the geometry the collector relies on
  holds for the objects of the page table.
\<close>

definition page_table_ok :: "rt_state \<Rightarrow> bool" where
  "page_table_ok s \<longleftrightarrow>
     (\<forall>k\<in>set [0..total_partition_pages s - 1].
        case pgroup (pages s k) of
          Group i \<Rightarrow>
            i \<in> group_indices \<and>
            (PAGE_POWER \<le> i \<longrightarrow>
              (let b = PTR_TO_PAGE_INDEX s (pbase (pages s k)); n = 2 ^ (i - PAGE_POWER)
               in 0 \<le> b \<and> b \<le> k \<and> k < b + n \<and> b + n \<le> total_partition_pages s \<and>
                  pbase (pages s k) = PAGE_INDEX_TO_PTR s b \<and>
                  (\<forall>q\<in>set [b..b + n - 1]. pages s q = pages s k)))
        | _ \<Rightarrow> True)"

definition page_objects :: "rt_state \<Rightarrow> nat \<Rightarrow> addr set" where
  "page_objects s i =
     {x. IN_PARTITION s x \<and> PTR_TO_GROUP s x = Group i \<and>
         (if i < PAGE_POWER then uint x mod 2 ^ i = 0
          else x = pbase (pages s (PTR_TO_PAGE_INDEX s x)))}"

lemma page_table_okD:
  assumes "page_table_ok s" and "0 \<le> k" and "k < total_partition_pages s"
    and "pgroup (pages s k) = Group i"
  shows "i \<in> group_indices"
    and "PAGE_POWER \<le> i \<Longrightarrow> \<exists>b. 0 \<le> b \<and> b \<le> k \<and> k < b + 2 ^ (i - PAGE_POWER) \<and>
      b + 2 ^ (i - PAGE_POWER) \<le> total_partition_pages s \<and> pbase (pages s k) = PAGE_INDEX_TO_PTR s b \<and>
      (\<forall>q. b \<le> q \<and> q < b + 2 ^ (i - PAGE_POWER) \<longrightarrow> pages s q = pages s k)"
proof -
  have "k \<in> set [0..total_partition_pages s - 1]" using assms(2,3) by simp
  then have *: "i \<in> group_indices \<and> (PAGE_POWER \<le> i \<longrightarrow>
      (let b = PTR_TO_PAGE_INDEX s (pbase (pages s k)); n = 2 ^ (i - PAGE_POWER)
       in 0 \<le> b \<and> b \<le> k \<and> k < b + n \<and> b + n \<le> total_partition_pages s \<and>
          pbase (pages s k) = PAGE_INDEX_TO_PTR s b \<and>
          (\<forall>q\<in>set [b..b + n - 1]. pages s q = pages s k)))"
    using bspec [OF assms(1) [unfolded page_table_ok_def] \<open>k \<in> set _\<close>]
    unfolding assms(4) gptr.case by blast
  then show "i \<in> group_indices" by simp
  assume li: "PAGE_POWER \<le> i"
  let ?b = "PTR_TO_PAGE_INDEX s (pbase (pages s k))" and ?n = "2 ^ (i - PAGE_POWER) :: int"
  have "q \<in> set [?b..?b + ?n - 1]" if "?b \<le> q \<and> q < ?b + ?n" for q using that by simp
  with * li show "\<exists>b. 0 \<le> b \<and> b \<le> k \<and> k < b + 2 ^ (i - PAGE_POWER) \<and>
      b + 2 ^ (i - PAGE_POWER) \<le> total_partition_pages s \<and> pbase (pages s k) = PAGE_INDEX_TO_PTR s b \<and>
      (\<forall>q. b \<le> q \<and> q < b + 2 ^ (i - PAGE_POWER) \<longrightarrow> pages s q = pages s k)"
    unfolding Let_def by blast
qed

lemma page_table_okI:
  assumes lay: "layout_ok s"
    and "\<And>k i. 0 \<le> k \<Longrightarrow> k < total_partition_pages s \<Longrightarrow> pgroup (pages s k) = Group i \<Longrightarrow> i \<in> group_indices"
    and "\<And>k i. 0 \<le> k \<Longrightarrow> k < total_partition_pages s \<Longrightarrow> pgroup (pages s k) = Group i \<Longrightarrow> PAGE_POWER \<le> i \<Longrightarrow>
      \<exists>b. 0 \<le> b \<and> b \<le> k \<and> k < b + 2 ^ (i - PAGE_POWER) \<and>
        b + 2 ^ (i - PAGE_POWER) \<le> total_partition_pages s \<and> pbase (pages s k) = PAGE_INDEX_TO_PTR s b \<and>
        (\<forall>q. b \<le> q \<and> q < b + 2 ^ (i - PAGE_POWER) \<longrightarrow> pages s q = pages s k)"
  shows "page_table_ok s"
  unfolding page_table_ok_def
proof
  fix k assume "k \<in> set [0..total_partition_pages s - 1]"
  then have k: "0 \<le> k" "k < total_partition_pages s" by simp_all
  show "case pgroup (pages s k) of
          Group i \<Rightarrow>
            i \<in> group_indices \<and>
            (PAGE_POWER \<le> i \<longrightarrow>
              (let b = PTR_TO_PAGE_INDEX s (pbase (pages s k)); n = 2 ^ (i - PAGE_POWER)
               in 0 \<le> b \<and> b \<le> k \<and> k < b + n \<and> b + n \<le> total_partition_pages s \<and>
                  pbase (pages s k) = PAGE_INDEX_TO_PTR s b \<and>
                  (\<forall>q\<in>set [b..b + n - 1]. pages s q = pages s k)))
        | _ \<Rightarrow> True"
  proof (cases "pgroup (pages s k)")
    case (Group i)
    have "let b = PTR_TO_PAGE_INDEX s (pbase (pages s k)); n = 2 ^ (i - PAGE_POWER)
       in 0 \<le> b \<and> b \<le> k \<and> k < b + n \<and> b + n \<le> total_partition_pages s \<and>
          pbase (pages s k) = PAGE_INDEX_TO_PTR s b \<and>
          (\<forall>q\<in>set [b..b + n - 1]. pages s q = pages s k)" if li: "PAGE_POWER \<le> i"
    proof -
      obtain b where b: "0 \<le> b" "b \<le> k" "k < b + 2 ^ (i - PAGE_POWER)"
        "b + 2 ^ (i - PAGE_POWER) \<le> total_partition_pages s" "pbase (pages s k) = PAGE_INDEX_TO_PTR s b"
        "\<forall>q. b \<le> q \<and> q < b + 2 ^ (i - PAGE_POWER) \<longrightarrow> pages s q = pages s k"
        using assms(3) [OF k Group li] by blast
      have e: "PTR_TO_PAGE_INDEX s (PAGE_INDEX_TO_PTR s b) = b"
        using b(1,2) k by (intro page_index_roundtrip [OF lay]) simp_all
      have "\<forall>q\<in>set [b..b + 2 ^ (i - PAGE_POWER) - 1]. pages s q = pages s k"
        using b(6) by simp
      then show ?thesis unfolding Let_def b(5) e using b(1-4) by blast
    qed
    then show ?thesis unfolding Group gptr.case using assms(2) [OF k Group] by blast
  qed simp_all
qed

lemma page_size_power:
  "i \<in> group_indices \<Longrightarrow> PAGE_POWER \<le> i \<Longrightarrow> (2 :: int) ^ i = 2 ^ (i - PAGE_POWER) * BYTES_PER_PAGE"
  unfolding BYTES_PER_PAGE_def by (simp flip: power_add)

lemma small_size:
  assumes "i < PAGE_POWER"
  shows "BYTES_PER_PAGE mod 2 ^ i = (0 :: int)" and "\<not> BYTES_PER_PAGE \<le> (2 :: int) ^ i"
proof -
  have "(2 :: int) ^ i dvd 2 ^ PAGE_POWER" using assms by (intro le_imp_power_dvd) simp
  then show "BYTES_PER_PAGE mod 2 ^ i = (0 :: int)" by (simp add: BYTES_PER_PAGE_def)
  have "(2 :: int) ^ i < 2 ^ PAGE_POWER" using assms by (intro power_strict_increasing) simp_all
  then show "\<not> BYTES_PER_PAGE \<le> (2 :: int) ^ i" by (simp add: BYTES_PER_PAGE_def)
qed

lemma large_size: "PAGE_POWER \<le> i \<Longrightarrow> BYTES_PER_PAGE \<le> (2 :: int) ^ i"
  unfolding BYTES_PER_PAGE_def by (intro power_increasing) simp_all

lemma uint_mask_low: "uint ((p :: addr) AND push_bit n (- 1)) = uint p - uint p mod 2 ^ n"
proof -
  have "p AND push_bit n (- 1) = push_bit n (drop_bit n p)"
    by (rule bit_word_eqI) (auto simp: bit_simps)
  also have "uint \<dots> = take_bit 64 (push_bit n (drop_bit n (uint p)))"
  proof -
    have "take_bit 64 (uint p) = uint p" by (rule take_bit_int_eq_self) (use uint_bounded [of p] in simp_all)
    then show ?thesis by (simp add: unsigned_push_bit_eq unsigned_drop_bit_eq)
  qed
  also have "push_bit n (drop_bit n (uint p)) = uint p - uint p mod 2 ^ n"
    by (simp add: push_bit_eq_mult drop_bit_eq_div minus_mod_eq_div_mult)
  also have "take_bit 64 (uint p - uint p mod 2 ^ n) = uint p - uint p mod 2 ^ n"
  proof (rule take_bit_int_eq_self)
    show "0 \<le> uint p - uint p mod 2 ^ n" by (simp add: zmod_le_nonneg_dividend)
    have "0 \<le> uint p mod 2 ^ n" by simp
    moreover have "uint p < 2 ^ 64" using uint_bounded [of p] by simp
    ultimately show "uint p - uint p mod 2 ^ n < 2 ^ 64" by linarith
  qed
  finally show ?thesis .
qed

text \<open>The page an address lies on.\<close>

lemma page_of_interval:
  assumes "layout_ok s" and "0 \<le> k" and "k < total_partition_pages s"
    and "uint (first_partition_ptr s) + k * BYTES_PER_PAGE \<le> uint a"
    and "uint a < uint (first_partition_ptr s) + (k + 1) * BYTES_PER_PAGE"
  shows "IN_PARTITION s a" and "PTR_TO_PAGE_INDEX s a = k"
proof -
  have "(k + 1) * BYTES_PER_PAGE \<le> total_partition_pages s * BYTES_PER_PAGE"
    using assms(3) by (intro mult_right_mono) (simp_all add: config_defs)
  moreover have "0 \<le> k * BYTES_PER_PAGE" using assms(2) by (simp add: config_defs)
  ultimately show i: "IN_PARTITION s a"
    using assms(1,4,5) unfolding IN_PARTITION_uint layout_ok_def by linarith
  have "(uint a - uint (first_partition_ptr s)) div BYTES_PER_PAGE = k"
    using assms(4,5) by (simp add: config_defs)
  then show "PTR_TO_PAGE_INDEX s a = k" by (simp add: PTR_TO_PAGE_INDEX_uint [OF assms(1) i])
qed

lemma page_interval:
  assumes "layout_ok s" and "IN_PARTITION s a"
  defines "k \<equiv> PTR_TO_PAGE_INDEX s a"
  shows "uint (first_partition_ptr s) + k * BYTES_PER_PAGE \<le> uint a"
    and "uint a < uint (first_partition_ptr s) + (k + 1) * BYTES_PER_PAGE"
  using assms(2) div_mult_mod_eq [of "uint a - uint (first_partition_ptr s)" "2 ^ 12"]
    pos_mod_bound [of "2 ^ 12" "uint a - uint (first_partition_ptr s)"]
    pos_mod_sign [of "2 ^ 12" "uint a - uint (first_partition_ptr s)"]
  unfolding k_def PTR_TO_PAGE_INDEX_uint [OF assms(1,2)] IN_PARTITION_uint config_defs
  by (simp_all add: algebra_simps)

lemma interior_small:
  assumes "groups_ok s" and "i \<in> group_indices" and "i < PAGE_POWER"
  shows "uint (interior_to_gcptr_3 a page (groups s i)) = uint a - uint a mod 2 ^ i"
  using assms small_size(2) [OF assms(3)] uint_mask_low [of a i]
  by (simp add: interior_to_gcptr_3_def groups_ok_def)

lemma interior_large:
  assumes "groups_ok s" and "i \<in> group_indices" and "PAGE_POWER \<le> i"
  shows "interior_to_gcptr_3 a page (groups s i) = pbase page"
  using assms large_size [OF assms(3)] by (simp add: interior_to_gcptr_3_def groups_ok_def)

text \<open>Blocks: every address of the block of an object leads to that object.\<close>

definition leads_to :: "rt_state \<Rightarrow> addr \<Rightarrow> nat \<Rightarrow> addr \<Rightarrow> bool" where
  "leads_to s a i x \<longleftrightarrow> IN_PARTITION s a \<and> PTR_TO_GROUP s a = Group i \<and>
     interior_to_gcptr_3 a (pages s (PTR_TO_PAGE_INDEX s a)) (groups s i) = x"

lemma object_block_small:
  assumes lay: "layout_ok s" and go: "groups_ok s" and i: "i \<in> group_indices" "i < PAGE_POWER"
    and x: "x \<in> page_objects s i"
  shows "uint x + 2 ^ i \<le> uint (last_partition_ptr s)"
    and "uint x \<le> uint a \<Longrightarrow> uint a < uint x + 2 ^ i \<Longrightarrow> leads_to s a i x"
proof -
  define k where "k = PTR_TO_PAGE_INDEX s x"
  have ip: "IN_PARTITION s x" and g: "pgroup (pages s k) = Group i" and xm: "uint x mod 2 ^ i = 0"
    using x i by (simp_all add: page_objects_def PTR_TO_GROUP_def k_def)
  have kb: "0 \<le> k" "k < total_partition_pages s"
    unfolding k_def using PTR_TO_PAGE_INDEX_bounds [OF lay ip] by simp_all
  note iv = page_interval [OF lay ip, folded k_def]
  let ?f = "uint (first_partition_ptr s)"
  have f: "?f mod BYTES_PER_PAGE = 0" "uint (last_partition_ptr s) = ?f + total_partition_pages s * BYTES_PER_PAGE"
    using lay by (simp_all add: layout_ok_def)
  have "(?f + (k + 1) * BYTES_PER_PAGE) mod 2 ^ i = 0"
    using f(1) small_size(1) [OF i(2)] by (auto simp: mod_eq_0_iff_dvd intro: dvd_trans)
  then have "2 ^ i dvd (?f + (k + 1) * BYTES_PER_PAGE) - uint x"
    using xm by (simp add: mod_eq_0_iff_dvd)
  then have e: "uint x + 2 ^ i \<le> ?f + (k + 1) * BYTES_PER_PAGE"
    using zdvd_imp_le [of "2 ^ i" "(?f + (k + 1) * BYTES_PER_PAGE) - uint x"] iv(2) by simp
  have "(k + 1) * BYTES_PER_PAGE \<le> total_partition_pages s * BYTES_PER_PAGE"
    using kb(2) by (intro mult_right_mono) (simp_all add: config_defs)
  then show "uint x + 2 ^ i \<le> uint (last_partition_ptr s)" using e f(2) by linarith
  assume a: "uint x \<le> uint a" "uint a < uint x + 2 ^ i"
  have pa: "IN_PARTITION s a" "PTR_TO_PAGE_INDEX s a = k"
    using page_of_interval [OF lay kb] iv(1) e a by simp_all
  have "uint a mod 2 ^ i = (uint x + (uint a - uint x)) mod 2 ^ i" by simp
  also have "\<dots> = (uint a - uint x) mod 2 ^ i"
    using xm by (metis add_0 mod_add_left_eq)
  also have "\<dots> = uint a - uint x" using a by simp
  finally have "uint (interior_to_gcptr_3 a (pages s k) (groups s i)) = uint x"
    using interior_small [OF go i] by simp
  then have "interior_to_gcptr_3 a (pages s k) (groups s i) = x" by (simp only: word_uint_eq_iff)
  then show "leads_to s a i x" using pa g by (simp add: leads_to_def PTR_TO_GROUP_def)
qed

lemma object_block_large:
  assumes lay: "layout_ok s" and go: "groups_ok s" and pt: "page_table_ok s"
    and i: "i \<in> group_indices" "PAGE_POWER \<le> i" and x: "x \<in> page_objects s i"
  shows "uint x + 2 ^ i \<le> uint (last_partition_ptr s)"
    and "uint x \<le> uint a \<Longrightarrow> uint a < uint x + 2 ^ i \<Longrightarrow> leads_to s a i x"
proof -
  define k where "k = PTR_TO_PAGE_INDEX s x"
  have ip: "IN_PARTITION s x" and g: "pgroup (pages s k) = Group i"
    using x by (simp_all add: page_objects_def PTR_TO_GROUP_def k_def)
  have kb: "0 \<le> k" "k < total_partition_pages s"
    unfolding k_def using PTR_TO_PAGE_INDEX_bounds [OF lay ip] by simp_all
  let ?f = "uint (first_partition_ptr s)"
  have lst: "uint (last_partition_ptr s) = ?f + total_partition_pages s * BYTES_PER_PAGE"
    using lay by (simp add: layout_ok_def)
  obtain b where b: "0 \<le> b" "b \<le> k" "k < b + 2 ^ (i - PAGE_POWER)"
    "b + 2 ^ (i - PAGE_POWER) \<le> total_partition_pages s" "pbase (pages s k) = PAGE_INDEX_TO_PTR s b"
    "\<And>q. b \<le> q \<Longrightarrow> q < b + 2 ^ (i - PAGE_POWER) \<Longrightarrow> pages s q = pages s k"
    using page_table_okD(2) [OF pt kb g i(2)] by blast
  have xb: "x = PAGE_INDEX_TO_PTR s b" using x i(2) b(5) by (simp add: page_objects_def k_def)
  have ux: "uint x = ?f + b * BYTES_PER_PAGE"
    using uint_PAGE_INDEX_TO_PTR [OF lay b(1)] b(2) kb xb by simp
  have sz: "(2 :: int) ^ i = 2 ^ (i - PAGE_POWER) * BYTES_PER_PAGE" by (rule page_size_power [OF i])
  have "(b + 2 ^ (i - PAGE_POWER)) * BYTES_PER_PAGE \<le> total_partition_pages s * BYTES_PER_PAGE"
    using b(4) by (intro mult_right_mono) (simp_all add: config_defs)
  then show top: "uint x + 2 ^ i \<le> uint (last_partition_ptr s)"
    unfolding ux sz lst by (simp add: algebra_simps)
  assume a: "uint x \<le> uint a" "uint a < uint x + 2 ^ i"
  have ipa: "IN_PARTITION s a" using a top ip unfolding IN_PARTITION_uint by linarith
  define q where "q = PTR_TO_PAGE_INDEX s a"
  note ivq = page_interval [OF lay ipa, folded q_def]
  have "b * BYTES_PER_PAGE < (q + 1) * BYTES_PER_PAGE"
    using a(1) ivq(2) unfolding ux by linarith
  then have q1: "b \<le> q" by (simp add: config_defs)
  have "q * BYTES_PER_PAGE < (b + 2 ^ (i - PAGE_POWER)) * BYTES_PER_PAGE"
    using a(2) ivq(1) unfolding ux sz by (simp add: algebra_simps)
  then have "q < b + 2 ^ (i - PAGE_POWER)" by (simp add: config_defs)
  then have "pages s q = pages s k" using b(6) q1 by simp
  then show "leads_to s a i x"
    using ipa g b(5) xb interior_large [OF go i] by (simp add: leads_to_def PTR_TO_GROUP_def q_def)
qed

lemma object_block:
  assumes lay: "layout_ok s" and go: "groups_ok s" and pt: "page_table_ok s"
    and x: "x \<in> page_objects s i"
  shows "i \<in> group_indices" and "uint x + 2 ^ i \<le> uint (last_partition_ptr s)"
    and "uint x \<le> uint a \<Longrightarrow> uint a < uint x + 2 ^ i \<Longrightarrow>
      IN_PARTITION s a \<and> PTR_TO_GROUP s a = Group i \<and>
      interior_to_gcptr_3 a (pages s (PTR_TO_PAGE_INDEX s a)) (groups s i) = x"
proof -
  have ip: "IN_PARTITION s x" "pgroup (pages s (PTR_TO_PAGE_INDEX s x)) = Group i"
    using x by (simp_all add: page_objects_def PTR_TO_GROUP_def)
  then show i: "i \<in> group_indices"
    using page_table_okD(1) [OF pt] PTR_TO_PAGE_INDEX_bounds [OF lay] by blast
  show "uint x + 2 ^ i \<le> uint (last_partition_ptr s)"
    using object_block_small(1) [OF lay go i _ x] object_block_large(1) [OF lay go pt i _ x] by linarith
  assume "uint x \<le> uint a" "uint a < uint x + 2 ^ i"
  then have "leads_to s a i x"
    using object_block_small(2) [OF lay go i _ x] object_block_large(2) [OF lay go pt i _ x] by (meson not_less)
  then show "IN_PARTITION s a \<and> PTR_TO_GROUP s a = Group i \<and>
      interior_to_gcptr_3 a (pages s (PTR_TO_PAGE_INDEX s a)) (groups s i) = x"
    by (simp add: leads_to_def)
qed

lemma object_of_address:
  assumes lay: "layout_ok s" and go: "groups_ok s" and pt: "page_table_ok s"
    and p: "IN_PARTITION s p" and g: "PTR_TO_GROUP s p = Group i"
  defines "x \<equiv> interior_to_gcptr_3 p (pages s (PTR_TO_PAGE_INDEX s p)) (groups s i)"
  shows "i \<in> group_indices" and "x \<in> page_objects s i"
proof -
  define k where "k = PTR_TO_PAGE_INDEX s p"
  have gk: "pgroup (pages s k) = Group i" using g by (simp add: PTR_TO_GROUP_def k_def)
  have kb: "0 \<le> k" "k < total_partition_pages s"
    unfolding k_def using PTR_TO_PAGE_INDEX_bounds [OF lay p] by simp_all
  note iv = page_interval [OF lay p, folded k_def]
  let ?f = "uint (first_partition_ptr s)"
  show i: "i \<in> group_indices" by (rule page_table_okD(1) [OF pt kb gk])
  show "x \<in> page_objects s i"
  proof (cases "i < PAGE_POWER")
    case True
    have ux: "uint x = uint p - uint p mod 2 ^ i"
      unfolding x_def by (rule interior_small [OF go i True])
    have xm: "uint x mod 2 ^ i = 0" unfolding ux by (simp add: mod_eq_0_iff_dvd)
    have d: "2 ^ i dvd ?f + k * BYTES_PER_PAGE"
      using lay small_size(1) [OF True]
      by (auto simp: layout_ok_def mod_eq_0_iff_dvd intro!: dvd_add dvd_mult intro: dvd_trans)
    define r where "r = uint p - (?f + k * BYTES_PER_PAGE)"
    have r: "0 \<le> r" using iv(1) by (simp add: r_def)
    have "uint p mod 2 ^ i = r mod 2 ^ i"
    proof -
      have "uint p = r + (?f + k * BYTES_PER_PAGE)" by (simp add: r_def)
      then show ?thesis using d by (metis mod_add_right_eq add.right_neutral mod_eq_0_iff_dvd)
    qed
    moreover have "r mod 2 ^ i \<le> r" using r by (simp add: zmod_le_nonneg_dividend)
    ultimately have "?f + k * BYTES_PER_PAGE \<le> uint x" unfolding ux r_def by linarith
    moreover have "uint x \<le> uint p" unfolding ux by simp
    ultimately have "IN_PARTITION s x" "PTR_TO_PAGE_INDEX s x = k"
      using page_of_interval [OF lay kb] iv(2) by simp_all
    then show ?thesis using gk xm True by (simp add: page_objects_def PTR_TO_GROUP_def)
  next
    case False
    then have li: "PAGE_POWER \<le> i" by simp
    obtain b where b: "0 \<le> b" "b \<le> k" "k < b + 2 ^ (i - PAGE_POWER)"
      "pbase (pages s k) = PAGE_INDEX_TO_PTR s b"
      "\<And>q. b \<le> q \<Longrightarrow> q < b + 2 ^ (i - PAGE_POWER) \<Longrightarrow> pages s q = pages s k"
      using page_table_okD(2) [OF pt kb gk li] by blast
    have x: "x = PAGE_INDEX_TO_PTR s b"
      unfolding x_def interior_large [OF go i li] k_def [symmetric] by (rule b(4))
    have "IN_PARTITION s x" "PTR_TO_PAGE_INDEX s x = b"
      unfolding x using PAGE_INDEX_TO_PTR_IN_PARTITION [OF lay] page_index_roundtrip [OF lay] b(1,2) kb
      by simp_all
    moreover have "pages s b = pages s k" using b(5) [of b] by simp
    ultimately show ?thesis using False gk b(4) x by (simp add: page_objects_def PTR_TO_GROUP_def)
  qed
qed

text \<open>The objects of a well-formed page table have the geometry the collector needs.\<close>

lemma geometry_of_pages:
  assumes lay: "layout_ok s" and go: "groups_ok s" and pt: "page_table_ok s"
    and Ob: "\<And>i. i \<in> group_indices \<Longrightarrow> Ob i = page_objects s i"
  shows "geometry s Ob"
  unfolding geometry_def
proof (intro conjI ballI allI impI)
  fix i x assume i: "i \<in> group_indices" and "x \<in> Ob i"
  then have x: "x \<in> page_objects s i" using Ob by simp
  then show "IN_PARTITION s x" "PTR_TO_GROUP s x = Group i" by (simp_all add: page_objects_def)
  show "uint x + 2 ^ i \<le> uint (last_partition_ptr s)" by (rule object_block(2) [OF lay go pt x])
next
  fix p i assume "IN_PARTITION s p" "PTR_TO_GROUP s p = Group i"
  note o = object_of_address [OF lay go pt this]
  show "i \<in> group_indices" by (rule o(1))
  show "interior_to_gcptr_3 p (pages s (PTR_TO_PAGE_INDEX s p)) (groups s i) \<in> Ob i"
    using o Ob by simp
next
  fix i j x y assume ij: "i \<in> group_indices" "j \<in> group_indices" and "x \<in> Ob i" "y \<in> Ob j" and ne: "x \<noteq> y"
  then have xy: "x \<in> page_objects s i" "y \<in> page_objects s j" using Ob by simp_all
  show "uint x + 2 ^ i \<le> uint y \<or> uint y + 2 ^ j \<le> uint x"
  proof (rule ccontr)
    assume "\<not> ?thesis"
    then have o: "uint y < uint x + 2 ^ i" "uint x < uint y + 2 ^ j" by simp_all
    have pow: "0 < (2 :: int) ^ i" "0 < (2 :: int) ^ j" by simp_all
    define a where "a = (if uint x \<le> uint y then y else x)"
    have "uint x \<le> uint a" "uint a < uint x + 2 ^ i" "uint y \<le> uint a" "uint a < uint y + 2 ^ j"
      using o pow by (auto simp: a_def)
    then have "Group i = Group j" "i = j \<Longrightarrow> x = y"
      using object_block(3) [OF lay go pt xy(1), of a] object_block(3) [OF lay go pt xy(2), of a] by auto
    then show False using ne by simp
  qed
qed

end
