(* ===== verification/Coalesce_Refine.thy ===== *)
theory Coalesce_Refine
  imports Coalesce Page_Table
begin

text \<open>
  Correctness of the coalescing of pages. The invariant of the heap between collections joins
  the groups, the page table and the holes. Taking all objects of some pages off their group
  and marking the pages FREE keeps it; so does turning a run of FREE pages into a hole; and
  merging makes every hole end at a page that is not empty, without losing a page.
\<close>

subsection \<open>The invariant of the whole heap\<close>

definition heap_inv :: "int set \<Rightarrow> rt_state \<Rightarrow> (nat \<Rightarrow> agroup) \<Rightarrow> hole list \<Rightarrow> bool" where
  "heap_inv T s A H \<longleftrightarrow>
     layout_ok s \<and> colors_ok (marked_color s) (unmarked_color s) \<and> groups_ok s \<and> page_table_ok s \<and>
     (\<forall>i\<in>group_indices. object_set A i = page_objects s i \<and>
        idle_rep (marked_color s) (unmarked_color s) (memory s) (groups s i) (A i)) \<and>
     holes_ok s T H"

lemma heap_invD:
  assumes "heap_inv T s A H"
  shows "layout_ok s" "colors_ok (marked_color s) (unmarked_color s)" "groups_ok s" "page_table_ok s"
    "i \<in> group_indices \<Longrightarrow> object_set A i = page_objects s i"
    "i \<in> group_indices \<Longrightarrow> idle_rep (marked_color s) (unmarked_color s) (memory s) (groups s i) (A i)"
    "holes_ok s T H"
  using assms by (auto simp: heap_inv_def)

lemma heap_inv_rep: "heap_inv T s A H \<Longrightarrow> heap_rep (\<lambda>_. idle_rep) s A"
  unfolding heap_rep_def using geometry_of_pages [of s "object_set A"] by (simp add: heap_inv_def)

text \<open>Changes of memory at holes and changes at headers do not meet.\<close>

lemma object_not_hole:
  assumes I: "heap_inv T s A H" and i: "i \<in> group_indices" and x: "x \<in> object_set A i"
    and P: "\<And>p. p \<in> P \<Longrightarrow> 0 \<le> p \<and> p < total_partition_pages s \<and> (\<forall>j. pgroup (pages s p) \<noteq> Group j)"
  shows "x \<notin> hole_cells s P" and "x + 8 \<notin> hole_cells s P"
proof -
  note d = heap_invD [OF I]
  have xo: "IN_PARTITION s x" "pgroup (pages s (PTR_TO_PAGE_INDEX s x)) = Group i"
    using x d(5) [OF i] by (simp_all add: page_objects_def PTR_TO_GROUP_def)
  have al: "aligned x"
    using heap_rep_headers_ok(1) [OF heap_inv_rep [OF I] framed_idle_rep i] x by (auto dest: headers_okD)
  have "x \<noteq> PAGE_INDEX_TO_PTR s p \<and> x \<noteq> PAGE_INDEX_TO_PTR s p + 8 \<and> x + 8 \<noteq> PAGE_INDEX_TO_PTR s p"
    if p: "p \<in> P" for p
  proof -
    have ap: "aligned (PAGE_INDEX_TO_PTR s p)"
      using P [OF p] by (intro aligned_PAGE_INDEX_TO_PTR [OF d(1)]) simp_all
    have "PTR_TO_PAGE_INDEX s (PAGE_INDEX_TO_PTR s p) = p" using P [OF p] page_index_roundtrip [OF d(1)] by simp
    then have "x \<noteq> PAGE_INDEX_TO_PTR s p" using xo(2) P [OF p] by auto
    then show ?thesis using aligned_neq_plus_8 [OF al ap] aligned_neq_plus_8 [OF ap al] by simp
  qed
  then show "x \<notin> hole_cells s P" and "x + 8 \<notin> hole_cells s P" by (auto simp: hole_cells_def)
qed

text \<open>
  A change of memory at holes, with pages entering or leaving the EMPTY and FREE states and
  the list of holes changing, as far as the groups are concerned.
\<close>

lemma heap_inv_holes:
  assumes I: "heap_inv T s A H" and H': "holes_ok s' T' H'"
    and s': "s' = s\<lparr>memory := memory s', pages := pages s', empty_pages := empty_pages s'\<rparr>"
    and m: "\<And>a. a \<notin> hole_cells s P \<Longrightarrow> memory s' a = memory s a"
    and P: "\<And>p. p \<in> P \<Longrightarrow> 0 \<le> p \<and> p < total_partition_pages s \<and> (\<forall>j. pgroup (pages s p) \<noteq> Group j)"
    and pg: "\<And>p. p \<in> Q \<Longrightarrow> (\<forall>j. pgroup (pages s p) \<noteq> Group j) \<and> (\<forall>j. pgroup (pages s' p) \<noteq> Group j)"
      "\<And>p. p \<notin> Q \<Longrightarrow> pages s' p = pages s p"
  shows "heap_inv T' s' A H'"
proof -
  note d = heap_invD [OF I]
  have f: "first_partition_ptr s' = first_partition_ptr s" "last_partition_ptr s' = last_partition_ptr s"
    "total_partition_pages s' = total_partition_pages s" "groups s' = groups s"
    "marked_color s' = marked_color s" "unmarked_color s' = unmarked_color s"
    by (subst s', simp)+
  have mac: "IN_PARTITION s' = IN_PARTITION s" "PTR_TO_PAGE_INDEX s' = PTR_TO_PAGE_INDEX s"
    "PAGE_INDEX_TO_PTR s' = PAGE_INDEX_TO_PTR s"
    using page_macros_eq [OF f(1)] by (simp_all add: fun_eq_iff IN_PARTITION_def f)
  have gr: "pgroup (pages s' p) = Group i \<longleftrightarrow> pgroup (pages s p) = Group i" for p i
    using pg [of p] by (cases "p \<in> Q") auto
  have same: "pages s' p = pages s p" if "pgroup (pages s p) = Group i" for p i
    using that pg [of p] by (cases "p \<in> Q") auto
  have po: "page_objects s' i = page_objects s i" for i
    unfolding page_objects_def PTR_TO_GROUP_def mac gr using same by (auto split: if_splits)
  have "page_table_ok s'"
  proof (rule page_table_okI)
    fix k i assume k: "0 \<le> k" "k < total_partition_pages s'" "pgroup (pages s' k) = Group i"
    then have k': "0 \<le> k" "k < total_partition_pages s" "pgroup (pages s k) = Group i"
      by (simp_all add: f gr)
    show "i \<in> group_indices" by (rule page_table_okD(1) [OF d(4) k'])
    assume "PAGE_POWER \<le> i"
    from page_table_okD(2) [OF d(4) k' this] obtain b where
      b: "0 \<le> b" "b \<le> k" "k < b + 2 ^ (i - PAGE_POWER)" "b + 2 ^ (i - PAGE_POWER) \<le> total_partition_pages s"
        "pbase (pages s k) = PAGE_INDEX_TO_PTR s b"
        "\<forall>q. b \<le> q \<and> q < b + 2 ^ (i - PAGE_POWER) \<longrightarrow> pages s q = pages s k"
      by blast
    have "\<forall>q. b \<le> q \<and> q < b + 2 ^ (i - PAGE_POWER) \<longrightarrow> pages s' q = pages s' k"
      using b(6) same [OF k'(3)] same k'(3) by metis
    then show "\<exists>b. 0 \<le> b \<and> b \<le> k \<and> k < b + 2 ^ (i - PAGE_POWER) \<and>
        b + 2 ^ (i - PAGE_POWER) \<le> total_partition_pages s' \<and> pbase (pages s' k) = PAGE_INDEX_TO_PTR s' b \<and>
        (\<forall>q. b \<le> q \<and> q < b + 2 ^ (i - PAGE_POWER) \<longrightarrow> pages s' q = pages s' k)"
      using b(1-5) same [OF k'(3)] by (intro exI [of _ b]) (simp add: f mac)
  qed (use d(1) in \<open>simp add: layout_ok_def f\<close>)
  moreover have "idle_rep (marked_color s) (unmarked_color s) (memory s') (groups s i) (A i)"
    if i: "i \<in> group_indices" for i
  proof (rule idle_rep_cong [OF d(6) [OF i]])
    fix x assume "x \<in> set (objects (A i))"
    then have "x \<in> object_set A i" by (simp add: object_set_def)
    from object_not_hole [OF I i this P] show "memory s' x = memory s x \<and> memory s' (x + 8) = memory s (x + 8)"
      using m by simp
  qed
  moreover have "layout_ok s'" "groups_ok s'" using d(1,3) by (simp_all add: layout_ok_def groups_ok_def f)
  ultimately show ?thesis
    using d(2,5) H' unfolding heap_inv_def by (simp add: f po)
qed

subsection \<open>Taking pages away from a group\<close>

text \<open>The pages \<open>Q\<close> of group \<open>i\<close> have become FREE.\<close>

definition pages_released :: "int set \<Rightarrow> nat \<Rightarrow> rt_state \<Rightarrow> rt_state \<Rightarrow> bool" where
  "pages_released Q i s s' \<longleftrightarrow>
    (\<forall>q. if q \<in> Q then pgroup (pages s q) = Group i \<and> pgroup (pages s' q) = FREE_PAGE else pages s' q = pages s q) \<and>
    first_partition_ptr s' = first_partition_ptr s \<and> last_partition_ptr s' = last_partition_ptr s \<and>
    total_partition_pages s' = total_partition_pages s"

lemma pages_releasedD:
  assumes "pages_released Q i s s'"
  shows "q \<in> Q \<Longrightarrow> pgroup (pages s q) = Group i" "q \<notin> Q \<Longrightarrow> pages s' q = pages s q"
    and "first_partition_ptr s' = first_partition_ptr s" "last_partition_ptr s' = last_partition_ptr s"
    and "total_partition_pages s' = total_partition_pages s"
    and "pgroup (pages s' q) = Group j \<longleftrightarrow> q \<notin> Q \<and> pgroup (pages s q) = Group j"
    and "pgroup (pages s' q) = EMPTY_PAGE \<longleftrightarrow> pgroup (pages s q) = EMPTY_PAGE"
    and "IN_PARTITION s' = IN_PARTITION s" "PTR_TO_PAGE_INDEX s' = PTR_TO_PAGE_INDEX s"
    and "PAGE_INDEX_TO_PTR s' = PAGE_INDEX_TO_PTR s"
proof -
  have q: "if q \<in> Q then pgroup (pages s q) = Group i \<and> pgroup (pages s' q) = FREE_PAGE else pages s' q = pages s q"
    and f: "first_partition_ptr s' = first_partition_ptr s" "last_partition_ptr s' = last_partition_ptr s"
      "total_partition_pages s' = total_partition_pages s"
    using assms by (simp_all add: pages_released_def)
  show "q \<in> Q \<Longrightarrow> pgroup (pages s q) = Group i" "q \<notin> Q \<Longrightarrow> pages s' q = pages s q"
    "pgroup (pages s' q) = Group j \<longleftrightarrow> q \<notin> Q \<and> pgroup (pages s q) = Group j"
    "pgroup (pages s' q) = EMPTY_PAGE \<longleftrightarrow> pgroup (pages s q) = EMPTY_PAGE"
    using q by (simp_all split: if_splits)
  show "first_partition_ptr s' = first_partition_ptr s" "last_partition_ptr s' = last_partition_ptr s"
    "total_partition_pages s' = total_partition_pages s" by (rule f)+
  show "IN_PARTITION s' = IN_PARTITION s" "PTR_TO_PAGE_INDEX s' = PTR_TO_PAGE_INDEX s"
    "PAGE_INDEX_TO_PTR s' = PAGE_INDEX_TO_PTR s"
    using page_macros_eq [OF f(1)] by (simp_all add: fun_eq_iff IN_PARTITION_def f)
qed

lemma pages_released_objects:
  assumes "pages_released Q i s s'"
  shows "page_objects s' j = {x \<in> page_objects s j. PTR_TO_PAGE_INDEX s x \<notin> Q}"
  unfolding page_objects_def PTR_TO_GROUP_def pages_releasedD(6,8,9) [OF assms]
  using pages_releasedD(2) [OF assms] by auto

lemma pages_released_table:
  assumes R: "pages_released Q i s s'" and lay: "layout_ok s" and pt: "page_table_ok s"
    and closed: "\<And>q r. PAGE_POWER \<le> i \<Longrightarrow> q \<in> Q \<Longrightarrow> 0 \<le> r \<Longrightarrow> r < total_partition_pages s \<Longrightarrow>
      pages s r = pages s q \<Longrightarrow> r \<in> Q"
  shows "page_table_ok s'"
proof (rule page_table_okI)
  note f = pages_releasedD [OF R]
  show "layout_ok s'" using lay by (simp add: layout_ok_def f)
  fix k j assume "0 \<le> k" "k < total_partition_pages s'" "pgroup (pages s' k) = Group j"
  then have k: "0 \<le> k" "k < total_partition_pages s" "pgroup (pages s k) = Group j" "k \<notin> Q"
    by (simp_all add: f(5,6))
  show "j \<in> group_indices" by (rule page_table_okD(1) [OF pt k(1-3)])
  assume lj: "PAGE_POWER \<le> j"
  from page_table_okD(2) [OF pt k(1-3) lj] obtain b where
    b: "0 \<le> b" "b \<le> k" "k < b + 2 ^ (j - PAGE_POWER)" "b + 2 ^ (j - PAGE_POWER) \<le> total_partition_pages s"
      "pbase (pages s k) = PAGE_INDEX_TO_PTR s b"
      "\<forall>q. b \<le> q \<and> q < b + 2 ^ (j - PAGE_POWER) \<longrightarrow> pages s q = pages s k"
    by blast
  have "q \<notin> Q" if "b \<le> q" "q < b + 2 ^ (j - PAGE_POWER)" for q
  proof
    assume q: "q \<in> Q"
    have e: "pages s q = pages s k" using b(6) that by blast
    then have "j = i" using f(1) [OF q] k(3) by simp
    then show False using closed [OF _ q k(1,2)] lj e k(4) by simp
  qed
  then have "\<forall>q. b \<le> q \<and> q < b + 2 ^ (j - PAGE_POWER) \<longrightarrow> pages s' q = pages s' k"
    using b(6) f(2) k(4) by simp
  then show "\<exists>b. 0 \<le> b \<and> b \<le> k \<and> k < b + 2 ^ (j - PAGE_POWER) \<and>
      b + 2 ^ (j - PAGE_POWER) \<le> total_partition_pages s' \<and> pbase (pages s' k) = PAGE_INDEX_TO_PTR s' b \<and>
      (\<forall>q. b \<le> q \<and> q < b + 2 ^ (j - PAGE_POWER) \<longrightarrow> pages s' q = pages s' k)"
    using b(1-5) f(2) [OF k(4)] by (intro exI [of _ b]) (simp add: f(5,10))
qed

lemma pages_released_holes:
  assumes R: "pages_released Q i s s'" and I: "heap_inv T s A H" and i: "i \<in> group_indices"
    and lo: "links_only (set (objects (A i))) (memory s) (memory s')" and e: "empty_pages s' = empty_pages s"
  shows "holes_ok s' T H"
proof -
  note f = pages_releasedD [OF R] and H = heap_invD(7) [OF I]
  note h = holes_okD [OF H]
  have ee: "empty_page_set s' = empty_page_set s" by (simp add: empty_page_set_def f)
  have fp: "fst h \<in> empty_page_set s" if "h \<in> set H" for h
    using h(2) [OF that] h(6) that by (force simp: hole_pages_def)
  have "memory s' a = memory s a" if a: "a \<in> hole_cells s (fst ` set H)" for a
  proof (rule links_only_cell [OF lo])
    have p: "0 \<le> p \<and> p < total_partition_pages s \<and> (\<forall>j. pgroup (pages s p) \<noteq> Group j)"
      if "p \<in> fst ` set H" for p
      using that fp by (auto simp: empty_page_set_def)
    show "a \<notin> header_cells (set (objects (A i)))"
      using object_not_hole [OF I i _ p] a by (auto simp: header_cells_def object_set_def)
  qed
  then have "hole_seg s (memory s') H 0" using h(8) hole_seg_cong [of s H "memory s'" "memory s" 0] by blast
  then show ?thesis
    using H ee unfolding holes_ok_def by (simp add: e f hole_seg_eq [OF f(3)])
qed

lemma release_pages:
  assumes I: "heap_inv T s A H" and i: "i \<in> group_indices"
    and rep: "idle_rep (marked_color s) (unmarked_color s) m' g' a'"
    and lo: "links_only (set (objects (A i))) (memory s) m'"
    and sz: "gsize g' = gsize (groups s i)" "gindex g' = gindex (groups s i)"
    and ob: "set (objects a') = {x \<in> object_set A i. PTR_TO_PAGE_INDEX s x \<notin> Q}"
    and Q: "\<And>q. q \<in> Q \<Longrightarrow> 0 \<le> q \<and> q < total_partition_pages s \<and> pgroup (pages s q) = Group i"
    and closed: "\<And>q r. PAGE_POWER \<le> i \<Longrightarrow> q \<in> Q \<Longrightarrow> 0 \<le> r \<Longrightarrow> r < total_partition_pages s \<Longrightarrow>
      pages s r = pages s q \<Longrightarrow> r \<in> Q"
    and pg: "\<And>q. q \<in> Q \<Longrightarrow> pgroup (pg' q) = FREE_PAGE" "\<And>q. q \<notin> Q \<Longrightarrow> pg' q = pages s q"
    and s': "s' = s\<lparr>memory := m', groups := (groups s)(i := g'), pages := pg'\<rparr>"
  shows "heap_inv T s' (A(i := a')) H"
proof -
  note d = heap_invD [OF I]
  have f: "marked_color s' = marked_color s" "unmarked_color s' = unmarked_color s"
    "memory s' = m'" "empty_pages s' = empty_pages s" "groups s' = (groups s)(i := g')"
    by (simp_all add: s')
  have R: "pages_released Q i s s'" using Q pg by (simp add: pages_released_def s')
  note po = pages_released_objects [OF R]
  have lay: "layout_ok s'" using d(1) by (simp add: layout_ok_def s')
  have pt: "page_table_ok s'" by (rule pages_released_table [OF R d(1,4)]) (rule closed)
  have objs: "object_set (A(i := a')) j = page_objects s' j" if j: "j \<in> group_indices" for j
  proof (cases "j = i")
    case True
    then have "object_set (A(i := a')) j = set (objects a')" by (simp add: object_set_def)
    then show ?thesis unfolding ob d(5) [OF i] po True .
  next
    case False
    have "PTR_TO_PAGE_INDEX s x \<notin> Q" if "x \<in> page_objects s j" for x
      using that Q False by (auto simp: page_objects_def PTR_TO_GROUP_def)
    then show ?thesis using False d(5) [OF j] by (auto simp: object_set_def po)
  qed
  have hok: "headers_ok (set (objects (A i)))"
    using heap_rep_headers_ok(1) [OF heap_inv_rep [OF I] framed_idle_rep i] by (simp add: object_set_def)
  have reps: "idle_rep (marked_color s) (unmarked_color s) m' (groups s j) (A j)"
    if j: "j \<in> group_indices" "j \<noteq> i" for j
  proof -
    have "object_set A j \<inter> object_set A i = {}"
      using d(5) [OF j(1)] d(5) [OF i] j(2) by (auto simp: page_objects_def)
    then show ?thesis
      using idle_rep_frame [OF lo hok _ d(6) [OF j(1)]] by (simp add: object_set_def)
  qed
  have "holes_ok s' T H" using lo by (intro pages_released_holes [OF R I i]) (simp_all add: f)
  then show ?thesis
    using lay pt objs reps rep sz d(2,3) unfolding heap_inv_def by (simp add: f groups_ok_def)
qed

text \<open>Taking a list of free objects off a group.\<close>

definition a_remove_all :: "addr list \<Rightarrow> agroup \<Rightarrow> agroup" where
  "a_remove_all xs a = fold a_remove_free xs a"

lemma a_remove_all_fields:
  assumes "distinct (greens a)"
  shows "whites (a_remove_all xs a) = whites a" "grays (a_remove_all xs a) = grays a"
    "blacks (a_remove_all xs a) = blacks a"
    "set (greens (a_remove_all xs a)) = set (greens a) - set xs"
    "distinct (greens (a_remove_all xs a))"
proof -
  have "whites (a_remove_all xs a) = whites a \<and> grays (a_remove_all xs a) = grays a \<and>
    blacks (a_remove_all xs a) = blacks a \<and>
    set (greens (a_remove_all xs a)) = set (greens a) - set xs \<and>
    distinct (greens (a_remove_all xs a))"
    unfolding a_remove_all_def using assms
  proof (induction xs arbitrary: a)
    case (Cons x xs)
    then have "distinct (greens (a_remove_free x a))" by simp
    from Cons.IH [OF this] Cons.prems show ?case by auto
  qed simp
  then show "whites (a_remove_all xs a) = whites a" "grays (a_remove_all xs a) = grays a"
    "blacks (a_remove_all xs a) = blacks a"
    "set (greens (a_remove_all xs a)) = set (greens a) - set xs"
    "distinct (greens (a_remove_all xs a))" by simp_all
qed

lemma idle_rep_distinct:
  assumes "idle_rep mk um m g a"
  shows "distinct (greens a)" "set (blacks a) \<inter> set (greens a) = {}"
    "set (objects a) = set (blacks a) \<union> set (greens a)"
  using group_repD(2) [OF idle_rep_lists(1) [OF assms]] idle_rep_lists(5) [OF assms] by auto

lemma remove_page_objects_refines:
  assumes "idle_rep mk um m g a" and "set (new_objects n (gsize g) x) \<subseteq> set (greens a)"
    and "distinct (new_objects n (gsize g) x)"
  obtains m' g' where "remove_page_objects n m g x = (m', g')"
    and "idle_rep mk um m' g' (a_remove_all (new_objects n (gsize g) x) a)"
    and "links_only (set (objects a)) m m'" and "gsize g' = gsize g" and "gindex g' = gindex g"
proof -
  have "\<exists>m' g'. remove_page_objects n m g x = (m', g') \<and>
    idle_rep mk um m' g' (a_remove_all (new_objects n (gsize g) x) a) \<and>
    links_only (set (objects a)) m m' \<and> gsize g' = gsize g \<and> gindex g' = gindex g"
    using assms
  proof (induction n arbitrary: m g x a)
    case 0
    then show ?case by (simp add: a_remove_all_def)
  next
    case (Suc n)
    obtain m1 g1 where r: "remove_object_from_free_list m g x = (m1, g1)" by fastforce
    have xg: "x \<in> set (greens a)" using Suc.prems(2) by simp
    note R = remove_object_refines [OF Suc.prems(1) xg r]
    have sub: "set (objects (a_remove_free x a)) \<subseteq> set (objects a)"
      using idle_rep_distinct(3) [OF Suc.prems(1)] idle_rep_distinct(3) [OF R(1)]
      by (auto dest: notin_set_remove1 [THEN contrapos_nn, rotated])
    have "set (new_objects n (gsize g1) (x + word_of_int (gsize g1))) \<subseteq> set (greens (a_remove_free x a))"
    proof -
      have d: "distinct (greens a)" by (rule idle_rep_distinct(1) [OF Suc.prems(1)])
      show ?thesis using Suc.prems(2,3) by (simp add: R(3) d subset_insert_iff) blast
    qed
    from Suc.IH [OF R(1) this] Suc.prems(3) R(3) obtain m' g' where
      2: "remove_page_objects n m1 g1 (x + word_of_int (gsize g1)) = (m', g')"
        "idle_rep mk um m' g' (a_remove_all (new_objects n (gsize g1) (x + word_of_int (gsize g1))) (a_remove_free x a))"
        "links_only (set (objects (a_remove_free x a))) m1 m'" "gsize g' = gsize g1" "gindex g' = gindex g1"
      by auto
    have "links_only (set (objects a)) m m'"
      using R(2) links_only_mono [OF 2(3) sub] by (rule links_only_trans)
    then show ?case using 2 R(3,4) by (simp add: r a_remove_all_def)
  qed
  then show thesis using that by blast
qed

subsection \<open>The objects of one page\<close>

definition page_slots :: "rt_state \<Rightarrow> int \<Rightarrow> nat \<Rightarrow> addr list" where
  "page_slots s page i = new_objects (nat (BYTES_PER_PAGE div 2 ^ i)) (2 ^ i) (PAGE_INDEX_TO_PTR s page)"

lemma page_size_split:
  assumes "i \<le> PAGE_POWER"
  shows "BYTES_PER_PAGE div 2 ^ i = 2 ^ (PAGE_POWER - i)"
    and "(2 :: int) ^ (PAGE_POWER - i) * 2 ^ i = BYTES_PER_PAGE"
proof -
  show "(2 :: int) ^ (PAGE_POWER - i) * 2 ^ i = BYTES_PER_PAGE"
    unfolding BYTES_PER_PAGE_def using assms by (simp flip: power_add)
  then show "BYTES_PER_PAGE div 2 ^ i = 2 ^ (PAGE_POWER - i)"
    by (metis nonzero_mult_div_cancel_right power_not_zero zero_neq_numeral)
qed

lemma new_objects_uint:
  assumes "0 \<le> sz" and "uint b + int n * sz < 2 ^ 64" and "j < n"
  shows "uint (new_objects n sz b ! j) = uint b + int j * sz"
proof -
  have "int j * sz \<le> int n * sz" using assms(1,3) by (intro mult_right_mono) simp_all
  then have b: "0 \<le> int j * sz" "uint b + int j * sz < 2 ^ 64" using assms by auto
  moreover have "0 \<le> uint b" by simp
  ultimately have "int j * sz < 2 ^ 64" by linarith
  then have "uint (word_of_int (int j * sz) :: addr) = int j * sz"
    using b(1) by (subst uint_word_of_int) (simp del: of_int_mult)
  then have "uint (b + word_of_int (int j * sz)) = uint b + int j * sz"
    using b unfolding uint_add_64 by simp
  then show ?thesis by (simp add: new_objects_nth [OF assms(3)])
qed

lemma page_end:
  assumes lay: "layout_ok s" and k: "0 \<le> page" "page < total_partition_pages s"
  shows "uint (PAGE_INDEX_TO_PTR s page) + BYTES_PER_PAGE \<le> 2 ^ 47"
    and "uint (PAGE_INDEX_TO_PTR s page) = uint (first_partition_ptr s) + page * BYTES_PER_PAGE"
proof -
  show u: "uint (PAGE_INDEX_TO_PTR s page) = uint (first_partition_ptr s) + page * BYTES_PER_PAGE"
    using uint_PAGE_INDEX_TO_PTR [OF lay] k by simp
  have "(page + 1) * BYTES_PER_PAGE \<le> total_partition_pages s * BYTES_PER_PAGE"
    using k by (intro mult_right_mono) (simp_all add: config_defs)
  then show "uint (PAGE_INDEX_TO_PTR s page) + BYTES_PER_PAGE \<le> 2 ^ 47"
    using lay unfolding u layout_ok_def by (simp add: algebra_simps)
qed

lemma page_slots_nth:
  assumes lay: "layout_ok s" and k: "0 \<le> page" "page < total_partition_pages s"
    and i: "i \<le> PAGE_POWER" and j: "j < nat (BYTES_PER_PAGE div 2 ^ i)"
  shows "uint (page_slots s page i ! j) = uint (PAGE_INDEX_TO_PTR s page) + int j * 2 ^ i"
proof -
  have "int (nat (BYTES_PER_PAGE div 2 ^ i)) * 2 ^ i = BYTES_PER_PAGE"
    using page_size_split [OF i] by simp
  then show ?thesis
    unfolding page_slots_def using page_end(1) [OF lay k] j by (intro new_objects_uint) simp_all
qed

lemma distinct_page_slots:
  assumes lay: "layout_ok s" and k: "0 \<le> page" "page < total_partition_pages s"
    and i: "i \<le> PAGE_POWER"
  shows "distinct (page_slots s page i)"
proof -
  let ?n = "nat (BYTES_PER_PAGE div 2 ^ i)"
  have len: "length (page_slots s page i) = ?n" by (simp add: page_slots_def)
  have "page_slots s page i ! a \<noteq> page_slots s page i ! b" if "a < ?n" "b < ?n" "a \<noteq> b" for a b
  proof
    assume "page_slots s page i ! a = page_slots s page i ! b"
    then have "uint (page_slots s page i ! a) = uint (page_slots s page i ! b)" by (rule arg_cong)
    then have "int a * 2 ^ i = int b * 2 ^ i"
      unfolding page_slots_nth [OF lay k i that(1)] page_slots_nth [OF lay k i that(2)] by simp
    then show False using that(3) by simp
  qed
  then show ?thesis unfolding distinct_conv_nth len by blast
qed

lemma page_objects_large:
  "x \<in> page_objects s i \<Longrightarrow> \<not> i < PAGE_POWER \<Longrightarrow> x = pbase (pages s (PTR_TO_PAGE_INDEX s x))"
  unfolding page_objects_def by (metis (mono_tags, lifting) mem_Collect_eq)

text \<open>The slots of a page are the multiples of the size on it, and these are its objects.\<close>

lemma page_slots_iff:
  assumes lay: "layout_ok s" and k: "0 \<le> page" "page < total_partition_pages s" and i: "i \<le> PAGE_POWER"
    and Bm: "2 ^ i dvd uint (PAGE_INDEX_TO_PTR s page)"
  shows "x \<in> set (page_slots s page i) \<longleftrightarrow> uint (PAGE_INDEX_TO_PTR s page) \<le> uint x \<and>
    uint x < uint (PAGE_INDEX_TO_PTR s page) + BYTES_PER_PAGE \<and> uint x mod 2 ^ i = 0"
proof -
  let ?B = "uint (PAGE_INDEX_TO_PTR s page)" and ?n = "nat (BYTES_PER_PAGE div 2 ^ i)"
  have n: "int ?n * 2 ^ i = BYTES_PER_PAGE" using page_size_split [OF i] by simp
  have len: "length (page_slots s page i) = ?n" by (simp add: page_slots_def)
  show ?thesis
  proof
    assume "x \<in> set (page_slots s page i)"
    then obtain j where j: "j < ?n" "x = page_slots s page i ! j" by (auto simp: in_set_conv_nth len)
    have u: "uint x = ?B + int j * 2 ^ i" using page_slots_nth [OF lay k i j(1)] j(2) by simp
    have "int j * 2 ^ i < int ?n * 2 ^ i"
      by (rule mult_strict_right_mono) (use j(1) in \<open>simp_all only: of_nat_less_iff, simp\<close>)
    then have "uint x < ?B + BYTES_PER_PAGE" unfolding u n by simp
    moreover have "uint x mod 2 ^ i = 0" unfolding u using Bm by (simp add: mod_eq_0_iff_dvd)
    ultimately show "?B \<le> uint x \<and> uint x < ?B + BYTES_PER_PAGE \<and> uint x mod 2 ^ i = 0" using u by simp
  next
    assume x: "?B \<le> uint x \<and> uint x < ?B + BYTES_PER_PAGE \<and> uint x mod 2 ^ i = 0"
    define j where "j = nat ((uint x - ?B) div 2 ^ i)"
    have "2 ^ i dvd uint x - ?B" using x Bm by (simp add: mod_eq_0_iff_dvd)
    then have ux: "uint x = ?B + int j * 2 ^ i"
      using x by (simp add: j_def pos_imp_zdiv_nonneg_iff)
    then have "int j * 2 ^ i < int ?n * 2 ^ i" using x unfolding n by simp
    then have "int j < int ?n" by (simp only: mult_less_cancel_right) simp
    then have "j < ?n" by (simp only: of_nat_less_iff)
    moreover have "x = page_slots s page i ! j"
      by (rule word_uint_eq_iff [THEN iffD2], rule trans [OF ux], rule sym)
        (rule page_slots_nth [OF lay k i \<open>j < ?n\<close>])
    ultimately show "x \<in> set (page_slots s page i)" by (metis len nth_mem)
  qed
qed

lemma page_base_dvd:
  assumes "layout_ok s" and "0 \<le> page" "page < total_partition_pages s" and "i \<le> PAGE_POWER"
  shows "2 ^ i dvd uint (PAGE_INDEX_TO_PTR s page)"
proof -
  have "BYTES_PER_PAGE dvd uint (PAGE_INDEX_TO_PTR s page)"
    using assms(1) by (simp add: page_end(2) [OF assms(1-3)] layout_ok_def mod_eq_0_iff_dvd)
  moreover have "(2 :: int) ^ i dvd BYTES_PER_PAGE"
    unfolding BYTES_PER_PAGE_def using assms(4) by (intro le_imp_power_dvd) simp
  ultimately show ?thesis using dvd_trans by blast
qed

lemma page_objects_on_page:
  assumes lay: "layout_ok s" and pt: "page_table_ok s" and k: "0 \<le> page" "page < total_partition_pages s"
    and i: "i \<le> PAGE_POWER" and g: "pgroup (pages s page) = Group i"
  shows "x \<in> page_objects s i \<and> PTR_TO_PAGE_INDEX s x = page \<longleftrightarrow> uint (PAGE_INDEX_TO_PTR s page) \<le> uint x \<and>
    uint x < uint (PAGE_INDEX_TO_PTR s page) + BYTES_PER_PAGE \<and> uint x mod 2 ^ i = 0"
proof -
  let ?B = "uint (PAGE_INDEX_TO_PTR s page)"
  have B: "?B = uint (first_partition_ptr s) + page * BYTES_PER_PAGE" by (rule page_end(2) [OF lay k])
  note Bm = page_base_dvd [OF lay k i]
  have large: "pbase (pages s page) = PAGE_INDEX_TO_PTR s page" if "\<not> i < PAGE_POWER"
  proof -
    have li: "PAGE_POWER \<le> i" "i - PAGE_POWER = 0" using that i by simp_all
    obtain b where "b \<le> page" "page < b + 1" "pbase (pages s page) = PAGE_INDEX_TO_PTR s b"
      using page_table_okD(2) [OF pt k g li(1)] unfolding li(2) power_0 by blast
    moreover from this(1,2) have "b = page" by simp
    ultimately show ?thesis by simp
  qed
  show ?thesis
  proof
    assume x: "x \<in> page_objects s i \<and> PTR_TO_PAGE_INDEX s x = page"
    then have "IN_PARTITION s x" by (simp add: page_objects_def)
    note page_interval [OF lay this, unfolded conjunct2 [OF x]]
    then have iv: "?B \<le> uint x" "uint x < ?B + BYTES_PER_PAGE"
      unfolding B by (simp_all add: algebra_simps)
    have "uint x mod 2 ^ i = 0"
    proof (cases "i < PAGE_POWER")
      case True
      then show ?thesis using x by (simp add: page_objects_def)
    next
      case False
      then have "x = PAGE_INDEX_TO_PTR s page" using x large page_objects_large by metis
      then show ?thesis using Bm by (simp add: mod_eq_0_iff_dvd)
    qed
    then show "?B \<le> uint x \<and> uint x < ?B + BYTES_PER_PAGE \<and> uint x mod 2 ^ i = 0" using iv by simp
  next
    assume x: "?B \<le> uint x \<and> uint x < ?B + BYTES_PER_PAGE \<and> uint x mod 2 ^ i = 0"
    then have p: "IN_PARTITION s x" "PTR_TO_PAGE_INDEX s x = page"
      using page_of_interval [OF lay k] by (simp_all add: B algebra_simps)
    have "x = PAGE_INDEX_TO_PTR s page" if ni: "\<not> i < PAGE_POWER"
    proof -
      have ip: "(2 :: int) ^ i = BYTES_PER_PAGE" using ni i by (simp add: BYTES_PER_PAGE_def)
      have "2 ^ i dvd uint x - ?B" using x Bm by (simp add: mod_eq_0_iff_dvd)
      then have "uint x - ?B = 0"
        using x zdvd_imp_le [of "2 ^ i" "uint x - ?B"] unfolding ip by linarith
      then show ?thesis by (simp add: word_uint_eq_iff)
    qed
    then show "x \<in> page_objects s i \<and> PTR_TO_PAGE_INDEX s x = page"
      using x p g large by (auto simp: page_objects_def PTR_TO_GROUP_def)
  qed
qed

lemma page_slots_objects:
  assumes "layout_ok s" and "page_table_ok s" and "0 \<le> page" "page < total_partition_pages s"
    and "i \<le> PAGE_POWER" and "pgroup (pages s page) = Group i"
  shows "set (page_slots s page i) = {x \<in> page_objects s i. PTR_TO_PAGE_INDEX s x = page}"
  using page_slots_iff [OF assms(1,3-5) page_base_dvd [OF assms(1,3-5)]] page_objects_on_page [OF assms]
  by (simp add: set_eq_iff)

subsection \<open>One page of a small group\<close>

lemma idle_rep_green_iff:
  assumes "idle_rep mk um m g a" and "colors_ok mk um" and "x \<in> set (objects a)"
  shows "GREENP m x \<longleftrightarrow> x \<in> set (greens a)"
proof -
  note r = group_repD [OF idle_rep_lists(1) [OF assms(1)]]
  have "mk \<noteq> GREEN" using assms(2) by (auto simp: colors_ok_def color_defs)
  then show ?thesis
    using r(7,8) assms(3) idle_rep_distinct(3) [OF assms(1)] by (auto simp: colored_def GREENP_def)
qed

lemma all_green_loop_eq:
  assumes "0 < sz" and "uint nxt + int n * sz = uint page_end" and "n < fuel"
  shows "all_green_loop fuel m sz nxt page_end = Inr (\<forall>x\<in>set (new_objects n sz nxt). GREENP m x)"
  using assms
proof (induction n arbitrary: fuel nxt)
  case 0
  then obtain f where "fuel = Suc f" by (cases fuel) auto
  then show ?case using 0 by (simp add: word_less_def)
next
  case (Suc n)
  obtain f where f: "fuel = Suc f" "n < f" using Suc.prems(3) by (cases fuel) auto
  have "0 \<le> int n * sz" using Suc.prems(1) by simp
  moreover have "int (Suc n) * sz = int n * sz + sz" by (simp add: algebra_simps)
  ultimately have e: "uint nxt + sz \<le> uint page_end" "uint nxt < uint page_end"
    using Suc.prems(1,2) by linarith+
  have "uint page_end < 2 ^ 64" using uint_bounded [of page_end] by simp
  then have "uint (word_of_int sz :: addr) = sz"
  proof -
    have "0 \<le> uint nxt" by simp
    then have "sz < 2 ^ 64" using e(1) \<open>uint page_end < 2 ^ 64\<close> by linarith
    then show ?thesis using Suc.prems(1) by (subst uint_word_of_int) simp
  qed
  then have "uint (nxt + word_of_int sz) = uint nxt + sz"
    using e(1) Suc.prems(1) \<open>uint page_end < 2 ^ 64\<close> unfolding uint_add_64 by simp
  then have "uint (nxt + word_of_int sz) + int n * sz = uint page_end"
    using Suc.prems(2) by (simp add: algebra_simps)
  from Suc.IH [OF Suc.prems(1) this f(2)] e(2) show ?case
    by (auto simp: f word_less_def)
qed

lemma all_green_page_eq:
  assumes lay: "layout_ok s" and go: "groups_ok s" and k: "0 \<le> page" "page < total_partition_pages s"
    and i: "i \<in> group_indices" "i \<le> PAGE_POWER"
  shows "all_green_page page i s = Inr (\<forall>x\<in>set (page_slots s page i). GREENP (memory s) x)"
proof -
  let ?B = "PAGE_INDEX_TO_PTR s page" and ?n = "nat (BYTES_PER_PAGE div 2 ^ i)"
  have sz: "gsize (groups s i) = 2 ^ i" using go i(1) by (simp add: groups_ok_def)
  have n: "int ?n * 2 ^ i = BYTES_PER_PAGE" using page_size_split [OF i(2)] by simp
  have "uint (?B + word_of_int BYTES_PER_PAGE) = uint ?B + BYTES_PER_PAGE"
    using page_end(1) [OF lay k] by (simp add: uint_add_64 config_defs)
  moreover have "?n < nat BYTES_PER_PAGE + 1"
  proof -
    have "(2 :: int) ^ (PAGE_POWER - i) \<le> 2 ^ PAGE_POWER" by (intro power_increasing) simp_all
    then have "BYTES_PER_PAGE div 2 ^ i \<le> BYTES_PER_PAGE"
      using page_size_split(1) [OF i(2)] by (simp add: BYTES_PER_PAGE_def)
    then show ?thesis by linarith
  qed
  ultimately have "all_green_loop (nat BYTES_PER_PAGE + 1) (memory s) (2 ^ i) ?B (?B + word_of_int BYTES_PER_PAGE) =
      Inr (\<forall>x\<in>set (new_objects ?n (2 ^ i) ?B). GREENP (memory s) x)"
    by (intro all_green_loop_eq) (simp_all only: n, simp_all)
  then show ?thesis by (simp add: all_green_page_def Let_def sz page_slots_def)
qed

text \<open>
  What coalescing may change: memory at headers and at pages without a group, the page
  table by taking pages away from groups, and the free objects.
\<close>

definition groupless :: "rt_state \<Rightarrow> int set" where
  "groupless s = {p. 0 \<le> p \<and> p < total_partition_pages s \<and> (\<forall>i. pgroup (pages s p) \<noteq> Group i)}"

definition coalesced :: "addr set \<Rightarrow> rt_state \<Rightarrow> rt_state \<Rightarrow> bool" where
  "coalesced Ob s s' \<longleftrightarrow>
     s' = s\<lparr>memory := memory s', groups := groups s', pages := pages s', empty_pages := empty_pages s'\<rparr> \<and>
     (\<forall>a. a \<notin> header_cells Ob \<longrightarrow> a \<notin> hole_cells s (groupless s') \<longrightarrow> memory s' a = memory s a) \<and>
     (\<forall>q. aligned q \<longrightarrow> q + 8 \<notin> hole_cells s (groupless s') \<longrightarrow>
        GET_STORAGE_CLASS (memory s') q = GET_STORAGE_CLASS (memory s) q) \<and>
     (\<forall>p i. pgroup (pages s' p) = Group i \<longrightarrow> pages s' p = pages s p)"

definition a_coalesced :: "(nat \<Rightarrow> agroup) \<Rightarrow> (nat \<Rightarrow> agroup) \<Rightarrow> bool" where
  "a_coalesced A A' \<longleftrightarrow> (\<forall>i\<in>group_indices.
     blacks (A' i) = blacks (A i) \<and> set (greens (A' i)) \<subseteq> set (greens (A i)) \<and>
     object_set A' i \<subseteq> object_set A i)"

lemma coalesced_refl [simp]: "coalesced Ob s s"
  by (simp add: coalesced_def)

lemma a_coalesced_refl [simp]: "a_coalesced A A"
  by (simp add: a_coalesced_def)

lemma a_coalesced_trans: "a_coalesced A B \<Longrightarrow> a_coalesced B C \<Longrightarrow> a_coalesced A C"
  unfolding a_coalesced_def by (metis (no_types, lifting) subset_trans)

lemma a_coalesced_all: "a_coalesced A B \<Longrightarrow> all_objects B \<subseteq> all_objects A"
  by (auto simp: a_coalesced_def all_objects_def)

lemma coalesced_fields:
  assumes "coalesced Ob s s'"
  shows "first_partition_ptr s' = first_partition_ptr s" "total_partition_pages s' = total_partition_pages s"
    "last_partition_ptr s' = last_partition_ptr s" "marked_color s' = marked_color s"
    "unmarked_color s' = unmarked_color s" "enable_write_barrier s' = enable_write_barrier s"
    "gc_count s' = gc_count s"
proof -
  have e: "s' = s\<lparr>memory := memory s', groups := groups s', pages := pages s', empty_pages := empty_pages s'\<rparr>"
    using assms by (simp add: coalesced_def)
  show "first_partition_ptr s' = first_partition_ptr s" "total_partition_pages s' = total_partition_pages s"
    "last_partition_ptr s' = last_partition_ptr s" "marked_color s' = marked_color s"
    "unmarked_color s' = unmarked_color s" "enable_write_barrier s' = enable_write_barrier s"
    "gc_count s' = gc_count s"
    by (subst e, simp)+
qed

lemma groupless_mono: "coalesced Ob s s' \<Longrightarrow> groupless s \<subseteq> groupless s'"
proof
  fix p assume c: "coalesced Ob s s'" and p: "p \<in> groupless s"
  have "pgroup (pages s' p) \<noteq> Group i" for i
  proof
    assume g: "pgroup (pages s' p) = Group i"
    then have "pages s' p = pages s p" using c unfolding coalesced_def by blast
    then show False using g p by (simp add: groupless_def)
  qed
  then show "p \<in> groupless s'" using p coalesced_fields(2) [OF c] by (simp add: groupless_def)
qed

lemma coalesced_trans:
  assumes "coalesced Ob s s'" and "coalesced Ob' s' s''" and "Ob' \<subseteq> Ob"
  shows "coalesced Ob s s''"
proof -
  have e: "s' = s\<lparr>memory := memory s', groups := groups s', pages := pages s', empty_pages := empty_pages s'\<rparr>"
    "s'' = s'\<lparr>memory := memory s'', groups := groups s'', pages := pages s'', empty_pages := empty_pages s''\<rparr>"
    using assms(1,2) by (simp_all add: coalesced_def)
  have "s'' = s\<lparr>memory := memory s'', groups := groups s'', pages := pages s'', empty_pages := empty_pages s''\<rparr>"
    by (subst e(2), subst e(1)) simp
  moreover have "memory s'' a = memory s a"
    if "a \<notin> header_cells Ob" "a \<notin> hole_cells s (groupless s'')" for a
  proof -
    have "a \<notin> header_cells Ob'" using that(1) assms(3) by (auto simp: header_cells_def)
    moreover have "a \<notin> hole_cells s' (groupless s'')"
      using that(2) page_macros_eq(1) [OF coalesced_fields(1) [OF assms(1)]] by (simp add: hole_cells_def)
    moreover have "a \<notin> hole_cells s (groupless s')"
      using that(2) groupless_mono [OF assms(2)] by (auto simp: hole_cells_def)
    ultimately show ?thesis using that(1) assms(1,2) by (simp add: coalesced_def)
  qed
  moreover have "GET_STORAGE_CLASS (memory s'') q = GET_STORAGE_CLASS (memory s) q"
    if "aligned q" "q + 8 \<notin> hole_cells s (groupless s'')" for q
  proof -
    have "q + 8 \<notin> hole_cells s' (groupless s'')"
      using that(2) page_macros_eq(1) [OF coalesced_fields(1) [OF assms(1)]] by (simp add: hole_cells_def)
    moreover have "q + 8 \<notin> hole_cells s (groupless s')"
      using that(2) groupless_mono [OF assms(2)] by (auto simp: hole_cells_def)
    ultimately show ?thesis using that(1) assms(1,2) by (simp add: coalesced_def)
  qed
  moreover have "pages s'' p = pages s p" if "pgroup (pages s'' p) = Group i" for p i
    using that assms(1,2) by (simp add: coalesced_def)
  ultimately show ?thesis by (simp add: coalesced_def)
qed

text \<open>Objects taken off the free list of a group together with their pages.\<close>

lemma coalesced_release:
  assumes lo: "links_only (set (objects (A i))) (memory s) m'" and i: "i \<in> group_indices"
    and s': "s' = s\<lparr>memory := m', groups := (groups s)(i := g'), pages := pg'\<rparr>"
    and pg: "\<And>q. pg' q \<noteq> pages s q \<Longrightarrow> pgroup (pg' q) = FREE_PAGE"
  shows "coalesced (all_objects A) s s'"
  unfolding coalesced_def
proof (intro conjI allI impI)
  show "s' = s\<lparr>memory := memory s', groups := groups s', pages := pages s', empty_pages := empty_pages s'\<rparr>"
    by (simp add: s')
  fix a assume "a \<notin> header_cells (all_objects A)"
  then have "a \<notin> header_cells (set (objects (A i)))"
    using i by (auto simp: header_cells_def all_objects_def object_set_def)
  then show "memory s' a = memory s a" using links_only_cell [OF lo] by (simp add: s')
next
  fix q :: addr assume "aligned q"
  then show "GET_STORAGE_CLASS (memory s') q = GET_STORAGE_CLASS (memory s) q"
    using links_only_storage_class [OF lo] by (simp add: s')
qed (use pg in \<open>force simp: s'\<close>)+

lemma a_coalesced_upd:
  assumes "blacks a' = blacks (A i)" and "set (greens a') \<subseteq> set (greens (A i))"
    and "set (objects a') \<subseteq> set (objects (A i))"
  shows "a_coalesced A (A(i := a'))"
  using assms by (auto simp: a_coalesced_def object_set_def simp del: objects_simps)

text \<open>Pages with the same descriptor hold the same object, so a page of a group of one page stands alone.\<close>

lemma page_alone:
  assumes pt: "page_table_ok s" and lay: "layout_ok s" and k: "0 \<le> k" "k < total_partition_pages s"
    and r: "0 \<le> r" "r < total_partition_pages s" and g: "pgroup (pages s k) = Group PAGE_POWER"
    and e: "pages s r = pages s k"
  shows "r = k"
proof -
  have gr: "pgroup (pages s r) = Group PAGE_POWER" using e g by simp
  obtain b where b: "b \<le> k" "k < b + 1" "pbase (pages s k) = PAGE_INDEX_TO_PTR s b"
    using page_table_okD(2) [OF pt k g order_refl] unfolding diff_self_eq_0 power_0 by blast
  obtain c where c: "c \<le> r" "r < c + 1" "pbase (pages s r) = PAGE_INDEX_TO_PTR s c"
    using page_table_okD(2) [OF pt r gr order_refl] unfolding diff_self_eq_0 power_0 by blast
  have "b = k" "c = r" using b c by simp_all
  then have "PAGE_INDEX_TO_PTR s r = PAGE_INDEX_TO_PTR s k" using b(3) c(3) e by simp
  then show ?thesis using page_ptr_inj [OF lay r k] by simp
qed

lemma identify_single_refines:
  assumes I: "heap_inv T s A H" and k: "0 \<le> page" "page < total_partition_pages s"
    and g: "pgroup (pages s page) = Group i" and i: "i \<le> PAGE_POWER"
  obtains s' A' where "identify_single_free_page page i s = Inr s'" and "heap_inv T s' A' H"
    and "coalesced (all_objects A) s s'" and "a_coalesced A A'"
    and "\<And>q. q \<noteq> page \<Longrightarrow> pages s' q = pages s q"
    and "pgroup (pages s' page) = (if set (page_slots s page i) \<subseteq> set (greens (A i)) then FREE_PAGE else Group i)"
proof -
  note d = heap_invD [OF I]
  have gi: "i \<in> group_indices" by (rule page_table_okD(1) [OF d(4) k g])
  have sz: "gsize (groups s i) = 2 ^ i" using d(3) gi by (simp add: groups_ok_def)
  have rep: "idle_rep (marked_color s) (unmarked_color s) (memory s) (groups s i) (A i)" by (rule d(6) [OF gi])
  let ?xs = "page_slots s page i"
  have xs: "set ?xs = {x \<in> object_set A i. PTR_TO_PAGE_INDEX s x = page}"
    using page_slots_objects [OF d(1,4) k i g] d(5) [OF gi] by simp
  have gr: "(\<forall>x\<in>set ?xs. GREENP (memory s) x) \<longleftrightarrow> set ?xs \<subseteq> set (greens (A i))"
    using idle_rep_green_iff [OF rep d(2)] xs by (auto simp: object_set_def)
  note green = all_green_page_eq [OF d(1,3) k gi i, unfolded gr]
  show thesis
  proof (cases "set ?xs \<subseteq> set (greens (A i))")
    case False
    then show thesis using that [of s A] I g green by (simp add: identify_single_free_page_def)
  next
    case True
    have dx: "distinct ?xs" by (rule distinct_page_slots [OF d(1) k i])
    obtain m' g' where r: "remove_page_objects (nat (BYTES_PER_PAGE div 2 ^ i)) (memory s) (groups s i)
        (PAGE_INDEX_TO_PTR s page) = (m', g')"
      and rep': "idle_rep (marked_color s) (unmarked_color s) m' g' (a_remove_all ?xs (A i))"
      and lo: "links_only (set (objects (A i))) (memory s) m'"
      and sz': "gsize g' = gsize (groups s i)" "gindex g' = gindex (groups s i)"
      using remove_page_objects_refines [OF rep, of "nat (BYTES_PER_PAGE div 2 ^ i)" "PAGE_INDEX_TO_PTR s page"]
        True dx unfolding page_slots_def sz by metis
    define pg' where "pg' = (pages s)(page := (pages s page)\<lparr>pgroup := FREE_PAGE\<rparr>)"
    define s' where "s' = s\<lparr>memory := m', groups := (groups s)(i := g'), pages := pg'\<rparr>"
    have eq: "identify_single_free_page page i s = Inr s'"
      using True green r by (simp add: identify_single_free_page_def on_group_def sz s'_def pg'_def)
    note f = a_remove_all_fields [OF idle_rep_distinct(1) [OF rep], of ?xs]
    have "set (blacks (A i)) \<inter> set ?xs = {}" using idle_rep_distinct(2) [OF rep] True by blast
    then have objs: "set (objects (a_remove_all ?xs (A i))) = set (objects (A i)) - set ?xs"
      unfolding idle_rep_distinct(3) [OF rep] idle_rep_distinct(3) [OF rep'] f(3,4)
      by (simp add: Un_Diff Diff_triv)
    then have ob: "set (objects (a_remove_all ?xs (A i))) = {x \<in> object_set A i. PTR_TO_PAGE_INDEX s x \<notin> {page}}"
      using xs by (auto simp: object_set_def)
    have closed: "r \<in> {page}" if h: "PAGE_POWER \<le> i" "q \<in> {page}" "0 \<le> r" "r < total_partition_pages s"
      "pages s r = pages s q" for q r
      using page_alone [OF d(4,1) k h(3,4)] g h(1,2,5) i by simp
    have I': "heap_inv T s' (A(i := a_remove_all ?xs (A i))) H"
      by (rule release_pages [OF I gi rep' lo sz' ob _ closed _ _ s'_def])
        (use k g in \<open>auto simp: pg'_def\<close>)
    have "coalesced (all_objects A) s s'"
      by (rule coalesced_release [where A = A and i = i, OF lo gi s'_def]) (use g in \<open>auto simp: pg'_def split: if_splits\<close>)
    moreover have "a_coalesced A (A(i := a_remove_all ?xs (A i)))"
      by (rule a_coalesced_upd) (use f(3,4) objs in \<open>auto simp del: objects_simps\<close>)
    ultimately show thesis using that [OF eq I'] True by (simp add: s'_def pg'_def)
  qed
qed

subsection \<open>A large object\<close>

lemma free_pages_eq:
  "free_pages page n pgs q = (if page \<le> q \<and> q < page + n then \<lparr>pbase = 0, pgroup = FREE_PAGE\<rparr> else pgs q)"
proof -
  have "fold (\<lambda>i pgs. pgs(page + i := c)) is pgs j = (if j \<in> (\<lambda>i. page + i) ` set is then c else pgs j)"
    for "is" :: "int list" and c :: page_info and j pgs
    by (induction "is" arbitrary: pgs) auto
  moreover have "q \<in> (\<lambda>i. page + i) ` set [0..n - 1] \<longleftrightarrow> page \<le> q \<and> q < page + n"
    by (auto simp: image_iff)
  ultimately show ?thesis by (simp add: free_pages_def)
qed

definition large_at :: "rt_state \<Rightarrow> int \<Rightarrow> nat \<Rightarrow> int \<Rightarrow> bool" where
  "large_at s k i b \<longleftrightarrow> 0 \<le> b \<and> b \<le> k \<and> k < b + 2 ^ (i - PAGE_POWER) \<and>
     b + 2 ^ (i - PAGE_POWER) \<le> total_partition_pages s \<and> pbase (pages s k) = PAGE_INDEX_TO_PTR s b \<and>
     (\<forall>q. b \<le> q \<and> q < b + 2 ^ (i - PAGE_POWER) \<longrightarrow> pages s q = pages s k)"

lemma large_at_exists:
  assumes "page_table_ok s" and "0 \<le> k" and "k < total_partition_pages s"
    and "pgroup (pages s k) = Group i" and "PAGE_POWER \<le> i"
  obtains b where "large_at s k i b"
  using page_table_okD(2) [OF assms] unfolding large_at_def by blast

lemma large_atD:
  assumes "large_at s k i b"
  shows "0 \<le> b" "b \<le> k" "k < b + 2 ^ (i - PAGE_POWER)"
    "b + 2 ^ (i - PAGE_POWER) \<le> total_partition_pages s" "pbase (pages s k) = PAGE_INDEX_TO_PTR s b"
    "b \<le> q \<Longrightarrow> q < b + 2 ^ (i - PAGE_POWER) \<Longrightarrow> pages s q = pages s k"
  using assms unfolding large_at_def by blast+

text \<open>The pages of a large object hold that object and no other.\<close>

lemma large_page_object:
  assumes lay: "layout_ok s" and k: "0 \<le> page" "page < total_partition_pages s"
    and g: "pgroup (pages s page) = Group i" and li: "PAGE_POWER < i" and b: "pbase (pages s page) = PAGE_INDEX_TO_PTR s page"
    and same: "\<And>q. page \<le> q \<Longrightarrow> q < page + n \<Longrightarrow> pages s q = pages s page" and n: "0 < n"
  shows "{x \<in> page_objects s i. page \<le> PTR_TO_PAGE_INDEX s x \<and> PTR_TO_PAGE_INDEX s x < page + n} = {PAGE_INDEX_TO_PTR s page}"
    (is "?X = {?B}")
proof -
  have "IN_PARTITION s ?B" "PTR_TO_PAGE_INDEX s ?B = page"
    using PAGE_INDEX_TO_PTR_IN_PARTITION [OF lay k] page_index_roundtrip [OF lay k] by simp_all
  then have "?B \<in> ?X" using n li g b by (simp add: page_objects_def PTR_TO_GROUP_def)
  moreover have "x = ?B" if "x \<in> ?X" for x
  proof -
    have "x = pbase (pages s (PTR_TO_PAGE_INDEX s x))" using that li by (intro page_objects_large) auto
    then show ?thesis using same [of "PTR_TO_PAGE_INDEX s x"] that b by simp
  qed
  ultimately show ?thesis by blast
qed

lemma identify_multiple_refines:
  assumes I: "heap_inv T s A H" and k: "0 \<le> page" "page < total_partition_pages s"
    and g: "pgroup (pages s page) = Group i" and li: "PAGE_POWER < i" and b: "large_at s page i page"
  obtains s' A' where "identify_multiple_free_pages page i s = Inr (s', page)" and "heap_inv T s' A' H"
    and "coalesced (all_objects A) s s'" and "a_coalesced A A'"
    and "\<And>q. q < page \<or> page + 2 ^ (i - PAGE_POWER) \<le> q \<Longrightarrow> pages s' q = pages s q"
    and "\<And>q. page \<le> q \<Longrightarrow> q < page + 2 ^ (i - PAGE_POWER) \<Longrightarrow>
      pgroup (pages s' q) = (if PAGE_INDEX_TO_PTR s page \<in> set (greens (A i)) then FREE_PAGE else Group i)"
proof -
  note d = heap_invD [OF I]
  have gi: "i \<in> group_indices" by (rule page_table_okD(1) [OF d(4) k g])
  have sz: "gsize (groups s i) = 2 ^ i" using d(3) gi by (simp add: groups_ok_def)
  have rep: "idle_rep (marked_color s) (unmarked_color s) (memory s) (groups s i) (A i)" by (rule d(6) [OF gi])
  let ?x = "PAGE_INDEX_TO_PTR s page" and ?n = "2 ^ (i - PAGE_POWER) :: int"
  have n: "gsize (groups s i) div BYTES_PER_PAGE = ?n"
    unfolding sz page_size_power [OF gi less_imp_le [OF li]] by (simp add: BYTES_PER_PAGE_def)
  have xb: "pbase (pages s page) = ?x" using b by (rule large_atD(5))
  have ip: "IN_PARTITION s ?x" "PTR_TO_PAGE_INDEX s ?x = page"
    using PAGE_INDEX_TO_PTR_IN_PARTITION [OF d(1) k] page_index_roundtrip [OF d(1) k] by simp_all
  have xo: "?x \<in> object_set A i"
    using d(5) [OF gi] ip g xb li by (simp add: page_objects_def PTR_TO_GROUP_def)
  have gr: "GREENP (memory s) ?x \<longleftrightarrow> ?x \<in> set (greens (A i))"
    using idle_rep_green_iff [OF rep d(2)] xo by (simp add: object_set_def)
  have same: "pages s q = pages s page" if "page \<le> q" "q < page + ?n" for q
    using large_atD(6) [OF b that] .
  show thesis
  proof (cases "?x \<in> set (greens (A i))")
    case False
    have "identify_multiple_free_pages page i s = Inr (s, page)"
      using False gr xb by (simp add: identify_multiple_free_pages_def Let_def)
    moreover have "pgroup (pages s q) = Group i" if "page \<le> q" "q < page + ?n" for q
      unfolding same [OF that] by (rule g)
    ultimately show thesis using that [of s A] I False coalesced_refl a_coalesced_refl by presburger
  next
    case True
    obtain m' g' where r: "remove_object_from_free_list (memory s) (groups s i) ?x = (m', g')" by fastforce
    note R = remove_object_refines [OF rep True r]
    define pg' where "pg' = free_pages page ?n (pages s)"
    define s' where "s' = s\<lparr>memory := m', groups := (groups s)(i := g'), pages := pg'\<rparr>"
    have eq: "identify_multiple_free_pages page i s = Inr (s', page)"
      using True gr r xb by (simp add: identify_multiple_free_pages_def Let_def on_group_def n s'_def pg'_def)
    have dg: "distinct (greens (A i))" by (rule idle_rep_distinct(1) [OF rep])
    have "?x \<notin> set (blacks (A i))" using idle_rep_distinct(2) [OF rep] True by blast
    then have objs: "set (objects (a_remove_free ?x (A i))) = set (objects (A i)) - {?x}"
      unfolding idle_rep_distinct(3) [OF rep] idle_rep_distinct(3) [OF R(1)] using dg by auto
    have "0 < ?n" by simp
    then have one: "{x \<in> object_set A i. PTR_TO_PAGE_INDEX s x \<in> {page..<page + ?n}} = {?x}"
      using large_page_object [OF d(1) k g li xb same] d(5) [OF gi] by simp
    have ob: "set (objects (a_remove_free ?x (A i))) =
        {x \<in> object_set A i. PTR_TO_PAGE_INDEX s x \<notin> {page..<page + ?n}}"
      unfolding objs using one unfolding object_set_def by blast
    have top: "page + ?n \<le> total_partition_pages s" using b by (rule large_atD(4))
    have grp: "pgroup (pages s q) = Group i" if "page \<le> q" "q < page + ?n" for q
      unfolding same [OF that] by (rule g)
    have closed: "r \<in> {page..<page + ?n}" if h: "PAGE_POWER \<le> i" "q \<in> {page..<page + ?n}" "0 \<le> r"
      "r < total_partition_pages s" "pages s r = pages s q" for q r
    proof -
      have "pages s q = pages s page" by (rule same) (use h(2) in simp_all)
      with h(5) have e: "pages s r = pages s page" by (rule trans)
      then obtain c where c: "large_at s r i c" using large_at_exists [OF d(4) h(3,4)] g h(1) by metis
      then have "PAGE_INDEX_TO_PTR s c = ?x" "0 \<le> c" "c < total_partition_pages s"
        using e xb h(4) large_atD(1,2,5) [OF c] by simp_all
      then have "c = page" using page_ptr_inj [OF d(1) _ _ k] by simp
      then show ?thesis using large_atD(2,3) [OF c] by simp
    qed
    have I': "heap_inv T s' (A(i := a_remove_free ?x (A i))) H"
      by (rule release_pages [OF I gi R(1) _ R(3,4) ob _ closed _ _ s'_def])
        (use R(2) k g top grp in \<open>auto simp: pg'_def free_pages_eq\<close>)
    have "coalesced (all_objects A) s s'"
      by (rule coalesced_release [where A = A and i = i, OF R(2) gi s'_def]) (use grp in \<open>auto simp: pg'_def free_pages_eq split: if_splits\<close>)
    moreover have "a_coalesced A (A(i := a_remove_free ?x (A i)))"
      by (rule a_coalesced_upd) (use objs dg in \<open>auto simp del: objects_simps\<close>)
    moreover have "pages s' q = pages s q" if "q < page \<or> page + ?n \<le> q" for q
      using that by (auto simp: s'_def pg'_def free_pages_eq)
    moreover have "pgroup (pages s' q) = (if ?x \<in> set (greens (A i)) then FREE_PAGE else Group i)"
      if "page \<le> q" "q < page + ?n" for q
      using that True by (simp add: s'_def pg'_def free_pages_eq)
    ultimately show thesis by (rule that [OF eq I'])
  qed
qed

end
