(* ===== verification/Coalesce_Loops.thy ===== *)
theory Coalesce_Loops
  imports Coalesce_Refine
begin

text \<open>
  The loops of coalesce_all_free_pages: the walk that identifies free pages, the walk that
  turns runs of FREE pages into holes, and the merging of holes that touch. Together they
  end with no FREE page, no page in a group whose objects are all free, and no two holes
  that touch.
\<close>

subsection \<open>Identifying free pages\<close>

definition boundary :: "rt_state \<Rightarrow> int \<Rightarrow> bool" where
  "boundary s page \<longleftrightarrow>
     (\<forall>q i b. page \<le> q \<longrightarrow> q < total_partition_pages s \<longrightarrow> pgroup (pages s q) = Group i \<longrightarrow>
        PAGE_POWER < i \<longrightarrow> large_at s q i b \<longrightarrow> page \<le> b)"

text \<open>A page that is not, or no longer, taken up by free objects only.\<close>

definition settled :: "rt_state \<Rightarrow> (nat \<Rightarrow> agroup) \<Rightarrow> int \<Rightarrow> bool" where
  "settled s A q \<longleftrightarrow>
     (\<forall>i. pgroup (pages s q) = Group i \<longrightarrow>
        (i \<le> PAGE_POWER \<longrightarrow> \<not> set (page_slots s q i) \<subseteq> set (greens (A i))) \<and>
        (PAGE_POWER < i \<longrightarrow> pbase (pages s q) \<notin> set (greens (A i))))"

lemma page_slots_frame:
  "first_partition_ptr s' = first_partition_ptr s \<Longrightarrow> page_slots s' q i = page_slots s q i"
  by (simp add: page_slots_def PAGE_INDEX_TO_PTR_def)

lemma settled_step:
  assumes "settled s A q" and c: "coalesced Ob s s'" and a: "a_coalesced A A'"
    and pt: "page_table_ok s'" and q: "0 \<le> q" "q < total_partition_pages s"
  shows "settled s' A' q"
  unfolding settled_def
proof (intro allI impI)
  fix i assume g: "pgroup (pages s' q) = Group i"
  have q': "q < total_partition_pages s'" using q coalesced_fields(2) [OF c] by simp
  have e: "pages s' q = pages s q" using c g by (simp add: coalesced_def)
  have i: "i \<in> group_indices" by (rule page_table_okD(1) [OF pt q(1) q' g])
  have sub: "set (greens (A' i)) \<subseteq> set (greens (A i))" using a i by (simp add: a_coalesced_def)
  show "(i \<le> PAGE_POWER \<longrightarrow> \<not> set (page_slots s' q i) \<subseteq> set (greens (A' i))) \<and>
      (PAGE_POWER < i \<longrightarrow> pbase (pages s' q) \<notin> set (greens (A' i)))"
    using assms(1) g sub unfolding settled_def e page_slots_frame [OF coalesced_fields(1) [OF c]] by blast
qed

lemma large_at_coalesced:
  assumes c: "coalesced Ob s s'" and l: "large_at s' q i b" and g: "pgroup (pages s' q) = Group i"
  shows "large_at s q i b"
proof -
  note L = large_atD [OF l]
  have t: "total_partition_pages s' = total_partition_pages s" by (rule coalesced_fields(2) [OF c])
  have p: "PAGE_INDEX_TO_PTR s' = PAGE_INDEX_TO_PTR s"
    by (rule page_macros_eq(1) [OF coalesced_fields(1) [OF c]])
  have e: "pages s' r = pages s r" if "pgroup (pages s' r) = Group i" for r
    using c that by (simp add: coalesced_def)
  have "pages s r = pages s q" if "b \<le> r" "r < b + 2 ^ (i - PAGE_POWER)" for r
    using L(6) [OF that] e [of r] e [of q] g by metis
  then show ?thesis
    unfolding large_at_def using L(1-5) e [OF g] t p by metis
qed

lemma boundary_step:
  assumes b: "boundary s page" and c: "coalesced Ob s s'" and n: "0 < n" "page + n \<le> total_partition_pages s"
    and same: "\<And>q. page \<le> q \<Longrightarrow> q < page + n \<Longrightarrow> pages s q = pages s page"
    and at: "\<And>i. pgroup (pages s page) = Group i \<Longrightarrow> PAGE_POWER < i \<Longrightarrow> large_at s page i page \<and> n = 2 ^ (i - PAGE_POWER)"
    and lay: "layout_ok s" and k: "0 \<le> page"
  shows "boundary s' (page + n)"
  unfolding boundary_def
proof (intro allI impI)
  fix q i b
  assume q: "page + n \<le> q" "q < total_partition_pages s'" and g: "pgroup (pages s' q) = Group i"
    and li: "PAGE_POWER < i" and l: "large_at s' q i b"
  have l': "large_at s q i b" by (rule large_at_coalesced [OF c l g])
  have g': "pgroup (pages s q) = Group i" using c g by (simp add: coalesced_def)
  have qt: "q < total_partition_pages s" using q(2) coalesced_fields(2) [OF c] by simp
  have "page \<le> q" using q(1) n by simp
  then have pb: "page \<le> b" using b qt g' li l' unfolding boundary_def by blast
  show "page + n \<le> b"
  proof (rule ccontr)
    assume nb: "\<not> page + n \<le> b"
    note L = large_atD [OF l']
    have "pages s b = pages s q" using L(6) [of b] by simp
    moreover have "pages s b = pages s page" by (rule same) (use pb nb in simp_all)
    ultimately have e: "pages s q = pages s page" by simp
    then have gp: "pgroup (pages s page) = Group i" using g' by simp
    note at = at [OF gp li]
    have "PAGE_INDEX_TO_PTR s b = PAGE_INDEX_TO_PTR s page"
      using L(5) large_atD(5) [OF conjunct1 [OF at]] e by simp
    moreover have "b < total_partition_pages s" "page < total_partition_pages s"
      using nb n by simp_all
    ultimately have "b = page" using page_ptr_inj [OF lay L(1) _ k] by simp
    then show False using L(3) q(1) at by simp
  qed
qed

text \<open>At the start of a turn a large object begins here.\<close>

lemma boundary_large_at:
  assumes "boundary s page" and "page_table_ok s" and "0 \<le> page" "page < total_partition_pages s"
    and "pgroup (pages s page) = Group i" and "PAGE_POWER < i"
  shows "large_at s page i page"
proof -
  obtain b where b: "large_at s page i b" using large_at_exists [OF assms(2-5)] assms(6) by auto
  then have "page \<le> b" using assms unfolding boundary_def by blast
  then have "b = page" using large_atD(2) [OF b] by simp
  then show ?thesis using b by simp
qed

text \<open>One turn of the loop settles the pages \<open>page\<close> to \<open>page + n - 1\<close>.\<close>

definition turn_ok :: "int set \<Rightarrow> hole list \<Rightarrow> int \<Rightarrow> rt_state \<Rightarrow> (nat \<Rightarrow> agroup) \<Rightarrow> int \<Rightarrow> rt_state \<Rightarrow> (nat \<Rightarrow> agroup) \<Rightarrow> bool" where
  "turn_ok T H page s A n s1 A1 \<longleftrightarrow>
    heap_inv T s1 A1 H \<and> coalesced (all_objects A) s s1 \<and> a_coalesced A A1 \<and>
    0 < n \<and> page + n \<le> total_partition_pages s \<and> boundary s1 (page + n) \<and>
    (\<forall>q. page \<le> q \<longrightarrow> q < page + n \<longrightarrow> settled s1 A1 q)"

lemma turn_skip:
  assumes I: "heap_inv T s A H" and k: "0 \<le> page" "page < total_partition_pages s" and b: "boundary s page"
    and ng: "\<And>i. pgroup (pages s page) \<noteq> Group i"
  shows "turn_ok T H page s A 1 s A" and "identify_loop (Suc fuel) page s = identify_loop fuel (page + 1) s"
proof -
  show "identify_loop (Suc fuel) page s = identify_loop fuel (page + 1) s"
    using k ng by (cases "pgroup (pages s page)") (simp_all, blast)
  have "boundary s (page + 1)"
    by (rule boundary_step [OF b coalesced_refl _ _ _ _ heap_invD(1) [OF I] k(1)]) (use k ng in simp_all)
  moreover have "settled s A q" if "page \<le> q" "q < page + 1" for q
  proof -
    have "q = page" using that by simp
    then show ?thesis using ng by (simp add: settled_def)
  qed
  ultimately show "turn_ok T H page s A 1 s A" using I k by (simp add: turn_ok_def)
qed

lemma turn_single:
  assumes I: "heap_inv T s A H" and k: "0 \<le> page" "page < total_partition_pages s" and b: "boundary s page"
    and g: "pgroup (pages s page) = Group i" and i: "i \<le> PAGE_POWER"
  obtains s1 A1 where "turn_ok T H page s A 1 s1 A1"
    and "identify_loop (Suc fuel) page s = identify_loop fuel (page + 1) s1"
proof -
  note d = heap_invD [OF I]
  have gi: "i \<in> group_indices" by (rule page_table_okD(1) [OF d(4) k g])
  have small: "gsize (groups s i) \<le> BYTES_PER_PAGE"
    using d(3) gi i power_increasing [of i PAGE_POWER "2 :: int"] by (simp add: groups_ok_def BYTES_PER_PAGE_def)
  obtain s1 A1 where 1: "identify_single_free_page page i s = Inr s1" "heap_inv T s1 A1 H"
    "coalesced (all_objects A) s s1" "a_coalesced A A1" "\<And>q. q \<noteq> page \<Longrightarrow> pages s1 q = pages s q"
    "pgroup (pages s1 page) = (if set (page_slots s page i) \<subseteq> set (greens (A i)) then FREE_PAGE else Group i)"
    using identify_single_refines [OF I k g i] by metis
  have "boundary s1 (page + 1)"
    by (rule boundary_step [OF b 1(3) _ _ _ _ d(1) k(1)]) (use k g i in simp_all)
  moreover have "settled s1 A1 q" if "page \<le> q" "q < page + 1" for q
  proof -
    have q: "q = page" using that by simp
    have sub: "set (greens (A1 i)) \<subseteq> set (greens (A i))" using 1(4) gi by (simp add: a_coalesced_def)
    show ?thesis
      unfolding q settled_def page_slots_frame [OF coalesced_fields(1) [OF 1(3)]]
      using 1(6) sub i by (auto split: if_splits)
  qed
  ultimately have "turn_ok T H page s A 1 s1 A1" using 1(2-4) k by (simp add: turn_ok_def)
  moreover have "identify_loop (Suc fuel) page s = identify_loop fuel (page + 1) s1"
    using k small by (simp add: g 1(1))
  ultimately show thesis by (rule that)
qed

lemma turn_multiple:
  assumes I: "heap_inv T s A H" and k: "0 \<le> page" "page < total_partition_pages s" and b: "boundary s page"
    and g: "pgroup (pages s page) = Group i" and li: "PAGE_POWER < i"
  obtains s1 A1 where "turn_ok T H page s A (2 ^ (i - PAGE_POWER)) s1 A1"
    and "identify_loop (Suc fuel) page s = identify_loop fuel (page + 2 ^ (i - PAGE_POWER)) s1"
proof -
  note d = heap_invD [OF I]
  let ?n = "2 ^ (i - PAGE_POWER) :: int"
  have gi: "i \<in> group_indices" by (rule page_table_okD(1) [OF d(4) k g])
  have big: "\<not> gsize (groups s i) \<le> BYTES_PER_PAGE"
    using d(3) gi power_strict_increasing [OF li, of "2 :: int"] by (simp add: groups_ok_def BYTES_PER_PAGE_def)
  have la: "large_at s page i page" by (rule boundary_large_at [OF b d(4) k g li])
  have n: "2 ^ i div BYTES_PER_PAGE = ?n"
    unfolding page_size_power [OF gi less_imp_le [OF li]] by (simp add: BYTES_PER_PAGE_def)
  obtain s1 A1 where 1: "identify_multiple_free_pages page i s = Inr (s1, page)" "heap_inv T s1 A1 H"
    "coalesced (all_objects A) s s1" "a_coalesced A A1"
    "\<And>q. page \<le> q \<Longrightarrow> q < page + ?n \<Longrightarrow>
      pgroup (pages s1 q) = (if PAGE_INDEX_TO_PTR s page \<in> set (greens (A i)) then FREE_PAGE else Group i)"
    using identify_multiple_refines [OF I k g li la] by metis
  have sz1: "gsize (groups s1 i) = 2 ^ i" using heap_invD(3) [OF 1(2)] gi by (simp add: groups_ok_def)
  have "boundary s1 (page + ?n)"
    by (rule boundary_step [OF b 1(3) _ large_atD(4) [OF la] large_atD(6) [OF la] _ d(1) k(1)])
      (use la g in simp_all)
  moreover have "settled s1 A1 q" if q: "page \<le> q" "q < page + ?n" for q
  proof (cases "PAGE_INDEX_TO_PTR s page \<in> set (greens (A i))")
    case True
    then show ?thesis using 1(5) [OF q] by (simp add: settled_def)
  next
    case False
    have sub: "set (greens (A1 i)) \<subseteq> set (greens (A i))" using 1(4) gi by (simp add: a_coalesced_def)
    have gq: "pgroup (pages s1 q) = Group i" using 1(5) [OF q] False by simp
    then have "pages s1 q = pages s q" using 1(3) by (simp add: coalesced_def)
    then have "pbase (pages s1 q) = PAGE_INDEX_TO_PTR s page"
      using large_atD(6) [OF la q] large_atD(5) [OF la] by simp
    then show ?thesis using gq False sub li by (auto simp: settled_def)
  qed
  ultimately have "turn_ok T H page s A ?n s1 A1" using 1(2-4) large_atD(4) [OF la] by (simp add: turn_ok_def)
  moreover have "identify_loop (Suc fuel) page s = identify_loop fuel (page + ?n) s1"
    using k big by (simp add: g 1(1) sz1 n)
  ultimately show thesis by (rule that)
qed

lemma identify_turn:
  assumes I: "heap_inv T s A H" and k: "0 \<le> page" "page < total_partition_pages s" and b: "boundary s page"
  obtains n s1 A1 where "turn_ok T H page s A n s1 A1"
    and "identify_loop (Suc fuel) page s = identify_loop fuel (page + n) s1"
proof (cases "\<exists>i. pgroup (pages s page) = Group i")
  case True
  then obtain i where g: "pgroup (pages s page) = Group i" ..
  show thesis
  proof (cases "i \<le> PAGE_POWER")
    case True
    from assms g this show thesis by (rule turn_single [where fuel = fuel]) (rule that)
  next
    case False
    then have "PAGE_POWER < i" by simp
    from assms g this show thesis by (rule turn_multiple [where fuel = fuel]) (rule that)
  qed
next
  case False
  then show thesis using turn_skip [OF assms] that by blast
qed

lemma turn_settles:
  assumes t: "turn_ok T H page s A n s1 A1" and before: "\<And>q. 0 \<le> q \<Longrightarrow> q < page \<Longrightarrow> settled s A q"
    and q: "0 \<le> q" "q < page + n"
  shows "settled s1 A1 q"
proof (cases "q < page")
  case True
  have "heap_inv T s1 A1 H" and "coalesced (all_objects A) s s1" "a_coalesced A A1" and "q < total_partition_pages s"
    using t q by (simp_all add: turn_ok_def)
  then show ?thesis using settled_step [OF before [OF q(1) True] _ _ heap_invD(4) q(1)] by blast
next
  case False
  then show ?thesis using t q(2) by (simp add: turn_ok_def)
qed

lemma identify_loop_refines:
  assumes "heap_inv T s A H" and "0 \<le> page" and "page \<le> total_partition_pages s" and "boundary s page"
    and "\<And>q. 0 \<le> q \<Longrightarrow> q < page \<Longrightarrow> settled s A q"
    and "nat (total_partition_pages s - page) < fuel"
  shows "\<exists>s' A'. identify_loop fuel page s = Inr s' \<and> heap_inv T s' A' H \<and>
    coalesced (all_objects A) s s' \<and> a_coalesced A A' \<and>
    (\<forall>q. 0 \<le> q \<longrightarrow> q < total_partition_pages s' \<longrightarrow> settled s' A' q)"
  using assms
proof (induction fuel arbitrary: page s A)
  case 0
  then show ?case by simp
next
  case (Suc fuel)
  show ?case
  proof (cases "page < total_partition_pages s")
    case False
    then have "page = total_partition_pages s" using Suc.prems(3) by simp
    then show ?thesis using Suc.prems(1,5) by (intro exI [of _ s] exI [of _ A]) simp
  next
    case True
    obtain n s1 A1 where turn: "turn_ok T H page s A n s1 A1"
      and r: "identify_loop (Suc fuel) page s = identify_loop fuel (page + n) s1"
      by (rule identify_turn [OF Suc.prems(1,2) True Suc.prems(4)])
    then have c: "heap_inv T s1 A1 H" "coalesced (all_objects A) s s1" "a_coalesced A A1" "boundary s1 (page + n)"
      and n: "0 < n" "page + n \<le> total_partition_pages s" by (simp_all add: turn_ok_def)
    have "\<exists>s' A'. identify_loop fuel (page + n) s1 = Inr s' \<and> heap_inv T s' A' H \<and>
      coalesced (all_objects A1) s1 s' \<and> a_coalesced A1 A' \<and>
      (\<forall>q. 0 \<le> q \<longrightarrow> q < total_partition_pages s' \<longrightarrow> settled s' A' q)"
      using Suc.prems(2,6) n
      by (intro Suc.IH [OF c(1) _ _ c(4) turn_settles [OF turn Suc.prems(5)]]) (simp_all add: coalesced_fields(2) [OF c(2)])
    then obtain s' A' where 2: "identify_loop fuel (page + n) s1 = Inr s'" "heap_inv T s' A' H"
      "coalesced (all_objects A1) s1 s'" "a_coalesced A1 A'"
      "\<forall>q. 0 \<le> q \<longrightarrow> q < total_partition_pages s' \<longrightarrow> settled s' A' q" by blast
    show ?thesis
      using 2 coalesced_trans [OF c(2) 2(3) a_coalesced_all [OF c(3)]] a_coalesced_trans [OF c(3) 2(4)] r
      by (intro exI [of _ s'] exI [of _ A']) simp
  qed
qed

lemma identify_free_pages_refines:
  assumes I: "heap_inv T s A H"
  shows "\<exists>s' A'. identify_free_pages s = Inr s' \<and> heap_inv T s' A' H \<and>
    coalesced (all_objects A) s s' \<and> a_coalesced A A' \<and>
    (\<forall>q. 0 \<le> q \<longrightarrow> q < total_partition_pages s' \<longrightarrow> settled s' A' q)"
  unfolding identify_free_pages_def
proof (rule identify_loop_refines [OF I])
  show "0 \<le> total_partition_pages s" using heap_invD(1) [OF I] by (simp add: layout_ok_def)
  show "boundary s 0" by (auto simp: boundary_def large_at_def)
qed simp_all

end
