(* ===== verification/Merge_Holes.thy ===== *)
theory Merge_Holes
  imports Coalesce_Loops
begin

text \<open>
  The two loops of coalesce_all_free_pages that work on holes only. coalesce_free_pages
  leaves no page FREE: each maximal run of such pages is a hole afterwards.
  merge_adjacent_holes ends with holes that are maximal: the page after a hole is not
  empty. Neither touches a page or an object of a group.
\<close>

subsection \<open>What may change\<close>

definition holes_step :: "rt_state \<Rightarrow> rt_state \<Rightarrow> bool" where
  "holes_step s s' \<longleftrightarrow>
     s' = s\<lparr>memory := memory s', pages := pages s', empty_pages := empty_pages s'\<rparr> \<and>
     (\<forall>a. a \<notin> hole_cells s (groupless s) \<longrightarrow> memory s' a = memory s a) \<and>
     (\<forall>p. pages s' p \<noteq> pages s p \<longrightarrow> p \<in> groupless s \<and> p \<in> groupless s')"

lemma holes_step_refl [simp]: "holes_step s s"
  by (simp add: holes_step_def)

lemma holes_step_fields:
  assumes "holes_step s s'"
  shows "first_partition_ptr s' = first_partition_ptr s" "total_partition_pages s' = total_partition_pages s"
    "groups s' = groups s" "groupless s' = groupless s" "PAGE_INDEX_TO_PTR s' = PAGE_INDEX_TO_PTR s"
proof -
  have e: "s' = s\<lparr>memory := memory s', pages := pages s', empty_pages := empty_pages s'\<rparr>"
    using assms by (simp add: holes_step_def)
  show f: "first_partition_ptr s' = first_partition_ptr s"
    and t: "total_partition_pages s' = total_partition_pages s" and "groups s' = groups s"
    by (subst e, simp)+
  show "PAGE_INDEX_TO_PTR s' = PAGE_INDEX_TO_PTR s" by (rule page_macros_eq(1) [OF f])
  have "p \<in> groupless s' \<longleftrightarrow> p \<in> groupless s" for p
    using assms t by (cases "pages s' p = pages s p") (auto simp: holes_step_def groupless_def)
  then show "groupless s' = groupless s" by blast
qed

lemma holes_step_trans:
  assumes "holes_step s s'" and "holes_step s' s''"
  shows "holes_step s s''"
proof -
  have e: "s' = s\<lparr>memory := memory s', pages := pages s', empty_pages := empty_pages s'\<rparr>"
    "s'' = s'\<lparr>memory := memory s'', pages := pages s'', empty_pages := empty_pages s''\<rparr>"
    using assms by (simp_all add: holes_step_def)
  have "s'' = s\<lparr>memory := memory s'', pages := pages s'', empty_pages := empty_pages s''\<rparr>"
    by (subst e(2), subst e(1)) simp
  moreover note f = holes_step_fields [OF assms(1)] and f' = holes_step_fields [OF assms(2)]
  have "hole_cells s' (groupless s') = hole_cells s (groupless s)" by (simp add: hole_cells_def f)
  then have "memory s'' a = memory s a" if "a \<notin> hole_cells s (groupless s)" for a
    using assms that by (simp add: holes_step_def)
  moreover have "p \<in> groupless s \<and> p \<in> groupless s''" if "pages s'' p \<noteq> pages s p" for p
  proof (cases "pages s' p = pages s p")
    case True
    then have "p \<in> groupless s'" using that assms(2) by (simp add: holes_step_def)
    then show ?thesis by (simp add: f f')
  next
    case False
    then have "p \<in> groupless s" using assms(1) by (simp add: holes_step_def)
    then show ?thesis by (simp add: f f')
  qed
  ultimately show ?thesis by (simp add: holes_step_def)
qed

lemma holes_step_coalesced:
  assumes "holes_step s s'"
  shows "coalesced Ob s s'"
proof -
  have e: "s' = s\<lparr>memory := memory s', pages := pages s', empty_pages := empty_pages s'\<rparr>"
    using assms by (simp add: holes_step_def)
  have "s' = s\<lparr>memory := memory s', groups := groups s', pages := pages s', empty_pages := empty_pages s'\<rparr>"
    unfolding holes_step_fields(3) [OF assms] by (subst e) simp
  moreover have "pages s' p = pages s p" if "pgroup (pages s' p) = Group i" for p i
    using assms that by (auto simp: holes_step_def groupless_def)
  moreover have "GET_STORAGE_CLASS (memory s') q = GET_STORAGE_CLASS (memory s) q"
    if "q + 8 \<notin> hole_cells s (groupless s')" for q
    using that assms holes_step_fields(4) [OF assms] by (simp add: holes_step_def hdr_defs)
  ultimately show ?thesis
    using assms holes_step_fields(4) [OF assms] by (simp add: coalesced_def holes_step_def)
qed

lemma holes_step_settled:
  assumes "holes_step s s'" and "settled s A q"
  shows "settled s' A q"
proof -
  have e: "pages s' q = pages s q" if "pgroup (pages s' q) = Group i" for i
    using assms(1) that by (auto simp: holes_step_def groupless_def)
  show ?thesis
    unfolding settled_def page_slots_frame [OF holes_step_fields(1) [OF assms(1)]]
    using assms(2) e by (auto simp: settled_def)
qed

subsection \<open>Runs of FREE pages\<close>

lemma init_run:
  assumes I: "heap_inv T s A H" and p: "0 \<le> p" "1 \<le> n" "p + n \<le> total_partition_pages s"
    and fr: "\<And>q. p \<le> q \<Longrightarrow> q < p + n \<Longrightarrow> pgroup (pages s q) = FREE_PAGE"
  obtains s' where "RTinit_empty_pages (c_int p) (c_int n) HEAP_SEGMENT s = Inr s'"
    and "heap_inv T s' A ((p, n) # H)" and "holes_step s s'"
    and "pages s' = clear_pages p (p + n) (pages s)"
proof -
  note d = heap_invD [OF I]
  have N: "total_partition_pages s < 2 ^ 19" using d(1) by (simp add: layout_ok_def)
  then have c: "c_int p = p" "c_int n = n" using p by (simp_all add: c_int_id)
  have fresh: "hole_pages (p, n) \<inter> empty_page_set s = {}"
    using fr by (auto simp: hole_pages_def empty_page_set_def)
  obtain s' where s': "RTinit_empty_pages p n HEAP_SEGMENT s = Inr s'" "holes_ok s' T ((p, n) # H)"
    "s' = s\<lparr>memory := memory s', pages := clear_pages p (p + n) (pages s),
                empty_pages := PAGE_INDEX_TO_PTR s p\<rparr>"
    "\<And>a. a \<notin> hole_cells s {p} \<Longrightarrow> memory s' a = memory s a"
    using RTinit_empty_pages_holes [OF d(1) d(7) p fresh] by metis
  have pg: "pages s' = clear_pages p (p + n) (pages s)" by (subst s'(3)) simp
  have t: "total_partition_pages s' = total_partition_pages s" by (subst s'(3)) simp
  have e: "s' = s\<lparr>memory := memory s', pages := pages s', empty_pages := empty_pages s'\<rparr>"
    unfolding pg by (subst s'(3), subst s'(3)) simp
  have P: "0 \<le> q \<and> q < total_partition_pages s \<and> (\<forall>j. pgroup (pages s q) \<noteq> Group j)"
    if "q \<in> hole_pages (p, n)" for q
    using that fr [of q] p by (simp add: hole_pages_def)
  have I': "heap_inv T s' A ((p, n) # H)"
  proof (rule heap_inv_holes [OF I s'(2) e, where P = "{p}" and Q = "hole_pages (p, n)"])
    fix q assume "q \<in> {p}"
    then show "0 \<le> q \<and> q < total_partition_pages s \<and> (\<forall>j. pgroup (pages s q) \<noteq> Group j)"
      using P [of q] p by (simp add: hole_pages_def)
  next
    fix q assume q: "q \<in> hole_pages (p, n)"
    then show "(\<forall>j. pgroup (pages s q) \<noteq> Group j) \<and> (\<forall>j. pgroup (pages s' q) \<noteq> Group j)"
      using P [OF q] by (simp add: pg clear_pages_eq hole_pages_def)
  next
    fix q assume "q \<notin> hole_pages (p, n)"
    then show "pages s' q = pages s q" by (auto simp: pg clear_pages_eq hole_pages_def)
  qed (rule s'(4))
  have "p \<in> groupless s" using P [of p] p by (simp add: groupless_def hole_pages_def)
  then have "memory s' a = memory s a" if "a \<notin> hole_cells s (groupless s)" for a
    using that by (intro s'(4)) (auto simp: hole_cells_def)
  moreover have "q \<in> groupless s \<and> q \<in> groupless s'" if "pages s' q \<noteq> pages s q" for q
  proof -
    have q: "p \<le> q" "q < p + n" using that by (simp_all add: pg clear_pages_eq split: if_splits)
    then show ?thesis using P [of q] by (simp add: groupless_def hole_pages_def t pg clear_pages_eq)
  qed
  ultimately have "holes_step s s'" using e unfolding holes_step_def by blast
  then show thesis using that s'(1) I' pg c by simp
qed

definition run_at :: "rt_state \<Rightarrow> int \<Rightarrow> int \<Rightarrow> int \<Rightarrow> bool" where
  "run_at s k hole n \<longleftrightarrow>
     (\<forall>q. 0 \<le> q \<longrightarrow> q < k \<longrightarrow> pgroup (pages s q) = FREE_PAGE \<longrightarrow> hole \<noteq> - 1 \<and> hole \<le> q) \<and>
     (hole \<noteq> - 1 \<longrightarrow> 0 \<le> hole \<and> 1 \<le> n \<and> hole + n = k \<and>
        (\<forall>q. hole \<le> q \<longrightarrow> q < k \<longrightarrow> pgroup (pages s q) = FREE_PAGE))"

lemma coalesce_page_refines:
  assumes I: "heap_inv T s A H" and k: "0 \<le> k" "k < total_partition_pages s" and r: "run_at s k hole n"
  shows "\<exists>s' H' hole' n'. coalesce_page k (s, hole, n) = Inr (s', hole', n') \<and> heap_inv T s' A H' \<and>
    holes_step s s' \<and> run_at s' (k + 1) hole' n'"
proof (cases "pgroup (pages s k) = FREE_PAGE")
  case True
  show ?thesis
  proof (cases "hole = - 1")
    case h: True
    have "run_at s (k + 1) k 1"
      using r h True k unfolding run_at_def by (smt (verit))
    then show ?thesis using True h I by (auto simp: coalesce_page_def)
  next
    case h: False
    have "run_at s (k + 1) hole (n + 1)"
      using r h True k unfolding run_at_def by (smt (verit))
    then show ?thesis using True h I by (auto simp: coalesce_page_def)
  qed
next
  case nf: False
  show ?thesis
  proof (cases "hole = - 1")
    case h: True
    have "run_at s (k + 1) (- 1) n"
      using r h nf k unfolding run_at_def by (smt (verit))
    then show ?thesis using nf h I by (auto simp: coalesce_page_def)
  next
    case h: False
    have b: "0 \<le> hole" "1 \<le> n" "hole + n = k" "hole + n \<le> total_partition_pages s"
      "\<And>q. hole \<le> q \<Longrightarrow> q < hole + n \<Longrightarrow> pgroup (pages s q) = FREE_PAGE"
      using r h k by (auto simp: run_at_def)
    obtain s' where s': "RTinit_empty_pages (c_int hole) (c_int n) HEAP_SEGMENT s = Inr s'"
      "heap_inv T s' A ((hole, n) # H)" "holes_step s s'" "pages s' = clear_pages hole (hole + n) (pages s)"
      by (rule init_run [OF I b(1,2,4,5)])
    have "pgroup (pages s' q) \<noteq> FREE_PAGE" if q: "0 \<le> q" "q < k + 1" for q
    proof
      assume f: "pgroup (pages s' q) = FREE_PAGE"
      then have o: "\<not> (hole \<le> q \<and> q < hole + n)" "pgroup (pages s q) = FREE_PAGE"
        by (auto simp: s'(4) clear_pages_eq split: if_splits)
      then have "q \<noteq> k" using nf by blast
      then have "hole \<le> q" using r q o(2) unfolding run_at_def by (smt (verit))
      then show False using o(1) b(3) q \<open>q \<noteq> k\<close> by simp
    qed
    then have "run_at s' (k + 1) (- 1) 0" by (auto simp: run_at_def)
    then show ?thesis using nf h s' by (auto simp: coalesce_page_def)
  qed
qed

lemma coalesce_loop_refines:
  assumes "heap_inv T s A H" and "0 \<le> k" and "run_at s k hole n" and "nat (total_partition_pages s - k) = m"
    and "k \<le> total_partition_pages s"
  shows "\<exists>s' H' hole' n'. rfold coalesce_page [k..total_partition_pages s - 1] (s, hole, n) = Inr (s', hole', n') \<and>
    heap_inv T s' A H' \<and> holes_step s s' \<and> run_at s' (total_partition_pages s) hole' n'"
  using assms
proof (induction m arbitrary: s H k hole n)
  case 0
  then have "k = total_partition_pages s" by simp
  then show ?case using 0 by (intro exI [of _ s] exI [of _ H] exI [of _ hole] exI [of _ n]) simp
next
  case (Suc m)
  let ?N = "total_partition_pages s"
  have k: "k < ?N" using Suc.prems(4) by simp
  obtain s1 H1 hole1 n1 where 1: "coalesce_page k (s, hole, n) = Inr (s1, hole1, n1)" "heap_inv T s1 A H1"
    "holes_step s s1" "run_at s1 (k + 1) hole1 n1"
    using coalesce_page_refines [OF Suc.prems(1,2) k Suc.prems(3)] by blast
  have t: "total_partition_pages s1 = ?N" by (rule holes_step_fields(2) [OF 1(3)])
  have "\<exists>s' H' hole' n'. rfold coalesce_page [k + 1..total_partition_pages s1 - 1] (s1, hole1, n1) = Inr (s', hole', n') \<and>
    heap_inv T s' A H' \<and> holes_step s1 s' \<and> run_at s' (total_partition_pages s1) hole' n'"
    using Suc.prems(2,4) k by (intro Suc.IH [OF 1(2) _ 1(4)]) (simp_all add: t)
  then obtain s' H' hole' n' where 2: "rfold coalesce_page [k + 1..?N - 1] (s1, hole1, n1) = Inr (s', hole', n')"
    "heap_inv T s' A H'" "holes_step s1 s'" "run_at s' ?N hole' n'" unfolding t by blast
  have "[k..?N - 1] = k # [k + 1..?N - 1]" using k by (simp add: upto_rec1)
  then show ?case
    using 1(1) 2 holes_step_trans [OF 1(3) 2(3)]
    by (intro exI [of _ s'] exI [of _ H'] exI [of _ hole'] exI [of _ n']) simp
qed

text \<open>coalesce_free_pages: no page is FREE afterwards.\<close>

lemma coalesce_free_pages_refines:
  assumes I: "heap_inv T s A H"
  shows "\<exists>s' H'. coalesce_free_pages s = Inr s' \<and> heap_inv T s' A H' \<and> holes_step s s' \<and>
    (\<forall>q. 0 \<le> q \<longrightarrow> q < total_partition_pages s' \<longrightarrow> pgroup (pages s' q) \<noteq> FREE_PAGE)"
proof -
  let ?N = "total_partition_pages s"
  have N: "0 \<le> ?N" using heap_invD(1) [OF I] by (simp add: layout_ok_def)
  have "run_at s 0 (- 1) 0" by (simp add: run_at_def)
  then obtain s1 H1 hole n where 1: "rfold coalesce_page [0..?N - 1] (s, - 1, 0) = Inr (s1, hole, n)"
    "heap_inv T s1 A H1" "holes_step s s1" "run_at s1 ?N hole n"
    using coalesce_loop_refines [OF I _ _ refl N, of "- 1" 0] by auto
  have t: "total_partition_pages s1 = ?N" by (rule holes_step_fields(2) [OF 1(3)])
  show ?thesis
  proof (cases "hole = - 1")
    case True
    then have "pgroup (pages s1 q) \<noteq> FREE_PAGE" if "0 \<le> q" "q < ?N" for q
      using 1(4) that by (auto simp: run_at_def)
    then show ?thesis
      using 1 True by (intro exI [of _ s1] exI [of _ H1]) (simp add: coalesce_free_pages_def t)
  next
    case False
    then have b: "0 \<le> hole" "1 \<le> n" "hole + n = ?N" "hole + n \<le> total_partition_pages s1"
      "\<And>q. hole \<le> q \<Longrightarrow> q < hole + n \<Longrightarrow> pgroup (pages s1 q) = FREE_PAGE"
      using 1(4) t by (auto simp: run_at_def)
    obtain s' where s': "RTinit_empty_pages (c_int hole) (c_int n) HEAP_SEGMENT s1 = Inr s'"
      "heap_inv T s' A ((hole, n) # H1)" "holes_step s1 s'" "pages s' = clear_pages hole (hole + n) (pages s1)"
      by (rule init_run [OF 1(2) b(1,2,4,5)])
    have t': "total_partition_pages s' = ?N" using holes_step_fields(2) [OF s'(3)] t by simp
    have "pgroup (pages s' q) \<noteq> FREE_PAGE" if q: "0 \<le> q" "q < ?N" for q
    proof
      assume f: "pgroup (pages s' q) = FREE_PAGE"
      then have o: "\<not> (hole \<le> q \<and> q < hole + n)" "pgroup (pages s1 q) = FREE_PAGE"
        by (auto simp: s'(4) clear_pages_eq split: if_splits)
      then have "hole \<le> q" using 1(4) q by (auto simp: run_at_def)
      then show False using o(1) b(3) q by simp
    qed
    then show ?thesis
      using 1(1) s' False holes_step_trans [OF 1(3) s'(3)] t'
      by (intro exI [of _ s'] exI [of _ "(hole, n) # H1"]) (simp add: coalesce_free_pages_def)
  qed
qed

subsection \<open>Merging\<close>

text \<open>
  While holes are merged, the list keeps its first pages \<open>P\<close> and the counts \<open>c\<close> change: a hole
  that was swallowed has count 0.
\<close>

definition with_counts :: "int list \<Rightarrow> (int \<Rightarrow> int) \<Rightarrow> hole list" where
  "with_counts P c = map (\<lambda>p. (p, c p)) P"

lemma with_counts_simps [simp]:
  "with_counts [] c = []" "with_counts (p # P) c = (p, c p) # with_counts P c"
  "with_counts (P @ Q) c = with_counts P c @ with_counts Q c"
  "map (hole_addr s) (with_counts P c) = map (PAGE_INDEX_TO_PTR s) P"
  by (simp_all add: with_counts_def)

definition loose :: "rt_state \<Rightarrow> int list \<Rightarrow> (int \<Rightarrow> int) \<Rightarrow> bool" where
  "loose s P c \<longleftrightarrow>
     distinct P \<and>
     (\<forall>p\<in>set P. p \<in> empty_page_set s \<and> 0 \<le> c p \<and> p + c p \<le> total_partition_pages s) \<and>
     (\<forall>p\<in>set P. \<forall>q\<in>set P. p \<noteq> q \<longrightarrow> {p..<p + c p} \<inter> {q..<q + c q} = {}) \<and>
     (\<Union>p\<in>set P. {p..<p + c p}) = empty_page_set s \<and>
     empty_pages s = hd_or (map (PAGE_INDEX_TO_PTR s) P) 0 \<and> hole_seg s (memory s) (with_counts P c) 0"

lemma looseD:
  assumes "loose s P c"
  shows "distinct P" "p \<in> set P \<Longrightarrow> p \<in> empty_page_set s" "p \<in> set P \<Longrightarrow> 0 \<le> c p"
    "p \<in> set P \<Longrightarrow> p + c p \<le> total_partition_pages s"
    "p \<in> set P \<Longrightarrow> q \<in> set P \<Longrightarrow> p \<noteq> q \<Longrightarrow> {p..<p + c p} \<inter> {q..<q + c q} = {}"
    "(\<Union>p\<in>set P. {p..<p + c p}) = empty_page_set s"
    "empty_pages s = hd_or (map (PAGE_INDEX_TO_PTR s) P) 0" "hole_seg s (memory s) (with_counts P c) 0"
    "p \<in> set P \<Longrightarrow> 0 \<le> p" "p \<in> set P \<Longrightarrow> p < total_partition_pages s"
  using assms by (auto simp: loose_def empty_page_set_def)

definition count_of :: "hole list \<Rightarrow> int \<Rightarrow> int" where
  "count_of H p = (case map_of H p of None \<Rightarrow> 0 | Some n \<Rightarrow> n)"

lemma with_counts_of: "distinct (map fst H) \<Longrightarrow> with_counts (map fst H) (count_of H) = H"
proof (induction H)
  case (Cons h H)
  have "with_counts (map fst H) (count_of (h # H)) = with_counts (map fst H) (count_of H)"
    unfolding with_counts_def
  proof (rule map_cong [OF refl])
    fix p assume "p \<in> set (map fst H)"
    then have "p \<noteq> fst h" using Cons.prems by (metis distinct.simps(2) list.simps(9))
    then show "(p, count_of (h # H) p) = (p, count_of H p)" by (cases h) (simp add: count_of_def)
  qed
  moreover have "count_of (h # H) (fst h) = snd h" by (cases h) (simp add: count_of_def)
  ultimately show ?case using Cons by simp
qed simp

lemma count_of_eq: "distinct (map fst H) \<Longrightarrow> h \<in> set H \<Longrightarrow> count_of H (fst h) = snd h"
  by (cases h) (simp add: count_of_def)

lemma holes_loose:
  assumes "holes_ok s {} H"
  shows "loose s (map fst H) (count_of H)"
proof -
  note d = holes_okD [OF assms]
  note c = count_of_eq [OF d(4)]
  have hp: "{fst h..<fst h + count_of H (fst h)} = hole_pages h" if "h \<in> set H" for h
    using c [OF that] by (simp add: hole_pages_def)
  have U: "(\<Union>p\<in>set (map fst H). {p..<p + count_of H p}) = empty_page_set s"
    using hp by (simp add: d(6))
  have em: "fst h \<in> empty_page_set s" if "h \<in> set H" for h
    using that d(2) [OF that] unfolding d(6) by (auto simp: hole_pages_def intro!: bexI [of _ h])
  have dj: "{p..<p + count_of H p} \<inter> {q..<q + count_of H q} = {}"
    if pq: "p \<in> set (map fst H)" "q \<in> set (map fst H)" "p \<noteq> q" for p q
  proof -
    obtain h k where "h \<in> set H" "k \<in> set H" "p = fst h" "q = fst k" using pq by auto
    then show ?thesis using d(9) [of h k] pq(3) hp by auto
  qed
  have b: "p \<in> empty_page_set s \<and> 0 \<le> count_of H p \<and> p + count_of H p \<le> total_partition_pages s"
    if p: "p \<in> set (map fst H)" for p
  proof -
    obtain h where h: "h \<in> set H" "p = fst h" using p by auto
    show ?thesis using em [OF h(1)] c [OF h(1)] d(2,3) [OF h(1)] h(2) by simp
  qed
  have m: "map (PAGE_INDEX_TO_PTR s) (map fst H) = map (hole_addr s) H" by simp
  show ?thesis
    unfolding loose_def with_counts_of [OF d(4)] U m
    using d(4,7,8) b dj by simp
qed

lemma loose_holes:
  assumes "loose s P c" and "\<And>p. p \<in> set P \<Longrightarrow> 0 < c p"
  shows "holes_ok s {} (with_counts P c)"
proof -
  note d = looseD [OF assms(1)]
  have U: "(\<Union>h\<in>set (with_counts P c). hole_pages h) = empty_page_set s"
    using d(6) by (simp add: with_counts_def hole_pages_def)
  have f: "map fst (with_counts P c) = P" by (simp add: with_counts_def comp_def)
  have dj: "hole_pages h \<inter> hole_pages k = {}"
    if hk: "h \<in> set (with_counts P c)" "k \<in> set (with_counts P c)" "h \<noteq> k" for h k
  proof -
    obtain p q where e: "p \<in> set P" "q \<in> set P" "h = (p, c p)" "k = (q, c q)"
      using hk(1,2) by (auto simp: with_counts_def)
    then have "p \<noteq> q" using hk(3) by auto
    then show ?thesis using d(5) [OF e(1,2)] e(3,4) by (simp add: hole_pages_def)
  qed
  have b: "0 \<le> fst h \<and> 1 \<le> snd h \<and> fst h + snd h \<le> total_partition_pages s"
    if h: "h \<in> set (with_counts P c)" for h
  proof -
    obtain p where e: "p \<in> set P" "h = (p, c p)" using h by (auto simp: with_counts_def)
    show ?thesis using d(4,9) [OF e(1)] assms(2) [OF e(1)] e(2) by simp
  qed
  show ?thesis
    unfolding holes_ok_def holes_disjoint_def U f
    using b dj d(1,7,8) by simp
qed

text \<open>Writing one count.\<close>

lemma hole_seg_set_count:
  assumes lay: "layout_ok s" and P: "\<And>q. q \<in> set P \<Longrightarrow> 0 \<le> q \<and> q < total_partition_pages s"
    and p: "0 \<le> p" "p < total_partition_pages s" and seg: "hole_seg s m (with_counts P c) e"
  shows "hole_seg s (set_hole_count m (PAGE_INDEX_TO_PTR s p) v) (with_counts P (c(p := v))) e"
  using P seg
proof (induction P)
  case (Cons q P)
  have q: "0 \<le> q" "q < total_partition_pages s" using Cons.prems(1) [of q] by simp_all
  have "PAGE_INDEX_TO_PTR s q + 8 \<noteq> PAGE_INDEX_TO_PTR s p"
    using page_ptr_neq_plus_8 [OF lay, of p q] p q by simp
  moreover have "PAGE_INDEX_TO_PTR s q = PAGE_INDEX_TO_PTR s p \<longleftrightarrow> q = p"
    by (rule page_ptr_inj [OF lay q p])
  ultimately show ?case
    using Cons by (auto simp: set_hole_count_def hole_next_def)
qed simp

lemma hole_seg_count:
  assumes "hole_seg s m (with_counts P c) e" and "p \<in> set P" and "0 \<le> c p" and "c p < 2 ^ 31"
  shows "hole_page_count m (PAGE_INDEX_TO_PTR s p) = c p"
proof -
  have "m (PAGE_INDEX_TO_PTR s p) = word_of_int (c p)"
    using assms(1,2) by (induction P) auto
  then show ?thesis using hole_page_count_small [of m s "(p, c p)"] assms(3,4) by simp
qed

lemma hole_seg_next:
  assumes "hole_seg s m (with_counts (P @ p # Q) c) e"
  shows "hole_next m (PAGE_INDEX_TO_PTR s p) = hd_or (map (PAGE_INDEX_TO_PTR s) Q) e"
  using assms by simp

definition merged :: "rt_state \<Rightarrow> rt_state \<Rightarrow> bool" where
  "merged s s' \<longleftrightarrow> s' = s\<lparr>memory := memory s', empty_pages := empty_pages s'\<rparr> \<and>
     (\<forall>a. a \<notin> hole_cells s (empty_page_set s) \<longrightarrow> memory s' a = memory s a)"

lemma merged_refl [simp]: "merged s s"
  by (simp add: merged_def)

lemma merged_fields:
  assumes "merged s s'"
  shows "pages s' = pages s" "total_partition_pages s' = total_partition_pages s"
    "PAGE_INDEX_TO_PTR s' = PAGE_INDEX_TO_PTR s" "PTR_TO_PAGE_INDEX s' = PTR_TO_PAGE_INDEX s"
    "empty_page_set s' = empty_page_set s" "layout_ok s' = layout_ok s"
    "hole_seg s' m H e = hole_seg s m H e"
proof -
  have e: "s' = s\<lparr>memory := memory s', empty_pages := empty_pages s'\<rparr>" using assms by (simp add: merged_def)
  have f: "first_partition_ptr s' = first_partition_ptr s" by (subst e) simp
  show p: "pages s' = pages s" and t: "total_partition_pages s' = total_partition_pages s"
    by (subst e, simp)+
  show "PAGE_INDEX_TO_PTR s' = PAGE_INDEX_TO_PTR s" "PTR_TO_PAGE_INDEX s' = PTR_TO_PAGE_INDEX s"
    by (rule page_macros_eq [OF f])+
  show "empty_page_set s' = empty_page_set s" by (simp add: empty_page_set_def p t)
  have "last_partition_ptr s' = last_partition_ptr s" by (subst e) simp
  then show "layout_ok s' = layout_ok s" by (simp add: layout_ok_def f t)
  show "hole_seg s' m H e = hole_seg s m H e" by (rule hole_seg_eq [OF f])
qed

lemma merged_trans:
  assumes "merged s s'" and "merged s' s''"
  shows "merged s s''"
proof -
  have e: "s' = s\<lparr>memory := memory s', empty_pages := empty_pages s'\<rparr>"
    "s'' = s'\<lparr>memory := memory s'', empty_pages := empty_pages s''\<rparr>"
    using assms by (simp_all add: merged_def)
  have "s'' = s\<lparr>memory := memory s'', empty_pages := empty_pages s''\<rparr>"
    by (subst e(2), subst e(1)) simp
  then show ?thesis
    using assms merged_fields [OF assms(1)] by (simp add: merged_def hole_cells_def)
qed

text \<open>A hole is closed when the page after it is not empty. Swallowed holes count as closed.\<close>

definition closed_hole :: "rt_state \<Rightarrow> (int \<Rightarrow> int) \<Rightarrow> int \<Rightarrow> bool" where
  "closed_hole s c p \<longleftrightarrow> (0 < c p \<longrightarrow> p + c p \<notin> empty_page_set s)"

definition swallowed :: "int list \<Rightarrow> (int \<Rightarrow> int) \<Rightarrow> int" where
  "swallowed P c = int (length (filter (\<lambda>p. c p = 0) P))"

lemma adjacent_hole:
  assumes L: "loose s P c" and p: "p \<in> set P" "0 < c p" and e: "p + c p \<in> empty_page_set s"
  shows "p + c p \<in> set P" and "0 < c (p + c p)"
proof -
  note d = looseD [OF L]
  have "p + c p \<in> (\<Union>q\<in>set P. {q..<q + c q})" using e by (simp only: d(6))
  then obtain q where q: "q \<in> set P" "p + c p \<in> {q..<q + c q}" by blast
  have pq: "p \<noteq> q" using q(2) by auto
  have "q = p + c p"
  proof (rule ccontr)
    assume "q \<noteq> p + c p"
    then have "max p q \<in> {p..<p + c p} \<inter> {q..<q + c q}" using q(2) p(2) by auto
    then show False using d(5) [OF p(1) q(1) pq] by auto
  qed
  then show "p + c p \<in> set P" and "0 < c (p + c p)" using q by auto
qed

lemma loose_small:
  assumes "layout_ok s" and "loose s P c" and "p \<in> set P"
  shows "c p < 2 ^ 19" and "p + c p < 2 ^ 31"
  using looseD(3,4,9) [OF assms(2,3)] assms(1) by (simp_all add: layout_ok_def)

lemma length_filter_one_more:
  assumes "distinct P" and "q \<in> set P" and "\<not> R q"
  shows "length (filter (\<lambda>r. R r \<or> r = q) P) = Suc (length (filter R P))"
proof -
  obtain us vs where P: "P = us @ q # vs" using assms(2) by (meson split_list)
  have "filter (\<lambda>r. R r \<or> r = q) us = filter R us" "filter (\<lambda>r. R r \<or> r = q) vs = filter R vs"
    using assms(1) by (auto simp: P intro!: filter_cong)
  then show ?thesis using assms(3) by (simp add: P)
qed

text \<open>One swallowing: \<open>c\<close> becomes \<open>c'\<close>, and the pages covered stay the same.\<close>

definition swallow :: "(int \<Rightarrow> int) \<Rightarrow> int \<Rightarrow> int \<Rightarrow> int" where
  "swallow c p = c(p := c p + c (p + c p), p + c p := 0)"

lemma swallow_pages:
  assumes "0 < c p" and "0 \<le> c (p + c p)"
  shows "{r..<r + swallow c p r} =
    (if r = p then {p..<p + c p} \<union> {p + c p..<p + c p + c (p + c p)} else if r = p + c p then {} else {r..<r + c r})"
  using assms by (auto simp: swallow_def)

lemma swallow_disjoint:
  assumes dj: "\<And>r t. r \<in> P \<Longrightarrow> t \<in> P \<Longrightarrow> r \<noteq> t \<Longrightarrow> {r..<r + c r} \<inter> {t..<t + c t} = {}"
    and p: "p \<in> P" "0 < c p" and q: "p + c p \<in> P" "0 \<le> c (p + c p)" and rt: "r \<in> P" "t \<in> P" "r \<noteq> t"
  shows "{r..<r + swallow c p r} \<inter> {t..<t + swallow c p t} = {}"
proof -
  note new = swallow_pages [where c = c, OF p(2) q(2)]
  have *: "{p..<p + swallow c p p} \<inter> {t..<t + swallow c p t} = {}" if t: "t \<in> P" "t \<noteq> p" for t
    using dj [OF p(1) t(1)] dj [OF q(1) t(1)] t(2) unfolding new by auto
  show ?thesis
  proof (cases "r = p \<or> t = p")
    case True
    then show ?thesis using * [of r] * [of t] rt by blast
  next
    case False
    then show ?thesis using dj [OF rt] unfolding new by auto
  qed
qed

lemma swallow_union:
  assumes p: "p \<in> P" "0 < c p" and q: "p + c p \<in> P" "0 \<le> c (p + c p)"
  shows "(\<Union>r\<in>P. {r..<r + swallow c p r}) = (\<Union>r\<in>P. {r..<r + c r})"
proof (rule set_eqI)
  fix x :: int
  note new = swallow_pages [where c = c, OF p(2) q(2)]
  have three: "(\<exists>r\<in>P. x \<in> (if r = p then X \<union> Y else if r = q then {} else Z r)) \<longleftrightarrow>
      x \<in> X \<or> x \<in> Y \<or> (\<exists>r\<in>P. r \<noteq> p \<and> r \<noteq> q \<and> x \<in> Z r)" for X Y Z q
    using p(1) by (auto split: if_splits)
  have "(\<exists>r\<in>P. x \<in> {r..<r + swallow c p r}) \<longleftrightarrow>
      x \<in> {p..<p + c p} \<or> x \<in> {p + c p..<p + c p + c (p + c p)} \<or> (\<exists>r\<in>P. r \<noteq> p \<and> r \<noteq> p + c p \<and> x \<in> {r..<r + c r})"
    unfolding new by (rule three)
  also have "\<dots> \<longleftrightarrow> (\<exists>r\<in>P. x \<in> {r..<r + c r})" using p(1) q(1) by metis
  finally show "x \<in> (\<Union>r\<in>P. {r..<r + swallow c p r}) \<longleftrightarrow> x \<in> (\<Union>r\<in>P. {r..<r + c r})" by simp
qed

lemma swallow_swallowed:
  assumes "distinct P" and "p + c p \<in> set P" and "0 < c p" "0 < c (p + c p)"
  shows "swallowed P (swallow c p) = swallowed P c + 1"
proof -
  have "filter (\<lambda>r. swallow c p r = 0) P = filter (\<lambda>r. c r = 0 \<or> r = p + c p) P"
    using assms(3,4) by (intro filter_cong refl) (auto simp: swallow_def)
  moreover have "length (filter (\<lambda>r. c r = 0 \<or> r = p + c p) P) = Suc (length (filter (\<lambda>r. c r = 0) P))"
    using length_filter_one_more [OF assms(1,2), of "\<lambda>r. c r = 0"] assms(4) by simp
  ultimately show ?thesis by (simp add: swallowed_def)
qed

lemma merge_step:
  assumes lay: "layout_ok s" and L: "loose s P c" and p: "p \<in> set P" "0 < c p"
    and e: "p + c p \<in> empty_page_set s"
  defines "q \<equiv> p + c p"
  defines "c' \<equiv> c(p := c p + c q, q := 0)"
    and "m1 \<equiv> set_hole_count (memory s) (PAGE_INDEX_TO_PTR s p)
      (hole_page_count (memory s) (PAGE_INDEX_TO_PTR s p) + hole_page_count (memory s) (PAGE_INDEX_TO_PTR s q))"
  defines "s' \<equiv> s\<lparr>memory := set_hole_count m1 (PAGE_INDEX_TO_PTR s q) 0\<rparr>"
  shows "loose s' P c'" and "merged s s'" and "swallowed P c' = swallowed P c + 1"
    and "c' p = c p + c q" and "0 < c q" and "q \<in> set P"
proof -
  note d = looseD [OF L] and q = adjacent_hole [OF L p e, folded q_def]
  have c': "c' = swallow c p" by (simp add: c'_def q_def swallow_def)
  have q': "p + c p \<in> set P" "0 \<le> c (p + c p)" using q by (simp_all add: q_def)
  have pq: "p \<noteq> q" using p(2) by (simp add: q_def)
  have cnt: "hole_page_count (memory s) (PAGE_INDEX_TO_PTR s p) = c p"
    "hole_page_count (memory s) (PAGE_INDEX_TO_PTR s q) = c q"
    using hole_seg_count [OF d(8) p(1) d(3) [OF p(1)]] hole_seg_count [OF d(8) q(1) d(3) [OF q(1)]]
      loose_small(1) [OF lay L p(1)] loose_small(1) [OF lay L q(1)] by simp_all
  have b: "0 \<le> p" "p < total_partition_pages s" "0 \<le> q" "q < total_partition_pages s"
    using d(9,10) p(1) q(1) by simp_all
  have "memory s' = set_hole_count (set_hole_count (memory s) (PAGE_INDEX_TO_PTR s p) (c p + c q))
      (PAGE_INDEX_TO_PTR s q) 0"
    by (simp add: s'_def m1_def cnt)
  then have seg: "hole_seg s (memory s') (with_counts P c') 0"
    unfolding c'_def
    using hole_seg_set_count [OF lay _ b(3,4) hole_seg_set_count [OF lay _ b(1,2) d(8)]] d(9,10) by simp
  have fr: "memory s' a = memory s a" if "a \<notin> hole_cells s (empty_page_set s)" for a
    using that d(2) [OF p(1)] d(2) [OF q(1)]
    by (auto simp: s'_def m1_def set_hole_count_def hole_cells_def)
  show M: "merged s s'" unfolding merged_def using fr by (simp add: s'_def)
  note f = merged_fields [OF M]
  have e1: "empty_pages s' = empty_pages s" by (simp add: s'_def)
  have U: "(\<Union>r\<in>set P. {r..<r + c' r}) = empty_page_set s"
    unfolding c' swallow_union [where c = c, OF p q'] by (rule d(6))
  have bd: "r \<in> empty_page_set s \<and> 0 \<le> c' r \<and> r + c' r \<le> total_partition_pages s" if r: "r \<in> set P" for r
    using d(2-4) [OF r] d(3,4) [OF q(1)] p(2) pq by (simp add: c'_def q_def)
  show "loose s' P c'"
    unfolding loose_def f e1
  proof (intro conjI ballI impI)
    fix r assume r: "r \<in> set P"
    show "r \<in> empty_page_set s" "0 \<le> c' r" "r + c' r \<le> total_partition_pages s" using bd [OF r] by blast+
    fix t assume t: "t \<in> set P" "r \<noteq> t"
    show "{r..<r + c' r} \<inter> {t..<t + c' t} = {}"
      unfolding c' by (rule swallow_disjoint [where P = "set P" and c = c, OF _ p q' r t]) (rule d(5))
  qed (rule d(1) U d(7) seg)+
  show "swallowed P c' = swallowed P c + 1"
    unfolding c' using swallow_swallowed [where c = c, OF d(1) q'(1) p(2)] q by (simp add: q_def)
  show "c' p = c p + c q" using pq by (simp add: c'_def)
  show "0 < c q" "q \<in> set P" by (rule q)+
qed

text \<open>Merging one hole with all that follow it.\<close>

definition swallows :: "int list \<Rightarrow> (int \<Rightarrow> int) \<Rightarrow> (int \<Rightarrow> int) \<Rightarrow> int \<Rightarrow> bool" where
  "swallows P c c' p \<longleftrightarrow> 0 < c' p \<and> (\<forall>q. q \<noteq> p \<longrightarrow> c' q = c q \<or> c' q = 0)"

lemma merge_hole_refines:
  assumes "layout_ok s" and "loose s P c" and "p \<in> set P" and "0 < c p"
    and "nat (total_partition_pages s - (p + c p)) < fuel"
  shows "\<exists>s' c'. merge_hole fuel p (PAGE_INDEX_TO_PTR s p) n s = Inr (s', n + (swallowed P c' - swallowed P c)) \<and>
    loose s' P c' \<and> merged s s' \<and> swallows P c c' p \<and> closed_hole s' c' p"
  using assms
proof (induction fuel arbitrary: s c n)
  case 0
  then show ?case by simp
next
  case (Suc fuel)
  note lay = Suc.prems(1) and L = Suc.prems(2) and p = Suc.prems(3,4)
  note d = looseD [OF L]
  let ?a = "PAGE_INDEX_TO_PTR s p" and ?e = "p + c p"
  have cnt: "hole_page_count (memory s) ?a = c p"
    using hole_seg_count [OF d(8) p(1) d(3) [OF p(1)]] loose_small(1) [OF lay L p(1)] by simp
  have ce: "c_int ?e = ?e"
    using loose_small(2) [OF lay L p(1)] d(9) [OF p(1)] p(2) by (simp add: c_int_id)
  have empty: "?e \<in> empty_page_set s \<longleftrightarrow> ?e < total_partition_pages s \<and> pgroup (pages s ?e) = EMPTY_PAGE"
    using d(9) [OF p(1)] p(2) by (simp add: empty_page_set_def)
  show ?case
  proof (cases "?e \<in> empty_page_set s")
    case False
    then have "merge_hole (Suc fuel) p ?a n s = Inr (s, n)"
      unfolding merge_hole.simps cnt ce Let_def by (simp only: empty [symmetric] if_False)
    moreover have "closed_hole s c p" using False by (simp add: closed_hole_def)
    moreover have "swallows P c c p" using p(2) by (simp add: swallows_def)
    ultimately show ?thesis using L
      by (intro exI [of _ s] exI [of _ c]) simp
  next
    case True
    let ?c1 = "c(p := c p + c ?e, ?e := 0)"
    let ?m1 = "set_hole_count (memory s) ?a
      (hole_page_count (memory s) ?a + hole_page_count (memory s) (PAGE_INDEX_TO_PTR s ?e))"
    let ?s1 = "s\<lparr>memory := set_hole_count ?m1 (PAGE_INDEX_TO_PTR s ?e) 0\<rparr>"
    note M = merge_step [OF lay L p True]
    note f = merged_fields [OF M(2)]
    have eq: "merge_hole (Suc fuel) p ?a n s = merge_hole fuel p ?a (n + 1) ?s1"
      unfolding merge_hole.simps cnt ce Let_def using True by (simp only: empty [symmetric] if_True)
    have "\<exists>s' c'. merge_hole fuel p (PAGE_INDEX_TO_PTR ?s1 p) (n + 1) ?s1 =
        Inr (s', n + 1 + (swallowed P c' - swallowed P ?c1)) \<and>
      loose s' P c' \<and> merged ?s1 s' \<and> swallows P ?c1 c' p \<and> closed_hole s' c' p"
    proof (rule Suc.IH [OF _ M(1) p(1)])
      show "layout_ok ?s1" using lay f(6) by blast
      show "0 < ?c1 p" using M(4,5) p(2) by simp
      show "nat (total_partition_pages ?s1 - (p + ?c1 p)) < fuel"
        using M(4,5) Suc.prems(5) looseD(4) [OF M(1) p(1)] f(2) by simp
    qed
    then obtain s' c' where 2: "merge_hole fuel p ?a (n + 1) ?s1 = Inr (s', n + 1 + (swallowed P c' - swallowed P ?c1))"
      "loose s' P c'" "merged ?s1 s'" "swallows P ?c1 c' p" "closed_hole s' c' p"
      unfolding f(3) by blast
    have "swallows P c c' p"
      using 2(4) unfolding swallows_def by (metis fun_upd_apply)
    then show ?thesis
      using 2 eq M(3) merged_trans [OF M(2) 2(3)] by (intro exI [of _ s'] exI [of _ c']) simp
  qed
qed

text \<open>The walk over all holes.\<close>

lemma closed_hole_swallows:
  "closed_hole s c q \<Longrightarrow> swallows P c c' p \<Longrightarrow> q \<noteq> p \<Longrightarrow> empty_page_set s' = empty_page_set s \<Longrightarrow>
   closed_hole s' c' q"
  unfolding closed_hole_def swallows_def by (metis less_irrefl)

lemma merge_loop_refines:
  assumes "layout_ok s" and "loose s P c" and "P = Q @ R"
    and "\<And>q. q \<in> set Q \<Longrightarrow> closed_hole s c q" and "length R < fuel"
  shows "\<exists>s' c'. merge_loop fuel (hd_or (map (PAGE_INDEX_TO_PTR s) R) 0) n s =
      Inr (s', n + (swallowed P c' - swallowed P c)) \<and>
    loose s' P c' \<and> merged s s' \<and> (\<forall>q\<in>set P. closed_hole s' c' q)"
  using assms
proof (induction R arbitrary: s c Q n fuel)
  case Nil
  then obtain f where "fuel = Suc f" by (cases fuel) auto
  then show ?case using Nil by (intro exI [of _ s] exI [of _ c]) simp
next
  case (Cons p R)
  then obtain f where f: "fuel = Suc f" "length R < f" by (cases fuel) auto
  note lay = Cons.prems(1) and L = Cons.prems(2) and P = Cons.prems(3)
  note d = looseD [OF L]
  let ?a = "PAGE_INDEX_TO_PTR s p"
  have p: "p \<in> set P" using P by simp
  have b: "0 \<le> p" "p < total_partition_pages s" "total_partition_pages s < 2 ^ 19"
    using d(9,10) [OF p] lay by (simp_all add: layout_ok_def)
  have a0: "?a \<noteq> 0" using page_ptr_not_0 [OF lay b(1)] b(2) by simp
  have cnt: "hole_page_count (memory s) ?a = c p"
    using hole_seg_count [OF d(8) p d(3) [OF p]] loose_small(1) [OF lay L p] by simp
  have start: "c_int (PTR_TO_PAGE_INDEX s ?a) = p"
    using page_index_roundtrip [OF lay b(1,2)] b by (simp add: c_int_id)
  have "\<exists>s1 c1. (if 0 < hole_page_count (memory s) ?a then
        merge_hole (nat (total_partition_pages s) + 1) (c_int (PTR_TO_PAGE_INDEX s ?a)) ?a n s
      else Inr (s, n)) = Inr (s1, n + (swallowed P c1 - swallowed P c)) \<and>
    loose s1 P c1 \<and> merged s s1 \<and> (\<forall>q\<in>set (Q @ [p]). closed_hole s1 c1 q)"
  proof (cases "0 < c p")
    case True
    have fu: "nat (total_partition_pages s - (p + c p)) < nat (total_partition_pages s) + 1"
      using b True by simp
    obtain s1 c1 where 1: "merge_hole (nat (total_partition_pages s) + 1) p ?a n s =
        Inr (s1, n + (swallowed P c1 - swallowed P c))" "loose s1 P c1" "merged s s1" "swallows P c c1 p"
        "closed_hole s1 c1 p"
      using merge_hole_refines [OF lay L p True fu] by blast
    have "closed_hole s1 c1 q" if "q \<in> set Q" for q
      using closed_hole_swallows [OF Cons.prems(4) [OF that] 1(4)] d(1) that merged_fields(5) [OF 1(3)] P
      by auto
    then show ?thesis using 1 True start cnt by (intro exI [of _ s1] exI [of _ c1]) simp
  next
    case False
    then have "closed_hole s c p" by (simp add: closed_hole_def)
    then show ?thesis using False L Cons.prems(4) cnt by (intro exI [of _ s] exI [of _ c]) auto
  qed
  then obtain s1 c1 where 1: "(if 0 < hole_page_count (memory s) ?a then
        merge_hole (nat (total_partition_pages s) + 1) (c_int (PTR_TO_PAGE_INDEX s ?a)) ?a n s
      else Inr (s, n)) = Inr (s1, n + (swallowed P c1 - swallowed P c))"
    "loose s1 P c1" "merged s s1" "\<forall>q\<in>set (Q @ [p]). closed_hole s1 c1 q" by blast
  note mf = merged_fields [OF 1(3)]
  have nx: "hole_next (memory s1) ?a = hd_or (map (PAGE_INDEX_TO_PTR s1) R) 0"
    using looseD(8) [OF 1(2)] unfolding P by (simp add: mf(3,7))
  have "\<exists>s' c'. merge_loop f (hd_or (map (PAGE_INDEX_TO_PTR s1) R) 0) (n + (swallowed P c1 - swallowed P c)) s1 =
      Inr (s', n + (swallowed P c1 - swallowed P c) + (swallowed P c' - swallowed P c1)) \<and>
    loose s' P c' \<and> merged s1 s' \<and> (\<forall>q\<in>set P. closed_hole s' c' q)"
  proof (rule Cons.IH [OF _ 1(2), of "Q @ [p]"])
    show "closed_hole s1 c1 q" if "q \<in> set (Q @ [p])" for q using 1(4) that by blast
  qed (use lay in \<open>simp_all add: P f(2) mf(6)\<close>)
  then obtain s' c' where 2: "merge_loop f (hd_or (map (PAGE_INDEX_TO_PTR s1) R) 0) (n + (swallowed P c1 - swallowed P c)) s1 =
      Inr (s', n + (swallowed P c1 - swallowed P c) + (swallowed P c' - swallowed P c1))"
    "loose s' P c'" "merged s1 s'" "\<forall>q\<in>set P. closed_hole s' c' q" by blast
  have "merge_loop fuel (hd_or (map (PAGE_INDEX_TO_PTR s) (p # R)) 0) n s =
      Inr (s', n + (swallowed P c' - swallowed P c))"
    using a0 1(1) 2(1) nx by (simp add: f(1))
  then show ?case using 2 merged_trans [OF 1(3) 2(3)] by blast
qed

subsection \<open>Deleting what was swallowed\<close>

definition listed :: "rt_state \<Rightarrow> int list \<Rightarrow> (int \<Rightarrow> int) \<Rightarrow> bool" where
  "listed s L c \<longleftrightarrow>
     empty_pages s = hd_or (map (PAGE_INDEX_TO_PTR s) L) 0 \<and> hole_seg s (memory s) (with_counts L c) 0"

text \<open>Taking the hole \<open>p\<close> out of the list, by the pointer to the first hole or by the hole before.\<close>

lemma delete_first:
  assumes "listed s (p # R) c"
  defines "s1 \<equiv> s\<lparr>empty_pages := hole_next (memory s) (PAGE_INDEX_TO_PTR s p)\<rparr>"
  shows "listed s1 R c" and "merged s s1"
proof -
  show m: "merged s s1" by (simp add: merged_def s1_def)
  show "listed s1 R c"
    using assms(1) merged_fields(3,7) [OF m] by (simp add: listed_def s1_def)
qed

lemma delete_after:
  assumes lay: "layout_ok s" and L: "listed s (K @ l # p # R) c" and d: "distinct (K @ l # p # R)"
    and b: "set (K @ l # p # R) \<subseteq> empty_page_set s"
  defines "s1 \<equiv> s\<lparr>memory := set_hole_next (memory s) (PAGE_INDEX_TO_PTR s l)
    (hole_next (memory s) (PAGE_INDEX_TO_PTR s p))\<rparr>"
  shows "listed s1 (K @ l # R) c" and "merged s s1"
proof -
  let ?a = "PAGE_INDEX_TO_PTR s l" and ?m = "memory s"
  let ?e = "hd_or (map (PAGE_INDEX_TO_PTR s) R) 0"
  have bd: "0 \<le> q \<and> q < total_partition_pages s" if "q \<in> set (K @ l # p # R)" for q
    using b that by (auto simp: empty_page_set_def)
  have nx: "hole_next ?m (PAGE_INDEX_TO_PTR s p) = ?e"
    using L by (simp add: listed_def)
  have l: "0 \<le> l" "l < total_partition_pages s" using bd [of l] by simp_all
  have neq: "?a + 8 \<noteq> PAGE_INDEX_TO_PTR s q" "q \<noteq> l \<Longrightarrow> ?a + 8 \<noteq> PAGE_INDEX_TO_PTR s q + 8"
    if q: "q \<in> set (K @ l # R)" for q
  proof -
    have q': "0 \<le> q" "q < total_partition_pages s" using bd [of q] q by auto
    show "?a + 8 \<noteq> PAGE_INDEX_TO_PTR s q"
      using page_ptr_neq_plus_8 [OF lay, of q l] l q' by simp
    show "?a + 8 \<noteq> PAGE_INDEX_TO_PTR s q + 8" if "q \<noteq> l"
      using page_ptr_inj [OF lay l q'] that by simp
  qed
  show m: "merged s s1"
    using b by (auto simp: merged_def s1_def set_hole_next_def hole_cells_def)
  have seg: "hole_seg s ?m (with_counts K c @ [(l, c l)]) (PAGE_INDEX_TO_PTR s p)"
    "hole_seg s ?m (with_counts R c) 0"
    using L by (simp_all add: listed_def)
  have "hole_seg s (set_hole_next ?m (hole_addr s (l, c l)) ?e) (with_counts K c @ [(l, c l)]) ?e"
  proof (rule hole_seg_set_next_last [OF seg(1)])
    show "hole_addr s (l, c l) + 8 \<notin> hole_addr s ` set (with_counts K c @ [(l, c l)])"
    proof
      assume "hole_addr s (l, c l) + 8 \<in> hole_addr s ` set (with_counts K c @ [(l, c l)])"
      then obtain h where h: "h \<in> set (with_counts K c @ [(l, c l)])" "?a + 8 = hole_addr s h"
        unfolding fst_conv by blast
      then have "fst h \<in> set (K @ l # R)" by (auto simp: with_counts_def)
      from neq(1) [OF this] h(2) show False by blast
    qed
    show "hole_addr s (l, c l) + 8 \<notin> (\<lambda>k. hole_addr s k + 8) ` set (with_counts K c)"
    proof
      assume "hole_addr s (l, c l) + 8 \<in> (\<lambda>k. hole_addr s k + 8) ` set (with_counts K c)"
      then obtain h where h: "h \<in> set (with_counts K c)" "?a + 8 = hole_addr s h + 8"
        unfolding fst_conv by blast
      then have "fst h \<in> set K" by (auto simp: with_counts_def)
      then have "fst h \<in> set (K @ l # R)" "fst h \<noteq> l" using d by auto
      from neq(2) [OF this] h(2) show False by blast
    qed
  qed
  moreover have "hole_seg s (set_hole_next ?m ?a ?e) (with_counts R c) 0 = hole_seg s ?m (with_counts R c) 0"
  proof (rule hole_seg_cong)
    fix a assume "a \<in> hole_cells s (fst ` set (with_counts R c))"
    then obtain q where q: "q \<in> set R" "a = PAGE_INDEX_TO_PTR s q \<or> a = PAGE_INDEX_TO_PTR s q + 8"
      by (auto simp: hole_cells_def with_counts_def)
    then have "q \<in> set (K @ l # R)" "q \<noteq> l" using d by auto
    from neq(1) [OF this(1)] neq(2) [OF this] have "a \<noteq> ?a + 8" using q(2) by argo
    then show "set_hole_next ?m ?a ?e a = ?m a" by (simp add: set_hole_next_def)
  qed
  ultimately have "hole_seg s (set_hole_next ?m ?a ?e) (with_counts (K @ l # R) c) 0"
    using seg(2) by simp
  moreover have "empty_pages s = hd_or (map (PAGE_INDEX_TO_PTR s) (K @ l # R)) 0"
    using L by (simp add: listed_def)
  ultimately show "listed s1 (K @ l # R) c"
    unfolding listed_def merged_fields(3,7) [OF m] by (simp add: s1_def nx)
qed

lemma swallowed_simps [simp]:
  "swallowed [] c = 0" "swallowed (p # P) c = (if c p = 0 then 1 else 0) + swallowed P c"
  "0 \<le> swallowed P c"
  by (simp_all add: swallowed_def)

lemma swallowed_0: "swallowed P c = 0 \<longleftrightarrow> filter (\<lambda>p. c p \<noteq> 0) P = P"
  by (auto simp: swallowed_def filter_empty_conv filter_id_conv)

text \<open>One turn of the loop: \<open>p\<close> is passed over when it has pages, otherwise it is deleted.\<close>

lemma delete_turn:
  assumes lay: "layout_ok s" and L: "listed s (K @ p # R) c" and d: "distinct (K @ p # R)"
    and sub: "set (K @ p # R) \<subseteq> empty_page_set s" and c: "0 \<le> c p" "c p < 2 ^ 19"
    and some: "swallowed (p # R) c \<noteq> 0"
  defines "K' \<equiv> (if c p = 0 then K else K @ [p])"
  shows "\<exists>s1. delete_loop (Suc f) (swallowed (p # R) c) (last_or 0 (map (PAGE_INDEX_TO_PTR s) K)) (PAGE_INDEX_TO_PTR s p) s =
      delete_loop f (swallowed R c) (last_or 0 (map (PAGE_INDEX_TO_PTR s) K')) (hd_or (map (PAGE_INDEX_TO_PTR s) R) 0) s1 \<and>
    listed s1 (K' @ R) c \<and> merged s s1"
proof -
  let ?a = "PAGE_INDEX_TO_PTR s p"
  have pos: "0 < swallowed (p # R) c" using some swallowed_simps(3) [of "p # R" c] by linarith
  have p: "0 \<le> p" "p < total_partition_pages s" using sub by (simp_all add: empty_page_set_def)
  have a0: "?a \<noteq> 0" using page_ptr_not_0 [OF lay p(1)] p(2) by simp
  have "hole_seg s (memory s) (with_counts (K @ p # R) c) 0" using L by (simp add: listed_def)
  then have cnt: "hole_page_count (memory s) ?a = c p"
    by (rule hole_seg_count) (use c in simp_all)
  have nx: "hole_next (memory s) ?a = hd_or (map (PAGE_INDEX_TO_PTR s) R) 0"
    using L by (simp add: listed_def)
  show ?thesis
  proof (cases "c p = 0")
    case z: False
    then show ?thesis using pos a0 cnt nx L by (intro exI [of _ s]) (simp add: K'_def)
  next
    case z: True
    show ?thesis
    proof (cases K rule: rev_cases)
      case Nil
      have "listed s (p # R) c" using L Nil by simp
      note D = delete_first [OF this]
      show ?thesis
        using D pos a0 z cnt nx Nil
        by (intro exI [of _ "s\<lparr>empty_pages := hole_next (memory s) ?a\<rparr>"]) (simp add: K'_def Let_def)
    next
      case (snoc K1 l)
      have l: "listed s (K1 @ l # p # R) c" "distinct (K1 @ l # p # R)" "set (K1 @ l # p # R) \<subseteq> empty_page_set s"
        using L d sub snoc by simp_all
      note D = delete_after [OF lay l]
      have "0 \<le> l" "l < total_partition_pages s" using l(3) by (simp_all add: empty_page_set_def)
      then have l0: "PAGE_INDEX_TO_PTR s l \<noteq> 0" using page_ptr_not_0 [OF lay, of l] by simp
      show ?thesis
        using D pos a0 l0 z cnt nx snoc
        by (intro exI [of _ "s\<lparr>memory := set_hole_next (memory s) (PAGE_INDEX_TO_PTR s l) (hole_next (memory s) ?a)\<rparr>"])
          (simp add: K'_def Let_def)
    qed
  qed
qed

lemma delete_loop_refines:
  assumes "layout_ok s" and "listed s (K @ R) c" and "distinct (K @ R)" and "set (K @ R) \<subseteq> empty_page_set s"
    and "\<And>p. p \<in> set R \<Longrightarrow> 0 \<le> c p \<and> c p < 2 ^ 19" and "length R < fuel"
  shows "\<exists>s'. delete_loop fuel (swallowed R c) (last_or 0 (map (PAGE_INDEX_TO_PTR s) K))
      (hd_or (map (PAGE_INDEX_TO_PTR s) R) 0) s = Inr s' \<and>
    listed s' (K @ filter (\<lambda>p. c p \<noteq> 0) R) c \<and> merged s s'"
  using assms
proof (induction R arbitrary: s K fuel)
  case Nil
  then obtain f where "fuel = Suc f" by (cases fuel) auto
  then show ?case using Nil.prems(2) by simp
next
  case (Cons p R)
  then obtain f where f: "fuel = Suc f" "length R < f" by (cases fuel) auto
  show ?case
  proof (cases "swallowed (p # R) c = 0")
    case True
    then show ?thesis
      using Cons.prems(2) swallowed_0 [of "p # R" c]
      by (intro exI [of _ s]) (simp add: f(1) del: swallowed_simps filter.simps)
  next
    case False
    let ?K' = "if c p = 0 then K else K @ [p]"
    obtain s1 where 1: "delete_loop (Suc f) (swallowed (p # R) c) (last_or 0 (map (PAGE_INDEX_TO_PTR s) K)) (PAGE_INDEX_TO_PTR s p) s =
        delete_loop f (swallowed R c) (last_or 0 (map (PAGE_INDEX_TO_PTR s) ?K')) (hd_or (map (PAGE_INDEX_TO_PTR s) R) 0) s1"
      "listed s1 (?K' @ R) c" "merged s s1"
      using delete_turn [OF Cons.prems(1-4) _ _ False, of f] Cons.prems(5) [of p] by auto
    note mf = merged_fields [OF 1(3)]
    have "\<exists>s'. delete_loop f (swallowed R c) (last_or 0 (map (PAGE_INDEX_TO_PTR s1) ?K'))
        (hd_or (map (PAGE_INDEX_TO_PTR s1) R) 0) s1 = Inr s' \<and>
        listed s' (?K' @ filter (\<lambda>p. c p \<noteq> 0) R) c \<and> merged s1 s'"
      using Cons.prems by (intro Cons.IH [OF _ 1(2) _ _ _ f(2)]) (auto simp: mf)
    then obtain s' where 2: "delete_loop f (swallowed R c) (last_or 0 (map (PAGE_INDEX_TO_PTR s) ?K'))
        (hd_or (map (PAGE_INDEX_TO_PTR s) R) 0) s1 = Inr s'"
      "listed s' (?K' @ filter (\<lambda>p. c p \<noteq> 0) R) c" "merged s1 s'"
      unfolding mf(3) by blast
    have "?K' @ filter (\<lambda>p. c p \<noteq> 0) R = K @ filter (\<lambda>p. c p \<noteq> 0) (p # R)" by simp
    then show ?thesis
      using 1(1) 2 merged_trans [OF 1(3) 2(3)] by (intro exI [of _ s']) (simp add: f(1) del: delete_loop.simps swallowed_simps)
  qed
qed

subsection \<open>The whole of it\<close>

lemma merge_adjacent_holes_refines:
  assumes I: "heap_inv {} s A H"
  shows "\<exists>s' H'. merge_adjacent_holes s = Inr s' \<and> heap_inv {} s' A H' \<and> holes_step s s' \<and>
    pages s' = pages s \<and> (\<forall>h\<in>set H'. fst h + snd h \<notin> empty_page_set s')"
proof -
  note d = heap_invD [OF I]
  have lay: "layout_ok s" and H: "holes_ok s {} H" using d(1,7) by simp_all
  let ?P = "map fst H" and ?c = "count_of H" and ?N = "total_partition_pages s"
  have L: "loose s ?P ?c" by (rule holes_loose [OF H])
  have len: "length ?P < nat ?N + 1" using holes_ok_length [OF H] by simp
  have sw0: "swallowed ?P ?c = 0"
  proof -
    have "?c p \<noteq> 0" if "p \<in> set ?P" for p
      using that count_of_eq [OF holes_okD(4) [OF H]] holes_okD(2) [OF H] by fastforce
    then show ?thesis by (simp add: swallowed_def filter_empty_conv)
  qed
  have ep: "empty_pages s = hd_or (map (PAGE_INDEX_TO_PTR s) ?P) 0" by (rule looseD(7) [OF L])
  obtain s1 c1 where 1: "merge_loop (nat ?N + 1) (empty_pages s) 0 s = Inr (s1, 0 + (swallowed ?P c1 - swallowed ?P ?c))"
    "loose s1 ?P c1" "merged s s1" "\<forall>q\<in>set ?P. closed_hole s1 c1 q"
    using merge_loop_refines [OF lay L _ _ len, where Q = "[]" and n = 0] unfolding ep by auto
  note mf = merged_fields [OF 1(3)] and l1 = looseD [OF 1(2)]
  have ls: "listed s1 ([] @ ?P) c1" using l1(7,8) by (simp add: listed_def)
  have lay1: "layout_ok s1" using lay mf(6) by simp
  have "\<exists>s'. delete_loop (nat ?N + 1) (swallowed ?P c1) (last_or 0 (map (PAGE_INDEX_TO_PTR s1) []))
      (hd_or (map (PAGE_INDEX_TO_PTR s1) ?P) 0) s1 = Inr s' \<and>
      listed s' ([] @ filter (\<lambda>p. c1 p \<noteq> 0) ?P) c1 \<and> merged s1 s'"
  proof (rule delete_loop_refines [OF lay1 ls _ _ _ len])
    show "distinct ([] @ ?P)" using l1(1) by simp
    show "set ([] @ ?P) \<subseteq> empty_page_set s1" using l1(2) by auto
    fix p assume "p \<in> set ?P"
    then show "0 \<le> c1 p \<and> c1 p < 2 ^ 19" using l1(3) loose_small(1) [OF lay1 1(2)] by blast
  qed
  then obtain s' where 2: "delete_merged_holes (swallowed ?P c1) s1 = Inr s'"
    "listed s' (filter (\<lambda>p. c1 p \<noteq> 0) ?P) c1" "merged s1 s'"
    using l1(7) mf(2) by (auto simp: delete_merged_holes_def)
  note mf' = merged_fields [OF 2(3)]
  have M: "merged s s'" by (rule merged_trans [OF 1(3) 2(3)])
  note mM = merged_fields [OF M]
  have eq: "merge_adjacent_holes s = Inr s'"
    using 1(1) 2(1) sw0 by (simp add: merge_adjacent_holes_def)
  let ?P' = "filter (\<lambda>p. c1 p \<noteq> 0) ?P"
  have "loose s' ?P' c1"
    unfolding loose_def mM(2,3,5,7)
  proof (intro conjI ballI impI)
    have "(\<Union>p\<in>set ?P'. {p..<p + c1 p}) = (\<Union>p\<in>set ?P. {p..<p + c1 p})"
      by (auto intro!: UN_I)
    then show "(\<Union>p\<in>set ?P'. {p..<p + c1 p}) = empty_page_set s" using l1(6) mf(5) by simp
    show "empty_pages s' = hd_or (map (PAGE_INDEX_TO_PTR s) ?P') 0"
      "hole_seg s (memory s') (with_counts ?P' c1) 0"
      using 2(2) mM(3,7) by (simp_all add: listed_def)
    show "distinct ?P'" using l1(1) by (intro distinct_filter)
    fix p assume "p \<in> set ?P'"
    then have p: "p \<in> set ?P" by simp
    show "p \<in> empty_page_set s" "0 \<le> c1 p" "p + c1 p \<le> ?N"
      using l1(2-4) [OF p] mf(2,5) by simp_all
    fix q assume "q \<in> set ?P'" "p \<noteq> q"
    then show "{p..<p + c1 p} \<inter> {q..<q + c1 q} = {}" using l1(5) [OF p] by simp
  qed
  moreover have "0 < c1 p" if "p \<in> set ?P'" for p using that l1(3) [of p] by simp
  ultimately have H': "holes_ok s' {} (with_counts ?P' c1)" by (intro loose_holes) simp_all
  have e: "s' = s\<lparr>memory := memory s', pages := pages s', empty_pages := empty_pages s'\<rparr>"
    using M mM(1) by (simp add: merged_def)
  have emp: "0 \<le> p \<and> p < ?N \<and> (\<forall>j. pgroup (pages s p) \<noteq> Group j)" if "p \<in> empty_page_set s" for p
    using that by (simp add: empty_page_set_def)
  have m: "memory s' a = memory s a" if "a \<notin> hole_cells s (empty_page_set s)" for a
    using M that by (simp add: merged_def)
  have inv: "heap_inv {} s' A (with_counts ?P' c1)"
    by (rule heap_inv_holes [OF I H' e, where P = "empty_page_set s" and Q = "{}"])
      (use m emp mM(1) in simp_all)
  have "empty_page_set s \<subseteq> groupless s" using emp by (auto simp: groupless_def)
  then have "hole_cells s (empty_page_set s) \<subseteq> hole_cells s (groupless s)" by (auto simp: hole_cells_def)
  then have st: "holes_step s s'" using e m mM(1) by (auto simp: holes_step_def)
  have "fst h + snd h \<notin> empty_page_set s'" if h: "h \<in> set (with_counts ?P' c1)" for h
  proof -
    obtain p where p: "p \<in> set ?P" "c1 p \<noteq> 0" "h = (p, c1 p)" using h unfolding with_counts_def by auto
    then have "0 < c1 p" using l1(3) [OF p(1)] by simp
    then have "p + c1 p \<notin> empty_page_set s1"
      using bspec [OF 1(4) p(1)] unfolding closed_hole_def by blast
    then show ?thesis unfolding mf'(5) p(3) by simp
  qed
  then show ?thesis using eq inv st mM(1) by blast
qed

text \<open>
  coalesce_all_free_pages: no error, the invariant is kept, no page of a group is taken up
  by free objects only, no page is FREE, and the page after a hole is not empty.
\<close>

lemma coalesce_all_free_pages_refines:
  assumes I: "heap_inv {} s A H"
  shows "\<exists>s' A' H'. coalesce_all_free_pages s = Inr s' \<and> heap_inv {} s' A' H' \<and>
    coalesced (all_objects A) s s' \<and> a_coalesced A A' \<and>
    (\<forall>q. 0 \<le> q \<longrightarrow> q < total_partition_pages s' \<longrightarrow> settled s' A' q \<and> pgroup (pages s' q) \<noteq> FREE_PAGE) \<and>
    (\<forall>h\<in>set H'. fst h + snd h \<notin> empty_page_set s')"
proof -
  obtain s1 A1 where 1: "identify_free_pages s = Inr s1" "heap_inv {} s1 A1 H"
    "coalesced (all_objects A) s s1" "a_coalesced A A1"
    "\<forall>q. 0 \<le> q \<longrightarrow> q < total_partition_pages s1 \<longrightarrow> settled s1 A1 q"
    using identify_free_pages_refines [OF I] by blast
  obtain s2 H2 where 2: "coalesce_free_pages s1 = Inr s2" "heap_inv {} s2 A1 H2" "holes_step s1 s2"
    "\<forall>q. 0 \<le> q \<longrightarrow> q < total_partition_pages s2 \<longrightarrow> pgroup (pages s2 q) \<noteq> FREE_PAGE"
    using coalesce_free_pages_refines [OF 1(2)] by blast
  obtain s3 H3 where 3: "merge_adjacent_holes s2 = Inr s3" "heap_inv {} s3 A1 H3" "holes_step s2 s3"
    "pages s3 = pages s2" "\<forall>h\<in>set H3. fst h + snd h \<notin> empty_page_set s3"
    using merge_adjacent_holes_refines [OF 2(2)] by blast
  have st: "holes_step s1 s3" by (rule holes_step_trans [OF 2(3) 3(3)])
  have t: "total_partition_pages s3 = total_partition_pages s1" "total_partition_pages s3 = total_partition_pages s2"
    using holes_step_fields(2) [OF st] holes_step_fields(2) [OF 3(3)] by simp_all
  have "settled s3 A1 q \<and> pgroup (pages s3 q) \<noteq> FREE_PAGE" if "0 \<le> q" "q < total_partition_pages s3" for q
    using 1(5) 2(4) that holes_step_settled [OF st] 3(4) t by simp
  moreover have "coalesced (all_objects A) s s3"
    by (rule coalesced_trans [OF 1(3) holes_step_coalesced [OF st] subset_refl])
  ultimately show ?thesis
    using 1(1,4) 2(1) 3(1,2,5) by (intro exI [of _ s3] exI [of _ A1] exI [of _ H3])
      (simp add: coalesce_all_free_pages_def)
qed

end
