(* ===== verification/Collector.thy ===== *)
theory Collector
  imports Stop_World Mark Merge_Holes
begin

text \<open>
  A collection (rtgc.c): flip turns what is allocated white and saves the mutators' state,
  marking makes what the roots reach black, recycle_all_garbage makes the rest free and
  gives empty pages back.
\<close>

subsection \<open>The code\<close>

definition flip :: "mutator list \<Rightarrow> rt_state \<Rightarrow> rt_error + rt_state" where
  "flip ths s =
     rbind (rassert (\<not> enable_write_barrier s)) (\<lambda>_.
     rbind (rfold (\<lambda>i. on_group i flip_group) group_list s) (stop_all_mutators_and_save_state ths))"

definition recycle_all_garbage :: "nat \<Rightarrow> rt_state \<Rightarrow> rt_error + rt_state" where
  "recycle_all_garbage fuel s =
     rbind (rassert (\<not> enable_write_barrier s)) (\<lambda>_.
     rbind (rfold (\<lambda>i. on_group i (recycle_group_garbage fuel)) group_list s) coalesce_all_free_pages)"

text \<open>The loop of full_gc: scan, then take what the write barrier recorded, until it recorded nothing.\<close>

fun mark_loop :: "nat \<Rightarrow> nat \<Rightarrow> hooks \<Rightarrow> rt_state \<Rightarrow> rt_error + rt_state" where
  "mark_loop 0 fuel h s = Inl Out_of_fuel"
| "mark_loop (Suc rounds) fuel h s =
     rbind (scan_gray_set fuel fuel h s) (\<lambda>s1.
     rbind (scan_write_vector s1) (\<lambda>(s2, mark_count).
       if 0 < mark_count then mark_loop rounds fuel h s2 else Inr s2))"

definition full_gc :: "nat \<Rightarrow> hooks \<Rightarrow> mutator list \<Rightarrow> rt_state \<Rightarrow> rt_error + rt_state" where
  "full_gc fuel h ths s =
     rbind (flip ths s) (\<lambda>s1.
     rbind (rassert (enable_write_barrier s1)) (\<lambda>_.
     rbind (scan_root_set fuel h s1) (\<lambda>s2.
     rbind (mark_loop fuel fuel h s2) (\<lambda>s3.
     rbind (recycle_all_garbage fuel (s3\<lparr>enable_write_barrier := False\<rparr>)) (\<lambda>s4.
       Inr (s4\<lparr>gc_count := c_long (gc_count s4 + 1)\<rparr>))))))"

definition RTfull_gc :: "nat \<Rightarrow> hooks \<Rightarrow> mutator list \<Rightarrow> rt_state \<Rightarrow> rt_error + rt_state" where
  "RTfull_gc fuel h ths s = full_gc fuel h ths s"

definition rtgc_count :: "rt_state \<Rightarrow> int" where
  "rtgc_count s = c_int (gc_count s)"

text \<open>
  One turn of rtgc_loop, with the threads at its two flips. An atomic collector that nobody
  asked to run waits: the state is as it was.
\<close>

definition rtgc_turn :: "nat \<Rightarrow> hooks \<Rightarrow> mutator list \<Rightarrow> mutator list \<Rightarrow> rt_state \<Rightarrow> rt_error + rt_state" where
  "rtgc_turn fuel h ths1 ths2 s =
     (if RTatomic_gc s \<and> \<not> run_gc s then Inr s
      else
        rbind (full_gc fuel h ths1 s) (\<lambda>s1.
        rbind (full_gc fuel h ths2 s1) (\<lambda>s2.
          Inr (if RTatomic_gc s2 then s2\<lparr>run_gc := False\<rparr> else s2))))"

subsection \<open>All groups, one after the other\<close>

definition flipped_rep :: "64 word \<Rightarrow> 64 word \<Rightarrow> mem \<Rightarrow> group_info \<Rightarrow> agroup \<Rightarrow> bool" where
  "flipped_rep mk um m g a \<longleftrightarrow> marking_rep um mk m g a"

lemma framed_flipped_rep: "framed_pred flipped_rep"
  using framed_marking_rep unfolding framed_pred_def flipped_rep_def by blast

text \<open>The groups in \<open>D\<close> are done.\<close>

definition stage :: "group_pred \<Rightarrow> group_pred \<Rightarrow> addr set \<Rightarrow> rt_state \<Rightarrow> nat set \<times> (nat \<Rightarrow> agroup) \<Rightarrow> bool" where
  "stage P Q Ob = (\<lambda>s (D, A). heap_rep (\<lambda>i. if i \<in> D then Q else P) s A \<and> all_objects A = Ob)"

definition stage_op :: "(agroup \<Rightarrow> agroup) \<Rightarrow> nat \<Rightarrow> nat set \<times> (nat \<Rightarrow> agroup) \<Rightarrow> nat set \<times> (nat \<Rightarrow> agroup)" where
  "stage_op f i = (\<lambda>(D, A). (insert i D, A(i := f (A i))))"

definition on_groups :: "(agroup \<Rightarrow> agroup) \<Rightarrow> nat set \<Rightarrow> (nat \<Rightarrow> agroup) \<Rightarrow> nat \<Rightarrow> agroup" where
  "on_groups f I A = (\<lambda>i. if i \<in> I then f (A i) else A i)"

lemma fold_stage_op:
  "distinct is \<Longrightarrow> D \<inter> set is = {} \<Longrightarrow> fold (stage_op f) is (D, A) = (D \<union> set is, on_groups f (set is) A)"
proof (induction "is" arbitrary: D A)
  case (Cons i "is")
  then have "fold (stage_op f) is (insert i D, A(i := f (A i))) =
      (insert i D \<union> set is, on_groups f (set is) (A(i := f (A i))))"
    by (intro Cons.IH) auto
  moreover have "on_groups f (set is) (A(i := f (A i))) = on_groups f (set (i # is)) A"
    using Cons.prems(1) by (auto simp: on_groups_def fun_eq_iff)
  moreover have "stage_op f i (D, A) = (insert i D, A(i := f (A i)))" by (simp add: stage_op_def)
  ultimately show ?case by simp
qed (simp add: on_groups_def)

lemma stage_step:
  assumes "stage P Q Ob s (D, A)" and fr: "framed_pred P" "framed_pred Q"
    and i: "i \<in> group_indices" "i \<notin> D"
    and op: "P (marked_color s) (unmarked_color s) (memory s) (groups s i) (A i) \<Longrightarrow>
      \<exists>m' g'. f (memory s) (groups s i) = Inr (m', g') \<and>
        Q (marked_color s) (unmarked_color s) m' g' (af (A i)) \<and>
        links_only (set (objects (A i))) (memory s) m' \<and>
        gsize g' = gsize (groups s i) \<and> gindex g' = gindex (groups s i)"
    and ob: "set (objects (af (A i))) = set (objects (A i))"
  shows "\<exists>s'. on_group i f s = Inr s' \<and> stage P Q Ob s' (stage_op af i (D, A)) \<and> gc_frame Ob s s'"
proof -
  let ?P = "\<lambda>j. if j \<in> D then Q else P"
  have rep: "heap_rep ?P s A" and all: "all_objects A = Ob" using assms(1) by (simp_all add: stage_def)
  have "P (marked_color s) (unmarked_color s) (memory s) (groups s i) (A i)"
    using heap_repD(5) [OF rep i(1)] i(2) by simp
  from op [OF this] obtain m' g' where o: "f (memory s) (groups s i) = Inr (m', g')"
    "Q (marked_color s) (unmarked_color s) m' g' (af (A i))"
    "links_only (set (objects (A i))) (memory s) m'"
    "gsize g' = gsize (groups s i)" "gindex g' = gindex (groups s i)" by blast
  have frP: "\<And>j. framed_pred (?P j)" using fr by simp
  obtain s' where s': "on_group i f s = Inr s'" "heap_rep (?P(i := Q)) s' (A(i := af (A i)))"
    "gc_frame (object_set A i) s s'"
    by (rule on_group_refines [where P = ?P and Q = Q and f = f and i = i and a' = "af (A i)",
          OF rep frP i(1) o(1) o(2) ob o(3-5)])
  have "?P(i := Q) = (\<lambda>j. if j \<in> insert i D then Q else P)" by (auto simp: fun_eq_iff)
  moreover have "object_set (A(i := af (A i))) = object_set A"
    unfolding object_set_def fun_eq_iff using ob by (simp del: objects_simps)
  then have "all_objects (A(i := af (A i))) = Ob" using all by (simp add: all_objects_def)
  moreover have "object_set A i \<subseteq> Ob" using i(1) all by (auto simp: all_objects_def)
  ultimately show ?thesis
    using s' gc_frame_mono [OF s'(3)] by (simp add: stage_def stage_op_def)
qed

lemma objects_a_flip:
  "whites a = [] \<Longrightarrow> set (objects (a_flip a)) = set (objects a)"
  "grays a = [] \<Longrightarrow> set (objects (a_recycle a)) = set (objects a)"
  by auto

lemma flip_stage:
  assumes st: "stage idle_rep flipped_rep Ob s (D, A)" and i: "i \<in> group_indices" "i \<notin> D"
  shows "\<exists>s'. on_group i flip_group s = Inr s' \<and>
    stage idle_rep flipped_rep Ob s' (stage_op a_flip i (D, A)) \<and> gc_frame Ob s s'"
proof (rule stage_step [OF st framed_idle_rep framed_flipped_rep i])
  have rep: "heap_rep (\<lambda>j. if j \<in> D then flipped_rep else idle_rep) s A"
    using st by (simp add: stage_def)
  have c: "colors_ok (marked_color s) (unmarked_color s)" by (rule heap_repD(2) [OF rep])
  have r: "idle_rep (marked_color s) (unmarked_color s) (memory s) (groups s i) (A i)"
    using heap_repD(5) [OF rep i(1)] i(2) by simp
  then show "set (objects (a_flip (A i))) = set (objects (A i))"
    by (intro objects_a_flip(1)) (simp add: idle_rep_def)
  show "\<exists>m' g'. flip_group (memory s) (groups s i) = Inr (m', g') \<and>
        flipped_rep (marked_color s) (unmarked_color s) m' g' (a_flip (A i)) \<and>
        links_only (set (objects (A i))) (memory s) m' \<and>
        gsize g' = gsize (groups s i) \<and> gindex g' = gindex (groups s i)"
    by (rule flip_group_refines [OF r c]) (auto simp: flipped_rep_def)
qed

lemma recycle_stage:
  assumes st: "stage marking_rep idle_rep Ob s (D, A)" and i: "i \<in> group_indices" "i \<notin> D"
    and g: "grays (A i) = []" and f: "length (whites (A i)) < fuel"
  shows "\<exists>s'. on_group i (recycle_group_garbage fuel) s = Inr s' \<and>
    stage marking_rep idle_rep Ob s' (stage_op a_recycle i (D, A)) \<and> gc_frame Ob s s'"
proof (rule stage_step [OF st framed_marking_rep framed_idle_rep i])
  have rep: "heap_rep (\<lambda>j. if j \<in> D then idle_rep else marking_rep) s A"
    using st by (simp add: stage_def)
  have c: "colors_ok (marked_color s) (unmarked_color s)" by (rule heap_repD(2) [OF rep])
  have r: "marking_rep (marked_color s) (unmarked_color s) (memory s) (groups s i) (A i)"
    using heap_repD(5) [OF rep i(1)] i(2) by simp
  show "set (objects (a_recycle (A i))) = set (objects (A i))" by (rule objects_a_flip(2) [OF g])
  show "\<exists>m' g'. recycle_group_garbage fuel (memory s) (groups s i) = Inr (m', g') \<and>
        idle_rep (marked_color s) (unmarked_color s) m' g' (a_recycle (A i)) \<and>
        links_only (set (objects (A i))) (memory s) m' \<and>
        gsize g' = gsize (groups s i) \<and> gindex g' = gindex (groups s i)"
    by (rule recycle_group_garbage_refines [OF r g c f]) blast
qed

text \<open>Flipping and recycling groups keep the contract of the operations of the collector.\<close>

interpretation flips: op_refinement
  "stage idle_rep flipped_rep Ob" "\<lambda>i. on_group i flip_group" "stage_op a_flip"
  "\<lambda>i (D, A). i \<in> group_indices \<and> i \<notin> D" "gc_frame Ob"
  for Ob :: "addr set"
  by unfold_locales
    (use flip_stage in \<open>auto simp: stage_op_def intro: gc_frame_trans split: prod.splits\<close>)

interpretation recycles: op_refinement
  "stage marking_rep idle_rep Ob" "\<lambda>i. on_group i (recycle_group_garbage fuel)" "stage_op a_recycle"
  "\<lambda>i (D, A). i \<in> group_indices \<and> i \<notin> D \<and> grays (A i) = [] \<and> length (whites (A i)) < fuel" "gc_frame Ob"
  for Ob :: "addr set" and fuel :: nat
  by unfold_locales
    (use recycle_stage in \<open>auto simp: stage_op_def intro: gc_frame_trans split: prod.splits\<close>)

lemma flip_groups_refines:
  assumes rep: "heap_rep (\<lambda>_. idle_rep) s A"
  shows "\<exists>s'. rfold (\<lambda>i. on_group i flip_group) group_list s = Inr s' \<and>
    heap_rep (\<lambda>_. flipped_rep) s' (on_groups a_flip group_indices A) \<and> gc_frame (all_objects A) s s' \<and>
    all_objects (on_groups a_flip group_indices A) = all_objects A"
proof -
  have "stage idle_rep flipped_rep (all_objects A) s ({}, A)" using rep by (simp add: stage_def)
  from flips.rfold_refines [OF this, of group_list]
  obtain s' where s': "rfold (\<lambda>i. on_group i flip_group) group_list s = Inr s'"
    "stage idle_rep flipped_rep (all_objects A) s' (fold (stage_op a_flip) group_list ({}, A))"
    "gc_frame (all_objects A) s s'" by auto
  have "heap_rep (\<lambda>i. if i \<in> group_indices then flipped_rep else idle_rep) s' (on_groups a_flip group_indices A)"
    "all_objects (on_groups a_flip group_indices A) = all_objects A"
    using s'(2) by (simp_all add: fold_stage_op stage_def)
  then show ?thesis using s'(1,3) by (auto simp: heap_rep_def)
qed

lemma recycle_groups_refines:
  assumes rep: "heap_marking s A" and g: "gray_set A = {}"
    and f: "\<And>i. i \<in> group_indices \<Longrightarrow> length (whites (A i)) < fuel"
  shows "\<exists>s'. rfold (\<lambda>i. on_group i (recycle_group_garbage fuel)) group_list s = Inr s' \<and>
    heap_rep (\<lambda>_. idle_rep) s' (on_groups a_recycle group_indices A) \<and> gc_frame (all_objects A) s s' \<and>
    all_objects (on_groups a_recycle group_indices A) = all_objects A"
proof -
  have gr: "grays (A i) = []" if "i \<in> group_indices" for i using g that by (simp add: gray_set_def)
  have "stage marking_rep idle_rep (all_objects A) s ({}, A)" using rep by (simp add: stage_def)
  from recycles.rfold_refines [OF this, of group_list fuel]
  obtain s' where s': "rfold (\<lambda>i. on_group i (recycle_group_garbage fuel)) group_list s = Inr s'"
    "stage marking_rep idle_rep (all_objects A) s' (fold (stage_op a_recycle) group_list ({}, A))"
    "gc_frame (all_objects A) s s'" using gr f by auto
  have "heap_rep (\<lambda>i. if i \<in> group_indices then idle_rep else marking_rep) s' (on_groups a_recycle group_indices A)"
    "all_objects (on_groups a_recycle group_indices A) = all_objects A"
    using s'(2) by (simp_all add: fold_stage_op stage_def)
  then show ?thesis using s'(1,3) by (auto simp: heap_rep_def)
qed

end
