(* ===== verification/Collection.thy ===== *)
theory Collection
  imports Collector
begin

text \<open>
  A whole collection is correct. From a heap between collections, with the write vector
  clear, full_gc does not stop; it retains exactly the allocated objects that are live from
  the roots the flip saved, returns the others to the free lists or to the holes, keeps the
  contents of what it retains, and leaves a heap between collections.
\<close>

subsection \<open>The flip\<close>

abbreviation flipped :: "(nat \<Rightarrow> agroup) \<Rightarrow> nat \<Rightarrow> agroup" where
  "flipped \<equiv> on_groups a_flip group_indices"

lemma flipped_lists [simp]:
  assumes "i \<in> group_indices"
  shows "whites (flipped A i) = blacks (A i)" "grays (flipped A i) = grays (A i)"
    "blacks (flipped A i) = []" "greens (flipped A i) = greens (A i)"
  using assms by (simp_all add: on_groups_def)

text \<open>What a collection may change in the globals: not the partition and not the page table.\<close>

definition same_pages :: "rt_state \<Rightarrow> rt_state \<Rightarrow> bool" where
  "same_pages s s' \<longleftrightarrow>
     first_partition_ptr s' = first_partition_ptr s \<and> last_partition_ptr s' = last_partition_ptr s \<and>
     total_partition_pages s' = total_partition_pages s \<and> pages s' = pages s \<and>
     empty_pages s' = empty_pages s \<and>
     (\<forall>i. gsize (groups s' i) = gsize (groups s i) \<and> gindex (groups s' i) = gindex (groups s i))"

lemma same_pages_refl [simp]: "same_pages s s"
  by (simp add: same_pages_def)

lemma same_pages_trans: "same_pages s s' \<Longrightarrow> same_pages s' s'' \<Longrightarrow> same_pages s s''"
  by (simp add: same_pages_def)

lemma gc_frame_same_pages:
  assumes "gc_frame Ob s s'"
  shows "same_pages s s'"
proof -
  have e: "s' = s\<lparr>memory := memory s', groups := groups s'\<rparr>" using assms by (simp add: gc_frame_def)
  have "empty_pages s' = empty_pages s" by (subst e) simp
  then show ?thesis using gc_frame_fields [OF assms] by (simp add: same_pages_def)
qed

lemma same_pages_facts:
  assumes "same_pages s s'"
  shows "layout_ok s' = layout_ok s" "groups_ok s' = groups_ok s" "page_table_ok s' = page_table_ok s"
    "page_objects s' i = page_objects s i" "geometry s' Ob = geometry s Ob"
    "PAGE_INDEX_TO_PTR s' = PAGE_INDEX_TO_PTR s" "empty_page_set s' = empty_page_set s"
    "ptr_object s' p = ptr_object s p" "groupless s' = groupless s"
proof -
  have f: "first_partition_ptr s' = first_partition_ptr s" "last_partition_ptr s' = last_partition_ptr s"
    "total_partition_pages s' = total_partition_pages s" "pages s' = pages s"
    "\<And>i. gsize (groups s' i) = gsize (groups s i)" "\<And>i. gindex (groups s' i) = gindex (groups s i)"
    using assms by (simp_all add: same_pages_def)
  note m = page_macros_eq [OF f(1)]
  have ip: "IN_PARTITION s' = IN_PARTITION s" by (simp add: fun_eq_iff IN_PARTITION_def f)
  have i3: "interior_to_gcptr_3 p page (groups s' i) = interior_to_gcptr_3 p page (groups s i)" for p page i
    by (simp add: interior_to_gcptr_3_def f)
  show "layout_ok s' = layout_ok s" "groups_ok s' = groups_ok s" "page_table_ok s' = page_table_ok s"
    "page_objects s' i = page_objects s i" "geometry s' Ob = geometry s Ob"
    "PAGE_INDEX_TO_PTR s' = PAGE_INDEX_TO_PTR s" "empty_page_set s' = empty_page_set s"
    "ptr_object s' p = ptr_object s p" "groupless s' = groupless s"
    by (simp_all add: layout_ok_def groups_ok_def page_table_ok_def page_objects_def geometry_def
        empty_page_set_def groupless_def ptr_object_def PTR_TO_GROUP_def f m ip i3 cong: gptr.case_cong)
qed

text \<open>
  What a collection has nothing to do with: the partition itself, the segments, the write
  vector of a stopped world, the static space, the registered roots, and the switches.
\<close>

definition same_rest :: "rt_state \<Rightarrow> rt_state \<Rightarrow> bool" where
  "same_rest s s' \<longleftrightarrow>
     first_partition_ptr s' = first_partition_ptr s \<and> last_partition_ptr s' = last_partition_ptr s \<and>
     total_partition_pages s' = total_partition_pages s \<and> segments s' = segments s \<and>
     RTwrite_vector s' = RTwrite_vector s \<and> RTwrite_vector_length s' = RTwrite_vector_length s \<and>
     first_static_ptr s' = first_static_ptr s \<and> last_static_ptr s' = last_static_ptr s \<and>
     static_frontier_ptr s' = static_frontier_ptr s \<and> global_roots s' = global_roots s \<and>
     RTno_write_barrier_state_ptr s' = RTno_write_barrier_state_ptr s \<and>
     RTatomic_gc s' = RTatomic_gc s \<and> run_gc s' = run_gc s"

lemma same_rest_refl [simp]: "same_rest s s"
  by (simp add: same_rest_def)

lemma same_rest_trans: "same_rest s s' \<Longrightarrow> same_rest s' s'' \<Longrightarrow> same_rest s s''"
  by (simp add: same_rest_def)

lemma same_rest_gc_frame:
  assumes "gc_frame Ob s s'"
  shows "same_rest s s'"
proof -
  have e: "s' = s\<lparr>memory := memory s', groups := groups s'\<rparr>" using assms by (simp add: gc_frame_def)
  show ?thesis unfolding same_rest_def by (subst e, simp)+
qed

lemma same_rest_coalesced:
  assumes "coalesced Ob s s'"
  shows "same_rest s s'"
proof -
  have e: "s' = s\<lparr>memory := memory s', groups := groups s', pages := pages s', empty_pages := empty_pages s'\<rparr>"
    using assms by (simp add: coalesced_def)
  show ?thesis unfolding same_rest_def by (subst e, simp)+
qed

text \<open>What a flip needs of the threads: each can be stopped, and no save area holds a header.\<close>

definition stoppable :: "rt_state \<Rightarrow> mutator list \<Rightarrow> (nat \<Rightarrow> agroup) \<Rightarrow> hole list \<Rightarrow> bool" where
  "stoppable s ths A H \<longleftrightarrow>
     (\<forall>th\<in>set ths. mutator_ok th) \<and> length ths \<le> length (saved_threads s) \<and>
     save_area s ths \<inter> header_cells (all_objects A) = {} \<and>
     save_area s ths \<inter> hole_cells s (fst ` set H) = {}"

lemma stopped_fields:
  shows "same_pages s (stopped ths s)" "enable_write_barrier (stopped ths s)"
    "marked_color (stopped ths s) = unmarked_color s" "unmarked_color (stopped ths s) = marked_color s"
    "groups (stopped ths s) = groups s" "gc_count (stopped ths s) = gc_count s"
    "RTwrite_vector (stopped ths s) = RTwrite_vector s"
    "RTwrite_vector_length (stopped ths s) = RTwrite_vector_length s"
  by (simp_all add: stopped_def same_pages_def)

lemma stopped_memory: "a \<notin> save_area s ths \<Longrightarrow> memory (stopped ths s) a = memory s a"
  by (simp add: stopped_def save_area_def savers.fold_frame)

lemma flip_refines:
  assumes I: "heap_inv {} s A H" and e: "\<not> enable_write_barrier s" and ok: "stoppable s ths A H"
  shows "\<exists>sg. flip ths s = Inr (stopped ths sg) \<and> gc_frame (all_objects A) s sg \<and>
    save_area sg ths = save_area s ths \<and>
    heap_marking (stopped ths sg) (flipped A) \<and> all_objects (flipped A) = all_objects A"
proof -
  obtain sg where sg: "rfold (\<lambda>i. on_group i flip_group) group_list s = Inr sg"
    "heap_rep (\<lambda>_. flipped_rep) sg (flipped A)" "gc_frame (all_objects A) s sg"
    "all_objects (flipped A) = all_objects A"
    using flip_groups_refines [OF heap_inv_rep [OF I]] by blast
  note gf = gc_frame_fields [OF sg(3)]
  have ps: "save_pairs sg ths = save_pairs s ths" by (simp add: save_pairs_def gf(12))
  then have sa: "save_area sg ths = save_area s ths" by (simp add: save_area_def)
  have stop: "stop_all_mutators_and_save_state ths sg = Inr (stopped ths sg)"
    using ok by (intro stop_all_mutators_eq) (simp_all add: stoppable_def gf(12))
  let ?s1 = "stopped ths sg"
  note sf = stopped_fields [where s = sg and ths = ths] and sp = same_pages_facts [OF stopped_fields(1) [where s = sg and ths = ths]]
  note h = heap_repD [OF sg(2)]
  have c: "colors_ok (marked_color ?s1) (unmarked_color ?s1)"
    using h(2) by (auto simp: colors_ok_def sf)
  have m: "marking_rep (marked_color ?s1) (unmarked_color ?s1) (memory ?s1) (groups ?s1 i) (flipped A i)"
    if i: "i \<in> group_indices" for i
  proof (rule marking_rep_cong)
    show "marking_rep (marked_color ?s1) (unmarked_color ?s1) (memory sg) (groups ?s1 i) (flipped A i)"
      using h(5) [OF i] by (simp add: flipped_rep_def sf)
    fix x assume "x \<in> set (objects (flipped A i))"
    then have "x \<in> all_objects A"
      unfolding sg(4) [symmetric] using i by (auto simp: all_objects_def object_set_def simp del: objects_simps)
    then have "x \<in> header_cells (all_objects A)" "x + 8 \<in> header_cells (all_objects A)"
      by (auto simp: header_cells_def)
    then have "x \<notin> save_area sg ths" "x + 8 \<notin> save_area sg ths"
      using ok unfolding stoppable_def sa by blast+
    then show "memory ?s1 x = memory sg x \<and> memory ?s1 (x + 8) = memory sg (x + 8)"
      by (simp add: stopped_memory)
  qed
  have "heap_marking ?s1 (flipped A)"
    using h(1,3,4) c m by (simp add: heap_rep_def sp)
  then show ?thesis
    using sg(1,3,4) stop sa e by (intro exI [of _ sg]) (simp add: flip_def)
qed

subsection \<open>Marking\<close>

definition barrier_clear :: "rt_state \<Rightarrow> bool" where
  "barrier_clear s \<longleftrightarrow> (\<forall>i\<in>set [0..RTwrite_vector_length s - 1]. RTwrite_vector s i = 0)"

lemma scan_write_vector_clear:
  assumes "barrier_clear s"
  shows "scan_write_vector s = Inr (s, 0)"
proof -
  have skip: "rfold scan_write_long is (s, n) = Inr (s, n)"
    if "\<And>i. i \<in> set is \<Longrightarrow> RTwrite_vector s i = 0" for "is" n
    using that by (induction "is") (simp_all add: scan_write_long_def)
  have "RTwrite_vector s (int k) = 0" if "k < nat (RTwrite_vector_length s)" for k
    using assms that by (auto simp: barrier_clear_def)
  then show ?thesis unfolding scan_write_vector_def by (intro skip) auto
qed

lemma mark_phase:
  assumes rep: "heap_marking s1 A1"
    and start: "\<And>i. i \<in> group_indices \<Longrightarrow> grays (A1 i) = [] \<and> blacks (A1 i) = []"
    and ro: "roots_ok fuel h (all_objects A1) s1" and sc: "scannable h s1 A1"
    and v: "barrier_clear s1" and f: "unscanned A1 < fuel"
  defines "R \<equiv> set (root_words fuel h s1)"
  shows "\<exists>s2 s3 A3. scan_root_set fuel h s1 = Inr s2 \<and> mark_loop fuel fuel h s2 = Inr s3 \<and>
    marking h s1 R A1 s3 A3 \<and> gray_set A3 = {} \<and> black_set A3 = live h s1 R (white_set A1) \<and>
    live h s1 R (white_set A1) \<inter> white_set A3 = {}"
proof -
  let ?Ob = "all_objects A1" and ?ws = "root_words fuel h s1"
  have dw: "distinct (whites (A1 i))" if i: "i \<in> group_indices" for i
    using heap_repD(5) [OF rep i] by (auto simp: marking_rep_def group_rep_def objects_def)
  have m1: "marked_from s1 ?Ob s1 A1" by (rule marked_from_refl [OF rep])
  then obtain s2 where s2: "scan_root_set fuel h s1 = Inr s2" "marked_from s1 ?Ob s2 (a_trace_all s1 ?ws A1)"
    using traces_root_set [OF ro] unfolding traces_def by blast
  have t0: "tricolour h s1 R A1 A1" using start dw by (intro tricolour_start) simp
  have t1: "tricolour h s1 R A1 (a_trace_all s1 ?ws A1)" "traced s1 R (a_trace_all s1 ?ws A1)"
    unfolding R_def using tricolour_trace_all [OF t0 [unfolded R_def], of ?ws] by (blast intro: live_root)+
  let ?A2 = "a_trace_all s1 ?ws A1"
  have M2: "marking h s1 R A1 s2 ?A2"
    using s2(2) t1(1) heap_repD(3,4) [OF rep] by (simp add: marking_def)
  have u: "unscanned ?A2 < fuel" using f by simp
  obtain s3 A3 where 3: "scan_gray_set fuel fuel h s2 = Inr s3" "marking h s1 R A1 s3 A3" "gray_set A3 = {}"
    "white_set A3 \<subseteq> white_set ?A2"
    using scan_gray_set_refines [OF M2 sc u u] by blast
  have gf: "gc_frame ?Ob s1 s3" and t3: "tricolour h s1 R A1 A3"
    using 3(2) by (simp_all add: marking_def marked_from_def)
  have "barrier_clear s3" using v gc_frame_fields(17,18) [OF gf] by (simp add: barrier_clear_def)
  then have "mark_loop fuel fuel h s2 = Inr s3"
    using 3(1) f by (cases fuel) (simp_all add: scan_write_vector_clear)
  moreover have "traced s1 R A3" by (rule traced_antimono [OF t1(2) 3(4)])
  ultimately show ?thesis
    using s2(1) 3(2,3) tricolour_finish [OF t3 3(3)] by blast
qed

subsection \<open>The collection\<close>

lemma heap_inv_gc_count [simp]:
  "heap_inv T (s\<lparr>gc_count := n\<rparr>) A H = heap_inv T s A H"
proof -
  have "hole_seg (s\<lparr>gc_count := n\<rparr>) m H e = hole_seg s m H e" for m e by (rule hole_seg_eq) simp
  moreover have "PAGE_INDEX_TO_PTR (s\<lparr>gc_count := n\<rparr>) = PAGE_INDEX_TO_PTR s" by (rule page_macros_eq) simp
  moreover have "same_pages s (s\<lparr>gc_count := n\<rparr>)" by (simp add: same_pages_def)
  note same_pages_facts [OF this]
  ultimately show ?thesis by (simp add: heap_inv_def holes_ok_def)
qed

lemma heap_marking_barrier [simp]:
  "heap_marking (s\<lparr>enable_write_barrier := b\<rparr>) A = heap_marking s A"
proof -
  have "same_pages s (s\<lparr>enable_write_barrier := b\<rparr>)" by (simp add: same_pages_def)
  from same_pages_facts [OF this] show ?thesis by (simp add: heap_rep_def)
qed

text \<open>A heap that was marked and recycled has its invariant back.\<close>

lemma heap_inv_after:
  assumes I: "heap_inv {} s A H" and rep: "heap_rep (\<lambda>_. idle_rep) s' A'" and sp: "same_pages s s'"
    and ob: "\<And>i. i \<in> group_indices \<Longrightarrow> object_set A' i = object_set A i"
    and m: "\<And>a. a \<notin> header_cells (all_objects A) \<Longrightarrow> a \<notin> S \<Longrightarrow> memory s' a = memory s a"
    and S: "S \<inter> hole_cells s (fst ` set H) = {}"
  shows "heap_inv {} s' A' H"
proof -
  note d = heap_invD [OF I] and f = same_pages_facts [OF sp] and h = heap_repD [OF rep]
  have hp: "0 \<le> p \<and> p < total_partition_pages s \<and> (\<forall>j. pgroup (pages s p) \<noteq> Group j)"
    if hp: "p \<in> fst ` set H" for p
  proof -
    obtain k where k: "k \<in> set H" "p = fst k" using hp by auto
    then have "p \<in> (\<Union>h\<in>set H. hole_pages h)"
      using holes_okD(2) [OF d(7) k(1)] by (auto simp: hole_pages_def)
    then have "p \<in> empty_page_set s" using holes_okD(6) [OF d(7)] by auto
    then show ?thesis by (simp add: empty_page_set_def)
  qed
  have cells: "memory s' a = memory s a" if a: "a \<in> hole_cells s (fst ` set H)" for a
  proof (rule m)
    show "a \<notin> S" using S a by blast
    show "a \<notin> header_cells (all_objects A)"
    proof
      assume "a \<in> header_cells (all_objects A)"
      then obtain i x where x: "i \<in> group_indices" "x \<in> object_set A i" "a = x \<or> a = x + 8"
        by (auto simp: header_cells_def all_objects_def)
      show False using object_not_hole [OF I x(1,2) hp] x(3) a by blast
    qed
  qed
  have "hole_seg s' (memory s') H 0 = hole_seg s (memory s) H 0"
    using hole_seg_eq [of s' s] hole_seg_cong [of s H "memory s'" "memory s"] cells sp
    by (simp add: same_pages_def)
  then have "holes_ok s' {} H"
    using d(7) sp unfolding holes_ok_def f by (simp add: same_pages_def)
  then show ?thesis
    using h d(4,5) ob unfolding heap_inv_def by (simp add: f)
qed

lemma tricolour_object_set:
  assumes t: "tricolour h s0 R A0 A" and i: "i \<in> group_indices"
    and s: "grays (A0 i) = []" "blacks (A0 i) = []"
  shows "object_set A i = object_set A0 i"
  using tricolourD(1,2) [OF t i] s by (simp add: object_set_def)

lemma length_whites_unscanned:
  assumes "i \<in> group_indices"
  shows "length (whites (A i)) \<le> unscanned A"
proof -
  have "length (whites (A i)) + length (grays (A i)) \<le> unscanned A"
    unfolding unscanned_def using member_le_sum [of i group_indices "\<lambda>i. length (whites (A i)) + length (grays (A i))"] assms
    by simp
  then show ?thesis by simp
qed

lemma tricolour_unscanned:
  assumes t: "tricolour h s0 R A0 A" and g: "gray_set A = {}" and rep: "heap_marking s A"
  shows "i \<in> group_indices \<Longrightarrow> length (whites (A i)) \<le> length (whites (A0 i))"
proof -
  assume i: "i \<in> group_indices"
  have "length (whites (A i)) = card (set (whites (A i)))"
    using tricolourD(3) [OF t i] by (simp add: distinct_card)
  also have "\<dots> \<le> card (set (whites (A0 i)))" using tricolourD(1) [OF t i] by (intro card_mono) auto
  also have "\<dots> \<le> length (whites (A0 i))" by (rule card_length)
  finally show "length (whites (A i)) \<le> length (whites (A0 i))" .
qed

text \<open>The number of allocated objects bounds the scans, the passes and the walks over garbage.\<close>

definition allocated :: "(nat \<Rightarrow> agroup) \<Rightarrow> nat" where
  "allocated A = (\<Sum>i\<in>group_indices. length (blacks (A i)))"

text \<open>
  Behind the marking: the objects left white are recycled and the pages coalesced. Nothing
  but links and holes is written.
\<close>

definition swept :: "addr set \<Rightarrow> rt_state \<Rightarrow> rt_state \<Rightarrow> bool" where
  "swept Ob s s' \<longleftrightarrow>
     \<not> enable_write_barrier s' \<and> marked_color s' = marked_color s \<and> unmarked_color s' = unmarked_color s \<and>
     gc_count s' = gc_count s \<and>
     (\<forall>a. a \<notin> header_cells Ob \<longrightarrow> a \<notin> hole_cells s' (groupless s') \<longrightarrow> memory s' a = memory s a) \<and>
     (\<forall>q. aligned q \<longrightarrow> q + 8 \<notin> hole_cells s' (groupless s') \<longrightarrow>
        GET_STORAGE_CLASS (memory s') q = GET_STORAGE_CLASS (memory s) q) \<and> same_rest s s'"

lemma sweptD:
  assumes "swept Ob s s'"
  shows "\<not> enable_write_barrier s'" "marked_color s' = marked_color s" "unmarked_color s' = unmarked_color s"
    "gc_count s' = gc_count s"
    "a \<notin> header_cells Ob \<Longrightarrow> a \<notin> hole_cells s' (groupless s') \<Longrightarrow> memory s' a = memory s a"
    "aligned q \<Longrightarrow> q + 8 \<notin> hole_cells s' (groupless s') \<Longrightarrow>
      GET_STORAGE_CLASS (memory s') q = GET_STORAGE_CLASS (memory s) q"
    "same_rest s s'"
  using assms by (simp_all add: swept_def)

lemma swept_by:
  assumes g: "gc_frame Ob (s\<lparr>enable_write_barrier := False\<rparr>) s5" and c: "coalesced Ob s5 s'"
  shows "swept Ob s s'"
proof -
  note f = gc_frame_fields [OF g] and cf = coalesced_fields [OF c]
  have l: "links_only Ob (memory s) (memory s5)" using g by (simp add: gc_frame_def)
  have "PAGE_INDEX_TO_PTR s' = PAGE_INDEX_TO_PTR s5" by (rule page_macros_eq(1)) (simp add: cf(1))
  then have hc: "hole_cells s5 P = hole_cells s' P" for P by (simp add: hole_cells_def)
  have "same_rest s (s\<lparr>enable_write_barrier := False\<rparr>)" by (simp add: same_rest_def)
  then have "same_rest s s'" using same_rest_gc_frame [OF g] same_rest_coalesced [OF c] same_rest_trans by blast
  then show ?thesis
    using c cf f links_only_cell [OF l] links_only_storage_class [OF l]
    by (simp add: swept_def coalesced_def hc)
qed

lemma sweep_refines:
  assumes I: "heap_inv {} s A H" and rep: "heap_marking s3 A3" and g: "gray_set A3 = {}"
    and sp: "same_pages s s3" and ob: "\<And>i. i \<in> group_indices \<Longrightarrow> object_set A3 i = object_set A i"
    and m: "\<And>a. a \<in> hole_cells s (fst ` set H) \<Longrightarrow> a \<notin> header_cells (all_objects A) \<Longrightarrow> memory s3 a = memory s a"
    and len: "\<And>i. i \<in> group_indices \<Longrightarrow> length (whites (A3 i)) < fuel"
  obtains s' A' H' where "recycle_all_garbage fuel (s3\<lparr>enable_write_barrier := False\<rparr>) = Inr s'"
    and "heap_inv {} s' A' H'" and "swept (all_objects A) s3 s'"
    and "\<And>i. i \<in> group_indices \<Longrightarrow> blacks (A' i) = blacks (A3 i)"
    and "\<And>i. i \<in> group_indices \<Longrightarrow> set (greens (A' i)) \<subseteq> set (greens (A3 i)) \<union> set (whites (A3 i))"
    and "\<forall>q. 0 \<le> q \<longrightarrow> q < total_partition_pages s' \<longrightarrow> settled s' A' q \<and> pgroup (pages s' q) \<noteq> FREE_PAGE"
    and "\<forall>k\<in>set H'. fst k + snd k \<notin> empty_page_set s'"
proof -
  let ?s4 = "s3\<lparr>enable_write_barrier := False\<rparr>" and ?A5 = "on_groups a_recycle group_indices A3" and ?Ob = "all_objects A"
  have rep4: "heap_marking ?s4 A3" using rep by simp
  have all3: "all_objects A3 = ?Ob" using ob by (simp add: all_objects_def)
  obtain s5 where 5: "rfold (\<lambda>i. on_group i (recycle_group_garbage fuel)) group_list ?s4 = Inr s5"
    "heap_rep (\<lambda>_. idle_rep) s5 ?A5" "gc_frame ?Ob ?s4 s5"
    using recycle_groups_refines [OF rep4 g len] unfolding all3 by blast
  have "same_pages s3 ?s4" by (simp add: same_pages_def)
  then have sp5: "same_pages s s5"
    using sp gc_frame_same_pages [OF 5(3)] same_pages_trans by blast
  have gr3: "grays (A3 i) = []" if "i \<in> group_indices" for i using g that by (simp add: gray_set_def)
  have ob5: "object_set ?A5 i = object_set A i" if i: "i \<in> group_indices" for i
    using ob [OF i] i gr3 [OF i] by (auto simp: object_set_def on_groups_def)
  have l: "links_only ?Ob (memory s3) (memory s5)" using 5(3) by (simp add: gc_frame_def)
  have mem: "memory s5 a = memory s a" if "a \<notin> header_cells ?Ob" "a \<notin> - hole_cells s (fst ` set H)" for a
    using m [of a] that links_only_cell [OF l that(1)] by simp
  have I5: "heap_inv {} s5 ?A5 H" by (rule heap_inv_after [where S = "- hole_cells s (fst ` set H)", OF I 5(2) sp5 ob5 mem]) auto
  have allA5: "all_objects ?A5 = ?Ob" using ob5 by (simp add: all_objects_def)
  obtain s6 A6 H6 where 6: "coalesce_all_free_pages s5 = Inr s6" "heap_inv {} s6 A6 H6"
    "coalesced ?Ob s5 s6" "a_coalesced ?A5 A6"
    "\<forall>q. 0 \<le> q \<longrightarrow> q < total_partition_pages s6 \<longrightarrow> settled s6 A6 q \<and> pgroup (pages s6 q) \<noteq> FREE_PAGE"
    "\<forall>k\<in>set H6. fst k + snd k \<notin> empty_page_set s6"
    using coalesce_all_free_pages_refines [OF I5] unfolding allA5 by blast
  have lists: "blacks (A6 i) = blacks (A3 i)" "set (greens (A6 i)) \<subseteq> set (greens (A3 i)) \<union> set (whites (A3 i))"
    if i: "i \<in> group_indices" for i
    using 6(4) i by (auto simp: a_coalesced_def on_groups_def)
  show thesis
    by (rule that [OF _ 6(2) swept_by [OF 5(3) 6(3)] lists 6(5,6)]) (simp_all add: recycle_all_garbage_def 5(1) 6(1))
qed

text \<open>Objects that are retained are not free: they lie in one list of one group.\<close>

lemma heap_inv_green_not_black:
  assumes I: "heap_inv T s A H" and i: "i \<in> group_indices" and x: "x \<in> set (greens (A i))"
  shows "x \<notin> black_set A"
proof
  assume "x \<in> black_set A"
  then obtain j where j: "j \<in> group_indices" "x \<in> set (blacks (A j))" by (auto simp: black_set_def)
  then have "i = j"
    using x geometry_group_unique [OF heap_repD(4) [OF heap_inv_rep [OF I]] i j(1), of x] by (simp add: object_set_def)
  moreover have "distinct (objects (A i))"
    using heap_invD(6) [OF I i] by (simp add: idle_rep_def group_rep_def)
  ultimately show False using x j by (auto simp: objects_def active_def)
qed

text \<open>Flip and marking together: everything live is black, and only headers and the saved registers are written.\<close>

definition marked_heap :: "hooks \<Rightarrow> rt_state \<Rightarrow> rt_state \<Rightarrow> addr set \<Rightarrow> (nat \<Rightarrow> agroup) \<Rightarrow> addr set \<Rightarrow> rt_state \<Rightarrow> (nat \<Rightarrow> agroup) \<Rightarrow> bool" where
  "marked_heap h s s1 R A S s3 A3 \<longleftrightarrow>
     heap_marking s3 A3 \<and> gray_set A3 = {} \<and> same_pages s s3 \<and> black_set A3 = live h s1 R (black_set A) \<and>
     (\<forall>i\<in>group_indices. object_set A3 i = object_set A i \<and> length (whites (A3 i)) \<le> allocated A \<and>
        set (greens (A3 i)) = set (greens (A i)) \<and> set (whites (A3 i)) \<union> set (blacks (A3 i)) \<subseteq> set (blacks (A i))) \<and>
     (\<forall>a. a \<notin> header_cells (all_objects A) \<longrightarrow> a \<notin> S \<longrightarrow> memory s3 a = memory s a) \<and>
     (\<forall>q. aligned q \<longrightarrow> q + 8 \<notin> S \<longrightarrow> GET_STORAGE_CLASS (memory s3) q = GET_STORAGE_CLASS (memory s) q) \<and>
     marked_color s3 = unmarked_color s \<and> unmarked_color s3 = marked_color s \<and> gc_count s3 = gc_count s \<and>
     same_rest s s3"

lemma flip_and_mark:
  assumes I: "heap_inv {} s A H" and e: "\<not> enable_write_barrier s" and ok: "stoppable s ths A H"
    and fl: "flip ths s = Inr s1" and ro: "roots_ok fuel h (all_objects A) s1"
    and sc: "scannable h s1 (flipped A)" and v: "barrier_clear s" and f: "allocated A < fuel"
  obtains s2 s3 A3 where "scan_root_set fuel h s1 = Inr s2" and "mark_loop fuel fuel h s2 = Inr s3"
    and "enable_write_barrier s1" and "marked_heap h s s1 (set (root_words fuel h s1)) A (save_area s ths) s3 A3"
proof -
  have idle: "whites (A i) = [] \<and> grays (A i) = []" if "i \<in> group_indices" for i
    using heap_invD(6) [OF I that] by (simp add: idle_rep_def)
  let ?Ob = "all_objects A" and ?A1 = "flipped A" and ?R = "set (root_words fuel h s1)" and ?S = "save_area s ths"
  obtain sg where sg: "flip ths s = Inr (stopped ths sg)" "gc_frame ?Ob s sg" "save_area sg ths = ?S"
    "heap_marking (stopped ths sg) ?A1" "all_objects ?A1 = ?Ob"
    using flip_refines [OF I e ok] by blast
  have s1: "s1 = stopped ths sg" using fl sg(1) by simp
  note sf = stopped_fields [where s = sg and ths = ths, folded s1] and gs = gc_frame_fields [OF sg(2)]
  have "barrier_clear s1" using v by (simp add: barrier_clear_def sf gs)
  moreover have un: "unscanned ?A1 = allocated A" using idle by (simp add: unscanned_def allocated_def)
  moreover have wh: "white_set ?A1 = black_set A" by (simp add: color_sets)
  ultimately obtain s2 s3 A3 where 3: "scan_root_set fuel h s1 = Inr s2" "mark_loop fuel fuel h s2 = Inr s3"
    "marking h s1 ?R ?A1 s3 A3" "gray_set A3 = {}" "black_set A3 = live h s1 ?R (black_set A)"
    using mark_phase [OF sg(4) [folded s1] _ _ sc, of fuel] ro idle f unfolding sg(5) by auto
  have t3: "tricolour h s1 ?R ?A1 A3" and gf3: "gc_frame ?Ob s1 s3" and rep3: "heap_marking s3 A3"
    using 3(3) by (simp_all add: marking_def sg(5) marked_from_def)
  note g3 = gc_frame_fields [OF gf3]
  have sp3: "same_pages s s3"
    using same_pages_trans [OF same_pages_trans [OF gc_frame_same_pages [OF sg(2)] sf(1)] gc_frame_same_pages [OF gf3]] .
  have lists: "object_set A3 i = object_set A i" "length (whites (A3 i)) \<le> allocated A"
    "set (greens (A3 i)) = set (greens (A i))" "set (whites (A3 i)) \<union> set (blacks (A3 i)) \<subseteq> set (blacks (A i))"
    if i: "i \<in> group_indices" for i
  proof -
    have "object_set A3 i = object_set ?A1 i"
      using idle [OF i] by (intro tricolour_object_set [OF t3 i]) (simp_all add: i)
    then show "object_set A3 i = object_set A i" using idle [OF i] i by (auto simp: object_set_def)
    show "length (whites (A3 i)) \<le> allocated A"
      using tricolour_unscanned [OF t3 3(4) rep3 i] length_whites_unscanned [OF i, of ?A1] un by simp
    show "set (greens (A3 i)) = set (greens (A i))" "set (whites (A3 i)) \<union> set (blacks (A3 i)) \<subseteq> set (blacks (A i))"
      using tricolourD(1,2) [OF t3 i] i by auto
  qed
  have l: "links_only ?Ob (memory s) (memory sg)" "links_only ?Ob (memory s1) (memory s3)"
    using sg(2) gf3 by (simp_all add: gc_frame_def)
  have m1: "memory s1 a = memory sg a" if "a \<notin> ?S" for a
    unfolding s1 using that sg(3) by (intro stopped_memory) simp
  have "memory s3 a = memory s a" if "a \<notin> header_cells ?Ob" "a \<notin> ?S" for a
    using links_only_cell [OF l(1) that(1)] links_only_cell [OF l(2) that(1)] m1 [OF that(2)] by simp
  moreover have "GET_STORAGE_CLASS (memory s3) q = GET_STORAGE_CLASS (memory s) q" if "aligned q" "q + 8 \<notin> ?S" for q
  proof -
    have "GET_STORAGE_CLASS (memory s1) q = GET_STORAGE_CLASS (memory sg) q"
      using m1 [OF that(2)] by (simp add: GET_STORAGE_CLASS_def)
    then show ?thesis using l [THEN links_only_storage_class, OF that(1)] by simp
  qed
  moreover have "same_rest s s3"
  proof -
    have "same_rest sg (stopped ths sg)" by (simp add: same_rest_def stopped_def)
    then show ?thesis
      using same_rest_gc_frame [OF sg(2)] same_rest_gc_frame [OF gf3] same_rest_trans unfolding s1 by blast
  qed
  ultimately have "marked_heap h s s1 ?R A ?S s3 A3"
    using rep3 3(4,5) sp3 lists g3 sf gs by (simp add: marked_heap_def)
  then show thesis using that 3(1,2) sf(2) by blast
qed

lemma full_gc_refines:
  assumes I: "heap_inv {} s A H" and e: "\<not> enable_write_barrier s" and ok: "stoppable s ths A H"
    and fl: "flip ths s = Inr s1" and ro: "roots_ok fuel h (all_objects A) s1"
    and sc: "scannable h s1 (flipped A)" and v: "barrier_clear s" and f: "allocated A < fuel"
  shows "\<exists>s' A' H'. full_gc fuel h ths s = Inr s' \<and> heap_inv {} s' A' H' \<and>
    black_set A' = live h s1 (set (root_words fuel h s1)) (black_set A) \<and>
    (\<forall>i\<in>group_indices. set (greens (A' i)) \<subseteq> set (greens (A i)) \<union> set (blacks (A i)) - black_set A' \<and>
       set (blacks (A' i)) \<subseteq> set (blacks (A i))) \<and>
    (\<forall>q. 0 \<le> q \<longrightarrow> q < total_partition_pages s' \<longrightarrow> settled s' A' q \<and> pgroup (pages s' q) \<noteq> FREE_PAGE) \<and>
    (\<forall>k\<in>set H'. fst k + snd k \<notin> empty_page_set s') \<and>
    (\<forall>a. a \<notin> header_cells (all_objects A) \<longrightarrow> a \<notin> save_area s ths \<longrightarrow>
       a \<notin> hole_cells s' (groupless s') \<longrightarrow> memory s' a = memory s a) \<and>
    (\<forall>q. aligned q \<longrightarrow> q + 8 \<notin> save_area s ths \<longrightarrow> q + 8 \<notin> hole_cells s' (groupless s') \<longrightarrow>
       GET_STORAGE_CLASS (memory s') q = GET_STORAGE_CLASS (memory s) q) \<and>
    \<not> enable_write_barrier s' \<and> marked_color s' = unmarked_color s \<and> unmarked_color s' = marked_color s \<and>
    gc_count s' = c_long (gc_count s + 1) \<and> same_rest s s'"
proof -
  let ?Ob = "all_objects A" and ?R = "set (root_words fuel h s1)" and ?S = "save_area s ths"
  obtain s2 s3 A3 where 3: "scan_root_set fuel h s1 = Inr s2" "mark_loop fuel fuel h s2 = Inr s3" "enable_write_barrier s1"
    and mh: "marked_heap h s s1 ?R A ?S s3 A3"
    by (rule flip_and_mark [OF assms])
  have m: "heap_marking s3 A3" "gray_set A3 = {}" "same_pages s s3" "black_set A3 = live h s1 ?R (black_set A)"
    "\<And>i. i \<in> group_indices \<Longrightarrow> object_set A3 i = object_set A i"
    "\<And>i. i \<in> group_indices \<Longrightarrow> length (whites (A3 i)) < fuel"
    "\<And>i. i \<in> group_indices \<Longrightarrow> set (greens (A3 i)) = set (greens (A i))"
    "\<And>i. i \<in> group_indices \<Longrightarrow> set (whites (A3 i)) \<union> set (blacks (A3 i)) \<subseteq> set (blacks (A i))"
    "\<And>a. a \<notin> header_cells ?Ob \<Longrightarrow> a \<notin> ?S \<Longrightarrow> memory s3 a = memory s a"
    "\<And>q. aligned q \<Longrightarrow> q + 8 \<notin> ?S \<Longrightarrow> GET_STORAGE_CLASS (memory s3) q = GET_STORAGE_CLASS (memory s) q"
    "marked_color s3 = unmarked_color s" "unmarked_color s3 = marked_color s" "gc_count s3 = gc_count s" "same_rest s s3"
    using mh f unfolding marked_heap_def by (blast, blast, blast, blast, blast, fastforce, blast, blast, blast, blast, blast, blast, blast, blast)
  have "a \<notin> ?S" if "a \<in> hole_cells s (fst ` set H)" for a using ok that unfolding stoppable_def by blast
  then obtain s6 A6 H6 where 6: "recycle_all_garbage fuel (s3\<lparr>enable_write_barrier := False\<rparr>) = Inr s6"
    "heap_inv {} s6 A6 H6" "swept ?Ob s3 s6"
    "\<And>i. i \<in> group_indices \<Longrightarrow> blacks (A6 i) = blacks (A3 i)"
    "\<And>i. i \<in> group_indices \<Longrightarrow> set (greens (A6 i)) \<subseteq> set (greens (A3 i)) \<union> set (whites (A3 i))"
    "\<forall>q. 0 \<le> q \<longrightarrow> q < total_partition_pages s6 \<longrightarrow> settled s6 A6 q \<and> pgroup (pages s6 q) \<noteq> FREE_PAGE"
    "\<forall>k\<in>set H6. fst k + snd k \<notin> empty_page_set s6"
    using sweep_refines [OF I m(1-3,5,9,6)] by blast
  note sw = sweptD [OF 6(3)]
  let ?s' = "s6\<lparr>gc_count := c_long (gc_count s6 + 1)\<rparr>"
  have eq: "full_gc fuel h ths s = Inr ?s'" using fl 3 6(1) by (simp add: full_gc_def)
  have black: "black_set A6 = live h s1 ?R (black_set A)" using m(4) 6(4) by (simp add: black_set_def)
  have lists: "set (greens (A6 i)) \<subseteq> set (greens (A i)) \<union> set (blacks (A i)) - black_set A6"
    "set (blacks (A6 i)) \<subseteq> set (blacks (A i))" if i: "i \<in> group_indices" for i
    using m(7,8) [OF i] 6(4,5) [OF i] heap_inv_green_not_black [OF 6(2) i] by auto
  have hc: "hole_cells ?s' (groupless ?s') = hole_cells s6 (groupless s6)"
    using page_macros_eq(1) [of ?s' s6] by (simp add: hole_cells_def groupless_def)
  have frame: "memory ?s' a = memory s a"
    if "a \<notin> header_cells ?Ob" "a \<notin> ?S" "a \<notin> hole_cells ?s' (groupless ?s')" for a
    using sw(5) [OF that(1)] that(3) m(9) [OF that(1,2)] by (simp add: hc)
  have sclass: "GET_STORAGE_CLASS (memory ?s') q = GET_STORAGE_CLASS (memory s) q"
    if "aligned q" "q + 8 \<notin> ?S" "q + 8 \<notin> hole_cells ?s' (groupless ?s')" for q
    using sw(6) [OF that(1)] that(3) m(10) [OF that(1,2)] by (simp add: hc)
  have fin: "\<not> enable_write_barrier ?s'" "marked_color ?s' = unmarked_color s" "unmarked_color ?s' = marked_color s"
    "gc_count ?s' = c_long (gc_count s + 1)"
    using sw(1-4) m(11-13) by simp_all
  have "same_rest s6 ?s'" by (simp add: same_rest_def)
  then have rest: "same_rest s ?s'" using m(14) sw(7) same_rest_trans by blast
  have ps: "page_slots (s6\<lparr>gc_count := n\<rparr>) q i = page_slots s6 q i" for n q i
    by (rule page_slots_frame) simp
  have "settled ?s' A6 q \<and> pgroup (pages ?s' q) \<noteq> FREE_PAGE"
    if "0 \<le> q" "q < total_partition_pages ?s'" for q
    using 6(6) that by (simp add: settled_def ps)
  moreover have "empty_page_set ?s' = empty_page_set s6" by (simp add: empty_page_set_def)
  ultimately show ?thesis
    using eq 6(2,7) black lists frame sclass fin rest by (intro exI [of _ ?s'] exI [of _ A6] exI [of _ H6]) simp
qed

text \<open>The body of an object holds no header and no hole, so that its contents stay.\<close>

lemma body_no_header:
  assumes I: "heap_inv T s A H" and i: "i \<in> group_indices" and x: "x \<in> object_set A i"
    and a: "uint x + 16 \<le> uint a" "uint a < uint x + 2 ^ i"
  shows "a \<notin> header_cells (all_objects A)"
  using body_not_header [OF heap_invD(1) [OF I] heap_repD(4) [OF heap_inv_rep [OF I]] i x a]
  by (simp add: all_objects_def)

lemma body_no_hole:
  assumes I: "heap_inv T s A H" and i: "i \<in> group_indices" and x: "x \<in> object_set A i"
    and a: "uint x \<le> uint a" "uint a < uint x + 2 ^ i"
  shows "a \<notin> hole_cells s (groupless s)"
proof
  note d = heap_invD [OF I]
  have xo: "x \<in> page_objects s i" using x d(5) [OF i] by simp
  note b = object_block(3) [OF d(1,3,4) xo a]
  assume "a \<in> hole_cells s (groupless s)"
  then obtain p where p: "p \<in> groupless s" "a = PAGE_INDEX_TO_PTR s p \<or> a = PAGE_INDEX_TO_PTR s p + 8"
    by (auto simp: hole_cells_def)
  have pb: "0 \<le> p" "p < total_partition_pages s" using p(1) by (simp_all add: groupless_def)
  have u: "uint (PAGE_INDEX_TO_PTR s p) = uint (first_partition_ptr s) + p * BYTES_PER_PAGE"
    by (rule uint_PAGE_INDEX_TO_PTR [OF d(1) pb(1)]) (use pb in simp)
  have "uint (PAGE_INDEX_TO_PTR s p) < 2 ^ 48"
    unfolding u using d(1) pb by (simp add: layout_ok_def config_defs)
  then have u8: "uint (PAGE_INDEX_TO_PTR s p + 8) = uint (PAGE_INDEX_TO_PTR s p) + 8"
    by (intro uint_plus_8) simp
  have "PTR_TO_PAGE_INDEX s a = p"
    by (rule page_of_interval(2) [OF d(1) pb]) (use p(2) u u8 in \<open>auto simp: config_defs\<close>)
  then show False using b p(1) by (simp add: PTR_TO_GROUP_def groupless_def)
qed

lemma black_object_set: "x \<in> set (blacks (A i)) \<Longrightarrow> x \<in> object_set A i"
  by (simp add: object_set_def)

lemma retained_body:
  assumes I: "heap_inv T s A H" and I': "heap_inv T' s' A' H'" and i: "i \<in> group_indices"
    and xo: "x \<in> object_set A i" and xo': "x \<in> object_set A' i"
  shows "uint x + 16 \<le> uint a \<Longrightarrow> uint a < uint x + 2 ^ i \<Longrightarrow> a \<notin> header_cells (all_objects A)"
    and "uint x + 16 \<le> uint a \<Longrightarrow> uint a < uint x + 2 ^ i \<Longrightarrow> a \<notin> hole_cells s' (groupless s')"
    and "x + 8 \<notin> hole_cells s' (groupless s')" and "aligned x"
proof -
  show "aligned x"
    using heap_rep_headers_ok(1) [OF heap_inv_rep [OF I'] framed_idle_rep i] xo' by (auto dest: headers_okD)
  have "uint x + 2 ^ i \<le> 2 ^ 47"
    using geometryD(3) [OF heap_repD(4) [OF heap_inv_rep [OF I]] i xo] heap_invD(1) [OF I]
    by (simp add: layout_ok_def)
  then have "uint (x + 8) = uint x + 8" using group_indices_bounds(1) [OF i] by (intro uint_plus_8) simp
  then show "x + 8 \<notin> hole_cells s' (groupless s')"
    using group_indices_bounds(1) [OF i] by (intro body_no_hole [OF I' i xo']) simp_all
  show "uint x + 16 \<le> uint a \<Longrightarrow> uint a < uint x + 2 ^ i \<Longrightarrow> a \<notin> header_cells (all_objects A)"
    by (rule body_no_header [OF I i xo])
  show "uint x + 16 \<le> uint a \<Longrightarrow> uint a < uint x + 2 ^ i \<Longrightarrow> a \<notin> hole_cells s' (groupless s')"
    by (rule body_no_hole [OF I' i xo']) simp_all
qed

lemma full_gc_contents:
  assumes I: "heap_inv {} s A H" and "\<not> enable_write_barrier s" and ok: "stoppable s ths A H"
    and "barrier_clear s" and "allocated A < fuel"
    and r: "\<And>s1. flip ths s = Inr s1 \<Longrightarrow> roots_ok fuel h (all_objects A) s1 \<and> scannable h s1 (flipped A)"
  shows "\<exists>s' A' H'. full_gc fuel h ths s = Inr s' \<and> heap_inv {} s' A' H' \<and>
    (\<forall>i\<in>group_indices. \<forall>x\<in>set (blacks (A' i)).
       x \<in> set (blacks (A i)) \<and>
       (\<forall>a. uint x + 16 \<le> uint a \<longrightarrow> uint a < uint x + 2 ^ i \<longrightarrow> a \<notin> save_area s ths \<longrightarrow>
          memory s' a = memory s a) \<and>
       (x + 8 \<notin> save_area s ths \<longrightarrow> GET_STORAGE_CLASS (memory s') x = GET_STORAGE_CLASS (memory s) x))"
proof -
  obtain s1 where fl: "flip ths s = Inr s1" using flip_refines [OF assms(1-3)] by blast
  note r1 = r [OF fl, THEN conjunct1] r [OF fl, THEN conjunct2]
  obtain s' A' H' where g: "full_gc fuel h ths s = Inr s'" and I': "heap_inv {} s' A' H'"
    and bl: "\<And>i. i \<in> group_indices \<Longrightarrow> set (blacks (A' i)) \<subseteq> set (blacks (A i))"
    and m: "\<And>a. a \<notin> header_cells (all_objects A) \<Longrightarrow> a \<notin> save_area s ths \<Longrightarrow>
       a \<notin> hole_cells s' (groupless s') \<Longrightarrow> memory s' a = memory s a"
    and c: "\<And>q. aligned q \<Longrightarrow> q + 8 \<notin> save_area s ths \<Longrightarrow> q + 8 \<notin> hole_cells s' (groupless s') \<Longrightarrow>
       GET_STORAGE_CLASS (memory s') q = GET_STORAGE_CLASS (memory s) q"
    using full_gc_refines [OF assms(1-3) fl r1 assms(4,5)] by (metis (no_types, lifting))
  have "x \<in> set (blacks (A i)) \<and>
       (\<forall>a. uint x + 16 \<le> uint a \<longrightarrow> uint a < uint x + 2 ^ i \<longrightarrow> a \<notin> save_area s ths \<longrightarrow>
          memory s' a = memory s a) \<and>
       (x + 8 \<notin> save_area s ths \<longrightarrow> GET_STORAGE_CLASS (memory s') x = GET_STORAGE_CLASS (memory s) x)"
    if i: "i \<in> group_indices" and x: "x \<in> set (blacks (A' i))" for i x
  proof -
    have b: "x \<in> set (blacks (A i))" using bl [OF i] x by blast
    note rb = retained_body [OF I I' i black_object_set [where A = A, OF b] black_object_set [where A = A', OF x]]
    have "memory s' a = memory s a"
      if a: "uint x + 16 \<le> uint a" "uint a < uint x + 2 ^ i" "a \<notin> save_area s ths" for a
      using m [OF rb(1) [OF a(1,2)] a(3) rb(2) [OF a(1,2)]] .
    then show ?thesis using b c [OF rb(4) _ rb(3)] by blast
  qed
  then show ?thesis using g I' by blast
qed

subsection \<open>The counters of a group\<close>

text \<open>
  A group has at most 2^26 objects, as each takes 32 bytes of a partition of less than 2^31:
  the counters of a group, which are ints in the code, stay in range, and so do their sums.
\<close>

lemma object_count_bound:
  assumes lay: "layout_ok s" and geo: "geometry s (object_set A)" and i: "i \<in> group_indices"
    and d: "distinct (objects (A i))"
  shows "length (objects (A i)) \<le> 2 ^ 26"
proof -
  let ?f = "uint (first_partition_ptr s)" and ?b = "\<lambda>x. (uint x - uint (first_partition_ptr s)) div 32"
  have size: "(32 :: int) \<le> 2 ^ i" by (rule group_indices_bounds(1) [OF i])
  have "inj_on ?b (object_set A i)"
  proof (rule inj_onI, rule ccontr)
    fix x y assume x: "x \<in> object_set A i" and y: "y \<in> object_set A i" and e: "?b x = ?b y" and n: "x \<noteq> y"
    have "uint x + 32 \<le> uint y \<or> uint y + 32 \<le> uint x"
      using geometryD(6) [OF geo i i x y n] size by linarith
    moreover have "(a - f) div 32 < (b - f) div 32" if "a + 32 \<le> b" for a b f :: int
      using zdiv_mono1 [of "a - f + 32" "b - f" 32] that by simp
    ultimately show False using e by fastforce
  qed
  moreover have "?b ` object_set A i \<subseteq> {0..<2 ^ 26}"
  proof (rule image_subsetI)
    fix x assume x: "x \<in> object_set A i"
    have p: "IN_PARTITION s x" by (rule geometryD(1) [OF geo i x])
    then have "?f \<le> uint x" "uint x - ?f < total_partition_pages s * BYTES_PER_PAGE"
      using lay unfolding IN_PARTITION_uint layout_ok_def by simp_all
    moreover have "total_partition_pages s * BYTES_PER_PAGE < 2 ^ 31" using lay by (simp add: layout_ok_def config_defs)
    ultimately show "?b x \<in> {0..<2 ^ 26}" by (simp add: pos_imp_zdiv_nonneg_iff)
  qed
  ultimately have "card (object_set A i) \<le> card {0..<2 ^ 26 :: int}"
    by (intro card_inj_on_le [of ?b]) simp_all
  then show ?thesis using distinct_card [OF d] by (simp add: object_set_def)
qed

lemma counters_fit:
  assumes rep: "heap_rep (\<lambda>_. P) s A" and i: "i \<in> group_indices"
    and P: "P (marked_color s) (unmarked_color s) (memory s) (groups s i) (A i) \<Longrightarrow>
      group_rep mk um m (groups s i) (A i)"
  shows "c_int (white_count (groups s i)) = white_count (groups s i)"
    and "c_int (black_scanned_count (groups s i) + black_alloc_count (groups s i)) =
      black_scanned_count (groups s i) + black_alloc_count (groups s i)"
proof -
  note r = group_repD [OF P [OF heap_repD(5) [OF rep i]]]
  have "int (length (objects (A i))) \<le> int (2 ^ 26)"
    by (rule of_nat_mono) (rule object_count_bound [OF heap_repD(1,4) [OF rep] i r(2)])
  then have n: "int (length (whites (A i))) < 2 ^ 31" "int (length (blacks (A i))) < 2 ^ 31"
    by (simp_all add: objects_def active_def)
  show "c_int (white_count (groups s i)) = white_count (groups s i)" unfolding r(13) by (rule c_int_id) (use n in simp_all)
  show "c_int (black_scanned_count (groups s i) + black_alloc_count (groups s i)) =
      black_scanned_count (groups s i) + black_alloc_count (groups s i)"
    unfolding r(14) by (rule c_int_id) (use n in simp_all)
qed

end
