(* ===== verification/Sample_Heap.thy ===== *)
theory Sample_Heap
  imports Coalesce_Loops
begin

text \<open>
  A small heap between two collections, on which the properties are tried: five pages from
  address \<open>0x10000\<close>, three allocated one page objects, a free one, and a hole. The first
  object is of a custom class, and its first word points into the second; the third is not
  referred to. The one global root, at \<open>0x1000\<close>, points into the first object, and one mutator
  thread has an empty stack at \<open>0x3000\<close>.
\<close>

definition sample_memory :: mem where
  "sample_memory = (\<lambda>_. 0)
     (0x1000 := 0x10010,
      0x10008 := 0x11002, 0x10010 := 0x11010,
      0x11000 := 0x10000, 0x11008 := 0x12000,
      0x12000 := 0x11000, 0x12008 := 0x13000,
      0x13000 := 0x12003,
      0x14000 := 1)"

definition empty_group :: "nat \<Rightarrow> group_info" where
  "empty_group i = \<lparr>gsize = 2 ^ i, gindex = i, glast = 0, gfree = 0, ggray = 0, gblack = 0, gwhite = 0,
     white_count = 0, black_scanned_count = 0, black_alloc_count = 0\<rparr>"

definition sample_groups :: "nat \<Rightarrow> group_info" where
  "sample_groups = empty_group
     (12 := (empty_group 12)\<lparr>glast := 0x13000, gfree := 0x13000, gblack := 0x10000, black_alloc_count := 3\<rparr>)"

definition sample_pages :: "int \<Rightarrow> page_info" where
  "sample_pages = (\<lambda>_. \<lparr>pbase = 0, pgroup = EMPTY_PAGE\<rparr>)
     (0 := \<lparr>pbase = 0x10000, pgroup = Group 12\<rparr>, 1 := \<lparr>pbase = 0x11000, pgroup = Group 12\<rparr>,
      2 := \<lparr>pbase = 0x12000, pgroup = Group 12\<rparr>, 3 := \<lparr>pbase = 0x13000, pgroup = Group 12\<rparr>)"

definition sample_state :: rt_state where
  "sample_state = \<lparr>memory = sample_memory, first_partition_ptr = 0x10000, last_partition_ptr = 0x15000,
     total_partition_pages = 5, pages = sample_pages, groups = sample_groups, empty_pages = 0x14000,
     segments = [\<lparr>first_segment_ptr = 0x10000, last_segment_ptr = 0x15000, segment_page_count = 5,
       seg_type = HEAP_SEGMENT\<rparr>],
     marked_color = GENERATION0, unmarked_color = GENERATION1, enable_write_barrier = False, gc_count = 0,
     RTwrite_vector = (\<lambda>_. 0), RTwrite_vector_length = 10, first_static_ptr = 0, last_static_ptr = 0,
     static_frontier_ptr = 0, global_roots = [0x1000],
     saved_threads = replicate 20 \<lparr>registers = 0x2000, saved_stack_base = 0x3000, saved_stack_size = 0\<rparr>,
     total_saved_threads = 0, saved_no_write_barrier_state = 0, RTno_write_barrier_state_ptr = 0,
     RTatomic_gc = False, run_gc = False\<rparr>"

definition sample_lists :: "nat \<Rightarrow> agroup" where
  "sample_lists = (\<lambda>_. \<lparr>whites = [], grays = [], blacks = [], greens = []\<rparr>)
     (12 := \<lparr>whites = [], grays = [], blacks = [0x10000, 0x11000, 0x12000], greens = [0x13000]\<rparr>)"

definition sample_holes :: "hole list" where
  "sample_holes = [(4, 1)]"

lemmas sample_defs = sample_state_def sample_memory_def sample_groups_def sample_pages_def
  sample_lists_def sample_holes_def empty_group_def

lemma sample_fields [simp]:
  "first_partition_ptr sample_state = 0x10000" "last_partition_ptr sample_state = 0x15000"
  "total_partition_pages sample_state = 5" "pages sample_state = sample_pages"
  "groups sample_state = sample_groups" "memory sample_state = sample_memory"
  "marked_color sample_state = GENERATION0" "unmarked_color sample_state = GENERATION1"
  "enable_write_barrier sample_state = False" "empty_pages sample_state = 0x14000"
  by (simp_all add: sample_state_def)

lemma sample_layout: "layout_ok sample_state"
  by (simp add: layout_ok_def config_defs)

lemma sample_page_ptr:
  "PAGE_INDEX_TO_PTR sample_state 0 = 0x10000" "PAGE_INDEX_TO_PTR sample_state 1 = 0x11000"
  "PAGE_INDEX_TO_PTR sample_state 2 = 0x12000" "PAGE_INDEX_TO_PTR sample_state 3 = 0x13000"
  "PAGE_INDEX_TO_PTR sample_state 4 = 0x14000"
  by (simp_all add: PAGE_INDEX_TO_PTR_def config_defs signed_take_bit_int_eq_self)

lemma sample_page_index:
  "PTR_TO_PAGE_INDEX sample_state 0x10000 = 0" "PTR_TO_PAGE_INDEX sample_state 0x11000 = 1"
  "PTR_TO_PAGE_INDEX sample_state 0x12000 = 2" "PTR_TO_PAGE_INDEX sample_state 0x13000 = 3"
  using page_index_roundtrip [OF sample_layout, of 0] page_index_roundtrip [OF sample_layout, of 1]
    page_index_roundtrip [OF sample_layout, of 2] page_index_roundtrip [OF sample_layout, of 3]
  by (simp_all add: sample_page_ptr)

lemma sample_page_group:
  "0 \<le> k \<Longrightarrow> k < 5 \<Longrightarrow> pgroup (sample_pages k) = (if k = 4 then EMPTY_PAGE else Group 12)"
  "0 \<le> k \<Longrightarrow> k < 4 \<Longrightarrow> pbase (sample_pages k) = PAGE_INDEX_TO_PTR sample_state k"
proof -
  assume "0 \<le> k" "k < 5"
  then have "k = 0 \<or> k = 1 \<or> k = 2 \<or> k = 3 \<or> k = 4" by arith
  then show "pgroup (sample_pages k) = (if k = 4 then EMPTY_PAGE else Group 12)"
    by (auto simp: sample_pages_def)
next
  assume "0 \<le> k" "k < 4"
  then have "k = 0 \<or> k = 1 \<or> k = 2 \<or> k = 3" by arith
  then show "pbase (sample_pages k) = PAGE_INDEX_TO_PTR sample_state k"
    by (auto simp: sample_pages_def sample_page_ptr)
qed

lemma sample_page_table: "page_table_ok sample_state"
proof (rule page_table_okI [OF sample_layout])
  fix k i assume k: "0 \<le> k" "k < total_partition_pages sample_state"
    "pgroup (pages sample_state k) = Group i"
  then have i: "i = 12" "k < 4" using sample_page_group(1) [of k] by (auto split: if_splits)
  then show "i \<in> group_indices" by (simp add: group_indices_def config_defs)
  show "\<exists>b. 0 \<le> b \<and> b \<le> k \<and> k < b + 2 ^ (i - PAGE_POWER) \<and>
      b + 2 ^ (i - PAGE_POWER) \<le> total_partition_pages sample_state \<and>
      pbase (pages sample_state k) = PAGE_INDEX_TO_PTR sample_state b \<and>
      (\<forall>q. b \<le> q \<and> q < b + 2 ^ (i - PAGE_POWER) \<longrightarrow> pages sample_state q = pages sample_state k)"
    using k(1,2) i sample_page_group(2) [of k] by (intro exI [of _ k]) (auto simp: PAGE_POWER_def)
qed

lemma sample_objects:
  assumes "i \<in> group_indices"
  shows "object_set sample_lists i = page_objects sample_state i"
proof (cases "i = 12")
  case False
  have "PTR_TO_GROUP sample_state x \<noteq> Group i" if x: "IN_PARTITION sample_state x" for x
    using PTR_TO_PAGE_INDEX_bounds [OF sample_layout x] sample_page_group(1) [of "PTR_TO_PAGE_INDEX sample_state x"]
      False by (simp add: PTR_TO_GROUP_def)
  then show ?thesis
    using False by (auto simp: page_objects_def object_set_def sample_lists_def)
next
  case True
  have e: "set (objects (sample_lists 12)) = {0x10000, 0x11000, 0x12000, 0x13000}"
    by (auto simp: sample_lists_def)
  have "x \<in> {0x10000, 0x11000, 0x12000, 0x13000}" if "x \<in> page_objects sample_state 12" for x
  proof -
    let ?k = "PTR_TO_PAGE_INDEX sample_state x"
    have x: "IN_PARTITION sample_state x" "pgroup (sample_pages ?k) = Group 12" "x = pbase (sample_pages ?k)"
      using that by (simp_all add: page_objects_def PTR_TO_GROUP_def PAGE_POWER_def)
    have b: "0 \<le> ?k" "?k < 5" using PTR_TO_PAGE_INDEX_bounds [OF sample_layout x(1)] by simp_all
    then have "?k < 4" using sample_page_group(1) [OF b] x(2) by (auto split: if_splits)
    then have "?k = 0 \<or> ?k = 1 \<or> ?k = 2 \<or> ?k = 3" using b by arith
    then show ?thesis using x(3) by (auto simp: sample_pages_def)
  qed
  moreover have "{0x10000, 0x11000, 0x12000, 0x13000} \<subseteq> page_objects sample_state 12"
    by (simp add: page_objects_def PTR_TO_GROUP_def PAGE_POWER_def sample_page_index IN_PARTITION_def
        sample_pages_def)
  ultimately show ?thesis unfolding True object_set_def e by blast
qed

lemma sample_headers:
  "get_prev sample_memory 0x10000 = 0" "get_next sample_memory 0x10000 = 0x11000"
  "get_prev sample_memory 0x11000 = 0x10000" "get_next sample_memory 0x11000 = 0x12000"
  "get_prev sample_memory 0x12000 = 0x11000" "get_next sample_memory 0x12000 = 0x13000"
  "get_prev sample_memory 0x13000 = 0x12000" "get_next sample_memory 0x13000 = 0"
  "GET_COLOR sample_memory 0x10000 = 0" "GET_COLOR sample_memory 0x11000 = 0"
  "GET_COLOR sample_memory 0x12000 = 0" "GET_COLOR sample_memory 0x13000 = 3"
  "GET_STORAGE_CLASS sample_memory 0x10000 = 2" "GET_STORAGE_CLASS sample_memory 0x11000 = 0"
  "GET_STORAGE_CLASS sample_memory 0x12000 = 0"
  by (simp_all add: hdr_defs GET_LINK_POINTER_def GET_LINK_INFO_def LINK_POINTER_MASK_def
      LINK_INFO_MASK_def LINK_INFO_BITS_def sample_memory_def)

lemma sample_aligned: "aligned 0x10000" "aligned 0x11000" "aligned 0x12000" "aligned 0x13000"
  by (simp_all add: aligned_iff_uint)

lemma sample_idle_rep:
  "idle_rep GENERATION0 GENERATION1 sample_memory (sample_groups i) (sample_lists i)"
proof (cases "i = 12")
  case True
  show ?thesis
    unfolding True idle_rep_def
  proof (intro conjI group_repI)
    show "headers_ok (set (objects (sample_lists 12)))"
      by (simp add: sample_lists_def sample_aligned)
  qed (simp_all add: sample_lists_def sample_groups_def empty_group_def objects_def active_def dlist_def
      sample_headers colored_def black_pointer_ok_def color_defs)
next
  case False
  then show ?thesis
    by (simp add: idle_rep_def group_rep_def sample_groups_def empty_group_def sample_lists_def
        objects_def active_def dlist_def colored_def black_pointer_ok_def)
qed

lemma sample_holes_ok: "holes_ok sample_state {} sample_holes"
proof -
  have "k = 4" if "0 \<le> k" "k < 5" "pgroup (sample_pages k) = EMPTY_PAGE" for k
    using sample_page_group(1) [OF that(1,2)] that(3) by (simp split: if_splits)
  then have e: "empty_page_set sample_state = {4}"
    using sample_page_group(1) [of 4] by (auto simp: empty_page_set_def)
  have "hole_pages (4, 1) = {4}" by (auto simp: hole_pages_def)
  moreover have "sample_memory 0x14000 = 1" "sample_memory (0x14000 + 8) = 0"
    by (simp_all add: sample_memory_def)
  ultimately show ?thesis
    unfolding holes_ok_def holes_disjoint_def sample_holes_def e
    by (simp add: sample_page_ptr hole_next_def)
qed

lemma sample_groups_ok: "groups_ok sample_state"
  by (simp add: groups_ok_def sample_groups_def empty_group_def)

lemma sample_heap_inv: "heap_inv {} sample_state sample_lists sample_holes"
  unfolding heap_inv_def
proof (intro conjI ballI)
  fix i assume "i \<in> group_indices"
  then show "object_set sample_lists i = page_objects sample_state i" by (rule sample_objects)
qed (simp_all add: sample_layout sample_page_table sample_idle_rep sample_holes_ok sample_groups_ok
    colors_ok_def)

end
