(* ===== verification/Sample_GC.thy ===== *)
theory Sample_GC
  imports Collection Sample_Heap
begin

text \<open>
  The sample heap with one mutator thread, one of whose registers points into the second
  object, and with a custom scanner that scans the first word of an object.
\<close>

definition sample_hooks :: hooks where
  "sample_hooks = no_hooks\<lparr>custom_scanner := Some (\<lambda>m low high. [m low]), total_custom_scanners := 1\<rparr>"

definition sample_thread :: mutator where
  "sample_thread = \<lparr>gregs = (replicate 23 0)[0 := 0x11020, 15 := 0x5000], stack_bottom = 0x5000,
     kill_result = 0, key_set = True\<rparr>"

lemma sample_thread_ok: "mutator_ok sample_thread" "live_stack_size sample_thread = 0"
  "stack_longs sample_thread = 0"
  by (simp_all add: mutator_ok_def sample_thread_def live_stack_size_def stack_longs_def NREG_def REG_RSP_def)

lemma sample_all_objects: "all_objects sample_lists = {0x10000, 0x11000, 0x12000, 0x13000}"
proof -
  have "object_set sample_lists i = (if i = 12 then {0x10000, 0x11000, 0x12000, 0x13000} else {})" for i
    by (auto simp: object_set_def sample_lists_def)
  moreover have "12 \<in> group_indices" by (simp add: group_indices_def config_defs)
  ultimately show ?thesis by (auto simp: all_objects_def split: if_splits)
qed

lemma sample_header_cells: "header_cells (all_objects sample_lists) =
   {0x10000, 0x10008, 0x11000, 0x11008, 0x12000, 0x12008, 0x13000, 0x13008}"
  unfolding sample_all_objects header_cells_def by auto

lemma sample_hole_cells: "hole_cells sample_state (fst ` set sample_holes) = {0x14000, 0x14008}"
  by (simp add: hole_cells_def sample_holes_def sample_page_ptr)

lemma sample_save_area:
  "save_area sample_state [sample_thread] = set (cells 23 0x2000)"
proof -
  have "save_pairs sample_state [sample_thread] =
      [(\<lparr>registers = 0x2000, saved_stack_base = 0x3000, saved_stack_size = 0\<rparr>, sample_thread)]"
    by (simp add: save_pairs_def sample_state_def numeral_eq_Suc)
  moreover have "length (gregs sample_thread) = 23" by (simp add: sample_thread_def)
  ultimately show ?thesis by (simp add: save_area_def handler_area_def sample_thread_ok)
qed

lemma cells_numeral: "cells (numeral n) a = a # cells (pred_numeral n) (a + GC_POINTER_ALIGNMENT)"
  by (simp add: numeral_eq_Suc)

lemma sample_cells: "set (cells 23 0x2000) \<inter> {0x10000, 0x10008, 0x11000, 0x11008, 0x12000, 0x12008, 0x13000, 0x13008} = {}"
  "set (cells 23 0x2000) \<inter> {0x14000, 0x14008} = {}"
  by (simp_all add: cells_numeral GC_POINTER_ALIGNMENT_def)

lemma sample_stoppable: "stoppable sample_state [sample_thread] sample_lists sample_holes"
  unfolding stoppable_def sample_save_area sample_header_cells sample_hole_cells
  using sample_cells sample_thread_ok(1) by (simp add: sample_state_def)

lemma sample_barrier: "barrier_clear sample_state"
  by (simp add: barrier_clear_def sample_state_def)

lemma sample_allocated: "allocated sample_lists = 3"
proof -
  have "allocated sample_lists = (\<Sum>i\<in>group_indices. if i = 12 then 3 else 0)"
    unfolding allocated_def by (intro sum.cong) (simp_all add: sample_lists_def)
  then show ?thesis by (simp add: group_indices_def config_defs)
qed

text \<open>The roots and the objects can be scanned, whatever the flip did to the links.\<close>

lemma sample_flip:
  assumes fl: "flip [sample_thread] sample_state = Inr s1"
  shows "roots_ok 10 sample_hooks (all_objects sample_lists) s1"
    and "scannable sample_hooks s1 (flipped sample_lists)"
proof -
  obtain sg where sg: "s1 = stopped [sample_thread] sg" "gc_frame (all_objects sample_lists) sample_state sg"
    "save_area sg [sample_thread] = save_area sample_state [sample_thread]"
    using flip_refines [OF sample_heap_inv _ sample_stoppable] fl by auto
  note g = gc_frame_fields [OF sg(2)]
  have th: "total_saved_threads s1 = 1" "global_roots s1 = [0x1000]" "first_static_ptr s1 = 0" "static_frontier_ptr s1 = 0"
    "saved_threads s1 ! 0 = \<lparr>registers = 0x2000, saved_stack_base = 0x3000, saved_stack_size = 0\<rparr>"
    by (simp_all add: sg(1) stopped_def g save_pairs_def sample_state_def numeral_eq_Suc saved_thread_def
        sample_thread_ok c_int_def)
  have "segment_ok (all_objects sample_lists) 0x2000 0x20B8"
    unfolding segment_ok_def sample_header_cells using sample_cells(1) by (simp add: segment_length_def)
  moreover have "segment_ok (all_objects sample_lists) 0x3000 0x3000"
    by (simp add: segment_ok_def segment_length_def)
  ultimately have t: "thread_ok (all_objects sample_lists) (saved_threads s1 ! 0)"
    by (simp add: thread_ok_def th stack_top_def stack_bottom_of_def GC_POINTER_ALIGNMENT_def)
  have "static_ok 10 sample_hooks (all_objects sample_lists) s1"
    by (simp add: static_ok_def static_list_def th numeral_eq_Suc)
  moreover have "total_root_scanners sample_hooks = 0" by (simp add: sample_hooks_def no_hooks_def)
  ultimately show "roots_ok 10 sample_hooks (all_objects sample_lists) s1"
    using t unfolding roots_ok_def sample_header_cells by (simp add: th)
  have cl: "GET_STORAGE_CLASS (memory s1) x = GET_STORAGE_CLASS sample_memory x"
    if x: "x \<in> {0x10000, 0x11000, 0x12000}" for x
  proof -
    have "x + 8 \<notin> save_area sg [sample_thread]"
      unfolding sg(3) sample_save_area using sample_cells(1) x by auto
    then have "GET_STORAGE_CLASS (memory s1) x = GET_STORAGE_CLASS (memory sg) x"
      by (simp add: sg(1) GET_STORAGE_CLASS_def stopped_memory)
    also have "\<dots> = GET_STORAGE_CLASS sample_memory x"
    proof -
      have "links_only (all_objects sample_lists) sample_memory (memory sg)"
        using sg(2) by (simp add: gc_frame_def)
      moreover have "aligned x" using x sample_aligned by auto
      ultimately show ?thesis by (rule links_only_storage_class)
    qed
    finally show ?thesis .
  qed
  have co: "custom_ok sample_hooks (all_objects sample_lists) 0x10010 h" for h
    unfolding custom_ok_def sample_header_cells by (simp add: sample_hooks_def)
  show "scannable sample_hooks s1 (flipped sample_lists)"
    unfolding scannable_def
  proof (intro ballI)
    fix i x assume i: "i \<in> group_indices" and x: "x \<in> set (whites (flipped sample_lists i))"
    have "i = 12" "x \<in> {0x10000, 0x11000, 0x12000}"
      using i x by (auto simp: sample_lists_def split: if_splits)
    then have "GET_STORAGE_CLASS (memory s1) x = (if x = 0x10000 then SC_CUSTOM1 else SC_NOPOINTERS)"
      using cl [of x] sample_headers by (auto simp: sc_defs)
    then show "object_ok sample_hooks (memory s1) (all_objects (flipped sample_lists)) x (2 ^ i)"
      using co flip_refines [OF sample_heap_inv _ sample_stoppable]
      by (auto simp: object_ok_def SIZEOF_GC_HEADER_def sc_defs split: if_splits)
  qed
qed

end
