(* ===== verification/Room.thy ===== *)
theory Room
  imports Coalesce_Loops Mark
begin

text \<open>
  The report of RTroom (rtcoalesce.c): RTroom_print as the list of lines it prints, and the
  proof that the counts of RTroom are those of the heap: the free and the allocated objects
  of every group, and the pages in holes. The bytes it reports add up to the partition.
\<close>

subsection \<open>The report\<close>

text \<open>The lines of RTroom_print with numbers in them; \<open>%d\<close> prints the low 32 bits of a long.\<close>

datatype report_line =
  Hole_size int int
| Total_hole_bytes int
| Group_size int int int int
| Total_committed_bytes int
| Total_hole_committed_bytes int int
| Static_space_bytes int

definition total_empty_pages :: "rt_state \<Rightarrow> room \<Rightarrow> int" where
  "total_empty_pages s r = sum_list (map (\<lambda>i. hole_counts r i * i) [0..total_partition_pages s])"

definition total_group_bytes :: "rt_state \<Rightarrow> room \<Rightarrow> nat \<Rightarrow> int" where
  "total_group_bytes s r i = (alloc_count r i + green_count r i) * gsize (groups s i)"

definition group_reported :: "room \<Rightarrow> nat \<Rightarrow> bool" where
  "group_reported r i \<longleftrightarrow> 0 < green_count r i \<or> 0 < alloc_count r i"

definition total_committed_bytes :: "rt_state \<Rightarrow> room \<Rightarrow> int" where
  "total_committed_bytes s r = sum_list (map (total_group_bytes s r) (filter (group_reported r) group_list))"

definition RTroom_print :: "rt_state \<Rightarrow> room \<Rightarrow> report_line list" where
  "RTroom_print s r =
     map (\<lambda>i. Hole_size (c_int i) (c_int (hole_counts r i)))
       (filter (\<lambda>i. 0 < hole_counts r i) [0..total_partition_pages s]) @
     [Total_hole_bytes (c_int (total_empty_pages s r * BYTES_PER_PAGE))] @
     map (\<lambda>i. Group_size (gsize (groups s i)) (c_int (alloc_count r i)) (c_int (green_count r i))
         (c_int (total_group_bytes s r i)))
       (filter (group_reported r) group_list) @
     [Total_committed_bytes (c_int (total_committed_bytes s r)),
      Total_hole_committed_bytes
        (c_int (total_empty_pages s r * BYTES_PER_PAGE + total_committed_bytes s r))
        (c_int (total_partition_pages s * BYTES_PER_PAGE)),
      Static_space_bytes (c_int (uint (static_frontier_ptr s) - uint (first_static_ptr s)))]"

subsection \<open>Counting pages and objects\<close>

text \<open>The objects of a list that lie before a page, and the empty pages before it.\<close>

definition objects_before :: "rt_state \<Rightarrow> addr list \<Rightarrow> int \<Rightarrow> int" where
  "objects_before s xs p = int (card {x \<in> set xs. PTR_TO_PAGE_INDEX s x < p})"

definition empty_before :: "rt_state \<Rightarrow> int \<Rightarrow> int" where
  "empty_before s p = int (card {q \<in> empty_page_set s. q < p})"

lemma objects_before_step:
  assumes "0 \<le> n"
  shows "objects_before s xs (p + n) =
    objects_before s xs p + int (card {x \<in> set xs. p \<le> PTR_TO_PAGE_INDEX s x \<and> PTR_TO_PAGE_INDEX s x < p + n})"
proof -
  let ?A = "{x \<in> set xs. PTR_TO_PAGE_INDEX s x < p}"
  let ?B = "{x \<in> set xs. p \<le> PTR_TO_PAGE_INDEX s x \<and> PTR_TO_PAGE_INDEX s x < p + n}"
  have "{x \<in> set xs. PTR_TO_PAGE_INDEX s x < p + n} = ?A \<union> ?B" using assms by auto
  moreover have "card (?A \<union> ?B) = card ?A + card ?B" by (intro card_Un_disjoint) auto
  ultimately show ?thesis by (simp add: objects_before_def)
qed

lemma objects_before_all:
  assumes "distinct xs" and "\<And>x. x \<in> set xs \<Longrightarrow> PTR_TO_PAGE_INDEX s x < p"
  shows "objects_before s xs p = int (length xs)"
proof -
  have "{x \<in> set xs. PTR_TO_PAGE_INDEX s x < p} = set xs" using assms(2) by blast
  then show ?thesis by (simp add: objects_before_def distinct_card [OF assms(1)])
qed

lemma finite_empty_page_set [simp]: "finite (empty_page_set s)"
  by (rule finite_subset [of _ "{0..<total_partition_pages s}"]) (auto simp: empty_page_set_def)

lemma empty_before_group:
  assumes "\<And>q. p \<le> q \<Longrightarrow> q < p + n \<Longrightarrow> pgroup (pages s q) \<noteq> EMPTY_PAGE" and "0 \<le> n"
  shows "empty_before s (p + n) = empty_before s p"
proof -
  have "{q \<in> empty_page_set s. q < p + n} = {q \<in> empty_page_set s. q < p}"
    using assms by (auto simp: empty_page_set_def not_less [symmetric])
  then show ?thesis by (simp add: empty_before_def)
qed

lemma empty_before_empty:
  assumes "pgroup (pages s p) = EMPTY_PAGE" and "0 \<le> p" and "p < total_partition_pages s"
  shows "empty_before s (p + 1) = empty_before s p + 1"
proof -
  have "{q \<in> empty_page_set s. q < p + 1} = insert p {q \<in> empty_page_set s. q < p}"
    using assms by (auto simp: empty_page_set_def)
  then show ?thesis by (simp add: empty_before_def)
qed

lemma empty_pages_in_holes:
  assumes "holes_ok s {} H"
  shows "empty_before s (total_partition_pages s) = sum_list (map snd H)"
proof -
  note h = holes_okD [OF assms]
  have "{q \<in> empty_page_set s. q < total_partition_pages s} = (\<Union>k\<in>set H. hole_pages k)"
    using h(6) by (auto simp: empty_page_set_def)
  moreover have "card (\<Union>k\<in>set H. hole_pages k) = (\<Sum>k\<in>set H. card (hole_pages k))"
    using h(9) by (intro card_UN_disjoint) (auto simp: hole_pages_def)
  moreover have "int (\<Sum>k\<in>set H. card (hole_pages k)) = (\<Sum>k\<in>set H. snd k)"
    unfolding of_nat_sum using h(2) by (intro sum.cong) (force simp: hole_pages_def)+
  moreover have "(\<Sum>k\<in>set H. snd k) = sum_list (map snd H)"
    using h(4) by (intro sum.distinct_set_conv_list) (simp add: distinct_map)
  ultimately show ?thesis by (simp add: empty_before_def)
qed

lemma count_page_objects_eq:
  "count_page_objects n m sz x (green, alloc) =
     (green + int (length (filter (GREENP m) (new_objects n sz x))),
      alloc + int (length (filter (\<lambda>y. \<not> GREENP m y) (new_objects n sz x))))"
  by (induction n arbitrary: x green alloc) (simp_all del: of_nat_add)

lemma length_filter_card: "distinct xs \<Longrightarrow> length (filter P xs) = card {x \<in> set xs. P x}"
  using distinct_card [of "filter P xs"] by simp

subsection \<open>The loop of RTroom\<close>

text \<open>
  What RTroom knows when its loop is at a page: the objects and empty pages before it, the
  empty pages of the hole it is in not yet counted, and that the rest of the partition
  before the page is made of objects.
\<close>

definition hole_page_sum :: "rt_state \<Rightarrow> room \<Rightarrow> int" where
  "hole_page_sum s r = (\<Sum>k\<in>{0..total_partition_pages s}. hole_counts r k * k)"

definition committed :: "room \<Rightarrow> int" where
  "committed r = (\<Sum>i\<in>group_indices. (alloc_count r i + green_count r i) * 2 ^ i)"

definition room_ok :: "rt_state \<Rightarrow> (nat \<Rightarrow> agroup) \<Rightarrow> int \<Rightarrow> int \<Rightarrow> room \<Rightarrow> bool" where
  "room_ok s A page hole_len r \<longleftrightarrow>
     (\<forall>i\<in>group_indices. green_count r i = objects_before s (greens (A i)) page \<and>
        alloc_count r i = objects_before s (blacks (A i)) page) \<and>
     hole_page_sum s r + hole_len = empty_before s page \<and> 0 \<le> hole_len \<and> hole_len \<le> page \<and>
     committed r = (page - empty_before s page) * BYTES_PER_PAGE"

lemma hole_page_sum_count:
  assumes "0 \<le> n" and "n \<le> total_partition_pages s"
  shows "hole_page_sum s (count_hole n r) = hole_page_sum s r + n"
proof -
  have "(\<Sum>k\<in>{0..total_partition_pages s}. ((hole_counts r)(n := hole_counts r n + 1)) k * k) =
      (\<Sum>k\<in>{0..total_partition_pages s}. hole_counts r k * k + (if k = n then n else 0))"
    by (intro sum.cong) (auto simp: algebra_simps)
  also have "\<dots> = hole_page_sum s r + n" using assms by (simp add: sum.distrib hole_page_sum_def)
  finally show ?thesis using assms by (auto simp: count_hole_def hole_page_sum_def)
qed

lemma count_hole_fields [simp]:
  "green_count (count_hole n r) = green_count r" "alloc_count (count_hole n r) = alloc_count r"
  by (simp_all add: count_hole_def)

lemma committed_count_hole [simp]: "committed (count_hole n r) = committed r"
  by (simp add: committed_def)

text \<open>The counts of one group go up by the objects on its pages.\<close>

definition add_objects :: "nat \<Rightarrow> int \<Rightarrow> int \<Rightarrow> room \<Rightarrow> room" where
  "add_objects i green alloc r =
     r\<lparr>green_count := (green_count r)(i := green_count r i + green),
       alloc_count := (alloc_count r)(i := alloc_count r i + alloc)\<rparr>"

lemma add_one_object:
  "add_objects i 1 0 r = r\<lparr>green_count := (green_count r)(i := green_count r i + 1)\<rparr>"
  "add_objects i 0 1 r = r\<lparr>alloc_count := (alloc_count r)(i := alloc_count r i + 1)\<rparr>"
  by (cases r, simp add: add_objects_def)+

lemma committed_add_objects:
  assumes "i \<in> group_indices"
  shows "committed (add_objects i g a r) = committed r + (a + g) * 2 ^ i"
proof -
  have "committed (add_objects i g a r) =
      (\<Sum>j\<in>group_indices. (alloc_count r j + green_count r j) * 2 ^ j + (if j = i then (a + g) * 2 ^ i else 0))"
    unfolding committed_def by (intro sum.cong) (auto simp: add_objects_def algebra_simps)
  also have "\<dots> = committed r + (a + g) * 2 ^ i"
    using assms by (simp add: sum.distrib committed_def group_indices_def)
  finally show ?thesis .
qed

lemma hole_page_sum_add_objects [simp]: "hole_page_sum s (add_objects i g a r) = hole_page_sum s r"
  by (simp add: hole_page_sum_def add_objects_def)

lemma room_ok_group:
  assumes I: "heap_inv {} s A H" and r: "room_ok s A page hole_len r" and i: "i \<in> group_indices"
    and k: "0 \<le> page" "0 < n" "page + n \<le> total_partition_pages s"
    and g: "\<And>q. page \<le> q \<Longrightarrow> q < page + n \<Longrightarrow> pgroup (pages s q) = Group i"
    and green: "green = int (card {x \<in> set (greens (A i)). page \<le> PTR_TO_PAGE_INDEX s x \<and> PTR_TO_PAGE_INDEX s x < page + n})"
    and alloc: "alloc = int (card {x \<in> set (blacks (A i)). page \<le> PTR_TO_PAGE_INDEX s x \<and> PTR_TO_PAGE_INDEX s x < page + n})"
    and bytes: "(alloc + green) * 2 ^ i = n * BYTES_PER_PAGE"
  shows "room_ok s A (page + n) 0 (add_objects i green alloc (count_hole hole_len r))"
proof -
  note d = heap_invD [OF I]
  have e: "empty_before s (page + n) = empty_before s page"
    by (rule empty_before_group) (use g k in auto)
  have other: "{x \<in> set xs. page \<le> PTR_TO_PAGE_INDEX s x \<and> PTR_TO_PAGE_INDEX s x < page + n} = {}"
    if j: "j \<in> group_indices" "j \<noteq> i" and xs: "set xs \<subseteq> object_set A j" for j xs
  proof -
    have "PTR_TO_GROUP s x = Group j" if "x \<in> set xs" for x
      using that xs d(5) [OF j(1)] by (auto simp: page_objects_def)
    then have "\<not> (page \<le> PTR_TO_PAGE_INDEX s x \<and> PTR_TO_PAGE_INDEX s x < page + n)" if "x \<in> set xs" for x
      using that g [of "PTR_TO_PAGE_INDEX s x"] j(2) by (force simp: PTR_TO_GROUP_def)
    then show ?thesis by blast
  qed
  have sub: "set (greens (A j)) \<subseteq> object_set A j" "set (blacks (A j)) \<subseteq> object_set A j" for j
    by (auto simp: object_set_def)
  have n: "0 \<le> n" using k by simp
  have hl: "0 \<le> hole_len" "hole_len \<le> total_partition_pages s" using r k by (auto simp: room_ok_def)
  have "green_count (add_objects i green alloc (count_hole hole_len r)) j = objects_before s (greens (A j)) (page + n) \<and>
      alloc_count (add_objects i green alloc (count_hole hole_len r)) j = objects_before s (blacks (A j)) (page + n)"
    if j: "j \<in> group_indices" for j
    using r j other [OF j _ sub(1)] other [OF j _ sub(2)] unfolding objects_before_step [OF n]
    by (cases "j = i") (simp_all add: room_ok_def add_objects_def green alloc)
  moreover have "hole_page_sum s (count_hole hole_len r) = empty_before s page"
    using r hole_page_sum_count [OF hl, of r] by (simp add: room_ok_def)
  moreover have "committed r + (alloc + green) * 2 ^ i = (page + n - empty_before s page) * BYTES_PER_PAGE"
    using r unfolding bytes by (simp add: room_ok_def algebra_simps)
  ultimately show ?thesis using k by (simp add: room_ok_def e committed_add_objects [OF i])
qed

lemma room_ok_empty:
  assumes I: "heap_inv {} s A H" and r: "room_ok s A page hole_len r"
    and k: "0 \<le> page" "page < total_partition_pages s" and g: "pgroup (pages s page) = EMPTY_PAGE"
  shows "room_ok s A (page + 1) (hole_len + 1) r"
proof -
  note d = heap_invD [OF I]
  have none: "{x \<in> set xs. page \<le> PTR_TO_PAGE_INDEX s x \<and> PTR_TO_PAGE_INDEX s x < page + 1} = {}"
    if j: "j \<in> group_indices" and xs: "set xs \<subseteq> object_set A j" for j xs
  proof -
    have "PTR_TO_GROUP s x = Group j" if "x \<in> set xs" for x
      using that xs d(5) [OF j(1)] by (auto simp: page_objects_def)
    then have "x \<in> set xs \<Longrightarrow> PTR_TO_PAGE_INDEX s x \<noteq> page" for x using g by (force simp: PTR_TO_GROUP_def)
    then show ?thesis by force
  qed
  have "objects_before s xs (page + 1) = objects_before s xs page"
    if "j \<in> group_indices" "set xs \<subseteq> object_set A j" for j xs
    unfolding objects_before_step [OF zero_le_one] none [OF that] by simp
  moreover have "set (greens (A j)) \<subseteq> object_set A j" "set (blacks (A j)) \<subseteq> object_set A j" for j
    by (auto simp: object_set_def)
  ultimately have "objects_before s (greens (A j)) (page + 1) = objects_before s (greens (A j)) page \<and>
      objects_before s (blacks (A j)) (page + 1) = objects_before s (blacks (A j)) page" if "j \<in> group_indices" for j
    using that by blast
  then show ?thesis using r empty_before_empty [OF g k] by (simp add: room_ok_def)
qed

text \<open>The objects of a page of small objects, and the object of several pages.\<close>

lemma small_page_counts:
  assumes I: "heap_inv {} s A H" and k: "0 \<le> page" "page < total_partition_pages s"
    and g: "pgroup (pages s page) = Group i" and small: "i \<le> PAGE_POWER"
  defines "G \<equiv> set (page_slots s page i) \<inter> set (greens (A i))"
    and "B \<equiv> set (page_slots s page i) - set (greens (A i))"
  shows "G =
      {x \<in> set (greens (A i)). page \<le> PTR_TO_PAGE_INDEX s x \<and> PTR_TO_PAGE_INDEX s x < page + 1}"
    and "B =
      {x \<in> set (blacks (A i)). page \<le> PTR_TO_PAGE_INDEX s x \<and> PTR_TO_PAGE_INDEX s x < page + 1}"
    and "count_page_objects (nat (BYTES_PER_PAGE div 2 ^ i)) (memory s) (2 ^ i) (PAGE_INDEX_TO_PTR s page) (0, 0) =
      (int (card G), int (card B))"
    and "(int (card B) + int (card G)) * 2 ^ i = BYTES_PER_PAGE"
proof -
  note d = heap_invD [OF I]
  let ?xs = "page_slots s page i"
  have i: "i \<in> group_indices" by (rule page_table_okD(1) [OF d(4) k g])
  note rep = d(6) [OF i]
  have xs: "set ?xs = {x \<in> object_set A i. PTR_TO_PAGE_INDEX s x = page}"
    using page_slots_objects [OF d(1,4) k small g] d(5) [OF i] by simp
  have ob: "object_set A i = set (blacks (A i)) \<union> set (greens (A i))" "set (blacks (A i)) \<inter> set (greens (A i)) = {}"
    using idle_rep_distinct(2,3) [OF rep] by (simp_all only: object_set_def)
  show "G = {x \<in> set (greens (A i)). page \<le> PTR_TO_PAGE_INDEX s x \<and> PTR_TO_PAGE_INDEX s x < page + 1}"
    using xs ob by (auto simp: G_def B_def)
  show "B = {x \<in> set (blacks (A i)). page \<le> PTR_TO_PAGE_INDEX s x \<and> PTR_TO_PAGE_INDEX s x < page + 1}"
    using xs ob by (auto simp: G_def B_def)
  have dx: "distinct ?xs" by (rule distinct_page_slots [OF d(1) k small])
  have "GREENP (memory s) x \<longleftrightarrow> x \<in> set (greens (A i))" if "x \<in> set ?xs" for x
    using idle_rep_green_iff [OF rep d(2)] that xs by (simp add: object_set_def)
  then have "{x \<in> set ?xs. GREENP (memory s) x} = G" "{x \<in> set ?xs. \<not> GREENP (memory s) x} = B"
    by (auto simp: G_def B_def)
  then show "count_page_objects (nat (BYTES_PER_PAGE div 2 ^ i)) (memory s) (2 ^ i) (PAGE_INDEX_TO_PTR s page) (0, 0) =
      (int (card G), int (card B))"
    using length_filter_card [OF dx] by (simp add: count_page_objects_eq page_slots_def)
  have "card B + card G = card (set ?xs)"
    using card_Un_disjoint [of B G] by (simp add: G_def B_def Un_Diff_Int disjoint_iff)
  also have "\<dots> = nat (BYTES_PER_PAGE div 2 ^ i)" using distinct_card [OF dx] by (simp add: page_slots_def)
  finally have "int (card B) + int (card G) = 2 ^ (PAGE_POWER - i)"
    using page_size_split(1) [OF small] by (simp flip: of_nat_add)
  then show "(int (card B) + int (card G)) * 2 ^ i = BYTES_PER_PAGE" using page_size_split(2) [OF small] by simp
qed

lemma large_page_counts:
  assumes I: "heap_inv {} s A H" and k: "0 \<le> page" "page < total_partition_pages s"
    and g: "pgroup (pages s page) = Group i" and la: "large_at s page i page" and li: "PAGE_POWER < i"
  shows "card {x \<in> set (greens (A i)). page \<le> PTR_TO_PAGE_INDEX s x \<and> PTR_TO_PAGE_INDEX s x < page + 2 ^ (i - PAGE_POWER)} =
      (if GREENP (memory s) (PAGE_INDEX_TO_PTR s page) then 1 else 0)"
    and "card {x \<in> set (blacks (A i)). page \<le> PTR_TO_PAGE_INDEX s x \<and> PTR_TO_PAGE_INDEX s x < page + 2 ^ (i - PAGE_POWER)} =
      (if GREENP (memory s) (PAGE_INDEX_TO_PTR s page) then 0 else 1)"
proof -
  note d = heap_invD [OF I]
  let ?x = "PAGE_INDEX_TO_PTR s page" and ?n = "2 ^ (i - PAGE_POWER) :: int"
  let ?in = "\<lambda>x. page \<le> PTR_TO_PAGE_INDEX s x \<and> PTR_TO_PAGE_INDEX s x < page + ?n"
  have i: "i \<in> group_indices" by (rule page_table_okD(1) [OF d(4) k g])
  note rep = d(6) [OF i]
  have xb: "pbase (pages s page) = ?x" using la by (rule large_atD(5))
  have ip: "IN_PARTITION s ?x" "PTR_TO_PAGE_INDEX s ?x = page"
    using PAGE_INDEX_TO_PTR_IN_PARTITION [OF d(1) k] page_index_roundtrip [OF d(1) k] by simp_all
  have xo: "?x \<in> object_set A i"
    using d(5) [OF i] ip g xb li by (simp add: page_objects_def PTR_TO_GROUP_def)
  have ob: "object_set A i = set (blacks (A i)) \<union> set (greens (A i))" "set (blacks (A i)) \<inter> set (greens (A i)) = {}"
    using idle_rep_distinct(2,3) [OF rep] by (simp_all only: object_set_def)
  have gr: "GREENP (memory s) ?x \<longleftrightarrow> ?x \<in> set (greens (A i))"
    using idle_rep_green_iff [OF rep d(2)] xo by (simp add: object_set_def)
  have one: "{x \<in> object_set A i. ?in x} = {?x}"
    using large_page_object [OF d(1) k g li xb large_atD(6) [OF la]] d(5) [OF i] by simp
  have "{x \<in> set xs. ?in x} = (if ?x \<in> set xs then {?x} else {})" if "set xs \<subseteq> object_set A i" for xs
  proof -
    have "{x \<in> set xs. ?in x} = set xs \<inter> {x \<in> object_set A i. ?in x}" using that by blast
    then show ?thesis unfolding one by simp
  qed
  then have c: "card {x \<in> set xs. ?in x} = (if ?x \<in> set xs then 1 else 0)" if "set xs \<subseteq> object_set A i" for xs
    using that by simp
  show "card {x \<in> set (greens (A i)). ?in x} = (if GREENP (memory s) ?x then 1 else 0)"
    using c [of "greens (A i)"] ob(1) gr by simp
  show "card {x \<in> set (blacks (A i)). ?in x} = (if GREENP (memory s) ?x then 0 else 1)"
    using c [of "blacks (A i)"] ob xo gr by auto
qed

lemma room_loop_small:
  assumes "page < total_partition_pages s" and "pgroup (pages s page) = Group i"
    and "gsize (groups s i) \<le> BYTES_PER_PAGE"
    and "count_page_objects (nat (BYTES_PER_PAGE div gsize (groups s i))) (memory s) (gsize (groups s i))
      (PAGE_INDEX_TO_PTR s page) (0, 0) = (green, alloc)"
  shows "room_loop (Suc fuel) page hole_len r s =
    room_loop fuel (page + 1) 0 (add_objects (gindex (groups s i)) green alloc (count_hole hole_len r)) s"
  using assms by (simp add: Let_def add_objects_def)

lemma room_loop_large:
  assumes "page < total_partition_pages s" and "pgroup (pages s page) = Group i"
    and "\<not> gsize (groups s i) \<le> BYTES_PER_PAGE"
  shows "room_loop (Suc fuel) page hole_len r s =
    room_loop fuel (page + gsize (groups s i) div BYTES_PER_PAGE) 0
      (add_objects (gindex (groups s i)) (if GREENP (memory s) (PAGE_INDEX_TO_PTR s page) then 1 else 0)
         (if GREENP (memory s) (PAGE_INDEX_TO_PTR s page) then 0 else 1) (count_hole hole_len r)) s"
  using assms by (simp add: Let_def add_one_object)

text \<open>One turn of the loop counts the pages \<open>page\<close> to \<open>page + n - 1\<close>.\<close>

definition room_turn :: "rt_state \<Rightarrow> (nat \<Rightarrow> agroup) \<Rightarrow> nat \<Rightarrow> int \<Rightarrow> int \<Rightarrow> room \<Rightarrow> int \<Rightarrow> int \<Rightarrow> room \<Rightarrow> bool" where
  "room_turn s A fuel page hole_len r n hole_len' r' \<longleftrightarrow>
     0 < n \<and> page + n \<le> total_partition_pages s \<and> boundary s (page + n) \<and> room_ok s A (page + n) hole_len' r' \<and>
     room_loop (Suc fuel) page hole_len r s = room_loop fuel (page + n) hole_len' r' s"

lemma room_turn_empty:
  assumes I: "heap_inv {} s A H" and k: "0 \<le> page" "page < total_partition_pages s"
    and b: "boundary s page" and ok: "room_ok s A page hole_len r" and e: "pgroup (pages s page) = EMPTY_PAGE"
  shows "room_turn s A fuel page hole_len r 1 (hole_len + 1) r"
proof -
  have "boundary s (page + 1)"
    by (rule boundary_step [OF b coalesced_refl _ _ _ _ heap_invD(1) [OF I] k(1)]) (use k e in simp_all)
  then show ?thesis using room_ok_empty [OF I ok k e] k e by (simp add: room_turn_def)
qed

lemma room_turn_small:
  assumes I: "heap_inv {} s A H" and k: "0 \<le> page" "page < total_partition_pages s"
    and b: "boundary s page" and ok: "room_ok s A page hole_len r"
    and g: "pgroup (pages s page) = Group i" and i: "i \<le> PAGE_POWER"
  shows "\<exists>r'. room_turn s A fuel page hole_len r 1 0 r'"
proof -
  note d = heap_invD [OF I] and c = small_page_counts [OF I k g i]
  have gi: "i \<in> group_indices" by (rule page_table_okD(1) [OF d(4) k g])
  have sz: "gsize (groups s i) = 2 ^ i" "gindex (groups s i) = i" using d(3) gi by (simp_all add: groups_ok_def)
  have small: "gsize (groups s i) \<le> BYTES_PER_PAGE"
    unfolding sz BYTES_PER_PAGE_def using i by (intro power_increasing) simp_all
  let ?G = "set (page_slots s page i) \<inter> set (greens (A i))" and ?B = "set (page_slots s page i) - set (greens (A i))"
  let ?r = "add_objects i (int (card ?G)) (int (card ?B)) (count_hole hole_len r)"
  have "room_ok s A (page + 1) 0 ?r"
    using k g c(4) by (intro room_ok_group [OF I ok gi k(1)]) (simp_all add: c(1,2))
  moreover have "boundary s (page + 1)"
    by (rule boundary_step [OF b coalesced_refl _ _ _ _ d(1) k(1)]) (use k g i in simp_all)
  moreover have "room_loop (Suc fuel) page hole_len r s = room_loop fuel (page + 1) 0 ?r s"
    using room_loop_small [OF k(2) g small, of _ _ fuel hole_len r] c(3) unfolding sz by simp
  ultimately have "room_turn s A fuel page hole_len r 1 0 ?r" using k by (simp add: room_turn_def)
  then show ?thesis ..
qed

lemma room_turn_large:
  assumes I: "heap_inv {} s A H" and k: "0 \<le> page" "page < total_partition_pages s"
    and b: "boundary s page" and ok: "room_ok s A page hole_len r"
    and g: "pgroup (pages s page) = Group i" and li: "PAGE_POWER < i"
  shows "\<exists>r'. room_turn s A fuel page hole_len r (2 ^ (i - PAGE_POWER)) 0 r'"
proof -
  note d = heap_invD [OF I] and la = boundary_large_at [OF b heap_invD(4) [OF I] k g li]
  note c = large_page_counts [OF I k g la li]
  have gi: "i \<in> group_indices" by (rule page_table_okD(1) [OF d(4) k g])
  have sz: "gsize (groups s i) = 2 ^ i" "gindex (groups s i) = i" using d(3) gi by (simp_all add: groups_ok_def)
  have big: "\<not> gsize (groups s i) \<le> BYTES_PER_PAGE"
    unfolding sz BYTES_PER_PAGE_def using li power_strict_increasing [of PAGE_POWER i "2 :: int"] by simp
  let ?n = "2 ^ (i - PAGE_POWER) :: int" and ?green = "GREENP (memory s) (PAGE_INDEX_TO_PTR s page)"
  let ?r = "add_objects i (if ?green then 1 else 0) (if ?green then 0 else 1) (count_hole hole_len r)"
  have n: "2 ^ i = ?n * BYTES_PER_PAGE" by (rule page_size_power [OF gi less_imp_le [OF li]])
  have dv: "gsize (groups s i) div BYTES_PER_PAGE = ?n" unfolding sz n by (simp add: BYTES_PER_PAGE_def)
  have "room_ok s A (page + ?n) 0 ?r"
  proof (rule room_ok_group [OF I ok gi k(1) _ large_atD(4) [OF la]])
    show "pgroup (pages s q) = Group i" if "page \<le> q" "q < page + ?n" for q
      unfolding large_atD(6) [OF la that] by (rule g)
  qed (simp_all add: c n)
  moreover have "boundary s (page + ?n)"
    by (rule boundary_step [OF b coalesced_refl _ large_atD(4) [OF la] large_atD(6) [OF la] _ d(1) k(1)])
      (use la g in simp_all)
  moreover have "room_loop (Suc fuel) page hole_len r s = room_loop fuel (page + ?n) 0 ?r s"
    using room_loop_large [OF k(2) g big, of fuel hole_len r] unfolding sz(2) dv .
  ultimately have "room_turn s A fuel page hole_len r ?n 0 ?r" using large_atD(4) [OF la] by (simp add: room_turn_def)
  then show ?thesis ..
qed

lemma room_loop_ok:
  assumes I: "heap_inv {} s A H"
    and in_use: "\<And>q. 0 \<le> q \<Longrightarrow> q < total_partition_pages s \<Longrightarrow> pgroup (pages s q) = EMPTY_PAGE \<or> (\<exists>i. pgroup (pages s q) = Group i)"
  shows "0 \<le> page \<Longrightarrow> page \<le> total_partition_pages s \<Longrightarrow> boundary s page \<Longrightarrow> room_ok s A page hole_len r \<Longrightarrow>
    nat (total_partition_pages s - page) < fuel \<Longrightarrow>
    \<exists>r' hole_len'. room_loop fuel page hole_len r s = Inr (count_hole hole_len' r') \<and>
      room_ok s A (total_partition_pages s) hole_len' r'"
proof (induction fuel arbitrary: page hole_len r)
  case 0
  then show ?case by simp
next
  case (Suc fuel)
  show ?case
  proof (cases "page < total_partition_pages s")
    case False
    then have "page = total_partition_pages s" using Suc.prems(2) by simp
    then show ?thesis using Suc.prems(4) by auto
  next
    case True
    note k = Suc.prems(1) True
    have "\<exists>n hole_len' r'. room_turn s A fuel page hole_len r n hole_len' r'"
    proof (cases "pgroup (pages s page) = EMPTY_PAGE")
      case True
      from room_turn_empty [OF I k Suc.prems(3,4) this] show ?thesis by blast
    next
      case False
      then obtain i where g: "pgroup (pages s page) = Group i" using in_use [OF k] by blast
      show ?thesis
        using room_turn_small [OF I k Suc.prems(3,4) g] room_turn_large [OF I k Suc.prems(3,4) g]
        by (cases "i \<le> PAGE_POWER") (blast, meson not_less)
    qed
    then obtain n hole_len' r' where t: "0 < n" "page + n \<le> total_partition_pages s" "boundary s (page + n)"
      "room_ok s A (page + n) hole_len' r'"
      "room_loop (Suc fuel) page hole_len r s = room_loop fuel (page + n) hole_len' r' s"
      unfolding room_turn_def by blast
    then show ?thesis unfolding t(5) using Suc.prems(1,5) by (intro Suc.IH [OF _ t(2-4)]) simp_all
  qed
qed

lemma RTroom_refines:
  assumes I: "heap_inv {} s A H"
    and in_use: "\<And>q. 0 \<le> q \<Longrightarrow> q < total_partition_pages s \<Longrightarrow> pgroup (pages s q) = EMPTY_PAGE \<or> (\<exists>i. pgroup (pages s q) = Group i)"
  obtains r where "RTroom s = Inr r"
    and "\<And>i. i \<in> group_indices \<Longrightarrow> green_count r i = int (length (greens (A i))) \<and> alloc_count r i = int (length (blacks (A i)))"
    and "total_empty_pages s r = sum_list (map snd H)"
    and "total_committed_bytes s r = (total_partition_pages s - sum_list (map snd H)) * BYTES_PER_PAGE"
proof -
  note d = heap_invD [OF I]
  let ?t = "total_partition_pages s"
  let ?r0 = "\<lparr>green_count = (\<lambda>_. 0), alloc_count = (\<lambda>_. 0), hole_counts = (\<lambda>_. 0)\<rparr>"
  have t: "0 \<le> ?t" using d(1) by (simp add: layout_ok_def)
  have idx: "0 \<le> PTR_TO_PAGE_INDEX s x \<and> PTR_TO_PAGE_INDEX s x < ?t" if "x \<in> object_set A i" "i \<in> group_indices" for x i
    using that d(5) [OF that(2)] PTR_TO_PAGE_INDEX_bounds [OF d(1)] by (auto simp: page_objects_def)
  have sub: "set (greens (A i)) \<subseteq> object_set A i" "set (blacks (A i)) \<subseteq> object_set A i" for i
    by (auto simp: object_set_def)
  have z: "objects_before s xs 0 = 0" if "set xs \<subseteq> object_set A i" "i \<in> group_indices" for xs i
  proof -
    have "{x \<in> set xs. PTR_TO_PAGE_INDEX s x < 0} = {}" using idx that by (force simp: subset_iff)
    then show ?thesis unfolding objects_before_def by simp
  qed
  have "{q \<in> empty_page_set s. q < 0} = {}" by (auto simp: empty_page_set_def)
  then have "empty_before s 0 = 0" unfolding empty_before_def by simp
  then have "room_ok s A 0 0 ?r0" using z [OF sub(1)] z [OF sub(2)] by (auto simp: room_ok_def hole_page_sum_def committed_def)
  moreover have "boundary s 0" by (simp add: boundary_def large_at_def)
  ultimately obtain r n where r: "RTroom s = Inr (count_hole n r)" "room_ok s A ?t n r"
    using room_loop_ok [OF I in_use, of 0 0 ?r0 "nat ?t + 1"] t unfolding RTroom_def by fastforce
  let ?r = "count_hole n r"
  have hs: "hole_page_sum s ?r = sum_list (map snd H)"
    using r(2) hole_page_sum_count [of n s r] empty_pages_in_holes [OF d(7)] by (simp add: room_ok_def)
  have cnt: "green_count ?r i = int (length (greens (A i))) \<and> alloc_count ?r i = int (length (blacks (A i)))"
    if i: "i \<in> group_indices" for i
  proof -
    note rep = d(6) [OF i]
    have dist: "distinct (greens (A i))" "distinct (blacks (A i))"
      using group_repD(2) [OF idle_rep_lists(1) [OF rep]] by (simp_all add: objects_def active_def)
    have "objects_before s xs ?t = int (length xs)" if "set xs \<subseteq> object_set A i" "distinct xs" for xs
      using that idx [OF _ i] by (intro objects_before_all) auto
    then show ?thesis using r(2) i sub dist by (simp add: room_ok_def)
  qed
  show thesis
  proof (rule that [OF r(1) cnt])
    show "total_empty_pages s ?r = sum_list (map snd H)"
      unfolding hs [symmetric] by (simp add: total_empty_pages_def hole_page_sum_def sum_list_distinct_conv_sum_set)
  next
    have "total_committed_bytes s ?r = (\<Sum>i\<in>set (filter (group_reported ?r) group_list). total_group_bytes s ?r i)"
      unfolding total_committed_bytes_def by (intro sum_list_distinct_conv_sum_set) simp
    also have "\<dots> = (\<Sum>i\<in>group_indices. total_group_bytes s ?r i)"
    proof (intro sum.mono_neutral_left ballI)
      fix i assume "i \<in> group_indices - set (filter (group_reported ?r) group_list)"
      then show "total_group_bytes s ?r i = 0"
        using cnt [of i] by (auto simp: group_reported_def total_group_bytes_def)
    qed (auto simp: group_indices_def)
    also have "\<dots> = committed ?r"
      unfolding committed_def total_group_bytes_def
      using d(3) by (intro sum.cong) (simp_all add: groups_ok_def)
    also have "\<dots> = (?t - sum_list (map snd H)) * BYTES_PER_PAGE"
      using r(2) empty_pages_in_holes [OF d(7)] by (simp add: room_ok_def)
    finally show "total_committed_bytes s ?r = (?t - sum_list (map snd H)) * BYTES_PER_PAGE" .
  qed
qed

end
