(* ===== verification/Page_Properties.thy ===== *)
theory Page_Properties
  imports Sample_GC Room
begin

text \<open>
  What the page level promises: the page table leads from any address inside an object to
  that object, holes are handed out by best fit, and the three steps of
  coalesce_all_free_pages keep the heap invariant and leave nothing to coalesce.
\<close>

subsection \<open>The page table\<close>

text \<open>
  Page indices and page addresses are inverse to each other inside a partition of at
  most \<open>2 ^ 19\<close> pages, and the address of a page is page aligned and not null.
\<close>

theorem page_index_inverse:
  assumes "layout_ok s" and "0 \<le> i" and "i < total_partition_pages s"
  shows "PTR_TO_PAGE_INDEX s (PAGE_INDEX_TO_PTR s i) = i \<and> IN_PARTITION s (PAGE_INDEX_TO_PTR s i) \<and>
    uint (PAGE_INDEX_TO_PTR s i) mod BYTES_PER_PAGE = 0 \<and> PAGE_INDEX_TO_PTR s i \<noteq> 0"
  using page_index_roundtrip [OF assms] PAGE_INDEX_TO_PTR_IN_PARTITION [OF assms]
    uint_PAGE_INDEX_TO_PTR_mod [OF assms(1,2)] page_ptr_not_0 [OF assms(1,2)] assms(3) by simp

theorem page_index_inverse_witness:
  "PTR_TO_PAGE_INDEX sample_state (PAGE_INDEX_TO_PTR sample_state 3) = 3 \<and>
   IN_PARTITION sample_state (PAGE_INDEX_TO_PTR sample_state 3) \<and>
   uint (PAGE_INDEX_TO_PTR sample_state 3) mod BYTES_PER_PAGE = 0 \<and> PAGE_INDEX_TO_PTR sample_state 3 \<noteq> 0"
  by (rule page_index_inverse [OF sample_layout]) simp_all

text \<open>
  C22: on a well formed page table, interior_to_gcptr finds for every address inside the
  block of an object the header of that object, and for every address on a page of a group
  an object of that group; it never stops there.
\<close>

theorem interior_to_gcptr_finds_object:
  assumes "layout_ok s" and "groups_ok s" and "page_table_ok s"
    and "IN_PARTITION s p" and "PTR_TO_GROUP s p = Group i"
  shows "\<exists>x. interior_to_gcptr s p = Inr x \<and> x \<in> page_objects s i \<and> i \<in> group_indices \<and>
    (\<forall>j. \<forall>y\<in>page_objects s j. uint y \<le> uint p \<longrightarrow> uint p < uint y + 2 ^ j \<longrightarrow> y = x)"
proof -
  let ?x = "interior_to_gcptr_3 p (pages s (PTR_TO_PAGE_INDEX s p)) (groups s i)"
  have "interior_to_gcptr s p = Inr ?x"
    using assms(5) by (simp add: interior_to_gcptr_eq PTR_TO_GROUP_def)
  moreover have "y = ?x" if "y \<in> page_objects s j" "uint y \<le> uint p" "uint p < uint y + 2 ^ j" for j y
    using object_block(3) [OF assms(1-3) that] assms(5) by simp
  ultimately show ?thesis using object_of_address [OF assms] by blast
qed

theorem interior_to_gcptr_finds_object_witness:
  "\<exists>x. interior_to_gcptr sample_state 0x11020 = Inr x \<and> x \<in> page_objects sample_state 12 \<and>
    12 \<in> group_indices \<and>
    (\<forall>j. \<forall>y\<in>page_objects sample_state j. uint y \<le> uint (0x11020 :: addr) \<longrightarrow>
       uint (0x11020 :: addr) < uint y + 2 ^ j \<longrightarrow> y = x)"
proof -
  have "IN_PARTITION sample_state 0x11020" by (simp add: IN_PARTITION_def)
  moreover from this have "PTR_TO_PAGE_INDEX sample_state 0x11020 = 1"
    by (simp add: PTR_TO_PAGE_INDEX_uint [OF sample_layout] config_defs)
  ultimately show ?thesis
    by (intro interior_to_gcptr_finds_object [OF sample_layout sample_groups_ok sample_page_table])
      (simp_all add: PTR_TO_GROUP_def sample_pages_def)
qed

subsection \<open>Holes\<close>

text \<open>
  C19: allocate_empty_pages returns a null pointer and changes nothing exactly when no hole
  is large enough; otherwise it cuts the pages from the front of a smallest hole that
  fits, leaves the rest of that hole in its place on the list, and writes only into hole
  headers.
\<close>

theorem allocate_empty_pages_best_fit:
  assumes "layout_ok s" and "holes_ok s T H" and "1 \<le> n"
  shows "(if \<exists>h\<in>set H. n \<le> snd h then
      \<exists>h H1 H2 s'. H = H1 @ h # H2 \<and> n \<le> snd h \<and> (\<forall>k\<in>set H. n \<le> snd k \<longrightarrow> snd h \<le> snd k) \<and>
        allocate_empty_pages n s = Inr (s', hole_addr s h) \<and> hole_addr s h \<noteq> 0 \<and>
        holes_ok s' (T \<union> hole_pages (fst h, n)) (H1 @ rest_of_hole n h @ H2) \<and>
        s' = s\<lparr>memory := memory s', empty_pages := empty_pages s'\<rparr> \<and>
        (\<forall>a. a \<notin> hole_cells s (empty_page_set s - T) \<longrightarrow> memory s' a = memory s a)
    else allocate_empty_pages n s = Inr (s, 0))"
proof (rule allocate_empty_pages_cases [OF assms])
  assume "allocate_empty_pages n s = Inr (s, 0)" "\<forall>h\<in>set H. snd h < n"
  then show ?thesis by auto
next
  fix h H1 H2 s'
  assume a: "H = H1 @ h # H2" "fits_best n h H" "allocate_empty_pages n s = Inr (s', hole_addr s h)"
    "hole_addr s h \<noteq> 0" "holes_ok s' (T \<union> hole_pages (fst h, n)) (H1 @ rest_of_hole n h @ H2)"
    "s' = s\<lparr>memory := memory s', empty_pages := empty_pages s'\<rparr>"
    "\<forall>a. a \<notin> hole_cells s (empty_page_set s - T) \<longrightarrow> memory s' a = memory s a"
  have "\<exists>h\<in>set H. n \<le> snd h" "n \<le> snd h" "\<forall>k\<in>set H. n \<le> snd k \<longrightarrow> snd h \<le> snd k"
    using a(2) by (auto simp: fits_best_def)
  then show ?thesis using a by (subst if_P) blast+
qed

theorem allocate_empty_pages_best_fit_witness:
  "\<exists>s'. allocate_empty_pages 1 sample_state = Inr (s', 0x14000) \<and> holes_ok s' {4} []"
proof -
  have "{4..<5 :: int} = {4}" by auto
  then show ?thesis
    using allocate_empty_pages_best_fit [OF sample_layout sample_holes_ok, of 1]
    by (auto simp: sample_holes_def Cons_eq_append_conv sample_page_ptr rest_of_hole_def hole_pages_def
        split: if_splits)
qed

text \<open>
  RTinit_empty_pages makes a hole of pages that are not empty yet, in front of the
  list: the pages are marked empty, the header of the hole is written into the first of
  them, and no other memory changes.
\<close>

theorem RTinit_empty_pages_adds_hole:
  assumes "layout_ok s" and "holes_ok s T H" and "0 \<le> p" and "1 \<le> n" and "p + n \<le> total_partition_pages s"
    and "hole_pages (p, n) \<inter> empty_page_set s = {}"
  shows "\<exists>s'. RTinit_empty_pages p n HEAP_SEGMENT s = Inr s' \<and> holes_ok s' T ((p, n) # H) \<and>
    (\<forall>q. pages s' q = (if p \<le> q \<and> q < p + n then \<lparr>pbase = 0, pgroup = EMPTY_PAGE\<rparr> else pages s q)) \<and>
    (\<forall>a. a \<notin> hole_cells s {p} \<longrightarrow> memory s' a = memory s a)"
proof -
  obtain s' where r: "RTinit_empty_pages p n HEAP_SEGMENT s = Inr s'" "holes_ok s' T ((p, n) # H)"
    "s' = s\<lparr>memory := memory s', pages := clear_pages p (p + n) (pages s), empty_pages := PAGE_INDEX_TO_PTR s p\<rparr>"
    "\<And>a. a \<notin> hole_cells s {p} \<Longrightarrow> memory s' a = memory s a"
    by (rule RTinit_empty_pages_holes [OF assms]) blast
  have "pages s' = clear_pages p (p + n) (pages s)" by (subst r(3)) simp
  then show ?thesis using r by (auto simp: clear_pages_eq)
qed

lemma sample_one_hole:
  "holes_ok (sample_state\<lparr>pages := sample_pages(3 := \<lparr>pbase = 0, pgroup = FREE_PAGE\<rparr>)\<rparr>) {} sample_holes"
proof -
  let ?s = "sample_state\<lparr>pages := sample_pages(3 := \<lparr>pbase = 0, pgroup = FREE_PAGE\<rparr>)\<rparr>"
  have "empty_page_set ?s = empty_page_set sample_state"
    by (auto simp: empty_page_set_def sample_pages_def)
  moreover have "PAGE_INDEX_TO_PTR ?s = PAGE_INDEX_TO_PTR sample_state" "hole_seg ?s = hole_seg sample_state"
    by (auto simp: fun_eq_iff PAGE_INDEX_TO_PTR_def hole_seg_eq)
  ultimately show ?thesis using sample_holes_ok by (simp add: holes_ok_def)
qed

theorem RTinit_empty_pages_adds_hole_witness:
  "\<exists>s s'. RTinit_empty_pages 3 1 HEAP_SEGMENT s = Inr s' \<and> holes_ok s' {} [(3, 1), (4, 1)] \<and>
    pages s = sample_pages(3 := \<lparr>pbase = 0, pgroup = FREE_PAGE\<rparr>)"
proof -
  let ?s = "sample_state\<lparr>pages := sample_pages(3 := \<lparr>pbase = 0, pgroup = FREE_PAGE\<rparr>)\<rparr>"
  have "layout_ok ?s" using sample_layout by (simp add: layout_ok_def)
  moreover have "hole_pages (3, 1) \<inter> empty_page_set ?s = {}"
    by (auto simp: hole_pages_def empty_page_set_def)
  ultimately have "\<exists>s'. RTinit_empty_pages 3 1 HEAP_SEGMENT ?s = Inr s' \<and> holes_ok s' {} ((3, 1) # sample_holes)"
    using RTinit_empty_pages_adds_hole [OF _ sample_one_hole, of 3 1] by auto
  then obtain s' where "RTinit_empty_pages 3 1 HEAP_SEGMENT ?s = Inr s'" "holes_ok s' {} [(3, 1), (4, 1)]"
    by (auto simp: sample_holes_def)
  then show ?thesis by (intro exI [of _ ?s] exI [of _ s']) simp
qed

subsection \<open>Coalescing\<close>

text \<open>
  C20: identify_free_pages, from a heap between two collections, ends without an error,
  keeps the heap invariant and the black objects, and afterwards no page of a small group
  has only free objects and no large object is free: such pages have left their group.
\<close>

theorem identify_free_pages_settles:
  assumes "heap_inv T s A H"
  shows "\<exists>s' A'. identify_free_pages s = Inr s' \<and> heap_inv T s' A' H \<and>
    (\<forall>i\<in>group_indices. blacks (A' i) = blacks (A i) \<and> set (greens (A' i)) \<subseteq> set (greens (A i))) \<and>
    (\<forall>q. 0 \<le> q \<longrightarrow> q < total_partition_pages s' \<longrightarrow> settled s' A' q)"
  using identify_free_pages_refines [OF assms] unfolding a_coalesced_def by blast

theorem identify_free_pages_settles_witness:
  "\<exists>s' A'. identify_free_pages sample_state = Inr s' \<and> heap_inv {} s' A' sample_holes \<and>
    (\<forall>i\<in>group_indices. blacks (A' i) = blacks (sample_lists i) \<and>
       set (greens (A' i)) \<subseteq> set (greens (sample_lists i))) \<and>
    (\<forall>q. 0 \<le> q \<longrightarrow> q < total_partition_pages s' \<longrightarrow> settled s' A' q)"
  by (rule identify_free_pages_settles [OF sample_heap_inv])

text \<open>
  coalesce_free_pages turns every run of FREE pages into one hole; no FREE page is left
  and the groups do not change.
\<close>

theorem coalesce_free_pages_leaves_none:
  assumes "heap_inv T s A H"
  shows "\<exists>s' H'. coalesce_free_pages s = Inr s' \<and> heap_inv T s' A H' \<and> groups s' = groups s \<and>
    (\<forall>q. 0 \<le> q \<longrightarrow> q < total_partition_pages s' \<longrightarrow> pgroup (pages s' q) \<noteq> FREE_PAGE)"
  using coalesce_free_pages_refines [OF assms] holes_step_fields(3) by blast

theorem coalesce_free_pages_leaves_none_witness:
  "\<exists>s s' A' H'. identify_free_pages sample_state = Inr s \<and> coalesce_free_pages s = Inr s' \<and>
    heap_inv {} s' A' H' \<and> groups s' = groups s \<and>
    (\<forall>q. 0 \<le> q \<longrightarrow> q < total_partition_pages s' \<longrightarrow> pgroup (pages s' q) \<noteq> FREE_PAGE)"
proof -
  obtain s A where "identify_free_pages sample_state = Inr s" "heap_inv {} s A sample_holes"
    using identify_free_pages_refines [OF sample_heap_inv] by blast
  then show ?thesis using coalesce_free_pages_leaves_none by blast
qed

text \<open>
  C21: merge_adjacent_holes merges holes that touch until no hole is followed by an empty
  page, and takes the merged ones off the list; which pages are empty does not change.
\<close>

theorem merge_adjacent_holes_maximal:
  assumes "heap_inv {} s A H"
  shows "\<exists>s' H'. merge_adjacent_holes s = Inr s' \<and> heap_inv {} s' A H' \<and> pages s' = pages s \<and>
    groups s' = groups s \<and> (\<forall>h\<in>set H'. fst h + snd h \<notin> empty_page_set s')"
  using merge_adjacent_holes_refines [OF assms] holes_step_fields(3) by blast

theorem merge_adjacent_holes_maximal_witness:
  "\<exists>s' H'. merge_adjacent_holes sample_state = Inr s' \<and> heap_inv {} s' sample_lists H' \<and>
    pages s' = pages sample_state \<and> groups s' = groups sample_state \<and>
    (\<forall>h\<in>set H'. fst h + snd h \<notin> empty_page_set s')"
  by (rule merge_adjacent_holes_maximal [OF sample_heap_inv])

subsection \<open>The report\<close>

text \<open>
  C36: on a heap between collections without FREE or reserved pages, as coalescing leaves it,
  RTroom does not stop; its counts are the numbers of free and of allocated objects of each
  group, the pages it finds in holes are those of the list of holes, and the bytes it prints
  for holes and groups add up to the bytes of the partition: no page is counted twice or
  lost.
\<close>

theorem RTroom_accounts_for_partition:
  assumes "heap_inv {} s A H"
    and "\<And>q. 0 \<le> q \<Longrightarrow> q < total_partition_pages s \<Longrightarrow>
      pgroup (pages s q) = EMPTY_PAGE \<or> (\<exists>i. pgroup (pages s q) = Group i)"
  shows "\<exists>r. RTroom s = Inr r \<and>
    (\<forall>i\<in>group_indices. green_count r i = int (length (greens (A i))) \<and>
       alloc_count r i = int (length (blacks (A i)))) \<and>
    total_empty_pages s r = sum_list (map snd H) \<and>
    Total_hole_committed_bytes (c_int (total_partition_pages s * BYTES_PER_PAGE))
      (c_int (total_partition_pages s * BYTES_PER_PAGE)) \<in> set (RTroom_print s r)"
proof (rule RTroom_refines [OF assms])
  fix r
  assume r: "RTroom s = Inr r" "total_empty_pages s r = sum_list (map snd H)"
    "total_committed_bytes s r = (total_partition_pages s - sum_list (map snd H)) * BYTES_PER_PAGE"
    and c: "\<And>i. i \<in> group_indices \<Longrightarrow> green_count r i = int (length (greens (A i))) \<and>
      alloc_count r i = int (length (blacks (A i)))"
  have "total_empty_pages s r * BYTES_PER_PAGE + total_committed_bytes s r = total_partition_pages s * BYTES_PER_PAGE"
    unfolding r by (simp add: algebra_simps)
  then show ?thesis using r(1,2) c by (intro exI [of _ r]) (simp add: RTroom_print_def)
qed

theorem RTroom_accounts_for_partition_witness:
  "\<exists>r. RTroom sample_state = Inr r \<and> green_count r 12 = 1 \<and> alloc_count r 12 = 3 \<and>
    total_empty_pages sample_state r = 1 \<and>
    Total_hole_committed_bytes 20480 20480 \<in> set (RTroom_print sample_state r)"
proof -
  have "pgroup (pages sample_state q) = EMPTY_PAGE \<or> (\<exists>i. pgroup (pages sample_state q) = Group i)" for q
    by (simp add: sample_pages_def)
  from RTroom_accounts_for_partition [OF sample_heap_inv this] obtain r where r: "RTroom sample_state = Inr r"
    "\<forall>i\<in>group_indices. green_count r i = int (length (greens (sample_lists i))) \<and>
       alloc_count r i = int (length (blacks (sample_lists i)))"
    "total_empty_pages sample_state r = sum_list (map snd sample_holes)"
    "Total_hole_committed_bytes (c_int (total_partition_pages sample_state * BYTES_PER_PAGE))
      (c_int (total_partition_pages sample_state * BYTES_PER_PAGE)) \<in> set (RTroom_print sample_state r)" by blast
  have "c_int (total_partition_pages sample_state * BYTES_PER_PAGE) = 20480"
    by (simp add: BYTES_PER_PAGE_def PAGE_POWER_def c_int_def)
  then show ?thesis using r bspec [OF r(2), of 12] by (intro exI [of _ r]) (simp add: sample_lists_def sample_holes_def group_indices_def config_defs)
qed

end
