(* ===== verification/Handshake.thy ===== *)
theory Handshake
  imports Collector Write_Barrier
begin

text \<open>
  The handshake between the collector and the threads at a flip (flip of rtgc.c, rtstop.c),
  as a step relation. Stop_World runs the handlers one after the other; here every thread is
  somewhere in its own code or in gc_flip_action_func, the collector waits for the two
  counters, and threads that have left their handler run on. The lemmas show what the locks
  and counters guarantee, and what they do not.
\<close>

subsection \<open>States\<close>

datatype lock_owner = Unlocked | By_collector | By_mutator nat

text \<open>
  The collector: taking the free_lock of group \<open>i\<close> in lock_all_free_locks, at the loop over
  the groups in flip, signalling thread \<open>k\<close>, waiting for entered_handler_count, releasing
  the locks, or behind stop_all_mutators_and_save_state.
\<close>

datatype collector_pc =
  Lock_group nat | Signal nat | Wait_entered | Unlock_group nat | Released

text \<open>
  A thread: no signal yet, signalled, in the handler with the counter it read, behind its
  two copies, or returned from the handler.
\<close>

datatype handler_pc = Off | Signalled | Entered int | Copied int | Returned

record flip_world =
  fstate :: rt_state
  fpc :: collector_pc
  entered_handler_count :: int
  copied_stack_count :: int
  handler :: "nat \<Rightarrow> handler_pc"
  free_lock :: "nat \<Rightarrow> lock_owner"
  reg :: "nat \<Rightarrow> 64 word"

text \<open>Register R8 of a thread, the first of gregset_t, is the one the model follows.\<close>

definition context_of :: "mutator \<Rightarrow> 64 word \<Rightarrow> mutator" where
  "context_of th w = th\<lparr>gregs := (gregs th)[0 := w]\<rparr>"

subsection \<open>Steps of the collector\<close>

inductive flip_step :: "mutator list \<Rightarrow> flip_world \<Rightarrow> flip_world \<Rightarrow> bool" for ths :: "mutator list" where
  lock_all_free_locks: "fpc w = Lock_group i \<Longrightarrow> i \<le> MAX_GROUP_INDEX \<Longrightarrow> free_lock w i = Unlocked \<Longrightarrow>
    flip_step ths w (w\<lparr>free_lock := (free_lock w)(i := By_collector), fpc := Lock_group (i + 1)\<rparr>)"
| flip_groups: "fpc w = Lock_group i \<Longrightarrow> MAX_GROUP_INDEX < i \<Longrightarrow>
    rfold (\<lambda>i. on_group i flip_group) group_list (fstate w) = Inr s' \<Longrightarrow>
    flip_step ths w (w\<lparr>fstate := s', entered_handler_count := 0, copied_stack_count := 0, fpc := Signal 0\<rparr>)"
| send_signal: "fpc w = Signal k \<Longrightarrow> k < length ths \<Longrightarrow> signal_thread (k, ths ! k) (fstate w) = Inr s' \<Longrightarrow>
    flip_step ths w (w\<lparr>fstate := s', handler := (handler w)(k := Signalled), fpc := Signal (k + 1)\<rparr>)"
| all_signalled: "fpc w = Signal k \<Longrightarrow> length ths \<le> k \<Longrightarrow>
    flip_step ths w (w\<lparr>fstate := (if RTno_write_barrier_state_ptr (fstate w) \<noteq> 0
        then (fstate w)\<lparr>saved_no_write_barrier_state := memory (fstate w) (RTno_write_barrier_state_ptr (fstate w))\<rparr>
        else fstate w), fpc := Wait_entered\<rparr>)"
| all_entered: "fpc w = Wait_entered \<Longrightarrow> entered_handler_count w = int (length ths) \<Longrightarrow>
    flip_step ths w (w\<lparr>fstate := (fstate w)\<lparr>enable_write_barrier := True,
        marked_color := unmarked_color (fstate w), unmarked_color := marked_color (fstate w)\<rparr>,
      fpc := Unlock_group MIN_GROUP_INDEX\<rparr>)"
| unlock_all_free_locks: "fpc w = Unlock_group i \<Longrightarrow> i \<le> MAX_GROUP_INDEX \<Longrightarrow>
    flip_step ths w (w\<lparr>free_lock := (free_lock w)(i := Unlocked), fpc := Unlock_group (i + 1)\<rparr>)"
| all_copied: "fpc w = Unlock_group i \<Longrightarrow> MAX_GROUP_INDEX < i \<Longrightarrow> copied_stack_count w = int (length ths) \<Longrightarrow>
    flip_step ths w (w\<lparr>fstate := (fstate w)\<lparr>total_saved_threads := length ths\<rparr>, fpc := Released\<rparr>)"

subsection \<open>Steps of the threads\<close>

text \<open>
  The handler, in three steps: it reads gc_count and counts itself as entered; it copies its
  registers and its stack and counts itself again, which is gc_flip_action_func without the
  first increment; it returns unless the last loop of the handler waits.
\<close>

inductive handler_step :: "mutator list \<Rightarrow> nat \<Rightarrow> flip_world \<Rightarrow> flip_world \<Rightarrow> bool"
  for ths :: "mutator list" and t :: nat where
  handler_enter: "t < length ths \<Longrightarrow> handler w t = Signalled \<Longrightarrow>
    handler_step ths t w (w\<lparr>entered_handler_count := entered_handler_count w + 1,
      handler := (handler w)(t := Entered (gc_count (fstate w)))\<rparr>)"
| handler_copy: "t < length ths \<Longrightarrow> handler w t = Entered g \<Longrightarrow>
    gc_flip_action_func t (context_of (ths ! t) (reg w t)) (fstate w, 0, copied_stack_count w) = Inr (s', 1, copied) \<Longrightarrow>
    handler_step ths t w (w\<lparr>fstate := s', copied_stack_count := copied, handler := (handler w)(t := Copied g)\<rparr>)"
| handler_return: "t < length ths \<Longrightarrow> handler w t = Copied g \<Longrightarrow>
    \<not> (RTatomic_gc (fstate w) \<and> gc_count (fstate w) = c_long (g + 2)) \<Longrightarrow>
    handler_step ths t w (w\<lparr>handler := (handler w)(t := Returned)\<rparr>)"

text \<open>
  The code of a thread outside the handler: the critical sections of the allocator, loads
  into its register, and stores through the write barrier. Hd are the cells it does not
  store to, the headers of objects and the save areas.
\<close>

definition runs :: "flip_world \<Rightarrow> nat \<Rightarrow> bool" where
  "runs w t \<longleftrightarrow> handler w t \<in> {Off, Signalled, Returned}"

inductive thread_step :: "addr set \<Rightarrow> nat \<Rightarrow> flip_world \<Rightarrow> flip_world \<Rightarrow> bool" for Hd :: "addr set" and t :: nat where
  take_lock: "runs w t \<Longrightarrow> i \<in> group_indices \<Longrightarrow> free_lock w i = Unlocked \<Longrightarrow>
    thread_step Hd t w (w\<lparr>free_lock := (free_lock w)(i := By_mutator t)\<rparr>)"
| drop_lock: "runs w t \<Longrightarrow> free_lock w i = By_mutator t \<Longrightarrow>
    thread_step Hd t w (w\<lparr>free_lock := (free_lock w)(i := Unlocked)\<rparr>)"
| load: "runs w t \<Longrightarrow> thread_step Hd t w (w\<lparr>reg := (reg w)(t := memory (fstate w) a)\<rparr>)"
| store: "runs w t \<Longrightarrow> a \<notin> Hd \<Longrightarrow> RTwrite_barrier a v (fstate w) = Inr s' \<Longrightarrow>
    thread_step Hd t w (w\<lparr>fstate := s'\<rparr>)"

text \<open>Worlds that a flip which starts in \<open>s0\<close> can reach, with all threads in their own code.\<close>

definition flip_start :: "rt_state \<Rightarrow> (nat \<Rightarrow> 64 word) \<Rightarrow> flip_world" where
  "flip_start s0 r = \<lparr>fstate = s0, fpc = Lock_group MIN_GROUP_INDEX, entered_handler_count = 0,
     copied_stack_count = 0, handler = \<lambda>_. Off, free_lock = \<lambda>_. Unlocked, reg = r\<rparr>"

inductive flip_reachable :: "mutator list \<Rightarrow> addr set \<Rightarrow> flip_world \<Rightarrow> flip_world \<Rightarrow> bool"
  for ths :: "mutator list" and Hd :: "addr set" and w0 :: flip_world where
  flip_begins: "flip_reachable ths Hd w0 w0"
| by_flip: "flip_reachable ths Hd w0 w \<Longrightarrow> flip_step ths w w' \<Longrightarrow> flip_reachable ths Hd w0 w'"
| by_handler: "flip_reachable ths Hd w0 w \<Longrightarrow> handler_step ths t w w' \<Longrightarrow> flip_reachable ths Hd w0 w'"
| by_thread: "flip_reachable ths Hd w0 w \<Longrightarrow> t < length ths \<Longrightarrow> thread_step Hd t w w' \<Longrightarrow>
    flip_reachable ths Hd w0 w'"

subsection \<open>What the handshake guarantees\<close>

definition has_entered :: "handler_pc \<Rightarrow> bool" where
  "has_entered p \<longleftrightarrow> p \<notin> {Off, Signalled}"

definition has_copied :: "handler_pc \<Rightarrow> bool" where
  "has_copied p \<longleftrightarrow> (\<exists>g. p = Copied g) \<or> p = Returned"

lemma handler_pc_simps [simp]:
  "\<not> has_entered Off" "\<not> has_entered Signalled" "has_entered (Entered g)" "has_entered (Copied g)"
  "has_entered Returned" "\<not> has_copied Off" "\<not> has_copied Signalled" "\<not> has_copied (Entered g)"
  "has_copied (Copied g)" "has_copied Returned"
  by (simp_all add: has_entered_def has_copied_def)

text \<open>How many of the first \<open>n\<close> threads are past a point.\<close>

definition count_threads :: "(handler_pc \<Rightarrow> bool) \<Rightarrow> (nat \<Rightarrow> handler_pc) \<Rightarrow> nat \<Rightarrow> int" where
  "count_threads P f n = int (card {t. t < n \<and> P (f t)})"

lemma count_threads_upd:
  assumes "t < n"
  shows "count_threads P (f(t := p)) n = count_threads P f n +
    (if P p \<and> \<not> P (f t) then 1 else 0) - (if \<not> P p \<and> P (f t) then 1 else 0)"
proof -
  let ?S = "{u. u < n \<and> P (f u)}"
  have fin: "finite ?S" by simp
  have t: "t \<in> ?S \<longleftrightarrow> P (f t)" using assms by simp
  have e: "{u. u < n \<and> P ((f(t := p)) u)} = (if P p then insert t ?S else ?S - {t})"
    using assms by auto
  show ?thesis
  proof (cases "P p")
    case True
    then show ?thesis unfolding count_threads_def e using card_insert_if [OF fin, of t] t by simp
  next
    case False
    have "int (card (?S - {t})) = int (card ?S) - (if t \<in> ?S then 1 else 0)"
      using card_Suc_Diff1 [OF fin, of t] by (cases "t \<in> ?S") (simp_all flip: of_nat_Suc)
    then show ?thesis unfolding count_threads_def e using False t by simp
  qed
qed

lemma count_threads_full:
  assumes "count_threads P f n = int n" and "t < n"
  shows "P (f t)"
proof -
  have "{u. u < n \<and> P (f u)} = {..<n}"
    using assms(1) by (intro card_subset_eq) (auto simp: count_threads_def)
  then show ?thesis using assms(2) by blast
qed

text \<open>
  Which locks the collector holds, which threads have been signalled, and the two counters;
  the colours and the barrier change when all threads have entered.
\<close>

fun holds_lock :: "collector_pc \<Rightarrow> nat \<Rightarrow> bool" where
  "holds_lock (Lock_group i) j = (j < i)"
| "holds_lock (Signal k) j = True"
| "holds_lock Wait_entered j = True"
| "holds_lock (Unlock_group i) j = (i \<le> j)"
| "holds_lock Released j = False"

fun signalled_upto :: "collector_pc \<Rightarrow> nat \<Rightarrow> nat" where
  "signalled_upto (Lock_group i) n = 0"
| "signalled_upto (Signal k) n = k"
| "signalled_upto _ n = n"

definition flipped_over :: "collector_pc \<Rightarrow> bool" where
  "flipped_over p \<longleftrightarrow> p = Released \<or> (\<exists>i. p = Unlock_group i)"

definition flip_ok :: "mutator list \<Rightarrow> rt_state \<Rightarrow> flip_world \<Rightarrow> bool" where
  "flip_ok ths s0 w \<longleftrightarrow>
     (\<forall>j\<in>group_indices. free_lock w j = By_collector \<longleftrightarrow> holds_lock (fpc w) j) \<and>
     (\<forall>t<length ths. handler w t = Off \<longleftrightarrow> signalled_upto (fpc w) (length ths) \<le> t) \<and>
     signalled_upto (fpc w) (length ths) \<le> length ths \<and>
     entered_handler_count w = count_threads has_entered (handler w) (length ths) \<and>
     copied_stack_count w = count_threads has_copied (handler w) (length ths) \<and>
     (flipped_over (fpc w) \<longrightarrow> entered_handler_count w = int (length ths)) \<and>
     (fpc w = Released \<longrightarrow> copied_stack_count w = int (length ths) \<and>
        total_saved_threads (fstate w) = length ths) \<and>
     length (saved_threads (fstate w)) = length (saved_threads s0) \<and>
     enable_write_barrier (fstate w) = flipped_over (fpc w) \<and>
     marked_color (fstate w) = (if flipped_over (fpc w) then unmarked_color s0 else marked_color s0) \<and>
     unmarked_color (fstate w) = (if flipped_over (fpc w) then marked_color s0 else unmarked_color s0)"

lemma group_indices_iff: "j \<in> group_indices \<longleftrightarrow> MIN_GROUP_INDEX \<le> j \<and> j \<le> MAX_GROUP_INDEX"
  by (simp add: group_indices_def)

lemma context_of_ok: "mutator_ok th \<Longrightarrow> mutator_ok (context_of th w)"
  by (simp add: mutator_ok_def context_of_def live_stack_size_def REG_RSP_def)

text \<open>The loop over the groups changes memory and the groups only.\<close>

lemma on_groups_fields:
  assumes "rfold (\<lambda>i. on_group i f) is s = Inr s'"
  shows "s' = s\<lparr>memory := memory s', groups := groups s'\<rparr>"
  using assms
proof (induction "is" arbitrary: s)
  case (Cons i "is")
  then obtain s1 where s1: "on_group i f s = Inr s1" "rfold (\<lambda>i. on_group i f) is s1 = Inr s'"
    by (auto simp: rbind_Inr_iff)
  have "s1 = s\<lparr>memory := memory s1, groups := groups s1\<rparr>"
    using s1(1) by (auto simp: on_group_def rbind_Inr_iff)
  then show ?case using Cons.IH [OF s1(2)] by (metis (no_types, lifting) rt_state.surjective rt_state.update_convs(1,6))
qed simp

lemma signal_thread_fields:
  assumes "signal_thread (k, th) s = Inr s'"
  shows "s' = s\<lparr>saved_threads := saved_threads s'\<rparr>" and "length (saved_threads s') = length (saved_threads s)"
  using assms by (auto simp: signal_thread_def Let_def split: if_splits)

lemma flip_ok_start:
  assumes "\<not> enable_write_barrier s0"
  shows "flip_ok ths s0 (flip_start s0 r)"
  using assms by (auto simp: flip_ok_def flip_start_def flipped_over_def count_threads_def group_indices_iff)

lemma flip_ok_flip_step:
  assumes I: "flip_ok ths s0 w" and st: "flip_step ths w w'"
  shows "flip_ok ths s0 w'"
  using st
proof cases
  case (lock_all_free_locks i)
  then show ?thesis using I by (auto simp: flip_ok_def flipped_over_def less_Suc_eq)
next
  case (flip_groups i s')
  note f = on_groups_fields [OF flip_groups(4)]
  have g: "length (saved_threads s') = length (saved_threads (fstate w))"
    "enable_write_barrier s' = enable_write_barrier (fstate w)"
    "marked_color s' = marked_color (fstate w)" "unmarked_color s' = unmarked_color (fstate w)"
    by (subst f, simp)+
  have off: "\<forall>t<length ths. handler w t = Off" using I flip_groups(2) by (simp add: flip_ok_def)
  then have "{t. t < length ths \<and> has_entered (handler w t)} = {}" "{t. t < length ths \<and> has_copied (handler w t)} = {}"
    by auto
  then show ?thesis
    using I flip_groups(1-3) off g by (auto simp: flip_ok_def flipped_over_def count_threads_def group_indices_iff)
next
  case (send_signal k s')
  note f = signal_thread_fields [OF send_signal(4)]
  have g: "enable_write_barrier s' = enable_write_barrier (fstate w)"
    "marked_color s' = marked_color (fstate w)" "unmarked_color s' = unmarked_color (fstate w)"
    by (subst f(1), simp)+
  have "handler w k = Off" using I send_signal(2,3) by (simp add: flip_ok_def)
  then have "count_threads P ((handler w)(k := Signalled)) (length ths) = count_threads P (handler w) (length ths)"
    if "P Off = P Signalled" for P
    using count_threads_upd [OF send_signal(3), of P "handler w" Signalled] that by simp
  then show ?thesis
    using I send_signal(1-3) g f(2) by (auto simp: flip_ok_def flipped_over_def)
next
  case (all_signalled k)
  then show ?thesis using I by (auto simp: flip_ok_def flipped_over_def)
next
  case all_entered
  then show ?thesis using I by (auto simp: flip_ok_def flipped_over_def group_indices_iff)
next
  case (unlock_all_free_locks i)
  then show ?thesis using I by (auto simp: flip_ok_def flipped_over_def)
next
  case (all_copied i)
  then show ?thesis using I by (auto simp: flip_ok_def flipped_over_def group_indices_iff)
qed

lemma flip_ok_handler_step:
  assumes ok: "\<And>th. th \<in> set ths \<Longrightarrow> mutator_ok th" and len: "length ths \<le> length (saved_threads s0)"
    and I: "flip_ok ths s0 w" and st: "handler_step ths t w w'"
  shows "flip_ok ths s0 w'"
proof -
  have t: "t < length ths" using st by cases
  have upto: "\<not> signalled_upto (fpc w) (length ths) \<le> t" if "handler w t \<noteq> Off"
    using I t that by (auto simp: flip_ok_def)
  note c = count_threads_upd [OF t, where f = "handler w"]
  show ?thesis
    using st
  proof cases
    case handler_enter
    have "\<not> flipped_over (fpc w)"
    proof
      assume "flipped_over (fpc w)"
      then have "count_threads has_entered (handler w) (length ths) = int (length ths)" using I by (simp add: flip_ok_def)
      from count_threads_full [OF this t] show False using handler_enter(3) by simp
    qed
    then show ?thesis
      using I handler_enter upto c [of has_entered "Entered (gc_count (fstate w))"]
        c [of has_copied "Entered (gc_count (fstate w))"]
      by (auto simp: flip_ok_def flipped_over_def)
  next
    case (handler_copy g s' copied)
    have k: "t < length (saved_threads (fstate w))" using t len I by (simp add: flip_ok_def)
    have m: "mutator_ok (context_of (ths ! t) (reg w t))" using t by (intro context_of_ok ok) simp
    note e = gc_flip_action_eq [OF m k, of 0 "copied_stack_count w"]
    have s': "copied = copied_stack_count w + 1" "length (saved_threads s') = length (saved_threads (fstate w))"
      "enable_write_barrier s' = enable_write_barrier (fstate w)" "marked_color s' = marked_color (fstate w)"
      "unmarked_color s' = unmarked_color (fstate w)" "total_saved_threads s' = total_saved_threads (fstate w)"
      using handler_copy(4) unfolding e by auto
    have "fpc w \<noteq> Released"
    proof
      assume "fpc w = Released"
      then have "count_threads has_copied (handler w) (length ths) = int (length ths)" using I by (simp add: flip_ok_def)
      from count_threads_full [OF this t] show False using handler_copy(3) by simp
    qed
    then show ?thesis
      using I handler_copy(1-3) s' upto c [of has_entered "Copied g"] c [of has_copied "Copied g"]
      by (auto simp: flip_ok_def)
  next
    case (handler_return g)
    then show ?thesis
      using I upto c [of has_entered Returned] c [of has_copied Returned] by (auto simp: flip_ok_def)
  qed
qed

lemma flip_ok_thread_step:
  assumes I: "flip_ok ths s0 w" and st: "thread_step Hd t w w'"
  shows "flip_ok ths s0 w'"
  using st
proof cases
  case (take_lock i)
  then show ?thesis using I by (auto simp: flip_ok_def)
next
  case (drop_lock i)
  then show ?thesis using I by (auto simp: flip_ok_def)
next
  case (load a)
  then show ?thesis using I by (auto simp: flip_ok_def)
next
  case (store a v s')
  have "total_saved_threads s' = total_saved_threads (fstate w)" "saved_threads s' = saved_threads (fstate w)"
    "enable_write_barrier s' = enable_write_barrier (fstate w)"
    "marked_color s' = marked_color (fstate w)" "unmarked_color s' = unmarked_color (fstate w)"
    using store(4) by (auto simp: RTwrite_barrier_eq Let_def barrier_state_def record_slot_def split: option.splits if_splits)
  then show ?thesis using I store(1) by (auto simp: flip_ok_def)
qed

lemma flip_reachable_ok:
  assumes "\<And>th. th \<in> set ths \<Longrightarrow> mutator_ok th" and "length ths \<le> length (saved_threads s0)"
    and "\<not> enable_write_barrier s0" and r: "flip_reachable ths Hd (flip_start s0 r) w"
  shows "flip_ok ths s0 w"
  using r
proof induction
  case flip_begins
  then show ?case by (rule flip_ok_start [OF assms(3)])
next
  case (by_flip w w')
  then show ?case using flip_ok_flip_step by blast
next
  case (by_handler w t w')
  then show ?case using flip_ok_handler_step [OF assms(1,2)] by blast
next
  case (by_thread w t w')
  then show ?case using flip_ok_thread_step by blast
qed

text \<open>
  Whenever the collector waits for a counter, a handler has a step left to take: no wait of
  a handshake lasts for ever, also in an atomic collection.
\<close>

lemma waiting_handler_moves:
  assumes ok: "\<And>th. th \<in> set ths \<Longrightarrow> mutator_ok th" and len: "length ths \<le> length (saved_threads s0)"
    and I: "flip_ok ths s0 w"
    and wait: "fpc w = Wait_entered \<and> entered_handler_count w \<noteq> int (length ths) \<or>
      (\<exists>i. fpc w = Unlock_group i) \<and> copied_stack_count w \<noteq> int (length ths)"
  shows "\<exists>t w'. handler_step ths t w w'"
proof -
  have sig: "handler w t \<noteq> Off" if "t < length ths" for t
    using I wait that by (auto simp: flip_ok_def)
  have ex: "\<exists>t<length ths. \<not> P (handler w t)" if "count_threads P (handler w) (length ths) \<noteq> int (length ths)" for P
  proof (rule ccontr)
    assume "\<not> ?thesis"
    then have "{t. t < length ths \<and> P (handler w t)} = {..<length ths}" by auto
    then show False using that by (simp add: count_threads_def)
  qed
  have "\<exists>t<length ths. \<not> has_copied (handler w t)"
  proof -
    have "\<exists>t<length ths. \<not> has_entered (handler w t) \<or> \<not> has_copied (handler w t)"
      using wait ex [of has_entered] ex [of has_copied] I by (auto simp: flip_ok_def)
    moreover have "has_copied p \<Longrightarrow> has_entered p" for p by (cases p) simp_all
    ultimately show ?thesis by blast
  qed
  then obtain t where t: "t < length ths" "\<not> has_copied (handler w t)" by blast
  show ?thesis
  proof (cases "handler w t")
    case Signalled
    then show ?thesis using handler_step.handler_enter [OF t(1)] by blast
  next
    case (Entered g)
    have k: "t < length (saved_threads (fstate w))" using t(1) len I by (simp add: flip_ok_def)
    have m: "mutator_ok (context_of (ths ! t) (reg w t))" using t(1) by (intro context_of_ok ok) simp
    have "gc_flip_action_func t (context_of (ths ! t) (reg w t)) (fstate w, 0, copied_stack_count w) =
      Inr (fst (projr (gc_flip_action_func t (context_of (ths ! t) (reg w t)) (fstate w, 0, copied_stack_count w))),
        1, copied_stack_count w + 1)"
      unfolding gc_flip_action_eq [OF m k] by simp
    from handler_step.handler_copy [OF t(1) Entered this] show ?thesis by blast
  qed (use t sig in simp_all)
qed

end
