(* ===== verification/Handshake_Flip.thy ===== *)
theory Handshake_Flip
  imports Handshake Collection
begin

text \<open>
  The handshake computes the flip. When the threads do nothing but take and drop locks and
  run their handlers, every run of the handshake that ends, in whatever order the signals,
  the entries and the copies come, ends in the state that the function flip gives, with
  the handlers one after the other. The invariant describes the state at every point by
  the handlers that have copied.
\<close>

subsection \<open>Quiet runs\<close>

definition quiet_step :: "mutator list \<Rightarrow> flip_world \<Rightarrow> flip_world \<Rightarrow> bool" where
  "quiet_step ths w w' \<longleftrightarrow> flip_step ths w w' \<or> (\<exists>t. handler_step ths t w w') \<or>
     (\<exists>t<length ths. thread_step {} t w w' \<and> fstate w' = fstate w \<and> reg w' = reg w)"

text \<open>The threads with their registers, as the handlers find them.\<close>

definition contexts :: "mutator list \<Rightarrow> (nat \<Rightarrow> 64 word) \<Rightarrow> mutator list" where
  "contexts ths r = map (\<lambda>t. context_of (ths ! t) (r t)) [0..<length ths]"

lemma contexts_simps [simp]: "length (contexts ths r) = length ths"
  "t < length ths \<Longrightarrow> contexts ths r ! t = context_of (ths ! t) (r t)"
  by (simp_all add: contexts_def)

lemma contexts_ok: "(\<And>th. th \<in> set ths \<Longrightarrow> mutator_ok th) \<Longrightarrow> th \<in> set (contexts ths r) \<Longrightarrow> mutator_ok th"
  by (auto simp: contexts_def intro: context_of_ok)

lemma quiet_reachable:
  assumes "(quiet_step ths)\<^sup>*\<^sup>* w0 w"
  shows "flip_reachable ths {} w0 w"
  using assms
proof (induction rule: rtranclp_induct)
  case base
  show ?case by (rule flip_reachable.flip_begins)
next
  case (step w w')
  then show ?case by (auto simp: quiet_step_def intro: flip_reachable.intros)
qed

subsection \<open>The state by the handlers\<close>

definition copy_area :: "rt_state \<Rightarrow> mutator list \<Rightarrow> nat \<Rightarrow> addr set" where
  "copy_area s cts t = handler_area (saved_threads s ! t, cts ! t)"

lemma save_area_copy_areas:
  assumes "length cts \<le> length (saved_threads s)"
  shows "save_area s cts = (\<Union>t<length cts. copy_area s cts t)"
proof -
  have "set (save_pairs s cts) = (\<lambda>t. (saved_threads s ! t, cts ! t)) ` {..<length cts}"
    using assms by (auto simp: save_pairs_def set_zip)
  then show ?thesis by (simp add: save_area_def copy_area_def)
qed

definition copied_memory :: "rt_state \<Rightarrow> mutator list \<Rightarrow> (nat \<Rightarrow> handler_pc) \<Rightarrow> mem" where
  "copied_memory s cts hp a =
     (if \<exists>t<length cts. has_copied (hp t) \<and> a \<in> copy_area s cts t then memory (stopped cts s) a else memory s a)"

definition copied_threads :: "rt_state \<Rightarrow> mutator list \<Rightarrow> nat \<Rightarrow> (nat \<Rightarrow> handler_pc) \<Rightarrow> thread_state list" where
  "copied_threads s cts k hp =
     map (\<lambda>t. if t < length cts \<and> has_copied (hp t) then saved_thread (saved_threads s ! t) (cts ! t)
       else if t < k then (saved_threads s ! t)\<lparr>saved_stack_size := 0\<rparr> else saved_threads s ! t)
       [0..<length (saved_threads s)]"

definition state_kept :: "collector_pc \<Rightarrow> bool" where
  "state_kept p \<longleftrightarrow> p = Wait_entered \<or> flipped_over p"

definition handshake_state :: "rt_state \<Rightarrow> mutator list \<Rightarrow> collector_pc \<Rightarrow> (nat \<Rightarrow> handler_pc) \<Rightarrow> rt_state" where
  "handshake_state s cts p hp =
     s\<lparr>memory := copied_memory s cts hp,
       saved_threads := copied_threads s cts (signalled_upto p (length cts)) hp,
       saved_no_write_barrier_state := (if state_kept p \<and> RTno_write_barrier_state_ptr s \<noteq> 0
         then memory s (RTno_write_barrier_state_ptr s) else saved_no_write_barrier_state s),
       enable_write_barrier := flipped_over p,
       marked_color := (if flipped_over p then unmarked_color s else marked_color s),
       unmarked_color := (if flipped_over p then marked_color s else unmarked_color s),
       total_saved_threads := (if p = Released then length cts else total_saved_threads s)\<rparr>"

definition quiet_ok :: "mutator list \<Rightarrow> rt_state \<Rightarrow> (nat \<Rightarrow> 64 word) \<Rightarrow> flip_world \<Rightarrow> bool" where
  "quiet_ok ths s0 r w \<longleftrightarrow> reg w = r \<and>
     (if \<exists>i. fpc w = Lock_group i then fstate w = s0
      else \<exists>sg. rfold (\<lambda>i. on_group i flip_group) group_list s0 = Inr sg \<and>
        fstate w = handshake_state sg (contexts ths r) (fpc w) (handler w))"

text \<open>When no handler has copied, the state is that behind the loop over the groups.\<close>

lemma handshake_state_start:
  assumes "\<And>t. t < length cts \<Longrightarrow> \<not> has_copied (hp t)" and "\<not> enable_write_barrier s"
  shows "handshake_state s cts (Signal 0) hp = s"
proof -
  have "copied_memory s cts hp = memory s" using assms(1) by (auto simp: copied_memory_def fun_eq_iff)
  moreover have "copied_threads s cts 0 hp = saved_threads s"
    unfolding copied_threads_def using assms(1) by (intro nth_equalityI) auto
  ultimately show ?thesis using assms(2) by (simp add: handshake_state_def state_kept_def flipped_over_def)
qed

text \<open>When all have, it is that of the function.\<close>

lemma handshake_state_end:
  assumes "\<And>t. t < length cts \<Longrightarrow> has_copied (hp t)" and "length cts \<le> length (saved_threads s)"
  shows "handshake_state s cts Released hp = stopped cts s"
proof -
  let ?L = "saved_threads s" and ?n = "length cts"
  have "copied_memory s cts hp a = memory (stopped cts s) a" for a
  proof (cases "a \<in> save_area s cts")
    case True
    then obtain t where "t < ?n" "a \<in> copy_area s cts t" using save_area_copy_areas [OF assms(2)] by auto
    then show ?thesis using assms(1) by (auto simp: copied_memory_def)
  next
    case False
    then show ?thesis by (simp add: copied_memory_def stopped_memory)
  qed
  then have "copied_memory s cts hp = memory (stopped cts s)" by (rule ext)
  moreover have "copied_threads s cts ?n hp = saved_threads (stopped cts s)"
    using assms by (intro nth_equalityI) (auto simp: copied_threads_def stopped_def save_pairs_def nth_append)
  ultimately show ?thesis
    by (simp add: handshake_state_def state_kept_def flipped_over_def) (simp add: stopped_def)
qed

subsection \<open>The steps\<close>

lemma copied_cong:
  assumes "\<And>t. t < length cts \<Longrightarrow> has_copied (hp' t) = has_copied (hp t)"
  shows "copied_memory s cts hp' = copied_memory s cts hp" "copied_threads s cts k hp' = copied_threads s cts k hp"
  using assms by (auto simp: copied_memory_def copied_threads_def fun_eq_iff intro!: map_cong)

lemma handshake_state_cong:
  assumes "\<And>t. t < length cts \<Longrightarrow> has_copied (hp' t) = has_copied (hp t)"
  shows "handshake_state s cts p hp' = handshake_state s cts p hp"
proof -
  note c = copied_cong [where cts = cts and hp = hp and hp' = hp', OF assms]
  show ?thesis by (simp add: handshake_state_def c)
qed

lemma handshake_state_copy:
  "(handshake_state s cts p hp)\<lparr>memory := copied_memory s cts hp',
     saved_threads := copied_threads s cts (signalled_upto p (length cts)) hp'\<rparr> = handshake_state s cts p hp'"
  by (simp add: handshake_state_def)

lemma quiet_flip_step:
  assumes I: "quiet_ok ths s0 r w" and F: "flip_ok ths s0 w" and e: "\<not> enable_write_barrier s0"
    and len: "length ths \<le> length (saved_threads s0)"
    and nw: "RTno_write_barrier_state_ptr s0 \<notin> save_area s0 (contexts ths r)" and st: "flip_step ths w w'"
  shows "quiet_ok ths s0 r w'"
proof -
  let ?cts = "contexts ths r" and ?n = "length ths"
  have off: "t < ?n \<Longrightarrow> handler w t = Off \<longleftrightarrow> signalled_upto (fpc w) ?n \<le> t" for t
    using F by (simp add: flip_ok_def)
  have up: "signalled_upto (fpc w) ?n \<le> ?n" using F by (simp add: flip_ok_def)
  have r: "reg w = r" using I by (simp add: quiet_ok_def)
  have sg: "\<exists>sg. rfold (\<lambda>i. on_group i flip_group) group_list s0 = Inr sg \<and>
      fstate w = handshake_state sg ?cts (fpc w) (handler w)" if "\<And>i. fpc w \<noteq> Lock_group i"
    using I that by (auto simp: quiet_ok_def split: if_splits)
  have fields: "saved_threads sg = saved_threads s0" "RTno_write_barrier_state_ptr sg = RTno_write_barrier_state_ptr s0"
    "enable_write_barrier sg = enable_write_barrier s0"
    if "rfold (\<lambda>i. on_group i flip_group) group_list s0 = Inr sg" for sg
    by (subst on_groups_fields [OF that], simp)+
  show ?thesis
    using st
  proof cases
    case (lock_all_free_locks i)
    then show ?thesis using I by (auto simp: quiet_ok_def)
  next
    case (flip_groups i s')
    then have 1: "rfold (\<lambda>i. on_group i flip_group) group_list s0 = Inr s'" using I by (auto simp: quiet_ok_def)
    have "handshake_state s' ?cts (Signal 0) (handler w) = s'"
      using off fields(3) [OF 1] e flip_groups(2) by (intro handshake_state_start) simp_all
    then show ?thesis using 1 r by (simp add: quiet_ok_def flip_groups(1))
  next
    case (send_signal k s')
    obtain sg where g: "rfold (\<lambda>i. on_group i flip_group) group_list s0 = Inr sg"
      "fstate w = handshake_state sg ?cts (Signal k) (handler w)" using sg send_signal(2) by auto
    note f = fields [OF g(1)]
    let ?T = "copied_threads sg ?cts k (handler w)"
    have k: "handler w k = Off" using off send_signal(2,3) by simp
    have s': "s' = (fstate w)\<lparr>saved_threads := ?T[k := (?T ! k)\<lparr>saved_stack_size := 0\<rparr>]\<rparr>"
      using send_signal(4) by (auto simp: signal_thread_def Let_def g(2) handshake_state_def split: if_splits)
    have "?T[k := (?T ! k)\<lparr>saved_stack_size := 0\<rparr>] = copied_threads sg ?cts (Suc k) (handler w)"
      using send_signal(3) len k by (intro nth_equalityI) (auto simp: copied_threads_def nth_list_update f(1) less_Suc_eq)
    then have "s' = handshake_state sg ?cts (Signal (Suc k)) (handler w)"
      unfolding s' g(2) by (simp add: handshake_state_def state_kept_def flipped_over_def)
    also have "\<dots> = handshake_state sg ?cts (Signal (Suc k)) ((handler w)(k := Signalled))"
      using k by (intro handshake_state_cong) auto
    finally show ?thesis using g(1) r by (simp add: quiet_ok_def send_signal(1))
  next
    case (all_signalled k)
    obtain sg where g: "rfold (\<lambda>i. on_group i flip_group) group_list s0 = Inr sg"
      "fstate w = handshake_state sg ?cts (Signal k) (handler w)" using sg all_signalled(2) by auto
    note f = fields [OF g(1)]
    have k: "k = ?n" using up all_signalled(2,3) by simp
    have "save_area sg ?cts = save_area s0 ?cts" by (simp add: save_area_def save_pairs_def f(1))
    then have "\<forall>t<?n. RTno_write_barrier_state_ptr sg \<notin> copy_area sg ?cts t"
      using nw len save_area_copy_areas [of ?cts sg] unfolding f(1,2) contexts_simps(1) by blast
    then have "copied_memory sg ?cts (handler w) (RTno_write_barrier_state_ptr sg) = memory sg (RTno_write_barrier_state_ptr sg)"
      by (auto simp: copied_memory_def)
    then show ?thesis
      using g r by (simp add: quiet_ok_def all_signalled(1)) (simp add: handshake_state_def state_kept_def flipped_over_def k)
  next
    case all_entered
    obtain sg where g: "rfold (\<lambda>i. on_group i flip_group) group_list s0 = Inr sg"
      "fstate w = handshake_state sg ?cts Wait_entered (handler w)" using sg all_entered(2) by auto
    then show ?thesis
      using r by (simp add: quiet_ok_def all_entered(1)) (simp add: handshake_state_def state_kept_def flipped_over_def)
  next
    case (unlock_all_free_locks i)
    obtain sg where g: "rfold (\<lambda>i. on_group i flip_group) group_list s0 = Inr sg"
      "fstate w = handshake_state sg ?cts (Unlock_group i) (handler w)" using sg unlock_all_free_locks(2) by auto
    then show ?thesis
      using r by (simp add: quiet_ok_def unlock_all_free_locks(1)) (simp add: handshake_state_def state_kept_def flipped_over_def)
  next
    case (all_copied i)
    obtain sg where g: "rfold (\<lambda>i. on_group i flip_group) group_list s0 = Inr sg"
      "fstate w = handshake_state sg ?cts (Unlock_group i) (handler w)" using sg all_copied(2) by auto
    then show ?thesis
      using r by (simp add: quiet_ok_def all_copied(1)) (simp add: handshake_state_def state_kept_def flipped_over_def)
  qed
qed

text \<open>A handler copies: what it reads no handler writes, and nobody else writes where it writes.\<close>

lemma copied_memory_step:
  assumes A: "areas_ok s cts" and len: "length cts \<le> length (saved_threads s)" and t: "t < length cts"
    and new: "\<not> has_copied (hp t)" and cp: "has_copied v"
  shows "handler_write (saved_threads s ! t, cts ! t) (copied_memory s cts hp) = copied_memory s cts (hp(t := v))"
proof
  fix a
  let ?p = "\<lambda>i. (saved_threads s ! i, cts ! i)"
  have pairs: "?p i \<in> set (save_pairs s cts)" if "i < length cts" for i
    using that len by (auto simp: save_pairs_def set_zip)
  have dp: "?p i \<noteq> ?p t" if "i < length cts" "i \<noteq> t" for i
  proof -
    have "distinct (save_pairs s cts)" "length (save_pairs s cts) = length cts"
      using A len by (simp_all add: areas_ok_def save_pairs_def)
    then have "save_pairs s cts ! i \<noteq> save_pairs s cts ! t" using that t by (simp add: nth_eq_iff_index_eq)
    then show ?thesis using that t len by (simp add: save_pairs_def)
  qed
  have disj: "handler_source p \<inter> handler_area q = {}" "p \<noteq> q \<Longrightarrow> handler_area p \<inter> handler_area q = {}"
    if "p \<in> set (save_pairs s cts)" "q \<in> set (save_pairs s cts)" for p q
    using A that by (auto simp: areas_ok_def)
  show "handler_write (?p t) (copied_memory s cts hp) a = copied_memory s cts (hp(t := v)) a"
  proof (cases "a \<in> copy_area s cts t")
    case True
    then have a: "a \<in> handler_area (?p t)" by (simp add: copy_area_def)
    have "copied_memory s cts hp b = memory s b" if b: "b \<in> handler_source (?p t)" for b
    proof -
      have "b \<notin> copy_area s cts i" if "i < length cts" for i
        using disj(1) [OF pairs [OF t] pairs [OF that]] b by (auto simp: copy_area_def)
      then show ?thesis by (auto simp: copied_memory_def)
    qed
    then have "handler_write (?p t) (copied_memory s cts hp) a = handler_write (?p t) (memory s) a"
      using a by (intro savers.put_local)
    also have "\<dots> = memory (stopped cts s) a"
    proof -
      have "fold handler_write (save_pairs s cts) (memory s) a = handler_write (?p t) (memory s) a"
        by (rule savers.fold_area [OF _ pairs [OF t] a]) (use A disj pairs [OF t] in \<open>auto simp: areas_ok_def\<close>)
      then show ?thesis by (simp add: stopped_def)
    qed
    also have "\<dots> = copied_memory s cts (hp(t := v)) a" using True t cp by (auto simp: copied_memory_def)
    finally show ?thesis .
  next
    case False
    then have "handler_write (?p t) (copied_memory s cts hp) a = copied_memory s cts hp a"
      by (intro savers.put_frame) (simp add: copy_area_def)
    moreover have "(\<exists>i<length cts. has_copied ((hp(t := v)) i) \<and> a \<in> copy_area s cts i) =
        (\<exists>i<length cts. has_copied (hp i) \<and> a \<in> copy_area s cts i)"
      using False new by (metis fun_upd_apply)
    ultimately show ?thesis by (simp only: copied_memory_def)
  qed
qed

lemma quiet_handler_step:
  assumes ok: "\<And>th. th \<in> set ths \<Longrightarrow> mutator_ok th"
    and I: "quiet_ok ths s0 r w" and F: "flip_ok ths s0 w"
    and len: "length ths \<le> length (saved_threads s0)"
    and A: "areas_ok s0 (contexts ths r)" and st: "handler_step ths t w w'"
  shows "quiet_ok ths s0 r w'"
proof -
  let ?cts = "contexts ths r" and ?n = "length ths"
  have t: "t < ?n" "handler w t \<noteq> Off" using st by (cases, simp_all)+
  have nl: "fpc w \<noteq> Lock_group i" for i using F t by (auto simp: flip_ok_def)
  obtain sg where g: "rfold (\<lambda>i. on_group i flip_group) group_list s0 = Inr sg"
    "fstate w = handshake_state sg ?cts (fpc w) (handler w)" and r: "reg w = r"
    using I nl by (auto simp: quiet_ok_def split: if_splits)
  have sv: "saved_threads sg = saved_threads s0" by (subst on_groups_fields [OF g(1)]) simp
  have up: "t < signalled_upto (fpc w) ?n" using F t by (auto simp: flip_ok_def not_le [symmetric])
  show ?thesis
    using st
  proof cases
    case handler_enter
    have "handshake_state sg ?cts (fpc w) ((handler w)(t := Entered (gc_count (fstate w)))) =
        handshake_state sg ?cts (fpc w) (handler w)"
      using handler_enter(3) by (intro handshake_state_cong) auto
    then show ?thesis using g r nl by (simp add: quiet_ok_def handler_enter(1))
  next
    case (handler_copy g' s' copied)
    let ?hp = "(handler w)(t := Copied g')" and ?T = "saved_threads (fstate w)"
    have new: "\<not> has_copied (handler w t)" using handler_copy(3) by simp
    have T: "?T = copied_threads sg ?cts (signalled_upto (fpc w) ?n) (handler w)" "t < length ?T"
      "?T ! t = (saved_threads sg ! t)\<lparr>saved_stack_size := 0\<rparr>"
      using g(2) new t(1) up len by (simp_all add: handshake_state_def copied_threads_def sv)
    have m: "mutator_ok (?cts ! t)" unfolding contexts_simps(2) [OF t(1)] by (rule context_of_ok [OF ok [OF nth_mem [OF t(1)]]])
    have "s' = (fstate w)\<lparr>memory := handler_write (?T ! t, ?cts ! t) (memory (fstate w)),
        saved_threads := ?T[t := saved_thread (?T ! t) (?cts ! t)]\<rparr>"
      using handler_copy(4) unfolding r contexts_simps(2) [OF t(1), symmetric] gc_flip_action_eq [OF m T(2)] by simp
    also have "handler_write (?T ! t, ?cts ! t) (memory (fstate w)) = copied_memory sg ?cts ?hp"
    proof -
      have "areas_ok sg ?cts" using A by (simp add: areas_ok_def save_pairs_def sv)
      then have "handler_write (saved_threads sg ! t, ?cts ! t) (copied_memory sg ?cts (handler w)) = copied_memory sg ?cts ?hp"
        using len t(1) new by (intro copied_memory_step) (simp_all add: sv)
      moreover have "memory (fstate w) = copied_memory sg ?cts (handler w)" using g(2) by (simp add: handshake_state_def)
      ultimately show ?thesis unfolding T(3) stack_size_irrelevant by (simp only:)
    qed
    also have "?T[t := saved_thread (?T ! t) (?cts ! t)] = copied_threads sg ?cts (signalled_upto (fpc w) ?n) ?hp"
      unfolding T(3) stack_size_irrelevant T(1) using t(1) new up
      by (intro nth_equalityI) (auto simp: copied_threads_def nth_list_update stack_size_irrelevant)
    finally have "s' = handshake_state sg ?cts (fpc w) ?hp"
      unfolding g(2) using handshake_state_copy [where s = sg and cts = ?cts and p = "fpc w" and hp = "handler w" and hp' = ?hp] by (simp only: contexts_simps(1))
    then show ?thesis using g(1) r nl by (simp add: quiet_ok_def handler_copy(1))
  next
    case (handler_return g')
    have "handshake_state sg ?cts (fpc w) ((handler w)(t := Returned)) = handshake_state sg ?cts (fpc w) (handler w)"
      using handler_return(3) by (intro handshake_state_cong) auto
    then show ?thesis using g r nl by (simp add: quiet_ok_def handler_return(1))
  qed
qed

lemma quiet_run_ok:
  assumes ok: "\<And>th. th \<in> set ths \<Longrightarrow> mutator_ok th" and len: "length ths \<le> length (saved_threads s0)"
    and e: "\<not> enable_write_barrier s0" and A: "areas_ok s0 (contexts ths r)"
    and nw: "RTno_write_barrier_state_ptr s0 \<notin> save_area s0 (contexts ths r)"
    and st: "(quiet_step ths)\<^sup>*\<^sup>* (flip_start s0 r) w"
  shows "quiet_ok ths s0 r w"
  using st
proof (induction rule: rtranclp_induct)
  case base
  show ?case by (auto simp: quiet_ok_def flip_start_def)
next
  case (step w w')
  have F: "flip_ok ths s0 w" by (rule flip_reachable_ok [OF ok len e quiet_reachable [OF step.hyps(1)]])
  from step.hyps(2) consider "flip_step ths w w'" | t where "handler_step ths t w w'"
    | t where "thread_step {} t w w'" "fstate w' = fstate w" "reg w' = reg w"
    by (auto simp: quiet_step_def)
  then show ?case
  proof cases
    case 1
    show ?thesis by (rule quiet_flip_step [OF step.IH F e len nw 1])
  next
    case 2
    show ?thesis by (rule quiet_handler_step [OF ok step.IH F len A 2])
  next
    case 3
    have "fpc w' = fpc w" "handler w' = handler w" using 3(1) by (cases; simp)+
    then show ?thesis using step.IH 3(2,3) by (simp add: quiet_ok_def)
  qed
qed

lemma handshake_ends_in_flip:
  assumes ok: "\<And>th. th \<in> set ths \<Longrightarrow> mutator_ok th" and len: "length ths \<le> length (saved_threads s0)"
    and e: "\<not> enable_write_barrier s0" and A: "areas_ok s0 (contexts ths r)"
    and nw: "RTno_write_barrier_state_ptr s0 \<notin> save_area s0 (contexts ths r)"
    and st: "(quiet_step ths)\<^sup>*\<^sup>* (flip_start s0 r) w" and R: "fpc w = Released"
  shows "flip (contexts ths r) s0 = Inr (fstate w)"
proof -
  let ?cts = "contexts ths r"
  have F: "flip_ok ths s0 w" by (rule flip_reachable_ok [OF ok len e quiet_reachable [OF st]])
  have I: "quiet_ok ths s0 r w" by (rule quiet_run_ok [OF ok len e A nw st])
  obtain sg where g: "rfold (\<lambda>i. on_group i flip_group) group_list s0 = Inr sg"
    "fstate w = handshake_state sg ?cts Released (handler w)"
    using I R by (auto simp: quiet_ok_def)
  have sv: "saved_threads sg = saved_threads s0" by (subst on_groups_fields [OF g(1)]) simp
  have "count_threads has_copied (handler w) (length ths) = int (length ths)" using F R by (simp add: flip_ok_def)
  then have "has_copied (handler w t)" if "t < length ths" for t using that count_threads_full by blast
  then have "fstate w = stopped ?cts sg" unfolding g(2) using len by (intro handshake_state_end) (simp_all add: sv)
  moreover have "stop_all_mutators_and_save_state ?cts sg = Inr (stopped ?cts sg)"
    using contexts_ok [OF ok] len by (intro stop_all_mutators_eq) (simp_all add: sv)
  ultimately show ?thesis using g(1) e by (simp add: flip_def)
qed

subsection \<open>Every quiet run can be ended\<close>

text \<open>What is left to do, for the collector and for the handlers.\<close>

fun collector_todo :: "nat \<Rightarrow> collector_pc \<Rightarrow> nat" where
  "collector_todo n (Lock_group i) = n + 60 + (Suc MAX_GROUP_INDEX - i)"
| "collector_todo n (Signal k) = 32 + (n - k)"
| "collector_todo n Wait_entered = 31"
| "collector_todo n (Unlock_group i) = 1 + (Suc MAX_GROUP_INDEX - i)"
| "collector_todo n Released = 0"

fun handler_todo :: "handler_pc \<Rightarrow> nat" where
  "handler_todo Off = 4"
| "handler_todo Signalled = 3"
| "handler_todo (Entered g) = 2"
| "handler_todo (Copied g) = 1"
| "handler_todo Returned = 0"

definition handshake_todo :: "mutator list \<Rightarrow> flip_world \<Rightarrow> nat" where
  "handshake_todo ths w = collector_todo (length ths) (fpc w) + (\<Sum>t<length ths. handler_todo (handler w t))"

lemma handler_todo_upd:
  assumes "t < (n :: nat)" and "handler_todo v < handler_todo (f t)"
  shows "(\<Sum>u<n. handler_todo ((f(t := v)) u)) < (\<Sum>u<n. handler_todo (f u))"
  using assms by (intro sum_strict_mono_ex1 finite_lessThan) auto

lemma handler_step_todo:
  assumes "handler_step ths t w w'"
  shows "handshake_todo ths w' < handshake_todo ths w"
proof -
  have t: "t < length ths" using assms by cases
  have "handler w' = (handler w)(t := handler w' t)" "fpc w' = fpc w" "handler_todo (handler w' t) < handler_todo (handler w t)"
    using assms by (cases; simp)+
  then show ?thesis using handler_todo_upd [OF t, of "handler w' t" "handler w"] by (simp add: handshake_todo_def)
qed

lemma flip_step_todo:
  assumes F: "flip_ok ths s0 w" and st: "flip_step ths w w'"
  shows "handshake_todo ths w' < handshake_todo ths w"
  using st
proof cases
  case (send_signal k s')
  then have "handler w k = Off" using F by (simp add: flip_ok_def)
  then have "(\<Sum>u<length ths. handler_todo (((handler w)(k := Signalled)) u)) < (\<Sum>u<length ths. handler_todo (handler w u))"
    using send_signal(3) by (intro handler_todo_upd) simp_all
  then show ?thesis using send_signal by (simp add: handshake_todo_def)
qed (auto simp: handshake_todo_def config_defs)

text \<open>A lock that a thread holds is held by one of the threads, which can drop it.\<close>

definition locks_ok :: "mutator list \<Rightarrow> flip_world \<Rightarrow> bool" where
  "locks_ok ths w \<longleftrightarrow> (\<forall>j t. free_lock w j = By_mutator t \<longrightarrow> t < length ths) \<and>
     (\<forall>i. fpc w = Lock_group i \<longrightarrow> MIN_GROUP_INDEX \<le> i)"

lemma locks_ok_reachable: "flip_reachable ths Hd (flip_start s0 r) w \<Longrightarrow> locks_ok ths w"
proof (induction rule: flip_reachable.induct)
  case flip_begins
  then show ?case by (simp add: locks_ok_def flip_start_def)
next
  case (by_flip w w')
  show ?case using by_flip(2) by cases (use by_flip(3) in \<open>auto simp: locks_ok_def split: if_splits\<close>)
next
  case (by_handler w t w')
  show ?case using by_handler(2) by cases (use by_handler(3) in \<open>auto simp: locks_ok_def\<close>)
next
  case (by_thread w t w')
  show ?case using by_thread(3) by cases (use by_thread(2,4) in \<open>auto simp: locks_ok_def split: if_splits\<close>)
qed

lemma quiet_progress:
  assumes ok: "\<And>th. th \<in> set ths \<Longrightarrow> mutator_ok th" and len: "length ths \<le> length (saved_threads s0)"
    and g: "\<exists>sg. rfold (\<lambda>i. on_group i flip_group) group_list s0 = Inr sg"
    and Q: "quiet_ok ths s0 r w" and F: "flip_ok ths s0 w" and L: "locks_ok ths w" and nr: "fpc w \<noteq> Released"
  shows "\<exists>w'. (quiet_step ths)\<^sup>*\<^sup>* w w' \<and> handshake_todo ths w' < handshake_todo ths w"
proof -
  have by_step: ?thesis if "quiet_step ths w w'" "handshake_todo ths w' < handshake_todo ths w" for w'
    using that by blast
  have by_flip: ?thesis if "flip_step ths w w'" for w'
    using that flip_step_todo [OF F that] by (intro by_step [of w']) (simp_all add: quiet_step_def)
  have by_wait: ?thesis if wt: "fpc w = Wait_entered \<and> entered_handler_count w \<noteq> int (length ths) \<or>
      (\<exists>i. fpc w = Unlock_group i) \<and> copied_stack_count w \<noteq> int (length ths)"
  proof -
    obtain t w' where "handler_step ths t w w'" using waiting_handler_moves [OF ok len F wt] by blast
    then show ?thesis using handler_step_todo by (intro by_step [of w']) (auto simp: quiet_step_def)
  qed
  show ?thesis
  proof (cases "fpc w")
    case (Lock_group i)
    show ?thesis
    proof (cases "i \<le> MAX_GROUP_INDEX")
      case False
      obtain sg where "rfold (\<lambda>i. on_group i flip_group) group_list (fstate w) = Inr sg"
        using g Q Lock_group by (auto simp: quiet_ok_def)
      then show ?thesis using False by (intro by_flip [OF flip_step.flip_groups [OF Lock_group]]) simp_all
    next
      case True
      have off: "handler w t = Off" if "t < length ths" for t using F Lock_group that by (simp add: flip_ok_def)
      have "i \<in> group_indices" using L Lock_group True by (simp add: locks_ok_def group_indices_iff)
      then have nc: "free_lock w i \<noteq> By_collector" using F Lock_group by (simp add: flip_ok_def)
      show ?thesis
      proof (cases "free_lock w i")
        case Unlocked
        then show ?thesis by (rule by_flip [OF flip_step.lock_all_free_locks [OF Lock_group True]])
      next
        case (By_mutator t)
        let ?w = "w\<lparr>free_lock := (free_lock w)(i := Unlocked)\<rparr>"
        have t: "t < length ths" using L By_mutator by (auto simp: locks_ok_def)
        have "thread_step {} t w ?w" using off [OF t] By_mutator by (intro thread_step.drop_lock) (simp_all add: runs_def)
        then have "quiet_step ths w ?w" using t by (auto simp: quiet_step_def)
        moreover have "flip_step ths ?w (?w\<lparr>free_lock := (free_lock ?w)(i := By_collector), fpc := Lock_group (i + 1)\<rparr>)"
          using Lock_group True by (intro flip_step.lock_all_free_locks) simp_all
        then have "quiet_step ths ?w (?w\<lparr>free_lock := (free_lock ?w)(i := By_collector), fpc := Lock_group (i + 1)\<rparr>)"
          by (simp add: quiet_step_def)
        ultimately show ?thesis using Lock_group True
          by (intro exI [of _ "?w\<lparr>free_lock := (free_lock ?w)(i := By_collector), fpc := Lock_group (i + 1)\<rparr>"])
            (auto simp: handshake_todo_def config_defs)
      qed (use nc in simp)
    qed
  next
    case (Signal k)
    show ?thesis
    proof (cases "k < length ths")
      case True
      have "mutator_ok (ths ! k)" using ok True by simp
      moreover have "k < length (saved_threads (fstate w))" using F len True by (simp add: flip_ok_def)
      ultimately obtain s' where "signal_thread (k, ths ! k) (fstate w) = Inr s'"
        by (simp add: signal_thread_def mutator_ok_def Let_def)
      then show ?thesis by (rule by_flip [OF flip_step.send_signal [OF Signal True]])
    next
      case False
      then show ?thesis by (intro by_flip [OF flip_step.all_signalled [OF Signal]]) simp
    qed
  next
    case Wait_entered
    then show ?thesis
      using by_wait by_flip [OF flip_step.all_entered [OF Wait_entered]] by blast
  next
    case (Unlock_group i)
    then show ?thesis
      using by_wait by_flip [OF flip_step.unlock_all_free_locks [OF Unlock_group]]
        by_flip [OF flip_step.all_copied [OF Unlock_group]] by (meson not_le)
  qed (use nr in simp)
qed

lemma handshake_completes:
  assumes ok: "\<And>th. th \<in> set ths \<Longrightarrow> mutator_ok th" and len: "length ths \<le> length (saved_threads s0)"
    and e: "\<not> enable_write_barrier s0" and A: "areas_ok s0 (contexts ths r)"
    and nw: "RTno_write_barrier_state_ptr s0 \<notin> save_area s0 (contexts ths r)"
    and g: "\<exists>sg. rfold (\<lambda>i. on_group i flip_group) group_list s0 = Inr sg"
    and st: "(quiet_step ths)\<^sup>*\<^sup>* (flip_start s0 r) w"
  shows "\<exists>w'. (quiet_step ths)\<^sup>*\<^sup>* w w' \<and> fpc w' = Released"
  using st
proof (induction "handshake_todo ths w" arbitrary: w rule: less_induct)
  case less
  note re = quiet_reachable [OF less.prems]
  show ?case
  proof (cases "fpc w = Released")
    case False
    obtain w1 where w1: "(quiet_step ths)\<^sup>*\<^sup>* w w1" "handshake_todo ths w1 < handshake_todo ths w"
      using quiet_progress [OF ok len g quiet_run_ok [OF ok len e A nw less.prems]
          flip_reachable_ok [OF ok len e re] locks_ok_reachable [OF re] False] by blast
    then show ?thesis using less.hyps [OF w1(2)] less.prems by (meson rtranclp_trans)
  qed blast
qed

end
