(* ===== verification/Handshake_Progress.thy ===== *)
theory Handshake_Progress
  imports Handshake_Flip
begin

text \<open>
  The handshake goes on. What each wait of the collector and of the handlers is for, that the
  one it waits for can move, and that a run which is fair to the collector, to the handlers
  and to the holders of locks ends with the collector behind the flip and every handler
  returned, whatever the threads do meanwhile.
\<close>

subsection \<open>What the waits rely on\<close>

text \<open>gc_count does not change during a flip, so the last loop of a handler does not wait.\<close>

definition count_ok :: "rt_state \<Rightarrow> flip_world \<Rightarrow> bool" where
  "count_ok s0 w \<longleftrightarrow> gc_count (fstate w) = gc_count s0 \<and>
     (\<forall>t g. handler w t = Entered g \<or> handler w t = Copied g \<longrightarrow> g = gc_count s0)"

text \<open>Until all locks are taken only stores of the threads change the state.\<close>

definition locking_ok :: "addr set \<Rightarrow> rt_state \<Rightarrow> flip_world \<Rightarrow> bool" where
  "locking_ok Hd s0 w \<longleftrightarrow> (\<forall>i. fpc w = Lock_group i \<longrightarrow>
     fstate w = s0\<lparr>memory := memory (fstate w)\<rparr> \<and> (\<forall>a\<in>Hd. memory (fstate w) a = memory s0 a))"

lemma c_long_later: "c_long (g + 2) \<noteq> g"
proof
  assume e: "c_long (g + 2) = g"
  have "take_bit 64 (c_long (g + 2)) = take_bit 64 (g + 2)" by (simp add: c_long_def take_bit_signed_take_bit)
  then have "(g + 2) mod 2 ^ 64 = g mod 2 ^ 64" unfolding e by (simp only: take_bit_eq_mod)
  then have "2 ^ 64 dvd (g + 2 - g)" by (simp only: mod_eq_dvd_iff)
  then show False by simp
qed

lemma count_ok_reachable:
  assumes ok: "\<And>th. th \<in> set ths \<Longrightarrow> mutator_ok th" and len: "length ths \<le> length (saved_threads s0)"
    and e: "\<not> enable_write_barrier s0" and r: "flip_reachable ths Hd (flip_start s0 r) w"
  shows "count_ok s0 w"
  using r
proof induction
  case flip_begins
  show ?case by (simp add: count_ok_def flip_start_def)
next
  case (by_flip w w')
  have "gc_count (fstate w') = gc_count (fstate w)"
    using by_flip(2)
  proof cases
    case (flip_groups i s')
    show ?thesis unfolding flip_groups(1) by (subst on_groups_fields [OF flip_groups(4)]) simp
  next
    case (send_signal k s')
    show ?thesis unfolding send_signal(1) by (subst signal_thread_fields(1) [OF send_signal(4)]) simp
  qed simp_all
  moreover have "\<forall>t. handler w' t = handler w t \<or> handler w' t = Signalled" using by_flip(2) by cases auto
  ultimately show ?case using by_flip(3) by (auto simp: count_ok_def) (metis handler_pc.distinct)+
next
  case (by_handler w t w')
  have F: "flip_ok ths s0 w" by (rule flip_reachable_ok [OF ok len e by_handler(1)])
  show ?case
    using by_handler(2)
  proof cases
    case (handler_copy g s' copied)
    have k: "t < length (saved_threads (fstate w))" using handler_copy(2) len F by (simp add: flip_ok_def)
    have m: "mutator_ok (context_of (ths ! t) (reg w t))" using handler_copy(2) by (intro context_of_ok ok) simp
    have "gc_count s' = gc_count (fstate w)"
      using handler_copy(4) unfolding gc_flip_action_eq [OF m k] by auto
    then have "gc_count s' = gc_count s0" "g = gc_count s0" using by_handler(3) handler_copy(3) by (auto simp: count_ok_def)
    then show ?thesis using by_handler(3) by (simp add: count_ok_def handler_copy(1))
  qed (use by_handler(3) in \<open>auto simp: count_ok_def\<close>)
next
  case (by_thread w t w')
  have "handler w' = handler w \<and> gc_count (fstate w') = gc_count (fstate w)"
    using by_thread(3)
    by cases (auto simp: RTwrite_barrier_eq Let_def barrier_state_def record_slot_def split: option.splits if_splits)
  then show ?case using by_thread(4) by (simp add: count_ok_def)
qed

lemma locking_ok_reachable:
  assumes ok: "\<And>th. th \<in> set ths \<Longrightarrow> mutator_ok th" and len: "length ths \<le> length (saved_threads s0)"
    and e: "\<not> enable_write_barrier s0" and r: "flip_reachable ths Hd (flip_start s0 r) w"
  shows "locking_ok Hd s0 w"
  using r
proof induction
  case flip_begins
  show ?case by (simp add: locking_ok_def flip_start_def)
next
  case (by_flip w w')
  show ?case using by_flip(2) by cases (use by_flip(3) in \<open>auto simp: locking_ok_def\<close>)
next
  case (by_handler w t w')
  have F: "flip_ok ths s0 w" by (rule flip_reachable_ok [OF ok len e by_handler(1)])
  have "t < length ths" "handler w t \<noteq> Off" "fpc w' = fpc w" using by_handler(2) by (cases, simp_all)+
  then have "fpc w' \<noteq> Lock_group i" for i using F by (auto simp: flip_ok_def)
  then show ?case by (simp add: locking_ok_def)
next
  case (by_thread w t w')
  have F: "flip_ok ths s0 w" by (rule flip_reachable_ok [OF ok len e by_thread(1)])
  show ?case
    using by_thread(3)
  proof cases
    case (store a v s')
    show ?thesis
      unfolding locking_ok_def
    proof (intro allI impI)
      fix i assume i: "fpc w' = Lock_group i"
      have "\<not> enable_write_barrier (fstate w)" using F i store(1) by (auto simp: flip_ok_def flipped_over_def)
      then have s': "s' = (fstate w)\<lparr>memory := (memory (fstate w))(a := v)\<rparr>" using store(4) by (simp add: RTwrite_barrier_eq Let_def)
      have L: "fstate w = s0\<lparr>memory := memory (fstate w)\<rparr>" "\<forall>a\<in>Hd. memory (fstate w) a = memory s0 a"
        using by_thread(4) i store(1) by (simp_all add: locking_ok_def)
      have "s' = s0\<lparr>memory := memory s'\<rparr>" unfolding s' by (subst L(1)) simp
      then show "fstate w' = s0\<lparr>memory := memory (fstate w')\<rparr> \<and> (\<forall>a\<in>Hd. memory (fstate w') a = memory s0 a)"
        using L(2) store(1,3) by (auto simp: s')
    qed
  qed (use by_thread(4) in \<open>auto simp: locking_ok_def\<close>)
qed

subsection \<open>Who can move\<close>

text \<open>A handler that has been signalled and has not returned can always move.\<close>

lemma handler_can_move:
  assumes ok: "\<And>th. th \<in> set ths \<Longrightarrow> mutator_ok th" and len: "length ths \<le> length (saved_threads s0)"
    and F: "flip_ok ths s0 w" and C: "count_ok s0 w" and t: "t < length ths" and h: "handler w t \<notin> {Off, Returned}"
  shows "\<exists>w'. handler_step ths t w w'"
proof (cases "handler w t")
  case Signalled
  then show ?thesis using handler_step.handler_enter [OF t] by blast
next
  case (Entered g)
  have k: "t < length (saved_threads (fstate w))" using t len F by (simp add: flip_ok_def)
  have m: "mutator_ok (context_of (ths ! t) (reg w t))" using t by (intro context_of_ok ok) simp
  show ?thesis
    using handler_step.handler_copy [OF t Entered] gc_flip_action_eq [OF m k, of 0 "copied_stack_count w"] by fastforce
next
  case (Copied g)
  then have "gc_count (fstate w) \<noteq> c_long (g + 2)" using C c_long_later [of g] by (auto simp: count_ok_def)
  then show ?thesis using handler_step.handler_return [OF t Copied] by blast
qed (use h in simp_all)

lemma handler_can_return:
  assumes "count_ok s0 w" and "t < length ths" and "handler w t = Copied g"
  shows "handler_step ths t w (w\<lparr>handler := (handler w)(t := Returned)\<rparr>)"
proof -
  have "gc_count (fstate w) \<noteq> c_long (g + 2)" using assms(1,3) c_long_later [of g] by (auto simp: count_ok_def)
  then show ?thesis by (intro handler_step.handler_return [OF assms(2,3)]) simp
qed

text \<open>A lock the collector waits for is held by a thread that runs and can drop it.\<close>

lemma lock_holder_runs:
  assumes F: "flip_ok ths s0 w" and L: "locks_ok ths w" and p: "fpc w = Lock_group i" "i \<le> MAX_GROUP_INDEX"
    and u: "free_lock w i \<noteq> Unlocked"
  shows "\<exists>t<length ths. free_lock w i = By_mutator t \<and> thread_step Hd t w (w\<lparr>free_lock := (free_lock w)(i := Unlocked)\<rparr>)"
proof -
  have "i \<in> group_indices" using L p by (simp add: locks_ok_def group_indices_iff)
  then have "free_lock w i \<noteq> By_collector" using F p(1) by (simp add: flip_ok_def)
  then obtain t where t: "free_lock w i = By_mutator t" using u by (cases "free_lock w i") auto
  have l: "t < length ths" using L t by (auto simp: locks_ok_def)
  then have "handler w t = Off" using F p(1) by (simp add: flip_ok_def)
  then show ?thesis using l t by (auto simp: runs_def intro: thread_step.drop_lock)
qed

text \<open>The loop of flip over the groups succeeds: the threads leave the headers alone.\<close>

lemma flip_groups_succeeds:
  assumes rep: "heap_rep (\<lambda>_. idle_rep) s0 A" and Hd: "header_cells (all_objects A) \<subseteq> Hd"
    and L: "locking_ok Hd s0 w" and p: "fpc w = Lock_group i"
  shows "\<exists>s'. rfold (\<lambda>i. on_group i flip_group) group_list (fstate w) = Inr s'"
proof -
  let ?s = "s0\<lparr>memory := memory (fstate w)\<rparr>"
  have m: "fstate w = ?s" "\<And>a. a \<in> Hd \<Longrightarrow> memory (fstate w) a = memory s0 a" using L p by (auto simp: locking_ok_def)
  note r = heap_repD [OF rep]
  have f: "layout_ok ?s = layout_ok s0" "groups_ok ?s = groups_ok s0" "geometry ?s Ob = geometry s0 Ob" for Ob
    using same_pages_facts [of s0 ?s] by (simp_all add: same_pages_def)
  have "idle_rep (marked_color s0) (unmarked_color s0) (memory (fstate w)) (groups s0 j) (A j)" if j: "j \<in> group_indices" for j
  proof (rule idle_rep_cong [OF r(5) [OF j]])
    fix x assume "x \<in> set (objects (A j))"
    then have "x \<in> all_objects A" using j by (auto simp: all_objects_def object_set_def)
    then have "{x, x + 8} \<subseteq> Hd" using Hd by (auto simp: header_cells_def)
    then show "memory (fstate w) x = memory s0 x \<and> memory (fstate w) (x + 8) = memory s0 (x + 8)" using m(2) by simp
  qed
  then have "heap_rep (\<lambda>_. idle_rep) ?s A" using r(1-4) by (simp add: heap_rep_def f)
  then show ?thesis using flip_groups_refines [of ?s A] m(1) by metis
qed

text \<open>
  When no handler is under way and no thread holds the lock it is about to take, the collector
  can move.
\<close>

lemma collector_can_move:
  assumes ok: "\<And>th. th \<in> set ths \<Longrightarrow> mutator_ok th" and len: "length ths \<le> length (saved_threads s0)"
    and rep: "heap_rep (\<lambda>_. idle_rep) s0 A" and Hd: "header_cells (all_objects A) \<subseteq> Hd"
    and F: "flip_ok ths s0 w" and L: "locking_ok Hd s0 w" and nr: "fpc w \<noteq> Released"
    and calm: "\<And>t. t < length ths \<Longrightarrow> handler w t \<in> {Off, Returned}"
    and free: "\<And>i. fpc w = Lock_group i \<Longrightarrow> i \<le> MAX_GROUP_INDEX \<Longrightarrow> free_lock w i = Unlocked"
  shows "\<exists>w'. flip_step ths w w'"
proof -
  have counts: "entered_handler_count w = int (length ths)" "copied_stack_count w = int (length ths)"
    if sig: "signalled_upto (fpc w) (length ths) = length ths"
  proof -
    have "handler w t = Returned" if "t < length ths" for t
      using F calm [OF that] sig that by (auto simp: flip_ok_def)
    then have "{t. t < length ths \<and> has_entered (handler w t)} = {..<length ths}"
      "{t. t < length ths \<and> has_copied (handler w t)} = {..<length ths}" by auto
    then show "entered_handler_count w = int (length ths)" "copied_stack_count w = int (length ths)"
      using F by (simp_all add: flip_ok_def count_threads_def)
  qed
  show ?thesis
  proof (cases "fpc w")
    case (Lock_group i)
    show ?thesis
    proof (cases "i \<le> MAX_GROUP_INDEX")
      case True
      then show ?thesis using flip_step.lock_all_free_locks [OF Lock_group True free [OF Lock_group True]] by blast
    next
      case False
      then show ?thesis
        using flip_step.flip_groups [OF Lock_group] flip_groups_succeeds [OF rep Hd L Lock_group] by (meson not_le)
    qed
  next
    case (Signal k)
    show ?thesis
    proof (cases "k < length ths")
      case True
      have "mutator_ok (ths ! k)" "k < length (saved_threads (fstate w))" using ok True F len by (simp_all add: flip_ok_def)
      then obtain s' where "signal_thread (k, ths ! k) (fstate w) = Inr s'"
        by (simp add: signal_thread_def mutator_ok_def Let_def)
      then show ?thesis using flip_step.send_signal [OF Signal True] by blast
    qed (use flip_step.all_signalled [OF Signal] in \<open>meson not_le\<close>)
  next
    case Wait_entered
    then show ?thesis using flip_step.all_entered [OF Wait_entered] counts by auto
  next
    case (Unlock_group i)
    then show ?thesis
      using flip_step.unlock_all_free_locks [OF Unlock_group] flip_step.all_copied [OF Unlock_group] counts(2)
      by (metis not_le signalled_upto.simps(4))
  qed (use nr in simp)
qed

text \<open>No step of a thread outside its handler undoes what the handshake has done.\<close>

lemma thread_step_keeps:
  assumes "thread_step Hd t w w'"
  shows "fpc w' = fpc w" and "handler w' = handler w" and "handshake_todo ths w' = handshake_todo ths w"
  using assms by (cases; simp add: handshake_todo_def)+

subsection \<open>Fair runs\<close>

definition handshake_step :: "mutator list \<Rightarrow> addr set \<Rightarrow> flip_world \<Rightarrow> flip_world \<Rightarrow> bool" where
  "handshake_step ths Hd w w' \<longleftrightarrow> flip_step ths w w' \<or> (\<exists>t. handler_step ths t w w') \<or>
     (\<exists>t<length ths. thread_step Hd t w w')"

text \<open>
  An infinite run, which may stand still. It is fair when the collector moves again and again
  if it can move again and again, a handler that can move from some point on does move, and
  no thread holds a lock for ever.
\<close>

definition handshake_run :: "mutator list \<Rightarrow> addr set \<Rightarrow> (nat \<Rightarrow> flip_world) \<Rightarrow> bool" where
  "handshake_run ths Hd run \<longleftrightarrow> (\<forall>n. handshake_step ths Hd (run n) (run (Suc n)) \<or> run (Suc n) = run n)"

definition fair_run :: "mutator list \<Rightarrow> (nat \<Rightarrow> flip_world) \<Rightarrow> bool" where
  "fair_run ths run \<longleftrightarrow>
     (\<forall>n. (\<forall>m\<ge>n. \<exists>k\<ge>m. \<exists>w. flip_step ths (run k) w) \<longrightarrow> (\<exists>m\<ge>n. flip_step ths (run m) (run (Suc m)))) \<and>
     (\<forall>n t. (\<forall>m\<ge>n. \<exists>w. handler_step ths t (run m) w) \<longrightarrow> (\<exists>m\<ge>n. handler_step ths t (run m) (run (Suc m)))) \<and>
     (\<forall>n i t. free_lock (run n) i = By_mutator t \<longrightarrow> (\<exists>m\<ge>n. free_lock (run m) i \<noteq> By_mutator t))"

lemma run_reachable:
  assumes "handshake_run ths Hd run"
  shows "flip_reachable ths Hd (run 0) (run n)"
proof (induction n)
  case (Suc n)
  then show ?case using assms unfolding handshake_run_def handshake_step_def
    by (metis flip_reachable.by_flip flip_reachable.by_handler flip_reachable.by_thread)
qed (rule flip_reachable.flip_begins)

text \<open>From some point on there are only steps of threads outside their handlers.\<close>

lemma run_calms_down:
  assumes R: "handshake_run ths Hd run" and F: "\<And>n. flip_ok ths s0 (run n)"
  shows "\<exists>N. \<forall>m\<ge>N. \<not> flip_step ths (run m) (run (Suc m)) \<and> (\<forall>t. \<not> handler_step ths t (run m) (run (Suc m)))"
proof -
  let ?f = "\<lambda>n. handshake_todo ths (run n)"
  have down: "?f (Suc n) \<le> ?f n" for n
  proof -
    consider "flip_step ths (run n) (run (Suc n))" | t where "handler_step ths t (run n) (run (Suc n))"
      | t where "thread_step Hd t (run n) (run (Suc n))" | "run (Suc n) = run n"
      using R unfolding handshake_run_def handshake_step_def by blast
    then show ?thesis
      by cases (simp_all add: thread_step_keeps(3) less_imp_le [OF flip_step_todo [OF F]] less_imp_le [OF handler_step_todo])
  qed
  obtain N where N: "\<And>m. ?f N \<le> ?f m" using ex_has_least_nat [of "\<lambda>_. True" 0 ?f] by blast
  have "?f m \<le> ?f N" if "N \<le> m" for m using that by (rule lift_Suc_antimono_le [of ?f, OF down])
  then have eq: "?f m = ?f N" if "N \<le> m" for m using N that by (meson order_antisym)
  have "\<not> flip_step ths (run m) (run (Suc m)) \<and> (\<forall>t. \<not> handler_step ths t (run m) (run (Suc m)))" if "N \<le> m" for m
    using eq [OF that] eq [of "Suc m"] that flip_step_todo [OF F] handler_step_todo by fastforce
  then show ?thesis by blast
qed

lemma run_constant:
  assumes R: "handshake_run ths Hd run"
    and calm: "\<And>m. N \<le> m \<Longrightarrow> \<not> flip_step ths (run m) (run (Suc m)) \<and> (\<forall>t. \<not> handler_step ths t (run m) (run (Suc m)))"
    and "N \<le> m"
  shows "fpc (run m) = fpc (run N) \<and> handler (run m) = handler (run N)"
  using \<open>N \<le> m\<close>
proof (induction m rule: dec_induct)
  case (step m)
  then show ?case using R calm [OF step.hyps(1)] thread_step_keeps(1,2)
    unfolding handshake_run_def handshake_step_def by metis
qed simp

text \<open>The lock the collector waits for becomes free again and again.\<close>

lemma lock_becomes_free:
  assumes R: "handshake_run ths Hd run" and F: "\<And>n. flip_ok ths s0 (run n)" and L: "\<And>n. locks_ok ths (run n)"
    and fair: "fair_run ths run"
    and calm: "\<And>m. N \<le> m \<Longrightarrow> \<not> flip_step ths (run m) (run (Suc m)) \<and> (\<forall>t. \<not> handler_step ths t (run m) (run (Suc m)))"
    and p: "fpc (run N) = Lock_group i" "i \<le> MAX_GROUP_INDEX" and m: "N \<le> m"
  shows "\<exists>k\<ge>m. free_lock (run k) i = Unlocked"
proof (cases "free_lock (run m) i = Unlocked")
  case False
  have pc: "fpc (run k) = Lock_group i" if "N \<le> k" for k using run_constant [OF R calm that] p(1) by simp
  obtain t where t: "free_lock (run m) i = By_mutator t"
    using lock_holder_runs [OF F L pc [OF m] p(2) False] by blast
  define k where "k = (LEAST k. m \<le> k \<and> free_lock (run k) i \<noteq> By_mutator t)"
  have "\<exists>k. m \<le> k \<and> free_lock (run k) i \<noteq> By_mutator t" using fair t unfolding fair_run_def by blast
  then have k: "m \<le> k" "free_lock (run k) i \<noteq> By_mutator t" unfolding k_def by (rule LeastI2_ex, simp)+
  then obtain j where j: "k = Suc j" "m \<le> j" using t by (cases k) (auto simp: le_Suc_eq)
  have held: "free_lock (run j) i = By_mutator t" using not_less_Least [of j "\<lambda>k. m \<le> k \<and> free_lock (run k) i \<noteq> By_mutator t"] j unfolding k_def [symmetric] by auto
  have "\<exists>u<length ths. thread_step Hd u (run j) (run k)"
    using R calm [of j] m j(2) held k(2) unfolding handshake_run_def handshake_step_def j(1) by (metis order_trans)
  then obtain u where u: "thread_step Hd u (run j) (run k)" by blast
  have "free_lock (run k) i = Unlocked"
    using u held k(2) by cases (auto split: if_splits)
  then show ?thesis using k(1) by blast
qed blast

text \<open>A fair run ends: the collector is behind the flip and every handler has returned.\<close>

lemma fair_run_ends:
  assumes ok: "\<And>th. th \<in> set ths \<Longrightarrow> mutator_ok th" and len: "length ths \<le> length (saved_threads s0)"
    and e: "\<not> enable_write_barrier s0" and rep: "heap_rep (\<lambda>_. idle_rep) s0 A"
    and Hd: "header_cells (all_objects A) \<subseteq> Hd"
    and R: "handshake_run ths Hd run" and start: "run 0 = flip_start s0 r" and fair: "fair_run ths run"
  shows "\<exists>N. \<forall>m\<ge>N. fpc (run m) = Released \<and> (\<forall>t<length ths. handler (run m) t = Returned)"
proof -
  have re: "flip_reachable ths Hd (flip_start s0 r) (run n)" for n using run_reachable [OF R, of n] by (simp add: start)
  have F: "flip_ok ths s0 (run n)" for n by (rule flip_reachable_ok [OF ok len e re])
  have C: "count_ok s0 (run n)" for n by (rule count_ok_reachable [OF ok len e re])
  have K: "locking_ok Hd s0 (run n)" for n by (rule locking_ok_reachable [OF ok len e re])
  have L: "locks_ok ths (run n)" for n by (rule locks_ok_reachable [OF re])
  obtain N where calm: "\<And>m. N \<le> m \<Longrightarrow> \<not> flip_step ths (run m) (run (Suc m)) \<and> (\<forall>t. \<not> handler_step ths t (run m) (run (Suc m)))"
    using run_calms_down [OF R F] by blast
  note con = run_constant [where N = N, OF R calm, simplified]
  have quiet: "handler (run N) t \<in> {Off, Returned}" if t: "t < length ths" for t
  proof (rule ccontr)
    assume h: "\<not> ?thesis"
    have "\<exists>w. handler_step ths t (run m) w" if "N \<le> m" for m
      using handler_can_move [OF ok len F C t] con [OF that] h by simp
    then show False using fair calm unfolding fair_run_def by blast
  qed
  have rel: "fpc (run N) = Released"
  proof (rule ccontr)
    assume nr: "\<not> ?thesis"
    have "\<exists>k\<ge>m. \<exists>w. flip_step ths (run k) w" if m: "N \<le> m" for m
    proof -
      have "\<exists>k\<ge>m. \<forall>i. fpc (run k) = Lock_group i \<longrightarrow> i \<le> MAX_GROUP_INDEX \<longrightarrow> free_lock (run k) i = Unlocked"
      proof (cases "\<exists>i. fpc (run N) = Lock_group i \<and> i \<le> MAX_GROUP_INDEX")
        case True
        then obtain i where i: "fpc (run N) = Lock_group i" "i \<le> MAX_GROUP_INDEX" by blast
        obtain k where "m \<le> k" "free_lock (run k) i = Unlocked" using lock_becomes_free [OF R F L fair calm i m] by blast
        then show ?thesis using con [of k] i(1) m by (intro exI [of _ k]) simp
      qed (use con [OF m] in auto)
      then obtain k where k: "m \<le> k" "\<And>i. fpc (run k) = Lock_group i \<Longrightarrow> i \<le> MAX_GROUP_INDEX \<Longrightarrow> free_lock (run k) i = Unlocked"
        by blast
      have "N \<le> k" using k(1) m by simp
      then have now: "fpc (run k) \<noteq> Released" "\<And>t. t < length ths \<Longrightarrow> handler (run k) t \<in> {Off, Returned}"
        using con [of k] nr quiet by simp_all
      have "\<exists>w. flip_step ths (run k) w" by (rule collector_can_move [OF ok len rep Hd F K now k(2)])
      then show ?thesis using k(1) by blast
    qed
    then show False using fair calm unfolding fair_run_def by blast
  qed
  have "handler (run N) t = Returned" if t: "t < length ths" for t
  proof -
    have "handler (run N) t \<noteq> Off" using F [of N] rel t by (simp add: flip_ok_def)
    then show ?thesis using quiet [OF t] by blast
  qed
  then have "fpc (run m) = Released \<and> (\<forall>t<length ths. handler (run m) t = Returned)" if "N \<le> m" for m
    using con [OF that] rel by simp
  then show ?thesis by blast
qed

text \<open>
  There are fair runs: the collector and the handlers move while they can, no thread takes a
  lock, and the run stands still in the end.
\<close>

definition helpful_step :: "mutator list \<Rightarrow> flip_world \<Rightarrow> flip_world \<Rightarrow> bool" where
  "helpful_step ths w w' \<longleftrightarrow> flip_step ths w w' \<or> (\<exists>t. handler_step ths t w w')"

definition all_done :: "mutator list \<Rightarrow> flip_world \<Rightarrow> bool" where
  "all_done ths w \<longleftrightarrow> fpc w = Released \<and> (\<forall>t<length ths. handler w t = Returned)"

lemma helpful_step_locks:
  assumes "helpful_step ths w w'" and "\<And>i t. free_lock w i \<noteq> By_mutator t"
  shows "free_lock w' i \<noteq> By_mutator t"
  using assms(1) unfolding helpful_step_def
proof (elim disjE exE)
  show ?thesis if "flip_step ths w w'" using that by cases (use assms(2) in auto)
  show ?thesis if "handler_step ths u w w'" for u using that by cases (use assms(2) in auto)
qed

lemma helpful_steps_end:
  assumes ok: "\<And>th. th \<in> set ths \<Longrightarrow> mutator_ok th" and len: "length ths \<le> length (saved_threads s0)"
    and e: "\<not> enable_write_barrier s0" and rep: "heap_rep (\<lambda>_. idle_rep) s0 A"
    and Hd: "header_cells (all_objects A) \<subseteq> Hd"
    and re: "flip_reachable ths Hd (flip_start s0 r) w" and fr: "\<And>i t. free_lock w i \<noteq> By_mutator t"
  shows "\<exists>w'. (helpful_step ths)\<^sup>*\<^sup>* w w' \<and> all_done ths w' \<and> (\<forall>i t. free_lock w' i \<noteq> By_mutator t)"
  using re fr
proof (induction "handshake_todo ths w" arbitrary: w rule: less_induct)
  case less
  note re = less.prems(1)
  have F: "flip_ok ths s0 w" by (rule flip_reachable_ok [OF ok len e re])
  show ?case
  proof (cases "\<exists>w1. helpful_step ths w w1")
    case True
    then obtain w1 where w1: "helpful_step ths w w1" by blast
    have "handshake_todo ths w1 < handshake_todo ths w"
      using w1 flip_step_todo [OF F] handler_step_todo by (auto simp: helpful_step_def)
    moreover have "flip_reachable ths Hd (flip_start s0 r) w1"
      using w1 re by (auto simp: helpful_step_def intro: flip_reachable.intros)
    ultimately obtain w' where "(helpful_step ths)\<^sup>*\<^sup>* w1 w'" "all_done ths w' \<and> (\<forall>i t. free_lock w' i \<noteq> By_mutator t)"
      using less.hyps helpful_step_locks [OF w1 less.prems(2)] by blast
    then show ?thesis using w1 by (meson converse_rtranclp_into_rtranclp)
  next
    case False
    have calm: "handler w t \<in> {Off, Returned}" if "t < length ths" for t
      using handler_can_move [OF ok len F count_ok_reachable [OF ok len e re] that] False by (auto simp: helpful_step_def)
    have free: "free_lock w i = Unlocked" if "fpc w = Lock_group i" "i \<le> MAX_GROUP_INDEX" for i
      using lock_holder_runs [OF F locks_ok_reachable [OF re] that] less.prems(2) by blast
    have rel: "fpc w = Released"
      using collector_can_move [OF ok len rep Hd F locking_ok_reachable [OF ok len e re] _ calm free] False
      by (auto simp: helpful_step_def)
    have "handler w t = Returned" if t: "t < length ths" for t
    proof -
      have "handler w t \<noteq> Off" using F rel t by (simp add: flip_ok_def)
      then show ?thesis using calm [OF t] by blast
    qed
    then show ?thesis using rel less.prems(2) by (auto simp: all_done_def)
  qed
qed

lemma fair_run_exists:
  assumes ok: "\<And>th. th \<in> set ths \<Longrightarrow> mutator_ok th" and len: "length ths \<le> length (saved_threads s0)"
    and e: "\<not> enable_write_barrier s0" and rep: "heap_rep (\<lambda>_. idle_rep) s0 A"
    and Hd: "header_cells (all_objects A) \<subseteq> Hd"
  shows "\<exists>run. handshake_run ths Hd run \<and> run 0 = flip_start s0 r \<and> fair_run ths run"
proof -
  obtain w where w: "(helpful_step ths)\<^sup>*\<^sup>* (flip_start s0 r) w" "all_done ths w" "\<And>i t. free_lock w i \<noteq> By_mutator t"
    using helpful_steps_end [OF ok len e rep Hd flip_reachable.flip_begins, of r] by (auto simp: flip_start_def)
  from w(1) obtain n where "(helpful_step ths ^^ n) (flip_start s0 r) w" using rtranclp_imp_relpowp by metis
  then obtain f where f: "f 0 = flip_start s0 r" "f n = w" "\<And>i. i < n \<Longrightarrow> helpful_step ths (f i) (f (Suc i))"
    by (auto simp: relpowp_fun_conv)
  let ?run = "\<lambda>m. f (min m n)"
  have "handshake_run ths Hd ?run"
    unfolding handshake_run_def
  proof
    fix m
    show "handshake_step ths Hd (?run m) (?run (Suc m)) \<or> ?run (Suc m) = ?run m"
      using f(3) [of m] by (cases "m < n") (auto simp: handshake_step_def helpful_step_def)
  qed
  moreover have "fair_run ths ?run"
  proof -
    have end_run: "?run m = w" if "n \<le> m" for m using f(2) that by simp
    have no_flip: "\<not> flip_step ths w w'" for w'
    proof
      assume "flip_step ths w w'"
      then show False using w(2) by cases (simp_all add: all_done_def)
    qed
    have no_handler: "\<not> handler_step ths t w w'" for t w'
    proof
      assume "handler_step ths t w w'"
      then show False using w(2) by cases (simp_all add: all_done_def)
    qed
    show ?thesis
      unfolding fair_run_def
    proof (intro conjI allI impI)
      fix m assume "\<forall>j\<ge>m. \<exists>k\<ge>j. \<exists>w. flip_step ths (?run k) w"
      then obtain k w' where "k \<ge> max m n" "flip_step ths (?run k) w'" by (meson max.cobounded1)
      then show "\<exists>j\<ge>m. flip_step ths (?run j) (?run (Suc j))" using no_flip end_run [of k] by simp
    next
      fix m t assume "\<forall>j\<ge>m. \<exists>w. handler_step ths t (?run j) w"
      then obtain w' where "handler_step ths t (?run (max m n)) w'" by (meson max.cobounded1)
      then show "\<exists>j\<ge>m. handler_step ths t (?run j) (?run (Suc j))" using no_handler end_run [of "max m n"] by simp
    next
      fix m i t
      show "\<exists>j\<ge>m. free_lock (?run j) i \<noteq> By_mutator t"
        using w(3) end_run [of "max m n"] by (intro exI [of _ "max m n"]) simp
    qed
  qed
  ultimately show ?thesis using f(1) by (intro exI [of _ ?run]) simp
qed

end
