(* ===== verification/Allocator.thy ===== *)
theory Allocator
  imports Collection "HOL-Library.Signed_Division"
begin

text \<open>
  The allocator (rtalloc.c): RTallocate picks the group of a size, takes an object from its
  free list, and gives the group new pages when the list is empty; when there are none it
  polls until two more collections are done. What the other threads, the collector among them,
  do while it yields is the argument \<open>yields\<close> of the definitions, and RTbig_malloc, which is
  mmap, is the argument \<open>big_malloc\<close>.
\<close>

subsection \<open>The group of a size\<close>

text \<open>C's division truncates, so the loop ends for negative numbers too.\<close>

function size_loop :: "int \<Rightarrow> int \<Rightarrow> int" where
  "size_loop s index = (if s \<noteq> 0 then size_loop (s sdiv 2) (index + 1) else index)"
  by auto

termination
proof (relation "measure (\<lambda>(s, index). nat \<bar>s\<bar>)")
  fix s index :: int assume "s \<noteq> 0"
  then have "\<bar>s sdiv 2\<bar> < \<bar>s\<bar>" by (simp add: signed_divide_int_def abs_mult)
  then show "((s sdiv 2, index + 1), s, index) \<in> measure (\<lambda>(s, index). nat \<bar>s\<bar>)" by simp
qed simp

declare size_loop.simps [simp del]

definition size_to_group_index :: "int \<Rightarrow> int" where
  "size_to_group_index sz = max (int MIN_GROUP_INDEX) (size_loop (c_int (sz - 1)) 0)"

definition RTnopointers :: "64 word" where "RTnopointers = 0"
definition RTpointers :: "64 word" where "RTpointers = 1"
definition RTcustom1 :: "64 word" where "RTcustom1 = 2"

text \<open>
  For any other metadata, \<open>metadata[0]\<close> is the size of one element. The sums are made in
  unsigned longs and stored into ints.
\<close>

definition allocation_group :: "mem \<Rightarrow> 64 word \<Rightarrow> int \<Rightarrow> rt_error + nat" where
  "allocation_group m metadata nbytes =
     (if 0 \<le> nbytes then
        (let real_size =
           (if metadata \<in> {RTnopointers, RTpointers, RTcustom1} then c_int (nbytes + SIZEOF_GC_HEADER)
            else
              (let data_size = c_int (sint (m metadata) * nbytes + 8)
               in c_int (data_size + SIZEOF_GC_HEADER)));
             group_index = size_to_group_index real_size
         in if int MAX_GROUP_INDEX < group_index then Inl (Debugger '' exceeds the maximum object size'')
            else Inr (nat group_index))
      else Inl (Debugger ''Negative object size''))"

subsection \<open>New pages for a group\<close>

definition DEFAULT_HEAP_SEGMENT_SIZE :: int where
  "DEFAULT_HEAP_SEGMENT_SIZE = 2 ^ 20"

text \<open>
  The mutator polls until gc_count has gone up by two. What other threads do while it yields
  the processor is the list \<open>yields\<close>, one function of the state for each sched_yield; if the
  list ends before the count is reached, the mutator is still polling.
\<close>

fun poll_gc_count :: "(rt_state \<Rightarrow> rt_error + rt_state) list \<Rightarrow> int \<Rightarrow> rt_state \<Rightarrow> rt_error + rt_state" where
  "poll_gc_count [] target s = (if gc_count s < target then Inl Out_of_fuel else Inr s)"
| "poll_gc_count (yield # yields) target s =
     (if gc_count s < target then rbind (yield s) (poll_gc_count yields target) else Inr s)"

definition wait_for_gc :: "(rt_state \<Rightarrow> rt_error + rt_state) list \<Rightarrow> rt_state \<Rightarrow> rt_error + rt_state" where
  "wait_for_gc yields s =
     (let current_gc_count = gc_count s;
          s1 = (if RTatomic_gc s then s\<lparr>run_gc := True\<rparr> else s)
      in poll_gc_count yields (c_long (current_gc_count + 2)) s1)"

definition assign_pages :: "int \<Rightarrow> int \<Rightarrow> page_info \<Rightarrow> (int \<Rightarrow> page_info) \<Rightarrow> int \<Rightarrow> page_info" where
  "assign_pages first_page page_count info pgs =
     fold (\<lambda>k pgs. pgs(first_page + k := info)) [0..page_count - 1] pgs"

definition init_pages_for_group ::
    "(rt_state \<Rightarrow> rt_error + rt_state) list \<Rightarrow> (int \<Rightarrow> addr) \<Rightarrow> nat \<Rightarrow> int \<Rightarrow> rt_state \<Rightarrow> rt_error + rt_state" where
  "init_pages_for_group yields big_malloc i min_pages s =
     (let pages_per_object = gsize (groups s i) div BYTES_PER_PAGE;
          byte_count = c_int (max pages_per_object min_pages * BYTES_PER_PAGE);
          num_objects = drop_bit (gindex (groups s i)) byte_count;
          page_count = c_int (num_objects * gsize (groups s i)) div BYTES_PER_PAGE
      in rbind (allocate_empty_pages page_count s) (\<lambda>(s1, base).
         rbind
           (if base = 0 then
              rbind (allocate_segment big_malloc (max DEFAULT_HEAP_SEGMENT_SIZE (page_count * BYTES_PER_PAGE))
                       HEAP_SEGMENT s1) (\<lambda>(s2, actual_bytes).
              rbind (rassert (actual_bytes = 0)) (\<lambda>_.
              rbind (if actual_bytes < byte_count then wait_for_gc yields s2 else Inr s2) (\<lambda>s3.
                if gfree (groups s3 i) = 0 then allocate_empty_pages page_count s3 else Inr (s3, 0))))
            else Inr (s1, base))
           (\<lambda>(s4, base).
              if base \<noteq> 0 then
                rbind (on_group i (\<lambda>m g. link_new_objects m g base (nat num_objects)) s4) (\<lambda>s5.
                  Inr (s5\<lparr>pages := assign_pages (c_int (PTR_TO_PAGE_INDEX s5 base)) page_count
                            \<lparr>pbase = base, pgroup = Group i\<rparr> (pages s5)\<rparr>))
              else Inr s4)))"

subsection \<open>An object\<close>

text \<open>The metadata pointer is kept in the last long of the object.\<close>

definition initialize_object_metadata :: "64 word \<Rightarrow> addr \<Rightarrow> group_info \<Rightarrow> mem \<Rightarrow> mem \<times> int" where
  "initialize_object_metadata metadata gcptr g m =
     (let body_size = gsize g - SIZEOF_GC_HEADER in
      if metadata <s SC_METADATA then (SET_STORAGE_CLASS m gcptr metadata, body_size)
      else
        (let base = gcptr + 16;
             last_ptr = base + word_of_int ((gsize g div 8 - 3) * 8);
             m1 = m(last_ptr := metadata)
         in (SET_STORAGE_CLASS m1 gcptr SC_METADATA, body_size - 8)))"

definition memset_longs :: "addr \<Rightarrow> nat \<Rightarrow> mem \<Rightarrow> mem" where
  "memset_longs base n = store_words base (replicate n 0)"

definition initialize_object_body :: "64 word \<Rightarrow> addr \<Rightarrow> int \<Rightarrow> mem \<Rightarrow> mem" where
  "initialize_object_body metadata base body_size m =
     (if metadata \<noteq> RTnopointers then memset_longs base (nat (body_size div 8)) m else m)"

definition RTallocate ::
    "(rt_state \<Rightarrow> rt_error + rt_state) list \<Rightarrow> (int \<Rightarrow> addr) \<Rightarrow> 64 word \<Rightarrow> int \<Rightarrow> rt_state \<Rightarrow>
     rt_error + rt_state \<times> addr" where
  "RTallocate yields big_malloc metadata nbytes s =
     rbind (allocation_group (memory s) metadata nbytes) (\<lambda>i.
     rbind
       (if gfree (groups s i) = 0 then
          rbind (init_pages_for_group yields big_malloc i 1 s) (\<lambda>s1.
            if gfree (groups s1 i) = 0 then Inl (Out_of_memory ''Heap'' (gsize (groups s1 i))) else Inr s1)
        else Inr s)
       (\<lambda>s1.
          let (m1, g1, new) = allocate_from_free_list (marked_color s1) (memory s1) (groups s1 i);
              (m2, body_size) = initialize_object_metadata metadata new g1 m1;
              base = new + 16;
              m3 = initialize_object_body metadata base body_size m2
          in Inr (s1\<lparr>memory := m3, groups := (groups s1)(i := g1)\<rparr>, base)))"

subsection \<open>Sizes\<close>

lemma size_loop_zero [simp]: "size_loop 0 index = index"
  by (subst size_loop.simps) simp

lemma size_loop_pos: "0 < s \<Longrightarrow> size_loop s index = size_loop (s div 2) (index + 1)"
  by (subst size_loop.simps) (simp add: signed_divide_int_def)

text \<open>For a number of \<open>k\<close> binary digits the loop runs \<open>k\<close> times.\<close>

lemma size_loop_digits:
  assumes "2 ^ k \<le> 2 * s \<or> s = 0 \<and> k = 0" and "s < 2 ^ k" and "0 \<le> s"
  shows "size_loop s index = index + int k"
  using assms
proof (induction k arbitrary: s index)
  case 0
  then have "s = 0" by simp
  then show ?case by simp
next
  case (Suc k)
  then have s: "0 < s" "2 ^ k \<le> s" "s < 2 * 2 ^ k" by auto
  have "2 ^ k \<le> 2 * (s div 2) \<or> s div 2 = 0 \<and> k = 0"
  proof (cases k)
    case 0
    then show ?thesis using s by simp
  next
    case (Suc l)
    then show ?thesis using s(2) by simp
  qed
  then have "size_loop (s div 2) (index + 1) = (index + 1) + int k"
    using s by (intro Suc.IH) auto
  then show ?case using s(1) by (simp add: size_loop_pos)
qed

lemma digits_exist:
  assumes "0 \<le> (s :: int)"
  obtains k where "2 ^ k \<le> 2 * s \<or> s = 0 \<and> k = 0" and "s < 2 ^ k"
proof -
  obtain j where "nat s < 2 ^ j" using less_exp by blast
  then have ex: "\<exists>j. s < 2 ^ j" using assms by (metis nat_less_numeral_power_cancel_iff)
  define k where "k = (LEAST j. s < 2 ^ j)"
  have k: "s < 2 ^ k" unfolding k_def using ex by (rule LeastI_ex)
  have "2 ^ k \<le> 2 * s \<or> s = 0 \<and> k = 0"
  proof (cases k)
    case 0
    then show ?thesis using k assms by simp
  next
    case (Suc l)
    then have "\<not> s < 2 ^ l" using not_less_Least [of l "\<lambda>j. s < 2 ^ j"] by (simp add: k_def)
    then show ?thesis using Suc by simp
  qed
  then show thesis using that k by blast
qed

lemma size_to_group_index_bounds:
  assumes "1 \<le> n" and "n < 2 ^ 31"
  shows "n \<le> 2 ^ nat (size_to_group_index n)"
    and "size_to_group_index n = int MIN_GROUP_INDEX \<or> 2 ^ nat (size_to_group_index n - 1) < n"
    and "int MIN_GROUP_INDEX \<le> size_to_group_index n"
proof -
  have c: "c_int (n - 1) = n - 1" using assms by (intro c_int_id) auto
  obtain k where k: "2 ^ k \<le> 2 * (n - 1) \<or> n - 1 = 0 \<and> k = 0" "n - 1 < 2 ^ k"
    using digits_exist [of "n - 1"] assms(1) by auto
  then have l: "size_loop (n - 1) 0 = int k"
    using size_loop_digits [of k "n - 1" 0] assms(1) by auto
  have e: "size_to_group_index n = max 5 (int k)"
    by (simp add: size_to_group_index_def c l MIN_GROUP_INDEX_def)
  have "(2 :: int) ^ k \<le> 2 ^ nat (max 5 (int k))" by (intro power_increasing) simp_all
  then have "n - 1 < 2 ^ nat (max 5 (int k))" using k(2) by (rule less_le_trans [rotated])
  then show "n \<le> 2 ^ nat (size_to_group_index n)" by (simp add: e)
  show "size_to_group_index n = int MIN_GROUP_INDEX \<or> 2 ^ nat (size_to_group_index n - 1) < n"
  proof (cases "k \<le> 5")
    case True
    then show ?thesis by (simp add: e MIN_GROUP_INDEX_def)
  next
    case False
    then obtain l where l: "k = Suc l" by (cases k) auto
    have "nat (size_to_group_index n - 1) = l" using False by (simp add: e l)
    moreover have "2 ^ k \<le> 2 * (n - 1)" using k(1) False by auto
    ultimately show ?thesis by (simp add: l)
  qed
  show "int MIN_GROUP_INDEX \<le> size_to_group_index n" by (simp add: e MIN_GROUP_INDEX_def)
qed

lemma allocation_group_fits:
  assumes "metadata \<in> {RTnopointers, RTpointers, RTcustom1}" and "0 \<le> nbytes" and "nbytes \<le> 2 ^ 24 - 16"
  obtains i where "allocation_group m metadata nbytes = Inr i" and "i \<in> group_indices"
    and "nbytes + 16 \<le> 2 ^ i" and "i = MIN_GROUP_INDEX \<or> 2 ^ (i - 1) < nbytes + 16"
proof -
  let ?n = "nbytes + 16"
  have n: "1 \<le> ?n" "?n < 2 ^ 31" "c_int ?n = ?n" using assms(2,3) by (auto intro: c_int_id)
  note b = size_to_group_index_bounds [OF n(1,2)]
  define i where "i = nat (size_to_group_index ?n)"
  have si: "size_to_group_index ?n = int i" using b(3) by (simp add: i_def)
  have i5: "5 \<le> i" using b(3) by (simp add: si MIN_GROUP_INDEX_def)
  then have low: "i = MIN_GROUP_INDEX \<or> 2 ^ (i - 1) < ?n"
    using b(2) by (auto simp: si MIN_GROUP_INDEX_def nat_diff_distrib)
  have "i \<le> 24"
  proof (rule ccontr)
    assume "\<not> i \<le> 24"
    then have "2 ^ (i - 1) < ?n" "(2 :: int) ^ 24 \<le> 2 ^ (i - 1)"
      using low power_increasing [of 24 "i - 1" "2 :: int"] by (auto simp: MIN_GROUP_INDEX_def)
    then show False using assms(3) by simp
  qed
  then have "allocation_group m metadata nbytes = Inr i"
    using assms(1,2) n(3) si by (simp add: allocation_group_def Let_def SIZEOF_GC_HEADER_def MAX_GROUP_INDEX_def)
  then show thesis
    using that low i5 \<open>i \<le> 24\<close> b(1) by (simp add: group_indices_def config_defs i_def)
qed

end
