(* ===== verification/Allocator_Refine.thy ===== *)
theory Allocator_Refine
  imports Allocator
begin

text \<open>
  What the allocator does to the heap: pages cut from a hole join a group together with the
  new objects on them, and an object taken from the free list becomes black, with its class
  and body set, while the heap invariant is kept.
\<close>

subsection \<open>Pages join a group\<close>

text \<open>The converse of giving pages back: empty pages that are on no list of holes join a group.\<close>

lemma assign_pages_eq:
  "assign_pages p n info pgs q = (if p \<le> q \<and> q < p + n then info else pgs q)"
proof (cases "0 \<le> n")
  case True
  then show ?thesis
  proof (induction n arbitrary: q rule: int_ge_induct)
    case base
    then show ?case by (auto simp: assign_pages_def)
  next
    case (step k)
    have "[0..k + 1 - 1] = [0..k - 1] @ [k]"
      using step.hyps upto_rec2 [of 0 k] by simp
    then have "assign_pages p (k + 1) info pgs = (assign_pages p k info pgs)(p + k := info)"
      by (simp add: assign_pages_def)
    then show ?case using step by auto
  qed
next
  case False
  then show ?thesis by (auto simp: assign_pages_def)
qed

lemma not_header_cells:
  assumes "headers_ok S" and "aligned x" and "x \<notin> S"
  shows "x \<notin> header_cells S" and "x + 8 \<notin> header_cells S"
proof -
  have "x \<noteq> y + 8 \<and> x + 8 \<noteq> y" if "y \<in> S" for y
    using aligned_neq_plus_8 [OF assms(2) headers_okD(2) [OF assms(1) that]]
      aligned_neq_plus_8 [OF headers_okD(2) [OF assms(1) that] assms(2)] by auto
  then show "x \<notin> header_cells S" and "x + 8 \<notin> header_cells S"
    using assms(3) by (auto simp: header_cells_def)
qed

text \<open>The pages \<open>p\<close> to \<open>p + n - 1\<close> were empty and now belong to group \<open>i\<close>.\<close>

definition pages_joined :: "int \<Rightarrow> int \<Rightarrow> nat \<Rightarrow> rt_state \<Rightarrow> rt_state \<Rightarrow> bool" where
  "pages_joined p n i s s' \<longleftrightarrow>
    pages s' = assign_pages p n \<lparr>pbase = PAGE_INDEX_TO_PTR s p, pgroup = Group i\<rparr> (pages s) \<and>
    first_partition_ptr s' = first_partition_ptr s \<and> last_partition_ptr s' = last_partition_ptr s \<and>
    total_partition_pages s' = total_partition_pages s \<and> hole_pages (p, n) \<subseteq> empty_page_set s"

lemma pages_joinedD:
  assumes "pages_joined p n i s s'"
  shows "pages s' q = (if q \<in> hole_pages (p, n) then \<lparr>pbase = PAGE_INDEX_TO_PTR s p, pgroup = Group i\<rparr> else pages s q)"
    and "first_partition_ptr s' = first_partition_ptr s" "last_partition_ptr s' = last_partition_ptr s"
    and "total_partition_pages s' = total_partition_pages s"
    and "q \<in> hole_pages (p, n) \<Longrightarrow> pgroup (pages s q) = EMPTY_PAGE"
    and "IN_PARTITION s' = IN_PARTITION s" "PTR_TO_PAGE_INDEX s' = PTR_TO_PAGE_INDEX s"
    and "PAGE_INDEX_TO_PTR s' = PAGE_INDEX_TO_PTR s"
  using assms page_macros_eq [of s' s]
  by (auto simp: pages_joined_def assign_pages_eq hole_pages_def empty_page_set_def fun_eq_iff IN_PARTITION_def)

lemma pages_joined_layout: "pages_joined p n i s s' \<Longrightarrow> layout_ok s \<Longrightarrow> layout_ok s'"
  by (simp add: layout_ok_def pages_joinedD)

lemma pages_joined_table:
  assumes J: "pages_joined p n i s s'" and lay: "layout_ok s" and pt: "page_table_ok s" and i: "i \<in> group_indices"
    and p: "0 \<le> p" "p + n \<le> total_partition_pages s"
    and n: "n = (if PAGE_POWER \<le> i then 2 ^ (i - PAGE_POWER) else 1)"
  shows "page_table_ok s'"
proof (rule page_table_okI [OF pages_joined_layout [OF J lay]])
  let ?Q = "hole_pages (p, n)"
  note f = pages_joinedD [OF J]
  fix k j assume "0 \<le> k" "k < total_partition_pages s'" and g: "pgroup (pages s' k) = Group j"
  then have k: "0 \<le> k" "k < total_partition_pages s" by (simp_all add: f(4))
  show "j \<in> group_indices"
  proof (cases "k \<in> ?Q")
    case True
    then show ?thesis using g i by (simp add: f(1))
  next
    case False
    then show ?thesis using g by (intro page_table_okD(1) [OF pt k]) (simp add: f(1))
  qed
  assume lj: "PAGE_POWER \<le> j"
  let ?G = "\<lambda>b. 0 \<le> b \<and> b \<le> k \<and> k < b + 2 ^ (j - PAGE_POWER) \<and>
      b + 2 ^ (j - PAGE_POWER) \<le> total_partition_pages s' \<and> pbase (pages s' k) = PAGE_INDEX_TO_PTR s' b \<and>
      (\<forall>q. b \<le> q \<and> q < b + 2 ^ (j - PAGE_POWER) \<longrightarrow> pages s' q = pages s' k)"
  show "\<exists>b. ?G b"
  proof (cases "k \<in> ?Q")
    case True
    then have "j = i" using g by (simp add: f(1))
    then have "n = 2 ^ (j - PAGE_POWER)" using n lj by simp
    then have "?G p" using True p by (auto simp: f hole_pages_def)
    then show ?thesis ..
  next
    case False
    then have gk: "pgroup (pages s k) = Group j" using g by (simp add: f(1))
    from page_table_okD(2) [OF pt k gk lj] obtain b where
      b: "0 \<le> b" "b \<le> k" "k < b + 2 ^ (j - PAGE_POWER)" "b + 2 ^ (j - PAGE_POWER) \<le> total_partition_pages s"
        "pbase (pages s k) = PAGE_INDEX_TO_PTR s b"
        "\<forall>q. b \<le> q \<and> q < b + 2 ^ (j - PAGE_POWER) \<longrightarrow> pages s q = pages s k"
      by blast
    have "q \<notin> ?Q" if "b \<le> q \<and> q < b + 2 ^ (j - PAGE_POWER)" for q
      using b(6) that gk f(5) [of q] by fastforce
    then have "\<forall>q. b \<le> q \<and> q < b + 2 ^ (j - PAGE_POWER) \<longrightarrow> pages s' q = pages s' k"
      using b(6) False unfolding f(1) by metis
    moreover have "pbase (pages s' k) = PAGE_INDEX_TO_PTR s' b" using b(5) False by (simp add: f(1,8))
    ultimately have "?G b" using b(1-4) unfolding f(4) by blast
    then show ?thesis ..
  qed
qed

text \<open>The objects of the other pages stay what they were.\<close>

lemma pages_joined_objects:
  assumes J: "pages_joined p n i s s'"
  shows "page_objects s' j = page_objects s j \<union>
    (if j = i then {x \<in> page_objects s' i. PTR_TO_PAGE_INDEX s x \<in> hole_pages (p, n)} else {})"
proof -
  note f = pages_joinedD [OF J]
  have "x \<in> page_objects s' j \<longleftrightarrow>
      x \<in> page_objects s j \<or> j = i \<and> x \<in> page_objects s' i \<and> PTR_TO_PAGE_INDEX s x \<in> hole_pages (p, n)" for x
  proof (cases "PTR_TO_PAGE_INDEX s x \<in> hole_pages (p, n)")
    case True
    then show ?thesis using f(5) [OF True] by (auto simp: page_objects_def PTR_TO_GROUP_def f(1,6-8))
  next
    case False
    then show ?thesis by (simp add: page_objects_def PTR_TO_GROUP_def f(1,6-8))
  qed
  then show ?thesis by (auto split: if_splits)
qed

lemma pages_joined_apart:
  assumes "pages_joined p n i s s'" and "PTR_TO_PAGE_INDEX s x \<in> hole_pages (p, n)"
  shows "x \<notin> page_objects s j"
  using pages_joinedD(5) [OF assms] by (simp add: page_objects_def PTR_TO_GROUP_def)

text \<open>Writing the headers of objects on these pages and of the objects of the group leaves the holes alone.\<close>

lemma pages_joined_holes:
  assumes J: "pages_joined p n i s s'" and lay: "layout_ok s" and H: "holes_ok s T H" and T: "hole_pages (p, n) \<subseteq> T"
    and m: "only_headers S (memory s) (memory s')" and e: "empty_pages s' = empty_pages s" and hok: "headers_ok S"
    and S: "\<And>x. x \<in> S \<Longrightarrow> x \<in> page_objects s i \<or> PTR_TO_PAGE_INDEX s x \<in> hole_pages (p, n)"
  shows "holes_ok s' (T - hole_pages (p, n)) H"
proof -
  let ?Q = "hole_pages (p, n)"
  note f = pages_joinedD [OF J] and h = holes_okD [OF H]
  have ee: "empty_page_set s' = empty_page_set s - ?Q" by (auto simp: empty_page_set_def f(1,4))
  have fp: "fst k \<in> empty_page_set s - ?Q" if "k \<in> set H" for k
  proof -
    have "fst k \<in> hole_pages k" using h(2) [OF that] by (simp add: hole_pages_def)
    then show ?thesis using h(5,6) T that by blast
  qed
  have "memory s' a = memory s a" if a: "a \<in> hole_cells s (fst ` set H)" for a
  proof -
    obtain k where k: "k \<in> set H" "a = hole_addr s k \<or> a = hole_addr s k + 8"
      using a by (auto simp: hole_cells_def)
    have b: "0 \<le> fst k" "fst k < total_partition_pages s" "fst k \<notin> ?Q" "pgroup (pages s (fst k)) = EMPTY_PAGE"
      using fp [OF k(1)] by (auto simp: empty_page_set_def)
    have pi: "PTR_TO_PAGE_INDEX s (hole_addr s k) = fst k" using page_index_roundtrip [OF lay] b by simp
    then have "hole_addr s k \<notin> page_objects s i" using b(4) by (simp add: page_objects_def PTR_TO_GROUP_def)
    then have "hole_addr s k \<notin> S" using S [of "hole_addr s k"] pi b(3) by auto
    from not_header_cells [OF hok aligned_PAGE_INDEX_TO_PTR [OF lay b(1) less_imp_le [OF b(2)]] this]
    show ?thesis using k(2) m by (auto simp: only_headers_def)
  qed
  then have "hole_seg s (memory s') H 0" using h(8) hole_seg_cong [of s H "memory s'" "memory s" 0] by blast
  then show ?thesis
    using H ee T h(5) unfolding holes_ok_def by (auto simp: e f hole_seg_eq [OF f(2)])
qed

lemma adopt_pages:
  assumes I: "heap_inv T s A H" and i: "i \<in> group_indices"
    and p: "0 \<le> p" "1 \<le> n" "p + n \<le> total_partition_pages s" and T: "hole_pages (p, n) \<subseteq> T"
    and n: "n = (if PAGE_POWER \<le> i then 2 ^ (i - PAGE_POWER) else 1)"
    and rep: "idle_rep (marked_color s) (unmarked_color s) m' g' a'"
    and m: "only_headers (set (objects (A i)) \<union> set xs) (memory s) m'"
    and sz: "gsize g' = gsize (groups s i)" "gindex g' = gindex (groups s i)"
    and ob: "set (objects a') = set (objects (A i)) \<union> set xs"
    and s': "s' = s\<lparr>memory := m', groups := (groups s)(i := g'),
      pages := assign_pages p n \<lparr>pbase = PAGE_INDEX_TO_PTR s p, pgroup = Group i\<rparr> (pages s)\<rparr>"
    and xs: "page_table_ok s' \<Longrightarrow>
      set xs = {x \<in> page_objects s' i. p \<le> PTR_TO_PAGE_INDEX s x \<and> PTR_TO_PAGE_INDEX s x < p + n}"
  shows "heap_inv (T - hole_pages (p, n)) s' (A(i := a')) H"
proof -
  note d = heap_invD [OF I]
  let ?S = "set (objects (A i)) \<union> set xs"
  have f: "marked_color s' = marked_color s" "unmarked_color s' = unmarked_color s" "memory s' = m'"
    "empty_pages s' = empty_pages s" "groups s' = (groups s)(i := g')" by (simp_all add: s')
  have J: "pages_joined p n i s s'"
    using T holes_okD(6) [OF d(7)] by (auto simp: pages_joined_def s')
  have pt: "page_table_ok s'" by (rule pages_joined_table [OF J d(1,4) i p(1,3) n])
  have xs: "set xs = {x \<in> page_objects s' i. PTR_TO_PAGE_INDEX s x \<in> hole_pages (p, n)}"
    unfolding xs [OF pt] by (simp add: hole_pages_def)
  have po: "page_objects s' j = page_objects s j \<union> (if j = i then set xs else {})" for j
    unfolding xs by (rule pages_joined_objects [OF J])
  have objs: "object_set (A(i := a')) j = page_objects s' j" if j: "j \<in> group_indices" for j
    using d(5) [OF j] by (auto simp: po object_set_def ob simp del: objects_simps)
  have hok: "headers_ok ?S" using group_repD(1) rep ob unfolding idle_rep_def by metis
  have reps: "idle_rep (marked_color s) (unmarked_color s) m' (groups s j) (A j)"
    if j: "j \<in> group_indices" "j \<noteq> i" for j
  proof (rule idle_rep_cong [OF d(6) [OF j(1)]])
    fix x assume x: "x \<in> set (objects (A j))"
    then have xj: "x \<in> page_objects s j" using d(5) [OF j(1)] by (auto simp: object_set_def)
    have al: "aligned x"
      using heap_rep_headers_ok(1) [OF heap_inv_rep [OF I] framed_idle_rep j(1)] x
      by (auto simp: object_set_def dest: headers_okD)
    have "x \<notin> set (objects (A i))" using xj d(5) [OF i] j(2) by (auto simp: object_set_def page_objects_def)
    moreover have "x \<notin> set xs" using pages_joined_apart [OF J] xj xs by blast
    ultimately have "x \<notin> ?S" by blast
    from not_header_cells [OF hok al this]
    show "m' x = memory s x \<and> m' (x + 8) = memory s (x + 8)"
      using m by (simp add: only_headers_def)
  qed
  have "holes_ok s' (T - hole_pages (p, n)) H"
    using m d(5) [OF i] xs
    by (intro pages_joined_holes [OF J d(1,7) T _ f(4) hok]) (auto simp: f(3) object_set_def)
  then show ?thesis
    using pages_joined_layout [OF J d(1)] pt objs reps rep sz d(2,3) unfolding heap_inv_def
    by (simp add: f groups_ok_def)
qed

subsection \<open>New pages for a group\<close>

definition pages_needed :: "nat \<Rightarrow> int" where
  "pages_needed i = (if PAGE_POWER \<le> i then 2 ^ (i - PAGE_POWER) else 1)"

definition objects_added :: "nat \<Rightarrow> nat" where
  "objects_added i = (if i \<le> PAGE_POWER then 2 ^ (PAGE_POWER - i) else 1)"

lemma init_pages_sizes:
  assumes "i \<in> group_indices"
  shows "c_int (max (2 ^ i div BYTES_PER_PAGE) 1 * BYTES_PER_PAGE) = pages_needed i * BYTES_PER_PAGE"
    and "drop_bit i (pages_needed i * BYTES_PER_PAGE) = int (objects_added i)"
    and "c_int (int (objects_added i) * 2 ^ i) div BYTES_PER_PAGE = pages_needed i"
    and "1 \<le> pages_needed i" and "0 < objects_added i" and "0 < pages_needed i * BYTES_PER_PAGE"
proof -
  have i: "5 \<le> i" "i \<le> 24" using assms by (simp_all add: group_indices_def config_defs)
  have B: "BYTES_PER_PAGE = 2 ^ PAGE_POWER" by (simp add: BYTES_PER_PAGE_def)
  show pos: "1 \<le> pages_needed i" "0 < objects_added i" "0 < pages_needed i * BYTES_PER_PAGE"
    by (simp_all add: pages_needed_def objects_added_def config_defs)
  have small: "pages_needed i * BYTES_PER_PAGE \<le> 2 ^ 24"
  proof (cases "PAGE_POWER \<le> i")
    case True
    then have "pages_needed i * BYTES_PER_PAGE = 2 ^ i"
      by (simp add: pages_needed_def B flip: power_add)
    then show ?thesis using power_increasing [OF i(2), of "2 :: int"] by simp
  next
    case False
    then show ?thesis by (simp add: pages_needed_def config_defs)
  qed
  have c: "c_int (pages_needed i * BYTES_PER_PAGE) = pages_needed i * BYTES_PER_PAGE"
    using small pos(3) by (intro c_int_id) auto
  have q: "max (2 ^ i div BYTES_PER_PAGE) 1 = pages_needed i"
  proof (cases "PAGE_POWER \<le> i")
    case True
    then have "(2 :: int) ^ i div BYTES_PER_PAGE = 2 ^ (i - PAGE_POWER)"
      unfolding B by (simp add: power_diff)
    then show ?thesis using True by (simp add: pages_needed_def)
  next
    case False
    then have "(2 :: int) ^ i div BYTES_PER_PAGE = 0"
      unfolding B by (intro div_pos_pos_trivial) (simp_all add: power_strict_increasing)
    then show ?thesis using False by (simp add: pages_needed_def)
  qed
  show "c_int (max (2 ^ i div BYTES_PER_PAGE) 1 * BYTES_PER_PAGE) = pages_needed i * BYTES_PER_PAGE"
    unfolding q by (rule c)
  have prod: "int (objects_added i) * 2 ^ i = pages_needed i * BYTES_PER_PAGE"
    by (simp add: objects_added_def pages_needed_def B flip: power_add)
  show "drop_bit i (pages_needed i * BYTES_PER_PAGE) = int (objects_added i)"
    unfolding prod [symmetric] by (simp add: drop_bit_eq_div)
  show "c_int (int (objects_added i) * 2 ^ i) div BYTES_PER_PAGE = pages_needed i"
    unfolding prod c by (simp add: config_defs)
qed

text \<open>The addresses of a set of pages.\<close>

definition page_cells :: "rt_state \<Rightarrow> int set \<Rightarrow> addr set" where
  "page_cells s P = {a. IN_PARTITION s a \<and> PTR_TO_PAGE_INDEX s a \<in> P}"

lemma page_cellsI:
  assumes lay: "layout_ok s" and p: "0 \<le> p" "p < total_partition_pages s" "p \<in> P"
    and k: "0 \<le> k" "k < BYTES_PER_PAGE"
  shows "PAGE_INDEX_TO_PTR s p + word_of_int k \<in> page_cells s P"
proof -
  note e = page_end [OF lay p(1,2)]
  have "uint (PAGE_INDEX_TO_PTR s p + word_of_int k) = uint (PAGE_INDEX_TO_PTR s p) + k"
    using e(1) k by (intro uint_add_below) simp_all
  then have "uint (first_partition_ptr s) + p * BYTES_PER_PAGE \<le> uint (PAGE_INDEX_TO_PTR s p + word_of_int k)"
    "uint (PAGE_INDEX_TO_PTR s p + word_of_int k) < uint (first_partition_ptr s) + (p + 1) * BYTES_PER_PAGE"
    using e(2) k by (simp_all add: distrib_right)
  from page_of_interval [OF lay p(1,2) this] show ?thesis using p(3) by (simp add: page_cells_def)
qed

lemma hole_cells_page_cells:
  assumes "layout_ok s" and "P \<subseteq> {0..<total_partition_pages s}"
  shows "hole_cells s P \<subseteq> page_cells s P"
proof
  fix a assume "a \<in> hole_cells s P"
  then obtain p where p: "p \<in> P" "a = PAGE_INDEX_TO_PTR s p + word_of_int 0 \<or> a = PAGE_INDEX_TO_PTR s p + word_of_int 8"
    by (auto simp: hole_cells_def)
  then have "0 \<le> p" "p < total_partition_pages s" using assms(2) by auto
  then show "a \<in> page_cells s P"
    using p page_cellsI [OF assms(1), of p P 0] page_cellsI [OF assms(1), of p P 8]
    by (auto simp: config_defs)
qed

text \<open>The new objects lie on the new pages.\<close>

lemma new_objects_pages:
  assumes lay: "layout_ok s" and i: "i \<in> group_indices"
    and p: "0 \<le> p" "p + pages_needed i \<le> total_partition_pages s"
  defines "xs \<equiv> new_objects (objects_added i) (2 ^ i) (PAGE_INDEX_TO_PTR s p)"
  shows "distinct xs" and "headers_ok (set xs)"
    and "set xs \<union> (\<lambda>x. x + 8) ` set xs \<subseteq> page_cells s (hole_pages (p, pages_needed i))"
proof -
  let ?B = "PAGE_INDEX_TO_PTR s p"
  have n1: "1 \<le> pages_needed i" by (rule init_pages_sizes(4) [OF i])
  have k: "0 \<le> p" "p < total_partition_pages s" using p n1 by simp_all
  have i5: "5 \<le> i" using i by (simp add: group_indices_def config_defs)
  note e = page_end [OF lay k]
  have at: "\<exists>d. x = ?B + word_of_int d \<and> 0 \<le> d \<and> d + 16 \<le> BYTES_PER_PAGE \<and> d mod 16 = 0" if x: "x \<in> set xs" for x
  proof (cases "i \<le> PAGE_POWER")
    case True
    obtain j where j: "j < objects_added i" "x = ?B + of_nat j * word_of_int (2 ^ i)"
      using x new_objects_nth unfolding xs_def in_set_conv_nth by auto
    have "x = ?B + word_of_int (int j * 2 ^ i)" by (simp add: j(2))
    moreover have "int j * 2 ^ i + 2 ^ i \<le> BYTES_PER_PAGE"
    proof -
      have "int (Suc j) \<le> int (2 ^ (PAGE_POWER - i))"
        using j(1) True unfolding of_nat_le_iff by (simp add: objects_added_def)
      then have "int j + 1 \<le> 2 ^ (PAGE_POWER - i)" by simp
      then have "(int j + 1) * 2 ^ i \<le> 2 ^ (PAGE_POWER - i) * 2 ^ i" by (intro mult_right_mono) simp_all
      then show ?thesis using page_size_split(2) [OF True] by (simp add: distrib_right)
    qed
    moreover have "(16 :: int) \<le> 2 ^ i" using power_increasing [of 4 i "2 :: int"] i5 by simp
    moreover have "int j * 2 ^ i mod 16 = 0"
    proof -
      have "(2 :: int) ^ 4 dvd 2 ^ i" using i5 by (intro le_imp_power_dvd) simp
      then have "(16 :: int) dvd int j * 2 ^ i" by simp
      then show ?thesis by simp
    qed
    ultimately show ?thesis by (intro exI [of _ "int j * 2 ^ i"]) simp
  next
    case False
    then have "xs = [?B]" by (simp add: xs_def objects_added_def)
    then show ?thesis using x by (intro exI [of _ 0]) (simp add: config_defs)
  qed
  show "distinct xs"
  proof (cases "i \<le> PAGE_POWER")
    case True
    have "xs = page_slots s p i"
      using True page_size_split(1) [OF True] by (simp add: xs_def page_slots_def objects_added_def nat_power_eq)
    then show ?thesis using distinct_page_slots [OF lay k True] by simp
  next
    case False
    then show ?thesis by (simp add: xs_def objects_added_def)
  qed
  show "headers_ok (set xs)"
    unfolding headers_ok_def
  proof
    fix x assume "x \<in> set xs"
    from at [OF this] obtain d where
      d: "x = ?B + word_of_int d" "0 \<le> d" "d + 16 \<le> BYTES_PER_PAGE" "d mod 16 = 0"
      by (elim exE conjE)
    have u: "uint x = uint ?B + d" unfolding d(1) using e(1) d by (intro uint_add_below) simp_all
    have "0 < uint ?B" using e(2) k lay by (simp add: layout_ok_def config_defs)
    then have "x \<noteq> 0" using u d(2) by auto
    moreover have "uint ?B mod 16 = 0"
      using aligned_PAGE_INDEX_TO_PTR [OF lay, of p] k by (simp add: aligned_iff_uint)
    then have "(uint ?B + d) mod 16 = 0" using d(4) by presburger
    then have "aligned x" unfolding aligned_iff_uint u .
    ultimately show "x \<noteq> 0 \<and> aligned x" by simp
  qed
  show "set xs \<union> (\<lambda>x. x + 8) ` set xs \<subseteq> page_cells s (hole_pages (p, pages_needed i))"
  proof
    fix a assume "a \<in> set xs \<union> (\<lambda>x. x + 8) ` set xs"
    then obtain x where x: "x \<in> set xs" "a = x \<or> a = x + 8" by blast
    from at [OF x(1)] obtain d where d: "x = ?B + word_of_int d" "0 \<le> d" "d + 16 \<le> BYTES_PER_PAGE"
      by (elim exE conjE)
    have "p \<in> hole_pages (p, pages_needed i)" using n1 by (simp add: hole_pages_def)
    moreover have "x + 8 = ?B + word_of_int (d + 8)" by (simp add: d(1))
    ultimately show "a \<in> page_cells s (hole_pages (p, pages_needed i))"
      using x(2) d page_cellsI [OF lay k, of _ d] page_cellsI [OF lay k, of _ "d + 8"] by (auto simp: add.assoc)
  qed
qed

text \<open>The second half of init_pages_for_group: pages \<open>p\<close> to \<open>p + n\<close> have been cut from a hole.\<close>

definition give_pages :: "nat \<Rightarrow> int \<Rightarrow> rt_state \<Rightarrow> rt_error + rt_state" where
  "give_pages i p s =
     (let base = PAGE_INDEX_TO_PTR s p in
      rbind (on_group i (\<lambda>m g. link_new_objects m g base (objects_added i)) s) (\<lambda>s5.
        Inr (s5\<lparr>pages := assign_pages (c_int (PTR_TO_PAGE_INDEX s5 base)) (pages_needed i)
                  \<lparr>pbase = base, pgroup = Group i\<rparr> (pages s5)\<rparr>)))"

text \<open>The objects of the joined pages are the new objects.\<close>

lemma joined_small:
  assumes J: "pages_joined p 1 i s s'" and lay: "layout_ok s" and pt: "page_table_ok s'" and i: "i \<le> PAGE_POWER"
    and p: "0 \<le> p" "p < total_partition_pages s"
  shows "set (new_objects (objects_added i) (2 ^ i) (PAGE_INDEX_TO_PTR s p)) =
    {x \<in> page_objects s' i. p \<le> PTR_TO_PAGE_INDEX s x \<and> PTR_TO_PAGE_INDEX s x < p + 1}"
proof -
  note f = pages_joinedD [OF J]
  have "new_objects (objects_added i) (2 ^ i) (PAGE_INDEX_TO_PTR s p) = page_slots s' p i"
    using page_size_split(1) [OF i] i
    by (simp add: page_slots_def objects_added_def f(8) nat_power_eq)
  moreover have "set (page_slots s' p i) = {x \<in> page_objects s' i. PTR_TO_PAGE_INDEX s' x = p}"
    by (rule page_slots_objects [OF pages_joined_layout [OF J lay] pt _ _ i])
      (use p in \<open>simp_all add: f(1,4) hole_pages_def\<close>)
  moreover have "k = p \<longleftrightarrow> p \<le> k \<and> k < p + 1" for k by auto
  ultimately show ?thesis by (simp only: f(7))
qed

lemma joined_large:
  assumes J: "pages_joined p n i s s'" and lay: "layout_ok s" and i: "PAGE_POWER < i"
    and p: "0 \<le> p" "p < total_partition_pages s" and n: "1 \<le> n"
  shows "set (new_objects (objects_added i) (2 ^ i) (PAGE_INDEX_TO_PTR s p)) =
    {x \<in> page_objects s' i. p \<le> PTR_TO_PAGE_INDEX s x \<and> PTR_TO_PAGE_INDEX s x < p + n}"
proof -
  note f = pages_joinedD [OF J]
  have pgs: "pages s' q = \<lparr>pbase = PAGE_INDEX_TO_PTR s p, pgroup = Group i\<rparr>" if "p \<le> q" "q < p + n" for q
    using that by (simp add: f(1) hole_pages_def)
  have "{x \<in> page_objects s' i. p \<le> PTR_TO_PAGE_INDEX s' x \<and> PTR_TO_PAGE_INDEX s' x < p + n} = {PAGE_INDEX_TO_PTR s' p}"
    by (rule large_page_object [OF pages_joined_layout [OF J lay] p(1)]) (use p i n in \<open>simp_all add: pgs f(4,8)\<close>)
  then show ?thesis using i by (simp add: f(7,8) objects_added_def)
qed

lemma aligned_size:
  assumes "i \<in> group_indices"
  shows "aligned (word_of_int (2 ^ i))"
proof -
  have b: "(2 :: int) ^ i mod 32 = 0" "(2 :: int) ^ i \<le> 2 ^ 24" using group_indices_bounds [OF assms] by simp_all
  have "(2 :: int) ^ i mod 2 ^ 64 = 2 ^ i" using b(2) by (intro mod_pos_pos_trivial) auto
  then have "uint (word_of_int (2 ^ i) :: addr) = 2 ^ i" by (subst uint_word_of_int) simp
  moreover have "(2 :: int) ^ i mod 16 = 0" using b(1) by presburger
  ultimately show ?thesis by (simp add: aligned_iff_uint)
qed

lemma give_pages_refines:
  assumes I: "heap_inv T s A H" and i: "i \<in> group_indices" and F: "greens (A i) = []"
    and p: "0 \<le> p" "p + pages_needed i \<le> total_partition_pages s" and T: "hole_pages (p, pages_needed i) \<subseteq> T"
  defines "xs \<equiv> new_objects (objects_added i) (2 ^ i) (PAGE_INDEX_TO_PTR s p)"
  obtains s' where "give_pages i p s = Inr s'"
    and "heap_inv (T - hole_pages (p, pages_needed i)) s' (A(i := a_add_free xs (A i))) H"
    and "only_headers (set (objects (A i)) \<union> set xs) (memory s) (memory s')"
    and "\<And>q. aligned q \<Longrightarrow> q \<notin> set xs \<Longrightarrow> GET_STORAGE_CLASS (memory s') q = GET_STORAGE_CLASS (memory s) q"
    and "s' = s\<lparr>memory := memory s', groups := groups s', pages := pages s'\<rparr>"
proof -
  note d = heap_invD [OF I] and h = holes_okD [OF heap_invD(7) [OF I]]
  let ?n = "pages_needed i" and ?B = "PAGE_INDEX_TO_PTR s p" and ?g = "groups s i"
  have n1: "1 \<le> ?n" by (rule init_pages_sizes(4) [OF i])
  have k: "0 \<le> p" "p < total_partition_pages s" using p n1 by simp_all
  note x = new_objects_pages [OF d(1) i p, folded xs_def]
  have idle: "idle_rep (marked_color s) (unmarked_color s) (memory s) ?g (A i)" by (rule d(6) [OF i])
  have wg: "whites (A i) = []" "grays (A i) = []" using idle by (simp_all add: idle_rep_def)
  have gr: "group_rep (marked_color s) (unmarked_color s) (memory s) ?g (A i)"
    using idle by (simp add: idle_rep_def)
  have sz: "gsize ?g = 2 ^ i" using d(3) i by (simp add: groups_ok_def)
  have al: "aligned (word_of_int (gsize ?g))" using aligned_size [OF i] by (simp add: sz)
  have dis: "set xs \<inter> set (objects (A i)) = {}"
  proof -
    have "y \<notin> page_objects s i" if "y \<in> set xs" for y
    proof -
      have "PTR_TO_PAGE_INDEX s y \<in> T" using x(3) T that by (auto simp: page_cells_def)
      then have "pgroup (pages s (PTR_TO_PAGE_INDEX s y)) = EMPTY_PAGE"
        using h(6) by (auto simp: empty_page_set_def)
      then show ?thesis by (simp add: page_objects_def PTR_TO_GROUP_def)
    qed
    then show ?thesis using d(5) [OF i] unfolding object_set_def by blast
  qed
  have xs': "xs = new_objects (objects_added i) (gsize ?g) ?B" by (simp add: xs_def sz)
  obtain m' g' where l: "link_new_objects (memory s) ?g ?B (objects_added i) = Inr (m', g')"
    "group_rep (marked_color s) (unmarked_color s) m' g' (a_add_free xs (A i))"
    "only_headers (set (objects (A i)) \<union> set xs) (memory s) m'"
    "\<And>q. aligned q \<Longrightarrow> q \<notin> set xs \<Longrightarrow> GET_STORAGE_CLASS m' q = GET_STORAGE_CLASS (memory s) q"
    "gsize g' = gsize ?g" "gindex g' = gindex ?g"
    by (rule link_new_objects_rep [OF gr F init_pages_sizes(5) [OF i] x(2,1) dis al xs']) (rule that, assumption+)
  define s' where "s' = s\<lparr>memory := m', groups := (groups s)(i := g'),
      pages := assign_pages p ?n \<lparr>pbase = ?B, pgroup = Group i\<rparr> (pages s)\<rparr>"
  have "c_int (PTR_TO_PAGE_INDEX s ?B) = p"
  proof -
    have "p < 2 ^ 19" using d(1) k by (simp add: layout_ok_def)
    then show ?thesis using page_index_roundtrip [OF d(1) k] k by (simp add: c_int_id)
  qed
  then have "give_pages i p s = Inr s'"
    by (simp add: give_pages_def Let_def on_group_def l(1) s'_def PTR_TO_PAGE_INDEX_def)
  moreover have "heap_inv (T - hole_pages (p, ?n)) s' (A(i := a_add_free xs (A i))) H"
  proof (rule adopt_pages [OF I i p(1) n1 p(2) T _ _ l(3,5,6) _ s'_def])
    show "?n = (if PAGE_POWER \<le> i then 2 ^ (i - PAGE_POWER) else 1)" by (simp add: pages_needed_def)
    show "idle_rep (marked_color s) (unmarked_color s) m' g' (a_add_free xs (A i))"
      using l(2) wg by (simp add: idle_rep_def)
    show "set (objects (a_add_free xs (A i))) = set (objects (A i)) \<union> set xs" by auto
    assume pt: "page_table_ok s'"
    have J: "pages_joined p ?n i s s'" using T h(6) by (auto simp: pages_joined_def s'_def)
    show "set xs = {x \<in> page_objects s' i. p \<le> PTR_TO_PAGE_INDEX s x \<and> PTR_TO_PAGE_INDEX s x < p + ?n}"
    proof (cases "i \<le> PAGE_POWER")
      case True
      then have "?n = 1" by (simp add: pages_needed_def)
      then show ?thesis using joined_small [OF _ d(1) pt True k] J by (simp add: xs_def)
    next
      case False
      then show ?thesis using joined_large [OF J d(1) _ k n1] by (simp add: xs_def)
    qed
  qed
  ultimately show thesis using l(3,4) by (intro that [of s']) (simp_all add: s'_def)
qed

end
