(* ===== verification/Allocate_Object.thy ===== *)
theory Allocate_Object
  imports Allocator_Refine
begin

text \<open>
  RTallocate when the group has a free object: the first free object becomes black, its class
  is set and its body cleared, and the heap invariant holds again.
\<close>

subsection \<open>Writing a new object\<close>

lemma group_rep_storage_class:
  assumes gr: "group_rep mk um m g a" and x: "aligned x" and c: "two_bits c"
  shows "group_rep mk um (SET_STORAGE_CLASS m x c) g a"
proof -
  let ?m = "SET_STORAGE_CLASS m x c"
  note r = group_repD [OF gr]
  have al: "aligned y" if "y \<in> set (objects a)" for y using r(1) that by (rule headers_okD(2))
  have hdr: "get_prev ?m y = get_prev m y" "get_next ?m y = get_next m y" "GET_COLOR ?m y = GET_COLOR m y"
    if "y \<in> set (objects a)" for y
    using after_SET_STORAGE_CLASS [OF x al [OF that] c] by simp_all
  have dl: "dlist ?m ys = dlist m ys" if "set ys \<subseteq> set (objects a)" for ys
    unfolding dlist_def by (rule dseg_cong) (use hdr that in blast)+
  have co: "colored ?m k ys = colored m k ys" if "set ys \<subseteq> set (objects a)" for k ys
    by (rule colored_cong) (use hdr(3) that in blast)
  have "dlist ?m (whites a) = dlist m (whites a)" "dlist ?m (active a) = dlist m (active a)"
    by (rule dl, fastforce)+
  moreover have "colored ?m um (whites a) = colored m um (whites a)" "colored ?m GRAY (grays a) = colored m GRAY (grays a)"
    "colored ?m mk (blacks a) = colored m mk (blacks a)" "colored ?m GREEN (greens a) = colored m GREEN (greens a)"
    by (rule co, fastforce)+
  ultimately show ?thesis
    using r by (intro group_repI) (simp_all del: objects_simps)
qed

text \<open>The longs of the body of an object.\<close>

lemma body_cells:
  assumes lay: "layout_ok s" and i: "i \<in> group_indices" and x: "uint x + 2 ^ i \<le> uint (last_partition_ptr s)"
    and n: "16 + 8 * int n \<le> 2 ^ i" and a: "a \<in> set (cells n (x + 16))"
  shows "uint x + 16 \<le> uint a" and "uint a + 8 \<le> uint x + 16 + 8 * int n"
proof -
  have "uint (x + word_of_int 16) = uint x + 16"
    using n x by (intro uint_add_size [OF lay]) simp_all
  then have u: "uint (x + 16) = uint x + 16" by simp
  have "uint (last_partition_ptr s) < 2 ^ 64" using uint_lt2p [of "last_partition_ptr s"] by simp
  then have "uint (x + 16) + 8 * int n < 2 ^ 64" using u x n by simp
  from cells_uint [OF a this] show "uint x + 16 \<le> uint a" and "uint a + 8 \<le> uint x + 16 + 8 * int n"
    by (simp_all add: u)
qed

lemma memset_longs_other: "a \<notin> set (cells n base) \<Longrightarrow> memset_longs base n m a = m a"
  unfolding memset_longs_def by (rule store_words_other) simp

lemma memset_longs_zero:
  assumes "a \<in> set (cells n base)"
  shows "memset_longs base n m a = 0"
proof -
  have "store_words dst (replicate k 0) m a = 0" if "a \<in> set (cells k dst)" for k dst m
    using that
  proof (induction k arbitrary: dst m)
    case (Suc k)
    show ?case
    proof (cases "a \<in> set (cells k (dst + 8))")
      case True
      then show ?thesis using Suc.IH by simp
    next
      case False
      then show ?thesis using Suc.prems by (simp add: store_words_other GC_POINTER_ALIGNMENT_def)
    qed
  qed simp
  then show ?thesis using assms unfolding memset_longs_def by simp
qed


text \<open>What RTallocate writes into the new object \<open>x\<close> of group \<open>i\<close>.\<close>

definition metadata_valid :: "64 word \<Rightarrow> bool" where
  "metadata_valid md \<longleftrightarrow> md \<in> {RTnopointers, RTpointers, RTcustom1} \<or> SC_METADATA \<le>s md"

definition class_of :: "64 word \<Rightarrow> 64 word" where
  "class_of md = (if md \<in> {RTnopointers, RTpointers, RTcustom1} then md else SC_METADATA)"

definition body_longs :: "64 word \<Rightarrow> nat \<Rightarrow> nat" where
  "body_longs md i = nat ((2 ^ i - 16 - (if md \<in> {RTnopointers, RTpointers, RTcustom1} then 0 else 8)) div 8)"

definition last_long :: "addr \<Rightarrow> nat \<Rightarrow> addr" where
  "last_long x i = x + word_of_int (2 ^ i - 8)"

definition new_body :: "64 word \<Rightarrow> addr \<Rightarrow> nat \<Rightarrow> mem \<Rightarrow> mem" where
  "new_body md x i m =
     (let m2 = (if md \<in> {RTnopointers, RTpointers, RTcustom1} then SET_STORAGE_CLASS m x md
                else SET_STORAGE_CLASS (m(last_long x i := md)) x SC_METADATA)
      in if md \<noteq> RTnopointers then memset_longs (x + 16) (body_longs md i) m2 else m2)"

lemma metadata_signed:
  assumes "metadata_valid md"
  shows "md <s SC_METADATA \<longleftrightarrow> md \<in> {RTnopointers, RTpointers, RTcustom1}"
  using assms by (auto simp: metadata_valid_def RTnopointers_def RTpointers_def RTcustom1_def sc_defs
      word_sless_alt word_sle_eq)

lemma new_body_eq:
  assumes md: "metadata_valid md" and g: "gsize g = 2 ^ i" and i: "i \<in> group_indices"
  shows "(let (m2, body_size) = initialize_object_metadata md x g m
      in initialize_object_body md (x + 16) body_size m2) = new_body md x i m"
proof -
  have "(2 :: int) ^ 5 dvd 2 ^ i" using i by (intro le_imp_power_dvd) (simp add: group_indices_def config_defs)
  then have "(8 :: int) dvd 2 ^ i" by (rule dvd_trans [rotated]) simp
  then have "((2 :: int) ^ i div 8 - 3) * 8 = 2 ^ i - 24" by auto
  then have l: "x + 16 + word_of_int ((2 ^ i div 8 - 3) * 8) = last_long x i" by (simp add: last_long_def)
  show ?thesis
  proof (cases "md \<in> {RTnopointers, RTpointers, RTcustom1}")
    case True
    then have "md <s SC_METADATA" using metadata_signed [OF md] by blast
    then show ?thesis
      unfolding new_body_def body_longs_def initialize_object_metadata_def initialize_object_body_def Let_def
        if_P [OF True] g SIZEOF_GC_HEADER_def by simp
  next
    case False
    then have "\<not> md <s SC_METADATA" using metadata_signed [OF md] by blast
    then show ?thesis
      unfolding new_body_def body_longs_def initialize_object_metadata_def initialize_object_body_def Let_def
        if_not_P [OF False] g SIZEOF_GC_HEADER_def l by simp
  qed
qed


definition in_body :: "addr \<Rightarrow> nat \<Rightarrow> addr \<Rightarrow> bool" where
  "in_body x i a \<longleftrightarrow> uint x + 16 \<le> uint a \<and> uint a < uint x + 2 ^ i"

lemma class_of_two_bits: "two_bits (class_of md)"
  by (simp add: class_of_def RTnopointers_def RTpointers_def RTcustom1_def sc_defs)

lemma last_long_uint:
  assumes lay: "layout_ok s" and i: "i \<in> group_indices" and top: "uint x + 2 ^ i \<le> uint (last_partition_ptr s)"
  shows "uint (last_long x i) = uint x + 2 ^ i - 8"
proof -
  have "(32 :: int) \<le> 2 ^ i" using group_indices_bounds(1) [OF i] .
  then show ?thesis unfolding last_long_def using top by (subst uint_add_size [OF lay]) simp_all
qed

lemma body_longs_fit:
  assumes i: "i \<in> group_indices"
  shows "16 + 8 * int (body_longs md i) \<le> 2 ^ i - (if md \<in> {RTnopointers, RTpointers, RTcustom1} then 0 else 8)"
proof -
  have "(32 :: int) \<le> 2 ^ i" using group_indices_bounds(1) [OF i] .
  moreover have "8 * (n div 8) \<le> n" for n :: int by presburger
  note this [of "2 ^ i - 16"] this [of "2 ^ i - 24"]
  ultimately show ?thesis by (simp add: body_longs_def)
qed

lemma cell_in_body:
  assumes lay: "layout_ok s" and i: "i \<in> group_indices" and top: "uint x + 2 ^ i \<le> uint (last_partition_ptr s)"
    and c: "a \<in> set (cells (body_longs md i) (x + 16))"
  shows "in_body x i a" and "md \<notin> {RTnopointers, RTpointers, RTcustom1} \<Longrightarrow> a \<noteq> last_long x i"
proof -
  have f: "16 + 8 * int (body_longs md i) \<le> 2 ^ i" using body_longs_fit [OF i, of md] by (simp split: if_splits)
  note b = body_cells [OF lay i top f c]
  show "in_body x i a" using b f by (simp add: in_body_def)
  show "a \<noteq> last_long x i" if "md \<notin> {RTnopointers, RTpointers, RTcustom1}"
    using b(2) body_longs_fit [OF i, of md] last_long_uint [OF lay i top] that by auto
qed

lemma header_not_in_body:
  assumes lay: "layout_ok s" and i: "i \<in> group_indices" and top: "uint x + 2 ^ i \<le> uint (last_partition_ptr s)"
  shows "\<not> in_body x i x" "\<not> in_body x i (x + 8)"
proof -
  have "(32 :: int) \<le> 2 ^ i" using group_indices_bounds(1) [OF i] .
  then have "uint (x + word_of_int 8) = uint x + 8" using top by (intro uint_add_size [OF lay]) simp_all
  then show "\<not> in_body x i x" "\<not> in_body x i (x + 8)" by (simp_all add: in_body_def)
qed

lemma new_body_outside:
  assumes lay: "layout_ok s" and i: "i \<in> group_indices" and top: "uint x + 2 ^ i \<le> uint (last_partition_ptr s)"
    and o: "\<not> in_body x i a"
  shows "new_body md x i m a = SET_STORAGE_CLASS m x (class_of md) a"
proof -
  have l: "in_body x i (last_long x i)"
    using last_long_uint [OF lay i top] group_indices_bounds(1) [OF i] by (simp add: in_body_def)
  have c: "a \<notin> set (cells (body_longs md i) (x + 16))" using cell_in_body(1) [OF lay i top] o by blast
  have "SET_STORAGE_CLASS (m(last_long x i := md)) x k a = SET_STORAGE_CLASS m x k a" for k
  proof -
    have "x + 8 \<noteq> last_long x i" "a \<noteq> last_long x i" using header_not_in_body(2) [OF lay i top] l o by metis+
    then show ?thesis by (simp add: SET_STORAGE_CLASS_def)
  qed
  then show ?thesis using c by (simp add: new_body_def class_of_def Let_def memset_longs_other)
qed

lemma new_body_inside:
  assumes lay: "layout_ok s" and i: "i \<in> group_indices" and top: "uint x + 2 ^ i \<le> uint (last_partition_ptr s)"
  shows "md \<noteq> RTnopointers \<Longrightarrow> a \<in> set (cells (body_longs md i) (x + 16)) \<Longrightarrow> new_body md x i m a = 0"
    and "md \<notin> {RTnopointers, RTpointers, RTcustom1} \<Longrightarrow> new_body md x i m (last_long x i) = md"
proof -
  show "new_body md x i m a = 0" if "md \<noteq> RTnopointers" "a \<in> set (cells (body_longs md i) (x + 16))"
    using that by (simp add: new_body_def Let_def memset_longs_zero)
  assume md: "md \<notin> {RTnopointers, RTpointers, RTcustom1}"
  have "in_body x i (last_long x i)"
    using last_long_uint [OF lay i top] group_indices_bounds(1) [OF i] by (simp add: in_body_def)
  then have "last_long x i \<noteq> x + 8" using header_not_in_body(2) [OF lay i top] by metis
  moreover have "last_long x i \<notin> set (cells (body_longs md i) (x + 16))" using cell_in_body(2) [OF lay i top] md by blast
  ultimately show "new_body md x i m (last_long x i) = md"
    using md by (simp add: new_body_def Let_def memset_longs_other SET_STORAGE_CLASS_def)
qed

subsection \<open>The heap after an allocation\<close>

text \<open>What an allocation promises of the memory: \<open>x\<close> is the new object, of group \<open>i\<close>.\<close>

definition object_initialised :: "64 word \<Rightarrow> addr \<Rightarrow> nat \<Rightarrow> mem \<Rightarrow> bool" where
  "object_initialised md x i m \<longleftrightarrow>
     GET_STORAGE_CLASS m x = class_of md \<and>
     (md \<noteq> RTnopointers \<longrightarrow> (\<forall>a\<in>set (cells (body_longs md i) (x + 16)). m a = 0)) \<and>
     (md \<notin> {RTnopointers, RTpointers, RTcustom1} \<longrightarrow> m (last_long x i) = md)"

definition take_object :: "64 word \<Rightarrow> nat \<Rightarrow> rt_state \<Rightarrow> rt_error + rt_state \<times> addr" where
  "take_object md i s =
     (let (m1, g1, new) = allocate_from_free_list (marked_color s) (memory s) (groups s i);
          (m2, body_size) = initialize_object_metadata md new g1 m1;
          base = new + 16;
          m3 = initialize_object_body md base body_size m2
      in Inr (s\<lparr>memory := m3, groups := (groups s)(i := g1)\<rparr>, base))"

text \<open>Apart from the body of the object only its class changes.\<close>

lemma new_body_headers:
  assumes lay: "layout_ok s" and geo: "geometry s (object_set A)" and i: "i \<in> group_indices" and x: "x \<in> object_set A i"
    and z: "z \<in> all_objects A"
  shows "new_body md x i m z = SET_STORAGE_CLASS m x (class_of md) z"
    and "new_body md x i m (z + 8) = SET_STORAGE_CLASS m x (class_of md) (z + 8)"
proof -
  have "\<not> in_body x i z \<and> \<not> in_body x i (z + 8)"
    using body_not_header [OF lay geo i x, of z] body_not_header [OF lay geo i x, of "z + 8"] z
    by (auto simp: in_body_def header_cells_def all_objects_def)
  then show "new_body md x i m z = SET_STORAGE_CLASS m x (class_of md) z"
    "new_body md x i m (z + 8) = SET_STORAGE_CLASS m x (class_of md) (z + 8)"
    using new_body_outside [OF lay i geometryD(3) [OF geo i x]] by blast+
qed

lemma new_body_class:
  assumes "layout_ok s" and "geometry s (object_set A)" and "i \<in> group_indices" and "x \<in> object_set A i"
    and "z \<in> all_objects A" and "aligned x" and "aligned z"
  shows "GET_STORAGE_CLASS (new_body md x i m) z = (if z = x then class_of md else GET_STORAGE_CLASS m z)"
proof -
  have "GET_STORAGE_CLASS (new_body md x i m) z = GET_STORAGE_CLASS (SET_STORAGE_CLASS m x (class_of md)) z"
    using new_body_headers(2) [OF assms(1-5)] by (simp add: GET_STORAGE_CLASS_def)
  also have "\<dots> = (if z = x then class_of md else GET_STORAGE_CLASS m z)"
    by (rule after_SET_STORAGE_CLASS(4) [OF assms(6,7) class_of_two_bits])
  finally show ?thesis .
qed

text \<open>
  What a representation of a group needs so that RTallocate keeps it: it depends on the
  headers of its objects only, not on their classes, and taking the first free object keeps
  it. Both the representation between collections and the one during marking are such.
\<close>

locale allocating =
  fixes P :: group_pred
  assumes framed: "framed_pred P"
    and group: "P mk um m g a \<Longrightarrow> group_rep mk um m g a"
    and taken: "colors_ok mk um \<Longrightarrow> greens a \<noteq> [] \<Longrightarrow> allocate_from_free_list mk m g = (m', g', x) \<Longrightarrow>
      P mk um m g a \<Longrightarrow> P mk um m' g' (a_allocate a)"
    and class_set: "P mk um m g a \<Longrightarrow> aligned x \<Longrightarrow> two_bits c \<Longrightarrow> P mk um (SET_STORAGE_CLASS m x c) g a"
    and headers: "P mk um m g a \<Longrightarrow>
      (\<And>x. x \<in> set (objects a) \<Longrightarrow> m' x = m x \<and> m' (x + 8) = m (x + 8)) \<Longrightarrow> P mk um m' g a"
begin

lemma new_body_rep:
  assumes hr: "heap_rep (\<lambda>_. P) s A" and i: "i \<in> group_indices" and x: "x \<in> object_set A i"
    and lo: "links_only (set (objects (A i))) (memory s) m1"
    and rep1: "P (marked_color s) (unmarked_color s) m1 g1 a1" and ob: "set (objects a1) = set (objects (A i))"
    and j: "j \<in> group_indices"
  shows "P (marked_color s) (unmarked_color s) (new_body md x i m1) (((groups s)(i := g1)) j) ((A(i := a1)) j)"
proof -
  note d = heap_repD [OF hr]
  have alx: "aligned x"
    using heap_rep_headers_ok(2) [OF hr framed] x i by (auto simp: all_objects_def dest: headers_okD(2))
  have "P (marked_color s) (unmarked_color s) m1 (((groups s)(i := g1)) j) ((A(i := a1)) j)"
  proof (cases "j = i")
    case False
    have "set (objects (A j)) \<inter> set (objects (A i)) = {}"
      using geometry_group_unique [OF d(4) j i] False by (auto simp: object_set_def)
    moreover have "headers_ok (set (objects (A i)))"
      using heap_rep_headers_ok(1) [OF hr framed i] by (simp add: object_set_def)
    ultimately have "P (marked_color s) (unmarked_color s) m1 (groups s j) (A j)"
      using framed lo d(5) [OF j] unfolding framed_pred_def by blast
    then show ?thesis using False by simp
  qed (use rep1 in simp)
  then have "P (marked_color s) (unmarked_color s) (SET_STORAGE_CLASS m1 x (class_of md)) (((groups s)(i := g1)) j) ((A(i := a1)) j)"
    by (rule class_set [OF _ alx class_of_two_bits])
  then show ?thesis
  proof (rule headers)
    fix z assume "z \<in> set (objects ((A(i := a1)) j))"
    then have "z \<in> all_objects A"
      using j i ob by (auto simp: all_objects_def object_set_def split: if_splits simp del: objects_simps)
    then show "new_body md x i m1 z = SET_STORAGE_CLASS m1 x (class_of md) z \<and>
        new_body md x i m1 (z + 8) = SET_STORAGE_CLASS m1 x (class_of md) (z + 8)"
      using new_body_headers [OF d(1,4) i x] by blast
  qed
qed

lemma take_object_rep:
  assumes hr: "heap_rep (\<lambda>_. P) s A" and i: "i \<in> group_indices" and F: "greens (A i) \<noteq> []"
    and md: "metadata_valid md"
  defines "x \<equiv> hd (greens (A i))"
  obtains s' where "take_object md i s = Inr (s', x + 16)"
    and "heap_rep (\<lambda>_. P) s' (A(i := a_allocate (A i)))"
    and "object_initialised md x i (memory s')"
    and "\<And>a. a \<notin> header_cells (set (objects (A i))) \<Longrightarrow> \<not> in_body x i a \<Longrightarrow> memory s' a = memory s a"
    and "\<And>y. y \<in> all_objects A \<Longrightarrow> y \<noteq> x \<Longrightarrow>
      GET_STORAGE_CLASS (memory s') y = GET_STORAGE_CLASS (memory s) y"
    and "s' = s\<lparr>memory := memory s', groups := groups s'\<rparr>" and "same_pages s s'"
    and "object_set (A(i := a_allocate (A i))) = object_set A"
proof -
  note d = heap_repD [OF hr] and geo = heap_repD(4) [OF hr]
  have x: "x \<in> object_set A i" using F by (simp add: x_def object_set_def)
  have top: "uint x + 2 ^ i \<le> uint (last_partition_ptr s)" by (rule geometryD(3) [OF geo i x])
  have rep: "P (marked_color s) (unmarked_color s) (memory s) (groups s i) (A i)" by (rule d(5) [OF i])
  obtain m1 g1 y where al: "allocate_from_free_list (marked_color s) (memory s) (groups s i) = (m1, g1, y)"
    by (cases "allocate_from_free_list (marked_color s) (memory s) (groups s i)")
  note r = allocate_rep [OF group [OF rep] F d(2) al]
  have y: "y = x" using r(1) by (simp add: x_def)
  have rep1: "P (marked_color s) (unmarked_color s) m1 g1 (a_allocate (A i))"
    by (rule taken [OF d(2) F al rep])
  have lo: "links_only (set (objects (A i))) (memory s) m1" by (rule r(3))
  have gs: "gsize g1 = 2 ^ i" "gindex g1 = i" using r(6,7) d(3) i by (simp_all add: groups_ok_def)
  let ?m = "new_body md x i m1" and ?A = "A(i := a_allocate (A i))"
  define s' where "s' = s\<lparr>memory := ?m, groups := (groups s)(i := g1)\<rparr>"
  have run: "take_object md i s = Inr (s', x + 16)"
    using new_body_eq [OF md gs(1) i, of x m1]
    by (simp add: take_object_def al y s'_def Let_def split: prod.splits)
  have hok: "headers_ok (all_objects A)" by (rule heap_rep_headers_ok(2) [OF hr framed])
  have same: "set (objects (a_allocate (A i))) = set (objects (A i))"
    using r(4) F by (simp add: objects_def a_allocate_def del: objects_simps)
  have sp: "same_pages s s'" using gs d(3) i by (simp add: same_pages_def s'_def groups_ok_def)
  note f = same_pages_facts [OF sp]
  have obs: "object_set ?A = object_set A" using same by (auto simp: object_set_def fun_eq_iff simp del: objects_simps)
  have rep': "heap_rep (\<lambda>_. P) s' ?A"
    unfolding heap_rep_def
  proof (intro conjI ballI)
    show "layout_ok s'" "groups_ok s'" using d(1,3) f by simp_all
    show "colors_ok (marked_color s') (unmarked_color s')" using d(2) by (simp add: s'_def)
    show "geometry s' (object_set ?A)" unfolding obs f(5) by (rule geo)
    fix j assume "j \<in> group_indices"
    from new_body_rep [OF hr i x lo rep1 same this]
    show "P (marked_color s') (unmarked_color s') (memory s') (groups s' j) (?A j)" by (simp add: s'_def)
  qed
  have fr: "memory s' a = memory s a" if a: "a \<notin> header_cells (set (objects (A i)))" "\<not> in_body x i a" for a
  proof -
    have "x \<in> set (objects (A i))" using x by (simp only: object_set_def)
    then have "a \<noteq> x + 8" using a(1) by (auto simp: header_cells_def)
    then have "?m a = m1 a" using new_body_outside [OF d(1) i top a(2)] by (simp add: SET_STORAGE_CLASS_def)
    also have "\<dots> = memory s a" by (rule links_only_cell [OF lo a(1)])
    finally show ?thesis by (simp add: s'_def)
  qed
  have xo: "x \<in> all_objects A" using x i by (auto simp: all_objects_def)
  have sc: "GET_STORAGE_CLASS (memory s') z = (if z = x then class_of md else GET_STORAGE_CLASS (memory s) z)"
    if z: "z \<in> all_objects A" for z
    using new_body_class [OF d(1) geo i x z headers_okD(2) [OF hok xo] headers_okD(2) [OF hok z]]
      links_only_storage_class [OF lo headers_okD(2) [OF hok z]] by (simp add: s'_def)
  have "object_initialised md x i (memory s')"
    unfolding object_initialised_def
    using sc [OF xo] new_body_inside [OF d(1) i top] by (auto simp: s'_def)
  then show thesis
    using that [OF run rep' _ fr _ _ sp obs] sc by (simp add: s'_def)
qed

end

interpretation idle_heap: allocating idle_rep
proof
  show "idle_rep mk um m g a \<Longrightarrow> group_rep mk um m g a" for mk um m g a by (simp add: idle_rep_def)
  show "idle_rep mk um m g a \<Longrightarrow> aligned x \<Longrightarrow> two_bits c \<Longrightarrow> idle_rep mk um (SET_STORAGE_CLASS m x c) g a"
    for mk um m g a x c by (simp add: idle_rep_def group_rep_storage_class)
qed (rule framed_idle_rep allocate_refines(2) idle_rep_cong; assumption)+

interpretation marking_heap: allocating marking_rep
proof
  show "marking_rep mk um m g a \<Longrightarrow> group_rep mk um m g a" for mk um m g a by (simp add: marking_rep_def)
  show "marking_rep mk um m g a \<Longrightarrow> aligned x \<Longrightarrow> two_bits c \<Longrightarrow> marking_rep mk um (SET_STORAGE_CLASS m x c) g a"
    for mk um m g a x c by (simp add: marking_rep_def group_rep_storage_class)
qed (rule framed_marking_rep allocate_refines(1) marking_rep_cong; assumption)+

text \<open>Between collections: the whole heap invariant is kept.\<close>

lemma take_object_refines:
  assumes I: "heap_inv {} s A H" and i: "i \<in> group_indices" and F: "greens (A i) \<noteq> []"
    and md: "metadata_valid md"
  defines "x \<equiv> hd (greens (A i))"
  obtains s' where "take_object md i s = Inr (s', x + 16)"
    and "heap_inv {} s' (A(i := a_allocate (A i))) H"
    and "object_initialised md x i (memory s')"
    and "\<And>a. a \<notin> header_cells (set (objects (A i))) \<Longrightarrow> \<not> in_body x i a \<Longrightarrow> memory s' a = memory s a"
    and "\<And>y. y \<in> all_objects A \<Longrightarrow> y \<noteq> x \<Longrightarrow>
      GET_STORAGE_CLASS (memory s') y = GET_STORAGE_CLASS (memory s) y"
    and "s' = s\<lparr>memory := memory s', groups := groups s'\<rparr>"
proof -
  note d = heap_invD [OF I] and hr = heap_inv_rep [OF I]
  have x: "x \<in> object_set A i" using F by (simp add: x_def object_set_def)
  obtain s' where s': "take_object md i s = Inr (s', x + 16)"
    "heap_rep (\<lambda>_. idle_rep) s' (A(i := a_allocate (A i)))" "object_initialised md x i (memory s')"
    and fr: "\<And>a. a \<notin> header_cells (set (objects (A i))) \<Longrightarrow> \<not> in_body x i a \<Longrightarrow> memory s' a = memory s a"
    and sc: "\<And>y. y \<in> all_objects A \<Longrightarrow> y \<noteq> x \<Longrightarrow>
      GET_STORAGE_CLASS (memory s') y = GET_STORAGE_CLASS (memory s) y"
    and e: "s' = s\<lparr>memory := memory s', groups := groups s'\<rparr>" and sp: "same_pages s s'"
    and obs: "object_set (A(i := a_allocate (A i))) = object_set A"
  proof (rule idle_heap.take_object_rep [OF hr i F md, folded x_def], goal_cases)
    case (1 s')
    show ?case by (rule 1(1)) (fact 1)+
  qed
  have hdr: "header_cells (set (objects (A i))) \<subseteq> header_cells (all_objects A)"
    using i by (auto simp: header_cells_def all_objects_def object_set_def simp del: objects_simps)
  have "heap_inv {} s' (A(i := a_allocate (A i))) H"
  proof (rule heap_inv_after [OF I s'(2) sp])
    show "object_set (A(i := a_allocate (A i))) j = object_set A j" for j by (simp add: obs)
    show "memory s' a = memory s a" if "a \<notin> header_cells (all_objects A)" "a \<notin> Collect (in_body x i)" for a
      using fr that hdr by auto
    have "hole_cells s (fst ` set H) \<subseteq> hole_cells s (groupless s)"
    proof -
      have "fst k \<in> groupless s" if k: "k \<in> set H" for k
      proof -
        have "fst k \<in> hole_pages k" using holes_okD(2) [OF d(7) k] by (simp add: hole_pages_def)
        then have "fst k \<in> empty_page_set s" using holes_okD(6) [OF d(7)] k by blast
        then show ?thesis by (auto simp: empty_page_set_def groupless_def)
      qed
      then show ?thesis by (auto simp: hole_cells_def)
    qed
    then show "Collect (in_body x i) \<inter> hole_cells s (fst ` set H) = {}"
      using body_no_hole [OF I i x] by (auto simp: in_body_def)
  qed
  then show thesis using that [OF s'(1) _ s'(3) fr sc e] by simp
qed

end
