(* ===== verification/Snapshot.thy ===== *)
theory Snapshot
  imports Interleaving
begin

text \<open>
  Why marking is right although the mutators change the graph under it. The invariant is
  that of a snapshot: a word that was in a root or in an object when marking started is
  still in its place, or the object it referred to is safe: not white, or recorded in the
  write vector. The words of a black object and the words the collector has read are safe
  without exception. When the collector finds nothing gray, and then finds nothing in the
  vector, no object that was live at the start is white, whatever the mutators did
  meanwhile.
\<close>

subsection \<open>The invariant\<close>

definition safe :: "rt_state \<Rightarrow> rt_state \<Rightarrow> (nat \<Rightarrow> agroup) \<Rightarrow> addr \<Rightarrow> bool" where
  "safe s0 s A w \<longleftrightarrow> (\<forall>y. ptr_object s0 w = Some y \<longrightarrow> y \<notin> white_set A \<or> recorded s y)"

text \<open>The cells of the snapshot: the roots, and the pointers of the objects that were white.\<close>

definition snapshot_cells :: "rt_state \<Rightarrow> (nat \<Rightarrow> agroup) \<Rightarrow> root_item list \<Rightarrow> addr set" where
  "snapshot_cells s0 A0 rs =
     {a. Root_cell a \<in> set rs} \<union>
     (\<Union>i\<in>group_indices. \<Union>x\<in>set (whites (A0 i)). set (object_cells s0 x (2 ^ i)))"

definition same_heap :: "rt_state \<Rightarrow> (nat \<Rightarrow> agroup) \<Rightarrow> rt_state \<Rightarrow> (nat \<Rightarrow> agroup) \<Rightarrow> bool" where
  "same_heap s0 A0 s A \<longleftrightarrow>
     heap_marking s A \<and> same_pages s0 s \<and> enable_write_barrier s \<and>
     RTwrite_vector_length s = RTwrite_vector_length s0 \<and>
     marked_color s = marked_color s0 \<and> unmarked_color s = unmarked_color s0 \<and>
     object_set A = object_set A0 \<and>
     (\<forall>i\<in>group_indices. set (whites (A i)) \<union> set (grays (A i)) \<subseteq> set (whites (A0 i)) \<and>
        set (greens (A i)) \<subseteq> set (greens (A0 i))) \<and>
     (\<forall>x\<in>white_set A0. GET_STORAGE_CLASS (memory s) x = GET_STORAGE_CLASS (memory s0) x) \<and>
     (\<forall>j b. 0 \<le> j \<longrightarrow> j < RTwrite_vector_length s \<longrightarrow> b < 64 \<longrightarrow> bit (RTwrite_vector s j) b \<longrightarrow>
        slot_ptr s j b \<in> all_objects A0)"

definition words_kept ::
    "rt_state \<Rightarrow> (nat \<Rightarrow> agroup) \<Rightarrow> root_item list \<Rightarrow> rt_state \<Rightarrow> (nat \<Rightarrow> agroup) \<Rightarrow> bool" where
  "words_kept s0 A0 rs s A \<longleftrightarrow>
     (\<forall>a\<in>snapshot_cells s0 A0 rs. memory s a = memory s0 a \<or> safe s0 s A (memory s0 a))"

definition blacks_safe :: "rt_state \<Rightarrow> (nat \<Rightarrow> agroup) \<Rightarrow> rt_state \<Rightarrow> (nat \<Rightarrow> agroup) \<Rightarrow> bool" where
  "blacks_safe s0 A0 s A \<longleftrightarrow>
     (\<forall>i\<in>group_indices. \<forall>x\<in>set (blacks (A i)) \<inter> set (whites (A0 i)).
        \<forall>a\<in>set (object_cells s0 x (2 ^ i)). safe s0 s A (memory s0 a))"

fun barrier_ok ::
    "rt_state \<Rightarrow> (nat \<Rightarrow> agroup) \<Rightarrow> root_item list \<Rightarrow> rt_state \<Rightarrow> (nat \<Rightarrow> agroup) \<Rightarrow> barrier \<Rightarrow> bool" where
  "barrier_ok s0 A0 rs s A Outside = True"
| "barrier_ok s0 A0 rs s A (To_record x lhs rhs) =
     (x \<in> all_objects A0 \<and> lhs \<notin> header_cells (all_objects A0) \<and>
      (lhs \<in> snapshot_cells s0 A0 rs \<longrightarrow>
         safe s0 s A (memory s0 lhs) \<or> ptr_object s0 (memory s0 lhs) = Some x))"
| "barrier_ok s0 A0 rs s A (To_store lhs rhs) =
     (lhs \<notin> header_cells (all_objects A0) \<and>
      (lhs \<in> snapshot_cells s0 A0 rs \<longrightarrow> safe s0 s A (memory s0 lhs)))"

abbreviation start_live :: "hooks \<Rightarrow> rt_state \<Rightarrow> (nat \<Rightarrow> agroup) \<Rightarrow> root_item list \<Rightarrow> addr set" where
  "start_live h s0 A0 rs \<equiv> live h s0 (item_word (memory s0) ` set rs) (white_set A0)"

text \<open>A recorded object whose bit the collector has still to visit.\<close>

definition ahead :: "rt_state \<Rightarrow> int \<Rightarrow> nat list \<Rightarrow> addr \<Rightarrow> bool" where
  "ahead s index bits x \<longleftrightarrow>
     recorded s x \<and> (slot_index s x = index \<and> slot_bit s x \<in> set bits \<or> index < slot_index s x)"

definition roots_safe :: "rt_state \<Rightarrow> root_item list \<Rightarrow> rt_state \<Rightarrow> (nat \<Rightarrow> agroup) \<Rightarrow> bool" where
  "roots_safe s0 rs s A \<longleftrightarrow> (\<forall>r\<in>set rs. safe s0 s A (item_word (memory s0) r))"

fun phase_ok ::
    "hooks \<Rightarrow> rt_state \<Rightarrow> (nat \<Rightarrow> agroup) \<Rightarrow> root_item list \<Rightarrow> rt_state \<Rightarrow> (nat \<Rightarrow> agroup) \<Rightarrow> phase \<Rightarrow> bool"
where
  "phase_ok h s0 A0 rs s A (Scan_roots l) =
     (set l \<subseteq> set rs \<and> (\<forall>r\<in>set rs. r \<in> set l \<or> safe s0 s A (item_word (memory s0) r)))"
| "phase_ok h s0 A0 rs s A (At_group i n) =
     (roots_safe s0 rs s A \<and> 0 \<le> n \<and> MIN_GROUP_INDEX \<le> i \<and>
      (n = 0 \<longrightarrow> (\<forall>j\<in>group_indices. j < i \<longrightarrow> grays (A j) = [])))"
| "phase_ok h s0 A0 rs s A (In_object i n x l) =
     (roots_safe s0 rs s A \<and> 0 \<le> n \<and> i \<in> group_indices \<and> grays (A i) \<noteq> [] \<and> x = last (grays (A i)) \<and>
      set l \<subseteq> set (object_cells s0 x (2 ^ i)) \<and>
      (\<forall>a\<in>set (object_cells s0 x (2 ^ i)). a \<in> set l \<or> safe s0 s A (memory s0 a)))"
| "phase_ok h s0 A0 rs s A (In_vector index bits n) =
     (roots_safe s0 rs s A \<and> 0 \<le> n \<and> - 1 \<le> index \<and> (\<forall>b\<in>set bits. b < 64) \<and>
      (bits \<noteq> [] \<longrightarrow> 0 \<le> index \<and> index < RTwrite_vector_length s0) \<and>
      (n = 0 \<longrightarrow> gray_set A = {} \<and>
         (start_live h s0 A0 rs \<inter> white_set A = {} \<or>
          (\<exists>x\<in>start_live h s0 A0 rs \<inter> white_set A. ahead s index bits x))))"
| "phase_ok h s0 A0 rs s A Marked =
     (roots_safe s0 rs s A \<and> gray_set A = {} \<and> start_live h s0 A0 rs \<inter> white_set A = {})"

definition world_ok ::
    "hooks \<Rightarrow> rt_state \<Rightarrow> (nat \<Rightarrow> agroup) \<Rightarrow> root_item list \<Rightarrow> world \<Rightarrow> (nat \<Rightarrow> agroup) \<Rightarrow> bool" where
  "world_ok h s0 A0 rs c A \<longleftrightarrow>
     same_heap s0 A0 (heap c) A \<and> words_kept s0 A0 rs (heap c) A \<and> blacks_safe s0 A0 (heap c) A \<and>
     (\<forall>t. barrier_ok s0 A0 rs (heap c) A (barrier c t)) \<and> phase_ok h s0 A0 rs (heap c) A (phase c)"

text \<open>
  What marking starts from, after the flip. The roots lie outside the blocks of objects, the
  objects to mark are of the classes NOPOINTERS and POINTERS.
\<close>

definition snapshot_start :: "rt_state \<Rightarrow> (nat \<Rightarrow> agroup) \<Rightarrow> root_item list \<Rightarrow> bool" where
  "snapshot_start s0 A0 rs \<longleftrightarrow>
     heap_marking s0 A0 \<and> enable_write_barrier s0 \<and> barrier_clear s0 \<and>
     RTwrite_vector_length s0 = total_partition_pages s0 * BYTES_PER_PAGE div 2048 \<and>
     (\<forall>i\<in>group_indices. grays (A0 i) = [] \<and> blacks (A0 i) = []) \<and>
     (\<forall>x\<in>all_objects A0. slot_aligned s0 x) \<and>
     (\<forall>x\<in>white_set A0. GET_STORAGE_CLASS (memory s0) x \<in> {SC_NOPOINTERS, SC_POINTERS}) \<and>
     (\<forall>a. Root_cell a \<in> set rs \<longrightarrow>
        (\<forall>i\<in>group_indices. \<forall>x\<in>object_set A0 i. uint a < uint x \<or> uint x + 2 ^ i \<le> uint a))"

subsection \<open>Steps that keep what is safe\<close>

text \<open>
  Every step keeps the heap and lets the white objects only become fewer; what it takes out
  of the vector is no longer white.
\<close>

definition onward :: "rt_state \<Rightarrow> (nat \<Rightarrow> agroup) \<Rightarrow> rt_state \<Rightarrow> (nat \<Rightarrow> agroup) \<Rightarrow> bool" where
  "onward s A s' A' \<longleftrightarrow>
     white_set A' \<subseteq> white_set A \<and> (\<forall>y\<in>white_set A'. recorded s y \<longrightarrow> recorded s' y)"

lemma onward_refl [simp]: "onward s A s A"
  by (simp add: onward_def)

lemma safe_onward: "safe s0 s A w \<Longrightarrow> onward s A s' A' \<Longrightarrow> safe s0 s' A' w"
  by (auto simp: safe_def onward_def)

lemma roots_safe_onward: "roots_safe s0 rs s A \<Longrightarrow> onward s A s' A' \<Longrightarrow> roots_safe s0 rs s' A'"
  by (auto simp: roots_safe_def intro: safe_onward)

lemma barrier_ok_onward:
  "barrier_ok s0 A0 rs s A b \<Longrightarrow> onward s A s' A' \<Longrightarrow> barrier_ok s0 A0 rs s' A' b"
  by (cases b) (auto intro: safe_onward)

lemma words_kept_onward:
  assumes "words_kept s0 A0 rs s A" and "onward s A s' A'"
    and "\<And>a. a \<in> snapshot_cells s0 A0 rs \<Longrightarrow> memory s' a = memory s a \<or> safe s0 s' A' (memory s0 a)"
  shows "words_kept s0 A0 rs s' A'"
  unfolding words_kept_def
proof
  fix a assume a: "a \<in> snapshot_cells s0 A0 rs"
  then have "memory s a = memory s0 a \<or> safe s0 s A (memory s0 a)" using assms(1) by (simp add: words_kept_def)
  then show "memory s' a = memory s0 a \<or> safe s0 s' A' (memory s0 a)"
    using assms(3) [OF a] safe_onward [OF _ assms(2)] by auto
qed

lemma blacks_safe_onward:
  assumes "blacks_safe s0 A0 s A" and "onward s A s' A'"
    and "\<And>i x. i \<in> group_indices \<Longrightarrow> x \<in> set (blacks (A' i)) \<Longrightarrow> x \<in> set (whites (A0 i)) \<Longrightarrow>
      x \<in> set (blacks (A i)) \<or> (\<forall>a\<in>set (object_cells s0 x (2 ^ i)). safe s0 s' A' (memory s0 a))"
  shows "blacks_safe s0 A0 s' A'"
  unfolding blacks_safe_def
proof (intro ballI)
  fix i x a assume i: "i \<in> group_indices" and x: "x \<in> set (blacks (A' i)) \<inter> set (whites (A0 i))"
    and a: "a \<in> set (object_cells s0 x (2 ^ i))"
  have "safe s0 s A (memory s0 a)" if "x \<in> set (blacks (A i))"
    using assms(1) that x i a by (auto simp: blacks_safe_def)
  then show "safe s0 s' A' (memory s0 a)" using assms(3) [OF i, of x] x a safe_onward [OF _ assms(2)] by blast
qed

text \<open>What a mutator does leaves the gray and white objects and the recorded ones.\<close>

lemma phase_ok_mutator:
  assumes ph: "phase_ok h s0 A0 rs s A p"
    and w: "\<And>i. i \<in> group_indices \<Longrightarrow> whites (A' i) = whites (A i) \<and> grays (A' i) = grays (A i)"
    and r: "\<And>y. y \<in> white_set A \<Longrightarrow> recorded s y \<Longrightarrow> recorded s' y"
    and f: "first_partition_ptr s' = first_partition_ptr s"
  shows "phase_ok h s0 A0 rs s' A' p"
proof -
  have ws: "white_set A' = white_set A" "gray_set A' = gray_set A"
    using w by (auto simp: white_set_def gray_set_def)
  have on: "onward s A s' A'" using r by (simp add: onward_def ws)
  note rs = roots_safe_onward [OF _ on] and sf = safe_onward [OF _ on]
  have ah: "ahead s' index bits x" if "ahead s index bits x" "x \<in> white_set A" for index bits x
    using that r slot_frame [OF f] by (auto simp: ahead_def)
  show ?thesis
  proof (cases p)
    case (Scan_roots l)
    then show ?thesis using ph sf by auto
  next
    case (At_group i n)
    then show ?thesis using ph rs w by auto
  next
    case (In_object i n x l)
    then show ?thesis using ph rs w sf by auto
  next
    case (In_vector index bits n)
    have "\<exists>x\<in>start_live h s0 A0 rs \<inter> white_set A. ahead s' index bits x"
      if "\<exists>x\<in>start_live h s0 A0 rs \<inter> white_set A. ahead s index bits x"
      using that ah by blast
    then show ?thesis using ph rs In_vector by (simp add: ws del: Int_iff) blast
  next
    case Marked
    then show ?thesis using ph rs by (simp add: ws)
  qed
qed

end
