(* ===== verification/Snapshot_Steps.thy ===== *)
theory Snapshot_Steps
  imports Snapshot
begin

text \<open>Every step of the collector and of a mutator keeps the snapshot invariant.\<close>

subsection \<open>The start\<close>

lemma snapshot_startD:
  assumes "snapshot_start s0 A0 rs"
  shows "heap_marking s0 A0" "enable_write_barrier s0" "barrier_clear s0"
    "RTwrite_vector_length s0 = total_partition_pages s0 * BYTES_PER_PAGE div 2048"
    "i \<in> group_indices \<Longrightarrow> grays (A0 i) = []" "i \<in> group_indices \<Longrightarrow> blacks (A0 i) = []"
    "x \<in> all_objects A0 \<Longrightarrow> slot_aligned s0 x"
    "x \<in> white_set A0 \<Longrightarrow> GET_STORAGE_CLASS (memory s0) x \<in> {SC_NOPOINTERS, SC_POINTERS}"
    "Root_cell a \<in> set rs \<Longrightarrow> i \<in> group_indices \<Longrightarrow> x \<in> object_set A0 i \<Longrightarrow>
      uint a < uint x \<or> uint x + 2 ^ i \<le> uint a"
  using assms by (auto simp: snapshot_start_def)

lemma white_object: "i \<in> group_indices \<Longrightarrow> x \<in> set (whites (A i)) \<Longrightarrow> x \<in> object_set A i"
  by (simp add: object_set_def)

lemma white_set_objects: "white_set A \<subseteq> all_objects A"
  by (auto simp: white_set_def all_objects_def object_set_def)

lemma object_cells_body:
  assumes lay: "layout_ok s" and geo: "geometry s Ob" and i: "i \<in> group_indices" and x: "x \<in> Ob i"
    and a: "a \<in> set (object_cells s' x (2 ^ i))"
  shows "in_body x i a"
proof -
  have "a \<in> set (cells (segment_length (x + word_of_int SIZEOF_GC_HEADER) (x + word_of_int (2 ^ i)))
      (x + word_of_int SIZEOF_GC_HEADER))"
  proof (cases "GET_STORAGE_CLASS (memory s') x = SC_POINTERS")
    case True
    show ?thesis using a unfolding object_cells_def Let_def if_P [OF True] .
  next
    case False
    show ?thesis using a unfolding object_cells_def Let_def if_not_P [OF False] by simp
  qed
  from body_cells_uint(2) [OF lay geo i x this] show ?thesis by (simp add: in_body_def)
qed

lemma snapshot_cell_cases:
  assumes S: "snapshot_start s0 A0 rs" and a: "a \<in> snapshot_cells s0 A0 rs"
  shows "a \<notin> header_cells (all_objects A0)"
    and "i \<in> group_indices \<Longrightarrow> x \<in> set (greens (A0 i)) \<Longrightarrow> \<not> in_body x i a"
proof -
  note d = snapshot_startD [OF S] and r = heap_repD [OF d(1)]
  have hdr: "uint (y + 8) = uint y + 8" "uint y + 16 \<le> uint y + 2 ^ j" if "j \<in> group_indices" "y \<in> object_set A0 j" for j y
  proof -
    have "uint y + 2 ^ j \<le> 2 ^ 47" using geometryD(3) [OF r(4) that] r(1) by (simp add: layout_ok_def)
    moreover have "32 \<le> (2 :: int) ^ j" by (rule group_indices_bounds(1) [OF that(1)])
    ultimately show "uint (y + 8) = uint y + 8" "uint y + 16 \<le> uint y + 2 ^ j"
      by (simp_all add: uint_plus_8)
  qed
  show "a \<notin> header_cells (all_objects A0)"
  proof (cases "Root_cell a \<in> set rs")
    case True
    then show ?thesis using d(9) hdr by (fastforce simp: header_cells_def all_objects_def)
  next
    case False
    then obtain i x where x: "i \<in> group_indices" "x \<in> set (whites (A0 i))" "a \<in> set (object_cells s0 x (2 ^ i))"
      using a by (auto simp: snapshot_cells_def)
    show ?thesis
      using body_not_header [OF r(1) r(4) x(1) white_object [where A = A0, OF x(1,2)], of a]
        object_cells_body [OF r(1,4) x(1) white_object [where A = A0, OF x(1,2)] x(3)]
      by (simp add: in_body_def all_objects_def)
  qed
  assume i: "i \<in> group_indices" and x: "x \<in> set (greens (A0 i))"
  have xo: "x \<in> object_set A0 i" using x by (simp add: object_set_def)
  show "\<not> in_body x i a"
  proof (cases "Root_cell a \<in> set rs")
    case True
    then show ?thesis using d(9) [OF True i xo] by (auto simp: in_body_def)
  next
    case False
    then obtain j y where y: "j \<in> group_indices" "y \<in> set (whites (A0 j))" "a \<in> set (object_cells s0 y (2 ^ j))"
      using a by (auto simp: snapshot_cells_def)
    note yb = object_cells_body [OF r(1,4) y(1) white_object [where A = A0, OF y(1,2)] y(3)]
    have "x \<noteq> y"
    proof
      assume "x = y"
      then have "i = j" using geometry_group_unique [OF r(4) i y(1) xo] white_object [where A = A0, OF y(1,2)] by simp
      moreover have "distinct (objects (A0 i))" using r(5) [OF i] by (auto simp: marking_rep_def dest: group_repD(2))
      ultimately show False using x y(2) \<open>x = y\<close> by (auto simp: objects_def active_def)
    qed
    then show ?thesis
      using geometryD(6) [OF r(4) i y(1) xo white_object [where A = A0, OF y(1,2)]] yb by (auto simp: in_body_def)
  qed
qed

lemma same_heapD:
  assumes "same_heap s0 A0 s A"
  shows "heap_marking s A" "same_pages s0 s" "enable_write_barrier s"
    "RTwrite_vector_length s = RTwrite_vector_length s0"
    "marked_color s = marked_color s0" "unmarked_color s = unmarked_color s0"
    "object_set A = object_set A0"
    "i \<in> group_indices \<Longrightarrow> set (whites (A i)) \<subseteq> set (whites (A0 i))"
    "i \<in> group_indices \<Longrightarrow> set (grays (A i)) \<subseteq> set (whites (A0 i))"
    "i \<in> group_indices \<Longrightarrow> set (greens (A i)) \<subseteq> set (greens (A0 i))"
    "x \<in> white_set A0 \<Longrightarrow> GET_STORAGE_CLASS (memory s) x = GET_STORAGE_CLASS (memory s0) x"
    "0 \<le> j \<Longrightarrow> j < RTwrite_vector_length s \<Longrightarrow> b < 64 \<Longrightarrow> bit (RTwrite_vector s j) b \<Longrightarrow>
        slot_ptr s j b \<in> all_objects A0"
    "all_objects A = all_objects A0" "ptr_object s = ptr_object s0"
    "first_partition_ptr s = first_partition_ptr s0"
proof -
  show "all_objects A = all_objects A0" using assms by (simp add: same_heap_def all_objects_def)
  show "ptr_object s = ptr_object s0" using assms same_pages_facts(8) by (auto simp: same_heap_def fun_eq_iff)
  show "first_partition_ptr s = first_partition_ptr s0" using assms by (simp add: same_heap_def same_pages_def)
qed (use assms in \<open>auto simp: same_heap_def\<close>)

lemma same_heap_white: "same_heap s0 A0 s A \<Longrightarrow> white_set A \<subseteq> white_set A0"
  using same_heapD(8) by (fastforce simp: white_set_def)

lemma same_heap_cells:
  assumes H: "same_heap s0 A0 s A" and x: "x \<in> white_set A0"
  shows "object_cells s x n = object_cells s0 x n"
  by (simp add: object_cells_def same_heapD(11) [OF H x])

lemma recorded_slot:
  assumes S: "snapshot_start s0 A0 rs" and H: "same_heap s0 A0 s A" and x: "x \<in> all_objects A0"
  shows "0 \<le> slot_index s x" "slot_index s x < RTwrite_vector_length s" "slot_ptr s (slot_index s x) (slot_bit s x) = x"
    "slot_aligned s x"
proof -
  note d = snapshot_startD [OF S] and e = same_heapD [OF H]
  note f = slot_frame [OF e(15)]
  have p: "IN_PARTITION s0 x" using x geometryD(1) [OF heap_repD(4) [OF d(1)]] by (auto simp: all_objects_def)
  note b = slot_index_bounds [OF heap_repD(1) [OF d(1)] p d(4)]
  show "0 \<le> slot_index s x" "slot_index s x < RTwrite_vector_length s" using b f e(4) by simp_all
  show "slot_aligned s x" using d(7) [OF x] f by simp
  then show "slot_ptr s (slot_index s x) (slot_bit s x) = x" by (rule slot_ptr_roundtrip)
qed

subsection \<open>Tracing and turning black\<close>

lemma vector_frameD:
  assumes "vector_frame Ob s s'"
  shows "same_pages s s'" "enable_write_barrier s' = enable_write_barrier s"
    "RTwrite_vector_length s' = RTwrite_vector_length s" "marked_color s' = marked_color s"
    "unmarked_color s' = unmarked_color s" "a \<notin> header_cells Ob \<Longrightarrow> memory s' a = memory s a"
    "aligned x \<Longrightarrow> GET_STORAGE_CLASS (memory s') x = GET_STORAGE_CLASS (memory s) x"
proof -
  let ?s = "s\<lparr>RTwrite_vector := RTwrite_vector s'\<rparr>"
  have g: "gc_frame Ob ?s s'" using assms by (simp add: vector_frame_def)
  show "same_pages s s'" using gc_frame_same_pages [OF g] by (simp add: same_pages_def)
  show "enable_write_barrier s' = enable_write_barrier s" "marked_color s' = marked_color s"
    "RTwrite_vector_length s' = RTwrite_vector_length s" "unmarked_color s' = unmarked_color s"
    using gc_frame_fields [OF g] by simp_all
  have lo: "links_only Ob (memory s) (memory s')" using g by (simp add: gc_frame_def)
  show "a \<notin> header_cells Ob \<Longrightarrow> memory s' a = memory s a" by (rule links_only_cell [OF lo])
  show "aligned x \<Longrightarrow> GET_STORAGE_CLASS (memory s') x = GET_STORAGE_CLASS (memory s) x"
    by (rule links_only_storage_class [OF lo])
qed

lemma heap_marking_aligned:
  assumes "heap_marking s A" and "x \<in> all_objects A"
  shows "aligned x" and "x \<noteq> 0"
  using heap_rep_headers_ok(2) [OF assms(1) framed_marking_rep] assms(2) by (auto dest: headers_okD)

lemma heap_marking_distinct:
  assumes "heap_marking s A" and "i \<in> group_indices"
  shows "distinct (objects (A i))"
  using heap_repD(5) [OF assms] by (auto simp: marking_rep_def dest: group_repD(2))

lemma same_heap_frame:
  assumes H: "same_heap s0 A0 s A" and v: "vector_frame (all_objects A) s s'" and rep: "heap_marking s' A'"
    and ob: "object_set A' = object_set A"
    and w: "\<And>i. i \<in> group_indices \<Longrightarrow>
      set (whites (A' i)) \<union> set (grays (A' i)) \<subseteq> set (whites (A i)) \<union> set (grays (A i)) \<and>
      greens (A' i) = greens (A i)"
    and b: "\<And>j b. bit (RTwrite_vector s' j) b \<Longrightarrow> bit (RTwrite_vector s j) b"
  shows "same_heap s0 A0 s' A'"
proof -
  note e = same_heapD [OF H] and f = vector_frameD [OF v]
  have sp: "slot_ptr s' = slot_ptr s"
    using slot_frame(3) [of s' s] f(1) by (auto simp: same_pages_def fun_eq_iff)
  have "GET_STORAGE_CLASS (memory s') x = GET_STORAGE_CLASS (memory s) x" if "x \<in> white_set A0" for x
    using that white_set_objects [of A0] heap_marking_aligned(1) [OF e(1)] e(13) by (intro f(7)) auto
  moreover have "set (whites (A' i)) \<union> set (grays (A' i)) \<subseteq> set (whites (A0 i))" "greens (A' i) = greens (A i)"
    if i: "i \<in> group_indices" for i
    using w [OF i] e(8,9) [OF i] by blast+
  moreover have "slot_ptr s' j b \<in> all_objects A0"
    if "0 \<le> j" "j < RTwrite_vector_length s'" "b < 64" "bit (RTwrite_vector s' j) b" for j b
    using that e(12) [of j b] assms(6) [of j b] f(3) sp by simp
  ultimately show ?thesis
    unfolding same_heap_def using rep ob e(2-7,10,11) f(2-5) same_pages_trans [OF e(2) f(1)]
    by auto
qed

text \<open>Making an object gray, as the collector does it on a traced word or on a recorded bit.\<close>

lemma gray_lists:
  assumes rep: "heap_marking s A"
  shows "white_set (a_gray x A) = white_set A - {x}"
    and "i \<in> group_indices \<Longrightarrow> set (whites (a_gray x A i)) \<union> set (grays (a_gray x A i)) =
      set (whites (A i)) \<union> set (grays (A i))"
    and "greens (a_gray x A i) = greens (A i)" and "blacks (a_gray x A i) = blacks (A i)"
    and "\<exists>pre. grays (a_gray x A i) = pre @ grays (A i)"
proof -
  have d: "distinct (whites (A i))" if "i \<in> group_indices" for i
    using heap_marking_distinct [OF rep that] by (simp add: objects_def)
  show "white_set (a_gray x A) = white_set A - {x}" by (rule a_gray_sets(1) [OF d])
  show "greens (a_gray x A i) = greens (A i)" "blacks (a_gray x A i) = blacks (A i)"
    "\<exists>pre. grays (a_gray x A i) = pre @ grays (A i)"
    by (simp_all add: a_gray_def)
  show "set (whites (a_gray x A i)) \<union> set (grays (a_gray x A i)) = set (whites (A i)) \<union> set (grays (A i))"
    if "i \<in> group_indices"
    using d [OF that] by (auto simp: a_gray_def)
qed

lemma trace_step:
  assumes H: "same_heap s0 A0 s A"
  obtains s' A' where "RTtrace_pointer w s = Inr s'" and "same_heap s0 A0 s' A'" and "onward s A s' A'"
    and "safe s0 s' A' w" and "\<And>a. a \<notin> header_cells (all_objects A0) \<Longrightarrow> memory s' a = memory s a"
    and "\<And>i. blacks (A' i) = blacks (A i)" and "\<And>i. \<exists>pre. grays (A' i) = pre @ grays (A i)"
    and "unscanned A' = unscanned A" and "RTwrite_vector s' = RTwrite_vector s"
proof -
  note e = same_heapD [OF H]
  let ?A = "a_trace (ptr_object s0 w) A"
  obtain s' where s': "RTtrace_pointer w s = Inr s'" "heap_marking s' ?A" "gc_frame (all_objects A) s s'"
    using RTtrace_pointer_refines [OF e(1), of w] e(14) by auto
  have v: "RTwrite_vector s' = RTwrite_vector s" by (rule gc_frame_fields(17) [OF s'(3)])
  note vf = gc_frame_vector_frame [OF s'(3)]
  have rec: "recorded s' y = recorded s y" for y
    using slot_frame [OF vector_frame_first [OF vf]] v by (simp add: recorded_def)
  note g = gray_lists [OF e(1)]
  have A: "white_set ?A \<subseteq> white_set A" "greens (?A i) = greens (A i)" "blacks (?A i) = blacks (A i)"
    "\<exists>pre. grays (?A i) = pre @ grays (A i)" "safe s0 s' ?A w"
    "j \<in> group_indices \<Longrightarrow> set (whites (?A j)) \<union> set (grays (?A j)) = set (whites (A j)) \<union> set (grays (A j))" for i j
    using g by (cases "ptr_object s0 w"; auto simp: a_trace_def safe_def)+
  have "same_heap s0 A0 s' ?A"
    using A(2,6) v by (intro same_heap_frame [OF H vf s'(2)]) auto
  moreover have "onward s A s' ?A" using A(1) rec by (simp add: onward_def)
  ultimately show thesis
    using that [OF s'(1)] A(3,4,5) vector_frameD(6) [OF vf] e(13) v unscanned_a_trace_all [of s0 "[w]" A] by simp
qed

lemma vector_step:
  assumes S: "snapshot_start s0 A0 rs" and H: "same_heap s0 A0 s A" and j: "0 \<le> j" "j < RTwrite_vector_length s" and b: "b < 64"
  obtains s' A' where
      "scan_write_bit j b (s, n) = Inr (s', n + (if bit (RTwrite_vector s j) b then 1 else 0))"
    and "same_heap s0 A0 s' A'" and "onward s A s' A'"
    and "\<And>a. a \<notin> header_cells (all_objects A0) \<Longrightarrow> memory s' a = memory s a"
    and "\<And>i. blacks (A' i) = blacks (A i)" and "\<not> bit (RTwrite_vector s j) b \<Longrightarrow> A' = A"
    and "\<And>x. recorded s' x = (recorded s x \<and> \<not> (slot_index s x = j \<and> slot_bit s x = b))"
    and "unscanned A' = unscanned A"
    and "\<And>k c. bit (RTwrite_vector s' k) c \<longleftrightarrow> bit (RTwrite_vector s k) c \<and> \<not> (k = j \<and> c = b)"
proof -
  note e = same_heapD [OF H]
  let ?set = "bit (RTwrite_vector s j) b" and ?x = "slot_ptr s j b"
  let ?A = "if ?set then a_gray ?x A else A"
  have o: "?x \<in> all_objects A" if ?set using e(12) [OF j b that] e(13) by simp
  obtain s' where s': "scan_write_bit j b (s, n) = Inr (s', n + (if ?set then 1 else 0))"
      "heap_marking s' ?A" "vector_frame (all_objects A) s s'"
      "\<forall>k. k \<noteq> j \<longrightarrow> RTwrite_vector s' k = RTwrite_vector s k"
      "\<forall>c. bit (RTwrite_vector s' j) c \<longleftrightarrow> bit (RTwrite_vector s j) c \<and> c \<noteq> b"
    using scan_write_bit_refines [OF e(1) b o, of n] by blast
  note fr = slot_frame [OF vector_frame_first [OF s'(3)]]
  have rec: "recorded s' x = (recorded s x \<and> \<not> (slot_index s x = j \<and> slot_bit s x = b))" for x
    using s'(4,5) fr by (cases "slot_index s x = j") (auto simp: recorded_def)
  note g = gray_lists [OF e(1)]
  have "same_heap s0 A0 s' ?A"
  proof (rule same_heap_frame [OF H s'(3,2)])
    show "bit (RTwrite_vector s' k) c \<Longrightarrow> bit (RTwrite_vector s k) c" for k c
      using s'(4,5) by (cases "k = j") auto
  qed (use g(2,3) in auto)
  moreover have "onward s A s' ?A"
  proof -
    have "recorded s' y" if y: "y \<in> white_set ?A" "recorded s y" for y
    proof -
      have "y \<noteq> ?x" if ?set using y(1) g(1) that by auto
      moreover have "y \<in> white_set A0" using y(1) g(1) same_heap_white [OF H] by (auto split: if_splits)
      moreover from this have "slot_ptr s (slot_index s y) (slot_bit s y) = y"
        using recorded_slot(3) [OF S H] white_set_objects [of A0] by blast
      ultimately show ?thesis
        using y(2) rec [of y] by (auto simp: recorded_def)
    qed
    then show ?thesis using g(1) by (auto simp: onward_def)
  qed
  moreover have "bit (RTwrite_vector s' k) c \<longleftrightarrow> bit (RTwrite_vector s k) c \<and> \<not> (k = j \<and> c = b)" for k c
    using s'(4,5) by (cases "k = j") auto
  ultimately show thesis
    using that [OF s'(1)] g(4) rec vector_frameD(6) [OF s'(3)] e(13) by simp
qed

lemma blacken_step:
  assumes H: "same_heap s0 A0 s A" and i: "i \<in> group_indices" and ne: "grays (A i) \<noteq> []"
  defines "x \<equiv> last (grays (A i))"
  obtains s' where "on_group i (\<lambda>m g. Inr (blacken_object (marked_color s) m g x)) s = Inr s'"
    and "same_heap s0 A0 s' (A(i := a_blacken (A i)))" and "onward s A s' (A(i := a_blacken (A i)))"
    and "\<And>a. a \<notin> header_cells (all_objects A0) \<Longrightarrow> memory s' a = memory s a"
    and "unscanned A = Suc (unscanned (A(i := a_blacken (A i))))" and "RTwrite_vector s' = RTwrite_vector s"
proof -
  note e = same_heapD [OF H] and r = heap_repD [OF same_heapD(1) [OF H]]
  let ?A = "A(i := a_blacken (A i))"
  obtain m' g' where b: "blacken_object (marked_color s) (memory s) (groups s i) x = (m', g')"
    by (cases "blacken_object (marked_color s) (memory s) (groups s i) x")
  note bl = blacken_object_refines [OF r(5) [OF i] ne r(2) b [unfolded x_def]]
  obtain s' where s': "on_group i (\<lambda>m g. Inr (blacken_object (marked_color s) m g x)) s = Inr s'"
      "heap_rep ((\<lambda>_. marking_rep)(i := marking_rep)) s' ?A" "gc_frame (object_set A i) s s'"
    by (rule on_group_refines [OF e(1) framed_marking_rep i, where f = "\<lambda>m g. Inr (blacken_object (marked_color s) m g x)"
          and Q = marking_rep and a' = "a_blacken (A i)" and m' = m' and g' = g'])
      (use b bl objects_a_blacken [OF ne] in \<open>simp_all del: objects_simps\<close>)
  have rep: "heap_marking s' ?A" using s'(2) by (simp add: heap_marking_update)
  have gf: "gc_frame (all_objects A) s s'"
    by (rule gc_frame_mono [OF s'(3)]) (use i in \<open>auto simp: all_objects_def\<close>)
  have v: "RTwrite_vector s' = RTwrite_vector s" by (rule gc_frame_fields(17) [OF gf])
  note vf = gc_frame_vector_frame [OF gf]
  have rec: "recorded s' y = recorded s y" for y
    using slot_frame [OF vector_frame_first [OF vf]] v by (simp add: recorded_def)
  have "whites (?A j) = whites (A j)" for j by simp
  then have w: "white_set ?A = white_set A" unfolding white_set_def by presburger
  have "same_heap s0 A0 s' ?A"
  proof (rule same_heap_frame [OF H vf rep])
    show "object_set ?A = object_set A"
      using objects_a_blacken [OF ne] by (auto simp: object_set_def fun_eq_iff simp del: objects_simps)
    show "set (whites (?A j)) \<union> set (grays (?A j)) \<subseteq> set (whites (A j)) \<union> set (grays (A j)) \<and>
        greens (?A j) = greens (A j)" for j
      by (auto dest: in_set_butlastD)
  qed (simp add: v)
  moreover have "onward s A s' ?A" using rec by (simp add: onward_def w)
  ultimately show thesis
    using that [OF s'(1)] vector_frameD(6) [OF vf] e(13) v unscanned_blacken [where A = A, OF i ne] by simp
qed

lemma scan_current_eq:
  assumes "heap_marking s A" and "i \<in> group_indices"
  shows "scan_current s i = last_or 0 (grays (A i))"
  using scan_start [OF heap_repD(5) [OF assms] heap_repD(2) [OF assms(1)]]
  by (simp add: scan_current_def Let_def)

lemma scan_current_0:
  assumes "heap_marking s A" and "i \<in> group_indices"
  shows "scan_current s i = 0 \<longleftrightarrow> grays (A i) = []"
    and "grays (A i) \<noteq> [] \<Longrightarrow> scan_current s i = last (grays (A i))"
proof -
  have "last (grays (A i)) \<noteq> 0" if "grays (A i) \<noteq> []"
  proof -
    have "last (grays (A i)) \<in> all_objects A"
      using last_in_set [OF that] assms(2) by (auto simp: all_objects_def object_set_def simp del: last_in_set)
    then show ?thesis by (rule heap_marking_aligned(2) [OF assms(1)])
  qed
  then show "scan_current s i = 0 \<longleftrightarrow> grays (A i) = []"
    and "grays (A i) \<noteq> [] \<Longrightarrow> scan_current s i = last (grays (A i))"
    unfolding scan_current_eq [OF assms] by (cases "grays (A i)"; simp add: last_or_def)+
qed

subsection \<open>The collector\<close>

lemma world_okD:
  assumes "world_ok h s0 A0 rs c A"
  shows "same_heap s0 A0 (heap c) A" "words_kept s0 A0 rs (heap c) A" "blacks_safe s0 A0 (heap c) A"
    "barrier_ok s0 A0 rs (heap c) A (barrier c t)" "phase_ok h s0 A0 rs (heap c) A (phase c)"
  using assms by (simp_all add: world_ok_def)

lemma world_ok_phase:
  assumes "world_ok h s0 A0 rs c A" and "phase_ok h s0 A0 rs (heap c) A p"
  shows "world_ok h s0 A0 rs (c\<lparr>phase := p\<rparr>) A"
  using assms by (simp add: world_ok_def)

lemma world_ok_heap:
  assumes S: "snapshot_start s0 A0 rs" and W: "world_ok h s0 A0 rs c A"
    and H: "same_heap s0 A0 s' A'" and on: "onward (heap c) A s' A'"
    and m: "\<And>a. a \<notin> header_cells (all_objects A0) \<Longrightarrow> memory s' a = memory (heap c) a"
    and b: "\<And>i x. i \<in> group_indices \<Longrightarrow> x \<in> set (blacks (A' i)) \<Longrightarrow> x \<in> set (whites (A0 i)) \<Longrightarrow>
      x \<in> set (blacks (A i)) \<or> (\<forall>a\<in>set (object_cells s0 x (2 ^ i)). safe s0 s' A' (memory s0 a))"
    and p: "phase_ok h s0 A0 rs s' A' p"
  shows "world_ok h s0 A0 rs (c\<lparr>heap := s', phase := p\<rparr>) A'"
proof -
  note d = world_okD [OF W]
  have "words_kept s0 A0 rs s' A'"
    using snapshot_cell_cases(1) [OF S] m by (intro words_kept_onward [OF d(2) on]) blast
  moreover have "blacks_safe s0 A0 s' A'" by (rule blacks_safe_onward [OF d(3) on b])
  ultimately show ?thesis
    using H p barrier_ok_onward [OF d(4) on] by (simp add: world_ok_def)
qed

text \<open>What is kept or safe can be traced: afterwards it is safe.\<close>

lemma kept_word_safe:
  assumes "words_kept s0 A0 rs s A" and "a \<in> snapshot_cells s0 A0 rs"
    and "onward s A s' A'" and "safe s0 s' A' (memory s a)"
  shows "safe s0 s' A' (memory s0 a)"
  using assms safe_onward by (fastforce simp: words_kept_def)

end
