(* ===== verification/Snapshot_Safety.thy ===== *)
theory Snapshot_Safety
  imports Snapshot_Steps
begin

text \<open>
  The snapshot invariant holds in every reachable world, the collector never gets stuck, and
  when it has left the marking loop every object that was live at the start is black.
\<close>

subsection \<open>Nothing gray\<close>

lemma plain_words:
  assumes S: "snapshot_start s0 A0 rs" and i: "i \<in> group_indices" and x: "x \<in> set (whites (A0 i))"
  shows "words_of h s0 x = map (memory s0) (object_cells s0 x (2 ^ i))"
proof -
  note d = snapshot_startD [OF S] and r = heap_repD [OF snapshot_startD(1) [OF S]]
  have "words_of h s0 x = object_words h (memory s0) x (2 ^ i)"
    by (rule words_of_eq [OF r(4,3) i white_object [where A = A0, OF i x]])
  moreover have "GET_STORAGE_CLASS (memory s0) x \<in> {SC_NOPOINTERS, SC_POINTERS}"
    using x i by (intro d(8)) (auto simp: white_set_def)
  ultimately show ?thesis
    by (auto simp: object_words_def object_cells_def segment_words_def Let_def sc_defs)
qed

text \<open>
  If nothing is gray, a live object that is still white has been recorded: the first white
  object on a path from a root.
\<close>

lemma live_white_recorded:
  assumes S: "snapshot_start s0 A0 rs" and W: "world_ok h s0 A0 rs c A"
    and r: "roots_safe s0 rs (heap c) A" and g: "gray_set A = {}"
  shows "start_live h s0 A0 rs \<inter> white_set A = {} \<or>
    (\<exists>x\<in>start_live h s0 A0 rs \<inter> white_set A. recorded (heap c) x)"
proof (rule ccontr)
  assume no: "\<not> ?thesis"
  note d = world_okD [OF W] and e = same_heapD [OF world_okD(1) [OF W]]
  have "x \<notin> white_set A" if "x \<in> start_live h s0 A0 rs" for x
    using that
  proof induction
    case (live_root w x)
    then have "safe s0 (heap c) A w" using r by (auto simp: roots_safe_def)
    then show ?case using live.live_root [OF live_root] live_root no by (auto simp: safe_def)
  next
    case (live_step x w y)
    have "x \<in> white_set A0" using live_step(1) live_subset by blast
    then obtain i where i: "i \<in> group_indices" "x \<in> set (whites (A0 i))" by (auto simp: white_set_def)
    have "x \<in> object_set A i" using white_object [where A = A0, OF i] e(7) by simp
    moreover have "x \<notin> set (greens (A i))"
      using e(10) [OF i(1)] heap_marking_distinct [OF snapshot_startD(1) [OF S] i(1)] i(2)
      by (auto simp: objects_def active_def)
    ultimately have "x \<in> set (blacks (A i))"
      using live_step(5) g i(1) by (auto simp: object_set_def white_set_def gray_set_def)
    then have "safe s0 (heap c) A w"
      using d(3) i live_step(2) unfolding plain_words [OF S i] blacks_safe_def by auto
    then show ?case
      using live.live_step [OF live_step(1-4)] live_step no by (auto simp: safe_def)
  qed
  then show False using no by auto
qed

subsection \<open>Steps of the collector\<close>

text \<open>
  What is left to do, in lexicographic order: objects to scan, bits to look at, and then the
  way through the phases.
\<close>

definition set_bits :: "rt_state \<Rightarrow> (int \<times> nat) set" where
  "set_bits s = {(j, b). 0 \<le> j \<and> j < RTwrite_vector_length s \<and> b < 64 \<and> bit (RTwrite_vector s j) b}"

fun phase_todo :: "int \<Rightarrow> phase \<Rightarrow> nat \<times> nat \<times> nat" where
  "phase_todo len (Scan_roots l) = (6, length l, 0)"
| "phase_todo len (In_vector j bits n) = (if 0 < n then 5 else 2, nat (len - j), length bits)"
| "phase_todo len (At_group i n) = (if 0 < n then 4 else 3, Suc MAX_GROUP_INDEX - i, 0)"
| "phase_todo len (In_object i n x l) = (1, length l, 0)"
| "phase_todo len Marked = (0, 0, 0)"

definition todo :: "world \<Rightarrow> (nat \<Rightarrow> agroup) \<Rightarrow> nat \<times> nat \<times> nat \<times> nat \<times> nat" where
  "todo c A = (unscanned A, card (set_bits (heap c)), phase_todo (RTwrite_vector_length (heap c)) (phase c))"

definition todo_order :: "((nat \<times> nat \<times> nat \<times> nat \<times> nat) \<times> (nat \<times> nat \<times> nat \<times> nat \<times> nat)) set" where
  "todo_order = less_than <*lex*> less_than <*lex*> less_than <*lex*> less_than <*lex*> less_than"

lemma wf_todo_order: "wf todo_order"
  by (simp add: todo_order_def wf_lex_prod)

lemma finite_set_bits: "finite (set_bits s)"
proof (rule finite_subset)
  show "set_bits s \<subseteq> {0..<RTwrite_vector_length s} \<times> {0..<64}" by (auto simp: set_bits_def)
qed simp

text \<open>A step of the collector advances: the invariant holds after it and less is left to do.\<close>

definition advances :: "hooks \<Rightarrow> rt_state \<Rightarrow> (nat \<Rightarrow> agroup) \<Rightarrow> root_item list \<Rightarrow> world \<Rightarrow> (nat \<Rightarrow> agroup) \<Rightarrow> world \<Rightarrow> bool" where
  "advances h s0 A0 rs c A c' \<longleftrightarrow> (\<exists>A'. world_ok h s0 A0 rs c' A' \<and> (todo c' A', todo c A) \<in> todo_order)"

lemma set_bits_frame:
  assumes "same_heap s0 A0 s A" and "same_heap s0 A0 s' A'" and "RTwrite_vector s' = RTwrite_vector s"
  shows "set_bits s' = set_bits s"
  using same_heapD(4) [OF assms(1)] same_heapD(4) [OF assms(2)] assms(3) by (simp add: set_bits_def)

text \<open>A step that leaves the heap alone.\<close>

lemma phase_advances:
  assumes W: "world_ok h s0 A0 rs c A" and ok: "phase_ok h s0 A0 rs (heap c) A p"
    and less: "(phase_todo (RTwrite_vector_length (heap c)) p, phase_todo (RTwrite_vector_length (heap c)) (phase c)) \<in>
      less_than <*lex*> less_than <*lex*> less_than"
  shows "advances h s0 A0 rs c A (c\<lparr>phase := p\<rparr>)"
  using world_ok_phase [OF W ok] less unfolding advances_def
  by (intro exI [of _ A]) (auto simp: todo_def todo_order_def)

text \<open>A step that traces one word: what is scanned and recorded stays, the phase goes on.\<close>

lemma traced_advances:
  assumes S: "snapshot_start s0 A0 rs" and W: "world_ok h s0 A0 rs c A"
    and 1: "same_heap s0 A0 s' A'" "onward (heap c) A s' A'"
      "\<And>a. a \<notin> header_cells (all_objects A0) \<Longrightarrow> memory s' a = memory (heap c) a"
      "\<And>i. blacks (A' i) = blacks (A i)" "unscanned A' = unscanned A" "RTwrite_vector s' = RTwrite_vector (heap c)"
    and ok: "phase_ok h s0 A0 rs s' A' p"
    and less: "\<And>len. (phase_todo len p, phase_todo len (phase c)) \<in> less_than <*lex*> less_than <*lex*> less_than"
  shows "advances h s0 A0 rs c A (c\<lparr>heap := s', phase := p\<rparr>)"
proof -
  note d = world_okD [OF W]
  have "world_ok h s0 A0 rs (c\<lparr>heap := s', phase := p\<rparr>) A'"
    using 1(4) by (intro world_ok_heap [OF S W 1(1-3) _ ok]) simp_all
  moreover have "(todo (c\<lparr>heap := s', phase := p\<rparr>) A', todo c A) \<in> todo_order"
    using 1(5) less set_bits_frame [OF d(1) 1(1,6)] same_heapD(4) [OF 1(1)] same_heapD(4) [OF d(1)]
    by (simp add: todo_def todo_order_def)
  ultimately show ?thesis unfolding advances_def by blast
qed

lemma trace_root_advances:
  assumes S: "snapshot_start s0 A0 rs" and W: "world_ok h s0 A0 rs c A"
    and p: "phase c = Scan_roots (r # l)" and t: "RTtrace_pointer (item_word (memory (heap c)) r) (heap c) = Inr s'"
  shows "advances h s0 A0 rs c A (c\<lparr>heap := s', phase := Scan_roots l\<rparr>)"
proof -
  let ?s = "heap c"
  note d = world_okD [OF W]
  obtain A' where 1: "same_heap s0 A0 s' A'" "onward ?s A s' A'" "safe s0 s' A' (item_word (memory ?s) r)"
    "\<And>a. a \<notin> header_cells (all_objects A0) \<Longrightarrow> memory s' a = memory ?s a"
    "\<And>i. blacks (A' i) = blacks (A i)" "unscanned A' = unscanned A" "RTwrite_vector s' = RTwrite_vector ?s"
    using trace_step [OF d(1), of "item_word (memory ?s) r"] t by (metis sum.inject(2))
  have ph: "set (r # l) \<subseteq> set rs" "\<And>q. q \<in> set rs \<Longrightarrow> q \<in> set (r # l) \<or> safe s0 ?s A (item_word (memory s0) q)"
    using d(5) by (auto simp: p)
  have "safe s0 s' A' (item_word (memory s0) r)"
  proof (cases r)
    case (Root_cell a)
    then have "a \<in> snapshot_cells s0 A0 rs" using ph(1) by (auto simp: snapshot_cells_def)
    then show ?thesis using kept_word_safe [OF d(2) _ 1(2)] 1(3) Root_cell by simp
  qed (use 1(3) in simp)
  then have "phase_ok h s0 A0 rs s' A' (Scan_roots l)"
    using ph safe_onward [OF _ 1(2)] by auto
  from traced_advances [OF S W 1(1,2,4-7) this] show ?thesis by (simp add: p)
qed

lemma trace_cell_advances:
  assumes S: "snapshot_start s0 A0 rs" and W: "world_ok h s0 A0 rs c A"
    and p: "phase c = In_object i n x (a # l)" and t: "RTtrace_pointer (memory (heap c) a) (heap c) = Inr s'"
  shows "advances h s0 A0 rs c A (c\<lparr>heap := s', phase := In_object i n x l\<rparr>)"
proof -
  let ?s = "heap c"
  note d = world_okD [OF W] and e = same_heapD [OF world_okD(1) [OF W]]
  have ph: "roots_safe s0 rs ?s A" "0 \<le> n" "i \<in> group_indices" "grays (A i) \<noteq> []" "x = last (grays (A i))"
    "set (a # l) \<subseteq> set (object_cells s0 x (2 ^ i))"
    "\<And>b. b \<in> set (object_cells s0 x (2 ^ i)) \<Longrightarrow> b \<in> set (a # l) \<or> safe s0 ?s A (memory s0 b)"
    using d(5) by (auto simp: p)
  obtain A' where 1: "same_heap s0 A0 s' A'" "onward ?s A s' A'" "safe s0 s' A' (memory ?s a)"
    "\<And>a. a \<notin> header_cells (all_objects A0) \<Longrightarrow> memory s' a = memory ?s a"
    "\<And>i. blacks (A' i) = blacks (A i)" "unscanned A' = unscanned A" "RTwrite_vector s' = RTwrite_vector ?s"
    and gr: "\<And>i. \<exists>pre. grays (A' i) = pre @ grays (A i)"
    using trace_step [OF d(1), of "memory ?s a"] t by (metis sum.inject(2))
  have "x \<in> set (whites (A0 i))" using e(9) [OF ph(3)] ph(4,5) by auto
  then have "a \<in> snapshot_cells s0 A0 rs" using ph(3,6) by (auto simp: snapshot_cells_def)
  then have "safe s0 s' A' (memory s0 a)" using kept_word_safe [OF d(2) _ 1(2)] 1(3) by simp
  moreover have "grays (A' i) \<noteq> []" "last (grays (A' i)) = x" using gr [of i] ph(4,5) by auto
  ultimately have "phase_ok h s0 A0 rs s' A' (In_object i n x l)"
    using ph roots_safe_onward [OF ph(1) 1(2)] safe_onward [OF _ 1(2)] by auto
  from traced_advances [OF S W 1(1,2,4-7) this] show ?thesis by (simp add: p)
qed

text \<open>The scan cursor of a group and the objects it finds.\<close>

lemma next_group_advances:
  assumes W: "world_ok h s0 A0 rs c A"
    and p: "phase c = At_group i n" and i: "i \<le> MAX_GROUP_INDEX" and cur: "scan_current (heap c) i = 0"
  shows "advances h s0 A0 rs c A (c\<lparr>phase := At_group (i + 1) n\<rparr>)"
proof (rule phase_advances [OF W])
  let ?s = "heap c"
  note d = world_okD [OF W] and e = same_heapD [OF world_okD(1) [OF W]]
  have ph: "roots_safe s0 rs ?s A" "0 \<le> n" "MIN_GROUP_INDEX \<le> i"
    "n = 0 \<Longrightarrow> j \<in> group_indices \<Longrightarrow> j < i \<Longrightarrow> grays (A j) = []" for j
    using d(5) by (auto simp: p)
  have "grays (A i) = []" if "i \<in> group_indices" using scan_current_0(1) [OF e(1) that] cur by simp
  then show "phase_ok h s0 A0 rs ?s A (At_group (i + 1) n)" using ph by (auto simp: less_Suc_eq)
qed (use p i in auto)

lemma start_object_advances:
  assumes W: "world_ok h s0 A0 rs c A"
    and p: "phase c = At_group i n" and i': "i \<le> MAX_GROUP_INDEX" and cur: "scan_current (heap c) i = x" "x \<noteq> 0"
  shows "advances h s0 A0 rs c A (c\<lparr>phase := In_object i n x (object_cells (heap c) x (gsize (groups (heap c) i)))\<rparr>)"
proof (rule phase_advances [OF W])
  let ?s = "heap c"
  note d = world_okD [OF W] and e = same_heapD [OF world_okD(1) [OF W]]
  have i: "i \<in> group_indices" and ph: "roots_safe s0 rs ?s A" "0 \<le> n"
    using d(5) i' by (auto simp: p group_indices_def)
  have g: "grays (A i) \<noteq> []" using scan_current_0(1) [OF e(1) i] cur by auto
  have x: "x = last (grays (A i))" using scan_current_0(2) [OF e(1) i g] cur by simp
  then have "x \<in> set (whites (A0 i))" using e(9) [OF i] last_in_set [OF g] by blast
  then have "x \<in> white_set A0" using i by (auto simp: white_set_def)
  then have "object_cells ?s x (gsize (groups ?s i)) = object_cells s0 x (2 ^ i)"
    using same_heap_cells [OF d(1)] heap_repD(3) [OF e(1)] i by (simp add: groups_ok_def)
  then show "phase_ok h s0 A0 rs ?s A (In_object i n x (object_cells ?s x (gsize (groups ?s i))))"
    using ph i g x by simp
qed (use p in auto)

lemma blacken_advances:
  assumes S: "snapshot_start s0 A0 rs" and W: "world_ok h s0 A0 rs c A" and p: "phase c = In_object i n x []"
    and t: "on_group i (\<lambda>m g. Inr (blacken_object (marked_color (heap c)) m g x)) (heap c) = Inr s'"
  shows "advances h s0 A0 rs c A (c\<lparr>heap := s', phase := At_group i (n + 1)\<rparr>)"
proof -
  let ?s = "heap c" and ?A = "A(i := a_blacken (A i))"
  note d = world_okD [OF W]
  have ph: "roots_safe s0 rs ?s A" "0 \<le> n" "i \<in> group_indices" "grays (A i) \<noteq> []" "x = last (grays (A i))"
    "\<And>b. b \<in> set (object_cells s0 x (2 ^ i)) \<Longrightarrow> safe s0 ?s A (memory s0 b)"
    using d(5) by (auto simp: p)
  have 1: "same_heap s0 A0 s' ?A" "onward ?s A s' ?A"
    "\<And>a. a \<notin> header_cells (all_objects A0) \<Longrightarrow> memory s' a = memory ?s a"
    and us: "unscanned A = Suc (unscanned ?A)"
    using blacken_step [OF d(1) ph(3,4)] t ph(5) by (metis sum.inject(2))+
  have "phase_ok h s0 A0 rs s' ?A (At_group i (n + 1))"
    using ph roots_safe_onward [OF ph(1) 1(2)] by (auto simp: group_indices_def)
  moreover have "y \<in> set (blacks (A j)) \<or> (\<forall>a\<in>set (object_cells s0 y (2 ^ j)). safe s0 s' ?A (memory s0 a))"
    if "y \<in> set (blacks (?A j))" for j y
    using that ph(5) safe_onward [OF ph(6) 1(2)] by (auto split: if_splits)
  ultimately have "world_ok h s0 A0 rs (c\<lparr>heap := s', phase := At_group i (n + 1)\<rparr>) ?A"
    by (intro world_ok_heap [OF S W 1]) blast+
  moreover have "(todo (c\<lparr>heap := s', phase := At_group i (n + 1)\<rparr>) ?A, todo c A) \<in> todo_order"
    using us by (simp add: todo_def todo_order_def)
  ultimately show ?thesis unfolding advances_def by blast
qed

text \<open>The write vector, long by long and bit by bit.\<close>

lemma start_vector_advances:
  assumes S: "snapshot_start s0 A0 rs" and W: "world_ok h s0 A0 rs c A"
    and p: "phase c = At_group i n" "MAX_GROUP_INDEX < i" "n \<le> 0"
  shows "advances h s0 A0 rs c A (c\<lparr>phase := In_vector (- 1) [] 0\<rparr>)"
proof (rule phase_advances [OF W])
  let ?s = "heap c"
  note d = world_okD [OF W]
  have ph: "roots_safe s0 rs ?s A" "\<And>j. j \<in> group_indices \<Longrightarrow> grays (A j) = []"
    using d(5) p(2,3) by (auto simp: p(1) group_indices_def)
  have g: "gray_set A = {}" using ph(2) by (auto simp: gray_set_def)
  have "ahead ?s (- 1) [] x" if "recorded ?s x" "x \<in> white_set A" for x
    using that recorded_slot(1) [OF S d(1), of x] same_heap_white [OF d(1)] white_set_objects [of A0]
    by (force simp: ahead_def)
  then show "phase_ok h s0 A0 rs ?s A (In_vector (- 1) [] 0)"
    using live_white_recorded [OF S W ph(1) g] ph(1) g by auto
qed (use p in auto)

lemma next_long_advances:
  assumes W: "world_ok h s0 A0 rs c A"
    and p: "phase c = In_vector j [] n" and j: "j + 1 < RTwrite_vector_length (heap c)"
  shows "advances h s0 A0 rs c A (c\<lparr>phase := In_vector (j + 1) (bits_of_long (heap c) (j + 1)) n\<rparr>)"
proof (rule phase_advances [OF W])
  let ?s = "heap c"
  note d = world_okD [OF W] and e = same_heapD [OF world_okD(1) [OF W]]
  have ph: "roots_safe s0 rs ?s A" "0 \<le> n" "- 1 \<le> j" using d(5) by (auto simp: p)
  have v: "n = 0 \<Longrightarrow> gray_set A = {} \<and> (start_live h s0 A0 rs \<inter> white_set A = {} \<or>
      (\<exists>x\<in>start_live h s0 A0 rs \<inter> white_set A. ahead ?s j [] x))"
    using d(5) by (simp add: p)
  have "ahead ?s (j + 1) (bits_of_long ?s (j + 1)) x" if "ahead ?s j [] x" for x
  proof -
    have x: "recorded ?s x" "j < slot_index ?s x" using that by (auto simp: ahead_def)
    have "RTwrite_vector ?s (slot_index ?s x) \<noteq> 0" using x(1) by (auto simp: recorded_def)
    then show ?thesis using x slot_bit_less [of ?s x]
      by (cases "slot_index ?s x = j + 1") (auto simp: ahead_def bits_of_long_def BITS_PER_LONG_def)
  qed
  then show "phase_ok h s0 A0 rs ?s A (In_vector (j + 1) (bits_of_long ?s (j + 1)) n)"
    using ph v j e(4) by (auto simp: bits_of_long_def BITS_PER_LONG_def split: if_splits) blast+
qed (use p j in auto)

lemma vector_bit_todo:
  assumes v: "\<And>k c. bit (RTwrite_vector s' k) c \<longleftrightarrow> bit (RTwrite_vector s k) c \<and> \<not> (k = j \<and> c = b)"
    and len: "RTwrite_vector_length s' = RTwrite_vector_length s"
    and j: "0 \<le> j" "j < RTwrite_vector_length s" "b < 64"
  shows "if bit (RTwrite_vector s j) b then card (set_bits s') < card (set_bits s) else set_bits s' = set_bits s"
proof -
  have b: "set_bits s' = set_bits s - {(j, b)}" using v len by (auto simp: set_bits_def)
  have "(j, b) \<in> set_bits s \<longleftrightarrow> bit (RTwrite_vector s j) b" using j by (simp add: set_bits_def)
  then show ?thesis
    using card_Diff1_less [OF finite_set_bits, of "(j, b)" s] by (simp add: b)
qed

lemma vector_bit_advances:
  assumes S: "snapshot_start s0 A0 rs" and W: "world_ok h s0 A0 rs c A" and p: "phase c = In_vector j (b # bs) n"
    and st: "scan_write_bit j b (heap c, n) = Inr (s', n')"
  shows "advances h s0 A0 rs c A (c\<lparr>heap := s', phase := In_vector j bs n'\<rparr>)"
proof -
  let ?s = "heap c"
  let ?set = "bit (RTwrite_vector ?s j) b"
  note d = world_okD [OF W] and e = same_heapD [OF world_okD(1) [OF W]]
  have ph: "roots_safe s0 rs ?s A" "0 \<le> n" "0 \<le> j" "j < RTwrite_vector_length ?s" "b < 64" "\<forall>b\<in>set bs. b < 64"
    using d(5) e(4) by (auto simp: p)
  have v: "n = 0 \<Longrightarrow> gray_set A = {} \<and> (start_live h s0 A0 rs \<inter> white_set A = {} \<or>
      (\<exists>x\<in>start_live h s0 A0 rs \<inter> white_set A. ahead ?s j (b # bs) x))"
    using d(5) by (simp add: p)
  obtain t A' where t: "scan_write_bit j b (?s, n) = Inr (t, n + (if ?set then 1 else 0))"
    and 1: "same_heap s0 A0 t A'" "onward ?s A t A'"
    "\<And>a. a \<notin> header_cells (all_objects A0) \<Longrightarrow> memory t a = memory ?s a"
    "\<And>i. blacks (A' i) = blacks (A i)" "\<not> ?set \<Longrightarrow> A' = A"
    "\<And>x. recorded t x = (recorded ?s x \<and> \<not> (slot_index ?s x = j \<and> slot_bit ?s x = b))"
    "unscanned A' = unscanned A"
    "\<And>k c. bit (RTwrite_vector t k) c \<longleftrightarrow> bit (RTwrite_vector ?s k) c \<and> \<not> (k = j \<and> c = b)"
  proof (rule vector_step [OF S d(1) ph(3-5), where n = n], goal_cases)
    case (1 t A')
    show ?case by (rule 1(1)) (fact 1)+
  qed
  have t': "t = s'" "n' = n + (if ?set then 1 else 0)" using t st by simp_all
  note 1 = 1 [unfolded t'(1)]
  have fp: "first_partition_ptr s' = first_partition_ptr ?s" using same_heapD(15) [OF 1(1)] e(15) by simp
  have len: "RTwrite_vector_length s' = RTwrite_vector_length ?s" using same_heapD(4) [OF 1(1)] e(4) by simp
  have "ahead s' j bs x" if "ahead ?s j (b # bs) x" "\<not> ?set" for x
    using that 1(6) [of x] slot_frame [OF fp] by (auto simp: ahead_def recorded_def)
  then have "phase_ok h s0 A0 rs s' A' (In_vector j bs n')"
    using ph v t'(2) 1(5) roots_safe_onward [OF ph(1) 1(2)] e(4) by (cases ?set) auto
  then have "world_ok h s0 A0 rs (c\<lparr>heap := s', phase := In_vector j bs n'\<rparr>) A'"
    using 1(4) by (intro world_ok_heap [OF S W 1(1,2,3)]) simp_all
  moreover have "(todo (c\<lparr>heap := s', phase := In_vector j bs n'\<rparr>) A', todo c A) \<in> todo_order"
    using vector_bit_todo [OF 1(8) len ph(3-5)] p 1(7) t'(2) len
    by (cases ?set) (simp_all add: todo_def todo_order_def)
  ultimately show ?thesis unfolding advances_def by blast
qed

lemma mark_done_advances:
  assumes S: "snapshot_start s0 A0 rs" and W: "world_ok h s0 A0 rs c A"
    and p: "phase c = In_vector j [] n" "RTwrite_vector_length (heap c) \<le> j + 1" "n \<le> 0"
  shows "advances h s0 A0 rs c A (c\<lparr>phase := Marked\<rparr>)"
proof (rule phase_advances [OF W])
  let ?s = "heap c"
  note d = world_okD [OF W]
  have ph: "roots_safe s0 rs ?s A" "gray_set A = {}"
    and v: "start_live h s0 A0 rs \<inter> white_set A = {} \<or> (\<exists>x\<in>start_live h s0 A0 rs \<inter> white_set A. ahead ?s j [] x)"
    using d(5) p(3) by (auto simp: p(1))
  have "\<not> ahead ?s j [] x" if "x \<in> white_set A" for x
    using recorded_slot(2) [OF S d(1), of x] same_heap_white [OF d(1)] white_set_objects [of A0] that p(2)
    by (force simp: ahead_def)
  then show "phase_ok h s0 A0 rs ?s A Marked" using ph v by auto
qed (use p in auto)

text \<open>The collector starts over with the groups.\<close>

lemma first_group_ok:
  assumes "roots_safe s0 rs s A" and "0 \<le> n"
  shows "phase_ok h s0 A0 rs s A (At_group MIN_GROUP_INDEX 0)"
  using assms by (auto simp: group_indices_def)

lemma collector_advances:
  assumes S: "snapshot_start s0 A0 rs" and W: "world_ok h s0 A0 rs c A" and st: "collector_step c c'"
  shows "advances h s0 A0 rs c A c'"
proof -
  note d = world_okD [OF W]
  show ?thesis
    using st
  proof cases
    case roots_done
    then have "phase_ok h s0 A0 rs (heap c) A (At_group MIN_GROUP_INDEX 0)"
      using d(5) by (intro first_group_ok) (auto simp: roots_safe_def)
    then show ?thesis using phase_advances [OF W] roots_done by simp
  next
    case (rescan i n)
    then have "phase_ok h s0 A0 rs (heap c) A (At_group MIN_GROUP_INDEX 0)"
      using d(5) by (intro first_group_ok) auto
    then show ?thesis using phase_advances [OF W] rescan by simp
  next
    case (mark_again j n)
    then have "phase_ok h s0 A0 rs (heap c) A (At_group MIN_GROUP_INDEX 0)"
      using d(5) by (intro first_group_ok) auto
    then show ?thesis using phase_advances [OF W] mark_again by simp
  qed (use trace_root_advances [OF S W] trace_cell_advances [OF S W] next_group_advances [OF W]
      start_object_advances [OF W] blacken_advances [OF S W] start_vector_advances [OF S W]
      next_long_advances [OF W] vector_bit_advances [OF S W] mark_done_advances [OF S W] in simp_all)
qed

lemma collector_world_ok:
  assumes "snapshot_start s0 A0 rs" and "world_ok h s0 A0 rs c A" and "collector_step c c'"
  shows "\<exists>A'. world_ok h s0 A0 rs c' A' \<and> (todo c' A', todo c A) \<in> todo_order"
  using collector_advances [OF assms] unfolding advances_def .

subsection \<open>Steps of the mutators\<close>

text \<open>A store outside the headers, and a bit more in the vector, leave the lists alone.\<close>

lemma heap_marking_store:
  assumes rep: "heap_marking s A" and a: "a \<notin> header_cells (all_objects A)"
  shows "heap_marking (s\<lparr>memory := (memory s)(a := v)\<rparr>) A"
proof -
  note r = heap_repD [OF rep]
  let ?s = "s\<lparr>memory := (memory s)(a := v)\<rparr>"
  have f: "layout_ok ?s = layout_ok s" "groups_ok ?s = groups_ok s" "geometry ?s Ob = geometry s Ob" for Ob
    using same_pages_facts [of s ?s] by (simp_all add: same_pages_def)
  have "marking_rep (marked_color s) (unmarked_color s) ((memory s)(a := v)) (groups s i) (A i)"
    if i: "i \<in> group_indices" for i
  proof (rule marking_rep_cong [OF r(5) [OF i]])
    fix x assume "x \<in> set (objects (A i))"
    then have "x \<in> all_objects A" using i by (auto simp: all_objects_def object_set_def simp del: objects_simps)
    then show "((memory s)(a := v)) x = memory s x \<and> ((memory s)(a := v)) (x + 8) = memory s (x + 8)"
      using a by (auto simp: header_cells_def)
  qed
  then show ?thesis using r(1-4) unfolding heap_rep_def f by simp
qed

lemma same_heap_store:
  assumes H: "same_heap s0 A0 s A" and a: "a \<notin> header_cells (all_objects A0)"
  shows "same_heap s0 A0 (s\<lparr>memory := (memory s)(a := v)\<rparr>) A"
proof -
  note e = same_heapD [OF H]
  have "heap_marking (s\<lparr>memory := (memory s)(a := v)\<rparr>) A"
    using a e(13) by (intro heap_marking_store [OF e(1)]) simp
  moreover have "GET_STORAGE_CLASS ((memory s)(a := v)) x = GET_STORAGE_CLASS (memory s) x"
    if "x \<in> white_set A0" for x
  proof -
    have "x + 8 \<in> header_cells (all_objects A0)"
      using that white_set_objects [of A0] by (auto simp: header_cells_def)
    then have "x + 8 \<noteq> a" using a by metis
    then show ?thesis by (simp add: GET_STORAGE_CLASS_def)
  qed
  moreover have "slot_ptr (s\<lparr>memory := m\<rparr>) = slot_ptr s" for m by (simp add: slot_ptr_def fun_eq_iff)
  ultimately show ?thesis using H by (simp add: same_heap_def same_pages_def)
qed

lemma world_ok_store:
  assumes W: "world_ok h s0 A0 rs c A" and a: "a \<notin> header_cells (all_objects A0)"
    and f: "a \<in> snapshot_cells s0 A0 rs \<Longrightarrow> safe s0 (heap c) A (memory s0 a)"
    and b: "\<And>t. bs t = barrier c t \<or> bs t = Outside"
  shows "world_ok h s0 A0 rs (c\<lparr>heap := (heap c)\<lparr>memory := (memory (heap c))(a := v)\<rparr>, barrier := bs\<rparr>) A"
proof -
  note d = world_okD [OF W]
  let ?s = "heap c" let ?s' = "?s\<lparr>memory := (memory ?s)(a := v)\<rparr>"
  have rec: "recorded ?s' y = recorded ?s y" for y using slot_frame [of ?s' ?s] by (simp add: recorded_def)
  have on: "onward ?s A ?s' A" using rec by (simp add: onward_def)
  have "words_kept s0 A0 rs ?s' A"
    using safe_onward [OF _ on] f by (intro words_kept_onward [OF d(2) on]) auto
  moreover have "blacks_safe s0 A0 ?s' A" by (rule blacks_safe_onward [OF d(3) on]) simp
  moreover have "barrier_ok s0 A0 rs ?s' A (bs t)" for t
    using b [of t] barrier_ok_onward [OF d(4) [of t] on] by auto
  moreover have "phase_ok h s0 A0 rs ?s' A (phase c)"
    by (rule phase_ok_mutator [OF d(5)]) (simp_all add: rec)
  ultimately show ?thesis using same_heap_store [OF d(1) a] by (simp add: world_ok_def)
qed

lemma ptr_object_null:
  assumes "layout_ok s"
  shows "ptr_object s 0 = None"
  using assms by (auto simp: ptr_object_def IN_PARTITION_uint layout_ok_def)

text \<open>What the test of the barrier finds out about a cell of the snapshot.\<close>

lemma barrier_test_ok:
  assumes W: "world_ok h s0 A0 rs c A" and l: "lhs \<notin> header_cells (all_objects A0)"
  shows "barrier_ok s0 A0 rs (heap c) A
    (case overwritten_white (heap c) lhs of None \<Rightarrow> To_store lhs rhs | Some x \<Rightarrow> To_record x lhs rhs)"
proof -
  note d = world_okD [OF W] and e = same_heapD [OF world_okD(1) [OF W]]
  let ?w = "memory (heap c) lhs"
  have o: "x \<in> all_objects A0" if "ptr_object s0 ?w = Some x" for x
    using ptr_object_in_heap [OF heap_repD(4) [OF e(1)], of ?w x] that e(7,14) by (auto simp: all_objects_def)
  have k: "?w = memory s0 lhs \<or> safe s0 (heap c) A (memory s0 lhs)" if "lhs \<in> snapshot_cells s0 A0 rs"
    using d(2) that by (auto simp: words_kept_def)
  show ?thesis
  proof (cases "overwritten_white (heap c) lhs")
    case None
    have "safe s0 (heap c) A ?w"
      unfolding safe_def
    proof (intro allI impI)
      fix y assume y: "ptr_object s0 ?w = Some y"
      then have "\<not> WHITEP (unmarked_color (heap c)) (memory (heap c)) y"
        using None e(14) by (simp add: overwritten_white_def split: if_splits)
      then show "y \<notin> white_set A \<or> recorded (heap c) y"
        using heap_marking_object_white [OF e(1), of y] o [OF y] e(13) by simp
    qed
    then show ?thesis using None l k by auto
  next
    case (Some x)
    then have "ptr_object s0 ?w = Some x"
      using e(14) by (simp add: overwritten_white_def split: option.splits if_splits)
    then show ?thesis using Some l k o by auto
  qed
qed

lemma world_ok_record:
  assumes S: "snapshot_start s0 A0 rs" and W: "world_ok h s0 A0 rs c A" and x: "barrier c t = To_record x lhs rhs"
  shows "world_ok h s0 A0 rs (c\<lparr>heap := record_slot x (heap c), barrier := (barrier c)(t := To_store lhs rhs)\<rparr>) A"
proof -
  note d = world_okD [OF W] and e = same_heapD [OF world_okD(1) [OF W]]
  let ?s = "heap c" let ?s' = "record_slot x ?s"
  have b: "x \<in> all_objects A0" "lhs \<notin> header_cells (all_objects A0)"
    "lhs \<in> snapshot_cells s0 A0 rs \<Longrightarrow> safe s0 ?s A (memory s0 lhs) \<or> ptr_object s0 (memory s0 lhs) = Some x"
    using d(4) [of t] x by auto
  note sl = recorded_slot [OF S d(1)]
  have fr: "slot_index ?s' y = slot_index ?s y" "slot_bit ?s' y = slot_bit ?s y" "slot_ptr ?s' j k = slot_ptr ?s j k" for y j k
    using slot_frame [of ?s' ?s] by simp_all
  have bit: "bit (RTwrite_vector ?s' j) k \<longleftrightarrow>
      bit (RTwrite_vector ?s j) k \<or> j = slot_index ?s x \<and> k = slot_bit ?s x" if "k < 64" for j k
    using that slot_bit_less [of ?s x]
    by (auto simp: record_slot_def bit_or_iff bit_push_bit_iff bit_1_iff simp del: push_bit_of_1)
  have rec: "recorded ?s' y" if "recorded ?s y" for y
    using that bit [OF slot_bit_less [of ?s y]] by (simp add: recorded_def fr)
  have recx: "recorded ?s' x" using bit [OF slot_bit_less [of ?s x]] by (simp add: recorded_def fr)
  have on: "onward ?s A ?s' A" using rec by (simp add: onward_def)
  have hm: "heap_marking ?s' A" using e(1) unfolding record_slot_def by (simp only: heap_rep_vector)
  have v: "slot_ptr ?s' j k \<in> all_objects A0"
    if "0 \<le> j" "j < RTwrite_vector_length ?s'" "k < 64" "bit (RTwrite_vector ?s' j) k" for j k
  proof -
    have "RTwrite_vector_length ?s' = RTwrite_vector_length ?s" by (simp add: record_slot_def)
    then show ?thesis using that bit [OF that(3)] e(12) [of j k] sl(3) [OF b(1)] b(1) by (auto simp: fr)
  qed
  have H: "same_heap s0 A0 ?s' A"
    using d(1) hm v unfolding same_heap_def by (auto simp: same_pages_def record_slot_def)
  have "words_kept s0 A0 rs ?s' A" by (rule words_kept_onward [OF d(2) on]) simp
  moreover have "blacks_safe s0 A0 ?s' A" by (rule blacks_safe_onward [OF d(3) on]) simp
  moreover have "barrier_ok s0 A0 rs ?s' A (To_store lhs rhs)"
    using b rec recx by (auto simp: safe_def)
  moreover have "phase_ok h s0 A0 rs ?s' A (phase c)"
    by (rule phase_ok_mutator [OF d(5)]) (use rec in simp_all)
  ultimately show ?thesis using H barrier_ok_onward [OF d(4) on] by (simp add: world_ok_def)
qed

lemma world_ok_allocate:
  assumes S: "snapshot_start s0 A0 rs" and W: "world_ok h s0 A0 rs c A"
    and i: "i \<in> group_indices" and g: "gfree (groups (heap c) i) \<noteq> 0" and md: "metadata_valid md"
    and t: "take_object md i (heap c) = Inr (s', p)"
  shows "world_ok h s0 A0 rs (c\<lparr>heap := s'\<rparr>) (A(i := a_allocate (A i)))"
proof -
  note d = world_okD [OF W] and e = same_heapD [OF world_okD(1) [OF W]]
  let ?s = "heap c" and ?A = "A(i := a_allocate (A i))" and ?x = "hd (greens (A i))"
  have "gfree (groups ?s i) = hd_or (greens (A i)) 0"
    using heap_repD(5) [OF e(1) i] by (auto simp: marking_rep_def dest: group_repD(10))
  then have F: "greens (A i) \<noteq> []" using g by auto
  obtain u where u: "take_object md i ?s = Inr (u, ?x + 16)" "heap_marking u ?A"
    "\<And>a. a \<notin> header_cells (set (objects (A i))) \<Longrightarrow> \<not> in_body ?x i a \<Longrightarrow> memory u a = memory ?s a"
    "\<And>y. y \<in> all_objects A \<Longrightarrow> y \<noteq> ?x \<Longrightarrow> GET_STORAGE_CLASS (memory u) y = GET_STORAGE_CLASS (memory ?s) y"
    "u = ?s\<lparr>memory := memory u, groups := groups u\<rparr>" "same_pages ?s u" "object_set ?A = object_set A"
  proof (rule marking_heap.take_object_rep [OF e(1) i F md], goal_cases)
    case (1 u)
    show ?case by (rule 1(1)) (fact 1)+
  qed
  have u': "u = s'" using t u(1) by simp
  note u = u [unfolded u']
  have xg: "?x \<in> set (greens (A0 i))" using e(10) [OF i] F by auto
  have dis: "distinct (objects (A0 j))" if "j \<in> group_indices" for j
    by (rule heap_marking_distinct [OF snapshot_startD(1) [OF S] that])
  have xw: "?x \<notin> white_set A0"
  proof
    assume "?x \<in> white_set A0"
    then obtain j where j: "j \<in> group_indices" "?x \<in> set (whites (A0 j))" by (auto simp: white_set_def)
    have "?x \<in> object_set A0 i" using xg by (simp add: object_set_def)
    then have "i = j"
      by (rule geometry_group_unique [OF heap_repD(4) [OF snapshot_startD(1) [OF S]] i j(1)
            _ white_object [where A = A0, OF j]])
    then show False using dis [OF i] j(2) xg by (auto simp: objects_def active_def)
  qed
  have w: "whites (?A j) = whites (A j)" "grays (?A j) = grays (A j)" for j by simp_all
  then have ws: "white_set ?A = white_set A" unfolding white_set_def by presburger
  have f: "RTwrite_vector s' = RTwrite_vector ?s" "RTwrite_vector_length s' = RTwrite_vector_length ?s"
    "enable_write_barrier s' = enable_write_barrier ?s" "marked_color s' = marked_color ?s"
    "unmarked_color s' = unmarked_color ?s" "first_partition_ptr s' = first_partition_ptr ?s"
    by (subst u(5), simp)+
  note fr = slot_frame [OF f(6)]
  have rec: "recorded s' y = recorded ?s y" for y by (simp add: recorded_def fr f(1))
  have on: "onward ?s A s' ?A" using rec by (simp add: onward_def ws)
  have "header_cells (set (objects (A i))) \<subseteq> header_cells (all_objects A0)"
    using i e(13) [symmetric] by (auto simp: header_cells_def all_objects_def object_set_def simp del: objects_simps)
  then have m: "memory s' a = memory ?s a" if "a \<in> snapshot_cells s0 A0 rs" for a
    using snapshot_cell_cases [OF S that] i xg by (intro u(3)) auto
  have "GET_STORAGE_CLASS (memory s') x = GET_STORAGE_CLASS (memory s0) x" if "x \<in> white_set A0" for x
    using u(4) [of x] e(11) [OF that] that xw white_set_objects [of A0] e(13) by auto
  moreover have "set (greens (?A j)) \<subseteq> set (greens (A0 j))" if "j \<in> group_indices" for j
    using e(10) [OF that] by (auto dest: list.set_sel(2) [OF F])
  ultimately have H: "same_heap s0 A0 s' ?A"
    using u(2,7) f d(1) same_pages_trans [OF e(2) u(6)] fr(3) unfolding same_heap_def by (simp add: w del: fun_upd_apply)
  have "words_kept s0 A0 rs s' ?A" using m by (intro words_kept_onward [OF d(2) on]) blast
  moreover have "blacks_safe s0 A0 s' ?A"
  proof (rule blacks_safe_onward [OF d(3) on])
    fix j y assume j: "j \<in> group_indices" and y: "y \<in> set (blacks (?A j))" "y \<in> set (whites (A0 j))"
    then have "y \<noteq> ?x" using xw by (auto simp: white_set_def)
    then show "y \<in> set (blacks (A j)) \<or> (\<forall>a\<in>set (object_cells s0 y (2 ^ j)). safe s0 s' ?A (memory s0 a))"
      using y(1) by (auto split: if_splits)
  qed
  moreover have "phase_ok h s0 A0 rs s' ?A (phase c)"
    by (rule phase_ok_mutator [OF d(5)]) (simp_all add: rec f(6))
  ultimately show ?thesis using H barrier_ok_onward [OF d(4) on] by (simp add: world_ok_def)
qed

lemma mutator_world_ok:
  assumes S: "snapshot_start s0 A0 rs" and W: "world_ok h s0 A0 rs c A"
    and st: "mutator_step (header_cells (all_objects A0)) t c c'"
  shows "\<exists>A'. world_ok h s0 A0 rs c' A'"
proof -
  note d = world_okD [OF W] and e = same_heapD [OF world_okD(1) [OF W]]
  show ?thesis
    using st
  proof cases
    case (barrier_test lhs rhs)
    have "world_ok h s0 A0 rs c' A"
      using W barrier_test_ok [OF W barrier_test(3), of rhs] e(3) by (simp add: world_ok_def barrier_test(1))
    then show ?thesis by blast
  next
    case (barrier_record x lhs rhs s')
    then show ?thesis using world_ok_record [OF S W barrier_record(2)] by (auto simp: mark_write_vector_record)
  next
    case (barrier_store lhs rhs)
    have "lhs \<notin> header_cells (all_objects A0)"
      "lhs \<in> snapshot_cells s0 A0 rs \<Longrightarrow> safe s0 (heap c) A (memory s0 lhs)"
      using d(4) [of t] barrier_store(2) by auto
    then have "world_ok h s0 A0 rs c' A" unfolding barrier_store(1) by (intro world_ok_store [OF W]) auto
    then show ?thesis by blast
  next
    case (setf_init lhs rhs s')
    have z: "memory (heap c) lhs = 0" and s': "s' = (heap c)\<lparr>memory := (memory (heap c))(lhs := rhs)\<rparr>"
      using setf_init(4) by (auto simp: RTsafe_setfInit_def rbind_def split: if_splits)
    have "safe s0 (heap c) A 0"
      using ptr_object_null [OF heap_repD(1) [OF snapshot_startD(1) [OF S]]] by (simp add: safe_def)
    then have "lhs \<in> snapshot_cells s0 A0 rs \<Longrightarrow> safe s0 (heap c) A (memory s0 lhs)"
      using d(2) z by (force simp: words_kept_def)
    then have "world_ok h s0 A0 rs (c\<lparr>heap := s', barrier := barrier c\<rparr>) A"
      unfolding s' by (intro world_ok_store [OF W setf_init(3)]) auto
    then show ?thesis using setf_init(1) by auto
  next
    case (allocate i md s' p)
    then show ?thesis using world_ok_allocate [OF S W allocate(3-6)] by blast
  qed
qed

end
