(* ===== verification/Snapshot_Runs.thy ===== *)
theory Snapshot_Runs
  imports Snapshot_Safety
begin

text \<open>
  Runs: the invariant in all reachable worlds, progress and the end of marking, and the
  steps put together to the functions of the code they were taken from.
\<close>

subsection \<open>Reachable worlds\<close>

lemma start_world_ok:
  assumes S: "snapshot_start s0 A0 rs"
  shows "world_ok h s0 A0 rs (marking_start s0 rs) A0"
proof -
  note d = snapshot_startD [OF S]
  have "RTwrite_vector s0 j = 0" if "0 \<le> j" "j < RTwrite_vector_length s0" for j
    using d(3) that by (simp add: barrier_clear_def)
  then have "same_heap s0 A0 s0 A0"
    using d(1,2,5) by (auto simp: same_heap_def)
  then show ?thesis
    using d(6) by (simp add: world_ok_def marking_start_def words_kept_def blacks_safe_def)
qed

lemma reachable_world_ok:
  assumes S: "snapshot_start s0 A0 rs" and r: "reachable (header_cells (all_objects A0)) s0 rs c"
  shows "\<exists>A. world_ok h s0 A0 rs c A"
  using r
proof induction
  case at_start
  then show ?case using start_world_ok [OF S] by blast
next
  case (by_collector c c')
  then show ?case using collector_world_ok [OF S] by blast
next
  case (by_mutator c t c')
  then show ?case using mutator_world_ok [OF S] by blast
qed

lemma collector_progress:
  assumes S: "snapshot_start s0 A0 rs" and W: "world_ok h s0 A0 rs c A" and n: "phase c \<noteq> Marked"
  shows "\<exists>c'. collector_step c c'"
proof -
  note d = world_okD [OF W] and e = same_heapD [OF world_okD(1) [OF W]]
  show ?thesis
  proof (cases "phase c")
    case (Scan_roots l)
    then show ?thesis
    proof (cases l)
      case (Cons r l')
      obtain s' where "RTtrace_pointer (item_word (memory (heap c)) r) (heap c) = Inr s'"
        using trace_step [OF d(1)] by metis
      then show ?thesis using collector_step.trace_root Scan_roots Cons by blast
    qed (blast intro: collector_step.roots_done)
  next
    case (At_group i n)
    then show ?thesis
      using collector_step.next_group collector_step.start_object collector_step.rescan collector_step.start_vector
      by (metis linorder_not_less)
  next
    case (In_object i n x l)
    then have i: "i \<in> group_indices" "grays (A i) \<noteq> []" "x = last (grays (A i))" using d(5) by auto
    show ?thesis
    proof (cases l)
      case Nil
      obtain s' where "on_group i (\<lambda>m g. Inr (blacken_object (marked_color (heap c)) m g x)) (heap c) = Inr s'"
        using blacken_step [OF d(1) i(1,2)] i(3) by metis
      then show ?thesis using collector_step.blacken In_object Nil by blast
    next
      case (Cons a l')
      obtain s' where "RTtrace_pointer (memory (heap c) a) (heap c) = Inr s'"
        using trace_step [OF d(1)] by metis
      then show ?thesis using collector_step.trace_cell In_object Cons by blast
    qed
  next
    case (In_vector j bits n)
    then have ph: "bits \<noteq> [] \<Longrightarrow> 0 \<le> j \<and> j < RTwrite_vector_length (heap c)" "\<forall>b\<in>set bits. b < 64"
      using d(5) e(4) by auto
    show ?thesis
    proof (cases bits)
      case Nil
      then show ?thesis
        using In_vector collector_step.next_long collector_step.mark_again collector_step.mark_done
        by (metis linorder_not_less)
    next
      case (Cons b bs)
      then obtain s' n' where "scan_write_bit j b (heap c, n) = Inr (s', n')"
        using vector_step [OF S d(1), of j b n] ph by (metis list.discI list.set_intros(1))
      then show ?thesis using collector_step.vector_bit In_vector Cons by blast
    qed
  qed (use n in simp)
qed

lemma collector_finishes:
  assumes S: "snapshot_start s0 A0 rs" and "world_ok h s0 A0 rs c A"
  shows "\<exists>c'. collector_step\<^sup>*\<^sup>* c c' \<and> phase c' = Marked"
proof -
  have "\<exists>c'. collector_step\<^sup>*\<^sup>* c c' \<and> phase c' = Marked"
    if "p = todo c A" "world_ok h s0 A0 rs c A" for p c A
    using that
  proof (induction p arbitrary: c A rule: wf_induct_rule [OF wf_todo_order])
    case (1 p)
    show ?case
    proof (cases "phase c = Marked")
      case False
      then obtain c1 where c1: "collector_step c c1" using collector_progress [OF S 1(3)] by blast
      then obtain A1 where A1: "world_ok h s0 A0 rs c1 A1" "(todo c1 A1, p) \<in> todo_order"
        using collector_world_ok [OF S 1(3)] 1(2) by blast
      then show ?thesis using 1(1) [OF A1(2) refl A1(1)] c1 by (meson converse_rtranclp_into_rtranclp)
    qed blast
  qed
  then show ?thesis using assms(2) by blast
qed

lemma marked_keeps_live:
  assumes S: "snapshot_start s0 A0 rs" and r: "reachable (header_cells (all_objects A0)) s0 rs c"
    and m: "phase c = Marked"
  obtains A where "heap_marking (heap c) A" and "object_set A = object_set A0" and "gray_set A = {}"
    and "start_live h s0 A0 rs \<subseteq> black_set A" and "white_set A \<subseteq> white_set A0 - start_live h s0 A0 rs"
    and "\<And>i. i \<in> group_indices \<Longrightarrow> set (greens (A0 i)) - set (greens (A i)) \<subseteq> set (blacks (A i))"
proof -
  obtain A where W: "world_ok h s0 A0 rs c A" using reachable_world_ok [OF S r] by blast
  note d = world_okD [OF W] and e = same_heapD [OF world_okD(1) [OF W]]
  have p: "gray_set A = {}" "start_live h s0 A0 rs \<inter> white_set A = {}" using d(5) m by simp_all
  have x: "x \<in> set (blacks (A i))"
    if "i \<in> group_indices" "x \<in> object_set A0 i" "x \<notin> white_set A" "x \<notin> set (greens (A i))" for i x
    using that p(1) e(7) [symmetric] by (auto simp: object_set_def white_set_def gray_set_def)
  have dis: "distinct (objects (A0 i))" if "i \<in> group_indices" for i
    by (rule heap_marking_distinct [OF snapshot_startD(1) [OF S] that])
  have "start_live h s0 A0 rs \<subseteq> black_set A"
  proof
    fix y assume y: "y \<in> start_live h s0 A0 rs"
    then have "y \<in> white_set A0" using live_subset by blast
    then obtain i where i: "i \<in> group_indices" "y \<in> set (whites (A0 i))" by (auto simp: white_set_def)
    have "y \<notin> set (greens (A i))" using e(10) [OF i(1)] dis [OF i(1)] i(2) by (auto simp: objects_def active_def)
    then have "y \<in> set (blacks (A i))" using i p(2) y by (intro x) (auto simp: object_set_def)
    then show "y \<in> black_set A" using i(1) by (auto simp: black_set_def)
  qed
  moreover have "set (greens (A0 i)) - set (greens (A i)) \<subseteq> set (blacks (A i))" if i: "i \<in> group_indices" for i
  proof
    fix y assume y: "y \<in> set (greens (A0 i)) - set (greens (A i))"
    have yo: "y \<in> object_set A0 i" using y by (simp add: object_set_def)
    have "y \<notin> white_set A0"
    proof
      assume "y \<in> white_set A0"
      then obtain j where j: "j \<in> group_indices" "y \<in> set (whites (A0 j))" by (auto simp: white_set_def)
      have "i = j"
        by (rule geometry_group_unique [OF heap_repD(4) [OF snapshot_startD(1) [OF S]] i j(1) yo
              white_object [where A = A0, OF j]])
      then show False using dis [OF i] j(2) y by (auto simp: objects_def active_def)
    qed
    then show "y \<in> set (blacks (A i))" using same_heap_white [OF d(1)] y yo by (intro x [OF i]) auto
  qed
  ultimately show thesis
    using that [OF e(1) e(7) p(1)] p(2) same_heap_white [OF d(1)] by blast
qed

subsection \<open>Roots\<close>

text \<open>
  The roots a collection starts from, as cells, hold the words that scan_root_set traces,
  where no client has registered a scanner and static objects have the two plain classes.
\<close>

lemma object_cells_words:
  assumes "GET_STORAGE_CLASS (memory s) p \<in> {SC_NOPOINTERS, SC_POINTERS}"
  shows "map (memory s) (object_cells s p n) = object_words h (memory s) p n"
  using assms by (auto simp: object_cells_def object_words_def segment_words_def Let_def sc_defs)

lemma root_items_words:
  assumes n: "total_root_scanners h = 0"
    and st: "\<And>p k. (p, k) \<in> set (static_list fuel s) \<Longrightarrow> GET_STORAGE_CLASS (memory s) p \<in> {SC_NOPOINTERS, SC_POINTERS}"
  shows "item_word (memory s) ` set (root_items fuel s) = set (root_words fuel h s)"
proof -
  have [simp]: "item_word m \<circ> Root_cell = m" "item_word m \<circ> Root_word = id" for m
    by (simp_all add: fun_eq_iff)
  have g: "map (\<lambda>i. memory s (global_roots s ! i)) [0..<length (global_roots s)] = map (memory s) (global_roots s)"
    by (rule nth_equalityI) simp_all
  have "map (item_word (memory s)) (concat (map (\<lambda>(p, n). map Root_cell (object_cells s p n)) (static_list fuel s))) =
      static_words fuel h s"
    unfolding static_words_def map_concat map_map
    by (rule arg_cong [where f = concat], rule map_cong [OF refl]) (use object_cells_words [OF st] in \<open>auto simp: comp_def\<close>)
  moreover have "map (item_word (memory s)) (concat (map (\<lambda>i. let t = saved_threads s ! i in
         map Root_cell (cells (segment_length (registers t) (registers t + 23 * 8)) (registers t) @
                        cells (segment_length (stack_top t) (stack_bottom_of t)) (stack_top t)))
       [0..<total_saved_threads s])) =
      concat (map (\<lambda>i. thread_words (memory s) (saved_threads s ! i)) [0..<total_saved_threads s])"
    unfolding map_concat map_map
    by (rule arg_cong [where f = concat], rule map_cong [OF refl]) (simp add: thread_words_def segment_words_def Let_def)
  ultimately have "map (item_word (memory s)) (root_items fuel s) = root_words fuel h s"
    using n g by (simp add: root_items_def root_words_def)
  then show ?thesis by (metis list.set_map)
qed

end
