(* ===== verification/Snapshot_Code.thy ===== *)
theory Snapshot_Code
  imports Snapshot_Runs
begin

text \<open>
  The steps of the collector and of the write barrier, taken one after the other with no
  step of another thread between, are the functions of the code: the marking loop mark_loop
  of full_gc, and RTwrite_barrier.
\<close>

subsection \<open>The write barrier\<close>

lemma barrier_steps:
  assumes "barrier c t = Outside" and "lhs \<notin> Hd" and "RTwrite_barrier lhs rhs (heap c) = Inr s'"
  shows "(mutator_step Hd t)\<^sup>*\<^sup>* c (c\<lparr>heap := s'\<rparr>)"
proof -
  let ?s = "heap c"
  have store: "(mutator_step Hd t)\<^sup>*\<^sup>* w (w\<lparr>heap := (heap w)\<lparr>memory := (memory (heap w))(lhs := rhs)\<rparr>,
      barrier := (barrier w)(t := Outside)\<rparr>)" if "barrier w t = To_store lhs rhs" for w
    using mutator_step.barrier_store [OF that] by blast
  have u: "(barrier c)(t := Outside) = barrier c" using assms(1) by auto
  show ?thesis
  proof (cases "if enable_write_barrier ?s then overwritten_white ?s lhs else None")
    case None
    then have b: "mutator_step Hd t c (c\<lparr>barrier := (barrier c)(t := To_store lhs rhs)\<rparr>)" (is "mutator_step _ _ _ ?c1")
      using mutator_step.barrier_test [OF assms(1,2), of rhs] by (cases "enable_write_barrier ?s") simp_all
    have "s' = ?s\<lparr>memory := (memory ?s)(lhs := rhs)\<rparr>"
      using assms(3) None by (auto simp: RTwrite_barrier_eq barrier_state_def Let_def split: if_splits)
    then show ?thesis using converse_rtranclp_into_rtranclp [OF b store [of ?c1]] u by simp
  next
    case (Some x)
    then have e: "enable_write_barrier ?s" "overwritten_white ?s lhs = Some x" by (auto split: if_splits)
    have b: "mutator_step Hd t c (c\<lparr>barrier := (barrier c)(t := To_record x lhs rhs)\<rparr>)" (is "mutator_step _ _ _ ?c1")
      using mutator_step.barrier_test [OF assms(1,2), of rhs] e by simp
    have "mutator_step Hd t ?c1 (?c1\<lparr>heap := record_slot x ?s, barrier := (barrier ?c1)(t := To_store lhs rhs)\<rparr>)"
      (is "mutator_step _ _ _ ?c2")
      by (rule mutator_step.barrier_record) (simp_all add: mark_write_vector_record)
    moreover have "s' = (record_slot x ?s)\<lparr>memory := (memory ?s)(lhs := rhs)\<rparr>"
      using assms(3) e by (auto simp: RTwrite_barrier_eq barrier_state_def Let_def)
    ultimately show ?thesis
      using b store [of ?c2] u by (simp add: converse_rtranclp_into_rtranclp)
  qed
qed

subsection \<open>Scanning an object\<close>

definition trace_at :: "addr \<Rightarrow> rt_state \<Rightarrow> rt_error + rt_state" where
  "trace_at a s = RTtrace_pointer (memory s a) s"

lemma scan_segment_loop_cells:
  assumes "segment_length low high = n" and "uint high + 8 \<le> 2 ^ 64" and "n < fuel"
  shows "scan_segment_loop fuel low high s = rfold trace_at (cells n low) s"
  using assms
proof (induction n arbitrary: low fuel s)
  case 0
  then have "\<not> low < high" by (simp add: segment_length_def word_less_def)
  moreover obtain f where "fuel = Suc f" using 0 by (cases fuel) auto
  ultimately show ?case by simp
next
  case (Suc n)
  obtain f where f: "fuel = Suc f" "n < f" using Suc.prems(3) by (cases fuel) auto
  have lt: "uint low < uint high" using Suc.prems(1) by (simp add: segment_length_def)
  then have "uint (low + 8) = uint low + 8" using Suc.prems(2) by (intro uint_plus_8) linarith
  then have n: "segment_length (low + GC_POINTER_ALIGNMENT) high = n"
    using Suc.prems(1) lt by (simp add: segment_length_def config_defs)
  have "low < high" using lt by (simp add: word_less_def)
  then show ?case
    using Suc.IH [OF n Suc.prems(2) f(2)] by (simp add: f(1) trace_at_def rbind_def split: sum.splits)
qed

lemma scan_object_cells:
  assumes c: "GET_STORAGE_CLASS (memory s) x \<in> {SC_NOPOINTERS, SC_POINTERS}"
    and h: "uint (x + word_of_int n) + 8 \<le> 2 ^ 64"
  shows "scan_object h x n s = rfold trace_at (object_cells s x n) s"
proof (cases "GET_STORAGE_CLASS (memory s) x = SC_POINTERS")
  case True
  then show ?thesis
    using scan_segment_loop_cells [OF refl h segment_length_fuel]
    by (simp add: scan_object_def object_cells_def Let_def scan_memory_segment_def sc_defs)
next
  case False
  then show ?thesis using c by (simp add: scan_object_def object_cells_def Let_def sc_defs)
qed

lemma trace_cells_steps:
  assumes "rfold trace_at as (heap c) = Inr s'" and "phase c = In_object i n x (as @ l)"
  shows "collector_step\<^sup>*\<^sup>* c (c\<lparr>heap := s', phase := In_object i n x l\<rparr>)"
  using assms
proof (induction as arbitrary: c)
  case Nil
  then have "c\<lparr>heap := s', phase := In_object i n x l\<rparr> = c" by simp
  then show ?case by simp
next
  case (Cons a as)
  obtain s1 where s1: "RTtrace_pointer (memory (heap c) a) (heap c) = Inr s1" "rfold trace_at as s1 = Inr s'"
    using Cons.prems(1) by (auto simp: rbind_Inr_iff trace_at_def [of a])
  have "collector_step c (c\<lparr>heap := s1, phase := In_object i n x (as @ l)\<rparr>)" (is "collector_step _ ?c1")
    using s1(1) Cons.prems(2) by (intro collector_step.trace_cell) auto
  moreover have "collector_step\<^sup>*\<^sup>* ?c1 (?c1\<lparr>heap := s', phase := In_object i n x l\<rparr>)"
    using s1(2) by (intro Cons.IH) auto
  ultimately show ?case by (simp add: converse_rtranclp_into_rtranclp)
qed

subsection \<open>The marking loop\<close>

lemma collector_run_ok:
  assumes "collector_step\<^sup>*\<^sup>* c c'" and "snapshot_start s0 A0 rs" and "world_ok h s0 A0 rs c A"
  shows "\<exists>A'. world_ok h s0 A0 rs c' A'"
  using assms by (induction arbitrary: A rule: converse_rtranclp_induct) (blast dest: collector_world_ok)+

text \<open>One object, in the group the collector stands at: scan_object_with_group.\<close>

lemma scan_object_steps:
  assumes S: "snapshot_start s0 A0 rs" and W: "world_ok h s0 A0 rs c A"
    and p: "phase c = At_group i n" "i \<le> MAX_GROUP_INDEX" and x: "scan_current (heap c) i = x" "x \<noteq> 0"
    and f: "scan_object_with_group h i x (heap c) = Inr s'"
  shows "collector_step\<^sup>*\<^sup>* c (c\<lparr>heap := s', phase := At_group i (n + 1)\<rparr>)"
    and "get_prev (memory s') x = scan_current s' i"
proof -
  note d = world_okD [OF W] and e = same_heapD [OF world_okD(1) [OF W]]
  let ?s = "heap c"
  have i: "i \<in> group_indices" using d(5) p by (auto simp: group_indices_def)
  have g: "grays (A i) \<noteq> []" using scan_current_0(1) [OF e(1) i] x by auto
  have xl: "x = last (grays (A i))" using scan_current_0(2) [OF e(1) i g] x by simp
  then have xw: "x \<in> set (whites (A0 i))" using e(9) [OF i] last_in_set [OF g] by blast
  then have w0: "x \<in> white_set A0" using i by (auto simp: white_set_def)
  have sz: "gsize (groups ?s i) = 2 ^ i" using heap_repD(3) [OF e(1)] i by (simp add: groups_ok_def)
  have "x \<in> object_set A i" using white_object [where A = A0, OF i xw] e(7) by simp
  then have hi: "uint (x + word_of_int (2 ^ i)) + 8 \<le> 2 ^ 64"
    by (rule body_cells_uint(1) [OF heap_repD(1,4) [OF e(1)] i])
  have "GET_STORAGE_CLASS (memory ?s) x \<in> {SC_NOPOINTERS, SC_POINTERS}"
    using e(11) [OF w0] snapshot_startD(8) [OF S w0] by simp
  note sc = scan_object_cells [OF this hi, of h]
  obtain s1 where s1: "rfold trace_at (object_cells ?s x (2 ^ i)) ?s = Inr s1"
    "on_group i (\<lambda>m g. Inr (blacken_object (marked_color s1) m g x)) s1 = Inr s'"
    using f unfolding scan_object_with_group_def sz sc by (auto simp: rbind_Inr_iff)
  let ?c1 = "c\<lparr>phase := In_object i n x (object_cells ?s x (2 ^ i))\<rparr>"
  let ?c2 = "c\<lparr>heap := s1, phase := In_object i n x []\<rparr>"
  have "collector_step c ?c1" using collector_step.start_object [OF p x] sz by simp
  moreover have "collector_step\<^sup>*\<^sup>* ?c1 ?c2"
    using trace_cells_steps [of "object_cells ?s x (2 ^ i)" ?c1 s1 i n x "[]"] s1(1) by simp
  moreover have "collector_step ?c2 (c\<lparr>heap := s', phase := At_group i (n + 1)\<rparr>)"
    using collector_step.blacken [of ?c2 i n x s'] s1(2) by simp
  ultimately show "collector_step\<^sup>*\<^sup>* c (c\<lparr>heap := s', phase := At_group i (n + 1)\<rparr>)"
    by (meson converse_rtranclp_into_rtranclp rtranclp.rtrancl_into_rtrancl)
  have "GET_COLOR (memory s') x \<noteq> GRAY" "gblack (groups s' i) = x"
  proof -
    have ok: "collector_step\<^sup>*\<^sup>* c ?c2"
      using \<open>collector_step c ?c1\<close> \<open>collector_step\<^sup>*\<^sup>* ?c1 ?c2\<close> by (rule converse_rtranclp_into_rtranclp)
    obtain A2 where W2: "world_ok h s0 A0 rs ?c2 A2" using collector_run_ok [OF ok S W] by blast
    note c2 = heap_repD(2) [OF same_heapD(1) [OF world_okD(1) [OF W2]]]
    have "aligned x" using heap_marking_aligned(1) [OF snapshot_startD(1) [OF S]] w0 white_set_objects by blast
    then show "GET_COLOR (memory s') x \<noteq> GRAY" "gblack (groups s' i) = x"
      using s1(2) colors_okD [OF c2] by (auto simp: on_group_def blacken_object_def rbind_Inr_iff after_SET_COLOR)
  qed
  then show "get_prev (memory s') x = scan_current s' i" using x(2) by (simp add: scan_current_def GRAYP_def)
qed

lemma scan_group_steps:
  assumes S: "snapshot_start s0 A0 rs" and "world_ok h s0 A0 rs c A"
    and "phase c = At_group i n" and i: "i \<le> MAX_GROUP_INDEX"
    and "scan_group_loop fuel h i (scan_current (heap c) i) (heap c) n = Inr (s', n')"
  shows "collector_step\<^sup>*\<^sup>* c (c\<lparr>heap := s', phase := At_group (i + 1) n'\<rparr>)"
  using assms(2,3,5)
proof (induction fuel arbitrary: c A n)
  case (Suc fuel)
  let ?x = "scan_current (heap c) i"
  show ?case
  proof (cases "?x = 0")
    case True
    then have "s' = heap c" "n' = n" using Suc.prems(3) by simp_all
    then show ?thesis using collector_step.next_group [OF Suc.prems(2) i True] by simp
  next
    case False
    then obtain s1 where s1: "scan_object_with_group h i ?x (heap c) = Inr s1"
      "scan_group_loop fuel h i (get_prev (memory s1) ?x) s1 (n + 1) = Inr (s', n')"
      using Suc.prems(3) by (auto simp: rbind_Inr_iff)
    note 1 = scan_object_steps [OF S Suc.prems(1,2) i refl False s1(1)]
    let ?c1 = "c\<lparr>heap := s1, phase := At_group i (n + 1)\<rparr>"
    obtain A1 where "world_ok h s0 A0 rs ?c1 A1" using collector_run_ok [OF 1(1) S Suc.prems(1)] by blast
    from Suc.IH [OF this, of "n + 1"] s1(2) 1
    show ?thesis by (simp add: rtranclp_trans)
  qed
qed simp

lemma scan_groups_steps:
  assumes S: "snapshot_start s0 A0 rs" and "world_ok h s0 A0 rs c A" and "phase c = At_group k n"
    and "k \<le> Suc MAX_GROUP_INDEX"
    and "rfold (scan_gray_group fuel h) [k..<Suc MAX_GROUP_INDEX] (heap c, n) = Inr (s', n')"
  shows "collector_step\<^sup>*\<^sup>* c (c\<lparr>heap := s', phase := At_group (Suc MAX_GROUP_INDEX) n'\<rparr>)"
  using assms(2-5)
proof (induction "Suc MAX_GROUP_INDEX - k" arbitrary: c A k n)
  case 0
  then have k: "k = Suc MAX_GROUP_INDEX" by simp
  then have "s' = heap c" "n' = n" using 0 by simp_all
  then have "c\<lparr>heap := s', phase := At_group (Suc MAX_GROUP_INDEX) n'\<rparr> = c" using 0(3) k by simp
  then show ?case by simp
next
  case (Suc d)
  then have k: "k \<le> MAX_GROUP_INDEX" by simp
  then have "[k..<Suc MAX_GROUP_INDEX] = k # [Suc k..<Suc MAX_GROUP_INDEX]" by (intro upt_conv_Cons) simp
  then obtain s1 n1 where s1: "scan_gray_group fuel h k (heap c, n) = Inr (s1, n1)"
    "rfold (scan_gray_group fuel h) [Suc k..<Suc MAX_GROUP_INDEX] (s1, n1) = Inr (s', n')"
    using Suc.prems(4) by (auto simp: rbind_Inr_iff)
  have "scan_group_loop fuel h k (scan_current (heap c) k) (heap c) n = Inr (s1, n1)"
    using s1(1) by (simp add: scan_gray_group_def scan_current_def Let_def)
  note 1 = scan_group_steps [OF S Suc.prems(1,2) k this]
  let ?c1 = "c\<lparr>heap := s1, phase := At_group (k + 1) n1\<rparr>"
  obtain A1 where "world_ok h s0 A0 rs ?c1 A1" using collector_run_ok [OF 1 S Suc.prems(1)] by blast
  from Suc.hyps(1) [OF _ this, of "k + 1" n1] Suc.hyps(2) s1(2) 1 k
  show ?case by (simp add: rtranclp_trans)
qed

lemma scan_gray_set_steps:
  assumes S: "snapshot_start s0 A0 rs" and "world_ok h s0 A0 rs c A" and "phase c = At_group MIN_GROUP_INDEX 0"
    and "scan_gray_set rounds fuel h (heap c) = Inr s'"
  shows "collector_step\<^sup>*\<^sup>* c (c\<lparr>heap := s', phase := In_vector (- 1) [] 0\<rparr>)"
  using assms(2-4)
proof (induction rounds arbitrary: c A)
  case (Suc rounds)
  obtain s1 n1 where s1: "rfold (scan_gray_group fuel h) group_list (heap c, 0) = Inr (s1, n1)"
    "(if 0 < n1 then scan_gray_set rounds fuel h s1 else Inr s1) = Inr s'"
    using Suc.prems(3) by (auto simp: rbind_Inr_iff)
  have "MIN_GROUP_INDEX \<le> Suc MAX_GROUP_INDEX" by (simp add: config_defs)
  note 1 = scan_groups_steps [OF S Suc.prems(1,2) this, of fuel s1 n1, folded group_list_def, OF s1(1)]
  let ?c1 = "c\<lparr>heap := s1, phase := At_group (Suc MAX_GROUP_INDEX) n1\<rparr>"
  obtain A1 where W1: "world_ok h s0 A0 rs ?c1 A1" using collector_run_ok [OF 1 S Suc.prems(1)] by blast
  show ?case
  proof (cases "0 < n1")
    case True
    let ?c2 = "?c1\<lparr>phase := At_group MIN_GROUP_INDEX 0\<rparr>"
    have 2: "collector_step ?c1 ?c2" 
      by (rule collector_step.rescan [where n = n1 and i = "Suc MAX_GROUP_INDEX"]) (use True lessI in simp_all)
    obtain A2 where "world_ok h s0 A0 rs ?c2 A2" using collector_world_ok [OF S W1 2] by blast
    from Suc.IH [OF this] s1(2) True have "collector_step\<^sup>*\<^sup>* ?c2 (c\<lparr>heap := s', phase := In_vector (- 1) [] 0\<rparr>)" by simp
    with 1 2 show ?thesis by (meson rtranclp.rtrancl_into_rtrancl rtranclp_trans)
  next
    case False
    then have "s' = s1" using s1(2) by simp
    moreover have "collector_step ?c1 (?c1\<lparr>phase := In_vector (- 1) [] 0\<rparr>)"
      by (rule collector_step.start_vector [where n = n1 and i = "Suc MAX_GROUP_INDEX"]) (use False lessI in simp_all)
    ultimately show ?thesis using 1 by (simp add: rtranclp.rtrancl_into_rtrancl)
  qed
qed simp

lemma scan_bits_steps:
  assumes "rfold (scan_write_bit j) bs (heap c, n) = Inr (s', n')" and "phase c = In_vector j bs n"
  shows "collector_step\<^sup>*\<^sup>* c (c\<lparr>heap := s', phase := In_vector j [] n'\<rparr>)"
  using assms
proof (induction bs arbitrary: c n)
  case Nil
  then have "c\<lparr>heap := s', phase := In_vector j [] n'\<rparr> = c" by simp
  then show ?case by simp
next
  case (Cons b bs)
  obtain s1 n1 where s1: "scan_write_bit j b (heap c, n) = Inr (s1, n1)" "rfold (scan_write_bit j) bs (s1, n1) = Inr (s', n')"
    using Cons.prems(1) by (auto simp: rbind_Inr_iff)
  have "collector_step c (c\<lparr>heap := s1, phase := In_vector j bs n1\<rparr>)" (is "collector_step _ ?c1")
    by (rule collector_step.vector_bit [OF Cons.prems(2) s1(1)])
  moreover have "collector_step\<^sup>*\<^sup>* ?c1 (?c1\<lparr>heap := s', phase := In_vector j [] n'\<rparr>)"
    using s1(2) by (intro Cons.IH) auto
  ultimately show ?case by (simp add: converse_rtranclp_into_rtranclp)
qed

lemma scan_longs_steps:
  assumes S: "snapshot_start s0 A0 rs" and "world_ok h s0 A0 rs c A" and "phase c = In_vector (int k - 1) [] n"
    and "k \<le> K" and K: "K = nat (RTwrite_vector_length s0)"
    and "rfold scan_write_long (map int [k..<K]) (heap c, n) = Inr (s', n')"
  shows "collector_step\<^sup>*\<^sup>* c (c\<lparr>heap := s', phase := In_vector (int K - 1) [] n'\<rparr>)"
  using assms(2-4,6)
proof (induction "K - k" arbitrary: c A k n)
  case 0
  then have "s' = heap c" "n' = n" "k = K" by simp_all
  then have "c\<lparr>heap := s', phase := In_vector (int K - 1) [] n'\<rparr> = c" using 0(3) by simp
  then show ?case by simp
next
  case (Suc d)
  then have k: "k < K" by simp
  have len: "int k < RTwrite_vector_length (heap c)"
    using same_heapD(4) [OF world_okD(1) [OF Suc.prems(1)]] k K by linarith
  have "[k..<K] = k # [Suc k..<K]" using k by (rule upt_conv_Cons)
  then obtain s1 n1 where s1: "scan_write_long (int k) (heap c, n) = Inr (s1, n1)"
    "rfold scan_write_long (map int [Suc k..<K]) (s1, n1) = Inr (s', n')"
    using Suc.prems(4) by (auto simp: rbind_Inr_iff)
  let ?c1 = "c\<lparr>phase := In_vector (int k) (bits_of_long (heap c) (int k)) n\<rparr>"
  let ?c2 = "c\<lparr>heap := s1, phase := In_vector (int k) [] n1\<rparr>"
  have 1: "collector_step c ?c1"
    using collector_step.next_long [OF Suc.prems(2)] len by simp
  have "rfold (scan_write_bit (int k)) (bits_of_long (heap c) (int k)) (heap c, n) = Inr (s1, n1)"
    using s1(1) by (simp add: scan_write_long_def bits_of_long_def split: if_splits)
  then have 2: "collector_step\<^sup>*\<^sup>* ?c1 ?c2"
    using scan_bits_steps [of "int k" _ ?c1 n s1 n1] by simp
  note 3 = converse_rtranclp_into_rtranclp [of collector_step, OF 1 2]
  obtain A2 where "world_ok h s0 A0 rs ?c2 A2" using collector_run_ok [OF 3 S Suc.prems(1)] by blast
  from Suc.hyps(1) [OF _ this, of "Suc k" n1] Suc.hyps(2) s1(2) 3 k
  show ?case by (simp add: rtranclp_trans)
qed

text \<open>The whole loop of full_gc.\<close>

lemma mark_loop_steps:
  assumes S: "snapshot_start s0 A0 rs" and "world_ok h s0 A0 rs c A" and "phase c = At_group MIN_GROUP_INDEX 0"
    and "mark_loop rounds fuel h (heap c) = Inr s'"
  shows "collector_step\<^sup>*\<^sup>* c (c\<lparr>heap := s', phase := Marked\<rparr>)"
  using assms(2-4)
proof (induction rounds arbitrary: c A)
  case (Suc rounds)
  obtain s1 s2 n where s1: "scan_gray_set fuel fuel h (heap c) = Inr s1" "scan_write_vector s1 = Inr (s2, n)"
    "(if 0 < n then mark_loop rounds fuel h s2 else Inr s2) = Inr s'"
    using Suc.prems(3) by (auto simp: rbind_Inr_iff)
  note 1 = scan_gray_set_steps [OF S Suc.prems(1,2) s1(1)]
  let ?c1 = "c\<lparr>heap := s1, phase := In_vector (- 1) [] 0\<rparr>"
  let ?K = "nat (RTwrite_vector_length s0)"
  let ?c2 = "c\<lparr>heap := s2, phase := In_vector (int ?K - 1) [] n\<rparr>"
  obtain A1 where W1: "world_ok h s0 A0 rs ?c1 A1" using collector_run_ok [OF 1 S Suc.prems(1)] by blast
  have l1: "RTwrite_vector_length s1 = RTwrite_vector_length s0"
    using same_heapD(4) [OF world_okD(1) [OF W1]] by simp
  have r: "rfold scan_write_long (map int [0..<?K]) (heap ?c1, 0) = Inr (s2, n)"
    using s1(2) unfolding scan_write_vector_def l1 by simp
  have "phase ?c1 = In_vector (int 0 - 1) [] 0" by simp
  from scan_longs_steps [OF S W1 this le0 refl r]
  have "collector_step\<^sup>*\<^sup>* ?c1 (?c1\<lparr>heap := s2, phase := In_vector (int ?K - 1) [] n\<rparr>)" .
  from rtranclp_trans [OF 1 this] have 2: "collector_step\<^sup>*\<^sup>* c ?c2" by simp
  obtain A2 where W2: "world_ok h s0 A0 rs ?c2 A2" using collector_run_ok [OF 2 S Suc.prems(1)] by blast
  have p2: "phase ?c2 = In_vector (int ?K - 1) [] n" by simp
  have l2: "RTwrite_vector_length (heap ?c2) \<le> int ?K - 1 + 1"
    using same_heapD(4) [OF world_okD(1) [OF W2]] by simp
  show ?case
  proof (cases "0 < n")
    case True
    let ?c3 = "?c2\<lparr>phase := At_group MIN_GROUP_INDEX 0\<rparr>"
    have 3: "collector_step ?c2 ?c3"  by (rule collector_step.mark_again [OF p2 l2 True])
    obtain A3 where "world_ok h s0 A0 rs ?c3 A3" using collector_world_ok [OF S W2 3] by blast
    from Suc.IH [OF this] s1(3) True have "collector_step\<^sup>*\<^sup>* ?c3 (c\<lparr>heap := s', phase := Marked\<rparr>)" by simp
    with 2 3 show ?thesis by (meson rtranclp.rtrancl_into_rtrancl rtranclp_trans)
  next
    case False
    then have "s' = s2" using s1(3) by simp
    moreover have "collector_step ?c2 (?c2\<lparr>phase := Marked\<rparr>)"
      using False by (intro collector_step.mark_done [OF p2 l2]) simp
    ultimately show ?thesis using 2 by (simp add: rtranclp.rtrancl_into_rtrancl)
  qed
qed simp

end
