(* ===== verification/Snapshot_Total.thy ===== *)
theory Snapshot_Total
  imports Snapshot_Code
begin

text \<open>
  In every world that concurrent marking can reach, mark_loop returns: the loops over the gray
  objects end with fuel for the objects that were white at the start, and since a collector
  that runs alone empties the write vector in its first round, the second round is the last.
\<close>

subsection \<open>One object\<close>

lemma trace_cells_total:
  assumes "same_heap s0 A0 s A"
  shows "\<exists>s' A'. rfold trace_at as s = Inr s' \<and> same_heap s0 A0 s' A' \<and> white_set A' \<subseteq> white_set A \<and>
    (\<forall>i. \<exists>pre. grays (A' i) = pre @ grays (A i)) \<and> unscanned A' = unscanned A \<and>
    RTwrite_vector s' = RTwrite_vector s"
  using assms
proof (induction as arbitrary: s A)
  case Nil
  then show ?case by auto
next
  case (Cons a as)
  obtain s1 A1 where 1: "RTtrace_pointer (memory s a) s = Inr s1" "same_heap s0 A0 s1 A1" "onward s A s1 A1"
    "\<And>i. \<exists>pre. grays (A1 i) = pre @ grays (A i)" "unscanned A1 = unscanned A" "RTwrite_vector s1 = RTwrite_vector s"
    using trace_step [OF Cons.prems] by metis
  obtain s' A' where 2: "rfold trace_at as s1 = Inr s'" "same_heap s0 A0 s' A'" "white_set A' \<subseteq> white_set A1"
    "\<forall>i. \<exists>pre. grays (A' i) = pre @ grays (A1 i)" "unscanned A' = unscanned A1" "RTwrite_vector s' = RTwrite_vector s1"
    using Cons.IH [OF 1(2)] by blast
  have "trace_at a s = Inr s1" using 1(1) by (simp add: trace_at_def)
  moreover have "\<exists>pre. grays (A' i) = pre @ grays (A i)" for i using 1(4) [of i] 2(4) by (metis append.assoc)
  moreover have "white_set A' \<subseteq> white_set A" using 1(3) 2(3) by (auto simp: onward_def)
  ultimately show ?case using 1(5,6) 2 by (intro exI [of _ s'] exI [of _ A']) simp
qed

text \<open>Behind a black object the list leads on to the last gray one.\<close>

lemma blackened_prev:
  assumes H: "same_heap s0 A0 s' A'" and i: "i \<in> group_indices" and al: "aligned x" "x \<noteq> 0"
    and c: "colors_ok (marked_color s) (unmarked_color s)"
    and b: "on_group i (\<lambda>m g. Inr (blacken_object (marked_color s) m g x)) s = Inr s'"
  shows "get_prev (memory s') x = last_or 0 (grays (A' i))"
proof -
  have "GET_COLOR (memory s') x \<noteq> GRAY" "gblack (groups s' i) = x"
    using b colors_okD [OF c] al by (auto simp: on_group_def blacken_object_def rbind_Inr_iff after_SET_COLOR)
  then have "get_prev (memory s') x = scan_current s' i" using al by (simp add: scan_current_def GRAYP_def)
  then show ?thesis using scan_current_eq [OF same_heapD(1) [OF H] i] by simp
qed

lemma scan_object_total:
  assumes S: "snapshot_start s0 A0 rs" and H: "same_heap s0 A0 s A"
    and i: "i \<in> group_indices" and ne: "grays (A i) \<noteq> []"
  shows "\<exists>s' A'. scan_object_with_group h i (last (grays (A i))) s = Inr s' \<and> same_heap s0 A0 s' A' \<and>
    unscanned A = Suc (unscanned A') \<and> get_prev (memory s') (last (grays (A i))) = last_or 0 (grays (A' i)) \<and>
    white_set A' \<subseteq> white_set A \<and> RTwrite_vector s' = RTwrite_vector s"
proof -
  let ?x = "last (grays (A i))"
  note e = same_heapD [OF H]
  have xw: "?x \<in> set (whites (A0 i))" using e(9) [OF i] last_in_set [OF ne] by blast
  then have w0: "?x \<in> white_set A0" using i by (auto simp: white_set_def)
  have xo: "?x \<in> object_set A i" using white_object [where A = A0, OF i xw] e(7) by simp
  then have al: "aligned ?x" "?x \<noteq> 0" using heap_marking_aligned [OF e(1)] i by (auto simp: all_objects_def)
  have sz: "gsize (groups s i) = 2 ^ i" using heap_repD(3) [OF e(1)] i by (simp add: groups_ok_def)
  have hi: "uint (?x + word_of_int (2 ^ i)) + 8 \<le> 2 ^ 64" by (rule body_cells_uint(1) [OF heap_repD(1,4) [OF e(1)] i xo])
  have "GET_STORAGE_CLASS (memory s) ?x \<in> {SC_NOPOINTERS, SC_POINTERS}"
    using e(11) [OF w0] snapshot_startD(8) [OF S w0] by simp
  note sc = scan_object_cells [OF this hi, of h]
  obtain s1 A1 where 1: "rfold trace_at (object_cells s ?x (2 ^ i)) s = Inr s1" "same_heap s0 A0 s1 A1"
    "white_set A1 \<subseteq> white_set A" "\<exists>pre. grays (A1 i) = pre @ grays (A i)" "unscanned A1 = unscanned A"
    "RTwrite_vector s1 = RTwrite_vector s"
    using trace_cells_total [OF H] by blast
  then have l: "grays (A1 i) \<noteq> []" "last (grays (A1 i)) = ?x" using ne by auto
  obtain s' where 2: "on_group i (\<lambda>m g. Inr (blacken_object (marked_color s1) m g ?x)) s1 = Inr s'"
    "same_heap s0 A0 s' (A1(i := a_blacken (A1 i)))" "onward s1 A1 s' (A1(i := a_blacken (A1 i)))"
    "unscanned A1 = Suc (unscanned (A1(i := a_blacken (A1 i))))" "RTwrite_vector s' = RTwrite_vector s1"
    by (rule blacken_step [OF 1(2) i l(1), unfolded l(2)])
  note prev = blackened_prev [OF 2(2) i al heap_repD(2) [OF same_heapD(1) [OF 1(2)]] 2(1)]
  have "scan_object_with_group h i ?x s = Inr s'" using 1(1) 2(1) by (simp add: scan_object_with_group_def sz sc)
  then show ?thesis using 1 2 prev by (intro exI [of _ s'] exI [of _ "A1(i := a_blacken (A1 i))"]) (auto simp: onward_def)
qed

subsection \<open>The loops\<close>

text \<open>While the collector runs alone over the gray objects the write vector \<open>v\<close> stays as it is.\<close>

interpretation snapshot_scan: gray_scanning
  "\<lambda>s A. snapshot_start s0 A0 rs \<and> same_heap s0 A0 s A \<and> RTwrite_vector s = v" h for h s0 A0 rs v
proof
  show "snapshot_start s0 A0 rs \<and> same_heap s0 A0 s A \<and> RTwrite_vector s = v \<Longrightarrow> heap_marking s A" for s A
    by (elim conjE) (rule same_heapD(1))
  show "\<exists>s' A'. scan_object_with_group h i (last (grays (A i))) s = Inr s' \<and>
      (snapshot_start s0 A0 rs \<and> same_heap s0 A0 s' A' \<and> RTwrite_vector s' = v) \<and> unscanned A = Suc (unscanned A') \<and>
      get_prev (memory s') (last (grays (A i))) = last_or 0 (grays (A' i)) \<and> white_set A' \<subseteq> white_set A"
    if "snapshot_start s0 A0 rs \<and> same_heap s0 A0 s A \<and> RTwrite_vector s = v" "i \<in> group_indices" "grays (A i) \<noteq> []"
    for s A i
    using scan_object_total [of s0 A0 rs s A i h] that by metis
qed

text \<open>There are never more objects to scan than were white at the start.\<close>

lemma unscanned_start:
  assumes "same_heap s0 A0 s A"
  shows "unscanned A \<le> unscanned A0"
  unfolding unscanned_def
proof (rule sum_mono)
  fix i assume i: "i \<in> group_indices"
  note e = same_heapD [OF assms]
  have d: "distinct (whites (A i) @ grays (A i))"
    using heap_marking_distinct [OF e(1) i] by (auto simp: objects_def active_def)
  have "length (whites (A i)) + length (grays (A i)) = card (set (whites (A i) @ grays (A i)))"
    using distinct_card [OF d] by simp
  also have "\<dots> \<le> card (set (whites (A0 i)))" using e(8,9) [OF i] by (intro card_mono) auto
  also have "\<dots> \<le> length (whites (A0 i))" by (rule card_length)
  finally show "length (whites (A i)) + length (grays (A i)) \<le> length (whites (A0 i)) + length (grays (A0 i))" by simp
qed

text \<open>A pass over the vector by a collector alone leaves no bit behind.\<close>

lemma a_gray_keeps:
  "set (whites (a_gray x A i)) \<union> set (grays (a_gray x A i)) = set (whites (A i)) \<union> set (grays (A i))"
  "greens (a_gray x A i) = greens (A i)" "object_set (a_gray x A) = object_set A"
proof -
  have "set (whites (a_gray x A i)) \<union> set (grays (a_gray x A i)) = set (whites (A i)) \<union> set (grays (A i))" for i
    using set_remove1_subset [of x "whites (A i)"] by (auto simp: a_gray_def dest: in_set_remove1 [THEN iffD2, rotated])
  then show "set (whites (a_gray x A i)) \<union> set (grays (a_gray x A i)) = set (whites (A i)) \<union> set (grays (A i))" by simp
  show "greens (a_gray x A i) = greens (A i)" by (simp add: a_gray_def)
  show "object_set (a_gray x A) = object_set A"
    using set_remove1_subset [of x] by (auto simp: fun_eq_iff object_set_def a_gray_def dest: in_set_remove1 [THEN iffD2, rotated])
qed

lemma fold_a_gray_keeps:
  "set (whites (fold a_gray xs A i)) \<union> set (grays (fold a_gray xs A i)) = set (whites (A i)) \<union> set (grays (A i))"
  "greens (fold a_gray xs A i) = greens (A i)" "object_set (fold a_gray xs A) = object_set A"
  "unscanned (fold a_gray xs A) = unscanned A"
  by (induction xs arbitrary: A) (simp_all add: a_gray_keeps)

lemma scan_write_vector_total:
  assumes H: "same_heap s0 A0 s A"
  shows "\<exists>s' A'. scan_write_vector s = Inr (s', int (length (vector_slots s))) \<and> same_heap s0 A0 s' A' \<and>
    unscanned A' = unscanned A \<and> vector_slots s' = []"
proof -
  note e = same_heapD [OF H]
  let ?is = "map int [0..<nat (RTwrite_vector_length s)]" and ?xs = "vector_slots s"
  have "set ?xs \<subseteq> all_objects A"
    using e(12) e(13) by (auto simp: vector_slots_def long_slots_def)
  then obtain s' where s': "scan_write_vector s = Inr (s', int (length ?xs))" "heap_marking s' (fold a_gray ?xs A)"
    "vector_frame (all_objects A) s s'" "\<forall>i. RTwrite_vector s' i = (if i \<in> set ?is then 0 else RTwrite_vector s i)"
    using scan_longs_refine [OF e(1), of ?is 0] by (auto simp: scan_write_vector_def vector_slots_def distinct_map)
  have "same_heap s0 A0 s' (fold a_gray ?xs A)"
    by (rule same_heap_frame [OF H s'(3,2)]) (use s'(4) in \<open>auto simp: fold_a_gray_keeps split: if_splits\<close>)
  moreover have "long_slots s' (int k) = []" if "k < nat (RTwrite_vector_length s')" for k
    using s'(4) that vector_frameD(3) [OF s'(3)] by (simp add: long_slots_def)
  then have "vector_slots s' = []" by (simp add: vector_slots_def)
  ultimately show ?thesis using s'(1) fold_a_gray_keeps(4) by blast
qed

subsection \<open>The loop of full_gc\<close>

lemma mark_loop_total:
  assumes S: "snapshot_start s0 A0 rs" and H: "same_heap s0 A0 s A"
    and r: "2 \<le> rounds" and f: "unscanned A0 < fuel"
  shows "\<exists>s'. mark_loop rounds fuel h s = Inr s'"
proof -
  have round: "\<exists>s1 s2 A2. scan_gray_set fuel fuel h s = Inr s1 \<and> same_heap s0 A0 s2 A2 \<and> vector_slots s2 = [] \<and>
      scan_write_vector s1 = Inr (s2, int (length (vector_slots s1))) \<and> vector_slots s1 = vector_slots s"
    if H: "same_heap s0 A0 s A" for s A
  proof -
    have u: "unscanned A < fuel" using unscanned_start [OF H] f by simp
    obtain s1 A1 where 1: "scan_gray_set fuel fuel h s = Inr s1" "same_heap s0 A0 s1 A1" "RTwrite_vector s1 = RTwrite_vector s"
      using snapshot_scan.gray_set_total [where s = s and A = A and v = "RTwrite_vector s", OF _ u u] S H by blast
    obtain s2 A2 where 2: "scan_write_vector s1 = Inr (s2, int (length (vector_slots s1)))" "same_heap s0 A0 s2 A2"
      "vector_slots s2 = []" using scan_write_vector_total [OF 1(2)] by blast
    have "vector_slots s1 = vector_slots s"
      using 1(3) slot_frame(3) [of s1 s] same_heapD(4,15) [OF 1(2)] same_heapD(4,15) [OF H]
      by (simp add: vector_slots_def long_slots_def fun_eq_iff cong: map_cong)
    then show ?thesis using 1(1) 2 by blast
  qed
  obtain n where n: "rounds = Suc (Suc n)" using r by (metis add_2_eq_Suc le_Suc_ex)
  obtain s1 s2 A2 where 1: "scan_gray_set fuel fuel h s = Inr s1" "same_heap s0 A0 s2 A2" "vector_slots s2 = []"
    "scan_write_vector s1 = Inr (s2, int (length (vector_slots s1)))" using round [OF H] by blast
  obtain s3 s4 where "scan_gray_set fuel fuel h s2 = Inr s3" "scan_write_vector s3 = Inr (s4, 0)"
    using round [OF 1(2)] 1(3) by auto
  then show ?thesis using 1(1,4) by (simp add: n)
qed

text \<open>The steps of the collector are determined, so a collector alone has one result.\<close>

lemma collector_step_unique:
  assumes "collector_step c c1" and "collector_step c c2"
  shows "c1 = c2"
  using assms(1) by cases (use assms(2) in \<open>auto elim!: collector_stepE\<close>)

lemma collector_result_unique:
  assumes "collector_step\<^sup>*\<^sup>* c c1" and "phase c1 = Marked" and "collector_step\<^sup>*\<^sup>* c c2" and "phase c2 = Marked"
  shows "c1 = c2"
  using assms
proof (induction rule: converse_rtranclp_induct)
  case base
  have "\<not> collector_step c1 c'" for c' using base(1) by (auto elim!: collector_stepE)
  then show ?case using base(2) by (metis converse_rtranclpE)
next
  case (step c c')
  have "\<not> collector_step c2 c''" for c'' using step.prems(3) by (auto elim!: collector_stepE)
  then have "c \<noteq> c2" using step.hyps(1) by blast
  then show ?case using step collector_step_unique by (metis converse_rtranclpE)
qed

end
