(* ===== verification/Group_Properties.thy ===== *)
theory Group_Properties
  imports Sample_GC
begin

text \<open>
  What the operations on one group promise, each stated over its four lists and tried on
  the group of the sample heap: the list surgery of RTmake_object_gray, flip,
  recycle_group_garbage, RTallocate, remove_object_from_free_list and init_pages_for_group,
  and the table of doc/gc-states.txt.
\<close>

subsection \<open>The group of the sample heap\<close>

lemma sample_colors_ok: "colors_ok GENERATION0 GENERATION1" "colors_ok GENERATION1 GENERATION0"
  by (simp_all add: colors_ok_def)

lemma sample_lists_12 [simp]:
  "whites (sample_lists 12) = []" "grays (sample_lists 12) = []"
  "blacks (sample_lists 12) = [0x10000, 0x11000, 0x12000]" "greens (sample_lists 12) = [0x13000]"
  by (simp_all add: sample_lists_def)

lemma sample_flipped_group:
  obtains m g where "marking_rep GENERATION1 GENERATION0 m g (a_flip (sample_lists 12))"
    and "gsize g = 0x1000"
  by (rule flip_group_refines [OF sample_idle_rep [of 12] sample_colors_ok(1)])
    (auto simp: sample_groups_def empty_group_def)

subsection \<open>Properties\<close>

text \<open>
  C16: RTmake_object_gray, applied to a white object during a collection, passes its
  assertions, takes the object off the white list, puts it before everything else on the
  other list, and colours it gray; it changes no memory but the links and colours of the
  group's own objects.
\<close>

theorem make_object_gray_moves_to_front:
  assumes "marking_rep marked unmarked m g A" and "x \<in> set (whites A)" and "colors_ok marked unmarked"
  shows "\<exists>m' g'. make_object_gray unmarked m g x = Inr (m', g') \<and>
    marking_rep marked unmarked m' g' (A\<lparr>whites := remove1 x (whites A), grays := x # grays A\<rparr>) \<and>
    links_only (set (objects A)) m m' \<and> GRAYP m' x \<and> white_count g' = white_count g - 1"
proof -
  obtain m' g' where r: "make_object_gray unmarked m g x = Inr (m', g')"
      "marking_rep marked unmarked m' g' (a_make_gray x A)" "links_only (set (objects A)) m m'"
    by (rule make_object_gray_refines [OF assms])
  have "white_count g' = int (length (remove1 x (whites A)))" "colored m' GRAY (x # grays A)"
    using r(2) by (auto simp: marking_rep_def dest: group_repD(13) group_repD(6))
  moreover have "white_count g = int (length (whites A))"
    using assms(1) by (auto simp: marking_rep_def dest: group_repD(13))
  moreover have "0 < length (whites A)" using assms(2) by (auto intro: length_pos_if_in_set)
  ultimately show ?thesis
    using r assms(2) by (auto simp: a_make_gray_def GRAYP_def length_remove1)
qed

theorem make_object_gray_moves_to_front_witness:
  "\<exists>m g A m' g'. make_object_gray GENERATION0 m g 0x11000 = Inr (m', g') \<and>
    A = a_flip (sample_lists 12) \<and>
    marking_rep GENERATION1 GENERATION0 m' g' (A\<lparr>whites := remove1 0x11000 (whites A), grays := 0x11000 # grays A\<rparr>) \<and>
    links_only (set (objects A)) m m' \<and> GRAYP m' 0x11000 \<and> white_count g' = white_count g - 1"
proof -
  obtain m g where "marking_rep GENERATION1 GENERATION0 m g (a_flip (sample_lists 12))"
    by (rule sample_flipped_group)
  from make_object_gray_moves_to_front [OF this _ sample_colors_ok(2), where x = "0x11000"]
  show ?thesis by auto
qed

text \<open>
  C17: the step of flip on a group turns the black objects into the white list of the next
  collection, cuts it off in front of the free objects, leaves the free objects as they
  are, and resets the three counts. No assertion fails.
\<close>

theorem flip_group_blacks_become_white:
  assumes "idle_rep marked unmarked m g A" and "colors_ok marked unmarked"
  shows "\<exists>m' g'. flip_group m g = Inr (m', g') \<and>
    marking_rep unmarked marked m' g' (A\<lparr>whites := blacks A, blacks := []\<rparr>) \<and>
    links_only (set (objects A)) m m' \<and> white_count g' = int (length (blacks A)) \<and>
    black_scanned_count g' = 0 \<and> black_alloc_count g' = 0"
proof -
  obtain m' g' where r: "flip_group m g = Inr (m', g')" "marking_rep unmarked marked m' g' (a_flip A)"
      "links_only (set (objects A)) m m'"
    by (rule flip_group_refines [OF assms])
  have "white_count g' = int (length (blacks A))"
    using r(2) by (auto simp: marking_rep_def dest: group_repD(13))
  moreover have "black_scanned_count g' = 0 \<and> black_alloc_count g' = 0"
    using r(1) by (auto simp: flip_group_def rbind_Inr_iff Let_def split: prod.splits)
  ultimately show ?thesis using r by (auto simp: a_flip_def)
qed

theorem flip_group_blacks_become_white_witness:
  "\<exists>m' g'. flip_group sample_memory (sample_groups 12) = Inr (m', g') \<and>
    marking_rep GENERATION1 GENERATION0 m' g'
      ((sample_lists 12)\<lparr>whites := blacks (sample_lists 12), blacks := []\<rparr>) \<and>
    links_only (set (objects (sample_lists 12))) sample_memory m' \<and>
    white_count g' = int (length (blacks (sample_lists 12))) \<and>
    black_scanned_count g' = 0 \<and> black_alloc_count g' = 0"
  by (rule flip_group_blacks_become_white [OF sample_idle_rep sample_colors_ok(1)])

text \<open>
  recycle_group_garbage, on a group without gray objects and with fuel for its white
  list, finds as many objects as white_count says, colours them green, and puts them behind
  the last object of the group, so that they are the last to be allocated.
\<close>

theorem recycle_appends_whites_to_free:
  assumes "marking_rep marked unmarked m g A" and "grays A = []"
    and "colors_ok marked unmarked" and "length (whites A) < fuel"
  shows "\<exists>m' g'. recycle_group_garbage fuel m g = Inr (m', g') \<and>
    idle_rep marked unmarked m' g' (A\<lparr>whites := [], greens := greens A @ whites A\<rparr>) \<and>
    links_only (set (objects A)) m m'"
  using recycle_group_garbage_refines [OF assms] unfolding a_recycle_def by metis

theorem recycle_appends_whites_to_free_witness:
  "\<exists>m g A m' g'. recycle_group_garbage 4 m g = Inr (m', g') \<and> A = a_flip (sample_lists 12) \<and>
    idle_rep GENERATION1 GENERATION0 m' g' (A\<lparr>whites := [], greens := greens A @ whites A\<rparr>) \<and>
    links_only (set (objects A)) m m'"
proof -
  obtain m g where "marking_rep GENERATION1 GENERATION0 m g (a_flip (sample_lists 12))"
    by (rule sample_flipped_group)
  from recycle_appends_whites_to_free [OF this _ sample_colors_ok(2), where fuel = 4]
  show ?thesis by auto
qed

text \<open>
  RTallocate takes the first free object of a group that has one and makes it the last
  black object, in the middle of a collection as well as between two of them; every object
  keeps its place on the list.
\<close>

theorem allocate_takes_first_free:
  assumes "colors_ok marked unmarked" and "greens A \<noteq> []"
    and "marking_rep marked unmarked m g A \<or> idle_rep marked unmarked m g A"
  shows "\<exists>m' g'. allocate_from_free_list marked m g = (m', g', hd (greens A)) \<and>
    (let A' = A\<lparr>blacks := blacks A @ [hd (greens A)], greens := tl (greens A)\<rparr>
     in (marking_rep marked unmarked m g A \<longrightarrow> marking_rep marked unmarked m' g' A') \<and>
        (idle_rep marked unmarked m g A \<longrightarrow> idle_rep marked unmarked m' g' A') \<and>
        active A' = active A) \<and>
    links_only (set (objects A)) m m' \<and> black_alloc_count g' = black_alloc_count g + 1"
proof -
  obtain m' g' x where r: "allocate_from_free_list marked m g = (m', g', x)"
    by (cases "allocate_from_free_list marked m g")
  have gr: "group_rep marked unmarked m g A"
    using assms(3) by (auto simp: marking_rep_def idle_rep_def)
  note s = allocate_rep [OF gr assms(2,1) r] and t = allocate_refines [OF assms(1,2) r]
  have "black_alloc_count g' = black_alloc_count g + 1"
    using r by (auto simp: allocate_from_free_list_def Let_def)
  then show ?thesis using r s t by (auto simp: a_allocate_def Let_def)
qed

theorem allocate_takes_first_free_witness:
  "\<exists>m' g'. allocate_from_free_list GENERATION0 sample_memory (sample_groups 12) = (m', g', 0x13000) \<and>
    idle_rep GENERATION0 GENERATION1 m' g'
      ((sample_lists 12)\<lparr>blacks := [0x10000, 0x11000, 0x12000, 0x13000], greens := []\<rparr>)"
  using allocate_takes_first_free [OF sample_colors_ok(1), of "sample_lists 12" sample_memory "sample_groups 12"]
    sample_idle_rep [of 12] by (auto simp: Let_def)

text \<open>
  remove_object_from_free_list unlinks a free object from wherever it stands on the
  list of an idle group, and keeps the free, black and last pointers right.
\<close>

theorem remove_object_leaves_group:
  assumes "idle_rep marked unmarked m g A" and "x \<in> set (greens A)"
  shows "\<exists>m' g'. remove_object_from_free_list m g x = (m', g') \<and>
    idle_rep marked unmarked m' g' (A\<lparr>greens := remove1 x (greens A)\<rparr>) \<and>
    links_only (set (objects A)) m m'"
proof -
  obtain m' g' where r: "remove_object_from_free_list m g x = (m', g')"
    by (cases "remove_object_from_free_list m g x")
  show ?thesis
    using remove_object_refines [OF assms r] r by (auto simp: a_remove_free_def)
qed

theorem remove_object_leaves_group_witness:
  "\<exists>m' g'. remove_object_from_free_list sample_memory (sample_groups 12) 0x13000 = (m', g') \<and>
    idle_rep GENERATION0 GENERATION1 m' g' ((sample_lists 12)\<lparr>greens := remove1 0x13000 (greens (sample_lists 12))\<rparr>) \<and>
    links_only (set (objects (sample_lists 12))) sample_memory m'"
  by (rule remove_object_leaves_group [OF sample_idle_rep]) simp

text \<open>
  init_pages_for_group writes the headers of the objects of new pages, at the given
  address and spaced by the size of the group, colours them green and links them behind the
  last object of a group that has no free object; the objects there were are not moved.
\<close>

theorem link_new_objects_extends_free:
  assumes "group_rep marked unmarked m g A" and "greens A = []" and "0 < n"
    and "headers_ok (set (new_objects n (gsize g) base))" and "distinct (new_objects n (gsize g) base)"
    and "set (new_objects n (gsize g) base) \<inter> set (objects A) = {}"
    and "aligned (word_of_int (gsize g))"
  shows "\<exists>m' g'. link_new_objects m g base n = Inr (m', g') \<and>
    group_rep marked unmarked m' g' (A\<lparr>greens := new_objects n (gsize g) base\<rparr>) \<and>
    only_headers (set (objects A) \<union> set (new_objects n (gsize g) base)) m m'"
proof -
  obtain m' g' where r: "link_new_objects m g base n = Inr (m', g')"
      "group_rep marked unmarked m' g' (a_add_free (new_objects n (gsize g) base) A)"
      "only_headers (set (objects A) \<union> set (new_objects n (gsize g) base)) m m'"
    by (rule link_new_objects_rep [OF assms refl])
  then show ?thesis using assms(2) by (simp add: a_add_free_def)
qed

lemma empty_group_rep:
  "group_rep GENERATION0 GENERATION1 m (empty_group i) \<lparr>whites = [], grays = [], blacks = [], greens = []\<rparr>"
  by (intro group_repI)
    (simp_all add: empty_group_def active_def objects_def black_pointer_ok_def headers_ok_def dlist_def)

theorem link_new_objects_extends_free_witness:
  "\<exists>m' g'. link_new_objects sample_memory (empty_group 11) 0x14000 2 = Inr (m', g') \<and>
    group_rep GENERATION0 GENERATION1 m' g'
      \<lparr>whites = [], grays = [], blacks = [], greens = [0x14000, 0x14800]\<rparr>"
proof -
  have n: "new_objects 2 (gsize (empty_group 11)) 0x14000 = [0x14000, 0x14800]"
    by (simp add: numeral_eq_Suc empty_group_def)
  have "headers_ok {0x14000, 0x14800}" by (simp add: headers_ok_def aligned_def LINK_INFO_MASK_def LINK_INFO_BITS_def)
  then show ?thesis
    using link_new_objects_extends_free [OF empty_group_rep [of sample_memory 11], of 2 "0x14000"] n
    by (auto simp: empty_group_def aligned_def LINK_INFO_MASK_def LINK_INFO_BITS_def)
qed

end
