(* ===== verification/Marking_Properties.thy ===== *)
theory Marking_Properties
  imports Group_Properties
begin

text \<open>
  What stopping the mutators, marking and the write barrier promise: the saved areas hold
  the registers and stacks of the stopped threads whatever the order of the handlers, the
  marking loops end with the live objects black, and a store through the barrier leaves a
  record of the white object it may have hidden.
\<close>

subsection \<open>The sample heap after the flip\<close>

lemma group_12 [simp]: "12 \<in> group_indices"
  by (simp add: group_indices_def config_defs)

lemma sample_marking_start:
  obtains s1 where "flip [sample_thread] sample_state = Inr s1"
    and "heap_marking s1 (flipped sample_lists)" and "barrier_clear s1"
    and "roots_ok 10 sample_hooks (all_objects (flipped sample_lists)) s1"
    and "scannable sample_hooks s1 (flipped sample_lists)"
    and "same_pages sample_state s1" and "enable_write_barrier s1"
    and "RTwrite_vector s1 = RTwrite_vector sample_state" and "RTwrite_vector_length s1 = 10"
    and "memory s1 0x10010 = 0x11010"
proof -
  obtain sg where fl: "flip [sample_thread] sample_state = Inr (stopped [sample_thread] sg)"
    and g: "gc_frame (all_objects sample_lists) sample_state sg"
    and sa: "save_area sg [sample_thread] = save_area sample_state [sample_thread]"
    and rep: "heap_marking (stopped [sample_thread] sg) (flipped sample_lists)"
    and ob: "all_objects (flipped sample_lists) = all_objects sample_lists"
    using flip_refines [OF sample_heap_inv _ sample_stoppable] by auto
  note gf = gc_frame_fields [OF g]
  have "barrier_clear (stopped [sample_thread] sg)"
    using sample_barrier by (simp add: barrier_clear_def stopped_fields gf)
  moreover have "same_pages sample_state (stopped [sample_thread] sg)"
    using same_pages_trans [OF gc_frame_same_pages [OF g] stopped_fields(1)] .
  moreover have "memory (stopped [sample_thread] sg) 0x10010 = 0x11010"
  proof -
    have "0x10010 \<notin> set (cells 23 0x2000)" by (simp add: cells_numeral GC_POINTER_ALIGNMENT_def)
    then have "memory (stopped [sample_thread] sg) 0x10010 = memory sg 0x10010"
      by (intro stopped_memory) (simp add: sa sample_save_area)
    also have "\<dots> = memory sample_state 0x10010"
      using g by (intro links_only_cell [where S = "all_objects sample_lists"])
        (simp_all add: gc_frame_def sample_header_cells)
    finally show ?thesis by (simp add: sample_memory_def)
  qed
  ultimately show thesis
    using that [OF fl rep] sample_flip [OF fl] ob
    by (simp add: stopped_fields gf) (simp add: sample_state_def)
qed

lemma sample_ptr_objects:
  "ptr_object sample_state 0x10010 = Some 0x10000" "ptr_object sample_state 0x11010 = Some 0x11000"
proof -
  have p: "IN_PARTITION sample_state 0x10010" "IN_PARTITION sample_state 0x11010" by (simp_all add: IN_PARTITION_def)
  have i: "PTR_TO_PAGE_INDEX sample_state 0x10010 = 0" "PTR_TO_PAGE_INDEX sample_state 0x11010 = 1"
    using p by (simp_all add: PTR_TO_PAGE_INDEX_uint [OF sample_layout] config_defs)
  show "ptr_object sample_state 0x10010 = Some 0x10000" "ptr_object sample_state 0x11010 = Some 0x11000"
    by (simp_all add: ptr_object_def p i sample_pages_def interior_to_gcptr_3_def sample_groups_def
        empty_group_def config_defs valid_interior_ptr_def)
qed

lemma sample_flipped_lists:
  assumes "i \<in> group_indices"
  shows "grays (flipped sample_lists i) = []" and "blacks (flipped sample_lists i) = []"
    and "distinct (whites (flipped sample_lists i))"
  using assms by (simp_all add: sample_lists_def)

subsection \<open>Stopping the mutators\<close>

text \<open>
  C15: stop_all_mutators_and_save_state, with threads whose handlers run and save areas that
  do not overlap, does not stop and does not wait forever; afterwards every save area holds
  the registers of its thread and a copy of its stack from the stack pointer to its bottom, the
  colours have changed places and the write barrier is on.
\<close>

theorem stop_saves_every_thread:
  assumes "\<And>th. th \<in> set ths \<Longrightarrow> mutator_ok th" and "length ths \<le> length (saved_threads s)"
    and "areas_ok s ths"
  shows "\<exists>s'. stop_all_mutators_and_save_state ths s = Inr s' \<and>
    (\<forall>(st, th)\<in>set (save_pairs s ths).
       map (memory s') (cells (length (gregs th)) (registers st)) = gregs th \<and>
       map (memory s') (cells (stack_longs th) (saved_stack_base st)) =
         map (memory s) (cells (stack_longs th) (gregs th ! REG_RSP))) \<and>
    (\<forall>a. a \<notin> save_area s ths \<longrightarrow> memory s' a = memory s a) \<and>
    total_saved_threads s' = length ths \<and> enable_write_barrier s' \<and>
    marked_color s' = unmarked_color s \<and> unmarked_color s' = marked_color s"
proof (intro exI conjI)
  show "stop_all_mutators_and_save_state ths s = Inr (stopped ths s)"
    by (rule stop_all_mutators_eq [OF assms(1,2)])
  show "\<forall>(st, th)\<in>set (save_pairs s ths).
      map (memory (stopped ths s)) (cells (length (gregs th)) (registers st)) = gregs th \<and>
      map (memory (stopped ths s)) (cells (stack_longs th) (saved_stack_base st)) =
        map (memory s) (cells (stack_longs th) (gregs th ! REG_RSP))"
    using stopped_saves [OF assms(3)] by blast
  show "total_saved_threads (stopped ths s) = length ths" by (simp add: stopped_def)
qed (simp_all add: stopped_fields stopped_memory)

lemma sample_areas_ok: "areas_ok sample_state [sample_thread]"
proof -
  have "distinct (cells 23 0x2000)" by (simp add: cells_numeral GC_POINTER_ALIGNMENT_def)
  moreover have "save_pairs sample_state [sample_thread] =
      [(\<lparr>registers = 0x2000, saved_stack_base = 0x3000, saved_stack_size = 0\<rparr>, sample_thread)]"
    by (simp add: save_pairs_def sample_state_def numeral_eq_Suc)
  moreover have "length (gregs sample_thread) = 23" by (simp add: sample_thread_def)
  ultimately show ?thesis
    unfolding areas_ok_def by (simp add: sample_thread_ok handler_source_def)
qed

theorem stop_saves_every_thread_witness:
  "\<exists>s'. stop_all_mutators_and_save_state [sample_thread] sample_state = Inr s' \<and>
    map (memory s') (cells 23 0x2000) = gregs sample_thread \<and> total_saved_threads s' = 1"
proof -
  have "save_pairs sample_state [sample_thread] =
      [(\<lparr>registers = 0x2000, saved_stack_base = 0x3000, saved_stack_size = 0\<rparr>, sample_thread)]"
    by (simp add: save_pairs_def sample_state_def numeral_eq_Suc)
  moreover have "length (gregs sample_thread) = 23" by (simp add: sample_thread_def)
  ultimately show ?thesis
    using stop_saves_every_thread [OF _ _ sample_areas_ok] sample_thread_ok by (auto simp: sample_state_def)
qed

text \<open>
  the handlers of two threads with separate save areas can run in either order: the
  state and both counters come out the same.
\<close>

theorem flip_handlers_commute:
  assumes "i \<noteq> j" and "i < length (saved_threads s)" and "j < length (saved_threads s)"
    and "mutator_ok th" and "mutator_ok th'"
    and "handler_area (saved_threads s ! i, th) \<inter> handler_area (saved_threads s ! j, th') = {}"
    and "handler_source (saved_threads s ! i, th) \<inter> handler_area (saved_threads s ! j, th') = {}"
    and "handler_source (saved_threads s ! j, th') \<inter> handler_area (saved_threads s ! i, th) = {}"
  shows "rbind (gc_flip_action_func i th (s, e, c)) (gc_flip_action_func j th') =
    rbind (gc_flip_action_func j th' (s, e, c)) (gc_flip_action_func i th)"
  by (rule handlers_commute [OF assms])

definition two_areas :: rt_state where
  "two_areas = sample_state\<lparr>saved_threads :=
     [\<lparr>registers = 0x2000, saved_stack_base = 0x3000, saved_stack_size = 0\<rparr>,
      \<lparr>registers = 0x4000, saved_stack_base = 0x6000, saved_stack_size = 0\<rparr>]\<rparr>"

theorem flip_handlers_commute_witness:
  "rbind (gc_flip_action_func 0 sample_thread (two_areas, 0, 0)) (gc_flip_action_func 1 sample_thread) =
   rbind (gc_flip_action_func 1 sample_thread (two_areas, 0, 0)) (gc_flip_action_func 0 sample_thread)"
proof (rule flip_handlers_commute)
  have "length (gregs sample_thread) = 23" by (simp add: sample_thread_def)
  moreover have "set (cells 23 0x2000) \<inter> set (cells 23 0x4000) = {}"
    by (simp add: cells_numeral GC_POINTER_ALIGNMENT_def)
  ultimately show "handler_area (saved_threads two_areas ! 0, sample_thread) \<inter>
      handler_area (saved_threads two_areas ! 1, sample_thread) = {}"
    by (simp add: two_areas_def handler_area_def sample_thread_ok)
qed (simp_all add: two_areas_def sample_thread_ok handler_source_def)

subsection \<open>Marking\<close>

text \<open>
  C8: the mark phase of full_gc, on a heap just after the flip: scan_root_set and the loop
  over scan_gray_set and scan_write_vector end, with fuel for the allocated objects, and then
  no object is gray and the black objects are exactly those live from the words of the roots.
\<close>

theorem mark_phase_blackens_live:
  assumes "heap_marking s1 A1" and "\<And>i. i \<in> group_indices \<Longrightarrow> grays (A1 i) = [] \<and> blacks (A1 i) = []"
    and "roots_ok fuel h (all_objects A1) s1" and "scannable h s1 A1" and "barrier_clear s1"
    and "unscanned A1 < fuel"
  shows "\<exists>s2 s3 A3. scan_root_set fuel h s1 = Inr s2 \<and> mark_loop fuel fuel h s2 = Inr s3 \<and>
    heap_marking s3 A3 \<and> gray_set A3 = {} \<and>
    black_set A3 = live h s1 (set (root_words fuel h s1)) (white_set A1) \<and>
    white_set A3 = white_set A1 - black_set A3"
proof -
  let ?R = "set (root_words fuel h s1)"
  obtain s2 s3 A3 where r: "scan_root_set fuel h s1 = Inr s2" "mark_loop fuel fuel h s2 = Inr s3"
    "marking h s1 ?R A1 s3 A3" "gray_set A3 = {}" "black_set A3 = live h s1 ?R (white_set A1)"
    "live h s1 ?R (white_set A1) \<inter> white_set A3 = {}"
    using mark_phase [OF assms] by blast
  have t: "tricolour h s1 ?R A1 A3" and m: "heap_marking s3 A3"
    using r(3) by (auto simp: marking_def marked_from_def)
  have "white_set A1 = white_set A3 \<union> black_set A3"
    using tricolourD(1) [OF t] r(4) by (fastforce simp: color_sets)
  then have "white_set A3 = white_set A1 - black_set A3" using r(5,6) by auto
  then show ?thesis using r m by blast
qed

lemma sample_unscanned: "unscanned (flipped sample_lists) = 3"
proof -
  have "unscanned (flipped sample_lists) = (\<Sum>i\<in>group_indices. if i = 12 then 3 else 0)"
    unfolding unscanned_def by (intro sum.cong) (simp_all add: sample_lists_def)
  then show ?thesis by (simp add: group_indices_def config_defs)
qed

theorem mark_phase_blackens_live_witness:
  "\<exists>s1 s2 s3 A3. flip [sample_thread] sample_state = Inr s1 \<and> scan_root_set 10 sample_hooks s1 = Inr s2 \<and>
    mark_loop 10 10 sample_hooks s2 = Inr s3 \<and> heap_marking s3 A3 \<and> gray_set A3 = {} \<and>
    black_set A3 = live sample_hooks s1 (set (root_words 10 sample_hooks s1)) (white_set (flipped sample_lists))"
proof -
  obtain s1 where 1: "flip [sample_thread] sample_state = Inr s1" "heap_marking s1 (flipped sample_lists)"
    "barrier_clear s1" "roots_ok 10 sample_hooks (all_objects (flipped sample_lists)) s1"
    "scannable sample_hooks s1 (flipped sample_lists)" by (rule sample_marking_start)
  from mark_phase_blackens_live [OF 1(2) _ 1(4,5,3)] show ?thesis
    using 1(1) sample_flipped_lists sample_unscanned by fastforce
qed

text \<open>
  C13: the inner and outer loops of scan_gray_set: from any state of marking they end, with
  fuel for the objects that are still white or gray, keep the tricolour invariant (a black
  object refers to no white one, only live objects are gray or black), and leave no object gray.
\<close>

theorem scan_gray_set_terminates:
  assumes "marking h s0 roots A0 s A" and "scannable h s0 A0"
    and "unscanned A < rounds" and "unscanned A < fuel"
  shows "\<exists>s' A'. scan_gray_set rounds fuel h s = Inr s' \<and> marking h s0 roots A0 s' A' \<and>
    gray_set A' = {} \<and> white_set A' \<subseteq> white_set A"
  by (rule scan_gray_set_refines [OF assms])

lemma sample_marking:
  assumes "heap_marking s1 (flipped sample_lists)"
  shows "marking sample_hooks s1 R (flipped sample_lists) s1 (flipped sample_lists)"
proof -
  have "tricolour sample_hooks s1 R (flipped sample_lists) (flipped sample_lists)"
    by (rule tricolour_start) (use sample_flipped_lists in blast)
  then show ?thesis
    using marked_from_refl [OF assms] heap_repD(3,4) [OF assms] unfolding marking_def by blast
qed

theorem scan_gray_set_terminates_witness:
  "\<exists>s1 s' A'. flip [sample_thread] sample_state = Inr s1 \<and> scan_gray_set 10 10 sample_hooks s1 = Inr s' \<and>
    marking sample_hooks s1 {0x10010} (flipped sample_lists) s' A' \<and> gray_set A' = {}"
proof -
  obtain s1 where 1: "flip [sample_thread] sample_state = Inr s1" "heap_marking s1 (flipped sample_lists)"
    "scannable sample_hooks s1 (flipped sample_lists)" by (rule sample_marking_start)
  obtain s' A' where "scan_gray_set 10 10 sample_hooks s1 = Inr s'"
    "marking sample_hooks s1 {0x10010} (flipped sample_lists) s' A'" "gray_set A' = {}"
    using scan_gray_set_terminates [OF sample_marking [OF 1(2), of "{0x10010}"] 1(3), of 10 10]
    unfolding sample_unscanned by auto
  then show ?thesis using 1(1) by blast
qed

text \<open>
  scan_object_with_group, on the last gray object of a group, does not stop, keeps the
  tricolour invariant, and uses up one object: the number of objects white or gray goes
  down by exactly one, which is why the marking loops end.
\<close>

theorem scan_object_uses_one_object:
  assumes "marking h s0 roots A0 s A" and "scannable h s0 A0" and "i \<in> group_indices" and "grays (A i) \<noteq> []"
  shows "\<exists>s' A'. scan_object_with_group h i (last (grays (A i))) s = Inr s' \<and>
    marking h s0 roots A0 s' A' \<and> unscanned A = Suc (unscanned A') \<and> white_set A' \<subseteq> white_set A \<and>
    get_prev (memory s') (last (grays (A i))) = last_or 0 (grays (A' i))"
  by (rule scan_object_with_group_refines [OF assms]) blast

theorem scan_object_uses_one_object_witness:
  "\<exists>s1 s2 s' A'. RTmake_object_gray 0x10000 s1 = Inr s2 \<and>
    scan_object_with_group sample_hooks 12 0x10000 s2 = Inr s' \<and>
    marking sample_hooks s1 {0x10010} (flipped sample_lists) s' A' \<and> unscanned A' = 2"
proof -
  obtain s1 where 1: "heap_marking s1 (flipped sample_lists)" "scannable sample_hooks s1 (flipped sample_lists)"
    and sp: "same_pages sample_state s1"
    by (rule sample_marking_start)
  let ?A = "flipped sample_lists" and ?R = "{0x10010}"
  have pt: "ptr_object s1 0x10010 = Some 0x10000" using sample_ptr_objects(1) same_pages_facts(8) [OF sp] by metis
  have w: "0x10000 \<in> set (whites (?A 12))" by simp
  obtain s2 where 2: "RTmake_object_gray 0x10000 s1 = Inr s2" "heap_marking s2 (a_gray 0x10000 ?A)"
      "gc_frame (all_objects ?A) s1 s2"
    by (rule RTmake_object_gray_refines [OF 1(1) group_12 w])
  have t: "tricolour sample_hooks s1 ?R ?A (a_gray 0x10000 ?A)"
    using sample_marking [OF 1(1), of ?R] live_root [OF _ pt, of ?R "white_set ?A"]
    by (intro tricolour_gray) (auto simp: marking_def)
  have "marked_from s1 (all_objects ?A) s2 (a_gray 0x10000 ?A)"
    using 2 by (simp add: marked_from_def all_objects_def)
  then have "marking sample_hooks s1 ?R ?A s2 (a_gray 0x10000 ?A)"
    using t sample_marking [OF 1(1)] by (simp add: marking_def)
  moreover have "grays (a_gray 0x10000 ?A 12) = [0x10000]" by (simp add: a_gray_def)
  moreover have "unscanned (a_gray 0x10000 ?A) = 3" by (simp add: sample_unscanned)
  ultimately obtain s' A' where "scan_object_with_group sample_hooks 12 0x10000 s2 = Inr s'"
    "marking sample_hooks s1 ?R ?A s' A'" "3 = Suc (unscanned A')"
    using scan_object_uses_one_object [OF _ 1(2) group_12, of ?R s2 "a_gray 0x10000 ?A"] by auto
  then show ?thesis using 2(1) by (intro exI [of _ s1] exI [of _ s2] exI [of _ s'] exI [of _ A']) simp
qed

subsection \<open>The write barrier\<close>

text \<open>
  C12: in every heap between flip and sweep RTwrite_barrier stores the word and changes
  nothing but that word and the write vector. An object is recorded afterwards exactly when
  it was before, or when the barrier is on, the word that was overwritten refers to the
  object, within the limit on interior pointers, and the object is white. When the barrier
  is off or the overwritten word refers to no white object, the vector stays as it is.
\<close>

theorem write_barrier_records_overwritten:
  assumes "heap_marking s A" and "\<And>x. x \<in> all_objects A \<Longrightarrow> slot_aligned s x"
  shows "\<exists>v. RTwrite_barrier lhs rhs s = Inr (s\<lparr>memory := (memory s)(lhs := rhs), RTwrite_vector := v\<rparr>) \<and>
    (\<forall>y. slot_aligned s y \<longrightarrow>
      (recorded (s\<lparr>RTwrite_vector := v\<rparr>) y \<longleftrightarrow>
        recorded s y \<or> enable_write_barrier s \<and> ptr_object s (memory s lhs) = Some y \<and> y \<in> white_set A)) \<and>
    (\<not> enable_write_barrier s \<or> (\<forall>y\<in>white_set A. ptr_object s (memory s lhs) \<noteq> Some y) \<longrightarrow> v = RTwrite_vector s)"
proof -
  have white: "WHITEP (unmarked_color s) (memory s) x \<longleftrightarrow> x \<in> white_set A" "slot_aligned s x"
    if "ptr_object s (memory s lhs) = Some x" for x
  proof -
    have "x \<in> all_objects A" using ptr_object_in_heap [OF heap_repD(4) [OF assms(1)] that] by (auto simp: all_objects_def)
    then show "WHITEP (unmarked_color s) (memory s) x \<longleftrightarrow> x \<in> white_set A" "slot_aligned s x"
      using heap_marking_object_white [OF assms(1)] assms(2) by blast+
  qed
  show ?thesis
  proof (cases "\<exists>x\<in>white_set A. enable_write_barrier s \<and> ptr_object s (memory s lhs) = Some x")
    case True
    then obtain x where x: "x \<in> white_set A" "enable_write_barrier s" "ptr_object s (memory s lhs) = Some x" by blast
    let ?v = "RTwrite_vector (record_slot x s)"
    have "RTwrite_barrier lhs rhs s = Inr (s\<lparr>memory := (memory s)(lhs := rhs), RTwrite_vector := ?v\<rparr>)"
      using x white(1) by (simp add: RTwrite_barrier_eq barrier_state_def overwritten_white_def record_slot_def)
    moreover have "s\<lparr>RTwrite_vector := ?v\<rparr> = record_slot x s" by (simp add: record_slot_def)
    ultimately show ?thesis
      using x recorded_record_slot [OF white(2) [OF x(3)]] by (intro exI [of _ ?v]) auto
  next
    case False
    then have "RTwrite_barrier lhs rhs s = Inr (s\<lparr>memory := (memory s)(lhs := rhs), RTwrite_vector := RTwrite_vector s\<rparr>)"
      using white(1) by (auto simp: RTwrite_barrier_eq barrier_state_def overwritten_white_def Let_def split: option.splits)
    moreover have "recorded (s\<lparr>RTwrite_vector := RTwrite_vector s\<rparr>) y = recorded s y" for y by simp
    ultimately show ?thesis using False by (intro exI [of _ "RTwrite_vector s"]) auto
  qed
qed

theorem write_barrier_records_overwritten_witness:
  "\<exists>s v. RTwrite_barrier 0x10010 0 s = Inr (s\<lparr>memory := (memory s)(0x10010 := 0), RTwrite_vector := v\<rparr>) \<and>
    recorded (s\<lparr>RTwrite_vector := v\<rparr>) 0x11000 \<and> \<not> recorded (s\<lparr>RTwrite_vector := v\<rparr>) 0x10000"
proof -
  obtain s1 where 1: "heap_marking s1 (flipped sample_lists)" "same_pages sample_state s1"
    "enable_write_barrier s1" "memory s1 0x10010 = 0x11010" "RTwrite_vector s1 = RTwrite_vector sample_state"
    by (rule sample_marking_start)
  have al: "slot_aligned s1 x" if "x \<in> all_objects (flipped sample_lists)" for x
  proof -
    have "x \<in> {0x10000, 0x11000, 0x12000, 0x13000}"
      using that by (auto simp: all_objects_def object_set_def objects_def active_def sample_lists_def split: if_splits)
    then show ?thesis using 1(2) by (auto simp: slot_aligned_def same_pages_def)
  qed
  have "0x11000 \<in> set (whites (flipped sample_lists 12))" by simp
  then have w: "0x11000 \<in> white_set (flipped sample_lists)" unfolding white_set_def using group_12 by blast
  moreover have p: "ptr_object s1 (memory s1 0x10010) = Some 0x11000"
    using sample_ptr_objects(2) same_pages_facts(8) [OF 1(2)] 1(4) by metis
  moreover have s: "slot_aligned s1 0x11000" "slot_aligned s1 0x10000" using 1(2) by (simp_all add: slot_aligned_def same_pages_def)
  moreover have n: "\<not> recorded s1 0x10000" using 1(5) by (simp add: recorded_def sample_state_def)
  ultimately obtain v where v: "RTwrite_barrier 0x10010 0 s1 = Inr (s1\<lparr>memory := (memory s1)(0x10010 := 0), RTwrite_vector := v\<rparr>)"
    "\<forall>y. slot_aligned s1 y \<longrightarrow> recorded (s1\<lparr>RTwrite_vector := v\<rparr>) y = (recorded s1 y \<or> enable_write_barrier s1 \<and>
      ptr_object s1 (memory s1 0x10010) = Some y \<and> y \<in> white_set (flipped sample_lists))"
    using write_barrier_records_overwritten [OF 1(1) al, of "0x10010" 0] by blast
  have "recorded (s1\<lparr>RTwrite_vector := v\<rparr>) 0x11000" using spec [OF v(2), of "0x11000"] s(1) p w 1(3) by blast
  moreover have "\<not> recorded (s1\<lparr>RTwrite_vector := v\<rparr>) 0x10000" using spec [OF v(2), of "0x10000"] s(2) p n by simp
  ultimately show ?thesis using v(1) by blast
qed

text \<open>
  C14: scan_write_vector makes every object the vector records gray, if it is still white,
  counts the records, and leaves the vector empty.
\<close>

theorem scan_write_vector_grays_recorded:
  assumes "heap_marking s A" and "set (vector_slots s) \<subseteq> all_objects A"
  shows "\<exists>s'. scan_write_vector s = Inr (s', int (length (vector_slots s))) \<and>
    heap_marking s' (fold a_gray (vector_slots s) A) \<and>
    (\<forall>i. 0 \<le> i \<longrightarrow> i < RTwrite_vector_length s \<longrightarrow> RTwrite_vector s' i = 0)"
  using scan_write_vector_refines [OF assms] by blast

theorem scan_write_vector_grays_recorded_witness:
  "\<exists>s s'. scan_write_vector s = Inr (s', 1) \<and> heap_marking s' (a_gray 0x11000 (flipped sample_lists))"
proof -
  obtain s1 where 1: "heap_marking s1 (flipped sample_lists)" "same_pages sample_state s1"
    "RTwrite_vector s1 = RTwrite_vector sample_state" "RTwrite_vector_length s1 = 10" by (rule sample_marking_start)
  let ?s = "record_slot 0x11000 s1"
  have f: "first_partition_ptr s1 = 0x10000" using 1(2) by (simp add: same_pages_def)
  have i: "slot_index s1 0x11000 = 2" "slot_bit s1 0x11000 = 0"
    by (simp_all add: slot_index_def slot_bit_def f)
  have v: "RTwrite_vector ?s = (\<lambda>_. 0)(2 := 1)" "RTwrite_vector_length ?s = 10"
    using 1(3,4) by (simp_all add: record_slot_def i) (simp add: sample_state_def)
  have one: "filter (bit (1 :: 64 word)) [0..<64] = [0]" by (simp add: upt_rec bit_1_iff)
  have l: "long_slots ?s k = (if k = 2 then [0x11000] else [])" for k
    using one by (simp add: long_slots_def v slot_ptr_def f config_defs)
  have "vector_slots ?s = [0x11000]"
    by (simp add: vector_slots_def v l upt_rec)
  moreover have "heap_marking ?s (flipped sample_lists)" using 1(1) by (simp add: record_slot_def)
  moreover have "0x11000 \<in> all_objects (flipped sample_lists)"
    unfolding all_objects_def object_set_def using group_12 by (intro UN_I [of 12]) simp_all
  ultimately show ?thesis using scan_write_vector_grays_recorded [of ?s "flipped sample_lists"] by auto
qed

text \<open>
  C23: an object on a 32 byte boundary of the partition has a bit of its own inside the write
  vector, and scan_write_vector computes the address of the object back from the bit.
\<close>

theorem write_vector_bit_roundtrip:
  assumes "layout_ok s" and "IN_PARTITION s x" and "slot_aligned s x"
    and "RTwrite_vector_length s = total_partition_pages s * BYTES_PER_PAGE div 2048"
  shows "0 \<le> slot_index s x \<and> slot_index s x < RTwrite_vector_length s \<and> slot_bit s x < 64 \<and>
    slot_ptr s (slot_index s x) (slot_bit s x) = x \<and>
    (\<exists>s'. mark_write_vector x s = Inr s' \<and> bit (RTwrite_vector s' (slot_index s x)) (slot_bit s x))"
  using slot_index_bounds [OF assms(1,2,4)] slot_ptr_roundtrip [OF assms(3)] slot_bit_less [of s x]
  by (auto simp: mark_write_vector_eq bit_or_iff bit_push_bit_iff bit_1_iff simp del: push_bit_of_1)

theorem write_vector_bit_roundtrip_witness:
  "0 \<le> slot_index sample_state 0x11820 \<and> slot_index sample_state 0x11820 < RTwrite_vector_length sample_state \<and>
   slot_bit sample_state 0x11820 < 64 \<and>
   slot_ptr sample_state (slot_index sample_state 0x11820) (slot_bit sample_state 0x11820) = 0x11820 \<and>
   (\<exists>s'. mark_write_vector 0x11820 sample_state = Inr s' \<and>
      bit (RTwrite_vector s' (slot_index sample_state 0x11820)) (slot_bit sample_state 0x11820))"
  by (rule write_vector_bit_roundtrip [OF sample_layout])
    (simp_all add: IN_PARTITION_def slot_aligned_def config_defs sample_state_def)

subsection \<open>Stops\<close>

text \<open>
  RTmemcpy, RTrecordcpy and RTmemset never copy or set anything: they stop in
  memory_segment_write_barrier whether or not a collection is running.
\<close>

theorem RTmemcpy_always_stops:
  "RTmemcpy p1 p2 num_bytes s = Inl (Debugger ''HEY! I haven't been tested!'') \<and>
   RTrecordcpy p1 p2 num_bytes s = Inl (Debugger ''HEY! I haven't been tested!'') \<and>
   RTmemset p1 data num_bytes s = Inl (Debugger ''HEY! I haven't been tested!'')"
  by (simp add: RTmemcpy_def RTrecordcpy_def RTmemset_def memory_segment_write_barrier_def)

end
