(* ===== verification/Concurrent_Properties.thy ===== *)
theory Concurrent_Properties
  imports Snapshot_Total Marking_Properties
begin

text \<open>
  What marking promises while the mutators run: whatever the order of their steps and the
  collector's, no object that was live at the flip is white when marking ends; the collector
  can always go on and marking ends; and a collector that is left alone does what mark_loop
  does.
\<close>

subsection \<open>The sample heap at the start of marking\<close>

text \<open>
  The sample heap after a flip: three white objects, the first of class POINTERS with a
  pointer to the second, and a global variable that points to the first.
\<close>

definition marking_state :: rt_state where
  "marking_state = sample_state\<lparr>memory := sample_memory(0x10008 := 0x11001, 0x12008 := 0, 0x13000 := 3),
     groups := sample_groups(12 := (empty_group 12)\<lparr>gwhite := 0x10000, gfree := 0x13000, glast := 0x13000,
       gblack := 0x13000, white_count := 3\<rparr>),
     marked_color := GENERATION1, unmarked_color := GENERATION0, enable_write_barrier := True\<rparr>"

definition marking_lists :: "nat \<Rightarrow> agroup" where
  "marking_lists = (\<lambda>_. \<lparr>whites = [], grays = [], blacks = [], greens = []\<rparr>)
     (12 := \<lparr>whites = [0x10000, 0x11000, 0x12000], grays = [], blacks = [], greens = [0x13000]\<rparr>)"

lemma marking_headers:
  "get_prev (memory marking_state) 0x10000 = 0" "get_next (memory marking_state) 0x10000 = 0x11000"
  "get_prev (memory marking_state) 0x11000 = 0x10000" "get_next (memory marking_state) 0x11000 = 0x12000"
  "get_prev (memory marking_state) 0x12000 = 0x11000" "get_next (memory marking_state) 0x12000 = 0"
  "get_prev (memory marking_state) 0x13000 = 0" "get_next (memory marking_state) 0x13000 = 0"
  "GET_COLOR (memory marking_state) 0x10000 = 0" "GET_COLOR (memory marking_state) 0x11000 = 0"
  "GET_COLOR (memory marking_state) 0x12000 = 0" "GET_COLOR (memory marking_state) 0x13000 = 3"
  "GET_STORAGE_CLASS (memory marking_state) 0x10000 = 1" "GET_STORAGE_CLASS (memory marking_state) 0x11000 = 0"
  "GET_STORAGE_CLASS (memory marking_state) 0x12000 = 0"
  by (simp_all add: hdr_defs GET_LINK_POINTER_def GET_LINK_INFO_def LINK_POINTER_MASK_def
      LINK_INFO_MASK_def LINK_INFO_BITS_def sample_memory_def marking_state_def)

lemma marking_group_rep:
  "marking_rep GENERATION1 GENERATION0 (memory marking_state) (groups marking_state i) (marking_lists i)"
proof (cases "i = 12")
  case True
  show ?thesis
    unfolding True marking_rep_def
  proof (intro conjI group_repI)
    show "headers_ok (set (objects (marking_lists 12)))"
      by (simp add: marking_lists_def sample_aligned)
  qed (simp_all add: marking_lists_def marking_state_def empty_group_def objects_def active_def dlist_def
      marking_headers [unfolded marking_state_def, simplified] colored_def black_pointer_ok_def color_defs)
next
  case False
  then show ?thesis
    by (simp add: marking_rep_def group_rep_def marking_state_def sample_groups_def empty_group_def marking_lists_def
        objects_def active_def dlist_def colored_def black_pointer_ok_def)
qed

lemma marking_objects: "object_set marking_lists = object_set sample_lists"
  by (auto simp: object_set_def marking_lists_def sample_lists_def fun_eq_iff)

lemma marking_pages: "same_pages sample_state marking_state"
  by (simp add: same_pages_def marking_state_def sample_groups_def empty_group_def)

lemma marking_heap: "heap_marking marking_state marking_lists"
proof -
  note f = same_pages_facts [OF marking_pages]
  have "geometry marking_state (object_set marking_lists)"
    using heap_repD(4) [OF heap_inv_rep [OF sample_heap_inv]] by (simp add: f marking_objects)
  then show ?thesis
    using marking_group_rep sample_layout sample_groups_ok
    by (simp add: heap_rep_def f) (simp add: marking_state_def colors_ok_def)
qed

lemma marking_white_set: "white_set marking_lists = {0x10000, 0x11000, 0x12000}"
  using group_12 by (auto simp: white_set_def marking_lists_def split: if_splits)

lemma marking_all_objects: "all_objects marking_lists = {0x10000, 0x11000, 0x12000, 0x13000}"
  using sample_all_objects by (simp add: all_objects_def marking_objects)

lemma marking_items: "root_items 10 marking_state = [Root_cell 0x1000]"
  by (simp add: root_items_def saved_state_words_def static_list_def marking_state_def sample_state_def numeral_eq_Suc)

lemma marking_snapshot: "snapshot_start marking_state marking_lists (root_items 10 marking_state)"
  unfolding snapshot_start_def
proof (intro conjI ballI allI impI)
  show "heap_marking marking_state marking_lists" by (rule marking_heap)
  show "barrier_clear marking_state" by (simp add: barrier_clear_def marking_state_def sample_state_def)
  show "RTwrite_vector_length marking_state = total_partition_pages marking_state * BYTES_PER_PAGE div 2048"
    by (simp add: marking_state_def sample_state_def config_defs)
  show "slot_aligned marking_state x" if "x \<in> all_objects marking_lists" for x
    using that by (auto simp: marking_all_objects slot_aligned_def marking_state_def)
  show "GET_STORAGE_CLASS (memory marking_state) x \<in> {SC_NOPOINTERS, SC_POINTERS}" if "x \<in> white_set marking_lists" for x
    using that marking_headers by (auto simp: marking_white_set sc_defs)
  fix a i x assume a: "Root_cell a \<in> set (root_items 10 marking_state)" and x: "i \<in> group_indices" "x \<in> object_set marking_lists i"
  then have "x \<in> all_objects marking_lists" by (auto simp: all_objects_def)
  then show "uint a < uint x \<or> uint x + 2 ^ i \<le> uint a" using a by (auto simp: marking_items marking_all_objects)
qed (simp_all add: marking_lists_def marking_state_def)

lemma marking_ptr_objects:
  "ptr_object marking_state 0x10010 = Some 0x10000" "ptr_object marking_state 0x11010 = Some 0x11000"
  using sample_ptr_objects by (simp_all add: same_pages_facts [OF marking_pages])

lemma marking_live: "{0x10000, 0x11000} \<subseteq> start_live no_hooks marking_state marking_lists (root_items 10 marking_state)"
proof -
  have w: "memory marking_state 0x1000 = 0x10010" "memory marking_state 0x10010 = 0x11010"
    by (simp_all add: marking_state_def sample_memory_def)
  have 1: "0x10000 \<in> start_live no_hooks marking_state marking_lists (root_items 10 marking_state)"
    by (rule live_root [where w = "0x10010"]) (simp_all add: marking_items w marking_ptr_objects marking_white_set)
  have "words_of no_hooks marking_state 0x10000 = map (memory marking_state) (object_cells marking_state 0x10000 (2 ^ 12))"
    by (rule plain_words [OF marking_snapshot group_12]) (simp add: marking_lists_def)
  moreover have "0x10010 \<in> set (object_cells marking_state 0x10000 (2 ^ 12))"
    by (simp add: object_cells_def marking_headers sc_defs SIZEOF_GC_HEADER_def segment_length_def cells_numeral)
  ultimately have "0x11010 \<in> set (words_of no_hooks marking_state 0x10000)" using w by force
  then have "0x11000 \<in> start_live no_hooks marking_state marking_lists (root_items 10 marking_state)"
    by (rule live_step [OF 1]) (simp_all add: marking_ptr_objects marking_white_set)
  then show ?thesis using 1 by simp
qed

subsection \<open>Marking with mutators\<close>

text \<open>
  C2: marking is safe under every interleaving of the collector's steps with steps of the
  mutators, which store through the write barrier (in three steps each), initialise words and
  allocate. If marking started at the flip in the state \<open>s0\<close>, with the objects \<open>A0\<close> and the
  roots scan_root_set reads, and the collector has left the marking loop, then every object
  that was live at the start is black, only objects that were not live are white, nothing is
  gray, and what has been allocated meanwhile is black. So no live object is recycled.
\<close>

theorem concurrent_marking_keeps_live:
  assumes "snapshot_start s0 A0 (root_items fuel s0)" and "total_root_scanners h = 0"
    and "\<And>p k. (p, k) \<in> set (static_list fuel s0) \<Longrightarrow>
      GET_STORAGE_CLASS (memory s0) p \<in> {SC_NOPOINTERS, SC_POINTERS}"
    and "reachable (header_cells (all_objects A0)) s0 (root_items fuel s0) c" and "phase c = Marked"
  shows "\<exists>A. heap_marking (heap c) A \<and> object_set A = object_set A0 \<and> gray_set A = {} \<and>
    live h s0 (set (root_words fuel h s0)) (white_set A0) \<subseteq> black_set A \<and>
    white_set A \<subseteq> white_set A0 - live h s0 (set (root_words fuel h s0)) (white_set A0) \<and>
    (\<forall>i\<in>group_indices. set (greens (A0 i)) - set (greens (A i)) \<subseteq> set (blacks (A i)))"
proof -
  have "item_word (memory s0) ` set (root_items fuel s0) = set (root_words fuel h s0)"
    by (rule root_items_words [OF assms(2,3)])
  then show ?thesis
    using marked_keeps_live [OF assms(1,4,5), where h = h] by (metis (no_types, lifting))
qed

text \<open>A thread cuts the pointer from the first object to the second, through the barrier.\<close>

lemma marking_cut:
  obtains c where "reachable (header_cells (all_objects marking_lists)) marking_state (root_items 10 marking_state) c"
    and "phase c = Scan_roots (root_items 10 marking_state)" and "memory (heap c) 0x10010 = 0"
proof -
  let ?c = "marking_start marking_state (root_items 10 marking_state)"
  let ?R = "reachable (header_cells (all_objects marking_lists)) marking_state (root_items 10 marking_state)"
  obtain s' where s': "RTwrite_barrier 0x10010 0 (heap ?c) = Inr s'" "memory s' 0x10010 = 0"
    by (auto simp: RTwrite_barrier_eq Let_def)
  have "(mutator_step (header_cells (all_objects marking_lists)) 0)\<^sup>*\<^sup>* ?c (?c\<lparr>heap := s'\<rparr>)"
    using s'(1) by (intro barrier_steps) (simp_all add: marking_start_def header_cells_def marking_all_objects)
  then have "?R (?c\<lparr>heap := s'\<rparr>)"
    by (induction rule: rtranclp_induct) (blast intro: reachable.intros)+
  then show thesis using s'(2) by (intro that [of "?c\<lparr>heap := s'\<rparr>"]) (simp_all add: marking_start_def)
qed

lemma reachable_run:
  "collector_step\<^sup>*\<^sup>* c c' \<Longrightarrow> reachable Hd s0 rs c \<Longrightarrow> reachable Hd s0 rs c'"
  by (induction rule: rtranclp_induct) (blast intro: reachable.by_collector)+

lemma marking_no_statics: "static_list 10 marking_state = []"
  by (simp add: static_list_def marking_state_def sample_state_def numeral_eq_Suc)

theorem concurrent_marking_keeps_live_witness:
  "\<exists>c c' A. reachable (header_cells (all_objects marking_lists)) marking_state (root_items 10 marking_state) c \<and>
     memory (heap c) 0x10010 = 0 \<and> collector_step\<^sup>*\<^sup>* c c' \<and> phase c' = Marked \<and>
     heap_marking (heap c') A \<and> {0x10000, 0x11000} \<subseteq> black_set A"
proof -
  obtain c where c: "reachable (header_cells (all_objects marking_lists)) marking_state (root_items 10 marking_state) c"
    "memory (heap c) 0x10010 = 0" using marking_cut by blast
  obtain A1 where "world_ok no_hooks marking_state marking_lists (root_items 10 marking_state) c A1"
    using reachable_world_ok [OF marking_snapshot c(1)] by blast
  then obtain c' where c': "collector_step\<^sup>*\<^sup>* c c'" "phase c' = Marked"
    using collector_finishes [OF marking_snapshot] by blast
  have h: "total_root_scanners no_hooks = 0" by (simp add: no_hooks_def)
  have "\<exists>A. heap_marking (heap c') A \<and>
      live no_hooks marking_state (set (root_words 10 no_hooks marking_state)) (white_set marking_lists) \<subseteq> black_set A"
    using concurrent_marking_keeps_live [OF marking_snapshot h _ reachable_run [OF c'(1) c(1)] c'(2)]
    by (auto simp: marking_no_statics)
  moreover have "item_word (memory marking_state) ` set (root_items 10 marking_state) = set (root_words 10 no_hooks marking_state)"
    by (rule root_items_words [OF h]) (simp add: marking_no_statics)
  ultimately obtain A where "heap_marking (heap c') A" "{0x10000, 0x11000} \<subseteq> black_set A"
    using marking_live by auto
  then show ?thesis using c c' by blast
qed

text \<open>
  C9: in every reachable world the collector can take a step or has finished, no assertion of
  a step fails, and if it runs on without further steps of the mutators it finishes marking.
\<close>

theorem concurrent_marking_ends:
  assumes "snapshot_start s0 A0 rs" and "reachable (header_cells (all_objects A0)) s0 rs c"
  shows "(phase c = Marked \<or> (\<exists>c'. collector_step c c')) \<and> (\<exists>c'. collector_step\<^sup>*\<^sup>* c c' \<and> phase c' = Marked)"
proof -
  obtain A where "world_ok no_hooks s0 A0 rs c A" using reachable_world_ok [OF assms] by blast
  then show ?thesis using collector_progress [OF assms(1)] collector_finishes [OF assms(1)] by blast
qed

theorem concurrent_marking_ends_witness:
  "\<exists>c c'. reachable (header_cells (all_objects marking_lists)) marking_state (root_items 10 marking_state) c \<and>
    memory (heap c) 0x10010 = 0 \<and> collector_step\<^sup>*\<^sup>* c c' \<and> phase c' = Marked"
  using marking_cut concurrent_marking_ends [OF marking_snapshot] by (metis (no_types, lifting))

text \<open>
  C10: the steps of the collector are those of the code, and the code comes to an end. From
  the end of scan_root_set, in any reachable world, with whatever the threads have recorded
  till then, the loop of full_gc over scan_gray_set and scan_write_vector returns, within two
  rounds and with fuel for the objects that were white at the start; the steps of a collector
  that runs alone lead to its result, and to no other.
\<close>

theorem mark_loop_is_collector_run:
  assumes "snapshot_start s0 A0 rs" and "reachable (header_cells (all_objects A0)) s0 rs c"
    and "phase c = At_group MIN_GROUP_INDEX 0" and "2 \<le> rounds" and "unscanned A0 < fuel"
  shows "\<exists>s'. mark_loop rounds fuel h (heap c) = Inr s' \<and>
    collector_step\<^sup>*\<^sup>* c (c\<lparr>heap := s', phase := Marked\<rparr>) \<and>
    (\<forall>c'. collector_step\<^sup>*\<^sup>* c c' \<longrightarrow> phase c' = Marked \<longrightarrow> c' = c\<lparr>heap := s', phase := Marked\<rparr>)"
proof -
  obtain A where W: "world_ok h s0 A0 rs c A" using reachable_world_ok [OF assms(1,2)] by blast
  obtain s' where s': "mark_loop rounds fuel h (heap c) = Inr s'"
    using mark_loop_total [OF assms(1) world_okD(1) [OF W] assms(4,5)] by blast
  have run: "collector_step\<^sup>*\<^sup>* c (c\<lparr>heap := s', phase := Marked\<rparr>)"
    by (rule mark_loop_steps [OF assms(1) W assms(3) s'])
  have "c' = c\<lparr>heap := s', phase := Marked\<rparr>" if "collector_step\<^sup>*\<^sup>* c c'" "phase c' = Marked" for c'
    by (rule collector_result_unique [OF that run]) simp
  then show ?thesis using s' run by blast
qed

lemma marking_unscanned: "unscanned marking_lists < 10"
proof -
  have "unscanned marking_lists = (\<Sum>i\<in>group_indices. if i = 12 then 3 else 0)"
    unfolding unscanned_def by (intro sum.cong) (simp_all add: marking_lists_def)
  then show ?thesis by (simp add: group_indices_def config_defs)
qed

text \<open>Without a step of a thread, the collector comes to the end of the root set.\<close>

lemma marking_after_roots:
  obtains c where "reachable (header_cells (all_objects marking_lists)) marking_state (root_items 10 marking_state) c"
    and "phase c = At_group MIN_GROUP_INDEX 0" and "scan_root_set 10 no_hooks marking_state = Inr (heap c)"
proof -
  let ?R = "reachable (header_cells (all_objects marking_lists)) marking_state (root_items 10 marking_state)"
  let ?c = "marking_start marking_state (root_items 10 marking_state)"
  have w: "memory marking_state 0x1000 = 0x10010" by (simp add: marking_state_def sample_memory_def)
  obtain s1 where s1: "RTtrace_pointer 0x10010 marking_state = Inr s1" "gc_frame (all_objects marking_lists) marking_state s1"
    using RTtrace_pointer_refines [OF marking_heap, of "0x10010"] by blast
  note f = gc_frame_fields [OF s1(2)]
  have "scan_root_set 10 no_hooks marking_state = Inr s1"
    using s1(1) w by (simp add: scan_root_set_def scan_threads_def scan_global_roots_def scan_global_root_def
        scan_static_space_def no_hooks_def numeral_eq_Suc f marking_state_def sample_state_def)
  let ?c1 = "?c\<lparr>heap := s1, phase := Scan_roots []\<rparr>" and ?c2 = "?c\<lparr>heap := s1, phase := At_group MIN_GROUP_INDEX 0\<rparr>"
  have "collector_step ?c ?c1"
    by (rule collector_step.trace_root [where r = "Root_cell 0x1000"]) (simp_all add: marking_start_def marking_items w s1(1))
  moreover have "collector_step ?c1 ?c2" using collector_step.roots_done [of ?c1] by simp
  ultimately have "?R ?c2" by (blast intro: reachable.intros)
  then show thesis
    using \<open>scan_root_set 10 no_hooks marking_state = Inr s1\<close> by (intro that [of ?c2]) simp_all
qed

theorem mark_loop_is_collector_run_witness:
  "\<exists>c s3. scan_root_set 10 no_hooks marking_state = Inr (heap c) \<and> mark_loop 2 10 no_hooks (heap c) = Inr s3 \<and>
    collector_step\<^sup>*\<^sup>* c (c\<lparr>heap := s3, phase := Marked\<rparr>)"
  using marking_after_roots mark_loop_is_collector_run [OF marking_snapshot _ _ _ marking_unscanned, where rounds = 2 and h = no_hooks]
  by (metis order_refl)

text \<open>
  RTwrite_barrier by a thread is its three steps, taken one after the other: the test
  of the overwritten word, the record in the vector, the store.
\<close>

theorem write_barrier_is_mutator_run:
  assumes "barrier c t = Outside" and "lhs \<notin> Hd"
  shows "\<exists>s'. RTwrite_barrier lhs rhs (heap c) = Inr s' \<and> (mutator_step Hd t)\<^sup>*\<^sup>* c (c\<lparr>heap := s'\<rparr>)"
  using barrier_steps [OF assms] by (auto simp: RTwrite_barrier_eq Let_def)

theorem write_barrier_is_mutator_run_witness:
  "\<exists>c s'. RTwrite_barrier 0x10010 0 (heap c) = Inr s' \<and> heap c = marking_state \<and>
    (mutator_step (header_cells (all_objects marking_lists)) 0)\<^sup>*\<^sup>* c (c\<lparr>heap := s'\<rparr>)"
proof -
  let ?c = "marking_start marking_state []" and ?Hd = "header_cells (all_objects marking_lists)"
  have "barrier ?c 0 = Outside" "0x10010 \<notin> ?Hd"
    by (simp_all add: marking_start_def header_cells_def marking_all_objects)
  from write_barrier_is_mutator_run [OF this, of 0]
  obtain s' where "RTwrite_barrier 0x10010 0 (heap ?c) = Inr s'" "(mutator_step ?Hd 0)\<^sup>*\<^sup>* ?c (?c\<lparr>heap := s'\<rparr>)"
    by blast
  moreover have "heap ?c = marking_state" by (simp add: marking_start_def)
  ultimately show ?thesis by blast
qed

end
