(* ===== verification/Handshake_Properties.thy ===== *)
theory Handshake_Properties
  imports Handshake_Progress Concurrent_Properties
begin

text \<open>
  What the handshake of a flip promises, and a window in it: a thread that has left its
  handler runs on while the collector still waits for the others, with the write barrier
  off and its own stack already copied.
\<close>

subsection \<open>A run of the handshake\<close>

text \<open>
  The sample heap between collections, its first object of class POINTERS, with two threads
  that hold no pointer and have save areas of their own.
\<close>

definition race_state :: "bool \<Rightarrow> rt_state" where
  "race_state atomic = sample_state\<lparr>memory := sample_memory(0x10008 := 0x11001),
     saved_threads := [\<lparr>registers = 0x2000, saved_stack_base = 0x3000, saved_stack_size = 0\<rparr>,
       \<lparr>registers = 0x4000, saved_stack_base = 0x6000, saved_stack_size = 0\<rparr>], RTatomic_gc := atomic\<rparr>"

definition race_threads :: "mutator list" where
  "race_threads = replicate 2 (context_of sample_thread 0)"

definition race_untouched :: "addr set" where
  "race_untouched = header_cells (all_objects sample_lists) \<union> set (cells 23 0x2000) \<union> set (cells 23 0x4000)"

lemma race_thread_ok: "th \<in> set race_threads \<Longrightarrow> mutator_ok th"
  using context_of_ok [OF sample_thread_ok(1)] by (auto simp: race_threads_def)

lemma lock_all_groups:
  assumes "flip_reachable ths Hd w0 w" and "fpc w = Lock_group i" and "i \<le> Suc MAX_GROUP_INDEX"
    and "\<And>j. i \<le> j \<Longrightarrow> free_lock w j = Unlocked"
  obtains w' where "flip_reachable ths Hd w0 w'" and "fpc w' = Lock_group (Suc MAX_GROUP_INDEX)"
    and "fstate w' = fstate w" and "handler w' = handler w" and "reg w' = reg w"
proof -
  have "\<exists>w'. flip_reachable ths Hd w0 w' \<and> fpc w' = Lock_group (Suc MAX_GROUP_INDEX) \<and>
      fstate w' = fstate w \<and> handler w' = handler w \<and> reg w' = reg w"
    using assms
  proof (induction "Suc MAX_GROUP_INDEX - i" arbitrary: w i)
    case 0
    then have "i = Suc MAX_GROUP_INDEX" by simp
    then show ?case using 0 by blast
  next
    case (Suc d)
    let ?w = "w\<lparr>free_lock := (free_lock w)(i := By_collector), fpc := Lock_group (i + 1)\<rparr>"
    have "flip_step ths w ?w" using Suc by (intro flip_step.lock_all_free_locks) auto
    then have "flip_reachable ths Hd w0 ?w" using Suc.prems(1) by (rule flip_reachable.by_flip [rotated])
    from Suc.hyps(1) [OF _ this, of "i + 1"] Suc.hyps(2) Suc.prems(3,4) show ?case by simp
  qed
  then show thesis using that by blast
qed

lemma unlock_all_groups:
  assumes "flip_reachable ths Hd w0 w" and "fpc w = Unlock_group i" and "i \<le> Suc MAX_GROUP_INDEX"
  obtains w' where "flip_reachable ths Hd w0 w'" and "fpc w' = Unlock_group (Suc MAX_GROUP_INDEX)"
    and "fstate w' = fstate w" and "copied_stack_count w' = copied_stack_count w" and "reg w' = reg w"
proof -
  have "\<exists>w'. flip_reachable ths Hd w0 w' \<and> fpc w' = Unlock_group (Suc MAX_GROUP_INDEX) \<and>
      fstate w' = fstate w \<and> copied_stack_count w' = copied_stack_count w \<and> reg w' = reg w"
    using assms
  proof (induction "Suc MAX_GROUP_INDEX - i" arbitrary: w i)
    case 0
    then have "i = Suc MAX_GROUP_INDEX" by simp
    then show ?case using 0 by blast
  next
    case (Suc d)
    let ?w = "w\<lparr>free_lock := (free_lock w)(i := Unlocked), fpc := Unlock_group (i + 1)\<rparr>"
    have "flip_step ths w ?w" using Suc by (intro flip_step.unlock_all_free_locks) auto
    then have "flip_reachable ths Hd w0 ?w" using Suc.prems(1) by (rule flip_reachable.by_flip [rotated])
    from Suc.hyps(1) [OF _ this, of "i + 1"] Suc.hyps(2) Suc.prems(3) show ?case by simp
  qed
  then show thesis using that by blast
qed

text \<open>One thread goes through its handler, from the signal to the return, without a wait.\<close>

lemma handler_runs:
  assumes r: "flip_reachable ths Hd w0 w" and t: "t < length ths" "handler w t = Signalled"
    and m: "mutator_ok (ths ! t)" and k: "t < length (saved_threads (fstate w))"
    and g: "gc_count (fstate w) = 0"
  obtains w' where "flip_reachable ths Hd w0 w'" and "handler w' = (handler w)(t := Returned)"
    and "fstate w' = (fstate w)\<lparr>memory := handler_write (saved_threads (fstate w) ! t, context_of (ths ! t) (reg w t)) (memory (fstate w)),
        saved_threads := (saved_threads (fstate w))[t := saved_thread (saved_threads (fstate w) ! t) (context_of (ths ! t) (reg w t))]\<rparr>"
    and "entered_handler_count w' = entered_handler_count w + 1"
    and "copied_stack_count w' = copied_stack_count w + 1" and "fpc w' = fpc w" and "reg w' = reg w"
proof -
  let ?w1 = "w\<lparr>entered_handler_count := entered_handler_count w + 1, handler := (handler w)(t := Entered (gc_count (fstate w)))\<rparr>"
  have "handler_step ths t w ?w1" by (rule handler_step.handler_enter [OF t])
  then have r1: "flip_reachable ths Hd w0 ?w1" by (rule flip_reachable.by_handler [OF r])
  let ?th = "context_of (ths ! t) (reg w t)"
  let ?s = "(fstate w)\<lparr>memory := handler_write (saved_threads (fstate w) ! t, ?th) (memory (fstate w)),
      saved_threads := (saved_threads (fstate w))[t := saved_thread (saved_threads (fstate w) ! t) ?th]\<rparr>"
  let ?w2 = "?w1\<lparr>fstate := ?s, copied_stack_count := copied_stack_count w + 1, handler := (handler w)(t := Copied 0)\<rparr>"
  have "handler_step ths t ?w1 (?w1\<lparr>fstate := ?s, copied_stack_count := copied_stack_count w + 1, handler := (handler ?w1)(t := Copied 0)\<rparr>)"
    using gc_flip_action_eq [OF context_of_ok [OF m] k, of "reg w t" 0 "copied_stack_count w"] t(1) g
    by (intro handler_step.handler_copy) simp_all
  then have r2: "flip_reachable ths Hd w0 ?w2" using flip_reachable.by_handler [OF r1] by simp
  have "handler_step ths t ?w2 (?w2\<lparr>handler := (handler ?w2)(t := Returned)\<rparr>)"
    by (rule handler_step.handler_return [where g = 0]) (simp_all add: t(1) g c_long_id)
  then have "flip_reachable ths Hd w0 (?w2\<lparr>handler := (handler w)(t := Returned)\<rparr>)"
    using flip_reachable.by_handler [OF r2] by simp
  then show thesis by (rule that) simp_all
qed

subsection \<open>The window before the colours change\<close>

text \<open>
  The state the run below ends in: \<open>s1\<close> is the state after the loop of flip over the groups.
  Both save areas hold the registers of threads that know no object, and the pointer from
  the first object to the second is gone.
\<close>

definition race_regs :: "addr list" where
  "race_regs = (replicate 23 0)[15 := 0x5000]"

definition race_memory :: "mem \<Rightarrow> mem" where
  "race_memory m = store_words 0x4000 race_regs ((store_words 0x2000 race_regs m)(0x10010 := 0))"

definition race_end :: "rt_state \<Rightarrow> rt_state" where
  "race_end s1 = s1\<lparr>memory := race_memory (memory s1), enable_write_barrier := True,
     marked_color := unmarked_color s1, unmarked_color := marked_color s1, total_saved_threads := 2\<rparr>"

lemma race_context: "context_of (race_threads ! t) 0 = context_of sample_thread 0" if "t < 2"
  using that by (simp add: race_threads_def context_of_def)

lemma race_handler:
  "handler_write (st, context_of sample_thread 0) m = store_words (registers st) race_regs m"
  "saved_stack_size st = 0 \<Longrightarrow> saved_thread st (context_of sample_thread 0) = st"
proof -
  have "gregs (context_of sample_thread 0) = race_regs"
    by (simp add: context_of_def sample_thread_def race_regs_def numeral_eq_Suc)
  moreover have l: "live_stack_size (context_of sample_thread 0) = 0"
    by (simp add: live_stack_size_def context_of_def sample_thread_def REG_RSP_def)
  ultimately show "handler_write (st, context_of sample_thread 0) m = store_words (registers st) race_regs m"
    by (simp add: handler_write_def stack_longs_def copy_longs_def)
  show "saved_stack_size st = 0 \<Longrightarrow> saved_thread st (context_of sample_thread 0) = st"
    by (simp add: saved_thread_def l c_int_def)
qed

abbreviation race_reachable :: "bool \<Rightarrow> flip_world \<Rightarrow> bool" where
  "race_reachable b \<equiv> flip_reachable race_threads race_untouched (flip_start (race_state b) (\<lambda>_. 0))"

abbreviation race_areas :: "thread_state list" where
  "race_areas \<equiv> [\<lparr>registers = 0x2000, saved_stack_base = 0x3000, saved_stack_size = 0\<rparr>,
     \<lparr>registers = 0x4000, saved_stack_base = 0x6000, saved_stack_size = 0\<rparr>]"

lemma race_thread_facts:
  shows "length race_threads = 2" and "t < 2 \<Longrightarrow> mutator_ok (race_threads ! t)"
    and "t < 2 \<Longrightarrow> kill_result (race_threads ! t) = 0"
  using race_thread_ok [of "race_threads ! t"] by (auto simp: race_threads_def mutator_ok_def)

lemma race_group_fields:
  assumes "rfold (\<lambda>i. on_group i flip_group) group_list (race_state b) = Inr s1"
  shows "saved_threads s1 = race_areas" and "RTno_write_barrier_state_ptr s1 = 0" and "gc_count s1 = 0"
    and "enable_write_barrier s1 = False"
  by (subst on_groups_fields [OF assms], simp add: race_state_def sample_state_def)+

text \<open>The collector takes the locks, flips the groups and signals both threads.\<close>

lemma race_signals:
  assumes s1: "rfold (\<lambda>i. on_group i flip_group) group_list (race_state b) = Inr s1"
  obtains w where "race_reachable b w" and "fpc w = Wait_entered" and "fstate w = s1"
    and "handler w = (\<lambda>_. Off)(0 := Signalled, 1 := Signalled)" and "entered_handler_count w = 0"
    and "copied_stack_count w = 0" and "reg w = (\<lambda>_. 0)"
proof -
  note f = race_group_fields [OF s1] and two = race_thread_facts(1) and kill = race_thread_facts(3)
  have "race_reachable b (flip_start (race_state b) (\<lambda>_. 0))" by (rule flip_reachable.flip_begins)
  then obtain w1 where w1: "race_reachable b w1" "fpc w1 = Lock_group (Suc MAX_GROUP_INDEX)" "fstate w1 = race_state b"
    "handler w1 = (\<lambda>_. Off)" "reg w1 = (\<lambda>_. 0)"
    by (rule lock_all_groups [where i = MIN_GROUP_INDEX]) (simp_all add: flip_start_def config_defs)
  let ?w2 = "w1\<lparr>fstate := s1, entered_handler_count := 0, copied_stack_count := 0, fpc := Signal 0\<rparr>"
  have "flip_step race_threads w1 ?w2" by (rule flip_step.flip_groups [OF w1(2)]) (simp_all add: w1(3) s1)
  then have r2: "race_reachable b ?w2" by (rule flip_reachable.by_flip [OF w1(1)])
  let ?w3 = "?w2\<lparr>fstate := s1, handler := (handler w1)(0 := Signalled), fpc := Signal 1\<rparr>"
  have "flip_step race_threads ?w2 (?w2\<lparr>fstate := s1, handler := (handler ?w2)(0 := Signalled), fpc := Signal (0 + 1)\<rparr>)"
    by (rule flip_step.send_signal) (simp_all add: two signal_thread_def f kill)
  then have r3: "race_reachable b ?w3" using flip_reachable.by_flip [OF r2] by simp
  let ?w4 = "?w3\<lparr>fstate := s1, handler := (handler w1)(0 := Signalled, 1 := Signalled), fpc := Signal 2\<rparr>"
  have "flip_step race_threads ?w3 (?w3\<lparr>fstate := s1, handler := (handler ?w3)(1 := Signalled), fpc := Signal (1 + 1)\<rparr>)"
    by (rule flip_step.send_signal) (simp_all add: two signal_thread_def f kill)
  then have r4: "race_reachable b ?w4" using flip_reachable.by_flip [OF r3] by (simp add: numeral_2_eq_2)
  let ?w5 = "?w4\<lparr>fstate := s1, fpc := Wait_entered\<rparr>"
  have "flip_step race_threads ?w4 ?w5"
    using flip_step.all_signalled [of ?w4 2 race_threads] by (simp add: two f)
  then have "race_reachable b ?w5" by (rule flip_reachable.by_flip [OF r4])
  then show thesis using w1 by (intro that [of ?w5]) simp_all
qed

text \<open>
  The first thread goes through its handler, loads the pointer into its register and
  overwrites it; then the second thread goes through its handler.
\<close>

lemma race_window:
  assumes s1: "rfold (\<lambda>i. on_group i flip_group) group_list (race_state b) = Inr s1"
    and v: "memory s1 0x10010 = 0x11010"
  obtains w where "race_reachable b w" and "fstate w = s1\<lparr>memory := race_memory (memory s1)\<rparr>"
    and "entered_handler_count w = 2" and "copied_stack_count w = 2" and "fpc w = Wait_entered" and "reg w 0 = 0x11010"
proof -
  note f = race_group_fields [OF s1] and two = race_thread_facts(1) and ok = race_thread_facts(2)
  have areas: "s1\<lparr>saved_threads := race_areas\<rparr> = s1" using f(1) by simp
  obtain w5 where w5: "race_reachable b w5" "fpc w5 = Wait_entered" "fstate w5 = s1"
    "handler w5 = (\<lambda>_. Off)(0 := Signalled, 1 := Signalled)" "entered_handler_count w5 = 0"
    "copied_stack_count w5 = 0" "reg w5 = (\<lambda>_. 0)" by (rule race_signals [OF s1])
  obtain w6 where w6: "race_reachable b w6" "handler w6 = (\<lambda>_. Off)(0 := Returned, 1 := Signalled)"
    "fstate w6 = s1\<lparr>memory := store_words 0x2000 race_regs (memory s1)\<rparr>"
    "entered_handler_count w6 = 1" "copied_stack_count w6 = 1" "fpc w6 = Wait_entered" "reg w6 = (\<lambda>_. 0)"
  proof (rule handler_runs [OF w5(1), of 0], goal_cases)
    case (6 w')
    then show ?case using f w5 areas by (intro 6(1)) (auto simp: race_context race_handler)
  qed (simp_all add: two ok f w5)
  let ?w7 = "w6\<lparr>reg := (reg w6)(0 := memory (fstate w6) 0x10010)\<rparr>"
  have in6: "memory (fstate w6) 0x10010 = 0x11010"
  proof -
    have "0x10010 \<notin> set (cells (length race_regs) 0x2000)"
      by (simp add: race_regs_def cells_numeral GC_POINTER_ALIGNMENT_def)
    then show ?thesis using v by (simp add: w6(3) store_words_other)
  qed
  have "thread_step race_untouched 0 w6 ?w7" by (rule thread_step.load) (simp add: runs_def w6(2))
  then have r7: "race_reachable b ?w7" by (rule flip_reachable.by_thread [OF w6(1), rotated]) (simp add: two)
  let ?w8 = "?w7\<lparr>fstate := s1\<lparr>memory := (store_words 0x2000 race_regs (memory s1))(0x10010 := 0)\<rparr>\<rparr>"
  have "thread_step race_untouched 0 ?w7 ?w8"
    by (rule thread_step.store [where a = "0x10010" and v = 0])
      (simp_all add: runs_def w6(2,3) RTwrite_barrier_eq f(4) race_untouched_def sample_header_cells cells_numeral
        GC_POINTER_ALIGNMENT_def)
  then have r8: "race_reachable b ?w8" by (rule flip_reachable.by_thread [OF r7, rotated]) (simp add: two)
  show thesis
  proof (rule handler_runs [OF r8, of 1], goal_cases)
    case (6 w')
    then show ?case
      using f w6 in6 areas race_context [of 1] by (intro that) (auto simp: race_handler race_memory_def)
  qed (simp_all add: two ok f w6(2))
qed

lemma race_run:
  assumes s1: "rfold (\<lambda>i. on_group i flip_group) group_list (race_state b) = Inr s1"
    and v: "memory s1 0x10010 = 0x11010"
  obtains w where "race_reachable b w" and "fpc w = Released" and "fstate w = race_end s1" and "reg w 0 = 0x11010"
proof -
  note two = race_thread_facts(1)
  obtain w9 where w9: "race_reachable b w9" "fstate w9 = s1\<lparr>memory := race_memory (memory s1)\<rparr>"
    "entered_handler_count w9 = 2" "copied_stack_count w9 = 2" "fpc w9 = Wait_entered" "reg w9 0 = 0x11010"
    by (rule race_window [OF s1 v])
  let ?w10 = "w9\<lparr>fstate := (fstate w9)\<lparr>enable_write_barrier := True, marked_color := unmarked_color (fstate w9),
      unmarked_color := marked_color (fstate w9)\<rparr>, fpc := Unlock_group MIN_GROUP_INDEX\<rparr>"
  have "flip_step race_threads w9 ?w10" by (rule flip_step.all_entered [OF w9(5)]) (simp add: two w9(3))
  then have r10: "race_reachable b ?w10" by (rule flip_reachable.by_flip [OF w9(1)])
  obtain w11 where w11: "race_reachable b w11" "fpc w11 = Unlock_group (Suc MAX_GROUP_INDEX)" "fstate w11 = fstate ?w10"
    "copied_stack_count w11 = 2" "reg w11 = reg w9"
    by (rule unlock_all_groups [OF r10, where i = MIN_GROUP_INDEX]) (simp_all add: config_defs w9(4))
  let ?w12 = "w11\<lparr>fstate := (fstate w11)\<lparr>total_saved_threads := length race_threads\<rparr>, fpc := Released\<rparr>"
  have "flip_step race_threads w11 ?w12" by (rule flip_step.all_copied [OF w11(2)]) (simp_all add: two w11(4))
  then have "race_reachable b ?w12" by (rule flip_reachable.by_flip [OF w11(1)])
  moreover have "fstate ?w12 = race_end s1" by (simp add: w11(3) w9(2) race_end_def two)
  ultimately show thesis using w9(6) w11(5) by (intro that [of ?w12]) simp_all
qed

text \<open>Both collectors, real-time and atomic, start from the same heap.\<close>

lemma race_class: "sample_memory(0x10008 := 0x11001) = SET_STORAGE_CLASS sample_memory 0x10000 SC_POINTERS"
  by (simp add: SET_STORAGE_CLASS_def SET_LINK_INFO_def GC_STORAGE_INFO_MASK_def sc_defs sample_memory_def fun_eq_iff)

lemma race_pages: "same_pages sample_state (race_state b)"
  by (simp add: same_pages_def race_state_def)

lemma race_idle: "heap_rep (\<lambda>_. idle_rep) (race_state b) sample_lists"
proof -
  note f = same_pages_facts [OF race_pages] and r = heap_repD [OF heap_inv_rep [OF sample_heap_inv]]
  have "idle_rep GENERATION0 GENERATION1 (sample_memory(0x10008 := 0x11001)) (sample_groups i) (sample_lists i)" for i
    unfolding race_class by (rule idle_heap.class_set [OF sample_idle_rep sample_aligned(1)]) (simp add: sc_defs two_bits_def)
  then show ?thesis using r(1-4) by (simp add: heap_rep_def f) (simp add: race_state_def)
qed

text \<open>The state after the loop of flip over the groups of \<open>race_state\<close>.\<close>

definition race_flipped :: "bool \<Rightarrow> rt_state \<Rightarrow> bool" where
  "race_flipped b s1 \<longleftrightarrow> heap_rep (\<lambda>_. flipped_rep) s1 (flipped sample_lists) \<and>
     gc_frame (all_objects sample_lists) (race_state b) s1 \<and>
     all_objects (flipped sample_lists) = all_objects sample_lists"

lemma race_flips:
  obtains s1 where "rfold (\<lambda>i. on_group i flip_group) group_list (race_state b) = Inr s1" and "race_flipped b s1"
  using flip_groups_refines [OF race_idle] by (auto simp: race_flipped_def)

lemma race_flippedD:
  assumes "race_flipped b s1"
  shows "heap_rep (\<lambda>_. flipped_rep) s1 (flipped sample_lists)"
    and "gc_frame (all_objects sample_lists) (race_state b) s1"
    and "all_objects (flipped sample_lists) = all_objects sample_lists"
    and "links_only (all_objects sample_lists) (memory (race_state b)) (memory s1)"
    and "same_pages sample_state (race_end s1)"
  using assms same_pages_trans [OF race_pages gc_frame_same_pages, of "all_objects sample_lists" b s1]
  by (simp_all add: race_flipped_def gc_frame_def) (simp add: same_pages_def race_end_def)

lemma race_flipped_cell:
  assumes "race_flipped b s1" and "a \<notin> header_cells (all_objects sample_lists)"
  shows "memory s1 a = memory (race_state b) a"
  by (rule links_only_cell [OF race_flippedD(4) [OF assms(1)] assms(2)])

lemma race_pointer:
  assumes "race_flipped b s1"
  shows "memory s1 0x10010 = 0x11010"
  using race_flipped_cell [OF assms, of "0x10010"]
  by (simp add: sample_header_cells race_state_def sample_memory_def)

lemma race_ptr_object: "race_flipped b s1 \<Longrightarrow> ptr_object (race_end s1) = ptr_object sample_state"
  using same_pages_facts(8) [OF race_flippedD(5)] by (simp add: fun_eq_iff)

lemma race_regs_length [simp]: "length race_regs = 23"
  by (simp add: race_regs_def)

text \<open>What the handlers and the thread have written: the save areas and one cell.\<close>

lemma race_memory_out:
  "a \<notin> set (cells 23 0x2000) \<Longrightarrow> a \<notin> set (cells 23 0x4000) \<Longrightarrow> race_memory m a = (if a = 0x10010 then 0 else m a)"
  by (simp add: race_memory_def store_words_other)

lemma race_memory_far:
  assumes "0x10000 \<le> uint a"
  shows "race_memory m a = (if a = 0x10010 then 0 else m a)"
proof -
  have "uint a < 0x10000" if "a \<in> set (cells 23 0x2000) \<or> a \<in> set (cells 23 0x4000)"
    using that by (auto simp: cells_numeral GC_POINTER_ALIGNMENT_def)
  then show ?thesis using assms by (intro race_memory_out) force+
qed

lemma race_memory_header:
  "a \<in> header_cells (all_objects sample_lists) \<Longrightarrow> race_memory m a = m a"
  using race_memory_far [of a m] by (auto simp: sample_header_cells)

lemma race_memory_body:
  assumes "race_flipped b s1" and "a \<notin> header_cells (all_objects sample_lists)" and "0x10000 \<le> uint a"
  shows "race_memory (memory s1) a = (if a = 0x10010 then 0 else sample_memory a)"
  using race_memory_far [OF assms(3)] race_flipped_cell [OF assms(1,2)] assms(2)
  by (auto simp: race_state_def sample_header_cells)

lemma race_heap_marking:
  assumes fl: "race_flipped b s1"
  shows "heap_marking (race_end s1) (flipped sample_lists)"
  unfolding heap_rep_def
proof (intro conjI ballI)
  let ?e = "race_end s1" and ?A = "flipped sample_lists"
  note h = heap_repD [OF race_flippedD(1) [OF fl]]
  have "same_pages s1 ?e" by (simp add: same_pages_def race_end_def)
  note f1 = same_pages_facts [OF this]
  show "layout_ok ?e" "groups_ok ?e" "geometry ?e (object_set ?A)" using h(1,3,4) f1 by simp_all
  show "colors_ok (marked_color ?e) (unmarked_color ?e)" using h(2) by (auto simp: race_end_def colors_ok_def)
  fix i assume i: "i \<in> group_indices"
  show "marking_rep (marked_color ?e) (unmarked_color ?e) (memory (race_end s1)) (groups ?e i) (?A i)"
  proof (rule marking_rep_cong)
    show "marking_rep (marked_color ?e) (unmarked_color ?e) (memory s1) (groups ?e i) (?A i)"
      using h(5) [OF i] by (simp add: flipped_rep_def race_end_def)
    fix x assume "x \<in> set (objects (?A i))"
    then have "x \<in> all_objects sample_lists"
      unfolding race_flippedD(3) [OF fl, symmetric] using i by (auto simp: all_objects_def object_set_def simp del: objects_simps)
    then show "memory ?e x = memory s1 x \<and> memory ?e (x + 8) = memory s1 (x + 8)"
      using race_memory_header by (simp add: race_end_def header_cells_def)
  qed
qed

lemma race_whites:
  "i \<in> group_indices \<Longrightarrow> whites (flipped sample_lists i) = (if i = 12 then [0x10000, 0x11000, 0x12000] else [])"
  by (simp add: sample_lists_def)

lemma race_white_set: "white_set (flipped sample_lists) = {0x10000, 0x11000, 0x12000}"
  using race_whites group_12 unfolding white_set_def by (auto simp del: flipped_lists split: if_splits)

lemma race_storage_class:
  assumes fl: "race_flipped b s1" and x: "x \<in> white_set (flipped sample_lists)"
  shows "GET_STORAGE_CLASS (memory (race_end s1)) x = (if x = 0x10000 then SC_POINTERS else SC_NOPOINTERS)"
proof -
  have "x + 8 \<in> header_cells (all_objects sample_lists)" using x by (auto simp: race_white_set sample_header_cells)
  then have "GET_STORAGE_CLASS (memory (race_end s1)) x = GET_STORAGE_CLASS (memory s1) x"
    using race_memory_header by (simp add: GET_STORAGE_CLASS_def race_end_def)
  also have "\<dots> = GET_STORAGE_CLASS (memory (race_state b)) x"
    using x sample_aligned by (intro links_only_storage_class [OF race_flippedD(4) [OF fl]]) (auto simp: race_white_set)
  also have "\<dots> = (if x = 0x10000 then SC_POINTERS else SC_NOPOINTERS)"
    using x sample_headers after_SET_STORAGE_CLASS(4) [OF sample_aligned(1), of x SC_POINTERS] sample_aligned
    by (auto simp: race_white_set race_state_def race_class sc_defs two_bits_def)
  finally show ?thesis .
qed

lemma race_scannable:
  assumes fl: "race_flipped b s1"
  shows "scannable no_hooks (race_end s1) (flipped sample_lists)"
  unfolding scannable_def
proof (intro ballI)
  let ?e = "race_end s1" and ?A = "flipped sample_lists"
  note rep = race_heap_marking [OF fl]
  fix i x assume i: "i \<in> group_indices" and x: "x \<in> set (whites (?A i))"
  have xo: "x \<in> object_set ?A i" by (rule white_object [where A = ?A, OF i x])
  have "segment_ok (all_objects ?A) (x + word_of_int SIZEOF_GC_HEADER) (x + word_of_int (2 ^ i))"
    using body_segment_ok [OF heap_repD(1,4) [OF rep] i xo] by (simp add: all_objects_def)
  moreover have "x \<in> white_set ?A" using i x by (auto simp: white_set_def)
  ultimately show "object_ok no_hooks (memory ?e) (all_objects ?A) x (2 ^ i)"
    using race_storage_class [OF fl, of x] by (auto simp: object_ok_def Let_def)
qed

subsection \<open>The roots of the run\<close>

lemma race_end_fields:
  assumes "race_flipped b s1"
  shows "saved_threads (race_end s1) = [\<lparr>registers = 0x2000, saved_stack_base = 0x3000, saved_stack_size = 0\<rparr>,
      \<lparr>registers = 0x4000, saved_stack_base = 0x6000, saved_stack_size = 0\<rparr>]"
    and "total_saved_threads (race_end s1) = 2" and "global_roots (race_end s1) = [0x1000]"
    and "first_static_ptr (race_end s1) = 0" and "static_frontier_ptr (race_end s1) = 0"
    and "saved_no_write_barrier_state (race_end s1) = 0" and "barrier_clear (race_end s1)"
proof -
  note gf = gc_frame_fields [OF race_flippedD(2) [OF assms]]
  show "barrier_clear (race_end s1)"
    using sample_barrier by (simp add: barrier_clear_def race_end_def gf race_state_def)
qed (simp_all add: race_end_def gc_frame_fields [OF race_flippedD(2) [OF assms]] race_state_def sample_state_def)

lemma race_no_statics: "static_objects 10 m 0 0 = Some []"
  by (simp add: numeral_eq_Suc)

lemma race_roots_ok:
  assumes "race_flipped b s1"
  shows "roots_ok 10 no_hooks (all_objects (flipped sample_lists)) (race_end s1)"
  unfolding roots_ok_def static_ok_def static_list_def race_end_fields [OF assms] race_no_statics
    race_flippedD(3) [OF assms]
  by (auto simp: sample_header_cells no_hooks_def thread_ok_def segment_ok_def segment_length_def stack_top_def stack_bottom_of_def
      cells_numeral GC_POINTER_ALIGNMENT_def less_2_cases_iff)

text \<open>The registers hold no pointer, so the only root is the global variable.\<close>

lemma race_area_words:
  assumes "a \<in> set (cells 23 0x2000) \<or> a \<in> set (cells 23 0x4000)" and "memory (race_end s1) a \<noteq> 0"
  shows "memory (race_end s1) a = 0x5000"
proof -
  note cn = cells_numeral GC_POINTER_ALIGNMENT_def
  have in_area: "store_words r race_regs m a \<in> {0, 0x5000}" if "a \<in> set (cells 23 r)" "distinct (cells 23 r)" for r m
  proof -
    have "map (store_words r race_regs m) (cells 23 r) = race_regs" using store_words_map [of race_regs r m] that(2) by simp
    then have "store_words r race_regs m a \<in> set race_regs" using that(1) by (metis imageI list.set_map)
    also have "set race_regs \<subseteq> {0, 0x5000}"
      unfolding race_regs_def using set_update_subset_insert [of "replicate 23 0" 15 "0x5000 :: addr"] by auto
    finally show ?thesis .
  qed
  have d: "distinct (cells 23 0x2000)" "distinct (cells 23 0x4000)" by (simp_all add: cn)
  have "memory (race_end s1) a \<in> {0, 0x5000}"
  proof (cases "a \<in> set (cells 23 0x4000)")
    case True
    then show ?thesis using in_area d(2) by (simp add: race_end_def race_memory_def)
  next
    case False
    moreover have "a \<noteq> 0x10010" using assms(1) by (auto simp: cn)
    ultimately show ?thesis
      using in_area [OF _ d(1)] assms(1) by (simp add: race_end_def race_memory_def store_words_other)
  qed
  then show ?thesis using assms(2) by blast
qed

lemma race_root_words:
  assumes fl: "race_flipped b s1"
  shows "set (root_words 10 no_hooks (race_end s1)) \<subseteq> {0, 0x5000, 0x10010}"
proof -
  let ?e = "race_end s1"
  note e = race_end_fields [OF fl]
  have out: "a \<notin> set (cells 23 0x2000)" "a \<notin> set (cells 23 0x4000)" if "a = 0x1000" for a :: addr
    using that by (simp_all add: cells_numeral GC_POINTER_ALIGNMENT_def)
  have glob: "memory ?e 0x1000 = 0x10010"
    using race_flipped_cell [OF fl, of "0x1000"] race_memory_out [OF out, of "0x1000" "memory s1"]
    by (simp add: race_end_def race_state_def sample_memory_def sample_header_cells)
  have l: "segment_length 0x2000 0x20B8 = 23" "segment_length 0x4000 0x40B8 = 23"
    "segment_length 0x3000 0x3000 = 0" "segment_length 0x6000 0x6000 = 0"
    by (simp_all add: segment_length_def)
  have "v = 0x5000" if "v \<in> set (thread_words (memory ?e) (saved_threads ?e ! i))" "i < 2" "v \<noteq> 0" for v i
    using that unfolding e by (auto simp: thread_words_def segment_words_def stack_top_def stack_bottom_of_def
        GC_POINTER_ALIGNMENT_def less_2_cases_iff l intro: race_area_words)
  moreover have "static_words 10 no_hooks ?e = []" by (simp add: static_words_def static_list_def e race_no_statics)
  ultimately show ?thesis
    unfolding root_words_def e(2,3) saved_state_words_def e(6) using glob by (auto simp: no_hooks_def)
qed

text \<open>From them only the first object is reached: the pointer in it is gone.\<close>

lemma race_first_words:
  assumes fl: "race_flipped b s1"
  shows "set (words_of no_hooks (race_end s1) 0x10000) \<subseteq> {0}"
proof
  let ?e = "race_end s1" and ?A = "flipped sample_lists"
  note rep = race_heap_marking [OF fl]
  fix v assume v: "v \<in> set (words_of no_hooks ?e 0x10000)"
  have x: "0x10000 \<in> object_set ?A 12" using race_whites [OF group_12] by (simp add: object_set_def del: flipped_lists)
  have "words_of no_hooks ?e 0x10000 = object_words no_hooks (memory ?e) 0x10000 (2 ^ 12)"
    by (rule words_of_eq [OF heap_repD(4,3) [OF rep] group_12 x])
  also have "\<dots> = map (memory ?e) (object_cells ?e 0x10000 (2 ^ 12))"
    using race_storage_class [OF fl] by (intro object_cells_words [symmetric]) (simp add: race_white_set)
  finally obtain a where a: "v = memory ?e a" "a \<in> set (object_cells ?e 0x10000 (2 ^ 12))" using v by auto
  have "in_body 0x10000 12 a" by (rule object_cells_body [OF heap_repD(1,4) [OF rep] group_12 x a(2)])
  then have b: "0x10010 \<le> uint a" "uint a < 0x11000" by (simp_all add: in_body_def)
  then have nh: "a \<notin> header_cells (all_objects sample_lists)" by (auto simp: sample_header_cells)
  have "sample_memory a = 0" if "a \<noteq> 0x10010" using b that by (auto simp: sample_memory_def)
  then show "v \<in> {0}" using race_memory_body [OF fl nh] b a(1) by (simp add: race_end_def)
qed

lemma race_live:
  assumes fl: "race_flipped b s1"
    and "x \<in> live no_hooks (race_end s1) (set (root_words 10 no_hooks (race_end s1))) (white_set (flipped sample_lists))"
  shows "x = 0x10000"
  using assms(2)
proof induction
  have small: "ptr_object sample_state 0 = None" "ptr_object sample_state 0x5000 = None"
    by (simp_all add: ptr_object_def IN_PARTITION_def)
  {
    case (live_root v x)
    then show ?case using race_root_words [OF fl] small sample_ptr_objects(1) by (auto simp: race_ptr_object [OF fl])
  next
    case (live_step x v y)
    then show ?case using race_first_words [OF fl] small(1) by (auto simp: race_ptr_object [OF fl])
  }
qed

lemma race_marking:
  assumes fl: "race_flipped b s1"
  shows "\<exists>s2 s3 A. scan_root_set 10 no_hooks (race_end s1) = Inr s2 \<and> mark_loop 10 10 no_hooks s2 = Inr s3 \<and>
    heap_marking s3 A \<and> gray_set A = {} \<and> 0x11000 \<in> white_set A"
proof -
  let ?e = "race_end s1" and ?A = "flipped sample_lists"
  obtain s2 s3 A where m: "scan_root_set 10 no_hooks ?e = Inr s2" "mark_loop 10 10 no_hooks s2 = Inr s3"
    "marking no_hooks ?e (set (root_words 10 no_hooks ?e)) ?A s3 A" "gray_set A = {}"
    "black_set A = live no_hooks ?e (set (root_words 10 no_hooks ?e)) (white_set ?A)"
    using mark_phase [OF race_heap_marking [OF fl] _ race_roots_ok [OF fl] race_scannable [OF fl] race_end_fields(7) [OF fl]]
      sample_flipped_lists(1,2) sample_unscanned by auto
  have t: "tricolour no_hooks ?e (set (root_words 10 no_hooks ?e)) ?A A" using m(3) by (simp add: marking_def)
  have "0x11000 \<in> set (whites (A 12)) \<union> set (grays (A 12)) \<union> set (blacks (A 12))"
    using tricolourD(1) [OF t group_12] race_whites [OF group_12] by (simp del: flipped_lists)
  moreover have "0x11000 \<notin> set (blacks (A 12))"
  proof
    assume "0x11000 \<in> set (blacks (A 12))"
    then have "0x11000 \<in> black_set A" using group_12 by (auto simp: black_set_def)
    then show False using m(5) race_live [OF fl, of "0x11000"] by simp
  qed
  ultimately have "0x11000 \<in> white_set A" using m(4) group_12 by (auto simp: white_set_def gray_set_def)
  moreover have "heap_marking s3 A" using m(3) by (simp add: marking_def marked_from_def)
  ultimately show ?thesis using m(1,2,4) by blast
qed

subsection \<open>Properties\<close>

text \<open>
  C4: in every state the handshake of a flip can reach, whatever the threads do, the collector
  holds every free_lock from the first signal until all handlers have been entered, so no
  thread is inside an allocation then, with the barrier off and the colours unchanged; when
  the barrier is on all threads have entered and the colours have changed places; when the
  collector leaves the handshake all threads have copied their registers and stacks, all are
  counted and the collector holds no lock any more. Every wait is for somebody who can move: a lock the collector
  waits for is held by a thread that is outside its handler and can drop it; when the
  collector waits for a counter some handler can move on; a handler that has copied can
  return at once, its last loop does not wait, also in an atomic collection. Every step of
  the collector and of a handler brings the handshake nearer to its end, and no step of a
  thread takes it back.
\<close>

theorem flip_handshake_guarantees:
  assumes "\<And>th. th \<in> set ths \<Longrightarrow> mutator_ok th" and "length ths \<le> length (saved_threads s0)"
    and "\<not> enable_write_barrier s0" and "flip_reachable ths Hd (flip_start s0 r) w"
  shows "((\<exists>k. fpc w = Signal k) \<or> fpc w = Wait_entered \<longrightarrow>
      (\<forall>j\<in>group_indices. free_lock w j = By_collector) \<and> \<not> enable_write_barrier (fstate w) \<and>
      marked_color (fstate w) = marked_color s0 \<and> unmarked_color (fstate w) = unmarked_color s0) \<and>
    (enable_write_barrier (fstate w) \<longrightarrow> (\<forall>t<length ths. has_entered (handler w t)) \<and>
      marked_color (fstate w) = unmarked_color s0 \<and> unmarked_color (fstate w) = marked_color s0) \<and>
    (fpc w = Released \<longrightarrow> (\<forall>t<length ths. has_copied (handler w t)) \<and>
      total_saved_threads (fstate w) = length ths \<and> enable_write_barrier (fstate w) \<and>
      (\<forall>j\<in>group_indices. free_lock w j \<noteq> By_collector)) \<and>
    (\<forall>i\<le>MAX_GROUP_INDEX. fpc w = Lock_group i \<longrightarrow> free_lock w i \<noteq> Unlocked \<longrightarrow>
      (\<exists>t<length ths. free_lock w i = By_mutator t \<and>
        thread_step Hd t w (w\<lparr>free_lock := (free_lock w)(i := Unlocked)\<rparr>))) \<and>
    (fpc w = Wait_entered \<and> entered_handler_count w \<noteq> int (length ths) \<or>
      (\<exists>i. fpc w = Unlock_group i) \<and> copied_stack_count w \<noteq> int (length ths) \<longrightarrow>
      (\<exists>t w'. handler_step ths t w w')) \<and>
    (\<forall>t<length ths. \<forall>g. handler w t = Copied g \<longrightarrow>
      handler_step ths t w (w\<lparr>handler := (handler w)(t := Returned)\<rparr>)) \<and>
    (\<forall>w'. flip_step ths w w' \<or> (\<exists>t. handler_step ths t w w') \<longrightarrow>
      handshake_todo ths w' < handshake_todo ths w) \<and>
    (\<forall>t w'. thread_step Hd t w w' \<longrightarrow> handshake_todo ths w' = handshake_todo ths w)"
proof -
  have I: "flip_ok ths s0 w" by (rule flip_reachable_ok [OF assms])
  note full = count_threads_full [where f = "handler w" and n = "length ths"]
  note waits = lock_holder_runs [OF I locks_ok_reachable [OF assms(4)]] waiting_handler_moves [OF assms(1,2) I]
    handler_can_return [OF count_ok_reachable [OF assms]]
  note todo = flip_step_todo [OF I] handler_step_todo thread_step_keeps(3)
  show ?thesis
  proof (intro conjI)
    show "(\<exists>k. fpc w = Signal k) \<or> fpc w = Wait_entered \<longrightarrow>
        (\<forall>j\<in>group_indices. free_lock w j = By_collector) \<and> \<not> enable_write_barrier (fstate w) \<and>
        marked_color (fstate w) = marked_color s0 \<and> unmarked_color (fstate w) = unmarked_color s0"
      using I by (auto simp: flip_ok_def flipped_over_def)
    show "enable_write_barrier (fstate w) \<longrightarrow> (\<forall>t<length ths. has_entered (handler w t)) \<and>
        marked_color (fstate w) = unmarked_color s0 \<and> unmarked_color (fstate w) = marked_color s0"
      using I full [of has_entered] by (auto simp: flip_ok_def)
    show "fpc w = Released \<longrightarrow> (\<forall>t<length ths. has_copied (handler w t)) \<and>
        total_saved_threads (fstate w) = length ths \<and> enable_write_barrier (fstate w) \<and>
        (\<forall>j\<in>group_indices. free_lock w j \<noteq> By_collector)"
      using I full [of has_copied] by (auto simp: flip_ok_def flipped_over_def)
  qed (use waits todo in blast)+
qed

text \<open>The handshake of two threads on the sample heap, up to the release.\<close>

theorem flip_handshake_guarantees_witness:
  "\<exists>w. flip_reachable race_threads race_untouched (flip_start (race_state False) (\<lambda>_. 0)) w \<and> fpc w = Released \<and>
    (\<forall>t<2. has_copied (handler w t)) \<and> total_saved_threads (fstate w) = 2 \<and> enable_write_barrier (fstate w)"
proof -
  obtain s1 where s1: "rfold (\<lambda>i. on_group i flip_group) group_list (race_state False) = Inr s1"
    "race_flipped False s1" by (rule race_flips)
  obtain w where w: "flip_reachable race_threads race_untouched (flip_start (race_state False) (\<lambda>_. 0)) w" "fpc w = Released"
    by (rule race_run [OF s1(1) race_pointer [OF s1(2)]])
  have "length race_threads \<le> length (saved_threads (race_state False))" "\<not> enable_write_barrier (race_state False)"
    by (simp_all add: race_threads_def race_state_def sample_state_def)
  from flip_handshake_guarantees [OF race_thread_ok this w(1)] w show ?thesis
    by (simp add: race_threads_def) blast
qed

lemma plain_sample_inv: "heap_inv {} (race_state b) sample_lists sample_holes"
proof (rule heap_inv_after [where S = "{}", OF sample_heap_inv race_idle race_pages])
  show "memory (race_state b) a = memory sample_state a" if "a \<notin> header_cells (all_objects sample_lists)" for a
    using that by (auto simp: race_state_def sample_header_cells sample_state_def)
qed simp_all

text \<open>
  C5: the handshake computes the flip. On a heap with the invariant, with save areas that are
  apart from each other and from the stacks, let the threads only take and drop locks of
  groups and run their handlers, in any order. Then every run can be continued to its end,
  and in the end the state is what flip gives, which runs the handlers one after the other,
  with the registers the threads have.
\<close>

theorem handshake_computes_flip:
  assumes "heap_inv {} s A H" and "\<not> enable_write_barrier s"
    and "\<And>th. th \<in> set ths \<Longrightarrow> mutator_ok th" and "length ths \<le> length (saved_threads s)"
    and "areas_ok s (contexts ths r)" and "RTno_write_barrier_state_ptr s \<notin> save_area s (contexts ths r)"
    and "(quiet_step ths)\<^sup>*\<^sup>* (flip_start s r) w"
  shows "(\<exists>w'. (quiet_step ths)\<^sup>*\<^sup>* w w' \<and> fpc w' = Released) \<and>
    (\<forall>w'. (quiet_step ths)\<^sup>*\<^sup>* w w' \<longrightarrow> fpc w' = Released \<longrightarrow> flip (contexts ths r) s = Inr (fstate w'))"
proof -
  have "\<exists>sg. rfold (\<lambda>i. on_group i flip_group) group_list s = Inr sg"
    using flip_groups_refines [OF heap_inv_rep [OF assms(1)]] by blast
  from handshake_completes [OF assms(3,4,2,5,6) this assms(7)]
  show ?thesis
    using handshake_ends_in_flip [OF assms(3,4,2,5,6) rtranclp_trans [OF assms(7)]] by blast
qed

lemma race_contexts: "contexts race_threads (\<lambda>_. 0) = race_threads"
proof -
  have "context_of (context_of th 0) 0 = context_of th 0" for th by (simp add: context_of_def)
  then show ?thesis by (intro nth_equalityI) (simp_all add: race_threads_def)
qed

lemma race_save_pairs: "save_pairs (race_state b) race_threads =
    [(\<lparr>registers = 0x2000, saved_stack_base = 0x3000, saved_stack_size = 0\<rparr>, context_of sample_thread 0),
     (\<lparr>registers = 0x4000, saved_stack_base = 0x6000, saved_stack_size = 0\<rparr>, context_of sample_thread 0)]"
  by (simp add: save_pairs_def race_state_def race_threads_def numeral_2_eq_2)

lemma race_areas:
  "length (gregs (context_of sample_thread 0)) = 23" "stack_longs (context_of sample_thread 0) = 0"
  "handler_source (st, context_of sample_thread 0) = {}"
  "handler_area (st, context_of sample_thread 0) = set (cells 23 (registers st))"
proof -
  have "gregs (context_of sample_thread 0) = (gregs sample_thread)[0 := 0]" "stack_bottom (context_of sample_thread 0) = stack_bottom sample_thread"
    by (simp_all add: context_of_def)
  then show "length (gregs (context_of sample_thread 0)) = 23" "stack_longs (context_of sample_thread 0) = 0"
    using sample_thread_ok(3) by (simp_all add: sample_thread_def stack_longs_def live_stack_size_def REG_RSP_def)
  then show "handler_source (st, context_of sample_thread 0) = {}"
    "handler_area (st, context_of sample_thread 0) = set (cells 23 (registers st))"
    by (simp_all add: handler_source_def handler_area_def)
qed

lemma race_areas_ok: "areas_ok (race_state b) race_threads"
proof -
  have "distinct (cells 23 0x2000)" "distinct (cells 23 0x4000)" "set (cells 23 0x2000) \<inter> set (cells 23 0x4000) = {}"
    by (simp_all add: cells_numeral GC_POINTER_ALIGNMENT_def)
  then show ?thesis by (auto simp: areas_ok_def race_save_pairs race_areas)
qed

theorem handshake_computes_flip_witness:
  "\<exists>w. (quiet_step race_threads)\<^sup>*\<^sup>* (flip_start (race_state False) (\<lambda>_. 0)) w \<and> fpc w = Released \<and>
    flip race_threads (race_state False) = Inr (fstate w)"
proof -
  have "RTno_write_barrier_state_ptr (race_state False) \<notin> save_area (race_state False) race_threads"
    by (simp add: save_area_def race_save_pairs race_areas cells_numeral GC_POINTER_ALIGNMENT_def)
      (simp add: race_state_def sample_state_def)
  moreover have "length race_threads \<le> length (saved_threads (race_state False))"
    by (simp add: race_threads_def race_state_def)
  moreover have "\<not> enable_write_barrier (race_state False)" by (simp add: race_state_def sample_state_def)
  ultimately show ?thesis
    using handshake_computes_flip [where ths = race_threads and r = "\<lambda>_. 0" and w = "flip_start (race_state False) (\<lambda>_. 0)",
        unfolded race_contexts, OF plain_sample_inv _ race_thread_ok _ race_areas_ok]
    by blast
qed

text \<open>
  C18: no wait of the handshake is for ever. In a run that is fair, that is in which the
  collector is served when it can move again and again, a handler that can go on goes on, and
  no thread keeps a lock for ever, there is a point from which on the collector is behind
  the flip and every handler has returned, although the threads run on, take locks, load and
  store all the time. The first fairness is needed for the mutexes: a thread that always
  retakes a lock before the collector gets it could hold it off.
\<close>

theorem fair_handshake_ends:
  assumes "heap_inv {} s A H" and "header_cells (all_objects A) \<subseteq> Hd" and "\<not> enable_write_barrier s"
    and "\<And>th. th \<in> set ths \<Longrightarrow> mutator_ok th" and "length ths \<le> length (saved_threads s)"
    and "handshake_run ths Hd run" and "run 0 = flip_start s r" and "fair_run ths run"
  shows "\<exists>n. \<forall>m\<ge>n. fpc (run m) = Released \<and> (\<forall>t<length ths. handler (run m) t = Returned)"
  by (rule fair_run_ends [OF assms(4,5,3) heap_inv_rep [OF assms(1)] assms(2,6,7,8)])

theorem fair_handshake_ends_witness:
  "\<exists>run n. handshake_run race_threads race_untouched run \<and> run 0 = flip_start (race_state False) (\<lambda>_. 0) \<and>
    fair_run race_threads run \<and> (\<forall>m\<ge>n. fpc (run m) = Released \<and> handler (run m) 0 = Returned \<and> handler (run m) 1 = Returned)"
proof -
  have s: "\<not> enable_write_barrier (race_state False)" "length race_threads \<le> length (saved_threads (race_state False))"
    by (simp_all add: race_threads_def race_state_def sample_state_def)
  have Hd: "header_cells (all_objects sample_lists) \<subseteq> race_untouched" unfolding race_untouched_def by blast
  obtain run where run: "handshake_run race_threads race_untouched run"
    "run 0 = flip_start (race_state False) (\<lambda>_. 0)" "fair_run race_threads run"
    using fair_run_exists [OF race_thread_ok s(2,1) heap_inv_rep [OF plain_sample_inv] Hd] by blast
  obtain n where "\<forall>m\<ge>n. fpc (run m) = Released \<and> (\<forall>t<length race_threads. handler (run m) t = Returned)"
    using fair_handshake_ends [OF plain_sample_inv Hd s(1) race_thread_ok s(2) run] by blast
  then show ?thesis using run race_thread_facts(1) by (intro exI [of _ run] exI [of _ n]) simp
qed

text \<open>
  C11: a thread that has left its handler before the last one has entered can load a pointer
  and overwrite its only copy through RTwrite_barrier, with the barrier off; the object it
  holds was live at the start of the flip, and stays white through the scan of the roots and
  the marking that follow. The handler does not wait for the collector in an atomic
  collection either, so the run exists with and without RTatomic_gc.
\<close>

theorem flip_window_loses_object:
  "global_roots (race_state atomic) = [0x1000] \<and> memory (race_state atomic) 0x1000 = 0x10010 \<and>
   ptr_object (race_state atomic) 0x10010 = Some 0x10000 \<and> memory (race_state atomic) 0x10010 = 0x11010 \<and>
   (\<exists>w s2 s3 A. flip_reachable race_threads race_untouched (flip_start (race_state atomic) (\<lambda>_. 0)) w \<and>
    fpc w = Released \<and> reg w 0 = 0x11010 \<and> ptr_object (fstate w) (reg w 0) = Some 0x11000 \<and>
    scan_root_set 10 no_hooks (fstate w) = Inr s2 \<and> mark_loop 10 10 no_hooks s2 = Inr s3 \<and>
    heap_marking s3 A \<and> gray_set A = {} \<and> 0x11000 \<in> white_set A)"
proof -
  have g: "global_roots (race_state atomic) = [0x1000]" "memory (race_state atomic) 0x1000 = 0x10010"
    "ptr_object (race_state atomic) 0x10010 = Some 0x10000" "memory (race_state atomic) 0x10010 = 0x11010"
    using same_pages_facts(8) [OF race_pages] sample_ptr_objects
    by (simp_all add: race_state_def sample_state_def sample_memory_def)
  obtain s1 where s1: "rfold (\<lambda>i. on_group i flip_group) group_list (race_state atomic) = Inr s1"
    "race_flipped atomic s1" by (rule race_flips)
  obtain w where w: "flip_reachable race_threads race_untouched (flip_start (race_state atomic) (\<lambda>_. 0)) w"
    "fpc w = Released" "fstate w = race_end s1" "reg w 0 = 0x11010"
    by (rule race_run [OF s1(1) race_pointer [OF s1(2)]])
  obtain s2 s3 A where m: "scan_root_set 10 no_hooks (race_end s1) = Inr s2" "mark_loop 10 10 no_hooks s2 = Inr s3"
    "heap_marking s3 A" "gray_set A = {}" "0x11000 \<in> white_set A"
    using race_marking [OF s1(2)] by blast
  have "ptr_object (fstate w) (reg w 0) = Some 0x11000"
    using w(3,4) race_ptr_object [OF s1(2)] sample_ptr_objects by simp
  then show ?thesis
    using g w m by (intro conjI exI [of _ w] exI [of _ s2] exI [of _ s3] exI [of _ A]) simp_all
qed

end
