(* ===== verification/Word_Tree.thy ===== *)
theory Word_Tree
  imports Layout "HOL-Library.Char_ord" "HOL-Library.List_Lexorder"
begin

text \<open>
  The client program (a.c): every thread reads a text file into a tree of its words with
  their counts, walks the tree and asserts the total. A pointer to a NODE is a value of the
  datatype, since no node is shared; the allocation of nodes and words and the barrier on
  the two pointers are RTallocate and RTwrite_barrier of the other theories. A file is the
  list of the characters still to be read.
\<close>

subsection \<open>The code\<close>

datatype node = NULL | NODE (word: "string option") (ncount: int) (lesser: node) (greater: node)

definition new_node :: "string option \<Rightarrow> node \<Rightarrow> node \<Rightarrow> node" where
  "new_node w l g = NODE w 1 l g"

text \<open>strcmp compares unsigned characters; a null pointer is dereferenced.\<close>

fun strcmp :: "string \<Rightarrow> string \<Rightarrow> int" where
  "strcmp [] [] = 0"
| "strcmp [] (d # ds) = - 1"
| "strcmp (c # cs) [] = 1"
| "strcmp (c # cs) (d # ds) = (if c = d then strcmp cs ds else if c < d then - 1 else 1)"

fun strcmp_ptr :: "string option \<Rightarrow> string option \<Rightarrow> rt_error + int" where
  "strcmp_ptr (Some v) (Some w) = Inr (strcmp v w)"
| "strcmp_ptr _ _ = Inl Null_deref"

definition isalnum :: "char \<Rightarrow> bool" where
  "isalnum c \<longleftrightarrow> (CHR ''0'' \<le> c \<and> c \<le> CHR ''9'') \<or> (CHR ''A'' \<le> c \<and> c \<le> CHR ''Z'') \<or>
     (CHR ''a'' \<le> c \<and> c \<le> CHR ''z'')"

text \<open>The terminating zero goes behind the characters of the word, into the buffer of 1024.\<close>

definition BUFFER_SIZE :: nat where
  "BUFFER_SIZE = 1024"

definition new_word :: "string \<Rightarrow> rt_error + string" where
  "new_word buffer = (if BUFFER_SIZE \<le> length buffer then Inl Wild_access else Inr buffer)"

fun skip_to_word :: "string \<Rightarrow> (char \<times> string) option" where
  "skip_to_word [] = None"
| "skip_to_word (c # f) = (if isalnum c then Some (c, f) else skip_to_word f)"

fun read_chars :: "string \<Rightarrow> char \<Rightarrow> string \<Rightarrow> rt_error + string \<times> string" where
  "read_chars buffer c f =
     (if BUFFER_SIZE \<le> length buffer then Inl Wild_access
      else
        (let buffer' = buffer @ [c]
         in case f of
              [] \<Rightarrow> rbind (new_word buffer') (\<lambda>w. Inr (w, []))
            | d # f' \<Rightarrow>
                if isalnum d then read_chars buffer' d f'
                else rbind (new_word buffer') (\<lambda>w. Inr (w, f'))))"

declare read_chars.simps [simp del]

definition read_word :: "string \<Rightarrow> rt_error + string option \<times> string" where
  "read_word f =
     (case skip_to_word f of
        None \<Rightarrow> Inr (None, [])
      | Some (c, f') \<Rightarrow> rbind (read_chars [] c f') (\<lambda>(w, f''). Inr (Some w, f'')))"

fun insert_node :: "string \<Rightarrow> int \<Rightarrow> node \<Rightarrow> rt_error + node" where
  "insert_node w level NULL = Inl Null_deref"
| "insert_node w level (NODE v n l g) =
     rbind (strcmp_ptr (Some w) v) (\<lambda>result.
       if level < 1844 then
         if result = 0 then Inr (NODE v (c_int (n + 1)) l g)
         else if result < 0 then
           (if l = NULL then Inr (NODE v n (new_node (Some w) NULL NULL) g)
            else
              rbind (strcmp_ptr (Some w) (word l)) (\<lambda>result.
                if result = 0
                then Inr (NODE v n (NODE (word l) (c_int (ncount l + 1)) (lesser l) (greater l)) g)
                else if result < 0
                then rbind (insert_node w (level + 1) l) (\<lambda>l'. Inr (NODE v n l' g))
                else Inr (NODE v n (new_node (Some w) l NULL) g)))
         else
           (if g = NULL then Inr (NODE v n l (new_node (Some w) NULL NULL))
            else
              rbind (strcmp_ptr (Some w) (word g)) (\<lambda>result.
                if result = 0
                then Inr (NODE v n l (NODE (word g) (c_int (ncount g + 1)) (lesser g) (greater g)))
                else if 0 < result
                then rbind (insert_node w (level + 1) g) (\<lambda>g'. Inr (NODE v n l g'))
                else Inr (NODE v n l (new_node (Some w) NULL g))))
       else Inl (Debugger ''Infinite recursion!''))"

lemma skip_to_word_shorter: "skip_to_word f = Some (c, f') \<Longrightarrow> length f' < length f"
  by (induction f) (auto split: if_splits)

lemma read_chars_shorter: "read_chars buffer c f = Inr (w, f') \<Longrightarrow> length f' \<le> length f"
proof (induction f arbitrary: buffer c)
  case Nil
  then show ?case by (subst (asm) read_chars.simps) (auto simp: rbind_Inr_iff Let_def split: if_splits)
next
  case (Cons d f)
  then show ?case
    by (subst (asm) (2) read_chars.simps)
      (auto simp: rbind_Inr_iff Let_def le_SucI split: if_splits)
qed

lemma read_word_shorter: "read_word f = Inr (Some w, f') \<Longrightarrow> length f' < length f"
  using skip_to_word_shorter [of f] read_chars_shorter
  by (fastforce simp: read_word_def rbind_Inr_iff split: option.splits)

text \<open>The loop of build_word_tree, over the rest of the file.\<close>

function insert_words :: "node \<Rightarrow> string \<Rightarrow> rt_error + node" where
  "insert_words root f =
     (case read_word f of
        Inl e \<Rightarrow> Inl e
      | Inr (None, f') \<Rightarrow> Inr root
      | Inr (Some w, f') \<Rightarrow> rbind (insert_node w 0 root) (\<lambda>root'. insert_words root' f'))"
  by pat_completeness auto

termination
  by (relation "measure (\<lambda>(root, f). length f)") (auto dest: read_word_shorter)

declare insert_words.simps [simp del]

text \<open>The argument is what fopen finds.\<close>

definition build_word_tree :: "string option \<Rightarrow> rt_error + node" where
  "build_word_tree file =
     (case file of
        None \<Rightarrow> Inr NULL
      | Some f \<Rightarrow> rbind (read_word f) (\<lambda>(w, f'). insert_words (new_node w NULL NULL) f'))"

text \<open>The second result is what is printed when \<open>verbose\<close> is set.\<close>

fun walk_word_tree :: "node \<Rightarrow> bool \<Rightarrow> rt_error + int \<times> (int \<times> string option) list" where
  "walk_word_tree NULL verbose = Inr (0, [])"
| "walk_word_tree (NODE w n l g) verbose =
     rbind (if l \<noteq> NULL then rbind (strcmp_ptr w (word l)) (\<lambda>r. rassert (0 < r)) else Inr ()) (\<lambda>_.
     rbind (if g \<noteq> NULL then rbind (strcmp_ptr w (word g)) (\<lambda>r. rassert (r < 0)) else Inr ()) (\<lambda>_.
     rbind (walk_word_tree l verbose) (\<lambda>(a, out1).
     rbind (walk_word_tree g verbose) (\<lambda>(b, out2).
       Inr (c_int (c_int (n + a) + b), out1 @ (if verbose then [(n, w)] else []) @ out2)))))"

subsection \<open>Words\<close>

lemma strcmp_order: "strcmp v w = (if v = w then 0 else if v < w then - 1 else 1)"
  by (induction v w rule: strcmp.induct) auto

lemma strcmp_greater: "w < v \<Longrightarrow> strcmp v w = 1"
  using less_trans [of w v w] by (auto simp: strcmp_order)

text \<open>The words of a text are its longest runs of letters and digits.\<close>

function words :: "string \<Rightarrow> string list" where
  "words f =
     (let f' = dropWhile (\<lambda>c. \<not> isalnum c) f
      in if f' = [] then [] else takeWhile isalnum f' # words (dropWhile isalnum f'))"
  by auto

termination
proof (relation "measure length")
  fix f f' :: string
  assume "f' = dropWhile (\<lambda>c. \<not> isalnum c) f" and "f' \<noteq> []"
  then have "isalnum (hd f')" "length f' \<le> length f" 
    using hd_dropWhile [of "\<lambda>c. \<not> isalnum c" f] by (simp_all add: length_dropWhile_le)
  moreover have "length (dropWhile isalnum (tl f')) \<le> length (tl f')" by (rule length_dropWhile_le)
  ultimately show "(dropWhile isalnum f', f) \<in> measure length"
    using \<open>f' \<noteq> []\<close> by (cases f') auto
qed simp

declare words.simps [simp del]

lemma words_Nil [simp]: "words [] = []"
  by (subst words.simps) simp

lemma words_Cons_separator [simp]: "\<not> isalnum c \<Longrightarrow> words (c # f) = words f"
  by (subst (1 2) words.simps) simp

lemma words_Cons_alnum:
  "isalnum c \<Longrightarrow> words (c # f) = (c # takeWhile isalnum f) # words (dropWhile isalnum f)"
  by (subst words.simps) simp

lemma read_chars_word:
  assumes "length buffer + length (takeWhile isalnum f) + 1 < BUFFER_SIZE"
  shows "\<exists>f'. read_chars buffer c f = Inr (buffer @ c # takeWhile isalnum f, f') \<and>
    words f' = words (dropWhile isalnum f)"
  using assms
proof (induction f arbitrary: buffer c)
  case Nil
  then show ?case by (subst read_chars.simps) (simp add: new_word_def)
next
  case (Cons d f)
  then show ?case
    using Cons.IH [of "buffer @ [c]" d] by (subst read_chars.simps) (auto simp: new_word_def)
qed

text \<open>read_word returns the words one after the other, and no word at the end.\<close>

lemma read_word_words:
  assumes "\<forall>w\<in>set (words f). length w < BUFFER_SIZE"
  shows "case words f of
      [] \<Rightarrow> read_word f = Inr (None, [])
    | w # ws \<Rightarrow> \<exists>f'. read_word f = Inr (Some w, f') \<and> words f' = ws"
  using assms
proof (induction f)
  case Nil
  then show ?case by (simp add: read_word_def)
next
  case (Cons c f)
  show ?case
  proof (cases "isalnum c")
    case True
    then have "length ([] :: string) + length (takeWhile isalnum f) + 1 < BUFFER_SIZE"
      using Cons.prems by (simp add: words_Cons_alnum)
    from read_chars_word [OF this, of c] show ?thesis
      using True by (auto simp: words_Cons_alnum read_word_def)
  next
    case False
    then show ?thesis using Cons by (simp add: read_word_def cong: list.case_cong)
  qed
qed

subsection \<open>The tree\<close>

fun entries :: "node \<Rightarrow> (string option \<times> int) list" where
  "entries NULL = []"
| "entries (NODE w n l g) = entries l @ (w, n) # entries g"

text \<open>
  A word that lies between a node and its child goes in between the two, so that the tree is
  two chains that hang from the root: smaller and smaller words, and greater and greater ones.
\<close>

fun lesser_chain :: "node \<Rightarrow> bool" where
  "lesser_chain NULL \<longleftrightarrow> True"
| "lesser_chain (NODE w n l g) \<longleftrightarrow> g = NULL \<and> lesser_chain l"

fun greater_chain :: "node \<Rightarrow> bool" where
  "greater_chain NULL \<longleftrightarrow> True"
| "greater_chain (NODE w n l g) \<longleftrightarrow> l = NULL \<and> greater_chain g"

fun two_chains :: "node \<Rightarrow> bool" where
  "two_chains NULL \<longleftrightarrow> False"
| "two_chains (NODE w n l g) \<longleftrightarrow> lesser_chain l \<and> greater_chain g"

type_synonym tally = "(string \<times> int) list"

text \<open>One more of a word in a sorted list of words with counts.\<close>

fun tally_word :: "string \<Rightarrow> tally \<Rightarrow> tally" where
  "tally_word w [] = [(w, 1)]"
| "tally_word w ((v, n) # xs) =
     (if w = v then (v, n + 1) # xs else if w < v then (w, 1) # (v, n) # xs else (v, n) # tally_word w xs)"

definition some_words :: "tally \<Rightarrow> (string option \<times> int) list" where
  "some_words = map (map_prod Some id)"

lemma some_words_simps [simp]:
  "some_words [] = []" "some_words ((w, n) # xs) = (Some w, n) # some_words xs"
  "some_words (xs @ ys) = some_words xs @ some_words ys" "length (some_words xs) = length xs"
  by (simp_all add: some_words_def)

lemma some_words_split:
  assumes "es @ (v, n) # es' = some_words xs"
  obtains xs1 w xs2 where "xs = xs1 @ (w, n) # xs2" and "v = Some w" and "es = some_words xs1" and "es' = some_words xs2"
proof -
  obtain as bs where "xs = as @ bs" "es = some_words as" "(v, n) # es' = some_words bs"
    using assms by (auto simp: some_words_def append_eq_map_conv)
  moreover then obtain w cs where "bs = (w, n) # cs" "v = Some w" "es' = some_words cs"
    by (cases bs) (auto simp: some_words_def)
  ultimately show thesis using that by blast
qed

definition sorted_tally :: "tally \<Rightarrow> bool" where
  "sorted_tally xs \<longleftrightarrow> sorted_wrt (<) (map fst xs) \<and> (\<forall>x\<in>set xs. 0 < snd x \<and> snd x < 2 ^ 31 - 1)"

lemma tally_word_append:
  "\<forall>x\<in>set xs. fst x < w \<Longrightarrow> tally_word w (xs @ ys) = xs @ tally_word w ys"
  by (induction xs) auto

lemma tally_word_front: "\<forall>x\<in>set xs. w < fst x \<Longrightarrow> tally_word w xs = (w, 1) # xs"
  by (cases xs) auto

lemma tally_word_before:
  "w < v \<Longrightarrow> tally_word w (xs @ (v, n) # ys) = tally_word w xs @ (v, n) # ys"
  by (induction xs) auto

lemma count_fits: "0 < n \<Longrightarrow> n < 2 ^ 31 - 1 \<Longrightarrow> c_int (n + 1) = n + 1"
  by (rule c_int_id) simp_all

text \<open>
  Insertion below a node, on the side of its smaller words, when the insertion into the
  child is known to be right; and on the other side.
\<close>

lemma lesser_child:
  assumes "lesser_chain l" and "l \<noteq> NULL" and "entries l = some_words ys" and "sorted_tally ys"
  obtains v n l2 zs where "l = NODE (Some v) n l2 NULL" and "lesser_chain l2" and "entries l2 = some_words zs"
    and "ys = zs @ [(v, n)]" and "\<forall>x\<in>set zs. fst x < v" and "c_int (n + 1) = n + 1" and "sorted_tally zs"
proof -
  obtain x n l2 where l: "l = NODE x n l2 NULL" "lesser_chain l2" using assms(1,2) by (cases l) auto
  obtain zs v zs' where z: "ys = zs @ (v, n) # zs'" "x = Some v" "entries l2 = some_words zs" "[] = some_words zs'"
    using assms(3) some_words_split [of "entries l2" x n "[]" ys] by (auto simp: l(1))
  have "zs' = []" using z(4) by (cases zs') auto
  then show thesis
    using assms(4) z(1) by (intro that [OF l(1) [unfolded z(2)] l(2) z(3)])
      (auto simp: sorted_tally_def sorted_wrt_append intro!: count_fits)
qed

lemma greater_child:
  assumes "greater_chain g" and "g \<noteq> NULL" and "entries g = some_words ys" and "sorted_tally ys"
  obtains v n g2 zs where "g = NODE (Some v) n NULL g2" and "greater_chain g2" and "entries g2 = some_words zs"
    and "ys = (v, n) # zs" and "c_int (n + 1) = n + 1" and "sorted_tally zs"
proof -
  obtain x n g2 where g: "g = NODE x n NULL g2" "greater_chain g2" using assms(1,2) by (cases g) auto
  obtain zs v zs' where z: "ys = zs @ (v, n) # zs'" "x = Some v" "[] = some_words zs" "entries g2 = some_words zs'"
    using assms(3) some_words_split [of "[]" x n "entries g2" ys] by (auto simp: g(1))
  have "zs = []" using z(3) by (cases zs) auto
  then show thesis
    using assms(4) z(1) by (intro that [OF g(1) [unfolded z(2)] g(2) z(4)])
      (auto simp: sorted_tally_def intro!: count_fits)
qed

lemma lesser_step:
  assumes l: "lesser_chain l" "entries l = some_words ys" "sorted_tally ys" and w: "w < u" "level < 1844"
    and rec: "l \<noteq> NULL \<Longrightarrow> (\<And>v. word l = Some v \<Longrightarrow> w < v) \<Longrightarrow>
      \<exists>l'. insert_node w (level + 1) l = Inr l' \<and> lesser_chain l' \<and> entries l' = some_words (tally_word w ys)"
  shows "\<exists>l'. insert_node w level (NODE (Some u) n l g) = Inr (NODE (Some u) n l' g) \<and> lesser_chain l' \<and>
    entries l' = some_words (tally_word w ys)"
proof (cases "l = NULL")
  case True
  then have "ys = []" using l(2) by (cases ys) auto
  then show ?thesis using w True by (auto simp: strcmp_order new_node_def)
next
  case False
  from lesser_child [OF l(1) False l(2,3)] obtain v k l2 zs where
    c: "l = NODE (Some v) k l2 NULL" "lesser_chain l2" "entries l2 = some_words zs" "ys = zs @ [(v, k)]"
      "\<forall>x\<in>set zs. fst x < v" "c_int (k + 1) = k + 1" .
  consider "w = v" | "w < v" | "v < w" by fastforce
  then show ?thesis
  proof cases
    case 1
    then show ?thesis using w c by (auto simp: strcmp_order tally_word_append)
  next
    case 2
    then obtain l' where "insert_node w (level + 1) l = Inr l'" "lesser_chain l'"
        "entries l' = some_words (tally_word w ys)"
      using rec [OF False] c(1) by auto
    then show ?thesis using 2 w False c(1) by (auto simp: strcmp_order)
  next
    case 3
    then have "\<forall>x\<in>set ys. fst x < w" using c(4,5) by auto
    then have "tally_word w ys = ys @ [(w, 1)]" using tally_word_append [of ys w "[]"] by simp
    then show ?thesis using 3 w c by (auto simp: strcmp_order new_node_def)
  qed
qed

lemma greater_step:
  assumes g: "greater_chain g" "entries g = some_words ys" "sorted_tally ys" and w: "u < w" "level < 1844"
    and rec: "g \<noteq> NULL \<Longrightarrow> (\<And>v. word g = Some v \<Longrightarrow> v < w) \<Longrightarrow>
      \<exists>g'. insert_node w (level + 1) g = Inr g' \<and> greater_chain g' \<and> entries g' = some_words (tally_word w ys)"
  shows "\<exists>g'. insert_node w level (NODE (Some u) n l g) = Inr (NODE (Some u) n l g') \<and> greater_chain g' \<and>
    entries g' = some_words (tally_word w ys)"
proof (cases "g = NULL")
  case True
  then have "ys = []" using g(2) by (cases ys) auto
  then show ?thesis using w True by (auto simp: strcmp_order new_node_def)
next
  case False
  from greater_child [OF g(1) False g(2,3)] obtain v k g2 zs where
    c: "g = NODE (Some v) k NULL g2" "greater_chain g2" "entries g2 = some_words zs" "ys = (v, k) # zs"
      "c_int (k + 1) = k + 1" .
  consider "w = v" | "v < w" | "w < v" by fastforce
  then show ?thesis
  proof cases
    case 1
    then show ?thesis using w c by (auto simp: strcmp_order)
  next
    case 2
    then obtain g' where "insert_node w (level + 1) g = Inr g'" "greater_chain g'"
        "entries g' = some_words (tally_word w ys)"
      using rec [OF False] c(1) by auto
    then show ?thesis using 2 w False c(1) by (auto simp: strcmp_order)
  next
    case 3
    then show ?thesis using w c by (auto simp: strcmp_order new_node_def)
  qed
qed

lemma insert_lesser:
  assumes "lesser_chain t" and "t \<noteq> NULL" and "entries t = some_words xs" and "sorted_tally xs"
    and "\<And>v. word t = Some v \<Longrightarrow> w < v" and "0 \<le> level" and "level + int (length xs) \<le> 1844"
  shows "\<exists>t'. insert_node w level t = Inr t' \<and> lesser_chain t' \<and> entries t' = some_words (tally_word w xs)"
  using assms
proof (induction t arbitrary: level xs)
  case NULL
  then show ?case by simp
next
  case (NODE x n l g)
  obtain u ys where
    c: "x = Some u" "g = NULL" "lesser_chain l" "entries l = some_words ys" "xs = ys @ [(u, n)]" "sorted_tally ys"
    using lesser_child [OF NODE.prems(1-4)] by (metis node.inject)
  have w: "w < u" "level < 1844" using NODE.prems c by auto
  have "\<exists>l'. insert_node w level (NODE (Some u) n l g) = Inr (NODE (Some u) n l' g) \<and> lesser_chain l' \<and>
      entries l' = some_words (tally_word w ys)"
    using NODE.prems(6,7) c by (intro lesser_step [OF c(3,4,6) w] NODE.IH(1)) auto
  then show ?case using c w by (auto simp: tally_word_before)
qed

lemma insert_greater:
  assumes "greater_chain t" and "t \<noteq> NULL" and "entries t = some_words xs" and "sorted_tally xs"
    and "\<And>v. word t = Some v \<Longrightarrow> v < w" and "0 \<le> level" and "level + int (length xs) \<le> 1844"
  shows "\<exists>t'. insert_node w level t = Inr t' \<and> greater_chain t' \<and> entries t' = some_words (tally_word w xs)"
  using assms
proof (induction t arbitrary: level xs)
  case NULL
  then show ?case by simp
next
  case (NODE x n l g)
  obtain u ys where
    c: "x = Some u" "l = NULL" "greater_chain g" "entries g = some_words ys" "xs = (u, n) # ys" "sorted_tally ys"
    using greater_child [OF NODE.prems(1-4)] by (metis node.inject)
  have w: "u < w" "level < 1844" using NODE.prems c by auto
  have "\<exists>g'. insert_node w level (NODE (Some u) n l g) = Inr (NODE (Some u) n l g') \<and> greater_chain g' \<and>
      entries g' = some_words (tally_word w ys)"
    using NODE.prems(6,7) c by (intro greater_step [OF c(3,4,6) w] NODE.IH(2)) auto
  then show ?case using c w by auto
qed

lemma insert_root:
  assumes "two_chains t" and "entries t = some_words xs" and "sorted_tally xs" and "length xs \<le> 1844"
  shows "\<exists>t'. insert_node w 0 t = Inr t' \<and> two_chains t' \<and> entries t' = some_words (tally_word w xs)"
proof -
  obtain v n l g where t: "t = NODE v n l g" "lesser_chain l" "greater_chain g" using assms(1) by (cases t) auto
  obtain xs1 u xs2 where xs: "xs = xs1 @ (u, n) # xs2" "v = Some u" "entries l = some_words xs1"
      "entries g = some_words xs2"
    using assms(2) some_words_split [of "entries l" v n "entries g" xs] by (auto simp: t(1))
  have s: "sorted_tally xs1" "sorted_tally xs2" "\<forall>x\<in>set xs1. fst x < u" "c_int (n + 1) = n + 1"
    using assms(3) by (auto simp: sorted_tally_def xs sorted_wrt_append intro!: count_fits)
  consider "w = u" | "w < u" | "u < w" by fastforce
  then show ?thesis
  proof cases
    case 1
    then show ?thesis using xs t s by (simp add: strcmp_order tally_word_append)
  next
    case 2
    have "\<exists>l'. insert_node w 0 (NODE (Some u) n l g) = Inr (NODE (Some u) n l' g) \<and> lesser_chain l' \<and>
        entries l' = some_words (tally_word w xs1)"
      using assms(4) xs by (intro lesser_step [OF t(2) xs(3) s(1) 2] insert_lesser [OF t(2) _ xs(3) s(1)]) auto
    then show ?thesis using 2 t xs by (auto simp: tally_word_before)
  next
    case 3
    have "\<exists>g'. insert_node w 0 (NODE (Some u) n l g) = Inr (NODE (Some u) n l g') \<and> greater_chain g' \<and>
        entries g' = some_words (tally_word w xs2)"
      using assms(4) xs by (intro greater_step [OF t(3) xs(4) s(2) 3] insert_greater [OF t(3) _ xs(4) s(2)]) auto
    moreover have "tally_word w xs = xs1 @ (u, n) # tally_word w xs2"
      using 3 s(3) tally_word_append [of "xs1 @ [(u, n)]" w xs2] by (fastforce simp: xs)
    ultimately show ?thesis using t xs by auto
  qed
qed

subsection \<open>The counts of a text\<close>

definition tally_words :: "string list \<Rightarrow> tally" where
  "tally_words ws = map (\<lambda>w. (w, int (count_list ws w))) (sorted_list_of_set (set ws))"

lemma tally_word_map:
  assumes "sorted_wrt (<) vs"
  shows "tally_word w (map (\<lambda>v. (v, c v)) vs) =
    map (\<lambda>v. (v, if v = w then (if w \<in> set vs then c w + 1 else 1) else c v)) (insort_insert w vs)"
  using assms
proof (induction vs)
  case (Cons v vs)
  then have *: "\<forall>u\<in>set vs. v < u" "v \<notin> set vs" by auto
  consider "w = v" | "w < v" | "v < w" by fastforce
  then show ?case
  proof cases
    case 1
    then show ?thesis using * by (auto simp: insort_insert_key_def intro: map_cong)
  next
    case 2
    then have "w \<notin> set vs" using * by (metis order_less_asym)
    then show ?thesis using 2 * by (auto simp: insort_insert_key_def)
  next
    case 3
    then have "insort_insert w (v # vs) = v # insort_insert w vs" by (auto simp: insort_insert_key_def)
    moreover have "tally_word w (map (\<lambda>v. (v, c v)) (v # vs)) = (v, c v) # tally_word w (map (\<lambda>v. (v, c v)) vs)"
      using 3 by auto
    ultimately show ?thesis using Cons 3 by auto
  qed
qed (simp add: insort_insert_key_def)

lemma tally_words_snoc: "tally_words (ws @ [w]) = tally_word w (tally_words ws)"
proof -
  have i: "insort_insert w (sorted_list_of_set (set ws)) = sorted_list_of_set (set (ws @ [w]))"
    by (cases "w \<in> set ws")
      (simp_all add: insort_insert_key_def insert_absorb del: sorted_list_of_set_insert_remove)
  have "tally_word w (tally_words ws) =
      map (\<lambda>v. (v, if v = w then (if w \<in> set ws then int (count_list ws w) + 1 else 1) else int (count_list ws v)))
        (sorted_list_of_set (set (ws @ [w])))"
    unfolding tally_words_def by (subst tally_word_map) (simp_all add: i)
  also have "\<dots> = tally_words (ws @ [w])"
    unfolding tally_words_def by (rule map_cong) (auto simp: count_list_0_iff)
  finally show ?thesis ..
qed

lemma tally_words_Nil [simp]: "tally_words [] = []"
  by (simp add: tally_words_def)

lemma fold_tally_word: "fold tally_word us (tally_words ws) = tally_words (ws @ us)"
proof (induction us arbitrary: ws)
  case (Cons u us)
  then show ?case using Cons [of "ws @ [u]"] by (simp add: tally_words_snoc)
qed simp

lemma tally_words_sorted:
  assumes "int (length ws) < 2 ^ 31 - 1"
  shows "sorted_tally (tally_words ws)"
proof -
  have "0 < count_list ws w \<and> int (count_list ws w) < 2 ^ 31 - 1" if "w \<in> set ws" for w
    using that count_le_length [of ws w] assms by (auto simp: count_list_0_iff neq0_conv [symmetric] simp del: neq0_conv)
  then show ?thesis by (auto simp: sorted_tally_def tally_words_def comp_def)
qed

lemma tally_words_length: "length (tally_words ws) = card (set ws)"
  by (simp add: tally_words_def)

lemma sum_tally_words: "sum_list (map snd (tally_words ws)) = int (length ws)"
proof -
  have "sum_list (map snd (tally_words ws)) = (\<Sum>w\<in>set ws. int (count_list ws w))"
    by (simp add: tally_words_def comp_def sum_list_distinct_conv_sum_set)
  also have "\<dots> = int (length ws)" by (simp add: sum_count_set flip: of_nat_sum)
  finally show ?thesis .
qed

subsection \<open>Building and walking\<close>

lemma insert_words_tally:
  assumes "two_chains t" and "entries t = some_words (tally_words ws)"
    and "card (set ws \<union> set (words f)) \<le> 1844" and "int (length ws + length (words f)) < 2 ^ 31 - 1"
    and "\<forall>w\<in>set (words f). length w < BUFFER_SIZE"
  shows "\<exists>t'. insert_words t f = Inr t' \<and> two_chains t' \<and> entries t' = some_words (tally_words (ws @ words f))"
  using assms
proof (induction "words f" arbitrary: t ws f)
  case Nil
  have e: "words f = []" using Nil.hyps by simp
  then have "read_word f = Inr (None, [])" using read_word_words [of f] by simp
  then show ?case using Nil.prems(1,2) by (subst insert_words.simps) (simp add: e)
next
  case (Cons w us)
  have w: "words f = w # us" using Cons.hyps(2) by simp
  obtain f' where f': "read_word f = Inr (Some w, f')" "words f' = us"
    using read_word_words [OF Cons.prems(5)] unfolding w by auto
  have c: "card (set ws) \<le> card (set ws \<union> set (words f))" by (intro card_mono) auto
  have "sorted_tally (tally_words ws)" using Cons.prems(4) by (intro tally_words_sorted) simp
  moreover have "length (tally_words ws) \<le> 1844" using c Cons.prems(3) by (simp add: tally_words_length)
  ultimately obtain t1 where t1: "insert_node w 0 t = Inr t1" "two_chains t1"
      "entries t1 = some_words (tally_words (ws @ [w]))"
    using insert_root [OF Cons.prems(1,2), of w] by (auto simp: tally_words_snoc)
  have e: "set ws \<union> set (words f) = set (ws @ [w]) \<union> set (words f')" by (auto simp: w f'(2))
  have "\<exists>t'. insert_words t1 f' = Inr t' \<and> two_chains t' \<and> entries t' = some_words (tally_words ((ws @ [w]) @ words f'))"
    using Cons.prems(3-5) unfolding e
    by (intro Cons.hyps(1) t1(2,3) f'(2) [symmetric]) (auto simp: w f'(2))
  moreover have "insert_words t f = insert_words t1 f'"
    by (subst insert_words.simps) (simp add: f'(1) t1(1))
  ultimately show ?case by (simp add: w f'(2))
qed

text \<open>
  Some of the words of a text: the tree after a first part of them, when the longest recursion
  on the way is within the limit. The word of the root stays.
\<close>

lemma insert_node_root: "insert_node w level t = Inr t' \<Longrightarrow> word t' = word t"
  by (cases t) (auto simp: rbind_Inr_iff split: if_splits)

lemma read_word_first:
  assumes "words f = w # ws" and "length w < BUFFER_SIZE"
  shows "\<exists>f'. read_word f = Inr (Some w, f') \<and> words f' = ws"
  using assms
proof (induction f)
  case (Cons c f)
  show ?case
  proof (cases "isalnum c")
    case True
    then have "length ([] :: string) + length (takeWhile isalnum f) + 1 < BUFFER_SIZE"
      using Cons.prems by (auto simp: words_Cons_alnum)
    from read_chars_word [OF this, of c] show ?thesis
      using True Cons.prems(1) by (auto simp: words_Cons_alnum read_word_def)
  next
    case False
    then show ?thesis using Cons by (simp add: read_word_def)
  qed
qed simp

lemma build_word_tree_part:
  assumes "us \<noteq> []" and "words f = us @ ws" and "\<forall>u\<in>set us. length u < BUFFER_SIZE"
    and "card (set (butlast us)) \<le> 1844" and "int (length us) < 2 ^ 31 - 1"
  shows "\<exists>t f'. build_word_tree (Some f) = insert_words t f' \<and> words f' = ws \<and> two_chains t \<and>
    entries t = some_words (tally_words us) \<and> word t = Some (hd us)"
  using assms
proof (induction us arbitrary: ws rule: rev_nonempty_induct)
  case (single u)
  then obtain f' where "read_word f = Inr (Some u, f')" "words f' = ws"
    using read_word_first [of f u ws] by auto
  then show ?case
    by (intro exI [of _ "new_node (Some u) NULL NULL"] exI [of _ f'])
      (simp add: build_word_tree_def new_node_def tally_words_def)
next
  case (snoc u us)
  have c: "card (set us) \<le> 1844" using snoc.prems by simp
  moreover have "card (set (butlast us)) \<le> card (set us)" by (intro card_mono) (auto dest: in_set_butlastD)
  ultimately have "\<exists>t f'. build_word_tree (Some f) = insert_words t f' \<and> words f' = u # ws \<and> two_chains t \<and>
      entries t = some_words (tally_words us) \<and> word t = Some (hd us)"
    using snoc.prems by (intro snoc.IH) auto
  then obtain t f' where t: "build_word_tree (Some f) = insert_words t f'" "words f' = u # ws" "two_chains t"
      "entries t = some_words (tally_words us)" "word t = Some (hd us)" by blast
  obtain f2 where f2: "read_word f' = Inr (Some u, f2)" "words f2 = ws"
    using read_word_first [OF t(2)] snoc.prems by auto
  have "sorted_tally (tally_words us)" using snoc.prems by (intro tally_words_sorted) simp
  then obtain t1 where t1: "insert_node u 0 t = Inr t1" "two_chains t1" "entries t1 = some_words (tally_words (us @ [u]))"
    using insert_root [OF t(3,4), of u] c by (auto simp: tally_words_length tally_words_snoc)
  have "insert_words t f' = insert_words t1 f2"
    by (subst insert_words.simps) (simp add: f2(1) t1(1))
  moreover have "word t1 = Some (hd (us @ [u]))"
    using insert_node_root [OF t1(1)] t(5) snoc.hyps by simp
  ultimately show ?case using t(1) f2(2) t1(2,3) by auto
qed

text \<open>A word beyond the last one of a chain that is as long as the recursion may be deep.\<close>

lemma insert_node_too_deep:
  assumes "greater_chain t" and "t \<noteq> NULL" and "entries t = some_words xs" and "sorted_tally xs"
    and "\<forall>x\<in>set xs. fst x < w" and "1844 < level + int (length xs)" and "level \<le> 1844"
  shows "insert_node w level t = Inl (Debugger ''Infinite recursion!'')"
  using assms
proof (induction t arbitrary: level xs)
  case NULL
  then show ?case by simp
next
  case (NODE x n l g)
  obtain u ys where c: "x = Some u" "l = NULL" "greater_chain g" "entries g = some_words ys" "xs = (u, n) # ys"
      "sorted_tally ys"
    using greater_child [OF NODE.prems(1-4)] by (metis node.inject)
  show ?case
  proof (cases "level = 1844")
    case False
    then have l: "level < 1844" "g \<noteq> NULL" using NODE.prems(6,7) c(4,5) by (auto simp: some_words_def)
    obtain v k g2 zs where g: "g = NODE (Some v) k NULL g2" "ys = (v, k) # zs"
      using greater_child [OF c(3) l(2) c(4,6)] by metis
    have "insert_node w (level + 1) g = Inl (Debugger ''Infinite recursion!'')"
      using NODE.prems(5,6) c l by (intro NODE.IH(2) [OF c(3) l(2) c(4,6)]) auto
    then show ?thesis using NODE.prems(5) c l g by (auto simp: strcmp_greater)
  qed (simp add: c(1))
qed

lemma build_word_tree_tally:
  assumes "words f \<noteq> []" and "card (set (words f)) \<le> 1844" and "int (length (words f)) < 2 ^ 31 - 1"
    and "\<forall>w\<in>set (words f). length w < BUFFER_SIZE"
  obtains t where "build_word_tree (Some f) = Inr t" and "two_chains t"
    and "entries t = some_words (tally_words (words f))"
proof -
  obtain w ws where w: "words f = w # ws" using assms(1) by (cases "words f") auto
  obtain f' where f': "read_word f = Inr (Some w, f')" "words f' = ws"
    using read_word_words [OF assms(4)] w by auto
  have "tally_words [w] = [(w, 1)]" by (simp add: tally_words_def)
  then have "entries (new_node (Some w) NULL NULL) = some_words (tally_words [w])" by (simp add: new_node_def)
  then have "\<exists>t. insert_words (new_node (Some w) NULL NULL) f' = Inr t \<and> two_chains t \<and>
      entries t = some_words (tally_words ([w] @ words f'))"
    using assms w f'(2) by (intro insert_words_tally) (simp_all add: new_node_def)
  then show thesis using that f' w by (auto simp: build_word_tree_def)
qed

lemma sum_tally_nonneg: "sorted_tally xs \<Longrightarrow> 0 \<le> sum_list (map snd xs)"
  by (rule sum_list_nonneg) (auto simp: sorted_tally_def dest!: bspec)

lemma walk_word_tree_sorted:
  assumes "entries t = some_words xs" and "sorted_tally xs" and "sum_list (map snd xs) < 2 ^ 31"
  shows "walk_word_tree t verbose =
    Inr (sum_list (map snd xs), if verbose then map (\<lambda>(w, n). (n, Some w)) xs else [])"
  using assms
proof (induction t arbitrary: xs)
  case NULL
  then show ?case by (cases xs) auto
next
  case (NODE v n l g)
  obtain as w bs where x: "xs = as @ (w, n) # bs" "v = Some w" "entries l = some_words as" "entries g = some_words bs"
    using NODE.prems(1) some_words_split [of "entries l" v n "entries g" xs] by auto
  have s: "sorted_tally as" "sorted_tally bs" "\<forall>y\<in>set as. fst y < w" "\<forall>y\<in>set bs. w < fst y" "0 < n"
    using NODE.prems(2) by (auto simp: sorted_tally_def x(1) sorted_wrt_append)
  have nn: "0 \<le> sum_list (map snd as)" "0 \<le> sum_list (map snd bs)"
    using s(1,2) by (simp_all add: sum_tally_nonneg)
  have b: "sum_list (map snd as) < 2 ^ 31" "sum_list (map snd bs) < 2 ^ 31"
    using NODE.prems(3) nn s(5) by (simp_all add: x(1))
  have c: "c_int (n + sum_list (map snd as)) = n + sum_list (map snd as)"
    "c_int (n + sum_list (map snd as) + sum_list (map snd bs)) = n + sum_list (map snd as) + sum_list (map snd bs)"
    using NODE.prems(3) nn s(5) by (auto intro!: c_int_id simp: x(1))
  have m: "\<exists>u k. (u, k) \<in> set zs \<and> word t = Some u" if "entries t = some_words zs" "t \<noteq> NULL" for t zs
    using that by (cases t) (auto elim!: some_words_split)
  have l: "l \<noteq> NULL \<Longrightarrow> \<exists>u. word l = Some u \<and> u < w" using m [OF x(3)] s(3) by fastforce
  have g: "g \<noteq> NULL \<Longrightarrow> \<exists>u. word g = Some u \<and> w < u" using m [OF x(4)] s(4) by fastforce
  have lc: "(if l \<noteq> NULL then rbind (strcmp_ptr v (word l)) (\<lambda>r. rassert (0 < r)) else Inr ()) = Inr ()"
    using l by (auto simp: x(2) strcmp_greater)
  have gc: "(if g \<noteq> NULL then rbind (strcmp_ptr v (word g)) (\<lambda>r. rassert (r < 0)) else Inr ()) = Inr ()"
    using g by (auto simp: x(2) strcmp_order)
  have "walk_word_tree (NODE v n l g) verbose =
      Inr (n + sum_list (map snd as) + sum_list (map snd bs),
        (if verbose then map (\<lambda>(w, n). (n, Some w)) as else []) @ (if verbose then [(n, v)] else []) @
        (if verbose then map (\<lambda>(w, n). (n, Some w)) bs else []))"
    unfolding walk_word_tree.simps
    by (simp only: lc gc rbind_simps prod.case NODE.IH(1) [OF x(3) s(1) b(1)] NODE.IH(2) [OF x(4) s(2) b(2)] c)
  then show ?case by (simp add: x(1,2))
qed

end
