(* ===== verification/Allocate_Refine.thy ===== *)
theory Allocate_Refine
  imports Allocate_Object
begin

text \<open>
  RTallocate as a whole: a free object of the group, else new pages from a hole, else two
  collections and another try, else out of memory. What it needs of the collector is the
  interface \<open>collections\<close>, and the two collections of a turn of rtgc_loop provide it.
\<close>

subsection \<open>New pages, or none\<close>

definition give_base :: "nat \<Rightarrow> rt_state \<times> addr \<Rightarrow> rt_error + rt_state" where
  "give_base i = (\<lambda>(s, base).
     if base \<noteq> 0 then
       rbind (on_group i (\<lambda>m g. link_new_objects m g base (objects_added i)) s) (\<lambda>s5.
         Inr (s5\<lparr>pages := assign_pages (c_int (PTR_TO_PAGE_INDEX s5 base)) (pages_needed i)
                   \<lparr>pbase = base, pgroup = Group i\<rparr> (pages s5)\<rparr>))
     else Inr s)"

definition take_pages :: "nat \<Rightarrow> rt_state \<Rightarrow> rt_error + rt_state" where
  "take_pages i s = rbind (allocate_empty_pages (pages_needed i) s) (give_base i)"

lemma init_pages_for_group_eq:
  assumes "groups_ok s" and i: "i \<in> group_indices"
  shows "init_pages_for_group yields big_malloc i 1 s =
    rbind (allocate_empty_pages (pages_needed i) s) (\<lambda>(s1, base).
      rbind
        (if base = 0 then
           rbind (allocate_segment big_malloc (max DEFAULT_HEAP_SEGMENT_SIZE (pages_needed i * BYTES_PER_PAGE))
                    HEAP_SEGMENT s1) (\<lambda>(s2, actual_bytes).
           rbind (rassert (actual_bytes = 0)) (\<lambda>_.
           rbind (if actual_bytes < pages_needed i * BYTES_PER_PAGE then wait_for_gc yields s2 else Inr s2) (\<lambda>s3.
             if gfree (groups s3 i) = 0 then allocate_empty_pages (pages_needed i) s3 else Inr (s3, 0))))
         else Inr (s1, base))
        (give_base i))"
proof -
  have g: "gsize (groups s i) = 2 ^ i" "gindex (groups s i) = i" using assms by (simp_all add: groups_ok_def)
  show ?thesis
    unfolding init_pages_for_group_def Let_def g init_pages_sizes(1) [OF i] init_pages_sizes(2) [OF i]
      init_pages_sizes(3) [OF i] give_base_def nat_int by (rule refl)
qed

text \<open>What changes when a group gets pages.\<close>

definition new_frame :: "addr set \<Rightarrow> rt_state \<Rightarrow> rt_state \<Rightarrow> bool" where
  "new_frame Ob s s' \<longleftrightarrow>
     s' = s\<lparr>memory := memory s', groups := groups s', pages := pages s', empty_pages := empty_pages s'\<rparr> \<and>
     (\<forall>a. a \<notin> header_cells Ob \<longrightarrow> a \<notin> page_cells s (empty_page_set s) \<longrightarrow> memory s' a = memory s a) \<and>
     (\<forall>q\<in>Ob. GET_STORAGE_CLASS (memory s') q = GET_STORAGE_CLASS (memory s) q)"

text \<open>
  The two halves together: writing the holes, then the headers of the objects of the group and
  of the new objects, changes nothing else.
\<close>

lemma new_frameI:
  assumes I: "heap_inv T s A H" and i: "i \<in> group_indices"
    and s1: "s1 = s\<lparr>memory := memory s1, empty_pages := empty_pages s1\<rparr>"
    and m1: "\<And>a. a \<notin> hole_cells s (empty_page_set s) \<Longrightarrow> memory s1 a = memory s a"
    and xs: "set xs \<union> (\<lambda>x. x + 8) ` set xs \<subseteq> page_cells s (empty_page_set s)"
    and s': "s' = s1\<lparr>memory := memory s', groups := groups s', pages := pages s'\<rparr>"
    and m': "only_headers (set (objects (A i)) \<union> set xs) (memory s1) (memory s')"
    and sc: "\<And>q. aligned q \<Longrightarrow> q \<notin> set xs \<Longrightarrow> GET_STORAGE_CLASS (memory s') q = GET_STORAGE_CLASS (memory s1) q"
  shows "new_frame (all_objects A) s s'"
  unfolding new_frame_def
proof (intro conjI allI impI ballI)
  note d = heap_invD [OF I]
  have E: "empty_page_set s \<subseteq> {0..<total_partition_pages s}" by (auto simp: empty_page_set_def)
  have ep: "0 \<le> p \<and> p < total_partition_pages s \<and> (\<forall>j. pgroup (pages s p) \<noteq> Group j)"
    if "p \<in> empty_page_set s" for p using that by (simp add: empty_page_set_def)
  have "empty_pages s' = empty_pages s1" by (subst s') simp
  moreover have "s' = s\<lparr>memory := memory s', groups := groups s', pages := pages s', empty_pages := empty_pages s1\<rparr>"
    by (subst s', subst s1) simp
  ultimately show "s' = s\<lparr>memory := memory s', groups := groups s', pages := pages s', empty_pages := empty_pages s'\<rparr>"
    by simp
  fix a assume a: "a \<notin> header_cells (all_objects A)" "a \<notin> page_cells s (empty_page_set s)"
  have "a \<notin> header_cells (set xs)" using xs a(2) by (auto simp: header_cells_def)
  moreover have "a \<notin> header_cells (set (objects (A i)))"
    using a(1) i by (auto simp: header_cells_def all_objects_def object_set_def simp del: objects_simps)
  ultimately have "a \<notin> header_cells (set (objects (A i)) \<union> set xs)"
    by (auto simp: header_cells_def simp del: objects_simps)
  then have "memory s' a = memory s1 a" using m' by (simp add: only_headers_def)
  also have "\<dots> = memory s a" using m1 hole_cells_page_cells [OF d(1) E] a(2) by auto
  finally show "memory s' a = memory s a" .
next
  note d = heap_invD [OF I]
  fix q assume q: "q \<in> all_objects A"
  then obtain j where j: "j \<in> group_indices" "q \<in> object_set A j" by (auto simp: all_objects_def)
  have ep: "0 \<le> p \<and> p < total_partition_pages s \<and> (\<forall>j. pgroup (pages s p) \<noteq> Group j)"
    if "p \<in> empty_page_set s" for p using that by (simp add: empty_page_set_def)
  have al: "aligned q"
    using heap_rep_headers_ok(2) [OF heap_inv_rep [OF I] framed_idle_rep] q by (rule headers_okD(2))
  have "q \<notin> page_cells s (empty_page_set s)"
    using j d(5) [OF j(1)] by (auto simp: page_cells_def page_objects_def PTR_TO_GROUP_def empty_page_set_def)
  then have "q \<notin> set xs" using xs by blast
  then have "GET_STORAGE_CLASS (memory s') q = GET_STORAGE_CLASS (memory s1) q" by (rule sc [OF al])
  also have "memory s1 (q + 8) = memory s (q + 8)"
    using m1 object_not_hole(2) [OF I j ep] by simp
  then have "GET_STORAGE_CLASS (memory s1) q = GET_STORAGE_CLASS (memory s) q"
    by (simp add: GET_STORAGE_CLASS_def)
  finally show "GET_STORAGE_CLASS (memory s') q = GET_STORAGE_CLASS (memory s) q" .
qed

lemma new_objects_on_empty_pages:
  assumes "layout_ok s1" and i: "i \<in> group_indices" and p: "0 \<le> p" "p + pages_needed i \<le> total_partition_pages s1"
    and f: "first_partition_ptr s1 = first_partition_ptr s" "last_partition_ptr s1 = last_partition_ptr s"
    and E: "hole_pages (p, pages_needed i) \<subseteq> E"
  defines "xs \<equiv> new_objects (objects_added i) (2 ^ i) (PAGE_INDEX_TO_PTR s1 p)"
  shows "set xs \<union> (\<lambda>x. x + 8) ` set xs \<subseteq> page_cells s E"
proof -
  have "set xs \<union> (\<lambda>x. x + 8) ` set xs \<subseteq> page_cells s1 (hole_pages (p, pages_needed i))"
    unfolding xs_def by (rule new_objects_pages(3) [OF assms(1) i p])
  also have "\<dots> \<subseteq> page_cells s E"
    using E page_macros_eq(2) [OF f(1)] by (auto simp: page_cells_def IN_PARTITION_def f)
  finally show ?thesis .
qed

lemma take_pages_refines:
  assumes I: "heap_inv {} s A H" and i: "i \<in> group_indices" and F: "greens (A i) = []"
  shows "if \<exists>h\<in>set H. pages_needed i \<le> snd h
    then \<exists>s' xs H'. (\<exists>s1 base. allocate_empty_pages (pages_needed i) s = Inr (s1, base) \<and> base \<noteq> 0) \<and>
      take_pages i s = Inr s' \<and> xs \<noteq> [] \<and>
      heap_inv {} s' (A(i := a_add_free xs (A i))) H' \<and> new_frame (all_objects A) s s'
    else allocate_empty_pages (pages_needed i) s = Inr (s, 0) \<and> take_pages i s = Inr s"
proof -
  note d = heap_invD [OF I]
  let ?n = "pages_needed i"
  have n1: "1 \<le> ?n" by (rule init_pages_sizes(4) [OF i])
  show ?thesis
  proof (rule allocate_empty_pages_cases [OF d(1,7) n1])
    assume "allocate_empty_pages ?n s = Inr (s, 0)" "\<forall>h\<in>set H. snd h < ?n"
    then show ?thesis by (auto simp: take_pages_def give_base_def)
  next
    fix h H1 H2 s1
    assume H: "H = H1 @ h # H2" and fit: "fits_best ?n h H"
      and al: "allocate_empty_pages ?n s = Inr (s1, hole_addr s h)" and nz: "hole_addr s h \<noteq> 0"
      and ho: "holes_ok s1 ({} \<union> hole_pages (fst h, ?n)) (H1 @ rest_of_hole ?n h @ H2)"
      and s1: "s1 = s\<lparr>memory := memory s1, empty_pages := empty_pages s1\<rparr>"
      and m1: "\<forall>a. a \<notin> hole_cells s (empty_page_set s - {}) \<longrightarrow> memory s1 a = memory s a"
    let ?H = "H1 @ rest_of_hole ?n h @ H2" and ?T = "hole_pages (fst h, ?n)"
    have hH: "h \<in> set H" "?n \<le> snd h" using fit by (simp_all add: fits_best_def)
    have hb: "0 \<le> fst h" "fst h + ?n \<le> total_partition_pages s"
      using holes_okD(1,3) [OF d(7) hH(1)] hH(2) by simp_all
    have f: "first_partition_ptr s1 = first_partition_ptr s" "total_partition_pages s1 = total_partition_pages s"
      "groups s1 = groups s" "pages s1 = pages s" "last_partition_ptr s1 = last_partition_ptr s" by (subst s1, simp)+
    have pi: "PAGE_INDEX_TO_PTR s1 = PAGE_INDEX_TO_PTR s" by (rule page_macros_eq(1) [OF f(1)])
    have s1p: "s1 = s\<lparr>memory := memory s1, pages := pages s1, empty_pages := empty_pages s1\<rparr>"
      unfolding f(4) by (subst s1) simp
    have ep: "0 \<le> p \<and> p < total_partition_pages s \<and> (\<forall>j. pgroup (pages s p) \<noteq> Group j)"
      if "p \<in> empty_page_set s" for p using that by (simp add: empty_page_set_def)
    have I1: "heap_inv ?T s1 A ?H"
      by (rule heap_inv_holes [OF I _ s1p, where P = "empty_page_set s" and Q = "{}"])
        (use ho m1 ep in \<open>simp_all add: f\<close>)
    have gp: "give_base i (s1, hole_addr s h) = give_pages i (fst h) s1"
      using nz by (simp add: give_base_def give_pages_def pi Let_def)
    let ?xs = "new_objects (objects_added i) (2 ^ i) (PAGE_INDEX_TO_PTR s1 (fst h))"
    obtain s' where s': "give_pages i (fst h) s1 = Inr s'"
      "heap_inv (?T - ?T) s' (A(i := a_add_free ?xs (A i))) ?H"
      "only_headers (set (objects (A i)) \<union> set ?xs) (memory s1) (memory s')"
      "\<And>q. aligned q \<Longrightarrow> q \<notin> set ?xs \<Longrightarrow> GET_STORAGE_CLASS (memory s') q = GET_STORAGE_CLASS (memory s1) q"
      "s' = s1\<lparr>memory := memory s', groups := groups s', pages := pages s'\<rparr>"
      by (rule give_pages_refines [OF I1 i F hb(1)]) (use hb(2) f in auto)
    have tp: "take_pages i s = Inr s'" by (simp add: take_pages_def al gp s'(1))
    have "?T \<subseteq> hole_pages h" using hH(2) by (auto simp: hole_pages_def)
    then have emp: "?T \<subseteq> empty_page_set s" using holes_okD(6) [OF d(7)] hH(1) by blast
    have "fst h + ?n \<le> total_partition_pages s1" using hb(2) by (simp add: f)
    note xs = new_objects_on_empty_pages [OF heap_invD(1) [OF I1] i hb(1) this f(1,5) emp]
    have frame: "new_frame (all_objects A) s s'"
      by (rule new_frameI [OF I i s1 _ xs s'(5,3,4)]) (use m1 in simp_all)
    have ne: "?xs \<noteq> []" using init_pages_sizes(5) [OF i] by simp
    have ex: "\<exists>h\<in>set H. ?n \<le> snd h" using hH by blast
    show ?thesis
      unfolding if_P [OF ex]
      using al nz tp ne s'(2) frame by (intro exI [of _ s'] exI [of _ ?xs] exI [of _ ?H]) (simp only: Diff_cancel, blast)
  qed
qed

subsection \<open>Finding a free object\<close>

lemma gfree_iff:
  assumes "heap_inv T s A H" and "i \<in> group_indices"
  shows "gfree (groups s i) = 0 \<longleftrightarrow> greens (A i) = []"
proof -
  have "group_rep (marked_color s) (unmarked_color s) (memory s) (groups s i) (A i)"
    using heap_invD(6) [OF assms] by (simp add: idle_rep_def)
  note r = group_repD [OF this]
  have "0 \<notin> set (greens (A i))" using r(1) by (auto dest: headers_okD(1))
  then show ?thesis unfolding r(10) by (rule hd_or_eq_default)
qed

text \<open>Whether the heap can serve an allocation from group \<open>i\<close> at once.\<close>

definition has_room :: "nat \<Rightarrow> (nat \<Rightarrow> agroup) \<Rightarrow> hole list \<Rightarrow> bool" where
  "has_room i A H \<longleftrightarrow> greens (A i) \<noteq> [] \<or> (\<exists>h\<in>set H. pages_needed i \<le> snd h)"

definition ready_object :: "nat \<Rightarrow> rt_state \<Rightarrow> rt_error + rt_state" where
  "ready_object i s = (if gfree (groups s i) = 0 then take_pages i s else Inr s)"

definition find_object ::
    "(rt_state \<Rightarrow> rt_error + rt_state) list \<Rightarrow> (int \<Rightarrow> addr) \<Rightarrow> nat \<Rightarrow> rt_state \<Rightarrow> rt_error + rt_state" where
  "find_object yields big_malloc i s =
     (if gfree (groups s i) = 0 then
        rbind (init_pages_for_group yields big_malloc i 1 s) (\<lambda>s1.
          if gfree (groups s1 i) = 0 then Inl (Out_of_memory ''Heap'' (gsize (groups s1 i))) else Inr s1)
      else Inr s)"

lemma RTallocate_eq:
  "RTallocate yields big_malloc md nbytes s =
     rbind (allocation_group (memory s) md nbytes) (\<lambda>i.
       rbind (find_object yields big_malloc i s) (take_object md i))"
  by (simp add: RTallocate_def find_object_def take_object_def [abs_def])

lemma ready_object_refines:
  assumes I: "heap_inv {} s A H" and i: "i \<in> group_indices"
  shows "if has_room i A H
    then \<exists>s' xs H'. ready_object i s = Inr s' \<and> heap_inv {} s' (A(i := a_add_free xs (A i))) H' \<and>
      greens (A i) @ xs \<noteq> [] \<and> new_frame (all_objects A) s s'
    else ready_object i s = Inr s"
proof (cases "greens (A i) = []")
  case True
  then show ?thesis
    using take_pages_refines [OF I i True] gfree_iff [OF I i]
    by (simp add: has_room_def ready_object_def split: if_splits) blast
next
  case False
  have "A(i := a_add_free [] (A i)) = A" by (simp add: a_add_free_def)
  moreover have "new_frame (all_objects A) s s" by (simp add: new_frame_def)
  ultimately show ?thesis
    using False I gfree_iff [OF I i]
    by (simp add: has_room_def ready_object_def)
      (intro exI [of _ "[]"] exI [of _ H] conjI, simp_all)
qed

lemma find_object_room:
  assumes I: "heap_inv {} s A H" and i: "i \<in> group_indices" and r: "has_room i A H"
  shows "find_object yields big_malloc i s = ready_object i s"
proof (cases "greens (A i) = []")
  case False
  then show ?thesis using gfree_iff [OF I i] by (simp add: find_object_def ready_object_def)
next
  case True
  then have h: "\<exists>h\<in>set H. pages_needed i \<le> snd h" using r by (simp add: has_room_def)
  from take_pages_refines [OF I i True] obtain s1 base s' xs H' where
    1: "allocate_empty_pages (pages_needed i) s = Inr (s1, base)" "base \<noteq> 0" and
    2: "take_pages i s = Inr s'" "xs \<noteq> []" "heap_inv {} s' (A(i := a_add_free xs (A i))) H'"
    unfolding if_P [OF h] by blast
  have "init_pages_for_group yields big_malloc i 1 s = take_pages i s"
    using 1 by (simp add: init_pages_for_group_eq [OF heap_invD(3) [OF I] i] take_pages_def)
  moreover have "gfree (groups s' i) \<noteq> 0" using gfree_iff [OF 2(3) i] 2(2) by simp
  ultimately show ?thesis using 2(1) gfree_iff [OF I i] True by (simp add: find_object_def ready_object_def)
qed

lemma find_object_wait:
  assumes I: "heap_inv {} s A H" and i: "i \<in> group_indices" and r: "\<not> has_room i A H"
    and seg: "MAX_SEGMENTS \<le> length (segments s)"
  shows "find_object yields big_malloc i s =
    rbind (wait_for_gc yields s) (\<lambda>s1. rbind (ready_object i s1) (\<lambda>s2.
      if gfree (groups s2 i) = 0 then Inl (Out_of_memory ''Heap'' (gsize (groups s2 i))) else Inr s2))"
proof -
  have F: "greens (A i) = []" and h: "\<not> (\<exists>h\<in>set H. pages_needed i \<le> snd h)"
    using r by (auto simp: has_room_def)
  have al: "allocate_empty_pages (pages_needed i) s = Inr (s, 0)"
    using take_pages_refines [OF I i F] unfolding if_not_P [OF h] by blast
  have n: "0 < pages_needed i * BYTES_PER_PAGE" by (rule init_pages_sizes(6) [OF i])
  have seg0: "allocate_segment big_malloc k HEAP_SEGMENT s = Inr (s, 0)" for k
    using seg by (simp add: allocate_segment_def)
  have gb: "give_base i (s1, 0) = Inr s1" for s1 by (simp add: give_base_def)
  have "init_pages_for_group yields big_malloc i 1 s =
      rbind (wait_for_gc yields s) (\<lambda>s1. ready_object i s1)"
    using n by (simp add: init_pages_for_group_eq [OF heap_invD(3) [OF I] i] al seg0)
      (cases "wait_for_gc yields s", simp_all add: ready_object_def take_pages_def gb)
  then show ?thesis
    using gfree_iff [OF I i] F by (simp add: find_object_def) (cases "wait_for_gc yields s", simp_all)
qed

lemma heapinv_size: "heap_inv T s A H \<Longrightarrow> i \<in> group_indices \<Longrightarrow> gsize (groups s i) = 2 ^ i"
  by (simp add: heap_inv_def groups_ok_def)

text \<open>The heap invariant looks at the heap only.\<close>

lemma heap_inv_same:
  assumes sp: "same_pages s s'" and "memory s' = memory s" and "groups s' = groups s"
    and "marked_color s' = marked_color s" and "unmarked_color s' = unmarked_color s"
  shows "heap_inv T s' A H = heap_inv T s A H"
proof -
  have e: "first_partition_ptr s' = first_partition_ptr s" "empty_pages s' = empty_pages s"
    "total_partition_pages s' = total_partition_pages s" using sp by (simp_all add: same_pages_def)
  have "hole_seg s' m H e = hole_seg s m H e" for m e by (rule hole_seg_eq) (rule e)
  moreover have "PAGE_INDEX_TO_PTR s' = PAGE_INDEX_TO_PTR s" by (rule page_macros_eq) (rule e)
  moreover note same_pages_facts [OF sp]
  ultimately show ?thesis using assms(2-) e by (simp add: heap_inv_def holes_ok_def)
qed

lemma heap_inv_run_gc [simp]: "heap_inv T (s\<lparr>run_gc := b\<rparr>) A H = heap_inv T s A H"
  by (rule heap_inv_same) (simp_all add: same_pages_def)

lemma heap_inv_segments [simp]: "heap_inv T (s\<lparr>segments := S\<rparr>) A H = heap_inv T s A H"
  by (rule heap_inv_same) (simp_all add: same_pages_def)

subsection \<open>The whole allocation\<close>

text \<open>
  What RTallocate promises: one more black object, last in its group, initialised, and no
  change to the objects that were allocated before.
\<close>

definition allocated_new :: "64 word \<Rightarrow> nat \<Rightarrow> rt_state \<Rightarrow> (nat \<Rightarrow> agroup) \<Rightarrow> rt_state \<Rightarrow> addr \<Rightarrow> bool" where
  "allocated_new md i s A s' x \<longleftrightarrow>
     (\<exists>A' H'. heap_inv {} s' A' H' \<and> blacks (A' i) = blacks (A i) @ [x] \<and> x \<notin> black_set A \<and>
        (\<forall>j\<in>group_indices. j \<noteq> i \<longrightarrow> blacks (A' j) = blacks (A j)) \<and>
        object_initialised md x i (memory s') \<and>
        (\<forall>j\<in>group_indices. \<forall>y\<in>set (blacks (A j)).
           GET_STORAGE_CLASS (memory s') y = GET_STORAGE_CLASS (memory s) y \<and>
           (\<forall>a. in_body y j a \<longrightarrow> memory s' a = memory s a)))"

lemma in_body_page:
  assumes I: "heap_inv T s A H" and j: "j \<in> group_indices" and y: "y \<in> object_set A j" and a: "in_body y j a"
  shows "a \<notin> page_cells s (empty_page_set s)"
proof -
  note d = heap_invD [OF I]
  have "y \<in> page_objects s j" using y d(5) [OF j] by simp
  from object_block(3) [OF d(1,3,4) this, of a] a have "PTR_TO_GROUP s a = Group j"
    by (simp add: in_body_def)
  then show ?thesis by (auto simp: page_cells_def empty_page_set_def PTR_TO_GROUP_def)
qed

lemma take_object_new:
  assumes I: "heap_inv {} s A H" and i: "i \<in> group_indices"
    and I1: "heap_inv {} s1 (A(i := a_add_free xs (A i))) H1" and ne: "greens (A i) @ xs \<noteq> []"
    and fr: "new_frame (all_objects A) s s1" and md: "metadata_valid md"
  shows "\<exists>s' x. take_object md i s1 = Inr (s', x + 16) \<and> allocated_new md i s A s' x"
proof -
  let ?A = "A(i := a_add_free xs (A i))"
  let ?x = "hd (greens (A i) @ xs)"
  have F: "greens (?A i) \<noteq> []" and hx: "hd (greens (?A i)) = ?x" using ne by simp_all
  obtain s' where s': "take_object md i s1 = Inr (s', ?x + 16)"
    "heap_inv {} s' (?A(i := a_allocate (?A i))) H1" "object_initialised md ?x i (memory s')"
    "\<And>a. a \<notin> header_cells (set (objects (?A i))) \<Longrightarrow> \<not> in_body ?x i a \<Longrightarrow> memory s' a = memory s1 a"
    "\<And>y. y \<in> all_objects ?A \<Longrightarrow> y \<noteq> ?x \<Longrightarrow> GET_STORAGE_CLASS (memory s') y = GET_STORAGE_CLASS (memory s1) y"
    by (rule take_object_refines [OF I1 i F md, unfolded hx]) (rule that, assumption+)
  have geo: "geometry s1 (object_set ?A)" by (rule heap_repD(4) [OF heap_inv_rep [OF I1]])
  have x: "?x \<in> object_set ?A i" "?x \<in> set (greens (?A i))"
    using hd_in_set [OF ne] by (simp_all add: object_set_def)
  have sub: "y \<in> object_set ?A j" if "y \<in> object_set A j" for y j
    using that by (auto simp: object_set_def)
  have nb: "?x \<notin> set (blacks (A j))" if j: "j \<in> group_indices" for j
  proof
    assume b: "?x \<in> set (blacks (A j))"
    then have "?x \<in> object_set ?A j" by (intro sub) (simp add: object_set_def)
    then have "j = i" by (rule geometry_group_unique [OF geo j i _ x(1)])
    moreover have "set (blacks (?A i)) \<inter> set (greens (?A i)) = {}"
      by (rule idle_rep_distinct(2) [OF heap_invD(6) [OF I1 i]])
    ultimately show False using b x(2) by auto
  qed
  have old: "GET_STORAGE_CLASS (memory s') y = GET_STORAGE_CLASS (memory s) y \<and>
      (\<forall>a. in_body y j a \<longrightarrow> memory s' a = memory s a)"
    if j: "j \<in> group_indices" and y: "y \<in> set (blacks (A j))" for j y
  proof (intro conjI allI impI)
    have yo: "y \<in> object_set A j" using y by (simp add: object_set_def)
    then have ya: "y \<in> all_objects A" "y \<in> all_objects ?A" using j sub by (auto simp: all_objects_def)
    have yx: "y \<noteq> ?x" using nb [OF j] y by auto
    have "GET_STORAGE_CLASS (memory s') y = GET_STORAGE_CLASS (memory s1) y" by (rule s'(5) [OF ya(2) yx])
    also have "\<dots> = GET_STORAGE_CLASS (memory s) y" using fr ya(1) by (simp add: new_frame_def)
    finally show "GET_STORAGE_CLASS (memory s') y = GET_STORAGE_CLASS (memory s) y" .
    fix a assume a: "in_body y j a"
    have h1: "a \<notin> header_cells (all_objects ?A)"
      using body_no_header [OF I1 j sub [OF yo]] a by (simp add: in_body_def)
    then have "a \<notin> header_cells (set (objects (?A i)))"
      using i unfolding header_cells_def all_objects_def object_set_def by blast
    moreover have "\<not> in_body ?x i a"
      using geometryD(6) [OF geo j i sub [OF yo] x(1) yx] a by (auto simp: in_body_def)
    ultimately have "memory s' a = memory s1 a" by (rule s'(4))
    also have "a \<notin> header_cells (all_objects A)"
      using body_no_header [OF I j yo] a by (simp add: in_body_def)
    then have "memory s1 a = memory s a"
      using fr in_body_page [OF I j yo a] by (simp add: new_frame_def)
    finally show "memory s' a = memory s a" .
  qed
  have "allocated_new md i s A s' ?x"
    unfolding allocated_new_def
  proof (intro exI conjI)
    show "heap_inv {} s' (?A(i := a_allocate (?A i))) H1" by (rule s'(2))
    show "blacks ((?A(i := a_allocate (?A i))) i) = blacks (A i) @ [?x]" by simp
    show "?x \<notin> black_set A" using nb by (auto simp: black_set_def)
    show "\<forall>j\<in>group_indices. j \<noteq> i \<longrightarrow> blacks ((?A(i := a_allocate (?A i))) j) = blacks (A j)" by simp
    show "object_initialised md ?x i (memory s')" by (rule s'(3))
  qed (use old in blast)
  then show ?thesis using s'(1) by blast
qed

lemma RTallocate_room:
  assumes I: "heap_inv {} s A H" and g: "allocation_group (memory s) md nbytes = Inr i" and i: "i \<in> group_indices"
    and md: "metadata_valid md" and r: "has_room i A H"
  shows "\<exists>s' x. RTallocate yields big_malloc md nbytes s = Inr (s', x + 16) \<and> allocated_new md i s A s' x"
proof -
  obtain s1 xs H1 where 1: "ready_object i s = Inr s1" "heap_inv {} s1 (A(i := a_add_free xs (A i))) H1"
    "greens (A i) @ xs \<noteq> []" "new_frame (all_objects A) s s1"
    using ready_object_refines [OF I i] unfolding if_P [OF r] by blast
  have "find_object yields big_malloc i s = Inr s1" using find_object_room [OF I i r] 1(1) by simp
  then show ?thesis
    using take_object_new [OF I i 1(2-4) md] g by (simp add: RTallocate_eq)
qed

text \<open>
  The wait for the collector. A mutator that found no memory polls gc_count; the states it
  sees are \<open>st 0\<close>, \<open>st 1\<close> and so on, from one yield to the next.
\<close>

definition asked :: "rt_state \<Rightarrow> rt_state" where
  "asked s = (if RTatomic_gc s then s\<lparr>run_gc := True\<rparr> else s)"

definition polled :: "(rt_state \<Rightarrow> rt_error + rt_state) list \<Rightarrow> (nat \<Rightarrow> rt_state) \<Rightarrow> bool" where
  "polled yields st \<longleftrightarrow> (\<forall>k<length yields. (yields ! k) (st k) = Inr (st (Suc k)))"

lemma polled_Cons: "polled (y # ys) st \<longleftrightarrow> y (st 0) = Inr (st 1) \<and> polled ys (\<lambda>k. st (Suc k))"
  unfolding polled_def by (auto simp: less_Suc_eq_0_disj)

text \<open>It goes on at the first state with the count it waits for, and never before.\<close>

lemma poll_first:
  assumes "polled ys st" and "k \<le> length ys" and "target \<le> gc_count (st k)"
    and "\<And>j. j < k \<Longrightarrow> gc_count (st j) < target"
  shows "poll_gc_count ys target (st 0) = Inr (st k)"
  using assms
proof (induction ys arbitrary: st k)
  case (Cons y ys)
  note p = Cons.prems(1) [unfolded polled_Cons]
  show ?case
  proof (cases k)
    case (Suc l)
    have "gc_count (st 0) < target" using Cons.prems(4) Suc by simp
    moreover have "poll_gc_count ys target (st 1) = Inr (st k)"
      using Cons.IH [of "\<lambda>k. st (Suc k)" l] p Cons.prems(2-4) Suc by simp
    ultimately show ?thesis using p by simp
  qed (use Cons.prems(3) in simp)
qed simp

lemma poll_still:
  assumes "polled ys st" and "\<And>k. k \<le> length ys \<Longrightarrow> gc_count (st k) < target"
  shows "poll_gc_count ys target (st 0) = Inl Out_of_fuel"
  using assms
proof (induction ys arbitrary: st)
  case (Cons y ys)
  note p = Cons.prems(1) [unfolded polled_Cons]
  have "poll_gc_count ys target (st 1) = Inl Out_of_fuel" using Cons.IH [of "\<lambda>k. st (Suc k)"] p Cons.prems(2) by simp
  then show ?case using p Cons.prems(2) [of 0] by simp
qed simp

text \<open>Behind the wait: another try, with a heap that has the invariant again.\<close>

lemma RTallocate_after_wait:
  assumes I: "heap_inv {} s A H" and g: "allocation_group (memory s) md nbytes = Inr i" and i: "i \<in> group_indices"
    and md: "metadata_valid md" and r: "\<not> has_room i A H" and seg: "MAX_SEGMENTS \<le> length (segments s)"
    and w: "wait_for_gc yields s = Inr s1" "heap_inv {} s1 A1 H1"
  shows "if has_room i A1 H1
     then \<exists>s' x. RTallocate yields big_malloc md nbytes s = Inr (s', x + 16) \<and> allocated_new md i s1 A1 s' x
     else RTallocate yields big_malloc md nbytes s = Inl (Out_of_memory ''Heap'' (2 ^ i))"
proof -
  note eq = RTallocate_eq find_object_wait [OF I i r seg] w(1) g
  show ?thesis
  proof (cases "has_room i A1 H1")
    case True
    obtain s2 xs H2 where 2: "ready_object i s1 = Inr s2" "heap_inv {} s2 (A1(i := a_add_free xs (A1 i))) H2"
      "greens (A1 i) @ xs \<noteq> []" "new_frame (all_objects A1) s1 s2"
      using ready_object_refines [OF w(2) i] unfolding if_P [OF True] by blast
    have "gfree (groups s2 i) \<noteq> 0" using gfree_iff [OF 2(2) i] 2(3) by simp
    then have "RTallocate yields big_malloc md nbytes s = take_object md i s2" by (simp add: eq 2(1))
    then show ?thesis using True take_object_new [OF w(2) i 2(2-4) md] by auto
  next
    case False
    have "ready_object i s1 = Inr s1" using ready_object_refines [OF w(2) i] False by simp
    moreover have "gfree (groups s1 i) = 0" using gfree_iff [OF w(2) i] False by (simp add: has_room_def)
    moreover have "gsize (groups s1 i) = 2 ^ i" using heapinv_size [OF w(2) i] .
    ultimately show ?thesis using False by (simp add: eq)
  qed
qed

lemma RTallocate_polling:
  assumes I: "heap_inv {} s A H" and g: "allocation_group (memory s) md nbytes = Inr i" and i: "i \<in> group_indices"
    and r: "\<not> has_room i A H" and seg: "MAX_SEGMENTS \<le> length (segments s)"
    and w: "wait_for_gc yields s = Inl Out_of_fuel"
  shows "RTallocate yields big_malloc md nbytes s = Inl Out_of_fuel"
  by (simp add: RTallocate_eq g find_object_wait [OF I i r seg] w)

text \<open>
  The interface to the collector: while a mutator that found no memory yields, it comes to
  a heap with the invariant and two collections more.
\<close>

locale collections =
  fixes yields :: "(rt_state \<Rightarrow> rt_error + rt_state) list"
    and ready :: "rt_state \<Rightarrow> (nat \<Rightarrow> agroup) \<Rightarrow> hole list \<Rightarrow> bool"
  assumes collect_ok: "heap_inv {} s A H \<Longrightarrow> ready s A H \<Longrightarrow>
    \<exists>s' A' H'. poll_gc_count yields (c_long (gc_count s + 2)) (asked s) = Inr s' \<and> heap_inv {} s' A' H'"
begin

lemma wait_ok:
  assumes "heap_inv {} s A H" and "ready s A H"
  shows "\<exists>s' A' H'. wait_for_gc yields s = Inr s' \<and> heap_inv {} s' A' H'"
  using collect_ok [OF assms] by (simp add: wait_for_gc_def asked_def Let_def)

text \<open>So that an allocation without room never hangs.\<close>

lemma RTallocate_waits:
  assumes "heap_inv {} s A H" and "ready s A H" and "allocation_group (memory s) md nbytes = Inr i"
    and "i \<in> group_indices" and "metadata_valid md" and "\<not> has_room i A H" and "MAX_SEGMENTS \<le> length (segments s)"
  shows "\<exists>s1 A1 H1. wait_for_gc yields s = Inr s1 \<and> heap_inv {} s1 A1 H1 \<and>
    (if has_room i A1 H1
     then \<exists>s' x. RTallocate yields big_malloc md nbytes s = Inr (s', x + 16) \<and> allocated_new md i s1 A1 s' x
     else RTallocate yields big_malloc md nbytes s = Inl (Out_of_memory ''Heap'' (2 ^ i)))"
  using wait_ok [OF assms(1,2)] RTallocate_after_wait [OF assms(1,3-7)] by meson

end

text \<open>The collector's own loop provides the interface.\<close>

definition gc_ready :: "nat \<Rightarrow> hooks \<Rightarrow> mutator list \<Rightarrow> rt_state \<Rightarrow> (nat \<Rightarrow> agroup) \<Rightarrow> hole list \<Rightarrow> bool" where
  "gc_ready fuel h ths s A H \<longleftrightarrow>
     \<not> enable_write_barrier s \<and> stoppable s ths A H \<and> barrier_clear s \<and> allocated A < fuel \<and>
     (\<forall>s1. flip ths s = Inr s1 \<longrightarrow> roots_ok fuel h (all_objects A) s1 \<and> scannable h s1 (flipped A))"

definition turn_ready ::
    "nat \<Rightarrow> hooks \<Rightarrow> mutator list \<Rightarrow> mutator list \<Rightarrow> rt_state \<Rightarrow> (nat \<Rightarrow> agroup) \<Rightarrow> hole list \<Rightarrow> bool" where
  "turn_ready fuel h ths1 ths2 s A H \<longleftrightarrow>
     gc_ready fuel h ths1 (asked s) A H \<and> - (2 ^ 63) \<le> gc_count s \<and> gc_count s + 2 < 2 ^ 63 \<and>
     (\<forall>s1 A1 H1. full_gc fuel h ths1 (asked s) = Inr s1 \<longrightarrow> heap_inv {} s1 A1 H1 \<longrightarrow> gc_ready fuel h ths2 s1 A1 H1)"

lemma full_gc_ready:
  assumes I: "heap_inv {} s A H" and r: "gc_ready fuel h ths s A H"
  shows "\<exists>s' A' H'. full_gc fuel h ths s = Inr s' \<and> heap_inv {} s' A' H' \<and> gc_count s' = c_long (gc_count s + 1)"
proof -
  obtain s1 where s1: "flip ths s = Inr s1"
    using flip_refines [OF I, of ths] r unfolding gc_ready_def by blast
  then have "roots_ok fuel h (all_objects A) s1" "scannable h s1 (flipped A)"
    using r by (auto simp: gc_ready_def)
  from full_gc_refines [OF I _ _ s1 this] show ?thesis using r unfolding gc_ready_def by blast
qed

text \<open>
  The two collections of a turn of rtgc_loop, with whatever other threads do afterwards: the
  mutator sees the count between them and behind them.
\<close>

lemma turn_collects:
  assumes I: "heap_inv {} s A H" and r: "turn_ready fuel h ths1 ths2 s A H"
  shows "\<exists>s1 s2 A2 H2. full_gc fuel h ths1 (asked s) = Inr s1 \<and> full_gc fuel h ths2 s1 = Inr s2 \<and>
    heap_inv {} s2 A2 H2 \<and> gc_count s1 = gc_count s + 1 \<and> gc_count s2 = gc_count s + 2"
proof -
  have f: "gc_count (asked s) = gc_count s" by (simp add: asked_def)
  have I1: "heap_inv {} (asked s) A H" using I by (simp add: asked_def heap_inv_run_gc)
  obtain s1 A1 H1 where 1: "full_gc fuel h ths1 (asked s) = Inr s1" "heap_inv {} s1 A1 H1"
    "gc_count s1 = c_long (gc_count s + 1)"
    using full_gc_ready [OF I1, of fuel h ths1] r f by (auto simp: turn_ready_def)
  have "gc_ready fuel h ths2 s1 A1 H1" using r 1 by (simp add: turn_ready_def)
  then obtain s2 A2 H2 where 2: "full_gc fuel h ths2 s1 = Inr s2" "heap_inv {} s2 A2 H2"
    "gc_count s2 = c_long (gc_count s1 + 1)"
    using full_gc_ready [OF 1(2)] by blast
  have "gc_count s1 = gc_count s + 1" "gc_count s2 = gc_count s + 2"
    using r 1(3) 2(3) by (simp_all add: turn_ready_def c_long_id)
  then show ?thesis using 1(1) 2(1,2) by blast
qed

interpretation turns: collections "full_gc fuel h ths1 # full_gc fuel h ths2 # ys" "turn_ready fuel h ths1 ths2"
  for fuel :: nat and h :: hooks and ths1 ths2 :: "mutator list" and ys
proof unfold_locales
  fix s A H assume I: "heap_inv {} s A H" and r: "turn_ready fuel h ths1 ths2 s A H"
  obtain s1 s2 A2 H2 where 1: "full_gc fuel h ths1 (asked s) = Inr s1" "full_gc fuel h ths2 s1 = Inr s2"
    "heap_inv {} s2 A2 H2" "gc_count s1 = gc_count s + 1" "gc_count s2 = gc_count s + 2"
    using turn_collects [OF I r] by blast
  have "c_long (gc_count s + 2) = gc_count s + 2" using r by (intro c_long_id) (simp_all add: turn_ready_def)
  moreover have "poll_gc_count ys target s2 = Inr s2" if "target \<le> gc_count s2" for target
    using that by (cases ys) simp_all
  ultimately show "\<exists>s' A' H'. poll_gc_count (full_gc fuel h ths1 # full_gc fuel h ths2 # ys) (c_long (gc_count s + 2)) (asked s) =
      Inr s' \<and> heap_inv {} s' A' H'"
    using 1 by (intro exI [of _ s2] exI [of _ A2] exI [of _ H2]) (simp add: asked_def split: if_splits)
qed

text \<open>A turn of rtgc_loop that an atomic collector was asked for ends with two collections more.\<close>

lemma rtgc_turn_total:
  assumes "heap_inv {} s A H" and "turn_ready fuel h ths1 ths2 s A H"
  shows "\<exists>s' A' H'. rtgc_turn fuel h ths1 ths2 (asked s) = Inr s' \<and> heap_inv {} s' A' H' \<and>
    gc_count s' = gc_count s + 2 \<and> (RTatomic_gc s' \<longrightarrow> \<not> run_gc s')"
proof -
  obtain s1 s2 A2 H2 where 1: "full_gc fuel h ths1 (asked s) = Inr s1" "full_gc fuel h ths2 s1 = Inr s2"
    "heap_inv {} s2 A2 H2" "gc_count s2 = gc_count s + 2"
    using turn_collects [OF assms] by blast
  have go: "\<not> (RTatomic_gc (asked s) \<and> \<not> run_gc (asked s))" by (simp add: asked_def)
  let ?s = "if RTatomic_gc s2 then s2\<lparr>run_gc := False\<rparr> else s2"
  have "rtgc_turn fuel h ths1 ths2 (asked s) = Inr ?s" using go 1(1,2) by (auto simp: rtgc_turn_def)
  moreover have "heap_inv {} ?s A2 H2" using 1(3) by (simp add: heap_inv_run_gc)
  ultimately show ?thesis using 1(4) by (intro exI [of _ ?s] exI [of _ A2] exI [of _ H2]) simp
qed

end
