(* ===== verification/Threads.thy ===== *)
theory Threads
  imports Layout
begin

text \<open>
  Mutator threads (rtalloc.c): the array of THREAD_INFO with its two lists, those free and
  those live, the entry a new thread gets, and its start and exit. A pointer into the array
  is an index, NULL is \<open>None\<close>. What the thread library returns is an argument. The lemmas
  show how the two lists change, and what the exit of a thread does to the free list.
\<close>

subsection \<open>The code\<close>

text \<open>THREAD_INFO, with pause times in microseconds.\<close>

record thread_info =
  th_pthread :: int
  th_stack_base :: addr
  th_stack_size :: int
  th_stack_bottom :: addr
  th_max_pause :: int
  th_total_pause :: int
  th_next :: "nat option"
  th_start_func :: addr
  th_args :: addr
  th_started :: int

record thread_table =
  threads :: "thread_info list"
  live_threads :: "nat option"
  free_threads :: "nat option"
  total_threads :: int

abbreviation next_thread :: "thread_table \<Rightarrow> nat \<Rightarrow> nat option" where
  "next_thread t i \<equiv> th_next (threads t ! i)"

definition on_thread :: "nat \<Rightarrow> (thread_info \<Rightarrow> thread_info) \<Rightarrow> thread_table \<Rightarrow> thread_table" where
  "on_thread i f t = t\<lparr>threads := (threads t)[i := f (threads t ! i)]\<rparr>"

definition set_next_thread :: "nat \<Rightarrow> nat option \<Rightarrow> thread_table \<Rightarrow> thread_table" where
  "set_next_thread i n = on_thread i (\<lambda>th. th\<lparr>th_next := n\<rparr>)"

definition init_mutator_threads :: "thread_table \<Rightarrow> thread_table" where
  "init_mutator_threads t =
     (let last_thread_index = MAX_THREADS - 1;
          t1 = fold (\<lambda>i. set_next_thread i (Some (i + 1))) [0..<last_thread_index] t;
          t2 = set_next_thread last_thread_index None t1
      in t2\<lparr>free_threads := Some 0, live_threads := None\<rparr>)"

definition alloc_thread :: "thread_table \<Rightarrow> rt_error + thread_table \<times> nat" where
  "alloc_thread t =
     (case free_threads t of
        None \<Rightarrow> Inl (Debugger ''Out of threads'')
      | Some i \<Rightarrow> Inr (t\<lparr>free_threads := next_thread t i\<rparr>, i))"

definition make_thread_live :: "nat \<Rightarrow> thread_table \<Rightarrow> thread_table" where
  "make_thread_live i t =
     (let t1 = set_next_thread i (live_threads t) t
      in t1\<lparr>live_threads := Some i, total_threads := c_int (total_threads t1 + 1)\<rparr>)"

text \<open>The search of free_thread: the entry before the thread in the live list.\<close>

fun find_live :: "nat \<Rightarrow> thread_table \<Rightarrow> nat \<Rightarrow> nat option \<Rightarrow> nat option \<Rightarrow> rt_error + nat option" where
  "find_live 0 t i target prev = Inl Out_of_fuel"
| "find_live (Suc fuel) t i target prev =
     (if target = Some i then Inr prev
      else case target of
             None \<Rightarrow> Inl Null_deref
           | Some j \<Rightarrow> find_live fuel t i (next_thread t j) (Some j))"

definition unlink_live :: "nat \<Rightarrow> thread_table \<Rightarrow> rt_error + thread_table" where
  "unlink_live i t =
     (if live_threads t = Some i then Inr (t\<lparr>live_threads := next_thread t i\<rparr>)
      else rbind (find_live (Suc MAX_THREADS) t i (live_threads t) None) (\<lambda>prev.
             case prev of
               None \<Rightarrow> Inl Null_deref
             | Some p \<Rightarrow> Inr (set_next_thread p (next_thread t i) t)))"

definition free_thread :: "nat \<Rightarrow> thread_table \<Rightarrow> rt_error + thread_table" where
  "free_thread i t =
     rbind (unlink_live i t) (\<lambda>t1.
       let t2 = set_next_thread i (free_threads t1) t1
       in case free_threads t2 of
            None \<Rightarrow> Inl Null_deref
          | Some f \<Rightarrow>
              (let t3 = set_next_thread f (Some i) t2
               in Inr (t3\<lparr>total_threads := c_int (total_threads t3 - 1)\<rparr>)))"

definition thread_cleanup_handler :: "nat \<Rightarrow> thread_table \<Rightarrow> rt_error + thread_table" where
  "thread_cleanup_handler i = free_thread i"

text \<open>
  What pthread_create and, on the new thread, pthread_attr_getstack and pthread_setspecific
  return.
\<close>

record pthread_env =
  create_result :: int
  new_pthread :: int
  env_stackaddr :: addr
  env_stacksize :: int
  env_stack_bottom :: addr
  setspecific_result :: int

text \<open>The new thread, up to the call of its start function; its cleanup handler runs after that.\<close>

definition rtalloc_start_thread :: "pthread_env \<Rightarrow> nat \<Rightarrow> thread_table \<Rightarrow> thread_table" where
  "rtalloc_start_thread e i t =
     (let t1 = on_thread i (\<lambda>th. th\<lparr>th_stack_base := env_stackaddr e,
                 th_stack_size := c_int (env_stacksize e), th_stack_bottom := env_stack_bottom e,
                 th_max_pause := 0, th_total_pause := 0\<rparr>) t
      in if setspecific_result e \<noteq> 0 then t1
         else on_thread i (\<lambda>th. th\<lparr>th_started := 1\<rparr>) (make_thread_live i t1))"

text \<open>The creator waits for the new thread to say that it has started.\<close>

definition RTpthread_create ::
    "pthread_env \<Rightarrow> addr \<Rightarrow> addr \<Rightarrow> thread_table \<Rightarrow> rt_error + thread_table \<times> int" where
  "RTpthread_create e start_func args t =
     rbind (alloc_thread t) (\<lambda>(t1, i).
       let t2 = on_thread i (\<lambda>th. th\<lparr>th_start_func := start_func, th_args := args, th_started := 0\<rparr>) t1
       in if create_result e \<noteq> 0 then Inr (t2, create_result e)
          else
            (let t3 = rtalloc_start_thread e i (on_thread i (\<lambda>th. th\<lparr>th_pthread := new_pthread e\<rparr>) t2)
             in if th_started (threads t3 ! i) \<noteq> 1 then Inl Out_of_fuel else Inr (t3, 0)))"

subsection \<open>The two lists\<close>

primrec thread_chain :: "thread_table \<Rightarrow> nat option \<Rightarrow> nat list \<Rightarrow> bool" where
  "thread_chain t p [] \<longleftrightarrow> p = None"
| "thread_chain t p (i # is) \<longleftrightarrow>
     p = Some i \<and> i < length (threads t) \<and> thread_chain t (next_thread t i) is"

definition threads_rep :: "thread_table \<Rightarrow> nat list \<Rightarrow> nat list \<Rightarrow> bool" where
  "threads_rep t F L \<longleftrightarrow>
     length (threads t) = MAX_THREADS \<and> thread_chain t (free_threads t) F \<and>
     thread_chain t (live_threads t) L \<and> distinct (F @ L) \<and> total_threads t = int (length L)"

lemma on_thread_fields [simp]:
  "live_threads (on_thread i f t) = live_threads t" "free_threads (on_thread i f t) = free_threads t"
  "total_threads (on_thread i f t) = total_threads t" "length (threads (on_thread i f t)) = length (threads t)"
  by (simp_all add: on_thread_def)

lemma on_thread_nth:
  "j < length (threads t) \<Longrightarrow>
   threads (on_thread i f t) ! j = (if j = i then f (threads t ! i) else threads t ! j)"
  by (simp add: on_thread_def)

lemma next_on_thread [simp]:
  "(\<And>th. th_next (f th) = th_next th) \<Longrightarrow> next_thread (on_thread i f t) j = next_thread t j"
  by (cases "i < length (threads t)"; cases "j = i") (simp_all add: on_thread_def not_less list_update_beyond)

lemma set_next_thread_fields [simp]:
  "live_threads (set_next_thread i n t) = live_threads t" "free_threads (set_next_thread i n t) = free_threads t"
  "total_threads (set_next_thread i n t) = total_threads t"
  "length (threads (set_next_thread i n t)) = length (threads t)"
  by (simp_all add: set_next_thread_def)

lemma next_set_next_thread [simp]:
  "i < length (threads t) \<Longrightarrow> next_thread (set_next_thread i n t) j = (if j = i then n else next_thread t j)"
  by (simp add: set_next_thread_def on_thread_def nth_list_update)

text \<open>A chain depends on the links of its own entries only.\<close>

lemma thread_chain_cong:
  assumes "length (threads t') = length (threads t)" and "\<And>i. i \<in> set is \<Longrightarrow> next_thread t' i = next_thread t i"
  shows "thread_chain t' p is = thread_chain t p is"
  using assms(2) by (induction "is" arbitrary: p) (auto simp: assms(1))

lemma thread_chain_set_next [simp]:
  "i \<notin> set is \<Longrightarrow> i < length (threads t) \<Longrightarrow> thread_chain (set_next_thread i n t) p is = thread_chain t p is"
  by (rule thread_chain_cong) auto

lemma thread_chain_fields [simp]:
  "thread_chain (t\<lparr>live_threads := a\<rparr>) p is = thread_chain t p is"
  "thread_chain (t\<lparr>free_threads := a\<rparr>) p is = thread_chain t p is"
  "thread_chain (t\<lparr>total_threads := n\<rparr>) p is = thread_chain t p is"
  by (rule thread_chain_cong; simp)+

lemma thread_chain_on_thread [simp]:
  "(\<And>th. th_next (f th) = th_next th) \<Longrightarrow> thread_chain (on_thread i f t) p is = thread_chain t p is"
  by (rule thread_chain_cong) simp_all

lemma thread_chain_bound: "thread_chain t p is \<Longrightarrow> i \<in> set is \<Longrightarrow> i < length (threads t)"
  by (induction "is" arbitrary: p) auto

lemma thread_chain_head: "thread_chain t p is \<Longrightarrow> p = (case is of [] \<Rightarrow> None | i # _ \<Rightarrow> Some i)"
  by (cases "is") auto

lemma total_small: "threads_rep t F L \<Longrightarrow> length F + length L \<le> MAX_THREADS"
proof -
  assume r: "threads_rep t F L"
  have "set (F @ L) \<subseteq> {..<MAX_THREADS}"
    using r thread_chain_bound [of t] by (fastforce simp: threads_rep_def)
  then have "card (set (F @ L)) \<le> MAX_THREADS" using card_mono [of "{..<MAX_THREADS}"] by fastforce
  moreover have "card (set (F @ L)) = length (F @ L)"
    using r by (intro distinct_card) (simp add: threads_rep_def)
  ultimately show ?thesis by simp
qed

subsection \<open>The start of a thread\<close>

lemma init_next:
  assumes "n < length (threads t)" and "j < length (threads t)"
  shows "next_thread (fold (\<lambda>i. set_next_thread i (Some (i + 1))) [0..<n] t) j =
      (if j < n then Some (j + 1) else next_thread t j) \<and>
    length (threads (fold (\<lambda>i. set_next_thread i (Some (i + 1))) [0..<n] t)) = length (threads t)"
  using assms by (induction n) (auto simp: less_Suc_eq)

lemma fold_set_next_fields [simp]:
  "total_threads (fold (\<lambda>i. set_next_thread i (g i)) js t) = total_threads t"
  by (induction js arbitrary: t) simp_all

lemma chain_upt:
  assumes "\<And>j. j < n \<Longrightarrow> next_thread t j = (if Suc j < n then Some (Suc j) else None)" and "n \<le> length (threads t)"
    and "k < n"
  shows "thread_chain t (Some k) [k..<n]"
  using assms(3)
proof (induction "n - k" arbitrary: k)
  case 0
  then show ?case by simp
next
  case (Suc m)
  then have "[k..<n] = k # [Suc k..<n]" by (simp add: upt_conv_Cons)
  moreover have "thread_chain t (next_thread t k) [Suc k..<n]"
    using Suc.hyps(1) [of "Suc k"] Suc.hyps(2) Suc.prems assms(1) [of k] by (cases "Suc k < n") auto
  ultimately show ?case using Suc.prems assms(2) by simp
qed

lemma init_mutator_threads_rep:
  assumes "length (threads t) = MAX_THREADS" and "total_threads t = 0"
  shows "threads_rep (init_mutator_threads t) [0..<MAX_THREADS] []"
proof -
  let ?t1 = "fold (\<lambda>i. set_next_thread i (Some (i + 1))) [0..<MAX_THREADS - 1] t"
  let ?t2 = "set_next_thread (MAX_THREADS - 1) None ?t1"
  have M: "0 < MAX_THREADS" by (simp add: MAX_THREADS_def)
  have l: "length (threads ?t1) = MAX_THREADS"
    using init_next [of "MAX_THREADS - 1" t 0] assms(1) M by simp
  have "next_thread ?t2 j = (if Suc j < MAX_THREADS then Some (Suc j) else None)" if "j < MAX_THREADS" for j
    using init_next [of "MAX_THREADS - 1" t j] assms(1) that M l by auto
  then have "thread_chain ?t2 (Some 0) [0..<MAX_THREADS]"
    by (intro chain_upt) (use M l in auto)
  then show ?thesis using assms(2) l by (simp add: threads_rep_def init_mutator_threads_def Let_def)
qed

text \<open>A new thread takes the first free entry and goes to the front of the live list.\<close>

definition starts :: "pthread_env \<Rightarrow> bool" where
  "starts e \<longleftrightarrow> create_result e = 0 \<and> setspecific_result e = 0"

definition started_thread :: "pthread_env \<Rightarrow> addr \<Rightarrow> addr \<Rightarrow> nat option \<Rightarrow> thread_info" where
  "started_thread e f a n = \<lparr>th_pthread = new_pthread e, th_stack_base = env_stackaddr e,
     th_stack_size = c_int (env_stacksize e), th_stack_bottom = env_stack_bottom e,
     th_max_pause = 0, th_total_pause = 0, th_next = n, th_start_func = f, th_args = a, th_started = 1\<rparr>"

definition create_updates :: "pthread_env \<Rightarrow> addr \<Rightarrow> addr \<Rightarrow> nat \<Rightarrow> thread_table \<Rightarrow> thread_table" where
  "create_updates e f a i t = t\<lparr>threads := (threads t)[i := started_thread e f a (live_threads t)],
     free_threads := next_thread t i, live_threads := Some i, total_threads := c_int (total_threads t + 1)\<rparr>"

lemma RTpthread_create_eq:
  assumes "free_threads t = Some i" and "i < length (threads t)" and "starts e"
  shows "RTpthread_create e f a t = Inr (create_updates e f a i t, 0)"
  using assms by (cases "threads t ! i") (simp add: RTpthread_create_def alloc_thread_def starts_def
    rtalloc_start_thread_def make_thread_live_def set_next_thread_def on_thread_def create_updates_def
    started_thread_def Let_def)

lemma next_create_updates [simp]:
  "i < length (threads t) \<Longrightarrow> next_thread (create_updates e f a i t) j = (if j = i then live_threads t else next_thread t j)"
  by (simp add: create_updates_def started_thread_def nth_list_update)

lemma create_updates_fields [simp]:
  "length (threads (create_updates e f a i t)) = length (threads t)"
  "free_threads (create_updates e f a i t) = next_thread t i"
  "live_threads (create_updates e f a i t) = Some i"
  "total_threads (create_updates e f a i t) = c_int (total_threads t + 1)"
  by (simp_all add: create_updates_def)

lemma RTpthread_create_refines:
  assumes r: "threads_rep t (i # F) L" and e: "starts e"
  obtains t' where "RTpthread_create e f a t = Inr (t', 0)" and "threads_rep t' F (i # L)"
    and "threads t' ! i = started_thread e f a (live_threads t)"
proof
  have i: "free_threads t = Some i" "i < length (threads t)" "i \<notin> set F" "i \<notin> set L"
    using r by (auto simp: threads_rep_def)
  show "RTpthread_create e f a t = Inr (create_updates e f a i t, 0)" by (rule RTpthread_create_eq [OF i(1,2) e])
  show "threads (create_updates e f a i t) ! i = started_thread e f a (live_threads t)"
    using i(2) by (simp add: create_updates_def)
  have c: "thread_chain (create_updates e f a i t) p is = thread_chain t p is" if "i \<notin> set is" for p "is"
    by (rule thread_chain_cong) (use that i(2) in auto)
  have "c_int (int (length L) + 1) = int (length L) + 1"
    using total_small [OF r] by (intro c_int_id) (simp_all add: MAX_THREADS_def)
  then show "threads_rep (create_updates e f a i t) F (i # L)"
    using r i by (auto simp: threads_rep_def c)
qed

lemma RTpthread_create_no_entry:
  "threads_rep t [] L \<Longrightarrow> RTpthread_create e f a t = Inl (Debugger ''Out of threads'')"
  by (simp add: threads_rep_def RTpthread_create_def alloc_thread_def)

text \<open>When pthread_create fails, the entry that was taken is not given back.\<close>

lemma RTpthread_create_fails:
  assumes "threads_rep t (i # F) L" and "create_result e \<noteq> 0"
  obtains t' where "RTpthread_create e f a t = Inr (t', create_result e)" and "threads_rep t' F L"
  using assms by (auto simp: RTpthread_create_def alloc_thread_def threads_rep_def Let_def)

subsection \<open>The exit of a thread\<close>

lemma find_live_found:
  assumes "thread_chain t target (us @ i # vs)" and "i \<notin> set us" and "length us < fuel"
  shows "find_live fuel t i target prev = Inr (if us = [] then prev else Some (last us))"
  using assms
proof (induction us arbitrary: fuel target prev)
  case Nil
  then show ?case by (cases fuel) auto
next
  case (Cons u us)
  then obtain n where n: "fuel = Suc n" by (cases fuel) auto
  have "find_live n t i (next_thread t u) (Some u) = Inr (if us = [] then Some u else Some (last us))"
    using Cons.prems n by (intro Cons.IH) auto
  then show ?case using Cons.prems n by auto
qed

lemma chain_unlink:
  assumes "thread_chain t p (us @ u # i # vs)" and "distinct (us @ u # i # vs)" and "u < length (threads t)"
  shows "thread_chain (set_next_thread u (next_thread t i) t) p (us @ u # vs)"
  using assms by (induction us arbitrary: p) auto

lemma unlink_live_refines:
  assumes r: "threads_rep t F L" and i: "i \<in> set L"
  obtains t1 where "unlink_live i t = Inr t1" and "thread_chain t1 (free_threads t1) F"
    and "thread_chain t1 (live_threads t1) (remove1 i L)" and "length (threads t1) = MAX_THREADS"
    and "free_threads t1 = free_threads t" and "total_threads t1 = total_threads t"
proof -
  obtain us vs where L: "L = us @ i # vs" and nus: "i \<notin> set us" using split_list_first [OF i] by blast
  have d: "length (threads t) = MAX_THREADS" "thread_chain t (free_threads t) F"
      "thread_chain t (live_threads t) L" "distinct (F @ L)"
    using r by (auto simp: threads_rep_def)
  have rm: "remove1 i L = us @ vs" using nus by (simp add: L remove1_append)
  show thesis
  proof (cases us rule: rev_cases)
    case Nil
    then have "unlink_live i t = Inr (t\<lparr>live_threads := next_thread t i\<rparr>)" using d(3) L by (simp add: unlink_live_def)
    then show thesis using that d rm Nil by (simp add: L)
  next
    case (snoc ws u)
    have ne: "live_threads t \<noteq> Some i"
      using thread_chain_head [OF d(3)] nus by (cases ws) (auto simp: L snoc)
    have u: "u < length (threads t)" "u \<notin> set F"
      using thread_chain_bound [OF d(3), of u] d(4) by (auto simp: L snoc)
    have "length us < Suc MAX_THREADS" using total_small [OF r] by (simp add: L)
    then have "find_live (Suc MAX_THREADS) t i (live_threads t) None = Inr (Some u)"
      using find_live_found [of t "live_threads t" us i vs "Suc MAX_THREADS" None] d(3) nus
      unfolding L by (simp add: snoc)
    then have un: "unlink_live i t = Inr (set_next_thread u (next_thread t i) t)"
      using ne by (simp add: unlink_live_def del: find_live.simps)
    have "thread_chain (set_next_thread u (next_thread t i) t) (live_threads t) (ws @ u # vs)"
      using d(3,4) by (intro chain_unlink u(1)) (auto simp: L snoc)
    then show thesis using that [OF un] d(1,2) u by (simp add: rm snoc)
  qed
qed

text \<open>
  The exit takes the thread off the live list. On the free list it makes the first entry
  point to the thread and the thread to the first entry, without making the thread the
  first; all other free entries are lost.
\<close>

definition two_cycle :: "thread_table \<Rightarrow> nat \<Rightarrow> nat \<Rightarrow> bool" where
  "two_cycle t f i \<longleftrightarrow> free_threads t = Some f \<and> next_thread t f = Some i \<and> next_thread t i = Some f"

lemma free_thread_result:
  assumes r: "threads_rep t (f # F) L" and i: "i \<in> set L"
  obtains t' where "free_thread i t = Inr t'" and "thread_chain t' (live_threads t') (remove1 i L)"
    and "two_cycle t' f i" and "total_threads t' = int (length L) - 1" and "length (threads t') = MAX_THREADS"
proof -
  obtain t1 where t1: "unlink_live i t = Inr t1" "thread_chain t1 (free_threads t1) (f # F)"
    "thread_chain t1 (live_threads t1) (remove1 i L)" "length (threads t1) = MAX_THREADS"
    "free_threads t1 = free_threads t" "total_threads t1 = total_threads t"
    using unlink_live_refines [OF r i] .
  have ff: "f < length (threads t1)" "free_threads t1 = Some f" using t1(2) by auto
  have il: "i < length (threads t1)"
    using thread_chain_bound [of t "live_threads t" L i] r i t1(4) by (simp add: threads_rep_def)
  have nf: "f \<noteq> i" "f \<notin> set (remove1 i L)" "i \<notin> set (remove1 i L)"
    using r i set_remove1_subset [of i L] by (auto simp: threads_rep_def)
  let ?t' = "set_next_thread f (Some i) (set_next_thread i (Some f) t1)"
  have "c_int (int (length L) - 1) = int (length L) - 1"
    using total_small [OF r] by (intro c_int_id) (simp_all add: MAX_THREADS_def)
  moreover have "total_threads t = int (length L)" using r by (simp add: threads_rep_def)
  ultimately have e: "free_thread i t = Inr (?t'\<lparr>total_threads := int (length L) - 1\<rparr>)"
    using t1 ff il by (simp add: free_thread_def Let_def)
  show thesis
    by (rule that [OF e]) (use t1 ff il nf in \<open>simp_all add: two_cycle_def\<close>)
qed

text \<open>
  So the next three threads get the first free entry, the entry of the exited thread, and
  the first free entry again, while its thread is live; the live list has become a cycle.
\<close>

definition live_cycle :: "thread_table \<Rightarrow> nat \<Rightarrow> nat \<Rightarrow> bool" where
  "live_cycle t f i \<longleftrightarrow> live_threads t = Some f \<and> next_thread t f = Some i \<and> next_thread t i = Some f"

lemma two_cycle_creates:
  assumes "two_cycle t f i" and "f < length (threads t)" and "i < length (threads t)" and "f \<noteq> i" and "starts e"
  obtains t1 t2 t3 where "RTpthread_create e g a t = Inr (t1, 0)" and "live_threads t1 = Some f"
    and "RTpthread_create e g a t1 = Inr (t2, 0)" and "live_threads t2 = Some i"
    and "RTpthread_create e g a t2 = Inr (t3, 0)" and "live_cycle t3 f i"
proof
  let ?t1 = "create_updates e g a f t"
  let ?t2 = "create_updates e g a i ?t1"
  let ?t3 = "create_updates e g a f ?t2"
  show "RTpthread_create e g a t = Inr (?t1, 0)"
    "RTpthread_create e g a ?t1 = Inr (?t2, 0)" "RTpthread_create e g a ?t2 = Inr (?t3, 0)"
    using assms by (auto intro!: RTpthread_create_eq simp: two_cycle_def)
  show "live_threads ?t1 = Some f" "live_threads ?t2 = Some i" "live_cycle ?t3 f i"
    using assms by (simp_all add: live_cycle_def)
qed

lemma live_cycle_no_end: "live_cycle t f i \<Longrightarrow> \<not> thread_chain t (live_threads t) L"
proof -
  assume c: "live_cycle t f i"
  have "\<not> thread_chain t (Some f) L \<and> \<not> thread_chain t (Some i) L"
    using c by (induction L) (auto simp: live_cycle_def)
  then show ?thesis using c by (simp add: live_cycle_def)
qed

lemma free_thread_last_entry:
  assumes r: "threads_rep t [] L" and i: "i \<in> set L"
  shows "free_thread i t = Inl Null_deref"
proof -
  obtain t1 where "unlink_live i t = Inr t1" "thread_chain t1 (free_threads t1) []"
    using unlink_live_refines [OF r i] .
  then show ?thesis by (simp add: free_thread_def Let_def)
qed

end
