(* ===== verification/Init_Heap.thy ===== *)
theory Init_Heap
  imports Allocate_Refine Threads
begin

text \<open>
  The start of the collector: RTbig_malloc (rtutil.c), RTinit_heap with the parts it calls
  (rtalloc.c), and init_realtime_gc (rtgc.c). mmap is an argument, which says for every call
  site and byte count where the new memory is, or \<open>None\<close> when there is none. The lemmas show
  that RTinit_heap establishes the invariant of the heap.
\<close>

subsection \<open>The code\<close>

definition MAP_FAILED :: addr where
  "MAP_FAILED = - 1"

definition RTbig_malloc :: "(nat \<Rightarrow> int \<Rightarrow> addr option) \<Rightarrow> nat \<Rightarrow> int \<Rightarrow> addr" where
  "RTbig_malloc mmap site bytes = (case mmap site bytes of None \<Rightarrow> MAP_FAILED | Some p \<Rightarrow> p)"

definition init_group :: "nat \<Rightarrow> group_info" where
  "init_group index = \<lparr>gsize = 2 ^ index, gindex = index, glast = 0, gfree = 0, ggray = 0, gblack = 0,
     gwhite = 0, white_count = 0, black_scanned_count = 0, black_alloc_count = 0\<rparr>"

definition init_group_info :: "rt_state \<Rightarrow> rt_state" where
  "init_group_info s =
     s\<lparr>groups := fold (\<lambda>i gs. gs(i := init_group i)) [MIN_GROUP_INDEX..<Suc MAX_GROUP_INDEX] (groups s)\<rparr>"

definition init_page_info :: "rt_state \<Rightarrow> rt_state" where
  "init_page_info s =
     s\<lparr>pages := fold (\<lambda>i pgs. pgs(i := \<lparr>pbase = 0, pgroup = SYSTEM_PAGE\<rparr>))
        [0..total_partition_pages s - 1] (pages s)\<rparr>"

text \<open>The structures as gcc lays them out on x86-64.\<close>

definition SIZEOF_GROUP_INFO :: int where "SIZEOF_GROUP_INFO = 144"
definition SIZEOF_PAGE_INFO :: int where "SIZEOF_PAGE_INFO = 16"
definition SIZEOF_SEGMENT :: int where "SIZEOF_SEGMENT = 24"
definition SIZEOF_THREAD_INFO :: int where "SIZEOF_THREAD_INFO = 104"
definition SIZEOF_THREAD_STATE :: int where "SIZEOF_THREAD_STATE = 200"

text \<open>
  The saved register arrays are part of the array of THREAD_STATE. mmap gives cleared
  memory, so the saved sizes are zero at first.
\<close>

definition new_saved_threads :: "addr \<Rightarrow> thread_state list" where
  "new_saved_threads p =
     map (\<lambda>i. \<lparr>registers = p + word_of_int (int i * SIZEOF_THREAD_STATE), saved_stack_base = 0,
               saved_stack_size = 0\<rparr>) [0..<MAX_THREADS]"

definition init_saved_threads :: "(nat \<Rightarrow> addr) \<Rightarrow> rt_state \<Rightarrow> rt_state" where
  "init_saved_threads stack s =
     s\<lparr>saved_threads := map (\<lambda>i. (saved_threads s ! i)\<lparr>saved_stack_base := stack i\<rparr>) [0..<MAX_THREADS]\<rparr>"

text \<open>Besides locks, the semaphore, the signal handler and timers, which the model has no state for.\<close>

definition init_realtime_gc :: "int \<Rightarrow> rt_state \<Rightarrow> rt_error + rt_state" where
  "init_realtime_gc key_create_result s =
     (if key_create_result \<noteq> 0 then Inl (Debugger ''thread_key create failed!'')
      else Inr (s\<lparr>global_roots := [], gc_count := 0\<rparr>))"

text \<open>
  The macro MAX_SEGMENTS has no parentheses, so that the product with the size of a segment
  is the size of one segment and one byte; mmap rounds that up to a page.
\<close>

definition init_tables :: "(nat \<Rightarrow> int \<Rightarrow> addr) \<Rightarrow> int \<Rightarrow> rt_state \<Rightarrow> rt_error + rt_state" where
  "init_tables big_malloc first_segment_bytes s =
     (let n = first_segment_bytes div BYTES_PER_PAGE;
          groups_ptr = big_malloc 0 (SIZEOF_GROUP_INFO * int (MAX_GROUP_INDEX + 1));
          pages_ptr = big_malloc 1 (SIZEOF_PAGE_INFO * n);
          segments_ptr = big_malloc 2 (SIZEOF_SEGMENT * 1 + 1);
          threads_ptr = big_malloc 3 (SIZEOF_THREAD_INFO * int MAX_THREADS);
          saved_threads_ptr = big_malloc 4 (SIZEOF_THREAD_STATE * int MAX_THREADS);
          global_roots_ptr = big_malloc 5 (8 * int MAX_GLOBAL_ROOTS);
          vector_length = first_segment_bytes div (MIN_GROUP_SIZE * BITS_PER_LONG);
          write_vector_ptr = big_malloc 6 (vector_length * 8)
      in if 0 \<in> {pages_ptr, groups_ptr, segments_ptr, threads_ptr, global_roots_ptr, write_vector_ptr}
         then Inl (Out_of_memory ''Heap Memory tables'' 0)
         else Inr (s\<lparr>enable_write_barrier := False, total_partition_pages := n,
                saved_threads := new_saved_threads saved_threads_ptr,
                RTwrite_vector_length := vector_length,
                RTwrite_vector := (\<lambda>i. if 0 \<le> i \<and> i < vector_length then 0 else RTwrite_vector s i)\<rparr>))"

definition segment_or_stop ::
    "string \<Rightarrow> (int \<Rightarrow> addr) \<Rightarrow> int \<Rightarrow> segment_type \<Rightarrow> rt_state \<Rightarrow> rt_error + rt_state" where
  "segment_or_stop msg big_malloc bytes type s =
     rbind (allocate_segment big_malloc bytes type s) (\<lambda>(s1, actual).
       if actual = 0 then Inl (Out_of_memory msg (c_int (bytes div 1024))) else Inr s1)"

definition RTinit_heap ::
    "(nat \<Rightarrow> int \<Rightarrow> addr) \<Rightarrow> int \<Rightarrow> int \<Rightarrow> int \<Rightarrow> int \<Rightarrow> rt_state \<times> thread_table \<Rightarrow>
     rt_error + rt_state \<times> thread_table" where
  "RTinit_heap big_malloc stack_size key_create_result first_segment_bytes static_size = (\<lambda>(s, t).
     rbind (init_tables big_malloc first_segment_bytes s) (\<lambda>s1.
       let s2 = (init_page_info s1)\<lparr>empty_pages := 0, segments := []\<rparr>;
           t2 = init_mutator_threads t
       in rbind (if 0 < static_size
                 then segment_or_stop ''Static Memory Initialization'' (big_malloc 7) static_size STATIC_SEGMENT s2
                 else Inr s2) (\<lambda>s3.
          rbind (segment_or_stop ''Heap Memory allocation'' (big_malloc 8) first_segment_bytes HEAP_SEGMENT s3) (\<lambda>s4.
          let s5 = s4\<lparr>marked_color := GENERATION0, unmarked_color := GENERATION1\<rparr>;
              s6 = init_saved_threads (\<lambda>i. big_malloc (9 + i) stack_size) s5
          in rbind (init_realtime_gc key_create_result (init_group_info s6)) (\<lambda>s7. Inr (s7, t2))))))"

subsection \<open>The parts\<close>

lemma fold_const_upd:
  "fold (\<lambda>i f. f(i := g i)) is f k = (if k \<in> set is then g k else f k)"
  by (induction "is" arbitrary: f) auto

lemma init_group_info_group:
  "i \<in> group_indices \<Longrightarrow> groups (init_group_info s) i = init_group i"
  by (simp add: init_group_info_def fold_const_upd group_indices_def)

lemma init_page_info_page:
  "0 \<le> q \<Longrightarrow> q < total_partition_pages s \<Longrightarrow> pages (init_page_info s) q = \<lparr>pbase = 0, pgroup = SYSTEM_PAGE\<rparr>"
  by (simp add: init_page_info_def fold_const_upd)

lemma segment_or_stop_static:
  assumes "segments s = []" and "0 < n" and "n mod BYTES_PER_PAGE = 0" and "n < 2 ^ 31" and "big_malloc n \<noteq> 0"
  shows "segment_or_stop msg big_malloc n STATIC_SEGMENT s =
    Inr (s\<lparr>segments := [\<lparr>first_segment_ptr = big_malloc n, last_segment_ptr = big_malloc n + word_of_int n,
            segment_page_count = n div BYTES_PER_PAGE, seg_type = STATIC_SEGMENT\<rparr>],
          first_static_ptr := big_malloc n, last_static_ptr := big_malloc n + word_of_int n,
          static_frontier_ptr := big_malloc n\<rparr>)"
proof -
  have "c_int (n div BYTES_PER_PAGE) = n div BYTES_PER_PAGE" "c_int n = n"
    using assms(2,4) by (auto intro!: c_int_id simp: config_defs)
  moreover have "n div BYTES_PER_PAGE * BYTES_PER_PAGE = n"
    using assms(3) div_mult_mod_eq [of n BYTES_PER_PAGE] by simp
  ultimately show ?thesis
    using assms by (simp add: segment_or_stop_def allocate_segment_def MAX_SEGMENTS_def Let_def)
qed

lemma segment_or_stop_partial_page:
  assumes "n mod BYTES_PER_PAGE \<noteq> 0"
  shows "segment_or_stop msg big_malloc n ty s = Inl (Out_of_memory msg (c_int (n div 1024)))"
  using assms by (simp add: segment_or_stop_def allocate_segment_def)

text \<open>What makes a partition of the memory that mmap returned.\<close>

definition good_segment :: "addr \<Rightarrow> int \<Rightarrow> bool" where
  "good_segment p n \<longleftrightarrow>
     0 < n \<and> n mod BYTES_PER_PAGE = 0 \<and> n < 2 ^ 31 \<and>
     p \<noteq> 0 \<and> uint p mod BYTES_PER_PAGE = 0 \<and> uint p + n \<le> 2 ^ 47"

lemma good_segment_end:
  assumes "good_segment p n"
  shows "uint (p + word_of_int n) = uint p + n"
proof -
  have "uint (word_of_int n :: addr) = n"
    using assms by (subst uint_word_of_int) (simp add: good_segment_def)
  then show ?thesis using assms by (simp add: uint_add_64 good_segment_def)
qed

text \<open>The heap segment becomes one hole.\<close>

lemma segment_or_stop_heap:
  assumes g: "good_segment (big_malloc n) n" and seg: "length (segments s) < MAX_SEGMENTS"
    and n: "total_partition_pages s = n div BYTES_PER_PAGE" and e: "empty_pages s = 0"
    and sys: "\<And>q. 0 \<le> q \<Longrightarrow> q < total_partition_pages s \<Longrightarrow> pgroup (pages s q) = SYSTEM_PAGE"
  obtains s' where "segment_or_stop msg big_malloc n HEAP_SEGMENT s = Inr s'" and "layout_ok s'"
    and "holes_ok s' {} [(0, total_partition_pages s)]"
    and "\<And>q. 0 \<le> q \<Longrightarrow> q < total_partition_pages s \<Longrightarrow> pgroup (pages s' q) = EMPTY_PAGE"
    and "\<And>a. a \<notin> {big_malloc n, big_malloc n + 8} \<Longrightarrow> memory s' a = memory s a"
    and "s' = s\<lparr>first_partition_ptr := big_malloc n, last_partition_ptr := big_malloc n + word_of_int n,
      memory := memory s', pages := pages s', empty_pages := empty_pages s', segments := segments s'\<rparr>"
    and "length (segments s') = Suc (length (segments s))"
proof -
  let ?p = "big_malloc n" and ?N = "total_partition_pages s"
  let ?sg = "\<lparr>first_segment_ptr = ?p, last_segment_ptr = ?p + word_of_int n, segment_page_count = ?N,
    seg_type = HEAP_SEGMENT\<rparr>"
  let ?s2 = "s\<lparr>segments := segments s @ [?sg], first_partition_ptr := ?p, last_partition_ptr := ?p + word_of_int n\<rparr>"
  have gs: "0 < n" "n mod BYTES_PER_PAGE = 0" "n < 2 ^ 31" "?p \<noteq> 0" "uint ?p mod BYTES_PER_PAGE = 0"
      "uint ?p + n \<le> 2 ^ 47"
    using g by (simp_all add: good_segment_def)
  have N: "?N * BYTES_PER_PAGE = n" "1 \<le> ?N" "?N < 2 ^ 19"
    using gs(1-3) unfolding n by (auto simp: config_defs)
  have c: "c_int ?N = ?N" "c_int n = n" using N gs by (auto intro!: c_int_id)
  have lay: "layout_ok ?s2"
    using gs N good_segment_end [OF g] by (simp add: layout_ok_def word_gt_0 uint_0_iff less_le)
  have p0: "PAGE_INDEX_TO_PTR ?s2 0 = ?p" by (simp add: PAGE_INDEX_TO_PTR_def)
  then have i0: "PTR_TO_PAGE_INDEX ?s2 ?p = 0" using page_index_roundtrip [OF lay, of 0] N by simp
  have es: "empty_page_set ?s2 = {}" using sys by (fastforce simp: empty_page_set_def)
  have H: "holes_ok ?s2 {} []" using e es by (simp add: holes_ok_def holes_disjoint_def)
  have q: "0 + ?N \<le> total_partition_pages ?s2" "hole_pages (0, ?N) \<inter> empty_page_set ?s2 = {}"
    unfolding es by simp_all
  obtain s' where s': "RTinit_empty_pages 0 ?N HEAP_SEGMENT ?s2 = Inr s'" "holes_ok s' {} [(0, ?N)]"
      "s' = ?s2\<lparr>memory := memory s', pages := clear_pages 0 (0 + ?N) (pages ?s2),
        empty_pages := PAGE_INDEX_TO_PTR ?s2 0\<rparr>"
      "\<And>a. a \<notin> hole_cells ?s2 {0} \<Longrightarrow> memory s' a = memory ?s2 a"
    by (rule RTinit_empty_pages_holes [OF lay H order_refl N(2) q]) (rule that, assumption+)
  have "allocate_segment big_malloc n HEAP_SEGMENT s = Inr (s', n)"
    using gs seg c N i0 s'(1) by (simp add: allocate_segment_def Let_def n [symmetric] c_int_def)
  then have a: "segment_or_stop msg big_malloc n HEAP_SEGMENT s = Inr s'" using gs(1) by (simp add: segment_or_stop_def)
  have f: "pages s' = clear_pages 0 ?N (pages s)" "empty_pages s' = ?p" "segments s' = segments s @ [?sg]"
    by (subst s'(3), simp add: p0)+
  show thesis
  proof (rule that [OF a _ s'(2)])
    show "layout_ok s'" using lay by (subst s'(3)) (simp add: layout_ok_def)
    show "pgroup (pages s' q) = EMPTY_PAGE" if "0 \<le> q" "q < ?N" for q using that by (simp add: f clear_pages_eq)
    show "memory s' a = memory s a" if "a \<notin> {?p, ?p + 8}" for a
      using s'(4) [of a] that by (simp add: hole_cells_def p0)
    show "length (segments s') = Suc (length (segments s))" by (simp add: f)
    show "s' = s\<lparr>first_partition_ptr := ?p, last_partition_ptr := ?p + word_of_int n,
        memory := memory s', pages := pages s', empty_pages := empty_pages s', segments := segments s'\<rparr>"
      by (subst s'(3)) (simp add: f p0)
  qed
qed

subsection \<open>The heap RTinit_heap makes\<close>

definition no_objects :: "nat \<Rightarrow> agroup" where
  "no_objects i = \<lparr>whites = [], grays = [], blacks = [], greens = []\<rparr>"

lemma empty_heap_inv:
  assumes "layout_ok s" and "holes_ok s {} H" and "colors_ok (marked_color s) (unmarked_color s)"
    and pg: "\<And>q. 0 \<le> q \<Longrightarrow> q < total_partition_pages s \<Longrightarrow> pgroup (pages s q) = EMPTY_PAGE"
    and gr: "\<And>i. i \<in> group_indices \<Longrightarrow> groups s i = init_group i"
  shows "heap_inv {} s no_objects H"
proof -
  have "pgroup (pages s (PTR_TO_PAGE_INDEX s x)) = EMPTY_PAGE" if "IN_PARTITION s x" for x
    using PTR_TO_PAGE_INDEX_bounds [OF assms(1) that] by (rule pg)
  then have "page_objects s i = {}" for i by (auto simp: page_objects_def PTR_TO_GROUP_def)
  moreover have "page_table_ok s" using pg by (simp add: page_table_ok_def)
  moreover have "groups_ok s" using gr by (simp add: groups_ok_def init_group_def)
  moreover have "idle_rep mk um m (init_group i) (no_objects i)" for mk um m i
    by (simp add: idle_rep_def group_rep_def no_objects_def init_group_def headers_ok_def objects_def
        active_def dlist_def colored_def black_pointer_ok_def)
  ultimately show ?thesis
    using assms by (simp add: heap_inv_def object_set_def objects_def active_def no_objects_def)
qed

definition fresh_heap :: "int \<Rightarrow> rt_state \<Rightarrow> bool" where
  "fresh_heap n s \<longleftrightarrow>
     heap_inv {} s no_objects [(0, n)] \<and> barrier_clear s \<and> \<not> enable_write_barrier s \<and>
     marked_color s = GENERATION0 \<and> unmarked_color s = GENERATION1 \<and> gc_count s = 0 \<and>
     global_roots s = [] \<and> length (saved_threads s) = MAX_THREADS"

lemma new_saved_threads_length [simp]: "length (new_saved_threads p) = MAX_THREADS"
  by (simp add: new_saved_threads_def)

lemma RTinit_heap_refines:
  assumes bm: "\<And>k n. big_malloc k n \<noteq> 0" and hp: "good_segment (big_malloc 8 n) n"
    and st: "0 \<le> k" "k mod BYTES_PER_PAGE = 0" "k < 2 ^ 31" and key: "key = 0"
  obtains s' where "RTinit_heap big_malloc stack_size key n k (s, t) = Inr (s', init_mutator_threads t)"
    and "fresh_heap (n div BYTES_PER_PAGE) s'"
    and "0 < k \<Longrightarrow> first_static_ptr s' = big_malloc 7 k \<and> static_frontier_ptr s' = big_malloc 7 k \<and>
      last_static_ptr s' = big_malloc 7 k + word_of_int k"
    and "length (segments s') = (if 0 < k then 2 else 1)" and "first_partition_ptr s' = big_malloc 8 n"
    and "last_partition_ptr s' = big_malloc 8 n + word_of_int n"
proof -
  obtain s1 where s1: "init_tables big_malloc n s = Inr s1" "total_partition_pages s1 = n div BYTES_PER_PAGE"
      "\<not> enable_write_barrier s1" "barrier_clear s1" "length (saved_threads s1) = MAX_THREADS"
    using bm by (auto simp: init_tables_def Let_def barrier_clear_def dest: sym)
  define s2 where "s2 = (init_page_info s1)\<lparr>empty_pages := 0, segments := []\<rparr>"
  define s3 where "s3 = (if 0 < k then s2\<lparr>segments := [\<lparr>first_segment_ptr = big_malloc 7 k,
      last_segment_ptr = big_malloc 7 k + word_of_int k, segment_page_count = k div BYTES_PER_PAGE,
      seg_type = STATIC_SEGMENT\<rparr>], first_static_ptr := big_malloc 7 k,
      last_static_ptr := big_malloc 7 k + word_of_int k, static_frontier_ptr := big_malloc 7 k\<rparr> else s2)"
  have s3: "(if 0 < k then segment_or_stop ''Static Memory Initialization'' (big_malloc 7) k STATIC_SEGMENT s2
      else Inr s2) = Inr s3"
    using segment_or_stop_static [of s2 k "big_malloc 7"] st bm by (auto simp: s3_def s2_def)
  have f3: "total_partition_pages s3 = n div BYTES_PER_PAGE" "empty_pages s3 = 0"
      "length (segments s3) = (if 0 < k then 1 else 0)" "enable_write_barrier s3 = enable_write_barrier s1"
      "RTwrite_vector s3 = RTwrite_vector s1" "RTwrite_vector_length s3 = RTwrite_vector_length s1"
      "saved_threads s3 = saved_threads s1" "pages s3 = pages (init_page_info s1)"
    using s1(2) by (simp_all add: s3_def s2_def init_page_info_def)
  have sys: "pgroup (pages s3 q) = SYSTEM_PAGE" if "0 \<le> q" "q < total_partition_pages s3" for q
    using init_page_info_page [of q s1] that s1(2) by (simp add: f3)
  have sg: "length (segments s3) < MAX_SEGMENTS" by (simp add: f3 MAX_SEGMENTS_def)
  obtain s4 where s4: "segment_or_stop ''Heap Memory allocation'' (big_malloc 8) n HEAP_SEGMENT s3 = Inr s4"
      "layout_ok s4" "holes_ok s4 {} [(0, total_partition_pages s3)]"
      "\<And>q. 0 \<le> q \<Longrightarrow> q < total_partition_pages s3 \<Longrightarrow> pgroup (pages s4 q) = EMPTY_PAGE"
      "s4 = s3\<lparr>first_partition_ptr := big_malloc 8 n, last_partition_ptr := big_malloc 8 n + word_of_int n,
        memory := memory s4, pages := pages s4, empty_pages := empty_pages s4, segments := segments s4\<rparr>"
      "length (segments s4) = Suc (length (segments s3))"
    by (rule segment_or_stop_heap [where msg = "''Heap Memory allocation''" and big_malloc = "big_malloc 8" and n = n and s = s3])
      (rule hp, rule sg, rule f3(1), rule f3(2), erule (1) sys, rule that)
  have f4: "total_partition_pages s4 = n div BYTES_PER_PAGE" "\<not> enable_write_barrier s4"
      "RTwrite_vector s4 = RTwrite_vector s1" "RTwrite_vector_length s4 = RTwrite_vector_length s1"
      "first_partition_ptr s4 = big_malloc 8 n" "last_partition_ptr s4 = big_malloc 8 n + word_of_int n"
      "first_static_ptr s4 = first_static_ptr s3" "static_frontier_ptr s4 = static_frontier_ptr s3"
      "last_static_ptr s4 = last_static_ptr s3"
    by (subst s4(5), simp add: f3 s1(3))+
  define s7 where "s7 = (init_group_info (init_saved_threads (\<lambda>i. big_malloc (9 + i) stack_size)
      (s4\<lparr>marked_color := GENERATION0, unmarked_color := GENERATION1\<rparr>)))\<lparr>global_roots := [], gc_count := 0\<rparr>"
  have run: "RTinit_heap big_malloc stack_size key n k (s, t) = Inr (s7, init_mutator_threads t)"
    unfolding RTinit_heap_def Let_def prod.case
    by (simp only: s1(1) rbind_simps s2_def [symmetric] s3 s4(1)) (simp add: init_realtime_gc_def key s7_def)
  have f7: "memory s7 = memory s4" "pages s7 = pages s4" "empty_pages s7 = empty_pages s4"
      "first_partition_ptr s7 = first_partition_ptr s4" "last_partition_ptr s7 = last_partition_ptr s4"
      "total_partition_pages s7 = total_partition_pages s4" "segments s7 = segments s4"
      "first_static_ptr s7 = first_static_ptr s4" "static_frontier_ptr s7 = static_frontier_ptr s4"
      "last_static_ptr s7 = last_static_ptr s4" "enable_write_barrier s7 = enable_write_barrier s4"
      "RTwrite_vector s7 = RTwrite_vector s4" "RTwrite_vector_length s7 = RTwrite_vector_length s4"
      "marked_color s7 = GENERATION0" "unmarked_color s7 = GENERATION1" "gc_count s7 = 0" "global_roots s7 = []"
      "length (saved_threads s7) = MAX_THREADS"
    by (simp_all add: s7_def init_group_info_def init_saved_threads_def)
  have "groups s7 i = init_group i" if "i \<in> group_indices" for i
    using init_group_info_group [OF that] by (simp add: s7_def)
  moreover have "layout_ok s7" using s4(2) by (simp add: layout_ok_def f7)
  moreover have "holes_ok s7 {} [(0, n div BYTES_PER_PAGE)]"
  proof -
    have "hole_seg s7 m H e = hole_seg s4 m H e" for m H e by (rule hole_seg_eq) (rule f7(4))
    moreover have "PAGE_INDEX_TO_PTR s7 = PAGE_INDEX_TO_PTR s4" by (rule page_macros_eq) (rule f7(4))
    ultimately show ?thesis using s4(3) by (simp add: holes_ok_def f7 empty_page_set_def f3(1))
  qed
  moreover have "pgroup (pages s7 q) = EMPTY_PAGE" if "0 \<le> q" "q < total_partition_pages s7" for q
    using s4(4) that by (simp add: f7 f4 f3)
  moreover have "colors_ok (marked_color s7) (unmarked_color s7)"
    by (simp add: f7 colors_ok_def color_defs)
  ultimately have "heap_inv {} s7 no_objects [(0, n div BYTES_PER_PAGE)]" by (intro empty_heap_inv)
  then have "fresh_heap (n div BYTES_PER_PAGE) s7"
    using f4(2) s1(4) by (simp add: fresh_heap_def f7 barrier_clear_def f4)
  then show thesis by (rule that [OF run]) (simp_all add: f7 f4 s4(6) f3 s3_def s2_def)
qed

end
