(* ===== verification/Main_Program.thy ===== *)
theory Main_Program
  imports Word_Tree Init_Heap
begin

text \<open>
  The threads of the client program a.c: main, which makes the heap and the first thread,
  make_threads, which keeps four threads alive, and start_word_count, which counts the words
  of a text again and again. The lemmas give what a pass of make_threads and a thread that
  counts words do.
\<close>

subsection \<open>The code\<close>

text \<open>
  start_word_count, on a thread and the text in redhead.txt; the result is what is printed.
\<close>

definition REDHEAD_WORDS :: int where
  "REDHEAD_WORDS = 9317"

definition count_words_once :: "int \<Rightarrow> string option \<Rightarrow> int \<Rightarrow> (int \<times> int) list \<Rightarrow> rt_error + (int \<times> int) list" where
  "count_words_once thread file i out =
     rbind (build_word_tree file) (\<lambda>root.
     rbind (walk_word_tree root False) (\<lambda>(n, _).
     rbind (rassert (REDHEAD_WORDS = n)) (\<lambda>_.
       Inr (if i mod 25 = 0 then out @ [(thread, i)] else out))))"

definition start_word_count :: "int \<Rightarrow> string option \<Rightarrow> int \<Rightarrow> rt_error + (int \<times> int) list" where
  "start_word_count thread file count = rfold (count_words_once thread file) [0..count - 1] []"

text \<open>
  One pass of the outer loop of make_threads: threads are created while fewer than four are
  live. The argument \<open>env\<close> gives what the thread library returns for each thread; \<open>fuel\<close> bounds
  the threads of one pass.
\<close>

record make_state =
  mtable :: thread_table
  total_threads_created :: int
  mprinted :: "(int \<times> int) list"

definition counts_per_thread :: int where
  "counts_per_thread = 5000"

fun make_threads_pass :: "nat \<Rightarrow> (int \<Rightarrow> pthread_env) \<Rightarrow> addr \<Rightarrow> make_state \<Rightarrow> rt_error + make_state" where
  "make_threads_pass 0 env start_word_count_ptr w = Inl Out_of_fuel"
| "make_threads_pass (Suc fuel) env start_word_count_ptr w =
     (if total_threads (mtable w) < 4 then
        rbind (RTpthread_create (env (total_threads_created w)) start_word_count_ptr
                 (word_of_int counts_per_thread) (mtable w)) (\<lambda>(t, err).
          if 0 \<noteq> err then Inl (Debugger ''Thread create failure'')
          else
            (let n = c_long (total_threads_created w + 1);
                 w1 = w\<lparr>mtable := t, total_threads_created := n\<rparr>
             in make_threads_pass fuel env start_word_count_ptr
                  (if n mod 25 = 0 then w1\<lparr>mprinted := mprinted w1 @ [(n, c_long (n * counts_per_thread))]\<rparr> else w1)))
      else Inr w)"

text \<open>
  main, up to the endless rtgc_loop; the result of RTpthread_create is not looked at.
\<close>

definition main_start ::
    "(nat \<Rightarrow> int \<Rightarrow> addr) \<Rightarrow> int \<Rightarrow> int \<Rightarrow> pthread_env \<Rightarrow> addr \<Rightarrow> rt_state \<times> thread_table \<Rightarrow>
     rt_error + rt_state \<times> thread_table" where
  "main_start big_malloc stack_size key_create_result e make_threads_ptr = (\<lambda>(s, t).
     rbind (RTinit_heap big_malloc stack_size key_create_result (2 ^ 23) (2 ^ 18) (s\<lparr>RTatomic_gc := False\<rparr>, t))
       (\<lambda>(s1, t1). rbind (RTpthread_create e make_threads_ptr 0 t1) (\<lambda>(t2, _). Inr (s1, t2))))"

subsection \<open>A thread that counts words\<close>

lemma count_words_once_eq:
  assumes "build_word_tree file = Inr root" and "walk_word_tree root False = Inr (n, out0)"
  shows "count_words_once thread file i out =
    (if n = REDHEAD_WORDS then Inr (if i mod 25 = 0 then out @ [(thread, i)] else out) else Inl Assert_failed)"
  using assms by (simp add: count_words_once_def)

lemma word_count_prints:
  assumes "build_word_tree file = Inr root" and "walk_word_tree root False = Inr (REDHEAD_WORDS, out0)"
  shows "rfold (count_words_once thread file) is out =
    Inr (out @ map (Pair thread) (filter (\<lambda>i. i mod 25 = 0) is))"
  by (induction "is" arbitrary: out) (simp_all add: count_words_once_eq [OF assms])

lemma start_word_count_wrong:
  assumes "build_word_tree file = Inr root" and "walk_word_tree root False = Inr (n, out0)"
    and "n \<noteq> REDHEAD_WORDS" and "0 < count"
  shows "start_word_count thread file count = Inl Assert_failed"
proof -
  have "[0..count - 1] = 0 # [1..count - 1]" using assms(4) by (simp add: upto_rec1)
  then show ?thesis using assms(3) by (simp add: start_word_count_def count_words_once_eq [OF assms(1,2)])
qed

subsection \<open>A pass of make_threads\<close>

lemma make_threads_pass_creates:
  assumes "threads_rep (mtable w) (F1 @ F2) L" and "length F1 + length L = 4"
    and "\<And>n. starts (env n)" and "length F1 < fuel"
    and "0 \<le> total_threads_created w" and "total_threads_created w + int (length F1) < 2 ^ 63"
  shows "\<exists>w'. make_threads_pass fuel env f w = Inr w' \<and> threads_rep (mtable w') F2 (rev F1 @ L) \<and>
    total_threads_created w' = total_threads_created w + int (length F1) \<and>
    (\<forall>i\<in>set F1. th_start_func (threads (mtable w') ! i) = f) \<and>
    (\<forall>j<MAX_THREADS. j \<notin> set F1 \<longrightarrow> threads (mtable w') ! j = threads (mtable w) ! j)"
  using assms
proof (induction F1 arbitrary: w L fuel)
  case Nil
  then have "total_threads (mtable w) = 4" by (simp add: threads_rep_def)
  moreover obtain k where "fuel = Suc k" using Nil.prems(4) by (cases fuel) simp_all
  ultimately show ?case using Nil.prems(1) by simp
next
  case (Cons i F1)
  let ?t = "mtable w" and ?n = "total_threads_created w"
  obtain k where k: "fuel = Suc k" "length F1 < k" using Cons.prems(4) by (cases fuel) simp_all
  have r: "threads_rep ?t (i # F1 @ F2) L" using Cons.prems(1) by simp
  have tot: "total_threads ?t < 4" using r Cons.prems(2) by (simp add: threads_rep_def)
  have free: "free_threads ?t = Some i" "i < length (threads ?t)"
    using r by (simp_all add: threads_rep_def)
  let ?a = "word_of_int counts_per_thread"
  define t' where "t' = create_updates (env ?n) f ?a i ?t"
  have c: "RTpthread_create (env ?n) f ?a ?t = Inr (t', 0)"
    unfolding t'_def by (rule RTpthread_create_eq [OF free Cons.prems(3)])
  have r': "threads_rep t' (F1 @ F2) (i # L)"
    using RTpthread_create_refines [OF r Cons.prems(3), where f = f and a = ?a] c by (metis old.sum.inject(2) prod.inject)
  have n: "c_long (?n + 1) = ?n + 1" using Cons.prems(5,6) by (intro c_long_id) simp_all
  define w1 where "w1 = (let v = w\<lparr>mtable := t', total_threads_created := ?n + 1\<rparr> in
    if (?n + 1) mod 25 = 0 then v\<lparr>mprinted := mprinted v @ [(?n + 1, c_long ((?n + 1) * counts_per_thread))]\<rparr> else v)"
  have w1: "mtable w1 = t'" "total_threads_created w1 = ?n + 1" by (simp_all add: w1_def Let_def)
  have step: "make_threads_pass fuel env f w = make_threads_pass k env f w1"
    using tot c by (simp add: k w1_def Let_def n)
  obtain w' where w': "make_threads_pass k env f w1 = Inr w'" "threads_rep (mtable w') F2 (rev F1 @ i # L)"
    "total_threads_created w' = ?n + 1 + int (length F1)"
    "\<forall>j\<in>set F1. th_start_func (threads (mtable w') ! j) = f"
    "\<forall>j<MAX_THREADS. j \<notin> set F1 \<longrightarrow> threads (mtable w') ! j = threads (mtable w1) ! j"
    using Cons.IH [of w1 "i # L" k] Cons.prems r' k by (auto simp: w1)
  have len: "length (threads ?t) = MAX_THREADS" "i \<notin> set F1" using r by (simp_all add: threads_rep_def)
  have "th_start_func (threads t' ! i) = f" using free by (simp add: t'_def create_updates_def started_thread_def)
  then have "th_start_func (threads (mtable w') ! i) = f" using w'(5) len free by (simp add: w1)
  moreover have "threads (mtable w') ! j = threads ?t ! j" if "j < MAX_THREADS" "j \<notin> set (i # F1)" for j
    using w'(5) that by (simp add: w1) (simp add: t'_def create_updates_def)
  ultimately show ?case using w' by (intro exI [of _ w']) (simp add: step)
qed

end
