(* ===== verification/Byte_Barrier.thy ===== *)
theory Byte_Barrier
  imports Write_Barrier "HOL-Library.Signed_Division"
begin

text \<open>
  The other write vector of rtgc.c, compiled when USE_BIT_WRITE_BARRIER is 0: a byte per 32
  bytes of the partition instead of a bit. The lemmas show that it is the vector of bits
  with every bit in a byte of its own: both record the same objects, and both scans gray
  the same objects in the same order.
\<close>

subsection \<open>The code\<close>

definition byte_mark_write_vector :: "rt_state \<Rightarrow> addr \<Rightarrow> (int \<Rightarrow> 8 word) \<Rightarrow> int \<Rightarrow> 8 word" where
  "byte_mark_write_vector s gcptr v =
     (let index = sint (gcptr - first_partition_ptr s) sdiv MIN_GROUP_SIZE in v(index := 1))"

text \<open>The body of the loop of scan_write_vector, on the state, the vector and mark_count.\<close>

definition scan_write_byte ::
    "int \<Rightarrow> (rt_state \<times> (int \<Rightarrow> 8 word)) \<times> int \<Rightarrow> rt_error + (rt_state \<times> (int \<Rightarrow> 8 word)) \<times> int" where
  "scan_write_byte index = (\<lambda>((s, v), mark_count).
     if v index = 1 then
       (let gcptr = first_partition_ptr s + word_of_int (index * MIN_GROUP_SIZE); v1 = v(index := 0)
        in rbind (if WHITEP (unmarked_color s) (memory s) gcptr then RTmake_object_gray gcptr s else Inr s)
             (\<lambda>s1. Inr ((s1, v1), mark_count + 1)))
     else Inr ((s, v), mark_count))"

definition byte_scan_write_vector ::
    "nat \<Rightarrow> rt_state \<Rightarrow> (int \<Rightarrow> 8 word) \<Rightarrow> rt_error + (rt_state \<times> (int \<Rightarrow> 8 word)) \<times> int" where
  "byte_scan_write_vector vector_length s v = rfold scan_write_byte (map int [0..<vector_length]) ((s, v), 0)"

subsection \<open>Two loops side by side\<close>

text \<open>Two results that are related, or the same error.\<close>

definition both :: "('a \<Rightarrow> 'b \<Rightarrow> bool) \<Rightarrow> rt_error + 'a \<Rightarrow> rt_error + 'b \<Rightarrow> bool" where
  "both R x y \<longleftrightarrow> (case (x, y) of (Inl e, Inl f) \<Rightarrow> e = f | (Inr a, Inr b) \<Rightarrow> R a b | _ \<Rightarrow> False)"

lemma both_simps [simp]:
  "both R (Inl e) (Inl f) \<longleftrightarrow> e = f" "both R (Inr a) (Inr b) \<longleftrightarrow> R a b"
  "\<not> both R (Inl e) (Inr b)" "\<not> both R (Inr a) (Inl f)"
  by (simp_all add: both_def)

lemma both_rbind:
  assumes "both R x y" and "\<And>a b. R a b \<Longrightarrow> both Q (f a) (g b)"
  shows "both Q (rbind x f) (rbind y g)"
  using assms by (cases x; cases y) simp_all

lemma both_rfold:
  assumes "\<And>w a b. w \<in> set ws \<Longrightarrow> R a b \<Longrightarrow> both R (f w a) (g (h w) b)" and "R a b"
  shows "both R (rfold f ws a) (rfold g (map h ws) b)"
  using assms
proof (induction ws arbitrary: a b)
  case (Cons w ws)
  show ?case using Cons.prems by (auto intro!: both_rbind Cons.IH)
qed simp

lemma rfold_concat: "rfold (\<lambda>i. rfold (f i) (ws i)) is s = rfold (\<lambda>(i, w). f i w) (concat (map (\<lambda>i. map (Pair i) (ws i)) is)) s"
proof (induction "is" arbitrary: s)
  case (Cons i "is")
  have "rfold (\<lambda>(i, w). f i w) (map (Pair i) vs) s = rfold (f i) vs s" for vs s
    by (induction vs arbitrary: s) (auto simp: rbind_def split: sum.splits)
  moreover have "rfold (\<lambda>i. rfold (f i) (ws i)) is = rfold (\<lambda>(i, w). f i w) (concat (map (\<lambda>i. map (Pair i) (ws i)) is))"
    by (rule ext) (rule Cons.IH)
  ultimately show ?case by (simp add: rfold_append)
qed simp

subsection \<open>A bit and a byte\<close>

definition vectors_agree :: "rt_state \<Rightarrow> (int \<Rightarrow> 8 word) \<Rightarrow> bool" where
  "vectors_agree s v \<longleftrightarrow> (\<forall>index b. b < 64 \<longrightarrow> bit (RTwrite_vector s index) b = (v (index * 64 + int b) = 1))"

definition byte_state :: "rt_state \<times> int \<Rightarrow> (rt_state \<times> (int \<Rightarrow> 8 word)) \<times> int \<Rightarrow> bool" where
  "byte_state = (\<lambda>(s, n) ((t, v), k). t = s\<lparr>RTwrite_vector := RTwrite_vector t\<rparr> \<and> vectors_agree s v \<and> n = k)"

lemma slot_number_inject:
  assumes "b < 64" and "c < 64"
  shows "(i :: int) * 64 + int b = j * 64 + int c \<longleftrightarrow> i = j \<and> b = c"
proof -
  have "(i * 64 + int b) div 64 = i" "(j * 64 + int c) div 64 = j" using assms by simp_all
  then have "i * 64 + int b = j * 64 + int c \<Longrightarrow> i = j" by metis
  then show ?thesis by auto
qed

lemma RTmake_object_gray_vector:
  "both (\<lambda>s1 t1. t1 = s1\<lparr>RTwrite_vector := v\<rparr> \<and> RTwrite_vector s1 = RTwrite_vector s)
     (RTmake_object_gray x s) (RTmake_object_gray x (s\<lparr>RTwrite_vector := v\<rparr>))"
proof -
  have g: "PTR_TO_GROUP (s\<lparr>RTwrite_vector := v\<rparr>) x = PTR_TO_GROUP s x"
    by (simp add: PTR_TO_GROUP_def PTR_TO_PAGE_INDEX_def)
  show ?thesis
  proof (cases "PTR_TO_GROUP s x")
    case (Group i)
    then show ?thesis
      by (cases "make_object_gray (unmarked_color s) (memory s) (groups s i) x")
        (auto simp: RTmake_object_gray_def g on_group_def)
  qed (simp_all add: RTmake_object_gray_def g)
qed

lemma scan_write_bit_byte:
  assumes b: "b < 64" and R: "byte_state sn tvk"
  shows "both byte_state (scan_write_bit index b sn) (scan_write_byte (index * 64 + int b) tvk)"
proof -
  obtain s n t v where e: "sn = (s, n)" "tvk = ((t, v), n)" "t = s\<lparr>RTwrite_vector := RTwrite_vector t\<rparr>" "vectors_agree s v"
    using R by (cases sn, cases tvk) (auto simp: byte_state_def)
  let ?x = "slot_ptr s index b" and ?j = "index * 64 + int b"
  have set: "RTwrite_vector s index AND push_bit b 1 \<noteq> 0 \<longleftrightarrow> v ?j = 1"
    using e(4) b by (simp add: vectors_agree_def bit_iff_and_push_bit_not_eq_0 del: push_bit_of_1)
  have ptr: "first_partition_ptr t + word_of_int (?j * MIN_GROUP_SIZE) = ?x"
    by (subst e(3)) (simp add: slot_ptr_def config_defs BITS_PER_LONG_def algebra_simps flip: wi_hom_add wi_hom_mult)
  have white: "WHITEP (unmarked_color t) (memory t) ?x = WHITEP (unmarked_color s) (memory s) ?x"
    by (subst (1 2) e(3)) simp
  have clear: "vectors_agree (s1\<lparr>RTwrite_vector := (RTwrite_vector s)(index := RTwrite_vector s index AND NOT (push_bit b 1))\<rparr>)
      (v(?j := 0))" for s1
    using e(4) b by (auto simp: vectors_agree_def slot_number_inject bit_and_iff bit_not_iff bit_push_bit_iff bit_1_iff
        simp del: push_bit_of_1)
  have "both (\<lambda>s1 t1. t1 = s1\<lparr>RTwrite_vector := RTwrite_vector t\<rparr> \<and> RTwrite_vector s1 = RTwrite_vector s)
      (if WHITEP (unmarked_color s) (memory s) ?x then RTmake_object_gray ?x s else Inr s)
      (if WHITEP (unmarked_color s) (memory s) ?x then RTmake_object_gray ?x t else Inr t)"
    using RTmake_object_gray_vector [where s = s and x = ?x and v = "RTwrite_vector t"] e(3) by simp
  then show ?thesis
    using e set
    unfolding scan_write_bit_def scan_write_byte_def e(1,2) prod.case Let_def ptr white
    by (auto simp: byte_state_def clear simp del: push_bit_of_1 intro!: both_rbind)
qed

subsection \<open>The two vectors\<close>

lemma scan_write_long_bits: "scan_write_long index sn = rfold (scan_write_bit index) [0..<64] sn"
proof (cases "RTwrite_vector (fst sn) index = 0")
  case True
  have "rfold (scan_write_bit index) bs sn = Inr sn" for bs
    using True by (induction bs) (auto simp: scan_write_bit_def split: prod.splits)
  then show ?thesis using True by (cases sn) (simp add: scan_write_long_def)
next
  case False
  then show ?thesis by (cases sn) (simp add: scan_write_long_def BITS_PER_LONG_def)
qed

lemma byte_indices:
  "map int [0..<64 * n] = map (\<lambda>(i, b). i * 64 + int b) (concat (map (\<lambda>i. map (Pair i) [0..<64]) (map int [0..<n])))"
proof (induction n)
  case (Suc n)
  have "[0..<64 * Suc n] = [0..<64 * n] @ map (\<lambda>b. 64 * n + b) [0..<64]"
    using upt_add_eq_append [of 0 "64 * n" 64] map_add_upt [of "64 * n" 64] by (simp add: add.commute)
  then show ?case using Suc by (simp add: comp_def algebra_simps)
qed simp

lemma scan_write_vectors_agree:
  assumes "vectors_agree s v"
  shows "both byte_state (scan_write_vector s)
    (byte_scan_write_vector (64 * nat (RTwrite_vector_length s)) (s\<lparr>RTwrite_vector := u\<rparr>) v)"
proof -
  let ?is = "map int [0..<nat (RTwrite_vector_length s)]"
  let ?ws = "concat (map (\<lambda>i. map (Pair i) [0..<64]) ?is)"
  have "scan_write_vector s = rfold (\<lambda>i. rfold (scan_write_bit i) [0..<64]) ?is (s, 0)"
    unfolding scan_write_vector_def by (rule rfold_cong) (rule scan_write_long_bits)
  also have "\<dots> = rfold (\<lambda>(i, b). scan_write_bit i b) ?ws (s, 0)" by (rule rfold_concat)
  finally have bits: "scan_write_vector s = rfold (\<lambda>(i, b). scan_write_bit i b) ?ws (s, 0)" .
  show ?thesis
    unfolding bits byte_scan_write_vector_def byte_indices
  proof (rule both_rfold)
    show "byte_state (s, 0) ((s\<lparr>RTwrite_vector := u\<rparr>, v), 0)" using assms by (simp add: byte_state_def)
    fix w a b assume "w \<in> set ?ws" and R: "byte_state a b"
    then obtain i c where "w = (i, c)" "c < 64" by auto
    then show "both byte_state ((\<lambda>(i, b). scan_write_bit i b) w a) (scan_write_byte ((\<lambda>(i, b). i * 64 + int b) w) b)"
      using scan_write_bit_byte [OF _ R] by simp
  qed
qed

lemma mark_write_vectors_agree:
  assumes "vectors_agree s v" and "layout_ok s" and "IN_PARTITION s x"
  shows "\<exists>s1. mark_write_vector x s = Inr s1 \<and> vectors_agree s1 (byte_mark_write_vector s x v)"
proof -
  let ?f = "first_partition_ptr s" and ?o = "uint (x - first_partition_ptr s)"
  have le: "?f \<le> x" using assms(3) by (simp add: IN_PARTITION_def)
  have o: "0 \<le> ?o" "?o < 2 ^ 63"
  proof -
    have "?o = uint x - uint ?f" using le by (simp add: uint_sub_if' word_le_def)
    moreover have "uint x < 2 ^ 47" using assms(2,3) by (auto simp: layout_ok_def IN_PARTITION_def word_less_def)
    moreover have "0 \<le> uint ?f" by simp
    ultimately have "?o < 2 ^ 47" by linarith
    then show "?o < 2 ^ 63" by simp
  qed simp
  then have "sint (x - ?f) = ?o" by (intro sint_eq_uint_small) simp
  moreover have "?o sdiv 32 = ?o div 32" using o by (cases "x = ?f") (simp_all add: signed_divide_int_def)
  moreover have "?o div 32 = slot_index s x * 64 + int (slot_bit s x)"
  proof -
    have "k div 32 = k div 2048 * 64 + k mod 2048 div 32" for k :: int
    proof -
      have "k mod 2048 = 32 * (k div 32 mod 64) + k mod 32" using zmod_zmult2_eq [of 64 k 32] by simp
      moreover have "k div 2048 = k div 32 div 64" using zdiv_zmult2_eq [of 64 k 32] by simp
      moreover have "(32 * c + k mod 32) div 32 = c" for c by simp
      ultimately show ?thesis using div_mult_mod_eq [of "k div 32" 64] by (simp only:)
    qed
    from this [of ?o] show ?thesis by (simp add: slot_index_def slot_bit_def)
  qed
  ultimately have v: "byte_mark_write_vector s x v = v(slot_index s x * 64 + int (slot_bit s x) := 1)"
    by (simp add: byte_mark_write_vector_def config_defs)
  show ?thesis
    unfolding mark_write_vector_eq v
    using assms(1) slot_bit_less [of s x]
    by (auto simp: vectors_agree_def slot_number_inject bit_or_iff bit_push_bit_iff bit_1_iff simp del: push_bit_of_1)
qed

end
