(* ===== verification/Util.thy ===== *)
theory Util
  imports Collection
begin

text \<open>
  The utilities of rtutil.c: counters with waiters, differences of times, the check of the
  white counts, and the ring of objects to finalize. A wait for a condition is an option:
  \<open>None\<close> when the caller would go on waiting in this state.
\<close>

subsection \<open>Counters\<close>

record counter =
  count :: int

definition counter_init :: "counter \<Rightarrow> counter" where
  "counter_init c = c\<lparr>count := 0\<rparr>"

definition counter_zero :: "counter \<Rightarrow> counter \<times> int" where
  "counter_zero c = (c\<lparr>count := 0\<rparr>, 0)"

definition counter_increment :: "counter \<Rightarrow> counter \<times> int" where
  "counter_increment c = (let val = c_int (count c + 1) in (c\<lparr>count := val\<rparr>, val))"

definition counter_wait_threshold :: "int \<Rightarrow> counter \<Rightarrow> counter option" where
  "counter_wait_threshold threshold c = (if count c < threshold then None else Some c)"

text \<open>After as many increments as the threshold says nobody waits, and not before.\<close>

primrec increments :: "nat \<Rightarrow> counter \<Rightarrow> counter" where
  "increments 0 c = c"
| "increments (Suc n) c = fst (counter_increment (increments n c))"

lemma count_increments:
  assumes "n < 2 ^ 31"
  shows "count (increments n (fst (counter_zero c))) = int n"
  using assms
proof (induction n)
  case (Suc n)
  then have "c_int (int n + 1) = int n + 1" by (intro c_int_id) simp_all
  then show ?case using Suc by (simp add: counter_increment_def Let_def)
qed (simp add: counter_zero_def)

subsection \<open>Times\<close>

record timespec =
  tv_sec :: int
  tv_nsec :: int

definition RTtime_diff :: "timespec \<Rightarrow> timespec \<Rightarrow> timespec" where
  "RTtime_diff end_time start_time =
     (if c_long (tv_nsec end_time - tv_nsec start_time) < 0
      then \<lparr>tv_sec = c_long (tv_sec end_time - tv_sec start_time - 1),
            tv_nsec = c_long (1000000000 + tv_nsec end_time - tv_nsec start_time)\<rparr>
      else \<lparr>tv_sec = c_long (tv_sec end_time - tv_sec start_time),
            tv_nsec = c_long (tv_nsec end_time - tv_nsec start_time)\<rparr>)"

definition RTtime_cmp :: "timespec \<Rightarrow> timespec \<Rightarrow> bool" where
  "RTtime_cmp a b = (if tv_sec a = tv_sec b then tv_nsec b < tv_nsec a else tv_sec b < tv_sec a)"

definition nanos :: "timespec \<Rightarrow> int" where
  "nanos t = tv_sec t * 1000000000 + tv_nsec t"

definition time_ok :: "timespec \<Rightarrow> bool" where
  "time_ok t \<longleftrightarrow> \<bar>tv_sec t\<bar> < 2 ^ 62 - 1 \<and> 0 \<le> tv_nsec t \<and> tv_nsec t < 1000000000"

lemma RTtime_diff_nanos:
  assumes "time_ok a" and "time_ok b"
  shows "nanos (RTtime_diff a b) = nanos a - nanos b"
    and "0 \<le> tv_nsec (RTtime_diff a b) \<and> tv_nsec (RTtime_diff a b) < 1000000000"
proof -
  have n: "c_long (tv_nsec a - tv_nsec b) = tv_nsec a - tv_nsec b"
      "c_long (1000000000 + tv_nsec a - tv_nsec b) = 1000000000 + tv_nsec a - tv_nsec b"
    using assms by (auto simp: time_ok_def intro!: c_long_id)
  have s: "c_long (tv_sec a - tv_sec b) = tv_sec a - tv_sec b"
      "c_long (tv_sec a - tv_sec b - 1) = tv_sec a - tv_sec b - 1"
    using assms by (auto simp: time_ok_def intro!: c_long_id)
  show "nanos (RTtime_diff a b) = nanos a - nanos b"
    by (simp add: RTtime_diff_def n s nanos_def left_diff_distrib)
  show "0 \<le> tv_nsec (RTtime_diff a b) \<and> tv_nsec (RTtime_diff a b) < 1000000000"
    using assms by (simp add: RTtime_diff_def n time_ok_def)
qed

lemma RTtime_cmp_nanos:
  assumes "time_ok a" and "time_ok b"
  shows "RTtime_cmp a b \<longleftrightarrow> nanos b < nanos a"
  using assms by (auto simp: RTtime_cmp_def nanos_def time_ok_def)

subsection \<open>The check of the white counts\<close>

text \<open>C's remainder is zero where HOL's is.\<close>

fun verify_white_loop :: "nat \<Rightarrow> mem \<Rightarrow> group_info \<Rightarrow> addr \<Rightarrow> int \<Rightarrow> rt_error + int" where
  "verify_white_loop 0 m g ptr n = Inl Out_of_fuel"
| "verify_white_loop (Suc fuel) m g ptr n =
     (if ptr \<noteq> 0 then
        rbind
          (if gsize g < BYTES_PER_PAGE \<and>
              (sint (get_prev m ptr) mod gsize g \<noteq> 0 \<or> sint (get_next m ptr) mod gsize g \<noteq> 0)
           then Inl (Debugger ''Bad gchdr'') else Inr ())
          (\<lambda>_. verify_white_loop fuel m g (get_next m ptr) (c_int (n + 1)))
      else Inr n)"

definition verify_white_count :: "nat \<Rightarrow> nat \<Rightarrow> rt_state \<Rightarrow> rt_error + rt_state" where
  "verify_white_count fuel i s =
     rbind (verify_white_loop fuel (memory s) (groups s i) (gwhite (groups s i)) 0) (\<lambda>n.
       if white_count (groups s i) \<noteq> n then Inl (Debugger ''incorrect white_count'') else Inr s)"

definition verify_white_counts :: "nat \<Rightarrow> rt_state \<Rightarrow> rt_error + rt_state" where
  "verify_white_counts fuel s = rfold (verify_white_count fuel) [MIN_GROUP_INDEX..<Suc MAX_GROUP_INDEX] s"

lemma small_object_aligned:
  assumes lay: "layout_ok s" and go: "groups_ok s" and geo: "geometry s Ob"
    and i: "i \<in> group_indices" "i < PAGE_POWER" and x: "x \<in> Ob i"
  shows "uint x mod 2 ^ i = 0"
proof (rule ccontr)
  let ?y = "interior_to_gcptr_3 x (pages s (PTR_TO_PAGE_INDEX s x)) (groups s i)"
  assume "uint x mod 2 ^ i \<noteq> 0"
  moreover have p: "(0 :: int) < 2 ^ i" by simp
  ultimately have r: "0 < uint x mod 2 ^ i" "uint x mod 2 ^ i < 2 ^ i"
    using pos_mod_sign [OF p, of "uint x"] pos_mod_bound [OF p, of "uint x"] by linarith+
  have y: "uint ?y = uint x - uint x mod 2 ^ i" by (rule interior_small [OF go i])
  then have "x \<noteq> ?y" using r by (metis less_irrefl diff_eq_eq add_cancel_right_right)
  moreover have "?y \<in> Ob i" using geometryD(1,2,5) [OF geo] i(1) x by blast
  ultimately have "uint x + 2 ^ i \<le> uint ?y \<or> uint ?y + 2 ^ i \<le> uint x"
    using geometryD(6) [OF geo i(1) i(1) x] by blast
  then show False using y r by linarith
qed

lemma verify_white_loop_counts:
  assumes "dseg m a xs 0" and "headers_ok (set xs)" and "length xs < fuel" and "0 \<le> n" "n + int (length xs) < 2 ^ 31"
    and "gsize g < BYTES_PER_PAGE \<Longrightarrow> \<forall>x\<in>insert a (set xs). sint x mod gsize g = 0"
  shows "verify_white_loop fuel m g (hd_or xs 0) n = Inr (n + int (length xs))"
  using assms
proof (induction xs arbitrary: a n fuel)
  case Nil
  then show ?case by (cases fuel) simp_all
next
  case (Cons x xs)
  obtain k where k: "fuel = Suc k" using Cons.prems(3) by (cases fuel) auto
  have x: "x \<noteq> 0" "get_prev m x = a" "get_next m x = hd_or xs 0" "c_int (n + 1) = n + 1"
    using Cons.prems by (auto intro!: c_int_id)
  have "hd_or xs 0 \<in> set xs \<or> hd_or xs 0 = 0" using hd_or_cases [of xs 0] by auto
  then have "gsize g < BYTES_PER_PAGE \<Longrightarrow> sint a mod gsize g = 0 \<and> sint (hd_or xs 0) mod gsize g = 0"
    using Cons.prems(6) by auto
  moreover have "verify_white_loop k m g (hd_or xs 0) (n + 1) = Inr (n + 1 + int (length xs))"
    using Cons.prems k by (intro Cons.IH [of x]) auto
  ultimately show ?case using x k by auto
qed

text \<open>During a collection the check finds nothing wrong.\<close>

lemma verify_white_count_accepts:
  assumes rep: "heap_marking s A" and i: "i \<in> group_indices" and f: "length (whites (A i)) < fuel" "fuel < 2 ^ 31"
  shows "verify_white_count fuel i s = Inr s"
proof -
  note h = heap_repD [OF rep]
  have m: "group_rep (marked_color s) (unmarked_color s) (memory s) (groups s i) (A i)"
    using h(5) [OF i] by (simp add: marking_rep_def)
  have d: "dseg (memory s) 0 (whites (A i)) 0" "gwhite (groups s i) = hd_or (whites (A i)) 0"
    "white_count (groups s i) = int (length (whites (A i)))" "headers_ok (set (whites (A i)))"
    using m by (auto simp: group_rep_def dlist_def objects_def headers_ok_def)
  have g: "gsize (groups s i) = 2 ^ i" using h(3) i by (simp add: groups_ok_def)
  have al: "\<forall>x\<in>insert 0 (set (whites (A i))). sint x mod gsize (groups s i) = 0"
    if "gsize (groups s i) < BYTES_PER_PAGE"
  proof -
    have "i < PAGE_POWER" using that large_size [of i] by (auto simp: g not_le [symmetric])
    moreover have "sint x = uint x" if "x \<in> set (whites (A i))" for x
    proof -
      have "x \<in> object_set A i" using that by (auto simp: object_set_def objects_def)
      then have "uint x + 2 ^ i \<le> uint (last_partition_ptr s)" by (rule geometryD(3) [OF h(4) i])
      moreover have "uint (last_partition_ptr s) \<le> 2 ^ 47" "(0 :: int) < 2 ^ i" using h(1) by (simp_all add: layout_ok_def)
      ultimately have "uint x < 2 ^ 47" by linarith
      then have "uint x < 2 ^ 63" by simp
      then show ?thesis by (rule sint_eq_uint_small)
    qed
    ultimately show ?thesis
      using small_object_aligned [OF h(1,3,4) i] by (auto simp: g object_set_def objects_def)
  qed
  have "verify_white_loop fuel (memory s) (groups s i) (hd_or (whites (A i)) 0) 0 = Inr (0 + int (length (whites (A i))))"
    using f by (intro verify_white_loop_counts [OF d(1,4)] al) simp_all
  then show ?thesis by (simp add: verify_white_count_def d)
qed

lemma verify_white_counts_accepts:
  assumes "heap_marking s A" and "\<And>i. i \<in> group_indices \<Longrightarrow> length (whites (A i)) < fuel" and "fuel < 2 ^ 31"
  shows "verify_white_counts fuel s = Inr s"
proof -
  have "rfold (verify_white_count fuel) is s = Inr s" if "set is \<subseteq> group_indices" for "is"
    using that by (induction "is") (use verify_white_count_accepts [OF assms(1) _ assms(2,3)] in simp_all)
  moreover have "set [MIN_GROUP_INDEX..<Suc MAX_GROUP_INDEX] \<subseteq> group_indices" by (auto simp: group_indices_def)
  ultimately show ?thesis unfolding verify_white_counts_def by blast
qed

subsection \<open>The ring of objects to finalize\<close>

definition FINALIZE_RING_SIZE :: "64 word" where "FINALIZE_RING_SIZE = push_bit 16 1"
definition FINALIZE_RING_MASK :: "64 word" where "FINALIZE_RING_MASK = FINALIZE_RING_SIZE - 1"

record finalize_ring =
  finalize_head :: "64 word"
  finalize_tail :: "64 word"
  ring_slots :: "64 word \<Rightarrow> addr"

definition finalize_add :: "addr \<Rightarrow> finalize_ring \<Rightarrow> finalize_ring option" where
  "finalize_add obj r =
     (if finalize_head r < finalize_tail r + FINALIZE_RING_SIZE then None
      else Some (r\<lparr>ring_slots := (ring_slots r)(finalize_head r AND FINALIZE_RING_MASK := obj),
                   finalize_head := finalize_head r + 1\<rparr>))"

text \<open>The object that is taken out is not returned.\<close>

definition finalize_remove :: "finalize_ring \<Rightarrow> finalize_ring option" where
  "finalize_remove r =
     (if finalize_tail r = finalize_head r then None else Some (r\<lparr>finalize_tail := finalize_tail r + 1\<rparr>))"

definition finalize_init :: "finalize_ring \<Rightarrow> finalize_ring" where
  "finalize_init r = r\<lparr>finalize_head := 0, finalize_tail := 0\<rparr>"

inductive finalize_step :: "finalize_ring \<Rightarrow> finalize_ring \<Rightarrow> bool" where
  added: "finalize_add obj r = Some r' \<Longrightarrow> finalize_step r r'"
| removed: "finalize_remove r = Some r' \<Longrightarrow> finalize_step r r'"

inductive_cases finalize_stepE: "finalize_step r r'"

text \<open>The test for a full ring is the wrong way round: an empty ring counts as full.\<close>

lemma finalize_init_blocked:
  "finalize_add obj (finalize_init r) = None" "finalize_remove (finalize_init r) = None"
  by (simp_all add: finalize_add_def finalize_remove_def finalize_init_def FINALIZE_RING_SIZE_def)

lemma finalize_stuck: "finalize_step\<^sup>*\<^sup>* (finalize_init r) r' \<Longrightarrow> r' = finalize_init r"
  by (induction rule: rtranclp_induct) (auto elim!: finalize_stepE simp: finalize_init_blocked)

end
