(* ===== verification/Signal_Timing.thy ===== *)
theory Signal_Timing
  imports Util
begin

text \<open>
  The benchmark sigtime.c: one thread reads the clock in a busy loop while the first thread
  interrupts it with signals and waits for each to be handled. The two loops and the handler
  are a step relation; the numbers the busy loop prints are a function of the clock. A
  signal that is pending is not queued a second time, and cannot be delivered to a thread
  that has ended.
\<close>

subsection \<open>The busy loops\<close>

definition SAMPLE_COUNT :: nat where
  "SAMPLE_COUNT = 6005"

text \<open>The copy of RTtime_diff in sigtime.c.\<close>

definition sigtime_RTtime_diff :: "timespec \<Rightarrow> timespec \<Rightarrow> timespec" where
  "sigtime_RTtime_diff end_time start_time =
     (if c_long (tv_nsec end_time - tv_nsec start_time) < 0 then
        \<lparr>tv_sec = c_long (tv_sec end_time - tv_sec start_time - 1),
         tv_nsec = c_long (1000000000 + tv_nsec end_time - tv_nsec start_time)\<rparr>
      else
        \<lparr>tv_sec = c_long (tv_sec end_time - tv_sec start_time),
         tv_nsec = c_long (tv_nsec end_time - tv_nsec start_time)\<rparr>)"

text \<open>
  ns_busy_loop prints the nanoseconds of the differences of readings that follow each other;
  the readings are \<open>clock 0\<close>, \<open>clock 1\<close> and so on, as clock_gettime stores them.
\<close>

definition ns_busy_loop :: "(nat \<Rightarrow> timespec) \<Rightarrow> int list" where
  "ns_busy_loop clock =
     map (\<lambda>i. tv_nsec (sigtime_RTtime_diff (clock (i + 1)) (clock i))) [0..<SAMPLE_COUNT - 1]"

text \<open>us_busy_loop has microseconds, the macro timersub, and leaves out the first five readings.\<close>

record timeval =
  tval_sec :: int
  tval_usec :: int

definition timersub :: "timeval \<Rightarrow> timeval \<Rightarrow> timeval" where
  "timersub a b =
     (let s = c_long (tval_sec a - tval_sec b); u = c_long (tval_usec a - tval_usec b)
      in if u < 0 then \<lparr>tval_sec = c_long (s - 1), tval_usec = c_long (u + 1000000)\<rparr>
         else \<lparr>tval_sec = s, tval_usec = u\<rparr>)"

definition us_busy_loop :: "(nat \<Rightarrow> timeval) \<Rightarrow> int list" where
  "us_busy_loop clock = map (\<lambda>i. tval_usec (timersub (clock (i + 1)) (clock i))) [5..<SAMPLE_COUNT - 1]"

subsection \<open>Signals\<close>

definition SIGNALS :: nat where
  "SIGNALS = 50"

text \<open>
  The sender: before send_loop, at the head of its loop, waiting in turn \<open>i\<close> for the counter
  to reach next_count, or behind the loop. The receiver: waiting for the flag, behind \<open>k\<close>
  readings, or ended.
\<close>

datatype sender = Not_sending | Send nat | Waiting nat int | Sent

datatype receiver = Spinning | Reading nat | Ended

record signal_world =
  flag :: int
  sig_counter :: int
  sender :: sender
  receiver :: receiver
  pending :: bool

inductive sender_step :: "signal_world \<Rightarrow> signal_world \<Rightarrow> bool" where
  start_sending: "sender w = Not_sending \<Longrightarrow>
    sender_step w (w\<lparr>sig_counter := 0, flag := 1, sender := Send 0\<rparr>)"
| send: "sender w = Send i \<Longrightarrow> i < SIGNALS \<Longrightarrow>
    sender_step w (w\<lparr>pending := (pending w \<or> receiver w \<noteq> Ended),
      sender := Waiting i (c_long (sig_counter w + 1))\<rparr>)"
| handled: "sender w = Waiting i next_count \<Longrightarrow> next_count \<le> sig_counter w \<Longrightarrow>
    sender_step w (w\<lparr>sender := Send (i + 1)\<rparr>)"
| all_sent: "sender w = Send i \<Longrightarrow> SIGNALS \<le> i \<Longrightarrow> sender_step w (w\<lparr>sender := Sent\<rparr>)"

inductive receiver_step :: "signal_world \<Rightarrow> signal_world \<Rightarrow> bool" where
  start_reading: "receiver w = Spinning \<Longrightarrow> flag w \<noteq> 0 \<Longrightarrow> receiver_step w (w\<lparr>receiver := Reading 0\<rparr>)"
| read_clock: "receiver w = Reading k \<Longrightarrow> k < SAMPLE_COUNT \<Longrightarrow>
    receiver_step w (w\<lparr>receiver := Reading (k + 1)\<rparr>)"
| end_reading: "receiver w = Reading k \<Longrightarrow> SAMPLE_COUNT \<le> k \<Longrightarrow>
    receiver_step w (w\<lparr>flag := 0, receiver := Ended, pending := False\<rparr>)"
| handler_func: "receiver w \<noteq> Ended \<Longrightarrow> pending w \<Longrightarrow>
    receiver_step w (w\<lparr>sig_counter := c_long (sig_counter w + 1), pending := False\<rparr>)"

definition timing_start :: signal_world where
  "timing_start = \<lparr>flag = 0, sig_counter = 0, sender = Not_sending, receiver = Spinning, pending = False\<rparr>"

inductive timing_reachable :: "signal_world \<Rightarrow> bool" where
  timing_begins: "timing_reachable timing_start"
| by_sender: "timing_reachable w \<Longrightarrow> sender_step w w' \<Longrightarrow> timing_reachable w'"
| by_receiver: "timing_reachable w \<Longrightarrow> receiver_step w w' \<Longrightarrow> timing_reachable w'"

subsection \<open>Every signal is counted once\<close>

text \<open>The signals the sender has seen handled, and the one it waits for.\<close>

fun turn_ok :: "sender \<Rightarrow> int \<Rightarrow> bool \<Rightarrow> bool" where
  "turn_ok Not_sending c p \<longleftrightarrow> c = 0 \<and> \<not> p"
| "turn_ok (Send i) c p \<longleftrightarrow> i \<le> SIGNALS \<and> c = int i \<and> \<not> p"
| "turn_ok (Waiting i next_count) c p \<longleftrightarrow>
     i < SIGNALS \<and> next_count = int i + 1 \<and> (c = int i \<or> c = int i + 1 \<and> \<not> p)"
| "turn_ok Sent c p \<longleftrightarrow> c = int SIGNALS \<and> \<not> p"

definition timing_ok :: "signal_world \<Rightarrow> bool" where
  "timing_ok w \<longleftrightarrow> turn_ok (sender w) (sig_counter w) (pending w) \<and>
     (\<forall>i n. sender w = Waiting i n \<longrightarrow> \<not> pending w \<longrightarrow> sig_counter w < n \<longrightarrow> receiver w = Ended) \<and>
     (sender w = Not_sending \<longrightarrow> receiver w = Spinning \<and> flag w = 0)"

lemma c_long_next: "i < SIGNALS \<Longrightarrow> c_long (int i + 1) = int i + 1"
  by (intro c_long_id) (simp_all add: SIGNALS_def)

lemma sender_step_ok:
  assumes "timing_ok w" and "sender_step w w'"
  shows "timing_ok w'"
  using assms(2)
proof cases
  case (send i)
  then show ?thesis using assms(1) by (auto simp: timing_ok_def c_long_next)
qed (use assms(1) in \<open>auto simp: timing_ok_def\<close>)

lemma receiver_step_ok:
  assumes "timing_ok w" and "receiver_step w w'"
  shows "timing_ok w'"
  using assms(2)
proof cases
  case handler_func
  then show ?thesis using assms(1) by (cases "sender w") (auto simp: timing_ok_def c_long_next)
next
  case (end_reading k)
  then show ?thesis using assms(1) by (cases "sender w") (auto simp: timing_ok_def)
qed (use assms(1) in \<open>auto simp: timing_ok_def\<close>)

lemma timing_reachable_ok: "timing_reachable w \<Longrightarrow> timing_ok w"
proof (induction rule: timing_reachable.induct)
  case timing_begins
  then show ?case by (simp add: timing_ok_def timing_start_def)
qed (blast intro: sender_step_ok receiver_step_ok)+

text \<open>The readings run on without the sender.\<close>

lemma readings_run:
  assumes "timing_reachable w" and "receiver w = Reading 0" and "k \<le> SAMPLE_COUNT"
  shows "timing_reachable (w\<lparr>receiver := Reading k\<rparr>)"
  using assms(3)
proof (induction k)
  case 0
  then show ?case using assms(1,2) by (metis signal_world.surjective signal_world.update_convs(4))
next
  case (Suc k)
  let ?w = "w\<lparr>receiver := Reading k\<rparr>"
  have "receiver_step ?w (?w\<lparr>receiver := Reading (k + 1)\<rparr>)"
    using Suc.prems by (intro receiver_step.read_clock) simp_all
  then have "timing_reachable (?w\<lparr>receiver := Reading (k + 1)\<rparr>)" using Suc by (auto intro: by_receiver)
  then show ?case by simp
qed

text \<open>
  If all readings are made before the next signal, the sender waits for a thread that has
  ended.
\<close>

lemma sender_stuck:
  obtains w where "timing_reachable w" and "sender w = Waiting 0 1" and "receiver w = Ended"
    and "sig_counter w = 0" and "\<not> pending w"
proof -
  let ?w1 = "timing_start\<lparr>sig_counter := 0, flag := 1, sender := Send 0\<rparr>"
  have "sender_step timing_start ?w1" by (rule sender_step.start_sending) (simp add: timing_start_def)
  then have r1: "timing_reachable ?w1" by (rule by_sender [OF timing_begins])
  let ?w2 = "?w1\<lparr>receiver := Reading 0\<rparr>"
  have "receiver_step ?w1 ?w2" by (rule receiver_step.start_reading) (simp_all add: timing_start_def)
  then have "timing_reachable ?w2" by (rule by_receiver [OF r1])
  then have r3: "timing_reachable (?w2\<lparr>receiver := Reading SAMPLE_COUNT\<rparr>)" by (rule readings_run) simp_all
  let ?w3 = "?w2\<lparr>receiver := Reading SAMPLE_COUNT\<rparr>"
  let ?w4 = "?w3\<lparr>flag := 0, receiver := Ended, pending := False\<rparr>"
  have "receiver_step ?w3 ?w4" by (rule receiver_step.end_reading [where k = SAMPLE_COUNT]) simp_all
  then have r4: "timing_reachable ?w4" by (rule by_receiver [OF r3])
  let ?w5 = "?w4\<lparr>pending := (pending ?w4 \<or> receiver ?w4 \<noteq> Ended), sender := Waiting 0 (c_long (sig_counter ?w4 + 1))\<rparr>"
  have "sender_step ?w4 ?w5" by (rule sender_step.send) (simp_all add: SIGNALS_def)
  then have "timing_reachable ?w5" by (rule by_sender [OF r4])
  then show thesis using c_long_next [of 0] by (intro that [of ?w5]) (simp_all add: SIGNALS_def)
qed

lemma sigtime_RTtime_diff_eq: "sigtime_RTtime_diff = RTtime_diff"
  by (simp add: fun_eq_iff sigtime_RTtime_diff_def RTtime_diff_def)

end
