(* ===== verification/Diagnostics.thy ===== *)
theory Diagnostics
  imports Util Threads Stop_World Signal_Timing
begin

text \<open>
  The rest of rtutil.c and rtstop.c: the pause times a handler keeps for its thread, the
  installation of the signal handler, the dump of the registers, and the small tests and
  readers of rtutil.c. What the clock, the signal calls and a file give is an argument; what
  is printed is the result.
\<close>

subsection \<open>Pause times\<close>

text \<open>The end of gc_flip_action_func; a timeval is its number of microseconds.\<close>

definition micros :: "timeval \<Rightarrow> int" where
  "micros t = tval_sec t * 1000000 + tval_usec t"

definition record_pause :: "int \<times> int \<Rightarrow> thread_info \<Rightarrow> thread_info" where
  "record_pause = (\<lambda>(start_tv, end_tv) th.
     let pause_tv = end_tv - start_tv;
         th1 = th\<lparr>th_total_pause := th_total_pause th + pause_tv\<rparr>
     in if pause_tv > th_max_pause th1 then th1\<lparr>th_max_pause := pause_tv\<rparr> else th1)"

lemma record_pauses:
  "th_total_pause (fold record_pause ps th) = th_total_pause th + (\<Sum>(a, b)\<leftarrow>ps. b - a)"
  "th_max_pause (fold record_pause ps th) = Max (insert (th_max_pause th) ((\<lambda>(a, b). b - a) ` set ps))"
proof (induction ps arbitrary: th)
  case (Cons p ps)
  obtain a b where p: "p = (a, b)" by (cases p)
  {
    case 1
    then show ?case using Cons(1) by (simp add: p record_pause_def Let_def)
  next
    case 2
    have "th_max_pause (record_pause p th) = max (th_max_pause th) (b - a)"
      by (simp add: p record_pause_def Let_def)
    then show ?case
      using Cons(2) [of "record_pause p th"]
      by (cases "ps = []") (simp_all add: p Max.insert_remove [of "_ ` set ps"] max.left_commute max.commute)
  }
qed simp_all

subsection \<open>Installing the handler\<close>

text \<open>
  The signals a thread blocks and the handlers of the process. pthread_sigmask with
  SIG_UNBLOCK takes the signals of its second argument out of the mask, unless that is NULL;
  the mask before the call goes to its third argument.
\<close>

datatype action = Default_action | Gc_flip_action_func | Handler_func

record signal_state =
  blocked :: "int set"
  actions :: "int \<Rightarrow> action"

definition SIGUSR1 :: int where "SIGUSR1 = 10"
definition FLIP_SIGNAL :: int where "FLIP_SIGNAL = SIGUSR1"

definition sigmask_unblock :: "int set option \<Rightarrow> signal_state \<Rightarrow> signal_state \<times> int set" where
  "sigmask_unblock sig_set w =
     (case sig_set of
        None \<Rightarrow> (w, blocked w)
      | Some S \<Rightarrow> (w\<lparr>blocked := blocked w - S\<rparr>, blocked w))"

text \<open>The calls give the set they have made as the place for the old mask, and NULL as the set.\<close>

definition install_action :: "int \<Rightarrow> action \<Rightarrow> signal_state \<Rightarrow> signal_state" where
  "install_action sig act w =
     (let sig_set = {sig};
          (w1, sig_set) = sigmask_unblock None w
      in w1\<lparr>actions := (actions w1)(sig := act)\<rparr>)"

definition init_signals_for_rtgc :: "signal_state \<Rightarrow> signal_state" where
  "init_signals_for_rtgc = install_action FLIP_SIGNAL Gc_flip_action_func"

definition init_signals :: "signal_state \<Rightarrow> signal_state" where
  "init_signals = install_action SIGUSR1 Handler_func"

subsection \<open>Registers\<close>

text \<open>The names print_registers prints, with their places in gregset_t.\<close>

definition register_names :: "(string \<times> nat) list" where
  "register_names =
     [(''REG_R8'', 0), (''REG_R9'', 1), (''REG_R10'', 2), (''REG_R11'', 3), (''REG_R12'', 4),
      (''REG_R13'', 5), (''REG_R14'', 6), (''REG_R15'', 7),
      (''REG_RDI'', 8), (''REG_RSI'', 9), (''REG_RBP'', 10), (''REG_RBX'', 11), (''REG_RDX'', 12),
      (''REG_RAX'', 13), (''REG_RCX'', 14), (''REG_RSP'', REG_RSP), (''REG_RIP'', 16),
      (''REG_EFL'', 17), (''REG_CSGSFS'', 18), (''REG_ERR'', 19), (''REG_TRAPNO'', 20),
      (''REG_OLDMASK'', 21), (''REG_CR2'', 22)]"

definition print_registers :: "addr list \<Rightarrow> (string \<times> addr) list" where
  "print_registers regs = map (\<lambda>(name, i). (name, regs ! i)) register_names"

lemma print_registers_all:
  assumes "length regs = NREG"
  shows "map snd (print_registers regs) = regs"
proof -
  have "map snd register_names = [0..<NREG]" by (simp add: register_names_def REG_RSP_def NREG_def upt_conv_Cons)
  moreover have "map snd (print_registers regs) = map ((!) regs) (map snd register_names)"
    by (simp add: print_registers_def comp_def split_def)
  ultimately show ?thesis using assms map_nth [of regs] by simp
qed

subsection \<open>Tests and readers\<close>

text \<open>The numbers copy_test prints, from the two readings of its clock.\<close>

definition copy_test :: "timeval \<Rightarrow> timeval \<Rightarrow> int list" where
  "copy_test start_tv end_tv =
     [c_int (tval_sec start_tv), c_int (tval_usec start_tv), c_int (tval_sec end_tv), c_int (tval_usec end_tv),
      c_int (tval_usec end_tv - tval_usec start_tv)]"

text \<open>timespec_test, when clock_getres succeeds: the elapsed time it prints.\<close>

definition timespec_test :: "timespec \<Rightarrow> timespec \<Rightarrow> timespec" where
  "timespec_test start_time end_time = RTtime_diff start_time end_time"

text \<open>
  eat_line reads up to the end of a line. At the end of the file fgetc returns EOF, which is
  not a newline either.
\<close>

definition newline :: char where
  "newline = CHR 0x0A"

partial_function (option) eat_line :: "string \<Rightarrow> string option" where
  "eat_line f =
     (case f of
        [] \<Rightarrow> eat_line []
      | c # f' \<Rightarrow> if c \<noteq> newline then eat_line f' else Some f')"

text \<open>
  read_maps_file on the lines of the maps file as fscanf has read them, without a path where
  the inode is 0. What it prints are the starts and lengths of the sections of the program
  that can be written, as ints.
\<close>

record maps_line =
  maps_low :: int
  maps_high :: int
  perms :: string
  inode :: int
  maps_path :: string

fun read_maps_file :: "string \<Rightarrow> maps_line list \<Rightarrow> (int \<times> int) list" where
  "read_maps_file executable_path [] = []"
| "read_maps_file executable_path (l # ls) =
     (if inode l = 0 then []
      else if perms l = ''rw-p'' \<and> maps_path l = executable_path
           then [(c_int (maps_low l), c_int (maps_high l - maps_low l))] else []) @
     read_maps_file executable_path ls"

lemma eat_line_found: "newline \<notin> set xs \<Longrightarrow> eat_line (xs @ newline # f) = Some f"
proof (induction xs)
  case (Cons c xs)
  then show ?case by (subst eat_line.simps) auto
qed (subst eat_line.simps, simp)

lemma eat_line_newline: "eat_line f = Some g \<Longrightarrow> newline \<in> set f"
  by (erule eat_line.raw_induct [rotated]) (force split: list.splits if_splits)

end
