(* ===== verification/Static_Space.thy ===== *)
theory Static_Space
  imports Init_Heap
begin

text \<open>
  The static space (RTstatic_allocate of rtalloc.c): objects that are never collected and
  are scanned as roots. They stand one after the other between \<open>first_static_ptr\<close> and
  \<open>static_frontier_ptr\<close>, each behind one long with its size and storage class. The lemmas
  show that the walk of scan_static_space finds the objects that were allocated, in order.
\<close>

subsection \<open>The code\<close>

text \<open>The macro works on unsigned longs, and the result goes back into an int.\<close>

definition ROUND_UPTO_LONG_ALIGNMENT :: "int \<Rightarrow> int" where
  "ROUND_UPTO_LONG_ALIGNMENT n = c_int (uint ((word_of_int (n - 1) AND NOT 7) + 8 :: 64 word))"

text \<open>A negative size is a huge byte count for memset. The header is the long before the object.\<close>

definition RTstatic_allocate :: "64 word \<Rightarrow> int \<Rightarrow> rt_state \<Rightarrow> rt_error + rt_state \<times> addr" where
  "RTstatic_allocate metadata nbytes s =
     (let sz = ROUND_UPTO_LONG_ALIGNMENT nbytes;
          ptr = static_frontier_ptr s;
          s1 = s\<lparr>static_frontier_ptr := ptr + word_of_int sz + 8\<rparr>
      in if last_static_ptr s1 < static_frontier_ptr s1 then Inl (Out_of_memory ''Static'' sz)
         else
           (let m1 = (memory s1)(ptr := word_of_int (c_int (sz * 2 ^ LINK_INFO_BITS)))
            in if metadata \<le>s SC_POINTERS \<or> metadata = SC_CUSTOM1 then
                 (let m2 = SET_STORAGE_CLASS m1 (ptr - 8) metadata;
                      obj = ptr + 8
                  in if sz < 0 then Inl Wild_access
                     else Inr (s1\<lparr>memory := memset_longs obj (nat (sz div 8)) m2\<rparr>, obj))
               else Inl (Debugger ''Add static support for SC_METADATA'')))"

subsection \<open>The objects of the static space\<close>

text \<open>The sizes of the objects between two addresses.\<close>

primrec static_run :: "mem \<Rightarrow> addr \<Rightarrow> int list \<Rightarrow> addr \<Rightarrow> bool" where
  "static_run m p [] e \<longleftrightarrow> p = e"
| "static_run m p (n # ns) e \<longleftrightarrow>
     static_object_size m p = n \<and> 0 \<le> n \<and> n mod 8 = 0 \<and> uint p + 8 + n \<le> uint e \<and>
     static_run m (p + 8 + word_of_int n) ns e"

primrec static_entries :: "addr \<Rightarrow> int list \<Rightarrow> (addr \<times> int) list" where
  "static_entries p [] = []"
| "static_entries p (n # ns) = (p - 8, n + SIZEOF_GC_HEADER) # static_entries (p + 8 + word_of_int n) ns"

lemma uint_static_next:
  assumes "0 \<le> n" and "uint p + 8 + n < 2 ^ 64"
  shows "uint (p + 8 + word_of_int n :: addr) = uint p + 8 + n"
proof -
  have "n < 2 ^ 64" using assms(2) uint_ge_0 [of p] by linarith
  then have "uint (word_of_int n :: addr) = n" using assms(1) by (subst uint_word_of_int) simp
  then show ?thesis using assms uint_ge_0 [of p] by (simp add: uint_add_64)
qed

lemma static_run_le: "static_run m p ns e \<Longrightarrow> uint p \<le> uint e"
proof (induction ns arbitrary: p)
  case (Cons n ns)
  then show ?case by simp
qed simp

lemma static_run_objects:
  assumes "static_run m p ns e" and "length ns < fuel"
  shows "static_objects fuel m p e = Some (static_entries p ns)"
  using assms
proof (induction ns arbitrary: p fuel)
  case Nil
  then show ?case by (cases fuel) simp_all
next
  case (Cons n ns)
  then obtain k where "fuel = Suc k" by (cases fuel) auto
  moreover have "p < e" using Cons.prems(1) by (simp add: word_less_def)
  ultimately show ?case using Cons by simp
qed

lemma static_entries_append:
  "static_entries p (ns @ [n]) =
   static_entries p ns @ [(fold (\<lambda>k q. q + 8 + word_of_int k) ns p - 8, n + SIZEOF_GC_HEADER)]"
  by (induction ns arbitrary: p) simp_all

lemma static_run_end:
  "static_run m p ns e \<Longrightarrow> fold (\<lambda>k q. q + 8 + word_of_int k) ns p = e"
  by (induction ns arbitrary: p) simp_all

text \<open>One more object at the end.\<close>

lemma static_run_snoc:
  assumes "static_run m p ns e"
    and "\<And>a. uint p \<le> uint a \<Longrightarrow> uint a < uint e \<Longrightarrow> m' a = m a"
    and "static_object_size m' e = n" "0 \<le> n" "n mod 8 = 0" "uint e + 8 + n < 2 ^ 64"
  shows "static_run m' p (ns @ [n]) (e + 8 + word_of_int n)"
  using assms(1,2)
proof (induction ns arbitrary: p)
  case Nil
  then show ?case using assms(3-) uint_static_next [OF assms(4,6)] by simp
next
  case (Cons k ns)
  have p: "static_object_size m p = k" "0 \<le> k" "k mod 8 = 0" "uint p + 8 + k \<le> uint e"
      "static_run m (p + 8 + word_of_int k) ns e"
    using Cons.prems(1) by simp_all
  have u: "uint (p + 8 + word_of_int k) = uint p + 8 + k"
    using p uint_lt2p [of e] by (intro uint_static_next) auto
  have "static_run m' (p + 8 + word_of_int k) (ns @ [n]) (e + 8 + word_of_int n)"
    using p(2) Cons.prems(2) by (intro Cons.IH p(5)) (simp add: u)
  moreover have "m' p = m p" using p(2,4) by (intro Cons.prems(2)) auto
  ultimately show ?case
    using p uint_static_next [OF assms(4,6)] assms(4) by (simp add: static_object_size_def)
qed

subsection \<open>An allocation\<close>

lemma not_mask_push_bit: "(NOT (mask n) :: 64 word) = push_bit n (- 1)"
  unfolding minus_exp_eq_not_mask [symmetric] by (simp add: push_bit_eq_mult)

lemma ROUND_UPTO_bounds:
  assumes "0 \<le> n" and "n < 2 ^ 27 - 8"
  shows "n \<le> ROUND_UPTO_LONG_ALIGNMENT n" "ROUND_UPTO_LONG_ALIGNMENT n < n + 8"
    "ROUND_UPTO_LONG_ALIGNMENT n mod 8 = 0" "ROUND_UPTO_LONG_ALIGNMENT n < 2 ^ 27"
proof -
  have e: "(NOT 7 :: 64 word) = push_bit 3 (- 1)"
    using not_mask_push_bit [of 3] by (simp add: mask_eq_exp_minus_1)
  have "ROUND_UPTO_LONG_ALIGNMENT n = (n - 1) - (n - 1) mod 8 + 8"
  proof (cases "n = 0")
    case True
    then show ?thesis by (simp add: ROUND_UPTO_LONG_ALIGNMENT_def c_int_def)
  next
    case False
    then have u: "uint (word_of_int (n - 1) :: 64 word) = n - 1"
      using assms by (subst uint_word_of_int) simp
    have "uint ((word_of_int (n - 1) AND NOT 7) + 8 :: 64 word) = (n - 1) - (n - 1) mod 8 + 8"
      unfolding e uint_add_64 uint_mask_low u using assms False pos_mod_bound [of 8 "n - 1"] pos_mod_sign [of 8 "n - 1"]
      by (simp add: mod_pos_pos_trivial)
    moreover have "c_int ((n - 1) - (n - 1) mod 8 + 8) = (n - 1) - (n - 1) mod 8 + 8"
      using assms False by (intro c_int_id) simp_all
    ultimately show ?thesis by (simp add: ROUND_UPTO_LONG_ALIGNMENT_def)
  qed
  then show "n \<le> ROUND_UPTO_LONG_ALIGNMENT n" "ROUND_UPTO_LONG_ALIGNMENT n < n + 8"
    "ROUND_UPTO_LONG_ALIGNMENT n mod 8 = 0" "ROUND_UPTO_LONG_ALIGNMENT n < 2 ^ 27"
    using assms by presburger+
qed

text \<open>The header long, whose four low bits are beyond the size.\<close>

lemma uint_SET_LINK_INFO:
  assumes "aligned w" and "two_bits c"
  shows "uint (SET_LINK_INFO w 0x3 c) - uint (SET_LINK_INFO w 0x3 c) mod 16 = uint w"
proof -
  have "GET_LINK_POINTER (SET_LINK_INFO w 0x3 c) = w"
    using assms by (simp add: GET_POINTER_SET_INFO GET_LINK_POINTER_aligned_id)
  moreover have "GET_LINK_POINTER v = v AND push_bit 4 (- 1)" for v
    by (simp only: GET_LINK_POINTER_def LINK_POINTER_MASK_def LINK_INFO_MASK_eq not_mask_push_bit)
  ultimately show ?thesis using uint_mask_low [of "SET_LINK_INFO w 0x3 c" 4] by simp
qed

definition static_header :: "mem \<Rightarrow> addr \<Rightarrow> int \<Rightarrow> 64 word \<Rightarrow> mem" where
  "static_header m p n c = SET_STORAGE_CLASS (m(p := word_of_int (c_int (n * 2 ^ LINK_INFO_BITS)))) (p - 8) c"

lemma static_header_other: "a \<noteq> p \<Longrightarrow> static_header m p n c a = m a"
  by (simp add: static_header_def SET_STORAGE_CLASS_def)

lemma static_header_fields:
  assumes "0 \<le> n" and "n < 2 ^ 27" and c: "two_bits c"
  shows "static_object_size (static_header m p n c) p = n"
    and "GET_STORAGE_CLASS (static_header m p n c) (p - 8) = c"
proof -
  let ?w = "word_of_int (n * 16) :: 64 word" and ?h = "static_header m p n c p"
  have "c_int (n * 2 ^ LINK_INFO_BITS) = n * 16"
    using assms(1,2) by (simp add: LINK_INFO_BITS_def c_int_id)
  then have h: "?h = SET_LINK_INFO ?w 0x3 c"
    by (simp add: static_header_def SET_STORAGE_CLASS_def GC_STORAGE_INFO_MASK_def)
  have w: "uint ?w = n * 16" using assms(1,2) by (subst uint_word_of_int) simp
  then have "aligned ?w" by (simp add: aligned_iff_uint)
  then have "uint ?h - uint ?h mod 16 = n * 16" using uint_SET_LINK_INFO [OF _ c] h w by metis
  then have b: "n * 16 \<le> uint ?h" "uint ?h < n * 16 + 16"
    using pos_mod_bound [of 16 "uint ?h"] pos_mod_sign [of 16 "uint ?h"] by linarith+
  then have "signed_take_bit 31 (uint ?h) = uint ?h"
    using assms(1,2) by (intro signed_take_bit_int_eq_self) simp_all
  moreover have "uint ?h div 16 = n" by (rule int_div_pos_eq [where r = "uint ?h - 16 * n"]) (use b in auto)
  ultimately show "static_object_size (static_header m p n c) p = n"
    by (simp add: static_object_size_def LINK_INFO_BITS_def)
  show "GET_STORAGE_CLASS (static_header m p n c) (p - 8) = c"
    using GET_SET_LINK_INFO [OF c, of ?w] h by (simp add: GET_STORAGE_CLASS_def GC_STORAGE_INFO_MASK_def)
qed

definition static_frame :: "addr \<Rightarrow> int \<Rightarrow> rt_state \<Rightarrow> rt_state \<Rightarrow> bool" where
  "static_frame p n s s' \<longleftrightarrow>
     s' = s\<lparr>memory := memory s', static_frontier_ptr := p + 8 + word_of_int n\<rparr> \<and>
     (\<forall>a. uint a < uint p \<or> uint p + 8 + n \<le> uint a \<longrightarrow> memory s' a = memory s a)"

lemma static_longs:
  assumes "0 \<le> n" and "n mod 8 = 0" and "uint p + 8 + n < 2 ^ 64"
    and "a \<in> set (cells (nat (n div 8)) (p + 8))"
  shows "uint p + 8 \<le> uint a" and "uint a + 8 \<le> uint p + 8 + n"
proof -
  have *: "\<forall>a\<in>set (cells k q). uint q \<le> uint a \<and> uint a + 8 \<le> uint q + 8 * int k"
    if "uint q + 8 * int k < 2 ^ 64" for k and q :: addr
    using that
  proof (induction k arbitrary: q)
    case (Suc k)
    have q: "uint (q + 8) = uint q + 8" using Suc.prems by (intro uint_plus_8) simp
    then show ?case using Suc.IH [of "q + 8"] Suc.prems by (auto simp: GC_POINTER_ALIGNMENT_def)
  qed simp
  have "uint (p + 8) = uint p + 8" using assms(1,3) by (intro uint_plus_8) simp
  moreover have "8 * int (nat (n div 8)) = n" using assms(1,2) by auto
  ultimately show "uint p + 8 \<le> uint a" and "uint a + 8 \<le> uint p + 8 + n"
    using * [of "p + 8" "nat (n div 8)"] assms(3,4) by simp_all
qed

lemma RTstatic_allocate_refines:
  assumes run: "static_run (memory s) (first_static_ptr s) ns (static_frontier_ptr s)"
    and n: "0 \<le> nbytes" "nbytes < 2 ^ 27 - 8" and md: "md \<in> {SC_NOPOINTERS, SC_POINTERS, SC_CUSTOM1}"
    and room: "uint (static_frontier_ptr s) + 8 + ROUND_UPTO_LONG_ALIGNMENT nbytes \<le> uint (last_static_ptr s)"
  defines "sz \<equiv> ROUND_UPTO_LONG_ALIGNMENT nbytes" and "p \<equiv> static_frontier_ptr s"
  shows "\<exists>s'. RTstatic_allocate md nbytes s = Inr (s', p + 8) \<and>
    static_run (memory s') (first_static_ptr s') (ns @ [sz]) (static_frontier_ptr s') \<and>
    GET_STORAGE_CLASS (memory s') (p - 8) = md \<and>
    (\<forall>a\<in>set (cells (nat (sz div 8)) (p + 8)). memory s' a = 0) \<and> static_frame p sz s s'"
proof -
  note b = ROUND_UPTO_bounds [OF n, folded sz_def]
  have sz: "0 \<le> sz" using b(1) n(1) by simp
  have lt: "uint p + 8 + sz < 2 ^ 64"
    using room uint_lt2p [of "last_static_ptr s"] by (simp add: sz_def p_def)
  have e: "uint (p + 8 + word_of_int sz) = uint p + 8 + sz" by (rule uint_static_next [OF sz lt])
  have c: "two_bits md" "md \<le>s SC_POINTERS \<or> md = SC_CUSTOM1"
    using md by (auto simp: sc_defs word_sle_eq)
  let ?h = "static_header (memory s) p sz md"
  define s' where "s' = s\<lparr>memory := memset_longs (p + 8) (nat (sz div 8)) ?h,
    static_frontier_ptr := p + 8 + word_of_int sz\<rparr>"
  have "\<not> last_static_ptr s < p + 8 + word_of_int sz" using room e by (simp add: word_less_def sz_def p_def)
  moreover have pe: "p + word_of_int sz + 8 = p + 8 + word_of_int sz" by simp
  ultimately have run': "RTstatic_allocate md nbytes s = Inr (s', p + 8)"
    using c(2) sz unfolding RTstatic_allocate_def Let_def sz_def [symmetric] p_def [symmetric] pe
    by (simp add: s'_def static_header_def)
  note l = static_longs [OF sz b(3) lt]
  have np: "p \<notin> set (cells (nat (sz div 8)) (p + 8))" using l(1) [of p] by auto
  have m': "memory s' a = memory s a" if "uint a < uint p \<or> uint p + 8 + sz \<le> uint a" for a
  proof -
    have "a \<notin> set (cells (nat (sz div 8)) (p + 8))" "a \<noteq> p" using l [of a] that sz by auto
    then show ?thesis by (simp add: s'_def memset_longs_other static_header_other)
  qed
  have hp: "memory s' p = ?h p" using np by (simp add: s'_def memset_longs_other)
  then have "static_object_size (memory s') p = sz" "GET_STORAGE_CLASS (memory s') (p - 8) = md"
    using static_header_fields [OF sz b(4) c(1), of "memory s" p]
    by (simp_all add: static_object_size_def GET_STORAGE_CLASS_def)
  moreover have "static_run (memory s') (first_static_ptr s') (ns @ [sz]) (static_frontier_ptr s')"
    using static_run_snoc [OF run [folded p_def], of "memory s'" sz] m' calculation(1) sz b(3) lt
    by (simp add: s'_def)
  moreover have "\<forall>a\<in>set (cells (nat (sz div 8)) (p + 8)). memory s' a = 0"
    by (simp add: s'_def memset_longs_zero)
  moreover have "static_frame p sz s s'" using m' by (simp add: static_frame_def s'_def)
  ultimately show ?thesis using run' by blast
qed

subsection \<open>The heap does not see it\<close>

lemma page_head_IN_PARTITION:
  assumes lay: "layout_ok s" and "0 \<le> p" "p < total_partition_pages s"
  shows "IN_PARTITION s (PAGE_INDEX_TO_PTR s p)" and "IN_PARTITION s (PAGE_INDEX_TO_PTR s p + 8)"
proof -
  have u: "uint (PAGE_INDEX_TO_PTR s p) = uint (first_partition_ptr s) + p * BYTES_PER_PAGE"
    using assms by (intro uint_PAGE_INDEX_TO_PTR) simp_all
  have "(p + 1) * BYTES_PER_PAGE \<le> total_partition_pages s * BYTES_PER_PAGE"
    using assms(3) by (intro mult_right_mono) (simp_all add: config_defs)
  then have t: "uint (first_partition_ptr s) + p * BYTES_PER_PAGE + 4096 \<le> uint (last_partition_ptr s)"
      "uint (last_partition_ptr s) \<le> 2 ^ 47"
    using lay by (auto simp: layout_ok_def config_defs algebra_simps)
  then have "uint (PAGE_INDEX_TO_PTR s p + 8) = uint (PAGE_INDEX_TO_PTR s p) + 8"
    by (intro uint_plus_8) (simp add: u)
  then show "IN_PARTITION s (PAGE_INDEX_TO_PTR s p)" and "IN_PARTITION s (PAGE_INDEX_TO_PTR s p + 8)"
    using t assms(2) by (simp_all add: IN_PARTITION_uint u config_defs)
qed

lemma heap_inv_elsewhere:
  assumes I: "heap_inv T s A H" and sp: "same_pages s s'" and "groups s' = groups s"
    and "marked_color s' = marked_color s" and "unmarked_color s' = unmarked_color s"
    and m: "\<And>a. IN_PARTITION s a \<Longrightarrow> memory s' a = memory s a"
  shows "heap_inv T s' A H"
proof -
  note d = heap_invD [OF I]
  let ?t = "s\<lparr>memory := memory s'\<rparr>"
  have idle: "idle_rep (marked_color s) (unmarked_color s) (memory s') (groups s i) (A i)" if i: "i \<in> group_indices" for i
  proof (rule idle_rep_cong [OF d(6) [OF i]])
    fix x assume "x \<in> set (objects (A i))"
    then have x: "x \<in> page_objects s i" using d(5) [OF i] unfolding object_set_def by blast
    note b = object_block [OF d(1,3,4) x]
    have i5: "(2 :: int) ^ 5 \<le> 2 ^ i"
      using i by (intro power_increasing) (auto simp: group_indices_def config_defs)
    have "uint x + 2 ^ i \<le> 2 ^ 47" using b(2) d(1) by (simp add: layout_ok_def)
    then have "uint (x + 8) = uint x + 8" using i5 by (intro uint_plus_8) simp
    then have "IN_PARTITION s x" "IN_PARTITION s (x + 8)" using b(3) [of x] b(3) [of "x + 8"] i5 by auto
    then show "memory s' x = memory s x \<and> memory s' (x + 8) = memory s (x + 8)" by (simp add: m)
  qed
  have h: "memory s' a = memory s a" if c: "a \<in> hole_cells s (fst ` set H)" for a
  proof -
    obtain k where "k \<in> set H" "a = PAGE_INDEX_TO_PTR s (fst k) \<or> a = PAGE_INDEX_TO_PTR s (fst k) + 8"
      using c unfolding hole_cells_def by blast
    then show ?thesis using page_head_IN_PARTITION [OF d(1)] hole_bounds [OF d(1,7)] m by blast
  qed
  have "hole_seg s (memory s') H 0" using holes_okD(8) [OF d(7)] hole_seg_cong [of s H "memory s'" "memory s"] h by blast
  then have "holes_ok ?t T H" using d(7) hole_seg_eq [of ?t s] page_macros_eq [of ?t s]
    by (simp add: holes_ok_def empty_page_set_def)
  moreover have "same_pages s ?t" by (simp add: same_pages_def)
  note same_pages_facts [OF this]
  ultimately have "heap_inv T ?t A H" using d(1-5) idle by (simp add: heap_inv_def)
  moreover have "same_pages ?t s'" using sp by (simp add: same_pages_def)
  ultimately show ?thesis using heap_inv_same [of ?t s'] assms(3-5) by simp
qed

lemma static_frame_heap_inv:
  assumes I: "heap_inv T s A H" and f: "static_frame (static_frontier_ptr s) n s s'" and n: "0 \<le> n"
    and apart: "uint (last_static_ptr s) \<le> uint (first_partition_ptr s) \<or>
      uint (last_partition_ptr s) \<le> uint (static_frontier_ptr s)"
    and room: "uint (static_frontier_ptr s) + 8 + n \<le> uint (last_static_ptr s)"
  shows "heap_inv T s' A H"
proof -
  let ?p = "static_frontier_ptr s"
  have e: "s' = s\<lparr>memory := memory s', static_frontier_ptr := ?p + 8 + word_of_int n\<rparr>"
      "\<And>a. uint a < uint ?p \<or> uint ?p + 8 + n \<le> uint a \<Longrightarrow> memory s' a = memory s a"
    using f unfolding static_frame_def by blast+
  have g: "groups s' = groups s" "marked_color s' = marked_color s" "unmarked_color s' = unmarked_color s"
    by (subst e(1), simp)+
  have sp: "same_pages s s'" by (subst e(1)) (simp add: same_pages_def)
  show ?thesis
  proof (rule heap_inv_elsewhere [OF I sp g])
    fix a assume "IN_PARTITION s a"
    then show "memory s' a = memory s a" using apart room by (intro e(2)) (auto simp: IN_PARTITION_uint)
  qed
qed

end
