(* ===== verification/Allocation_Properties.thy ===== *)
theory Allocation_Properties
  imports Allocate_Refine Marking_Properties
begin

text \<open>
  What RTallocate promises: the size of the group it picks, a fresh and cleared black object
  when there is room, the wait for two collections and the stop when there is none, and the
  two ways in which the code goes wrong: a product that overflows, and a heap without a
  static segment.
\<close>

subsection \<open>Sizes\<close>

text \<open>
  C26: for the metadata RTnopointers, RTpointers and RTcustom1 and every size up to the limit,
  allocation_group picks the smallest group whose objects hold the header and the bytes
  asked for.
\<close>

theorem allocation_group_smallest_fit:
  assumes "metadata \<in> {RTnopointers, RTpointers, RTcustom1}" and "0 \<le> nbytes" and "nbytes \<le> 2 ^ 24 - 16"
  shows "\<exists>i\<in>group_indices. allocation_group m metadata nbytes = Inr i \<and> nbytes + 16 \<le> 2 ^ i \<and>
    (i = MIN_GROUP_INDEX \<or> 2 ^ (i - 1) < nbytes + 16)"
  by (rule allocation_group_fits [OF assms]) blast

theorem allocation_group_smallest_fit_witness:
  "\<exists>i\<in>group_indices. allocation_group sample_memory RTpointers 4000 = Inr i \<and> (4000 :: int) + 16 \<le> 2 ^ i \<and>
    (i = MIN_GROUP_INDEX \<or> (2 :: int) ^ (i - 1) < 4000 + 16)"
  by (rule allocation_group_smallest_fit) simp_all

text \<open>
  allocation_group stops for a negative size, and for a size above the limit that an int
  still holds together with the header.
\<close>

theorem allocation_group_stops:
  assumes "metadata \<in> {RTnopointers, RTpointers, RTcustom1}"
    and "nbytes < 0 \<or> 2 ^ 24 - 16 < nbytes \<and> nbytes < 2 ^ 31 - 16"
  shows "\<exists>msg. allocation_group m metadata nbytes = Inl (Debugger msg)"
proof (cases "nbytes < 0")
  case True
  then show ?thesis by (simp add: allocation_group_def)
next
  case False
  then have n: "2 ^ 24 < nbytes + 16" "nbytes + 16 < 2 ^ 31" using assms(2) by auto
  have c: "c_int (nbytes + 16) = nbytes + 16" using n by (intro c_int_id) auto
  have "24 < size_to_group_index (nbytes + 16)"
  proof (rule ccontr)
    assume "\<not> 24 < size_to_group_index (nbytes + 16)"
    then have "(2 :: int) ^ nat (size_to_group_index (nbytes + 16)) \<le> 2 ^ 24"
      by (intro power_increasing) simp_all
    then show False using size_to_group_index_bounds(1) [of "nbytes + 16"] n by simp
  qed
  then show ?thesis
    using assms(1) False c by (simp add: allocation_group_def Let_def SIZEOF_GC_HEADER_def MAX_GROUP_INDEX_def)
qed

theorem allocation_group_stops_witness:
  "\<exists>msg. allocation_group sample_memory RTnopointers (2 ^ 24) = Inl (Debugger msg)"
  by (rule allocation_group_stops) simp_all

text \<open>
  C27: with a metadata vector the size is a product that is cut to 32 bits: for elements of
  \<open>2 ^ 16\<close> bytes, asking for \<open>2 ^ 16\<close> of them, four gigabytes, picks the smallest group, whose
  objects have 32 bytes.
\<close>

theorem allocation_group_product_overflows:
  assumes "metadata \<notin> {RTnopointers, RTpointers, RTcustom1}" and "m metadata = 2 ^ 16"
  shows "allocation_group m metadata (2 ^ 16) = Inr MIN_GROUP_INDEX"
proof -
  have e: "sint (0x10000 :: 64 word) = 2 ^ 16" by simp
  have "c_int (2 ^ 16 * 2 ^ 16 + 8) = 8" "c_int (8 + SIZEOF_GC_HEADER) = 24"
    by (simp_all add: c_int_def SIZEOF_GC_HEADER_def)
  moreover have "size_to_group_index 24 = 5"
  proof -
    have "c_int (24 - 1) = 23" by (simp add: c_int_def)
    moreover have "size_loop 23 0 = 5" using size_loop_digits [of 5 23 0] by simp
    ultimately show ?thesis by (simp add: size_to_group_index_def MIN_GROUP_INDEX_def)
  qed
  ultimately show ?thesis
    using assms e by (simp add: allocation_group_def Let_def config_defs)
qed

theorem allocation_group_product_overflows_witness:
  "allocation_group ((\<lambda>_. 0)(0x8000 := 2 ^ 16)) 0x8000 (2 ^ 16) = Inr MIN_GROUP_INDEX"
  by (rule allocation_group_product_overflows) (simp_all add: RTnopointers_def RTpointers_def RTcustom1_def)

subsection \<open>Allocation\<close>

text \<open>
  C24: RTallocate, between two collections and with a free object or a hole that is large
  enough, returns the body of an object that was not allocated before; afterwards that
  object is the last black object of its group, has the storage class of the metadata and,
  unless it is free of pointers, a body of zeros, the heap invariant holds, and no allocated
  object has changed. The collector is not needed.
\<close>

theorem RTallocate_gives_new_object:
  assumes "heap_inv {} s A H" and "allocation_group (memory s) md nbytes = Inr i" and "i \<in> group_indices"
    and "metadata_valid md" and "has_room i A H"
  shows "\<exists>s' x. RTallocate yields big_malloc md nbytes s = Inr (s', x + 16) \<and> allocated_new md i s A s' x"
  by (rule RTallocate_room [OF assms])

lemma sample_group_of_100: "allocation_group m RTpointers 100 = Inr 7"
proof -
  have "c_int 116 = 116" "c_int (116 - 1) = 115" by (simp_all add: c_int_def)
  moreover have "size_loop 115 0 = 7" using size_loop_digits [of 7 115 0] by simp
  ultimately show ?thesis
    by (simp add: allocation_group_def Let_def size_to_group_index_def config_defs)
qed

lemma sample_metadata: "metadata_valid RTpointers"
  by (simp add: metadata_valid_def)

theorem RTallocate_gives_new_object_witness:
  "\<exists>s' x. RTallocate [] (\<lambda>_. 0) RTpointers 100 sample_state = Inr (s', x + 16) \<and>
    allocated_new RTpointers 7 sample_state sample_lists s' x"
  by (rule RTallocate_gives_new_object [OF sample_heap_inv sample_group_of_100 _ sample_metadata])
    (simp_all add: group_indices_def config_defs has_room_def sample_lists_def sample_holes_def pages_needed_def)

text \<open>
  C25: with no room and both segments in use, RTallocate waits until two more collections are
  done. Let other threads take the heap from state to state while it yields, from \<open>st 0\<close>, the
  heap at the start with the request for an atomic collection, on. As long as gc_count has
  not gone up by two, it is still polling. At the first state where it has, and if the heap
  has its invariant there, RTallocate tries once more: it returns a new object of that heap
  if there is room for it, and is out of memory otherwise.
\<close>

theorem RTallocate_collects_or_fails:
  assumes "heap_inv {} s A H" and "allocation_group (memory s) md nbytes = Inr i" and "i \<in> group_indices"
    and "metadata_valid md" and "\<not> has_room i A H" and "MAX_SEGMENTS \<le> length (segments s)"
    and "- (2 ^ 63) \<le> gc_count s" and "gc_count s + 2 < 2 ^ 63"
    and "st 0 = (if RTatomic_gc s then s\<lparr>run_gc := True\<rparr> else s)"
    and "\<And>k. k < length yields \<Longrightarrow> (yields ! k) (st k) = Inr (st (Suc k))"
  shows "((\<forall>k\<le>length yields. gc_count (st k) < gc_count s + 2) \<longrightarrow>
      RTallocate yields big_malloc md nbytes s = Inl Out_of_fuel) \<and>
    (\<forall>k A1 H1. k \<le> length yields \<longrightarrow> (\<forall>j<k. gc_count (st j) < gc_count s + 2) \<longrightarrow>
      gc_count s + 2 \<le> gc_count (st k) \<longrightarrow> heap_inv {} (st k) A1 H1 \<longrightarrow>
      (if has_room i A1 H1
       then \<exists>s' x. RTallocate yields big_malloc md nbytes s = Inr (s', x + 16) \<and> allocated_new md i (st k) A1 s' x
       else RTallocate yields big_malloc md nbytes s = Inl (Out_of_memory ''Heap'' (2 ^ i))))"
proof -
  have p: "polled yields st" using assms(10) by (simp add: polled_def)
  have "c_long (gc_count s + 2) = gc_count s + 2" using assms(7,8) by (intro c_long_id) simp_all
  then have w: "wait_for_gc yields s = poll_gc_count yields (gc_count s + 2) (st 0)"
    by (simp add: wait_for_gc_def Let_def assms(9))
  have "RTallocate yields big_malloc md nbytes s = Inl Out_of_fuel"
    if "\<forall>k\<le>length yields. gc_count (st k) < gc_count s + 2"
    using poll_still [OF p] that w by (intro RTallocate_polling [OF assms(1-3,5,6)]) simp
  moreover have "if has_room i A1 H1
       then \<exists>s' x. RTallocate yields big_malloc md nbytes s = Inr (s', x + 16) \<and> allocated_new md i (st k) A1 s' x
       else RTallocate yields big_malloc md nbytes s = Inl (Out_of_memory ''Heap'' (2 ^ i))"
    if k: "k \<le> length yields" "\<forall>j<k. gc_count (st j) < gc_count s + 2" "gc_count s + 2 \<le> gc_count (st k)"
      and I1: "heap_inv {} (st k) A1 H1" for k A1 H1
  proof -
    have "wait_for_gc yields s = Inr (st k)" unfolding w by (rule poll_first [OF p k(1,3)]) (use k(2) in blast)
    from RTallocate_after_wait [OF assms(1-6) this I1] show ?thesis .
  qed
  ultimately show ?thesis by blast
qed

text \<open>
  The sample heap without roots, both segments in use. Its collections run as in the code:
  the first finds every object dead, and the second finds nothing left.
\<close>

definition full_sample :: rt_state where
  "full_sample = sample_state\<lparr>segments := segments sample_state @ segments sample_state, global_roots := []\<rparr>"

lemma full_sample_inv: "heap_inv {} full_sample sample_lists sample_holes"
proof -
  have "heap_inv {} full_sample sample_lists sample_holes = heap_inv {} sample_state sample_lists sample_holes"
    by (rule heap_inv_same) (simp_all add: full_sample_def same_pages_def)
  then show ?thesis using sample_heap_inv by simp
qed

definition rootless :: "rt_state \<Rightarrow> bool" where
  "rootless s \<longleftrightarrow> global_roots s = [] \<and> first_static_ptr s = 0 \<and> static_frontier_ptr s = 0 \<and>
     RTno_write_barrier_state_ptr s = 0 \<and> barrier_clear s"

lemma rootless_rest: "rootless s \<Longrightarrow> same_rest s s' \<Longrightarrow> rootless s'"
  by (simp add: rootless_def same_rest_def barrier_clear_def)

lemma rootless_flip:
  assumes I: "heap_inv {} s A H" and e: "\<not> enable_write_barrier s" and r: "rootless s"
  obtains sg where "flip [] s = Inr (stopped [] sg)" and "gc_frame (all_objects A) s sg"
    and "roots_ok 10 sample_hooks (all_objects A) (stopped [] sg)" and "stoppable s [] A H"
    and "all_objects (flipped A) = all_objects A"
proof -
  have st: "stoppable s [] A H" by (simp add: stoppable_def save_area_def save_pairs_def)
  obtain sg where sg: "flip [] s = Inr (stopped [] sg)" "gc_frame (all_objects A) s sg" "all_objects (flipped A) = all_objects A"
    using flip_refines [OF I e st] by blast
  note g = gc_frame_fields [OF sg(2)]
  have "static_ok 10 sample_hooks (all_objects A) (stopped [] sg)"
    using r by (simp add: static_ok_def static_list_def stopped_def rootless_def g numeral_eq_Suc)
  then have "roots_ok 10 sample_hooks (all_objects A) (stopped [] sg)"
    using r by (simp add: roots_ok_def stopped_def rootless_def g sample_hooks_def no_hooks_def)
  then show thesis using that sg st by blast
qed

lemma full_sample_scannable:
  assumes "gc_frame (all_objects sample_lists) full_sample sg"
  shows "scannable sample_hooks (stopped [] sg) (flipped sample_lists)"
proof -
  have lo: "links_only (all_objects sample_lists) sample_memory (memory sg)"
    using assms by (simp add: gc_frame_def full_sample_def)
  have "memory (stopped [] sg) = memory sg" by (simp add: stopped_def save_pairs_def)
  then have cl: "GET_STORAGE_CLASS (memory (stopped [] sg)) x = GET_STORAGE_CLASS sample_memory x"
    if "x \<in> {0x10000, 0x11000, 0x12000}" for x
    using links_only_storage_class [OF lo, of x] that sample_aligned by auto
  have co: "custom_ok sample_hooks (all_objects sample_lists) 0x10010 h" for h
    unfolding custom_ok_def sample_header_cells by (simp add: sample_hooks_def)
  show ?thesis
    unfolding scannable_def
  proof (intro ballI)
    fix i x assume i: "i \<in> group_indices" and x: "x \<in> set (whites (flipped sample_lists i))"
    have "i = 12" "x \<in> {0x10000, 0x11000, 0x12000}"
      using i x by (auto simp: sample_lists_def split: if_splits)
    then have "GET_STORAGE_CLASS (memory (stopped [] sg)) x = (if x = 0x10000 then SC_CUSTOM1 else SC_NOPOINTERS)"
      using cl [of x] sample_headers by (auto simp: sc_defs)
    then show "object_ok sample_hooks (memory (stopped [] sg)) (all_objects (flipped sample_lists)) x (2 ^ i)"
      using co flip_refines [OF sample_heap_inv _ sample_stoppable]
      by (auto simp: object_ok_def SIZEOF_GC_HEADER_def sc_defs split: if_splits)
  qed
qed

text \<open>The two collections, and what the waiting mutator sees of the count.\<close>

lemma full_sample_collections:
  obtains s1 s2 A2 H2 where "full_gc 10 sample_hooks [] full_sample = Inr s1" and "gc_count s1 = 1"
    and "full_gc 10 sample_hooks [] s1 = Inr s2" and "gc_count s2 = 2" and "heap_inv {} s2 A2 H2"
    and "same_rest full_sample s2"
proof -
  have r: "rootless full_sample" "\<not> enable_write_barrier full_sample" "gc_count full_sample = 0"
    using sample_barrier by (simp_all add: rootless_def full_sample_def barrier_clear_def sample_state_def)
  obtain sg where sg: "flip [] full_sample = Inr (stopped [] sg)" "gc_frame (all_objects sample_lists) full_sample sg"
    "roots_ok 10 sample_hooks (all_objects sample_lists) (stopped [] sg)" "stoppable full_sample [] sample_lists sample_holes"
    by (rule rootless_flip [OF full_sample_inv r(2,1)])
  note g = gc_frame_fields [OF sg(2)]
  have "RTno_write_barrier_state_ptr sg = 0"
    using same_rest_gc_frame [OF sg(2)] r(1) by (simp add: same_rest_def rootless_def)
  then have "root_words 10 sample_hooks (stopped [] sg) = []"
    by (simp add: root_words_def saved_state_words_def static_words_def static_list_def stopped_def g
        full_sample_def sample_state_def sample_hooks_def no_hooks_def numeral_eq_Suc)
  then have no_live: "live sample_hooks (stopped [] sg) (set (root_words 10 sample_hooks (stopped [] sg))) W = {}" for W
    by (auto elim: live.induct)
  obtain s1 A1 H1 where 1: "full_gc 10 sample_hooks [] full_sample = Inr s1" "heap_inv {} s1 A1 H1" "black_set A1 = {}"
    "\<not> enable_write_barrier s1" "gc_count s1 = c_long (gc_count full_sample + 1)" "same_rest full_sample s1"
    using full_gc_refines [OF full_sample_inv r(2) sg(4,1,3) full_sample_scannable [OF sg(2)]] r(1) sample_allocated no_live
    by (auto simp: rootless_def)
  have b1: "blacks (A1 i) = []" if "i \<in> group_indices" for i using 1(3) that by (auto simp: black_set_def)
  have r1: "rootless s1" by (rule rootless_rest [OF r(1) 1(6)])
  obtain sg1 where sg1: "flip [] s1 = Inr (stopped [] sg1)" "roots_ok 10 sample_hooks (all_objects A1) (stopped [] sg1)"
    "stoppable s1 [] A1 H1" by (rule rootless_flip [OF 1(2,4) r1])
  have "scannable sample_hooks (stopped [] sg1) (flipped A1)" using b1 by (simp add: scannable_def)
  moreover have "allocated A1 < 10" using b1 by (simp add: allocated_def)
  ultimately obtain s2 A2 H2 where 2: "full_gc 10 sample_hooks [] s1 = Inr s2" "heap_inv {} s2 A2 H2"
    "gc_count s2 = c_long (gc_count s1 + 1)" "same_rest s1 s2"
    using full_gc_refines [OF 1(2,4) sg1(3,1,2)] r1 by (auto simp: rootless_def)
  have "gc_count s1 = 1" "gc_count s2 = 2" using 1(5) 2(3) r(3) by (simp_all add: c_long_id)
  then show thesis using that 1(1) 2(1,2) same_rest_trans [OF 1(6) 2(4)] by blast
qed

text \<open>An object of 16 megabytes has no room in five pages, whatever a collection frees.\<close>

lemma no_room_24:
  assumes I: "heap_inv {} s A H" and r: "same_rest full_sample s"
  shows "\<not> has_room 24 A H"
proof -
  note d = heap_invD [OF I]
  have p: "first_partition_ptr s = 0x10000" "last_partition_ptr s = 0x15000" "total_partition_pages s = 5"
    using r by (simp_all add: same_rest_def full_sample_def)
  have i: "24 \<in> group_indices" by (simp add: group_indices_def config_defs)
  have False if x: "x \<in> set (greens (A 24))" for x
  proof -
    have "x \<in> object_set A 24" using x by (simp add: object_set_def)
    then have "x \<in> page_objects s 24" using d(5) [OF i] by simp
    from object_block(2) [OF d(1,3,4) this] have "uint x + 2 ^ 24 \<le> 0x15000" by (simp add: p)
    then show False using uint_ge_0 [of x] by simp
  qed
  moreover have "snd h < pages_needed 24" if "h \<in> set H" for h
    using d(7) that p(3) by (auto simp: holes_ok_def pages_needed_def config_defs)
  ultimately show ?thesis by (fastforce simp: has_room_def)
qed

theorem RTallocate_collects_or_fails_witness:
  "RTallocate [full_gc 10 sample_hooks []] (\<lambda>_. 0) RTnopointers (2 ^ 24 - 16) full_sample = Inl Out_of_fuel \<and>
   RTallocate [full_gc 10 sample_hooks [], full_gc 10 sample_hooks []] (\<lambda>_. 0) RTnopointers (2 ^ 24 - 16) full_sample =
     Inl (Out_of_memory ''Heap'' (2 ^ 24))"
proof -
  have g: "allocation_group (memory full_sample) RTnopointers (2 ^ 24 - 16) = Inr 24"
  proof -
    have "c_int 16777216 = 16777216" "c_int (16777216 - 1) = 16777215" by (simp_all add: c_int_def)
    moreover have "size_loop 16777215 0 = 24" using size_loop_digits [of 24 16777215 0] by simp
    ultimately show ?thesis
      by (simp add: allocation_group_def Let_def size_to_group_index_def config_defs)
  qed
  have f: "gc_count full_sample = 0" "\<not> RTatomic_gc full_sample" "MAX_SEGMENTS \<le> length (segments full_sample)"
    by (simp_all add: full_sample_def sample_state_def MAX_SEGMENTS_def)
  have md: "metadata_valid RTnopointers" by (simp add: metadata_valid_def)
  have i: "24 \<in> group_indices" by (simp add: group_indices_def config_defs)
  obtain s1 s2 A2 H2 where c: "full_gc 10 sample_hooks [] full_sample = Inr s1" "gc_count s1 = 1"
    "full_gc 10 sample_hooks [] s1 = Inr s2" "gc_count s2 = 2" "heap_inv {} s2 A2 H2" "same_rest full_sample s2"
    by (rule full_sample_collections)
  let ?st = "\<lambda>k :: nat. if k = 0 then full_sample else if k = 1 then s1 else s2"
  let ?ys = "[full_gc 10 sample_hooks [], full_gc 10 sample_hooks []]"
  note wait = RTallocate_collects_or_fails [where st = ?st and big_malloc = "\<lambda>_. 0", OF full_sample_inv g i md
      no_room_24 [OF full_sample_inv same_rest_refl] f(3)]
  have "RTallocate [full_gc 10 sample_hooks []] (\<lambda>_. 0) RTnopointers (2 ^ 24 - 16) full_sample = Inl Out_of_fuel"
    using wait [of "[full_gc 10 sample_hooks []]"] f c(1,2) by simp
  moreover have "(?ys ! k) (?st k) = Inr (?st (Suc k))" if "k < length ?ys" for k
    using c(1,3) that by (auto simp: less_Suc_eq)
  then have "RTallocate ?ys (\<lambda>_. 0) RTnopointers (2 ^ 24 - 16) full_sample = Inl (Out_of_memory ''Heap'' (2 ^ 24))"
    using wait [of ?ys, THEN conjunct2, rule_format, of 2 A2 H2] f c no_room_24 [OF c(5,6)]
    by (force simp: less_Suc_eq numeral_2_eq_2)
  ultimately show ?thesis by blast
qed

text \<open>
  C28: in a heap that was made without a static segment only one of the two segments is in
  use, so that an allocation without room does not wait for the collector: it maps a second
  heap segment, of the default size, and then fails the assertion that it has not.
\<close>

theorem RTallocate_one_segment_asserts:
  assumes "heap_inv {} s A H" and "allocation_group (memory s) md nbytes = Inr i" and "i \<in> group_indices"
    and "\<not> has_room i A H" and "length (segments s) = 1" and "pages_needed i \<le> 256"
    and "big_malloc (2 ^ 20) = p" and "p \<noteq> 0"
  shows "RTallocate yields big_malloc md nbytes s = Inl Assert_failed"
proof -
  have F: "greens (A i) = []" and h: "\<not> (\<exists>h\<in>set H. pages_needed i \<le> snd h)"
    using assms(4) by (auto simp: has_room_def)
  have al: "allocate_empty_pages (pages_needed i) s = Inr (s, 0)"
    using take_pages_refines [OF assms(1,3) F] unfolding if_not_P [OF h] by blast
  have m: "max DEFAULT_HEAP_SEGMENT_SIZE (pages_needed i * BYTES_PER_PAGE) = 2 ^ 20"
    using assms(6) by (simp add: DEFAULT_HEAP_SEGMENT_SIZE_def config_defs)
  have "\<exists>s2. allocate_segment big_malloc (2 ^ 20) HEAP_SEGMENT s = Inr (s2, 2 ^ 20)"
    using assms(5,7,8) by (simp add: allocate_segment_def MAX_SEGMENTS_def config_defs Let_def RTinit_empty_pages_def)
  then have "init_pages_for_group yields big_malloc i 1 s = Inl Assert_failed"
    by (auto simp: init_pages_for_group_eq [OF heap_invD(3) [OF assms(1)] assms(3)] al m)
  then show ?thesis
    using gfree_iff [OF assms(1,3)] F assms(2) by (simp add: RTallocate_eq find_object_def)
qed

theorem RTallocate_one_segment_asserts_witness:
  "RTallocate [] (\<lambda>_. 0x100000) RTnopointers 60000 sample_state = Inl Assert_failed"
proof -
  have g: "allocation_group (memory sample_state) RTnopointers 60000 = Inr 16"
  proof -
    have "c_int 60016 = 60016" "c_int (60016 - 1) = 60015" by (simp_all add: c_int_def)
    moreover have "size_loop 60015 0 = 16" using size_loop_digits [of 16 60015 0] by simp
    ultimately show ?thesis
      by (simp add: allocation_group_def Let_def size_to_group_index_def config_defs)
  qed
  have i: "16 \<in> group_indices" by (simp add: group_indices_def config_defs)
  have r: "\<not> has_room 16 sample_lists sample_holes"
    by (simp add: has_room_def sample_lists_def sample_holes_def pages_needed_def config_defs)
  show ?thesis
    by (rule RTallocate_one_segment_asserts [where big_malloc = "\<lambda>_. 0x100000", OF sample_heap_inv g i r _ _ refl])
      (simp_all add: sample_state_def pages_needed_def config_defs)
qed

end
