(* ===== verification/Startup_Properties.thy ===== *)
theory Startup_Properties
  imports Static_Space Allocation_Properties
begin

text \<open>
  What the start of the program promises: RTinit_heap leaves an empty heap that satisfies the
  invariant, static objects are found by the scan of the static space, and threads take and
  give back their entries.
\<close>

subsection \<open>The heap\<close>

text \<open>
  C29: RTinit_heap, given memory for its tables and segments of whole pages, makes a heap
  that satisfies the invariant with no objects and one hole of all pages, with a clear and
  disabled write barrier and no collection made, an empty static space when one was asked
  for, and a table of threads in which all entries are free.
\<close>

theorem RTinit_heap_establishes_invariant:
  assumes "\<And>k n. big_malloc k n \<noteq> 0" and "good_segment (big_malloc 8 n) n"
    and "0 \<le> k" and "k mod BYTES_PER_PAGE = 0" and "k < 2 ^ 31"
    and "length (threads t) = MAX_THREADS" and "total_threads t = 0"
  shows "\<exists>s' t'. RTinit_heap big_malloc stack_size 0 n k (s, t) = Inr (s', t') \<and>
    heap_inv {} s' no_objects [(0, n div BYTES_PER_PAGE)] \<and> barrier_clear s' \<and>
    \<not> enable_write_barrier s' \<and> gc_count s' = 0 \<and> global_roots s' = [] \<and>
    (0 < k \<longrightarrow> static_run (memory s') (first_static_ptr s') [] (static_frontier_ptr s') \<and>
       uint (last_static_ptr s') = (uint (big_malloc 7 k) + k) mod 2 ^ 64) \<and>
    threads_rep t' [0..<MAX_THREADS] []"
proof -
  obtain s' where s': "RTinit_heap big_malloc stack_size 0 n k (s, t) = Inr (s', init_mutator_threads t)"
      "fresh_heap (n div BYTES_PER_PAGE) s'"
      "0 < k \<Longrightarrow> first_static_ptr s' = big_malloc 7 k \<and> static_frontier_ptr s' = big_malloc 7 k \<and>
        last_static_ptr s' = big_malloc 7 k + word_of_int k"
    using RTinit_heap_refines [where big_malloc = big_malloc and s = s and t = t and stack_size = stack_size,
      OF assms(1-5) refl] by metis
  have "uint (word_of_int k :: addr) = k" using assms(3,5) by (subst uint_word_of_int) simp
  then show ?thesis
    using s' init_mutator_threads_rep [OF assms(6,7)] by (simp add: fresh_heap_def uint_add_64)
qed

definition sample_mmap :: "nat \<Rightarrow> int \<Rightarrow> addr option" where
  "sample_mmap site bytes = Some (0x100000 + of_nat (min site 100) * 0x10000)"

lemma sample_mmap_not_0: "RTbig_malloc sample_mmap k n \<noteq> 0"
proof -
  have "uint (of_nat (min k 100) :: addr) = int (min k 100)" by (simp add: uint_nat unat_of_nat)
  then have "uint (0x100000 + of_nat (min k 100) * 0x10000 :: addr) = 0x100000 + int (min k 100) * 0x10000"
    by (simp add: uint_word_ariths)
  then show ?thesis by (auto simp: RTbig_malloc_def sample_mmap_def)
qed

definition sample_threads :: thread_table where
  "sample_threads = \<lparr>threads = replicate MAX_THREADS \<lparr>th_pthread = 0, th_stack_base = 0, th_stack_size = 0,
       th_stack_bottom = 0, th_max_pause = 0, th_total_pause = 0, th_next = None, th_start_func = 0,
       th_args = 0, th_started = 0\<rparr>,
     live_threads = None, free_threads = None, total_threads = 0\<rparr>"

theorem RTinit_heap_establishes_invariant_witness:
  "\<exists>s' t'. RTinit_heap (RTbig_malloc sample_mmap) 0x2000 0 0x8000 0x1000 (sample_state, sample_threads) = Inr (s', t') \<and>
    heap_inv {} s' no_objects [(0, 8)] \<and> threads_rep t' [0..<MAX_THREADS] []"
proof -
  have g: "good_segment (RTbig_malloc sample_mmap 8 0x8000) 0x8000"
    by (simp add: RTbig_malloc_def sample_mmap_def good_segment_def config_defs)
  from RTinit_heap_establishes_invariant [where big_malloc = "RTbig_malloc sample_mmap" and k = "0x1000" and
      t = sample_threads and stack_size = "0x2000" and s = sample_state, OF sample_mmap_not_0 g]
  show ?thesis by (simp add: sample_threads_def config_defs) metis
qed

subsection \<open>Static objects\<close>

text \<open>
  C30: RTstatic_allocate, while there is room and the static space does not overlap the heap,
  returns an object that the walk of scan_static_space finds as the last one after those it
  found before; its words are zero, its storage class is the one asked for, its size is the
  bytes asked for, rounded up to longs; no other memory changes and the heap keeps its
  invariant.
\<close>

theorem RTstatic_allocate_appends_object:
  assumes "static_run (memory s) (first_static_ptr s) ns (static_frontier_ptr s)"
    and "0 \<le> nbytes" and "nbytes < 2 ^ 27 - 8" and "md \<in> {SC_NOPOINTERS, SC_POINTERS, SC_CUSTOM1}"
    and "sz = ROUND_UPTO_LONG_ALIGNMENT nbytes" and "p = static_frontier_ptr s"
    and "uint p + 8 + sz \<le> uint (last_static_ptr s)" and "length ns + 1 < fuel"
    and "heap_inv T s A H"
    and "uint (last_static_ptr s) \<le> uint (first_partition_ptr s) \<or> uint (last_partition_ptr s) \<le> uint p"
  shows "\<exists>s'. RTstatic_allocate md nbytes s = Inr (s', p + 8) \<and> nbytes \<le> sz \<and> sz < nbytes + 8 \<and>
    static_run (memory s') (first_static_ptr s') (ns @ [sz]) (static_frontier_ptr s') \<and>
    static_list fuel s' = static_list fuel s @ [(p - 8, sz + SIZEOF_GC_HEADER)] \<and>
    GET_STORAGE_CLASS (memory s') (p - 8) = md \<and>
    (\<forall>a\<in>set (cells (nat (sz div 8)) (p + 8)). memory s' a = 0) \<and>
    (\<forall>a. uint a < uint p \<or> uint p + 8 + sz \<le> uint a \<longrightarrow> memory s' a = memory s a) \<and>
    heap_inv T s' A H"
proof -
  note b = ROUND_UPTO_bounds [OF assms(2,3), folded assms(5)]
  obtain s' where s': "RTstatic_allocate md nbytes s = Inr (s', p + 8)"
      "static_run (memory s') (first_static_ptr s') (ns @ [sz]) (static_frontier_ptr s')"
      "GET_STORAGE_CLASS (memory s') (p - 8) = md"
      "\<forall>a\<in>set (cells (nat (sz div 8)) (p + 8)). memory s' a = 0" "static_frame p sz s s'"
    using RTstatic_allocate_refines [OF assms(1-4)] assms(5-7) by blast
  have e: "s' = s\<lparr>memory := memory s', static_frontier_ptr := p + 8 + word_of_int sz\<rparr>"
      "\<forall>a. uint a < uint p \<or> uint p + 8 + sz \<le> uint a \<longrightarrow> memory s' a = memory s a"
    using s'(5) unfolding static_frame_def by blast+
  have "first_static_ptr s' = first_static_ptr s" by (subst e(1)) simp
  then have "static_list fuel s' = static_list fuel s @ [(p - 8, sz + SIZEOF_GC_HEADER)]"
    using static_run_objects [OF assms(1), of fuel] static_run_objects [OF s'(2), of fuel] assms(6,8)
      static_run_end [OF assms(1)] by (simp add: static_list_def static_entries_append)
  moreover have "heap_inv T s' A H"
    using static_frame_heap_inv [OF assms(9)] s'(5) assms(2,6,7,10) b(1) by simp
  ultimately show ?thesis using s' e(2) b by blast
qed

definition static_sample :: rt_state where
  "static_sample = sample_state\<lparr>first_static_ptr := 0x2000, last_static_ptr := 0x3000, static_frontier_ptr := 0x2000\<rparr>"

lemma static_sample_fields [simp]:
  "first_static_ptr static_sample = 0x2000" "last_static_ptr static_sample = 0x3000"
  "static_frontier_ptr static_sample = 0x2000" "first_partition_ptr static_sample = 0x10000"
  by (simp_all add: static_sample_def)

lemma static_sample_inv: "heap_inv {} static_sample sample_lists sample_holes"
  using sample_heap_inv by (rule heap_inv_same [THEN iffD2, rotated -1]) (simp_all add: static_sample_def same_pages_def)

theorem RTstatic_allocate_appends_object_witness:
  "\<exists>s'. RTstatic_allocate SC_POINTERS 20 static_sample = Inr (s', 0x2008) \<and>
    static_list 3 s' = [(0x1FF8, 40)] \<and> heap_inv {} s' sample_lists sample_holes"
proof -
  have r: "ROUND_UPTO_LONG_ALIGNMENT 20 = 24" by (simp add: ROUND_UPTO_LONG_ALIGNMENT_def c_int_def)
  have l: "static_list 3 static_sample = []" by (simp add: static_list_def numeral_3_eq_3)
  from RTstatic_allocate_appends_object [where md = SC_POINTERS, OF _ _ _ _ r [symmetric] refl _ _ static_sample_inv, of "[]" 3]
  show ?thesis by (auto simp: l config_defs)
qed

subsection \<open>Threads\<close>

text \<open>
  C31: a thread that starts gets the first free entry, filled in with its stack and its start
  function, and goes to the front of the live list, which the flip walks; with no free
  entry the program stops; and an entry whose thread could not be created is not given back.
\<close>

theorem RTpthread_create_takes_entry:
  assumes "threads_rep t F L"
  shows "case F of
      [] \<Rightarrow> RTpthread_create e f a t = Inl (Debugger ''Out of threads'')
    | i # F' \<Rightarrow>
        (starts e \<longrightarrow> (\<exists>t'. RTpthread_create e f a t = Inr (t', 0) \<and> threads_rep t' F' (i # L) \<and>
           threads t' ! i = started_thread e f a (live_threads t))) \<and>
        (create_result e \<noteq> 0 \<longrightarrow> (\<exists>t'. RTpthread_create e f a t = Inr (t', create_result e) \<and> threads_rep t' F' L))"
proof (cases F)
  case Nil
  then show ?thesis using assms RTpthread_create_no_entry by simp
next
  case (Cons i F')
  then have r: "threads_rep t (i # F') L" using assms by simp
  show ?thesis unfolding Cons list.case
    by (meson RTpthread_create_refines [OF r] RTpthread_create_fails [OF r])
qed

definition sample_env :: pthread_env where
  "sample_env = \<lparr>create_result = 0, new_pthread = 7, env_stackaddr = 0x7000, env_stacksize = 0x1000,
     env_stack_bottom = 0x7F00, setspecific_result = 0\<rparr>"

lemma sample_threads_init: "threads_rep (init_mutator_threads sample_threads) (0 # [1..<MAX_THREADS]) []"
proof -
  have "threads_rep (init_mutator_threads sample_threads) [0..<MAX_THREADS] []"
    by (rule init_mutator_threads_rep) (simp_all add: sample_threads_def)
  moreover have "[0..<MAX_THREADS] = 0 # [1..<MAX_THREADS]" by (simp add: MAX_THREADS_def upt_conv_Cons)
  ultimately show ?thesis by simp
qed

theorem RTpthread_create_takes_entry_witness:
  "\<exists>t'. RTpthread_create sample_env 0x500 0 (init_mutator_threads sample_threads) = Inr (t', 0) \<and>
    threads_rep t' [1..<MAX_THREADS] [0] \<and> th_stack_size (threads t' ! 0) = 0x1000"
  using RTpthread_create_takes_entry [OF sample_threads_init, of sample_env "0x500" 0]
  by (auto simp: starts_def sample_env_def started_thread_def c_int_def)

text \<open>
  C32: the exit of a thread takes it off the live list, but breaks the free list: of three
  threads that start afterwards the first and the third get the same entry, and the live
  list, which the next flip walks, has no end. With no free entry left the exit
  dereferences a null pointer.
\<close>

theorem free_thread_breaks_free_list:
  assumes "threads_rep t F L" and "i \<in> set L" and "starts e"
  shows "case F of
      [] \<Rightarrow> free_thread i t = Inl Null_deref
    | f # F' \<Rightarrow> \<exists>t' t1 t2 t3. free_thread i t = Inr t' \<and>
        thread_chain t' (live_threads t') (remove1 i L) \<and> total_threads t' = int (length L) - 1 \<and>
        RTpthread_create e g a t' = Inr (t1, 0) \<and> live_threads t1 = Some f \<and>
        RTpthread_create e g a t1 = Inr (t2, 0) \<and> live_threads t2 = Some i \<and>
        RTpthread_create e g a t2 = Inr (t3, 0) \<and> live_threads t3 = Some f \<and>
        (\<forall>L'. \<not> thread_chain t3 (live_threads t3) L')"
proof (cases F)
  case Nil
  then show ?thesis using assms free_thread_last_entry by simp
next
  case (Cons f F')
  then have r: "threads_rep t (f # F') L" using assms(1) by simp
  obtain t' where t': "free_thread i t = Inr t'" "thread_chain t' (live_threads t') (remove1 i L)"
      "two_cycle t' f i" "total_threads t' = int (length L) - 1" "length (threads t') = MAX_THREADS"
    using free_thread_result [OF r assms(2)] .
  have b: "f < length (threads t')" "i < length (threads t')" "f \<noteq> i"
    using r assms(2) t'(5) thread_chain_bound [of t "live_threads t" L i] by (auto simp: threads_rep_def)
  obtain t1 t2 t3 where "RTpthread_create e g a t' = Inr (t1, 0)" "live_threads t1 = Some f"
      "RTpthread_create e g a t1 = Inr (t2, 0)" "live_threads t2 = Some i"
      "RTpthread_create e g a t2 = Inr (t3, 0)" "live_cycle t3 f i"
    using two_cycle_creates [OF t'(3) b assms(3)] .
  then show ?thesis using t' live_cycle_no_end [of t3 f i] by (auto simp: Cons live_cycle_def)
qed

theorem free_thread_breaks_free_list_witness:
  "\<exists>t t' t1 t2 t3. threads_rep t [1..<MAX_THREADS] [0] \<and> free_thread 0 t = Inr t' \<and> live_threads t' = None \<and>
    RTpthread_create sample_env 0 0 t' = Inr (t1, 0) \<and> live_threads t1 = Some 1 \<and>
    RTpthread_create sample_env 0 0 t1 = Inr (t2, 0) \<and> live_threads t2 = Some 0 \<and>
    RTpthread_create sample_env 0 0 t2 = Inr (t3, 0) \<and> live_threads t3 = Some 1"
proof -
  obtain t where t: "threads_rep t [1..<MAX_THREADS] [0]"
    by (rule RTpthread_create_refines [OF sample_threads_init, of sample_env]) (simp_all add: starts_def sample_env_def)
  have "[1..<MAX_THREADS] = 1 # [2..<MAX_THREADS]" by (simp add: MAX_THREADS_def upt_conv_Cons numeral_2_eq_2)
  moreover have "starts sample_env" by (simp add: starts_def sample_env_def)
  ultimately show ?thesis
    using free_thread_breaks_free_list [OF t, of 0 sample_env 0 0] t by auto
qed

end
