(* ===== verification/Client_Properties.thy ===== *)
theory Client_Properties
  imports Word_Tree Util Marking_Properties
begin

text \<open>
  What the client program and the utilities promise: the word count of a text, its limits,
  times, the check of the white counts during a collection, and the ring of objects to
  finalize.
\<close>

subsection \<open>Counting words\<close>

text \<open>
  C33: build_word_tree and walk_word_tree count words: for a text with at least one word, at
  most 1844 different ones, none longer than the buffer, no assertion on the order of the
  tree fails, the total is the number of words, and the verbose walk prints every word
  once, in the order of strcmp, with the number of times it occurs.
\<close>

theorem word_tree_counts_words:
  assumes "words f \<noteq> []" and "card (set (words f)) \<le> 1844" and "length (words f) < 2 ^ 31 - 1"
    and "\<forall>w\<in>set (words f). length w < BUFFER_SIZE"
  shows "\<exists>t. build_word_tree (Some f) = Inr t \<and>
    walk_word_tree t verbose = Inr (int (length (words f)),
      if verbose then map (\<lambda>w. (int (count_list (words f) w), Some w)) (sorted_list_of_set (set (words f))) else [])"
proof -
  have n: "int (length (words f)) < 2 ^ 31 - 1" using assms(3) by simp
  obtain t where t: "build_word_tree (Some f) = Inr t" "entries t = some_words (tally_words (words f))"
    using build_word_tree_tally [OF assms(1,2) n assms(4)] by blast
  have "walk_word_tree t verbose = Inr (int (length (words f)),
      if verbose then map (\<lambda>(w, n). (n, Some w)) (tally_words (words f)) else [])"
    using walk_word_tree_sorted [OF t(2) tally_words_sorted [OF n]] n by (simp add: sum_tally_words)
  then show ?thesis using t(1) by (simp add: tally_words_def comp_def)
qed

lemma sample_text_words: "words ''b a, b'' = [''b'', ''a'', ''b'']"
proof -
  have "isalnum CHR ''a''" "isalnum CHR ''b''" "\<not> isalnum CHR '' ''" "\<not> isalnum CHR '',''"
    by (simp_all add: isalnum_def less_eq_char_def)
  then show ?thesis by (simp add: words_Cons_alnum)
qed

theorem word_tree_counts_words_witness:
  "\<exists>t. build_word_tree (Some ''b a, b'') = Inr t \<and>
    walk_word_tree t True = Inr (3, [(1, Some ''a''), (2, Some ''b'')])"
proof -
  have "''a'' \<le> (''b'' :: string)" by (simp add: less_char_def)
  then show ?thesis
    using word_tree_counts_words [of "''b a, b''" True]
    by (simp add: sample_text_words BUFFER_SIZE_def card_insert_if insert_commute)
qed

lemma read_chars_overflow:
  assumes "BUFFER_SIZE \<le> length buffer + length (takeWhile isalnum f) + 1"
  shows "read_chars buffer c f = Inl Wild_access"
  using assms
proof (induction f arbitrary: buffer c)
  case Nil
  then show ?case by (subst read_chars.simps) (simp add: new_word_def)
next
  case (Cons d f)
  then show ?case
    using Cons.IH [of "buffer @ [c]" d] by (subst read_chars.simps) (auto simp: new_word_def Let_def split: if_splits)
qed

lemma read_word_overflow:
  assumes "words f = w # ws" and "BUFFER_SIZE \<le> length w"
  shows "read_word f = Inl Wild_access"
  using assms
proof (induction f)
  case (Cons c f)
  show ?case
  proof (cases "isalnum c")
    case True
    then have "read_chars [] c f = Inl Wild_access"
      using Cons.prems by (intro read_chars_overflow) (auto simp: words_Cons_alnum)
    then show ?thesis using True by (simp add: read_word_def)
  next
    case False
    then show ?thesis using Cons by (simp add: read_word_def)
  qed
qed simp

lemma read_word_none: "words f = [] \<Longrightarrow> read_word f = Inr (None, [])"
  using read_word_words [of f] by simp

lemma no_words_counted:
  assumes "words f = []"
  shows "rbind (build_word_tree (Some f)) (\<lambda>t. walk_word_tree t verbose) = Inr (1, if verbose then [(1, None)] else [])"
proof -
  have "insert_words t [] = Inr t" for t
    by (subst insert_words.simps) (simp add: read_word_def)
  then show ?thesis by (simp add: read_word_none [OF assms] build_word_tree_def new_node_def c_int_def)
qed

lemma insert_words_overflow:
  "words f = w # ws \<Longrightarrow> BUFFER_SIZE \<le> length w \<Longrightarrow> insert_words t f = Inl Wild_access"
  by (subst insert_words.simps) (simp add: read_word_overflow)

lemma build_word_tree_overflow:
  assumes "words f = us @ w # ws" and "\<forall>u\<in>set us. length u < BUFFER_SIZE" and "card (set us) \<le> 1844"
    and "length us < 2 ^ 31 - 1" and "BUFFER_SIZE \<le> length w"
  shows "build_word_tree (Some f) = Inl Wild_access"
proof (cases "us = []")
  case True
  then show ?thesis using assms(1,5) by (simp add: build_word_tree_def read_word_overflow)
next
  case False
  have "card (set (butlast us)) \<le> card (set us)" by (intro card_mono) (auto dest: in_set_butlastD)
  then show ?thesis
    using build_word_tree_part [OF False assms(1,2)] assms(3-5) by (auto simp: insert_words_overflow)
qed

text \<open>Words in increasing order hang from the root in one chain.\<close>

lemma increasing_chain:
  assumes "two_chains t" and "entries t = some_words (tally_words us)" and "word t = Some (hd us)"
    and "us \<noteq> []" and "sorted_wrt (<) us"
  shows "greater_chain t \<and> t \<noteq> NULL"
proof -
  obtain v n l g where t: "t = NODE v n l g" "lesser_chain l" "greater_chain g" using assms(1) by (cases t) auto
  obtain u vs where u: "us = u # vs" "\<forall>w\<in>set vs. u < w" using assms(4,5) by (cases us) auto
  have "sorted_list_of_set (set us) = us"
    using assms(5) by (simp add: strict_sorted_iff sorted_list_of_set.idem_if_sorted_distinct)
  then have "entries t = (Some u, int (count_list us u)) # map (\<lambda>w. (Some w, int (count_list us w))) vs"
    using assms(2) by (simp add: tally_words_def some_words_def u(1))
  moreover have "v = Some u" using assms(3) by (simp add: t(1) u(1))
  ultimately have "entries l = []" using u(2) by (auto simp: t(1) Cons_eq_append_conv append_eq_Cons_conv append_eq_map_conv)
  then show ?thesis using t by (cases l) auto
qed

lemma build_word_tree_too_deep:
  assumes "words f = us @ w # ws" and "\<forall>u\<in>set (us @ [w]). length u < BUFFER_SIZE"
    and "sorted_wrt (<) (us @ [w])" and "length us = 1845"
  shows "build_word_tree (Some f) = Inl (Debugger ''Infinite recursion!'')"
proof -
  have s: "sorted_wrt (<) us" "\<forall>u\<in>set us. u < w" "us \<noteq> []"
    using assms(3,4) by (auto simp: sorted_wrt_append)
  have "card (set (butlast us)) \<le> length (butlast us)" by (rule card_length)
  then obtain t f' where t: "build_word_tree (Some f) = insert_words t f'" "words f' = w # ws" "two_chains t"
      "entries t = some_words (tally_words us)" "word t = Some (hd us)"
    using build_word_tree_part [OF s(3) assms(1)] assms(2,4) by auto
  obtain f2 where "read_word f' = Inr (Some w, f2)" using read_word_first [OF t(2)] assms(2) by auto
  moreover have "insert_node w 0 t = Inl (Debugger ''Infinite recursion!'')"
  proof (rule insert_node_too_deep [OF _ _ t(4)])
    show "greater_chain t" "t \<noteq> NULL" using increasing_chain [OF t(3-5) s(3,1)] by simp_all
    show "sorted_tally (tally_words us)" using assms(4) by (intro tally_words_sorted) simp
    show "\<forall>x\<in>set (tally_words us). fst x < w" using s(2) by (auto simp: tally_words_def)
    show "1844 < 0 + int (length (tally_words us))"
      using s(1) assms(4) by (simp add: tally_words_length distinct_card strict_sorted_iff)
  qed simp
  ultimately show ?thesis by (subst t(1), subst insert_words.simps) simp
qed

text \<open>
  C34: the limits of build_word_tree and walk_word_tree. They count no words in a file that
  cannot be opened, but one word, a null one, in a text without words. A word that does not fit
  into the buffer with its terminating zero, wherever it stands in the text (after at most 1844
  different words that fit), is written past the end of the buffer. And 1845 words in
  increasing order are too many: the next greater one is as deep in the tree as the recursion
  may go, and build_word_tree stops with its message of an infinite recursion.
\<close>

theorem word_tree_limits:
  "rbind (build_word_tree None) (\<lambda>t. walk_word_tree t verbose) = Inr (0, []) \<and>
   (words f = [] \<longrightarrow>
      rbind (build_word_tree (Some f)) (\<lambda>t. walk_word_tree t verbose) = Inr (1, if verbose then [(1, None)] else [])) \<and>
   (\<forall>us w ws. words f = us @ w # ws \<longrightarrow> (\<forall>u\<in>set us. length u < BUFFER_SIZE) \<longrightarrow> card (set us) \<le> 1844 \<longrightarrow>
      length us < 2 ^ 31 - 1 \<longrightarrow> BUFFER_SIZE \<le> length w \<longrightarrow>
      build_word_tree (Some f) = Inl Wild_access) \<and>
   (\<forall>us w ws. words f = us @ w # ws \<longrightarrow> (\<forall>u\<in>set (us @ [w]). length u < BUFFER_SIZE) \<longrightarrow>
      sorted_wrt (<) (us @ [w]) \<longrightarrow> length us = 1845 \<longrightarrow>
      build_word_tree (Some f) = Inl (Debugger ''Infinite recursion!''))"
proof (intro conjI allI impI)
  show "rbind (build_word_tree None) (\<lambda>t. walk_word_tree t verbose) = Inr (0, [])"
    by (simp add: build_word_tree_def)
qed (blast intro: no_words_counted build_word_tree_overflow build_word_tree_too_deep)+

text \<open>A text of given words, one long word after two short ones, and 1846 increasing words.\<close>

lemma words_of_text:
  assumes "\<forall>w\<in>set ws. w \<noteq> [] \<and> (\<forall>c\<in>set w. isalnum c)"
  shows "words (concat (map (\<lambda>w. w @ '' '') ws)) = ws"
  using assms
proof (induction ws)
  case (Cons w ws)
  obtain c cs where w: "w = c # cs" "isalnum c" "\<forall>c\<in>set cs. isalnum c" using Cons.prems by (cases w) auto
  have "\<not> isalnum CHR '' ''" by (simp add: isalnum_def less_eq_char_def)
  then have "takeWhile isalnum (cs @ '' '' @ f) = cs" "words (dropWhile isalnum (cs @ '' '' @ f)) = words f" for f
    using w(3) by (simp_all add: takeWhile_append2 dropWhile_append2)
  then show ?case using Cons w by (simp add: words_Cons_alnum)
qed simp

definition runs :: "nat \<Rightarrow> char \<Rightarrow> string list" where
  "runs n c = map (\<lambda>i. replicate (Suc i) c) [0..<n]"

lemma replicate_less: "i < j \<Longrightarrow> replicate i c < (replicate j c :: string)"
proof (induction i arbitrary: j)
  case 0
  then show ?case by (cases j) auto
next
  case (Suc i)
  then show ?case by (cases j) auto
qed

lemma runs_increasing: "sorted_wrt (<) (runs n c)"
  by (auto simp: runs_def sorted_wrt_map sorted_wrt_iff_nth_less intro!: replicate_less simp del: replicate_Suc)

lemma set_runs: "w \<in> set (runs n c) \<longleftrightarrow> (\<exists>i<n. w = replicate (Suc i) c)"
  by (auto simp: runs_def)

theorem word_tree_limits_witness:
  "build_word_tree (Some (concat (map (\<lambda>w. w @ '' '') [''a'', ''b'', replicate 1024 CHR ''a'']))) = Inl Wild_access \<and>
   build_word_tree (Some (concat (map (\<lambda>w. w @ '' '') (runs 923 CHR ''a'' @ runs 923 CHR ''b'')))) =
     Inl (Debugger ''Infinite recursion!'')"
proof
  have ab: "isalnum CHR ''a''" "isalnum CHR ''b''" by (simp_all add: isalnum_def less_eq_char_def)
  note t = word_tree_limits [THEN conjunct2, THEN conjunct2]
  let ?f = "concat (map (\<lambda>w. w @ '' '') [''a'', ''b'', replicate 1024 CHR ''a''])"
  have "words ?f = [''a'', ''b''] @ replicate 1024 CHR ''a'' # []"
    using ab by (subst words_of_text) auto
  then show "build_word_tree (Some ?f) = Inl Wild_access"
    by (rule t [THEN conjunct1, rule_format]) (auto simp: BUFFER_SIZE_def card_insert_if)
  let ?ws = "runs 923 CHR ''a'' @ runs 923 CHR ''b''" and ?g = "concat (map (\<lambda>w. w @ '' '') (runs 923 CHR ''a'' @ runs 923 CHR ''b''))"
  have s: "sorted_wrt (<) ?ws"
    by (auto simp: sorted_wrt_append runs_increasing set_runs less_char_def)
  have l: "\<forall>w\<in>set ?ws. length w < BUFFER_SIZE" by (auto simp: set_runs BUFFER_SIZE_def)
  obtain us w where e: "?ws = us @ [w]" and n: "length us = 1845"
  proof
    show "?ws = butlast ?ws @ [last ?ws]" by (rule append_butlast_last_id [symmetric]) (simp add: runs_def)
    show "length (butlast ?ws) = 1845" by (simp add: runs_def)
  qed
  have "words ?g = ?ws" using ab by (intro words_of_text) (auto simp: set_runs)
  then have "words ?g = us @ w # []" by (simp add: e)
  then show "build_word_tree (Some ?g) = Inl (Debugger ''Infinite recursion!'')"
    using s l n unfolding e by (intro t [THEN conjunct2, THEN spec [of _ us], THEN spec [of _ w], THEN spec [of _ "[]"], rule_format]) auto
qed

subsection \<open>Times\<close>

text \<open>
  RTtime_diff of two times with normalised nanoseconds is their exact difference, again
  normalised, and RTtime_cmp says which of two such times is later.
\<close>

theorem RTtime_diff_exact:
  assumes "time_ok a" and "time_ok b"
  shows "nanos (RTtime_diff a b) = nanos a - nanos b \<and>
    0 \<le> tv_nsec (RTtime_diff a b) \<and> tv_nsec (RTtime_diff a b) < 1000000000 \<and>
    (RTtime_cmp a b \<longleftrightarrow> 0 < nanos (RTtime_diff a b))"
  using RTtime_diff_nanos [OF assms] RTtime_cmp_nanos [OF assms] by simp

theorem RTtime_diff_exact_witness:
  "RTtime_diff \<lparr>tv_sec = 5, tv_nsec = 100\<rparr> \<lparr>tv_sec = 3, tv_nsec = 200\<rparr> = \<lparr>tv_sec = 1, tv_nsec = 999999900\<rparr> \<and>
   nanos (RTtime_diff \<lparr>tv_sec = 5, tv_nsec = 100\<rparr> \<lparr>tv_sec = 3, tv_nsec = 200\<rparr>) = 1999999900"
  using RTtime_diff_exact [of "\<lparr>tv_sec = 5, tv_nsec = 100\<rparr>" "\<lparr>tv_sec = 3, tv_nsec = 200\<rparr>"]
  by (simp add: time_ok_def RTtime_diff_def c_long_def nanos_def)

subsection \<open>White counts\<close>

text \<open>
  verify_white_counts stops in no state of a collection: in all groups the links of the
  white objects are multiples of the size of the group where the group shares pages, and
  the white count is the number of white objects.
\<close>

theorem verify_white_counts_accepts_marking:
  assumes "heap_marking s A" and "\<And>i. i \<in> group_indices \<Longrightarrow> length (whites (A i)) < fuel" and "fuel < 2 ^ 31"
  shows "verify_white_counts fuel s = Inr s"
  using assms by (rule verify_white_counts_accepts)

theorem verify_white_counts_accepts_marking_witness:
  "\<exists>s1. flip [sample_thread] sample_state = Inr s1 \<and> white_count (groups s1 12) = 3 \<and>
    verify_white_counts 10 s1 = Inr s1"
proof -
  obtain s1 where 1: "flip [sample_thread] sample_state = Inr s1" "heap_marking s1 (flipped sample_lists)"
    by (rule sample_marking_start)
  have "length (whites (flipped sample_lists i)) < 10" if "i \<in> group_indices" for i
    using that by (simp add: sample_lists_def)
  then have "verify_white_counts 10 s1 = Inr s1"
    using verify_white_counts_accepts_marking [OF 1(2)] by simp
  moreover have "white_count (groups s1 12) = 3"
    using heap_repD(5) [OF 1(2), of 12] by (simp add: marking_rep_def group_rep_def sample_lists_def)
  ultimately show ?thesis using 1(1) by blast
qed

subsection \<open>Finalization\<close>

text \<open>
  C35: the ring of objects to finalize never holds an object: in every state that can be
  reached from finalize_init, finalize_add and finalize_remove both wait.
\<close>

theorem finalize_ring_never_moves:
  assumes "finalize_step\<^sup>*\<^sup>* (finalize_init r) r'"
  shows "finalize_add obj r' = None \<and> finalize_remove r' = None \<and> r' = finalize_init r"
  using finalize_stuck [OF assms] finalize_init_blocked by simp

theorem finalize_ring_never_moves_witness:
  "finalize_add 5 (finalize_init \<lparr>finalize_head = 3, finalize_tail = 1, ring_slots = (\<lambda>_. 0)\<rparr>) = None"
  using finalize_ring_never_moves [OF rtranclp.rtrancl_refl] by blast

end
