(* ===== verification/Program_Properties.thy ===== *)
theory Program_Properties
  imports Main_Program Byte_Barrier Diagnostics Startup_Properties Client_Properties
begin

text \<open>
  What the programs around the collector promise: the start of the client program up to the
  threads that count words, the benchmark of signals, and the write vector of the other
  configuration.
\<close>

subsection \<open>The start of the client program\<close>

text \<open>
  C37: main of a.c, given memory and threads that start, leaves an empty heap of 2048 pages in
  one hole that satisfies the invariant, with no collection running, and one live thread;
  the first pass of make_threads, on that table, ends with four live threads, three of them
  with start_word_count to run, in the order the flip will walk them.
\<close>

theorem program_starts:
  assumes "\<And>k n. big_malloc k n \<noteq> 0" and "good_segment (big_malloc 8 (2 ^ 23)) (2 ^ 23)"
    and "length (threads t) = MAX_THREADS" and "total_threads t = 0"
    and "starts e" and "\<And>n. starts (env n)"
  shows "\<exists>s' t' w. main_start big_malloc stack_size 0 e g (s, t) = Inr (s', t') \<and>
    heap_inv {} s' no_objects [(0, 2048)] \<and> \<not> enable_write_barrier s' \<and>
    threads_rep t' [1..<MAX_THREADS] [0] \<and> th_start_func (threads t' ! 0) = g \<and>
    make_threads_pass 4 env f \<lparr>mtable = t', total_threads_created = 0, mprinted = []\<rparr> = Inr w \<and>
    threads_rep (mtable w) [4..<MAX_THREADS] [3, 2, 1, 0] \<and> total_threads_created w = 3 \<and>
    (\<forall>i\<in>{1, 2, 3}. th_start_func (threads (mtable w) ! i) = f)"
proof -
  obtain s' where s': "RTinit_heap big_malloc stack_size 0 (2 ^ 23) (2 ^ 18) (s\<lparr>RTatomic_gc := False\<rparr>, t) =
      Inr (s', init_mutator_threads t)" "fresh_heap (2 ^ 23 div BYTES_PER_PAGE) s'"
    by (rule RTinit_heap_refines [where big_malloc = big_malloc and s = "s\<lparr>RTatomic_gc := False\<rparr>" and k = "2 ^ 18" and n = "2 ^ 23" and key = 0,
        OF assms(1,2)]) (simp_all add: config_defs)
  have "[0..<MAX_THREADS] = 0 # [1..<MAX_THREADS]" "[1..<MAX_THREADS] = [1, 2, 3] @ [4..<MAX_THREADS]"
    by (simp_all add: MAX_THREADS_def upt_conv_Cons)
  note u = this
  have "threads_rep (init_mutator_threads t) (0 # [1..<MAX_THREADS]) []"
    using init_mutator_threads_rep [OF assms(3,4)] u(1) by simp
  then obtain t' where t': "RTpthread_create e g 0 (init_mutator_threads t) = Inr (t', 0)"
    "threads_rep t' [1..<MAX_THREADS] [0]"
    "threads t' ! 0 = started_thread e g 0 (live_threads (init_mutator_threads t))"
    by (rule RTpthread_create_refines [OF _ assms(5)])
  let ?w = "\<lparr>mtable = t', total_threads_created = 0, mprinted = []\<rparr>"
  have "threads_rep (mtable ?w) ([1, 2, 3] @ [4..<MAX_THREADS]) [0]" using t'(2) u(2) by simp
  from make_threads_pass_creates [OF this, where env = env and f = f and fuel = 4] assms(6)
  obtain w where "make_threads_pass 4 env f ?w = Inr w" "threads_rep (mtable w) [4..<MAX_THREADS] [3, 2, 1, 0]"
    "total_threads_created w = 3" "\<forall>i\<in>{1, 2, 3}. th_start_func (threads (mtable w) ! i) = f" by auto
  moreover have "main_start big_malloc stack_size 0 e g (s, t) = Inr (s', t')"
    unfolding main_start_def prod.case s'(1) rbind_simps t'(1) ..
  ultimately show ?thesis
    using s'(2) t'(2,3) by (intro exI [of _ s'] exI [of _ t'] exI [of _ w])
      (simp add: fresh_heap_def started_thread_def config_defs)
qed

theorem program_starts_witness:
  "\<exists>s' t' w. main_start (RTbig_malloc sample_mmap) 0x2000 0 sample_env 0x400 (sample_state, sample_threads) = Inr (s', t') \<and>
    heap_inv {} s' no_objects [(0, 2048)] \<and>
    make_threads_pass 4 (\<lambda>_. sample_env) 0x500 \<lparr>mtable = t', total_threads_created = 0, mprinted = []\<rparr> = Inr w \<and>
    threads_rep (mtable w) [4..<MAX_THREADS] [3, 2, 1, 0]"
proof -
  have g: "good_segment (RTbig_malloc sample_mmap 8 (2 ^ 23)) (2 ^ 23)"
    by (simp add: RTbig_malloc_def sample_mmap_def good_segment_def config_defs)
  have e: "starts sample_env" by (simp add: starts_def sample_env_def)
  have t: "length (threads sample_threads) = MAX_THREADS" "total_threads sample_threads = 0"
    by (simp_all add: sample_threads_def)
  show ?thesis
    using program_starts [where big_malloc = "RTbig_malloc sample_mmap" and e = sample_env and env = "\<lambda>_. sample_env"
        and f = "0x500" and g = "0x400" and s = sample_state and stack_size = "0x2000", OF sample_mmap_not_0 g t e e]
    by blast
qed

text \<open>
  A thread of start_word_count comes to its end exactly when the text has 9317 words, and
  reports every 25th count; on any other text the first count fails an assertion.
\<close>

theorem start_word_count_checks_text:
  assumes "words f \<noteq> []" and "card (set (words f)) \<le> 1844" and "length (words f) < 2 ^ 31 - 1"
    and "\<forall>w\<in>set (words f). length w < BUFFER_SIZE" and "0 < rounds"
  shows "start_word_count thread (Some f) rounds =
    (if length (words f) = 9317 then Inr (map (Pair thread) (filter (\<lambda>i. i mod 25 = 0) [0..rounds - 1]))
     else Inl Assert_failed)"
proof -
  have n: "int (length (words f)) < 2 ^ 31 - 1" using assms(3) by simp
  obtain t where t: "build_word_tree (Some f) = Inr t" "entries t = some_words (tally_words (words f))"
    using build_word_tree_tally [OF assms(1,2) n assms(4)] by blast
  have w: "walk_word_tree t False = Inr (int (length (words f)), [])"
    using walk_word_tree_sorted [OF t(2) tally_words_sorted [OF n]] n by (simp add: sum_tally_words)
  show ?thesis
  proof (cases "length (words f) = 9317")
    case True
    then have "walk_word_tree t False = Inr (REDHEAD_WORDS, [])" using w by (simp add: REDHEAD_WORDS_def)
    from word_count_prints [OF t(1) this, of thread "[0..rounds - 1]" "[]"] True
    show ?thesis by (simp add: start_word_count_def)
  next
    case False
    then have "int (length (words f)) \<noteq> REDHEAD_WORDS" by (simp add: REDHEAD_WORDS_def)
    then show ?thesis using False start_word_count_wrong [OF t(1) w _ assms(5)] by simp
  qed
qed

subsection \<open>The benchmark of signals\<close>

text \<open>
  C38: in sigtime.c every signal is handled exactly once before the next is sent: the loop that
  sends ends only with a counter of 50, and while the other thread lives, the wait of each
  turn is over or the handler can end it. But when that thread has made its readings
  first, the wait has no end: a state is reachable in which neither thread can move.
\<close>

theorem signals_handled_once:
  assumes "timing_reachable w"
  shows "(sender w = Sent \<longrightarrow> sig_counter w = 50 \<and> \<not> pending w) \<and>
    (\<forall>i next_count. sender w = Waiting i next_count \<longrightarrow> i < 50 \<and> next_count = int i + 1 \<and>
       (receiver w \<noteq> Ended \<longrightarrow>
          sender_step w (w\<lparr>sender := Send (i + 1)\<rparr>) \<or>
          receiver_step w (w\<lparr>sig_counter := next_count, pending := False\<rparr>))) \<and>
    (\<exists>w'. timing_reachable w' \<and> sender w' = Waiting 0 1 \<and> (\<nexists>u. sender_step w' u) \<and> (\<nexists>u. receiver_step w' u))"
proof -
  have ok: "timing_ok w" by (rule timing_reachable_ok [OF assms])
  have "sender_step w (w\<lparr>sender := Send (i + 1)\<rparr>) \<or> receiver_step w (w\<lparr>sig_counter := n, pending := False\<rparr>)"
    if t: "sender w = Waiting i n" "receiver w \<noteq> Ended" for i n
  proof (cases "n \<le> sig_counter w")
    case True
    then show ?thesis using sender_step.handled [OF t(1)] by blast
  next
    case False
    then have p: "pending w" "sig_counter w = int i" "n = int i + 1" "i < SIGNALS"
      using ok t by (auto simp: timing_ok_def)
    then have "c_long (sig_counter w + 1) = n" using c_long_next by simp
    then show ?thesis using receiver_step.handler_func [OF t(2) p(1)] by simp
  qed
  moreover obtain w' where w': "timing_reachable w'" "sender w' = Waiting 0 1" "receiver w' = Ended"
    "sig_counter w' = 0" by (rule sender_stuck)
  moreover have "\<nexists>u. sender_step w' u" using w' by (auto elim: sender_step.cases)
  moreover have "\<nexists>u. receiver_step w' u" using w' by (auto elim: receiver_step.cases)
  ultimately show ?thesis using ok by (auto simp: timing_ok_def SIGNALS_def)
qed

theorem signals_handled_once_witness:
  "\<exists>w. timing_reachable w \<and> sender w = Waiting 0 1 \<and> receiver w = Spinning \<and>
    receiver_step w (w\<lparr>sig_counter := 1, pending := False\<rparr>)"
proof -
  let ?w1 = "timing_start\<lparr>sig_counter := 0, flag := 1, sender := Send 0\<rparr>"
  let ?w2 = "?w1\<lparr>pending := (pending ?w1 \<or> receiver ?w1 \<noteq> Ended), sender := Waiting 0 (c_long (sig_counter ?w1 + 1))\<rparr>"
  have "sender_step timing_start ?w1" by (rule sender_step.start_sending) (simp add: timing_start_def)
  then have "timing_reachable ?w1" by (rule by_sender [OF timing_begins])
  moreover have "sender_step ?w1 ?w2" by (rule sender_step.send) (simp_all add: SIGNALS_def)
  ultimately have r: "timing_reachable ?w2" by (rule by_sender)
  have c: "sender ?w2 = Waiting 0 1" "receiver ?w2 = Spinning" "sig_counter ?w2 = 0"
    using c_long_next [of 0] by (simp_all add: timing_start_def SIGNALS_def)
  have "\<not> sender_step ?w2 (?w2\<lparr>sender := Send (0 + 1)\<rparr>)" using c by (auto elim!: sender_step.cases)
  then show ?thesis using signals_handled_once [OF r] r c by (intro exI [of _ ?w2]) auto
qed

text \<open>
  What ns_busy_loop prints is exact as long as readings that follow each other are less than
  a second apart: it prints the nanoseconds of the difference and leaves out the seconds.
\<close>

theorem ns_busy_loop_exact:
  assumes "\<And>i. time_ok (clock i)" and "\<And>i. nanos (clock i) \<le> nanos (clock (i + 1))"
    and "\<And>i. nanos (clock (i + 1)) < nanos (clock i) + 1000000000"
  shows "ns_busy_loop clock = map (\<lambda>i. nanos (clock (i + 1)) - nanos (clock i)) [0..<6004]"
proof -
  have "tv_nsec (RTtime_diff (clock (i + 1)) (clock i)) = nanos (clock (i + 1)) - nanos (clock i)" for i
  proof -
    let ?d = "RTtime_diff (clock (i + 1)) (clock i)"
    have d: "nanos ?d = nanos (clock (i + 1)) - nanos (clock i)" "0 \<le> tv_nsec ?d \<and> tv_nsec ?d < 1000000000"
      by (rule RTtime_diff_nanos [OF assms(1) assms(1)])+
    then have "tv_sec ?d = 0" using assms(2,3) [of i] by (simp add: nanos_def)
    then show ?thesis using d(1) by (simp add: nanos_def)
  qed
  then show ?thesis by (simp add: ns_busy_loop_def sigtime_RTtime_diff_eq SAMPLE_COUNT_def)
qed

subsection \<open>The byte vector\<close>

text \<open>
  C39: the write vector of bytes records what the vector of bits records. From vectors that
  agree, recording an object leaves them in agreement, and the scan of the one stops exactly
  when the scan of the other does; otherwise both leave the same heap, with the same
  objects gray and the same count, and vectors that agree again.
\<close>

theorem byte_vector_equals_bit_vector:
  assumes "vectors_agree s v"
  shows "(layout_ok s \<and> IN_PARTITION s x \<longrightarrow>
      (\<exists>s1. mark_write_vector x s = Inr s1 \<and> vectors_agree s1 (byte_mark_write_vector s x v))) \<and>
    (case scan_write_vector s of
       Inl e \<Rightarrow> byte_scan_write_vector (64 * nat (RTwrite_vector_length s)) s v = Inl e
     | Inr (s1, n) \<Rightarrow> \<exists>s2 v2. byte_scan_write_vector (64 * nat (RTwrite_vector_length s)) s v = Inr ((s2, v2), n) \<and>
         s2 = s1\<lparr>RTwrite_vector := RTwrite_vector s2\<rparr> \<and> vectors_agree s1 v2)"
proof -
  have "both byte_state (scan_write_vector s) (byte_scan_write_vector (64 * nat (RTwrite_vector_length s)) s v)"
    using scan_write_vectors_agree [OF assms, of "RTwrite_vector s"] by simp
  then show ?thesis
    using mark_write_vectors_agree [OF assms]
    by (cases "byte_scan_write_vector (64 * nat (RTwrite_vector_length s)) s v")
      (auto simp: both_def byte_state_def split: sum.splits)
qed

theorem byte_vector_equals_bit_vector_witness:
  "\<exists>s1. mark_write_vector 0x11000 sample_state = Inr s1 \<and> vectors_agree s1 ((\<lambda>_. 0)(128 := 1))"
proof -
  have "vectors_agree sample_state (\<lambda>_. 0)" by (simp add: vectors_agree_def sample_state_def)
  moreover have "layout_ok sample_state \<and> IN_PARTITION sample_state 0x11000"
    using sample_layout by (simp add: IN_PARTITION_def)
  moreover have "byte_mark_write_vector sample_state 0x11000 (\<lambda>_. 0) = (\<lambda>_. 0)(128 := 1)"
    by (simp add: byte_mark_write_vector_def config_defs)
  ultimately show ?thesis using byte_vector_equals_bit_vector [of sample_state "\<lambda>_. 0" "0x11000"] by simp
qed

end
