(* ===== verification/Wb_Checker.thy ===== *)
theory Wb_Checker
  imports Main
begin

text \<open>
  The tools of wbcheck that look for stores without a write barrier. wb.cpp matches
  assignments and calls in the syntax tree that clang gives and rewrites them;
  wb-libclang.c walks the cursors of libclang and reports extents. The tree is the input:
  what clang says of a node (its operator, types, locations and tokens) are its fields. The
  edits handed to the rewriter and the lines printed are the output.
\<close>

subsection \<open>wb.cpp\<close>

text \<open>
  A binary operator, with the offsets in the source where its sides begin and where their
  last tokens end, and a call of a function.
\<close>

record binary_operator =
  opcode_str :: string
  is_compound :: bool
  lhs_b :: nat
  lhs_e :: nat
  rhs_b :: nat
  rhs_e :: nat
  lhs_pointer :: bool
  lhs_automatic_var :: bool
  record_type :: bool
  filename :: string
  presumed_line :: nat
  presumed_col :: nat

datatype ast_node = Binary_operator binary_operator | Call_expr string nat | Other_node

datatype tool_output =
  ReplaceText nat nat string
| InsertText nat string
| Warning string nat nat string

definition text_between :: "string \<Rightarrow> nat \<Rightarrow> nat \<Rightarrow> string" where
  "text_between source b e = take (e - b) (drop b source)"

definition binop_strings :: "string \<Rightarrow> binary_operator \<Rightarrow> string \<times> string \<times> nat" where
  "binop_strings source a =
     (text_between source (lhs_b a) (lhs_e a), text_between source (rhs_b a) (rhs_e a), rhs_e a - lhs_b a)"

definition warn :: "binary_operator \<Rightarrow> string \<Rightarrow> tool_output" where
  "warn a warning = Warning (filename a) (presumed_line a) (presumed_col a) warning"

definition AssignHandler :: "string \<Rightarrow> binary_operator \<Rightarrow> tool_output list" where
  "AssignHandler source a =
     (let (lhs_text, rhs_text, assign_length) = binop_strings source a;
          rewrite = if is_compound a then ''*** '' @ opcode_str a @ '' with LHS of type pointer***''
                    else ''write_barrier(&('' @ lhs_text @ ''), '' @ rhs_text @ '')''
      in [ReplaceText (lhs_b a) assign_length rewrite])"

definition MemcpyHandler :: "nat \<Rightarrow> tool_output list" where
  "MemcpyHandler loc = [InsertText loc ''RT'']"

definition MemsetHandler :: "nat \<Rightarrow> tool_output list" where
  "MemsetHandler loc = [InsertText loc ''RT'']"

definition RecordAssignHandler :: "string \<Rightarrow> binary_operator \<Rightarrow> tool_output list" where
  "RecordAssignHandler source a =
     (let (lhs_text, rhs_text, assign_length) = binop_strings source a
      in [warn a '' - RecordAssign without write barrier'',
          ReplaceText (lhs_b a) assign_length
            (''RTrecordcpy(&('' @ lhs_text @ ''), &('' @ rhs_text @ ''), sizeof('' @ lhs_text @ ''))'')])"

text \<open>The matchers, in the order in which the consumer registers them, each with its handler.\<close>

definition pointer_assign :: "binary_operator \<Rightarrow> bool" where
  "pointer_assign a \<longleftrightarrow> opcode_str a = ''='' \<and> lhs_pointer a \<and> \<not> lhs_automatic_var a"

definition pointer_compound :: "binary_operator \<Rightarrow> bool" where
  "pointer_compound a \<longleftrightarrow> (opcode_str a = ''+='' \<or> opcode_str a = ''-='') \<and> lhs_pointer a"

definition record_assign :: "binary_operator \<Rightarrow> bool" where
  "record_assign a \<longleftrightarrow> opcode_str a = ''='' \<and> record_type a \<and> \<not> lhs_automatic_var a"

definition on_operator ::
    "(binary_operator \<Rightarrow> bool) \<Rightarrow> (binary_operator \<Rightarrow> tool_output list) \<Rightarrow> ast_node \<Rightarrow> tool_output list" where
  "on_operator match handler n = (case n of Binary_operator a \<Rightarrow> if match a then handler a else [] | _ \<Rightarrow> [])"

definition on_call :: "string \<Rightarrow> (nat \<Rightarrow> tool_output list) \<Rightarrow> ast_node \<Rightarrow> tool_output list" where
  "on_call name handler n = (case n of Call_expr f loc \<Rightarrow> if f = name then handler loc else [] | _ \<Rightarrow> [])"

definition matchers :: "string \<Rightarrow> (ast_node \<Rightarrow> tool_output list) list" where
  "matchers source =
     [on_operator pointer_assign (AssignHandler source),
      on_operator pointer_compound (AssignHandler source),
      on_call ''memcpy'' MemcpyHandler,
      on_call ''memset'' MemsetHandler,
      on_operator record_assign (RecordAssignHandler source)]"

text \<open>HandleTranslationUnit: every node of the tree is given to every matcher.\<close>

definition HandleTranslationUnit :: "string \<Rightarrow> ast_node list \<Rightarrow> tool_output list" where
  "HandleTranslationUnit source nodes = concat (map (\<lambda>n. concat (map (\<lambda>m. m n) (matchers source))) nodes)"

subsection \<open>wb-libclang.c\<close>

text \<open>A cursor: whether its kind is a binary operator, the tokens of its extent, where that starts and ends.\<close>

datatype cursor = Cursor (binary_kind: bool) (tokens: "string list") (extent: "int \<times> int") (children: "cursor list")

fun isAssignment_loop :: "string list \<Rightarrow> int \<Rightarrow> int" where
  "isAssignment_loop [] result = result"
| "isAssignment_loop (str # ts) result = isAssignment_loop ts (if str = ''='' then 1 else result)"

definition isAssignment :: "cursor \<Rightarrow> int" where
  "isAssignment c = isAssignment_loop (tokens c) 0"

text \<open>What the visitor prints for a cursor: the tokens it looks at, and where a barrier is needed.\<close>

datatype printed = Tokens "string list" | Wb_needed int int

definition functionVisitor :: "cursor \<Rightarrow> printed list" where
  "functionVisitor c =
     (if binary_kind c then
        Tokens (tokens c) # (if isAssignment c \<noteq> 0 then [Wb_needed (fst (extent c)) (snd (extent c))] else [])
      else [])"

text \<open>The visitor always returns CXChildVisit_Recurse: every cursor below the root is visited, before its children.\<close>

fun visit :: "cursor \<Rightarrow> printed list" where
  "visit (Cursor k ts e cs) = functionVisitor (Cursor k ts e cs) @ concat (map visit cs)"

definition walk_ast :: "cursor \<Rightarrow> printed list" where
  "walk_ast root = concat (map visit (children root))"

subsection \<open>What is rewritten\<close>

text \<open>What clang promises of a node.\<close>

definition node_ok :: "string \<Rightarrow> binary_operator \<Rightarrow> bool" where
  "node_ok source a \<longleftrightarrow>
     lhs_b a < lhs_e a \<and> lhs_e a < rhs_b a \<and> rhs_b a < rhs_e a \<and> rhs_e a \<le> length source \<and>
     (opcode_str a = ''='' \<longrightarrow> \<not> is_compound a) \<and> (opcode_str a = ''+='' \<or> opcode_str a = ''-='' \<longrightarrow> is_compound a) \<and>
     \<not> (lhs_pointer a \<and> record_type a)"

lemmas handler_defs = AssignHandler_def RecordAssignHandler_def MemcpyHandler_def MemsetHandler_def warn_def binop_strings_def
lemmas match_defs = pointer_assign_def pointer_compound_def record_assign_def on_operator_def on_call_def

lemma operator_output:
  assumes "node_ok source a"
  shows "concat (map (\<lambda>m. m (Binary_operator a)) (matchers source)) =
    (if opcode_str a = ''='' \<and> lhs_pointer a \<and> \<not> lhs_automatic_var a
     then [ReplaceText (lhs_b a) (rhs_e a - lhs_b a) (''write_barrier(&('' @ text_between source (lhs_b a) (lhs_e a) @ ''), '' @
        text_between source (rhs_b a) (rhs_e a) @ '')'')]
     else if opcode_str a = ''='' \<and> record_type a \<and> \<not> lhs_automatic_var a
     then [Warning (filename a) (presumed_line a) (presumed_col a) '' - RecordAssign without write barrier'',
       ReplaceText (lhs_b a) (rhs_e a - lhs_b a) (''RTrecordcpy(&('' @ text_between source (lhs_b a) (lhs_e a) @ ''), &('' @
        text_between source (rhs_b a) (rhs_e a) @ ''), sizeof('' @ text_between source (lhs_b a) (lhs_e a) @ ''))'')]
     else if (opcode_str a = ''+='' \<or> opcode_str a = ''-='') \<and> lhs_pointer a
     then [ReplaceText (lhs_b a) (rhs_e a - lhs_b a) (''*** '' @ opcode_str a @ '' with LHS of type pointer***'')]
     else [])"
  using assms by (auto simp: matchers_def match_defs handler_defs node_ok_def Let_def)

lemma call_output:
  "concat (map (\<lambda>m. m (Call_expr f loc)) (matchers source)) =
    (if f = ''memcpy'' \<or> f = ''memset'' then [InsertText loc ''RT''] else [])"
  by (auto simp: matchers_def match_defs handler_defs)

lemma other_output: "concat (map (\<lambda>m. m Other_node) (matchers source)) = []"
  by (simp add: matchers_def match_defs)

text \<open>The output for a list of nodes, element by element.\<close>

lemma output_iff:
  "x \<in> set (HandleTranslationUnit source nodes) \<longleftrightarrow>
    (\<exists>n\<in>set nodes. x \<in> set (concat (map (\<lambda>m. m n) (matchers source))))"
  by (simp add: HandleTranslationUnit_def)

lemma replacement_iff:
  assumes "\<And>a. Binary_operator a \<in> set nodes \<Longrightarrow> node_ok source a"
  shows "ReplaceText b n t \<in> set (HandleTranslationUnit source nodes) \<longleftrightarrow>
    (\<exists>a. Binary_operator a \<in> set nodes \<and> b = lhs_b a \<and> n = rhs_e a - lhs_b a \<and>
      (opcode_str a = ''='' \<and> lhs_pointer a \<and> \<not> lhs_automatic_var a \<and>
         t = ''write_barrier(&('' @ text_between source (lhs_b a) (lhs_e a) @ ''), '' @
           text_between source (rhs_b a) (rhs_e a) @ '')'' \<or>
       opcode_str a = ''='' \<and> record_type a \<and> \<not> lhs_automatic_var a \<and>
         t = ''RTrecordcpy(&('' @ text_between source (lhs_b a) (lhs_e a) @ ''), &('' @
           text_between source (rhs_b a) (rhs_e a) @ ''), sizeof('' @ text_between source (lhs_b a) (lhs_e a) @ ''))'' \<or>
       (opcode_str a = ''+='' \<or> opcode_str a = ''-='') \<and> lhs_pointer a \<and>
         t = ''*** '' @ opcode_str a @ '' with LHS of type pointer***''))"
proof -
  have "ReplaceText b n t \<in> set (concat (map (\<lambda>m. m x) (matchers source))) \<longleftrightarrow>
    (\<exists>a. x = Binary_operator a \<and> b = lhs_b a \<and> n = rhs_e a - lhs_b a \<and>
      (opcode_str a = ''='' \<and> lhs_pointer a \<and> \<not> lhs_automatic_var a \<and>
         t = ''write_barrier(&('' @ text_between source (lhs_b a) (lhs_e a) @ ''), '' @
           text_between source (rhs_b a) (rhs_e a) @ '')'' \<or>
       opcode_str a = ''='' \<and> record_type a \<and> \<not> lhs_automatic_var a \<and>
         t = ''RTrecordcpy(&('' @ text_between source (lhs_b a) (lhs_e a) @ ''), &('' @
           text_between source (rhs_b a) (rhs_e a) @ ''), sizeof('' @ text_between source (lhs_b a) (lhs_e a) @ ''))'' \<or>
       (opcode_str a = ''+='' \<or> opcode_str a = ''-='') \<and> lhs_pointer a \<and>
         t = ''*** '' @ opcode_str a @ '' with LHS of type pointer***''))"
    if "x \<in> set nodes" for x
  proof (cases x)
    case (Binary_operator a)
    then have "node_ok source a" using assms that by simp
    then show ?thesis
      using Binary_operator by (simp only: operator_output) (auto simp: node_ok_def)
  next
    case (Call_expr f loc)
    then show ?thesis by (simp only: call_output) simp
  next
    case Other_node
    then show ?thesis by (simp only: other_output) simp
  qed
  then show ?thesis unfolding output_iff by blast
qed

lemma warning_iff:
  assumes "\<And>a. Binary_operator a \<in> set nodes \<Longrightarrow> node_ok source a"
  shows "Warning f l c t \<in> set (HandleTranslationUnit source nodes) \<longleftrightarrow>
    (\<exists>a. Binary_operator a \<in> set nodes \<and> f = filename a \<and> l = presumed_line a \<and> c = presumed_col a \<and>
      opcode_str a = ''='' \<and> record_type a \<and> \<not> lhs_automatic_var a \<and>
      t = '' - RecordAssign without write barrier'')"
proof -
  have "Warning f l c t \<in> set (concat (map (\<lambda>m. m x) (matchers source))) \<longleftrightarrow>
    (\<exists>a. x = Binary_operator a \<and> f = filename a \<and> l = presumed_line a \<and> c = presumed_col a \<and>
      opcode_str a = ''='' \<and> record_type a \<and> \<not> lhs_automatic_var a \<and>
      t = '' - RecordAssign without write barrier'')"
    if "x \<in> set nodes" for x
  proof (cases x)
    case (Binary_operator a)
    then have "node_ok source a" using assms that by simp
    then show ?thesis
      using Binary_operator by (simp only: operator_output) (auto simp: node_ok_def)
  next
    case (Call_expr f loc)
    then show ?thesis by (simp only: call_output) simp
  next
    case Other_node
    then show ?thesis by (simp only: other_output) simp
  qed
  then show ?thesis unfolding output_iff by blast
qed

lemma insertion_iff:
  assumes "\<And>a. Binary_operator a \<in> set nodes \<Longrightarrow> node_ok source a"
  shows "InsertText loc t \<in> set (HandleTranslationUnit source nodes) \<longleftrightarrow>
    t = ''RT'' \<and> (Call_expr ''memcpy'' loc \<in> set nodes \<or> Call_expr ''memset'' loc \<in> set nodes)"
proof -
  have "InsertText loc t \<in> set (concat (map (\<lambda>m. m x) (matchers source))) \<longleftrightarrow>
    t = ''RT'' \<and> (x = Call_expr ''memcpy'' loc \<or> x = Call_expr ''memset'' loc)"
    if "x \<in> set nodes" for x
  proof (cases x)
    case (Binary_operator a)
    then have "node_ok source a" using assms that by simp
    then show ?thesis
      using Binary_operator by (simp only: operator_output) simp
  next
    case (Call_expr f l)
    then show ?thesis by (simp only: call_output) auto
  next
    case Other_node
    then show ?thesis by (simp only: other_output) simp
  qed
  then show ?thesis unfolding output_iff by blast
qed

subsection \<open>What is reported\<close>

lemma isAssignment_iff: "isAssignment c \<noteq> 0 \<longleftrightarrow> ''='' \<in> set (tokens c)"
proof -
  have "isAssignment_loop ts r = (if ''='' \<in> set ts then 1 else r)" for ts r
    by (induction ts arbitrary: r) auto
  then show ?thesis by (simp add: isAssignment_def)
qed

fun cursors :: "cursor \<Rightarrow> cursor set" where
  "cursors (Cursor k ts e cs) = insert (Cursor k ts e cs) (\<Union>c\<in>set cs. cursors c)"

lemma visit_reports:
  "Wb_needed b e \<in> set (visit c) \<longleftrightarrow> (\<exists>d\<in>cursors c. binary_kind d \<and> ''='' \<in> set (tokens d) \<and> extent d = (b, e))"
proof (induction c)
  case (Cursor k ts x cs)
  have "Wb_needed b e \<in> set (functionVisitor (Cursor k ts x cs)) \<longleftrightarrow> k \<and> ''='' \<in> set ts \<and> x = (b, e)"
    by (auto simp: functionVisitor_def isAssignment_iff)
  then show ?case using Cursor.IH by auto
qed

lemma walk_ast_reports:
  "Wb_needed b e \<in> set (walk_ast root) \<longleftrightarrow>
     (\<exists>c\<in>set (children root). \<exists>d\<in>cursors c. binary_kind d \<and> ''='' \<in> set (tokens d) \<and> extent d = (b, e))"
  by (auto simp: walk_ast_def visit_reports)

end
