(* ===== verification/Checker_Properties.thy ===== *)
theory Checker_Properties
  imports Wb_Checker
begin

text \<open>
  What the tools of wbcheck report: the stores wb.cpp rewrites, and the extents wb-libclang.c
  prints, with their limits on concrete sources.
\<close>

text \<open>
  C40: wb.cpp replaces exactly these operators of a translation unit, each as a whole: a store
  with \<open>=\<close> of a pointer whose left side is not a local variable, by a call of write_barrier;
  a store with \<open>=\<close> of a whole record whose left side is not a local variable, by a call of
  RTrecordcpy, and for exactly these it prints a warning with their place; and \<open>+=\<close> and
  \<open>-=\<close> of a pointer, also of a local variable, by a message. It puts RT before exactly the
  calls of memcpy and memset. In a chained store \<open>a = b = c\<close> the text for the outer store
  holds the inner one as it was in the source, without a barrier. wb-libclang.c reports exactly
  the binary operators with a token \<open>=\<close> in them.
\<close>

theorem checker_reports_stores:
  assumes "\<And>a. Binary_operator a \<in> set nodes \<Longrightarrow> node_ok source a"
  shows "(\<forall>b n t. ReplaceText b n t \<in> set (HandleTranslationUnit source nodes) \<longleftrightarrow>
      (\<exists>a. Binary_operator a \<in> set nodes \<and> b = lhs_b a \<and> n = rhs_e a - lhs_b a \<and>
      (opcode_str a = ''='' \<and> lhs_pointer a \<and> \<not> lhs_automatic_var a \<and>
         t = ''write_barrier(&('' @ text_between source (lhs_b a) (lhs_e a) @ ''), '' @
           text_between source (rhs_b a) (rhs_e a) @ '')'' \<or>
       opcode_str a = ''='' \<and> record_type a \<and> \<not> lhs_automatic_var a \<and>
         t = ''RTrecordcpy(&('' @ text_between source (lhs_b a) (lhs_e a) @ ''), &('' @
           text_between source (rhs_b a) (rhs_e a) @ ''), sizeof('' @ text_between source (lhs_b a) (lhs_e a) @ ''))'' \<or>
       (opcode_str a = ''+='' \<or> opcode_str a = ''-='') \<and> lhs_pointer a \<and>
         t = ''*** '' @ opcode_str a @ '' with LHS of type pointer***''))) \<and>
    (\<forall>f l c t. Warning f l c t \<in> set (HandleTranslationUnit source nodes) \<longleftrightarrow>
      (\<exists>a. Binary_operator a \<in> set nodes \<and> f = filename a \<and> l = presumed_line a \<and> c = presumed_col a \<and>
        opcode_str a = ''='' \<and> record_type a \<and> \<not> lhs_automatic_var a \<and>
        t = '' - RecordAssign without write barrier'')) \<and>
    (\<forall>loc t. InsertText loc t \<in> set (HandleTranslationUnit source nodes) \<longleftrightarrow>
      t = ''RT'' \<and> (Call_expr ''memcpy'' loc \<in> set nodes \<or> Call_expr ''memset'' loc \<in> set nodes)) \<and>
    (\<forall>a i. {Binary_operator a, Binary_operator i} \<subseteq> set nodes \<longrightarrow>
      opcode_str a = ''='' \<and> lhs_pointer a \<and> \<not> lhs_automatic_var a \<longrightarrow>
      lhs_b i = rhs_b a \<longrightarrow> rhs_e i = rhs_e a \<longrightarrow>
      ReplaceText (lhs_b a) (rhs_e a - lhs_b a) (''write_barrier(&('' @ text_between source (lhs_b a) (lhs_e a) @
        ''), '' @ text_between source (lhs_b i) (rhs_e i) @ '')'') \<in> set (HandleTranslationUnit source nodes)) \<and>
    (\<forall>b e. Wb_needed b e \<in> set (walk_ast root) \<longleftrightarrow>
      (\<exists>c\<in>set (children root). \<exists>d\<in>cursors c. binary_kind d \<and> ''='' \<in> set (tokens d) \<and> extent d = (b, e)))"
proof (intro conjI allI impI)
  fix a i
  assume "{Binary_operator a, Binary_operator i} \<subseteq> set nodes" and "lhs_b i = rhs_b a" "rhs_e i = rhs_e a"
    and "opcode_str a = ''='' \<and> lhs_pointer a \<and> \<not> lhs_automatic_var a"
  then show "ReplaceText (lhs_b a) (rhs_e a - lhs_b a) (''write_barrier(&('' @ text_between source (lhs_b a) (lhs_e a) @
      ''), '' @ text_between source (lhs_b i) (rhs_e i) @ '')'') \<in> set (HandleTranslationUnit source nodes)"
    by (intro replacement_iff [OF assms, THEN iffD2] exI [of _ a]) simp_all
qed (rule replacement_iff [OF assms] warning_iff [OF assms] insertion_iff [OF assms] walk_ast_reports, assumption?)+

text \<open>The store of \<open>b1\<close> in wbtest.c, and a chained store.\<close>

definition chained_source :: string where
  "chained_source = ''c->car = d->car = x''"

definition outer_store :: binary_operator where
  "outer_store = \<lparr>opcode_str = ''='', is_compound = False, lhs_b = 0, lhs_e = 6, rhs_b = 9, rhs_e = 19,
     lhs_pointer = True, lhs_automatic_var = False, record_type = False,
     filename = ''wbtest.c'', presumed_line = 1, presumed_col = 1\<rparr>"

definition inner_store :: binary_operator where
  "inner_store = outer_store\<lparr>lhs_b := 9, lhs_e := 15, rhs_b := 18, presumed_col := 10\<rparr>"

lemma chained_ok: "node_ok chained_source outer_store" "node_ok chained_source inner_store"
  by (simp_all add: node_ok_def chained_source_def inner_store_def outer_store_def)

text \<open>The step of a pointer that is a local variable, and a store to one.\<close>

definition local_step :: binary_operator where
  "local_step = outer_store\<lparr>opcode_str := ''+='', is_compound := True, lhs_automatic_var := True\<rparr>"

definition local_store :: binary_operator where
  "local_store = outer_store\<lparr>lhs_automatic_var := True\<rparr>"

lemma local_ok: "node_ok chained_source local_step" "node_ok chained_source local_store"
  using chained_ok(1) by (simp_all add: node_ok_def local_step_def local_store_def outer_store_def)

theorem checker_reports_stores_witness:
  "ReplaceText 0 19 ''write_barrier(&(c->car), d->car = x)''
     \<in> set (HandleTranslationUnit chained_source [Binary_operator outer_store, Binary_operator inner_store]) \<and>
   ReplaceText 0 19 ''*** += with LHS of type pointer***''
     \<in> set (HandleTranslationUnit chained_source [Binary_operator local_step, Binary_operator local_store]) \<and>
   (\<forall>b n t. ReplaceText b n (''write_barrier('' @ t)
     \<notin> set (HandleTranslationUnit chained_source [Binary_operator local_step, Binary_operator local_store]))"
proof (intro conjI allI)
  let ?ns = "[Binary_operator outer_store, Binary_operator inner_store]"
  have ok: "node_ok chained_source a" if "Binary_operator a \<in> set ?ns" for a using that chained_ok by auto
  note t = checker_reports_stores [where nodes = ?ns and source = chained_source, OF ok]
  have "ReplaceText (lhs_b outer_store) (rhs_e outer_store - lhs_b outer_store)
      (''write_barrier(&('' @ text_between chained_source (lhs_b outer_store) (lhs_e outer_store) @
        ''), '' @ text_between chained_source (lhs_b inner_store) (rhs_e inner_store) @ '')'')
      \<in> set (HandleTranslationUnit chained_source ?ns)"
    by (rule t [THEN conjunct2, THEN conjunct2, THEN conjunct2, THEN conjunct1, rule_format])
      (simp_all add: outer_store_def inner_store_def)
  then show "ReplaceText 0 19 ''write_barrier(&(c->car), d->car = x)'' \<in> set (HandleTranslationUnit chained_source ?ns)"
    by (simp add: text_between_def chained_source_def outer_store_def inner_store_def)
  let ?ls = "[Binary_operator local_step, Binary_operator local_store]"
  have lok: "node_ok chained_source a" if "Binary_operator a \<in> set ?ls" for a using that local_ok by auto
  note l = checker_reports_stores [where nodes = ?ls and source = chained_source, OF lok, THEN conjunct1]
  show "ReplaceText 0 19 ''*** += with LHS of type pointer***'' \<in> set (HandleTranslationUnit chained_source ?ls)"
    by (intro l [rule_format, THEN iffD2] exI [of _ local_step]) (simp_all add: local_step_def outer_store_def)
  fix b n t
  show "ReplaceText b n (''write_barrier('' @ t) \<notin> set (HandleTranslationUnit chained_source ?ls)"
    using l [rule_format, of b n "''write_barrier('' @ t"] by (auto simp: local_step_def local_store_def outer_store_def)
qed

text \<open>A comparison whose right side is an assignment is reported as a store of its own.\<close>

lemma walk_ast_reports_comparison:
  "Wb_needed 0 12 \<in> set (walk_ast (Cursor False [] (0, 12)
     [Cursor True [''x'', ''=='', ''('', ''y'', ''='', ''z'', '')''] (0, 12) []]))"
  unfolding walk_ast_reports by simp

end
