(* ===== verification/Concurrent_Collection.thy ===== *)
theory Concurrent_Collection
  imports Snapshot_Runs
begin

text \<open>
  A collection with the mutators running: the flip, marking in any interleaving with their
  steps, and the sweep. What the mutators do keeps the lists of objects and the holes as
  the sweep needs them, so that it ends and leaves a heap with its invariant, on which what
  was live at the flip is retained.
\<close>

subsection \<open>Objects and slots\<close>

lemma page_objects_slot_aligned:
  assumes lay: "layout_ok s" and pt: "page_table_ok s" and x: "x \<in> page_objects s i"
  shows "slot_aligned s x"
proof -
  define k where "k = PTR_TO_PAGE_INDEX s x"
  let ?f = "uint (first_partition_ptr s)"
  have ip: "IN_PARTITION s x" and g: "pgroup (pages s k) = Group i"
    using x by (simp_all add: page_objects_def PTR_TO_GROUP_def k_def)
  have kb: "0 \<le> k" "k < total_partition_pages s"
    unfolding k_def using PTR_TO_PAGE_INDEX_bounds [OF lay ip] by simp_all
  have i: "i \<in> group_indices" by (rule page_table_okD(1) [OF pt kb g])
  have "(32 :: int) dvd 4096" by simp
  then have f: "32 dvd ?f" using lay dvd_trans by (fastforce simp: layout_ok_def config_defs mod_eq_0_iff_dvd)
  have "32 dvd uint x"
  proof (cases "i < PAGE_POWER")
    case True
    have "(2 :: int) ^ 5 dvd 2 ^ i" using i by (intro le_imp_power_dvd) (simp add: group_indices_def config_defs)
    then show ?thesis using x True by (auto simp: page_objects_def mod_eq_0_iff_dvd intro: dvd_trans)
  next
    case False
    obtain b where b: "0 \<le> b" "b \<le> total_partition_pages s" "pbase (pages s k) = PAGE_INDEX_TO_PTR s b"
    proof -
      obtain b where b: "0 \<le> b" "b + 2 ^ (i - PAGE_POWER) \<le> total_partition_pages s" "pbase (pages s k) = PAGE_INDEX_TO_PTR s b"
        using page_table_okD(2) [OF pt kb g] False by auto
      moreover have "(0 :: int) \<le> 2 ^ (i - PAGE_POWER)" by simp
      ultimately have "b \<le> total_partition_pages s" by linarith
      then show ?thesis using that b by blast
    qed
    have "x = PAGE_INDEX_TO_PTR s b" using x False b(3) by (simp add: page_objects_def k_def)
    then have "uint x = ?f + b * 4096"
      using uint_PAGE_INDEX_TO_PTR [OF lay b(1,2)] by (simp add: config_defs)
    then show ?thesis using f by simp
  qed
  moreover have "uint (x - first_partition_ptr s) = uint x - ?f"
    using ip by (simp add: IN_PARTITION_def uint_sub_if' word_le_def)
  ultimately show ?thesis using f by (simp add: slot_aligned_def)
qed

subsection \<open>Cells that neither side writes\<close>

lemma reachable_mono:
  assumes "reachable Hd' s0 rs c" and "Hd \<subseteq> Hd'"
  shows "reachable Hd s0 rs c"
  using assms(1)
proof induction
  case (by_mutator c t c')
  have "mutator_step Hd t c c'"
    using by_mutator(2)
  proof cases
    case (barrier_test lhs rhs)
    then have "lhs \<notin> Hd" using assms(2) by blast
    then show ?thesis unfolding barrier_test(1) by (rule mutator_step.barrier_test [OF barrier_test(2)])
  qed (use assms(2) in \<open>auto intro: mutator_step.intros\<close>)
  then show ?case by (rule reachable.by_mutator [OF by_mutator(3)])
qed (blast intro: reachable.intros)+

lemma collector_step_memory:
  assumes S: "snapshot_start s0 A0 rs" and W: "world_ok h s0 A0 rs c A" and st: "collector_step c c'"
    and a: "a \<notin> header_cells (all_objects A0)"
  shows "memory (heap c') a = memory (heap c) a"
proof -
  note d = world_okD [OF W]
  let ?s = "heap c"
  have tr: "memory s' a = memory ?s a" if t: "RTtrace_pointer w ?s = Inr s'" for w s'
  proof -
    obtain s2 where "RTtrace_pointer w ?s = Inr s2" "memory s2 a = memory ?s a"
      using trace_step [OF d(1), of w] a by metis
    then show ?thesis using t by simp
  qed
  show ?thesis
    using st
  proof cases
    case (blacken i n x s')
    then have "i \<in> group_indices" "grays (A i) \<noteq> []" "x = last (grays (A i))" using d(5) by simp_all
    note g = this
    obtain s2 where "on_group i (\<lambda>m g. Inr (blacken_object (marked_color ?s) m g (last (grays (A i))))) ?s = Inr s2"
      "memory s2 a = memory ?s a"
      by (rule blacken_step [OF d(1) g(1,2)]) (rule that, assumption, use a in simp)
    then show ?thesis using blacken(1,3) g(3) by simp
  next
    case (vector_bit index b bs n s' n')
    then have "0 \<le> index" "index < RTwrite_vector_length ?s" "b < 64"
      using d(5) same_heapD(4) [OF d(1)] by simp_all
    note g = this
    obtain s2 where "scan_write_bit index b (?s, n) = Inr (s2, n + (if bit (RTwrite_vector ?s index) b then 1 else 0))"
      "memory s2 a = memory ?s a"
      by (rule vector_step [OF S d(1) g, where n = n]) (rule that, assumption, use a in simp)
    then show ?thesis using vector_bit(1,3) by simp
  qed (use tr in auto)
qed

lemma collector_run_memory:
  assumes S: "snapshot_start s0 A0 rs" and W: "world_ok h s0 A0 rs c A" and st: "collector_step\<^sup>*\<^sup>* c c'"
    and a: "a \<notin> header_cells (all_objects A0)"
  shows "memory (heap c') a = memory (heap c) a"
  using st W
proof (induction arbitrary: A rule: converse_rtranclp_induct)
  case (step c c1)
  obtain A1 where "world_ok h s0 A0 rs c1 A1" using collector_world_ok [OF S step.prems step.hyps(1)] by blast
  then show ?case using step.IH collector_step_memory [OF S step.prems step.hyps(1) a] by simp
qed simp

lemma allocate_memory:
  assumes H: "same_heap s0 A0 s A" and i: "i \<in> group_indices" and g: "gfree (groups s i) \<noteq> 0"
    and md: "metadata_valid md" and t: "take_object md i s = Inr (s', p)"
    and a: "a \<notin> header_cells (all_objects A0)" and b: "\<And>x. x \<in> object_set A0 i \<Longrightarrow> \<not> in_body x i a"
  shows "memory s' a = memory s a"
proof -
  note e = same_heapD [OF H]
  have "gfree (groups s i) = hd_or (greens (A i)) 0"
    using heap_repD(5) [OF e(1) i] by (auto simp: marking_rep_def dest: group_repD(10))
  then have F: "greens (A i) \<noteq> []" using g by auto
  obtain u where u: "take_object md i s = Inr (u, hd (greens (A i)) + 16)"
    "\<And>a. a \<notin> header_cells (set (objects (A i))) \<Longrightarrow> \<not> in_body (hd (greens (A i))) i a \<Longrightarrow> memory u a = memory s a"
  proof (rule marking_heap.take_object_rep [OF e(1) i F md], goal_cases)
    case (1 u)
    show ?case by (rule 1(1)) (fact 1)+
  qed
  have "header_cells (set (objects (A i))) \<subseteq> header_cells (all_objects A0)"
    using i e(13) [symmetric] by (auto simp: header_cells_def all_objects_def object_set_def simp del: objects_simps)
  moreover have "hd (greens (A i)) \<in> object_set A0 i" using F e(7) [symmetric] by (simp add: object_set_def)
  ultimately show ?thesis using u t a b by auto
qed

fun pending_cells :: "barrier \<Rightarrow> addr set" where
  "pending_cells Outside = {}"
| "pending_cells (To_record x lhs rhs) = {lhs}"
| "pending_cells (To_store lhs rhs) = {lhs}"

lemma cells_untouched:
  assumes S: "snapshot_start s0 A0 rs" and r: "reachable (header_cells (all_objects A0) \<union> K) s0 rs c"
    and K: "K \<inter> header_cells (all_objects A0) = {}"
      "\<And>a i x. a \<in> K \<Longrightarrow> i \<in> group_indices \<Longrightarrow> x \<in> object_set A0 i \<Longrightarrow> \<not> in_body x i a"
  shows "(\<forall>a\<in>K. memory (heap c) a = memory s0 a) \<and> (\<forall>t. pending_cells (barrier c t) \<inter> K = {})"
  using r
proof induction
  case at_start
  then show ?case by (simp add: marking_start_def)
next
  case (by_collector c c')
  have K': "a \<notin> header_cells (all_objects A0)" if "a \<in> K" for a using K(1) that by blast
  obtain A where W: "world_ok no_hooks s0 A0 rs c A"
    using reachable_world_ok [OF S reachable_mono [OF by_collector(1)]] by blast
  have "barrier c' = barrier c" using by_collector(2) by cases simp_all
  then show ?case using by_collector(3) collector_step_memory [OF S W by_collector(2) K'] by simp
next
  case (by_mutator c t c')
  have K': "a \<notin> header_cells (all_objects A0)" if "a \<in> K" for a using K(1) that by blast
  obtain A where W: "world_ok no_hooks s0 A0 rs c A"
    using reachable_world_ok [OF S reachable_mono [OF by_mutator(1)]] by blast
  show ?case
    using by_mutator(2)
  proof cases
    case (barrier_test lhs rhs)
    then show ?thesis using by_mutator(3) by (auto split: option.splits)
  next
    case (barrier_record x lhs rhs s')
    have "memory s' = memory (heap c)" using barrier_record(3) by (auto simp: mark_write_vector_record record_slot_def)
    moreover have "lhs \<notin> K" using by_mutator(3) barrier_record(2) by (metis Int_insert_left insert_not_empty pending_cells.simps(2))
    ultimately show ?thesis using by_mutator(3) barrier_record(1) by auto
  next
    case (barrier_store lhs rhs)
    have "lhs \<notin> K" using by_mutator(3) barrier_store(2) by (metis Int_insert_left insert_not_empty pending_cells.simps(3))
    then show ?thesis using by_mutator(3) barrier_store(1) by auto
  next
    case (setf_init lhs rhs s')
    then show ?thesis using by_mutator(3) by (auto simp: RTsafe_setfInit_def rbind_def split: if_splits)
  next
    case (allocate i md s' p)
    then show ?thesis
      using by_mutator(3) allocate(1) allocate_memory [OF world_okD(1) [OF W] allocate(3-6) K'] K(2) [OF _ allocate(3)] by simp
  qed
qed

subsection \<open>The flip, the marking and the sweep\<close>

text \<open>
  What the collection asks of the heap before it, beside the invariant: the write vector has
  a bit for every 32 bytes, and after the flip the allocated objects have the two plain
  classes and the roots lie outside the blocks of objects.
\<close>

definition plain_heap :: "nat \<Rightarrow> rt_state \<Rightarrow> rt_state \<Rightarrow> (nat \<Rightarrow> agroup) \<Rightarrow> bool" where
  "plain_heap fuel s s1 A \<longleftrightarrow>
     RTwrite_vector_length s = total_partition_pages s * BYTES_PER_PAGE div 2048 \<and>
     (\<forall>x\<in>black_set A. GET_STORAGE_CLASS (memory s1) x \<in> {SC_NOPOINTERS, SC_POINTERS}) \<and>
     (\<forall>p k. (p, k) \<in> set (static_list fuel s1) \<longrightarrow> GET_STORAGE_CLASS (memory s1) p \<in> {SC_NOPOINTERS, SC_POINTERS}) \<and>
     (\<forall>a. Root_cell a \<in> set (root_items fuel s1) \<longrightarrow>
        (\<forall>i\<in>group_indices. \<forall>x\<in>object_set A i. uint a < uint x \<or> uint x + 2 ^ i \<le> uint a))"

lemma heap_inv_idle: "heap_inv T s A H \<Longrightarrow> i \<in> group_indices \<Longrightarrow> whites (A i) = [] \<and> grays (A i) = []"
  using heap_invD(6) by (auto simp: idle_rep_def)

lemma flipped_object_set:
  assumes "heap_inv T s A H" and "i \<in> group_indices"
  shows "object_set (flipped A) i = object_set A i"
  using heap_inv_idle [OF assms] assms(2) by (auto simp: object_set_def)

lemma flip_frame:
  assumes I: "heap_inv {} s A H" and e: "\<not> enable_write_barrier s" and ok: "stoppable s ths A H" and fl: "flip ths s = Inr s1"
  shows "heap_marking s1 (flipped A)" "all_objects (flipped A) = all_objects A" "same_pages s s1"
    "enable_write_barrier s1" "RTwrite_vector s1 = RTwrite_vector s" "RTwrite_vector_length s1 = RTwrite_vector_length s"
    "a \<notin> header_cells (all_objects A) \<Longrightarrow> a \<notin> save_area s ths \<Longrightarrow> memory s1 a = memory s a"
    "aligned x \<Longrightarrow> x + 8 \<notin> save_area s ths \<Longrightarrow> GET_STORAGE_CLASS (memory s1) x = GET_STORAGE_CLASS (memory s) x"
proof -
  obtain sg where sg: "flip ths s = Inr (stopped ths sg)" "gc_frame (all_objects A) s sg"
    "save_area sg ths = save_area s ths" "heap_marking (stopped ths sg) (flipped A)" "all_objects (flipped A) = all_objects A"
    using flip_refines [OF I e ok] by blast
  have s1: "s1 = stopped ths sg" using fl sg(1) by simp
  note sf = stopped_fields [where s = sg and ths = ths, folded s1] and gs = gc_frame_fields [OF sg(2)]
  note sm = stopped_memory [of _ sg ths, folded s1]
  have l: "links_only (all_objects A) (memory s) (memory sg)" using sg(2) by (simp add: gc_frame_def)
  show "heap_marking s1 (flipped A)" "all_objects (flipped A) = all_objects A" using sg(4,5) by (simp_all add: s1)
  show "same_pages s s1" using same_pages_trans [OF gc_frame_same_pages [OF sg(2)] sf(1)] .
  show "enable_write_barrier s1" "RTwrite_vector s1 = RTwrite_vector s" "RTwrite_vector_length s1 = RTwrite_vector_length s"
    using sf gs by simp_all
  show "a \<notin> header_cells (all_objects A) \<Longrightarrow> a \<notin> save_area s ths \<Longrightarrow> memory s1 a = memory s a"
    using sm [of a] links_only_cell [OF l] sg(3) by simp
  show "aligned x \<Longrightarrow> x + 8 \<notin> save_area s ths \<Longrightarrow> GET_STORAGE_CLASS (memory s1) x = GET_STORAGE_CLASS (memory s) x"
    using sm [of "x + 8"] links_only_storage_class [OF l, of x] sg(3) by (simp add: GET_STORAGE_CLASS_def)
qed

lemma flip_snapshot_start:
  assumes I: "heap_inv {} s A H" and e: "\<not> enable_write_barrier s" and ok: "stoppable s ths A H"
    and v: "barrier_clear s" and fl: "flip ths s = Inr s1" and pl: "plain_heap fuel s s1 A"
  shows "snapshot_start s1 (flipped A) (root_items fuel s1)"
proof -
  note F = flip_frame [OF I e ok fl] and d = heap_invD [OF I]
  have fp: "first_partition_ptr s1 = first_partition_ptr s" "total_partition_pages s1 = total_partition_pages s"
    using F(3) by (simp_all add: same_pages_def)
  have al: "slot_aligned s1 x" if "x \<in> all_objects A" for x
  proof -
    obtain i where "i \<in> group_indices" "x \<in> page_objects s i" using \<open>x \<in> all_objects A\<close> d(5) by (auto simp: all_objects_def)
    then have "slot_aligned s x" by (intro page_objects_slot_aligned [OF d(1,4)])
    then show ?thesis using slot_frame(4) [OF fp(1)] by simp
  qed
  have w: "white_set (flipped A) = black_set A" by (simp add: color_sets)
  have "Root_cell a \<in> set (root_items fuel s1) \<Longrightarrow> i \<in> group_indices \<Longrightarrow> x \<in> object_set (flipped A) i \<Longrightarrow>
      uint a < uint x \<or> uint x + 2 ^ i \<le> uint a" for a i x
    using pl flipped_object_set [OF I, of i] by (simp add: plain_heap_def)
  then show ?thesis
    unfolding snapshot_start_def
    using F(1,2,4,5,6) v pl al heap_inv_idle [OF I] fp
    by (simp add: barrier_clear_def plain_heap_def w)
qed

lemma finite_black_set: "finite (black_set A)"
  by (simp add: black_set_def group_indices_def)

lemma card_black_set: "card (black_set A) \<le> allocated A"
proof -
  have "card (black_set A) \<le> (\<Sum>i\<in>group_indices. card (set (blacks (A i))))"
    unfolding black_set_def by (rule card_UN_le) (simp add: group_indices_def)
  also have "\<dots> \<le> allocated A" unfolding allocated_def by (intro sum_mono card_length)
  finally show ?thesis .
qed

lemma concurrent_collection_refines:
  assumes I: "heap_inv {} s A H" and e: "\<not> enable_write_barrier s" and ok: "stoppable s ths A H"
    and v: "barrier_clear s" and f: "allocated A < fuel" and fl: "flip ths s = Inr s1"
    and pl: "plain_heap fuel s s1 A" and h: "total_root_scanners h = 0"
    and r: "reachable (header_cells (all_objects A) \<union> hole_cells s (fst ` set H)) s1 (root_items fuel s1) c"
    and m: "phase c = Marked"
  obtains Am s' A' H' where "heap_marking (heap c) Am"
    and "recycle_all_garbage fuel ((heap c)\<lparr>enable_write_barrier := False\<rparr>) = Inr s'" and "heap_inv {} s' A' H'"
    and "swept (all_objects A) (heap c) s'"
    and "live h s1 (set (root_words fuel h s1)) (black_set A) \<subseteq> black_set A'"
    and "\<And>i. i \<in> group_indices \<Longrightarrow> blacks (A' i) = blacks (Am i) \<and> set (blacks (Am i)) \<subseteq> object_set A i \<and>
      set (greens (A i)) - set (greens (Am i)) \<subseteq> set (blacks (A' i))"
    and "\<And>q. 0 \<le> q \<Longrightarrow> q < total_partition_pages s' \<Longrightarrow> settled s' A' q"
proof -
  let ?A0 = "flipped A" and ?rs = "root_items fuel s1" and ?K = "hole_cells s (fst ` set H)"
  note F = flip_frame [OF I e ok fl] and S = flip_snapshot_start [OF I e ok v fl pl] and d = heap_invD [OF I]
  have r': "reachable (header_cells (all_objects ?A0) \<union> ?K) s1 ?rs c" using r unfolding F(2) .
  have r0: "reachable (header_cells (all_objects ?A0)) s1 ?rs c" by (rule reachable_mono [OF r']) simp
  obtain Am where Am: "heap_marking (heap c) Am" "object_set Am = object_set ?A0" "gray_set Am = {}"
    "start_live h s1 ?A0 ?rs \<subseteq> black_set Am" "white_set Am \<subseteq> white_set ?A0 - start_live h s1 ?A0 ?rs"
    "\<And>i. i \<in> group_indices \<Longrightarrow> set (greens (?A0 i)) - set (greens (Am i)) \<subseteq> set (blacks (Am i))"
    by (rule marked_keeps_live [OF S r0 m, where h = h]) (rule that)
  obtain A2 where "world_ok no_hooks s1 ?A0 ?rs c A2" using reachable_world_ok [OF S r0] by blast
  then have "same_pages s1 (heap c)" by (rule same_heapD(2) [OF world_okD(1)])
  then have sp: "same_pages s (heap c)" by (rule same_pages_trans [OF F(3)])
  have ob: "object_set Am i = object_set A i" if "i \<in> group_indices" for i
    using flipped_object_set [OF I that] Am(2) by simp
  have hole: "fst k \<in> groupless s" if "k \<in> set H" for k
  proof -
    have "fst k \<in> (\<Union>h\<in>set H. hole_pages h)"
      using holes_okD(2) [OF d(7) that] that by (auto simp: hole_pages_def)
    then have "fst k \<in> empty_page_set s" using holes_okD(6) [OF d(7)] by auto
    then show ?thesis by (simp add: empty_page_set_def groupless_def)
  qed
  then have kg: "?K \<subseteq> hole_cells s (groupless s)" by (auto simp: hole_cells_def)
  have hp: "0 \<le> p \<and> p < total_partition_pages s \<and> (\<forall>j. pgroup (pages s p) \<noteq> Group j)" if "p \<in> fst ` set H" for p
    using hole that by (auto simp: groupless_def)
  have "x \<notin> ?K \<and> x + 8 \<notin> ?K" if "i \<in> group_indices" "x \<in> object_set A i" for i x
    using object_not_hole [OF I that hp] by blast
  then have K1: "?K \<inter> header_cells (all_objects ?A0) = {}"
    unfolding F(2) by (auto simp: header_cells_def all_objects_def)
  have K2: "\<not> in_body x i a" if "a \<in> ?K" "i \<in> group_indices" "x \<in> object_set ?A0 i" for a i x
    using body_no_hole [OF I that(2), of x a] that(1,3) kg flipped_object_set [OF I that(2)] by (auto simp: in_body_def)
  have mem: "memory (heap c) a = memory s a" if a: "a \<in> ?K" "a \<notin> header_cells (all_objects A)" for a
  proof -
    have "a \<notin> save_area s ths" using ok a(1) unfolding stoppable_def by blast
    then show ?thesis using cells_untouched [OF S r' K1 K2] a F(7) by simp
  qed
  have len: "length (whites (Am i)) < fuel" if i: "i \<in> group_indices" for i
  proof -
    have "length (whites (Am i)) = card (set (whites (Am i)))"
      using heap_marking_distinct [OF Am(1) i] by (simp add: objects_def distinct_card)
    also have "\<dots> \<le> card (black_set A)"
      using Am(5) i by (intro card_mono finite_black_set) (auto simp: color_sets)
    also have "\<dots> \<le> allocated A" by (rule card_black_set)
    finally show ?thesis using f by simp
  qed
  obtain s' A' H' where "recycle_all_garbage fuel ((heap c)\<lparr>enable_write_barrier := False\<rparr>) = Inr s'"
    "heap_inv {} s' A' H'" "swept (all_objects A) (heap c) s'"
    "\<And>i. i \<in> group_indices \<Longrightarrow> blacks (A' i) = blacks (Am i)"
    "\<And>q. 0 \<le> q \<Longrightarrow> q < total_partition_pages s' \<Longrightarrow> settled s' A' q"
  proof (rule sweep_refines [where fuel = fuel, OF I Am(1,3) sp], goal_cases)
    case (4 s' A' H')
    show ?case by (rule 4(1) [OF 4(2-5)]) (use 4(7) in blast)+
  qed (use ob mem len in blast)+
  note 1 = this
  have "item_word (memory s1) ` set ?rs = set (root_words fuel h s1)"
    using pl unfolding plain_heap_def by (intro root_items_words [OF h]) blast
  then have "live h s1 (set (root_words fuel h s1)) (black_set A) \<subseteq> black_set A'"
    using Am(4) 1(4) by (simp add: color_sets black_set_def)
  moreover have "blacks (A' i) = blacks (Am i) \<and> set (blacks (Am i)) \<subseteq> object_set A i \<and>
      set (greens (A i)) - set (greens (Am i)) \<subseteq> set (blacks (A' i))" if i: "i \<in> group_indices" for i
    using 1(4) [OF i] Am(6) [OF i] ob [OF i] i by (auto simp: object_set_def)
  ultimately show thesis by (intro that [OF Am(1) 1(1-3)] 1(5))
qed

end
