(* ===== verification/Spec2Isabelle.thy ===== *)
theory Spec2Isabelle
  imports Page_Properties Handshake_Properties Program_Properties Checker_Properties Concurrent_Collection
begin

text \<open>
  rtgc is a conservative, non-moving, snapshot-at-the-beginning collector for C programs with
  threads: mutators allocate and run while the collector, on the first thread, marks and
  recycles. This development models its C sources and proves them correct, over one state
  record \<open>rt_state\<close> that holds what rtglobals.c declares, and one memory of aligned longs in
  which object headers, hole headers, object bodies, saved stacks and static objects lie.

  The parts of the program, the theories that model them, and what is shown.

  \<^item> Basics: \<open>RT_Prelude\<close> has the errors a run can stop with (a failed assert, the Debugger
    and out_of_memory of rtutil.c, a null or wild access, a loop or wait without end), their
    sequencing \<open>rbind\<close>, the loop \<open>rfold\<close> and the locales \<open>op_refinement\<close> and
    \<open>op_refinement_total\<close>: an operation that refines an abstract one keeps doing so in a loop.
    \<open>Info_Bits\<close> is info-bits.h, \<open>Layout\<close> is mem-config.h, mem-internals.h and rtglobals.c.
  \<^item> Groups (rtgc.c, rtalloc.c, rtcoalesce.c): every size has a group with one list of white
    objects and one of gray, black and green (free) objects. \<open>Link_List\<close> is about linked
    headers, \<open>Group_Lists\<close> has the list surgery of the code and its abstract counterpart
    \<open>agroup\<close>, four lists; \<open>Group_Refine\<close> proves that each operation refines its abstract one.
  \<^item> The heap: \<open>Heap_Shape\<close> goes from an interior pointer to an object and from one group to all
    groups; \<open>Empty_Pages\<close> has the list of holes with its best fit search, \<open>Page_Table\<close> relates
    the page table to the objects; the invariant \<open>heap_inv\<close> of \<open>Coalesce_Refine\<close> joins them.
  \<^item> Marking (rtgc.c): \<open>Trace\<close> traces words, segments and objects, \<open>Tricolour\<close> has the abstract
    invariant (what is live but not black is reachable from gray objects), \<open>Mark\<close> the loops of
    scan_gray_set, \<open>Write_Barrier\<close> the barrier and the write vector, \<open>Roots\<close> the root set.
    \<open>Byte_Barrier\<close> is the other write vector of rtgc.c, of bytes instead of bits, and shows that
    both record and gray the same objects.
  \<^item> Stopping the mutators (rtstop.c): \<open>Stop_World\<close> has the signal handler and the flip, with
    the handlers one after the other, and shows that their order does not matter.
    \<open>Handshake\<close> is the same handshake as a step relation: the collector takes the free_lock of
    every group, signals, waits for the two counters and releases the locks, while each thread
    runs its own code or its handler. Its invariant says what holds at every point,
    \<open>Handshake_Flip\<close> proves that every run with only handlers and locks can be ended and
    ends in the state flip computes, \<open>Handshake_Progress\<close> that each wait is for somebody who can
    move and that every fair run ends, and \<open>Handshake_Properties\<close> shows a window in which a
    thread that runs on can make the collector lose an object.
  \<^item> Marking beside the mutators (rtgc.c): \<open>Interleaving\<close> splits marking into steps of one word,
    one bit or one object, and RTwrite_barrier into its test, its record and its store, and
    interleaves them with allocations. \<open>Snapshot\<close> has the invariant (what was live at the start is
    black, or reachable from what is gray, recorded or still to be scanned), \<open>Snapshot_Steps\<close>
    and \<open>Snapshot_Safety\<close> show that the steps keep it, \<open>Snapshot_Runs\<close> that marking ends,
    \<open>Snapshot_Code\<close> that the functions of the other theories are runs of these steps, and
    \<open>Snapshot_Total\<close> that the loop of full_gc returns from every world the steps can reach, with
    the one result the steps lead to. For that \<open>Mark\<close> has the locale \<open>gray_scanning\<close>, of what a
    loop over the gray set relies on, interpreted on the stopped world and on the snapshot.
    \<open>Concurrent_Collection\<close> puts the flip before these steps and the sweep behind them.
  \<^item> Collections (rtgc.c): \<open>Collector\<close> and \<open>Collection\<close> prove full_gc correct from the flip to
    the holes that rtcoalesce.c (\<open>Coalesce\<close>, \<open>Coalesce_Loops\<close>, \<open>Merge_Holes\<close>) makes.
    \<open>Room\<close> is the report of RTroom: its counts are those of the heap, and its bytes add up.
  \<^item> Allocation (rtalloc.c): \<open>Allocator\<close> has RTallocate and what it calls, \<open>Allocator_Refine\<close>,
    \<open>Allocate_Object\<close> and \<open>Allocate_Refine\<close> prove it. An allocation that waits for collections
    polls gc_count in \<open>poll_gc_count\<close>; what other threads do at each of its sched_yields is an
    argument, a list of functions of the state. The locale \<open>collections\<close> says when the list makes
    the wait end, and is interpreted on lists that start with two runs of full_gc.
  \<^item> Start (rtalloc.c, rtutil.c): \<open>Init_Heap\<close> has RTinit_heap, \<open>Static_Space\<close> RTstatic_allocate,
    \<open>Threads\<close> the table of mutator threads with their start and exit.
  \<^item> The rest: \<open>Util\<close> and \<open>Diagnostics\<close> are rtutil.c, the latter with the pause times, the dump of
    registers and the installation of the handler of rtstop.c; \<open>Word_Tree\<close> and \<open>Main_Program\<close>
    are the client program a.c with its threads; \<open>Signal_Timing\<close> is the benchmark sigtime.c, whose
    two loops and handler are steps. \<open>Wb_Checker\<close> has the tools of wbcheck, over the syntax tree
    that clang gives; what is rewritten is stated over the fields of that tree.

  The properties stand in the theories \<open>Group_Properties\<close>, \<open>Marking_Properties\<close>,
  \<open>Page_Properties\<close>, \<open>Allocation_Properties\<close>, \<open>Startup_Properties\<close>, \<open>Client_Properties\<close>,
  \<open>Program_Properties\<close>, \<open>Checker_Properties\<close>, \<open>Concurrent_Properties\<close>, \<open>Handshake_Properties\<close>
  and below, each with an instance on the heap of \<open>Sample_Heap\<close>, on which \<open>Sample_GC\<close> runs a collection, or on
  concrete data.

  Fuel. Walks of linked lists carry fuel: for holes the number of pages plus one, for the
  entries of threads their number plus one, both proved to be enough; for lists of objects
  and for the passes of scan_gray_set it is an argument, and the theorems ask for more fuel
  than there are objects to scan. Loops over indices are folds.

  Widths. Addresses and words of memory are 64 bit words. C ints and longs are integers, cut
  to their width with \<open>c_int\<close> and \<open>c_long\<close> where the code stores a sum or product. The counters
  of a group are the exception: they and the sums of them in \<open>flip_group\<close> are not cut, and
  \<open>counters_fit\<close> of \<open>Collection\<close> proves that on a heap with the invariant they are in range. The page
  macros need a partition of fewer than \<open>2 ^ 19\<close> pages, since PAGE_INDEX_TO_PTR shifts an int.

  Concurrency. In the theories of single routines a critical section of the code is one step
  and mutexes are not state; full_gc runs with the mutators stopped from the flip on. The
  interleaved models have atomic loads and stores of words and locked updates of the write
  vector, as the processor gives them. In \<open>Interleaving\<close> no thread is inside RTwrite_barrier when
  marking starts, allocation takes objects from free lists, not new pages, and objects have
  the classes NOPOINTERS and POINTERS. In \<open>Handshake\<close> one register per thread is followed, and
  a store through the barrier is one step. That fair runs of the handshake end rests on
  fairness (\<open>fair_run\<close>): a collector that can move again and again moves, which the mutexes of
  pthreads do not promise, a handler that can move does, and no thread keeps a lock for ever.
  The wait of an allocation releases the free_lock of its group; the lock is not state there.

  Not modelled: the parsing, matching and rewriting that the clang library does for the
  tools of wbcheck, the assembler of atomic-booleans.s (its locked instructions are plain updates here), rrhunt.lisp,
  and default_stack_size, whose result is an argument of RTinit_heap. Clocks, files, signals
  and what the thread library returns are arguments; what a function prints is its result.
\<close>

section \<open>A whole collection\<close>

text \<open>
  C1: full_gc, from a heap between collections with a clear write vector and threads that
  can be stopped, does not stop; what is black afterwards is exactly what was allocated and
  is live from the roots saved at the flip; everything else that was allocated is free or
  has left its group; the heap invariant holds again, the colours have changed places, the
  barrier is off and the collection is counted.
\<close>

theorem full_gc_retains_exactly_live:
  assumes "heap_inv {} s A H" and "\<not> enable_write_barrier s" and "stoppable s ths A H"
    and "barrier_clear s" and "allocated A < fuel"
    and "\<And>s1. flip ths s = Inr s1 \<Longrightarrow> roots_ok fuel h (all_objects A) s1 \<and> scannable h s1 (flipped A)"
  shows "\<exists>s1 s' A' H'. flip ths s = Inr s1 \<and> full_gc fuel h ths s = Inr s' \<and> heap_inv {} s' A' H' \<and>
    black_set A' = live h s1 (set (root_words fuel h s1)) (black_set A) \<and>
    (\<forall>i\<in>group_indices. set (greens (A' i)) \<subseteq> set (greens (A i)) \<union> set (blacks (A i)) - black_set A') \<and>
    \<not> enable_write_barrier s' \<and> marked_color s' = unmarked_color s \<and> unmarked_color s' = marked_color s \<and>
    gc_count s' = c_long (gc_count s + 1)"
proof -
  obtain s1 where s1: "flip ths s = Inr s1" using flip_refines [OF assms(1-3)] by blast
  note r = assms(6) [OF s1]
  obtain s' A' H' where "full_gc fuel h ths s = Inr s'" "heap_inv {} s' A' H'"
    "black_set A' = live h s1 (set (root_words fuel h s1)) (black_set A)"
    "\<forall>i\<in>group_indices. set (greens (A' i)) \<subseteq> set (greens (A i)) \<union> set (blacks (A i)) - black_set A'"
    "\<not> enable_write_barrier s'" "marked_color s' = unmarked_color s" "unmarked_color s' = marked_color s"
    "gc_count s' = c_long (gc_count s + 1)"
    using full_gc_refines [OF assms(1-3) s1 conjunct1 [OF r] conjunct2 [OF r] assms(4,5)]
    by (elim exE conjE, intro that) (assumption | blast)+
  then show ?thesis
    using s1 by (intro exI [of _ s1] exI [of _ s'] exI [of _ A'] exI [of _ H']) simp
qed

theorem full_gc_retains_exactly_live_witness:
  "\<exists>s1 s' A' H'. flip [sample_thread] sample_state = Inr s1 \<and>
    full_gc 10 sample_hooks [sample_thread] sample_state = Inr s' \<and> heap_inv {} s' A' H' \<and>
    black_set A' = live sample_hooks s1 (set (root_words 10 sample_hooks s1)) (black_set sample_lists) \<and>
    (\<forall>i\<in>group_indices. set (greens (A' i)) \<subseteq>
       set (greens (sample_lists i)) \<union> set (blacks (sample_lists i)) - black_set A') \<and>
    \<not> enable_write_barrier s' \<and> marked_color s' = unmarked_color sample_state \<and>
    unmarked_color s' = marked_color sample_state \<and> gc_count s' = c_long (gc_count sample_state + 1)"
  by (rule full_gc_retains_exactly_live [OF sample_heap_inv _ sample_stoppable sample_barrier])
    (use sample_flip in \<open>simp_all add: sample_allocated\<close>)

text \<open>
  C6: a collection does not touch what it retains: every word of the body of an object that
  is black afterwards, and its storage class, are as they were, as far as they lie outside
  the areas where the flip saved the threads.
\<close>

theorem full_gc_keeps_contents:
  assumes "heap_inv {} s A H" and "\<not> enable_write_barrier s" and "stoppable s ths A H"
    and "barrier_clear s" and "allocated A < fuel"
    and "\<And>s1. flip ths s = Inr s1 \<Longrightarrow> roots_ok fuel h (all_objects A) s1 \<and> scannable h s1 (flipped A)"
  shows "\<exists>s' A' H'. full_gc fuel h ths s = Inr s' \<and> heap_inv {} s' A' H' \<and>
    (\<forall>i\<in>group_indices. \<forall>x\<in>set (blacks (A' i)).
       x \<in> set (blacks (A i)) \<and>
       (\<forall>a. uint x + 16 \<le> uint a \<longrightarrow> uint a < uint x + 2 ^ i \<longrightarrow> a \<notin> save_area s ths \<longrightarrow>
          memory s' a = memory s a) \<and>
       (x + 8 \<notin> save_area s ths \<longrightarrow> GET_STORAGE_CLASS (memory s') x = GET_STORAGE_CLASS (memory s) x))"
  by (rule full_gc_contents [OF assms])

theorem full_gc_keeps_contents_witness:
  "\<exists>s' A' H'. full_gc 10 sample_hooks [sample_thread] sample_state = Inr s' \<and> heap_inv {} s' A' H' \<and>
    (\<forall>i\<in>group_indices. \<forall>x\<in>set (blacks (A' i)).
       x \<in> set (blacks (sample_lists i)) \<and>
       (\<forall>a. uint x + 16 \<le> uint a \<longrightarrow> uint a < uint x + 2 ^ i \<longrightarrow>
          a \<notin> save_area sample_state [sample_thread] \<longrightarrow> memory s' a = memory sample_state a) \<and>
       (x + 8 \<notin> save_area sample_state [sample_thread] \<longrightarrow>
          GET_STORAGE_CLASS (memory s') x = GET_STORAGE_CLASS (memory sample_state) x))"
  by (rule full_gc_keeps_contents [OF sample_heap_inv _ sample_stoppable sample_barrier])
    (use sample_flip in \<open>simp_all add: sample_allocated\<close>)

text \<open>
  C7: after a collection no page is left whose objects are all free, no page is marked FREE,
  and no two holes touch: every hole ends at a page that is not empty, or with the partition.
\<close>

theorem full_gc_reclaims_pages:
  assumes "heap_inv {} s A H" and "\<not> enable_write_barrier s" and "stoppable s ths A H"
    and "barrier_clear s" and "allocated A < fuel"
    and "\<And>s1. flip ths s = Inr s1 \<Longrightarrow> roots_ok fuel h (all_objects A) s1 \<and> scannable h s1 (flipped A)"
  shows "\<exists>s' A' H'. full_gc fuel h ths s = Inr s' \<and> heap_inv {} s' A' H' \<and>
    (\<forall>q. 0 \<le> q \<longrightarrow> q < total_partition_pages s' \<longrightarrow> settled s' A' q \<and> pgroup (pages s' q) \<noteq> FREE_PAGE) \<and>
    (\<forall>k\<in>set H'. fst k + snd k \<notin> empty_page_set s')"
proof -
  obtain s1 where s1: "flip ths s = Inr s1" using flip_refines [OF assms(1-3)] by blast
  note r = assms(6) [OF s1]
  show ?thesis
    using full_gc_refines [OF assms(1-3) s1 conjunct1 [OF r] conjunct2 [OF r] assms(4,5)] by blast
qed

theorem full_gc_reclaims_pages_witness:
  "\<exists>s' A' H'. full_gc 10 sample_hooks [sample_thread] sample_state = Inr s' \<and> heap_inv {} s' A' H' \<and>
    (\<forall>q. 0 \<le> q \<longrightarrow> q < total_partition_pages s' \<longrightarrow> settled s' A' q \<and> pgroup (pages s' q) \<noteq> FREE_PAGE) \<and>
    (\<forall>k\<in>set H'. fst k + snd k \<notin> empty_page_set s')"
  by (rule full_gc_reclaims_pages [OF sample_heap_inv _ sample_stoppable sample_barrier])
    (use sample_flip in \<open>simp_all add: sample_allocated\<close>)

section \<open>A collection beside running threads\<close>

text \<open>The heap of the handshake, with one thread that cuts the pointer between two objects while marking runs.\<close>

lemma plain_sample_save_area: "save_area (race_state b) [sample_thread] = set (cells 23 0x2000)"
  using sample_save_area by (simp add: save_area_def save_pairs_def race_state_def sample_state_def numeral_eq_Suc)

lemma plain_sample_stoppable: "stoppable (race_state b) [sample_thread] sample_lists sample_holes"
  using sample_stoppable sample_save_area sample_thread_ok(1)
  by (simp add: stoppable_def plain_sample_save_area sample_hole_cells same_pages_facts(6) [OF race_pages] hole_cells_def)
    (simp add: race_state_def)

lemma plain_sample_heap:
  assumes fl: "flip [sample_thread] (race_state False) = Inr s1"
  shows "plain_heap 10 (race_state False) s1 sample_lists"
proof -
  have e: "\<not> enable_write_barrier (race_state False)" by (simp add: race_state_def sample_state_def)
  note F = flip_frame [OF plain_sample_inv e plain_sample_stoppable fl, unfolded plain_sample_save_area]
  have cl: "GET_STORAGE_CLASS (memory s1) x \<in> {SC_NOPOINTERS, SC_POINTERS}" if "x \<in> black_set sample_lists" for x
  proof -
    have x: "x \<in> {0x10000, 0x11000, 0x12000}" using that by (auto simp: black_set_def sample_lists_def split: if_splits)
    then have "x + 8 \<notin> set (cells 23 0x2000)" "aligned x" using sample_cells(1) sample_aligned by auto
    then have "GET_STORAGE_CLASS (memory s1) x = GET_STORAGE_CLASS (memory (race_state False)) x" by (intro F(8))
    moreover have "GET_STORAGE_CLASS (memory (race_state False)) x = (if x = 0x10000 then 1 else 0)"
      using x by (auto simp: race_state_def hdr_defs GET_LINK_INFO_def LINK_INFO_MASK_def LINK_INFO_BITS_def sample_memory_def)
    ultimately show ?thesis by (simp add: sc_defs)
  qed
  obtain sg where sg: "s1 = stopped [sample_thread] sg" "gc_frame (all_objects sample_lists) (race_state False) sg"
    using flip_refines [OF plain_sample_inv e plain_sample_stoppable] fl by auto
  note g = gc_frame_fields [OF sg(2)]
  have th: "total_saved_threads s1 = 1" "global_roots s1 = [0x1000]" "first_static_ptr s1 = 0" "static_frontier_ptr s1 = 0"
    "saved_threads s1 ! 0 = \<lparr>registers = 0x2000, saved_stack_base = 0x3000, saved_stack_size = 0\<rparr>"
    by (simp_all add: sg(1) stopped_def g save_pairs_def race_state_def sample_state_def numeral_eq_Suc saved_thread_def
        sample_thread_ok c_int_def)
  have st: "static_list 10 s1 = []" by (simp add: static_list_def th numeral_eq_Suc)
  have "uint b < 0x10000" if "b \<in> set (cells 23 0x2000)" for b
    using that by (auto simp: cells_numeral GC_POINTER_ALIGNMENT_def)
  then have it: "uint b < 0x10000" if "Root_cell b \<in> set (root_items 10 s1)" for b
    using that by (auto simp: root_items_def th st stack_top_def stack_bottom_of_def GC_POINTER_ALIGNMENT_def segment_length_def)
  have ob: "0x10000 \<le> uint x" if "i \<in> group_indices" "x \<in> object_set sample_lists i" for i x
  proof -
    have "x \<in> all_objects sample_lists" using that by (auto simp: all_objects_def)
    then show ?thesis unfolding sample_all_objects by auto
  qed
  have "RTwrite_vector_length (race_state False) = total_partition_pages (race_state False) * BYTES_PER_PAGE div 2048"
    by (simp add: race_state_def sample_state_def config_defs)
  then show ?thesis
    unfolding plain_heap_def st using cl it ob by (force intro: order.strict_trans2)
qed

text \<open>
  C3: the same with the threads running. From the state after the flip, let the collector
  mark in steps of a word, a bit or an object, and let between any two steps the threads
  store through the barrier, initialise words and allocate, without touching headers of
  objects or holes. When marking ends, the sweep of full_gc does not stop and leaves a heap
  with the invariant; every object that was live at the flip is retained, and every object
  that was allocated meanwhile; the words of a retained object are as marking left them; no
  page is left whose objects are all free.
\<close>

theorem concurrent_collection_retains_live:
  assumes "heap_inv {} s A H" and "\<not> enable_write_barrier s" and "stoppable s ths A H"
    and "barrier_clear s" and "allocated A < fuel" and "flip ths s = Inr s1"
    and "plain_heap fuel s s1 A" and "total_root_scanners h = 0"
    and "reachable (header_cells (all_objects A) \<union> hole_cells s (fst ` set H)) s1 (root_items fuel s1) c"
    and "phase c = Marked"
  shows "\<exists>Am s' A' H'. heap_marking (heap c) Am \<and>
    recycle_all_garbage fuel ((heap c)\<lparr>enable_write_barrier := False\<rparr>) = Inr s' \<and> heap_inv {} s' A' H' \<and>
    live h s1 (set (root_words fuel h s1)) (black_set A) \<subseteq> black_set A' \<and>
    (\<forall>i\<in>group_indices. set (greens (A i)) - set (greens (Am i)) \<subseteq> set (blacks (A' i)) \<and>
      (\<forall>x\<in>set (blacks (A' i)).
        (\<forall>a. uint x + 16 \<le> uint a \<longrightarrow> uint a < uint x + 2 ^ i \<longrightarrow> memory s' a = memory (heap c) a) \<and>
        GET_STORAGE_CLASS (memory s') x = GET_STORAGE_CLASS (memory (heap c)) x)) \<and>
    (\<forall>q. 0 \<le> q \<longrightarrow> q < total_partition_pages s' \<longrightarrow> settled s' A' q)"
proof -
  obtain Am s' A' H' where 1: "heap_marking (heap c) Am"
    "recycle_all_garbage fuel ((heap c)\<lparr>enable_write_barrier := False\<rparr>) = Inr s'" "heap_inv {} s' A' H'"
    "swept (all_objects A) (heap c) s'"
    "live h s1 (set (root_words fuel h s1)) (black_set A) \<subseteq> black_set A'"
    "\<And>i. i \<in> group_indices \<Longrightarrow> blacks (A' i) = blacks (Am i) \<and> set (blacks (Am i)) \<subseteq> object_set A i \<and>
      set (greens (A i)) - set (greens (Am i)) \<subseteq> set (blacks (A' i))"
    "\<And>q. 0 \<le> q \<Longrightarrow> q < total_partition_pages s' \<Longrightarrow> settled s' A' q"
    by (rule concurrent_collection_refines [OF assms]) (rule that)
  have "(\<forall>a. uint x + 16 \<le> uint a \<longrightarrow> uint a < uint x + 2 ^ i \<longrightarrow> memory s' a = memory (heap c) a) \<and>
      GET_STORAGE_CLASS (memory s') x = GET_STORAGE_CLASS (memory (heap c)) x"
    if i: "i \<in> group_indices" and x: "x \<in> set (blacks (A' i))" for i x
  proof -
    have "x \<in> object_set A i" using 1(6) [OF i] x by auto
    note rb = retained_body [OF assms(1) 1(3) i this black_object_set [where A = A', OF x]]
    show ?thesis using sweptD(5,6) [OF 1(4)] rb by blast
  qed
  then show ?thesis
    using 1 by (intro exI [of _ Am] exI [of _ s'] exI [of _ A'] exI [of _ H']) blast
qed

theorem concurrent_collection_retains_live_witness:
  "\<exists>s1 c s' A' H'. flip [sample_thread] (race_state False) = Inr s1 \<and> memory (heap c) 0x10010 = 0 \<and>
    reachable (header_cells (all_objects sample_lists) \<union> hole_cells (race_state False) (fst ` set sample_holes)) s1
      (root_items 10 s1) c \<and>
    recycle_all_garbage 10 ((heap c)\<lparr>enable_write_barrier := False\<rparr>) = Inr s' \<and> heap_inv {} s' A' H' \<and>
    live no_hooks s1 (set (root_words 10 no_hooks s1)) (black_set sample_lists) \<subseteq> black_set A'"
proof -
  let ?s = "race_state False" and ?Hd = "header_cells (all_objects sample_lists) \<union> hole_cells (race_state False) (fst ` set sample_holes)"
  have e: "\<not> enable_write_barrier ?s" and v: "barrier_clear ?s"
    using sample_barrier by (simp_all add: race_state_def barrier_clear_def sample_state_def)
  have h: "total_root_scanners no_hooks = 0" by (simp add: no_hooks_def)
  obtain s1 where fl: "flip [sample_thread] ?s = Inr s1" using flip_refines [OF plain_sample_inv e plain_sample_stoppable] by blast
  note pl = plain_sample_heap [OF fl] and F = flip_frame [OF plain_sample_inv e plain_sample_stoppable fl]
  note S = flip_snapshot_start [OF plain_sample_inv e plain_sample_stoppable v fl pl]
  let ?R = "reachable ?Hd s1 (root_items 10 s1)" and ?c = "marking_start s1 (root_items 10 s1)"
  obtain s' where s': "RTwrite_barrier 0x10010 0 (heap ?c) = Inr s'" "memory s' 0x10010 = 0"
    by (auto simp: RTwrite_barrier_eq Let_def)
  have "(mutator_step ?Hd 0)\<^sup>*\<^sup>* ?c (?c\<lparr>heap := s'\<rparr>)"
    using s'(1) sample_hole_cells
    by (intro barrier_steps) (simp_all add: marking_start_def sample_header_cells hole_cells_def same_pages_facts(6) [OF race_pages])
  then have r1: "?R (?c\<lparr>heap := s'\<rparr>)" by (induction rule: rtranclp_induct) (blast intro: reachable.intros)+
  have r0: "reachable (header_cells (all_objects (flipped sample_lists))) s1 (root_items 10 s1) (?c\<lparr>heap := s'\<rparr>)"
    unfolding F(2) by (rule reachable_mono [OF r1]) simp
  obtain A1 where A1: "world_ok no_hooks s1 (flipped sample_lists) (root_items 10 s1) (?c\<lparr>heap := s'\<rparr>) A1"
    using reachable_world_ok [OF S r0] by blast
  obtain c where c: "collector_step\<^sup>*\<^sup>* (?c\<lparr>heap := s'\<rparr>) c" "phase c = Marked"
    using collector_finishes [OF S A1] by blast
  have "?R c" by (rule reachable_run [OF c(1) r1])
  moreover have "memory (heap c) 0x10010 = 0"
  proof -
    have "0x10010 \<notin> header_cells (all_objects (flipped sample_lists))" unfolding F(2) sample_header_cells by simp
    from collector_run_memory [OF S A1 c(1) this] show ?thesis using s'(2) by simp
  qed
  moreover have "allocated sample_lists < 10" by (simp add: sample_allocated)
  ultimately show ?thesis
    using concurrent_collection_retains_live [OF plain_sample_inv e plain_sample_stoppable v _ fl pl h _ c(2)] fl by blast
qed

end
